(* ===== verification/Prelude.thy ===== *)
theory Prelude
  imports Main "HOL-Library.Word" "HOL-Library.Multiset" "HOL-Library.Monad_Syntax"
begin

text \<open>
  Shared vocabulary of the development: the machine types of the Go sources, what a Go
  function can do beside returning (panic), slice indexing, and the generic lemmas on lists,
  options and words that the component theories use.
\<close>

unbundle bit_operations_syntax

section \<open>Machine types\<close>

type_synonym u8 = "8 word"
type_synonym u16 = "16 word"
type_synonym u32 = "32 word"
type_synonym u64 = "64 word"
type_synonym bytes = "u8 list"

text \<open>
  Go's \<open>int\<close> (heights, levels, rounds, lengths) is modelled by \<^typ>\<open>int\<close>: these values start
  at \<open>-1\<close> and grow by one per unit, far from the 64-bit range. Process ids (\<open>uint16\<close>),
  epochs (\<open>uint32\<close>) and unit ids (\<open>uint64\<close>) are words, so their arithmetic wraps as in Go.
\<close>

text \<open>
  The outcome of a Go function that may panic: \<^const>\<open>None\<close> is the panic (an index out of
  range, a nil dereference, an explicit \<open>panic\<close>), \<^const>\<open>Some\<close> the normal return.
\<close>

type_synonym 'a go = "'a option"

section \<open>Collections of rewrite rules\<close>

named_theorems go_simps \<open>equations of the small accessors of the model\<close>
named_theorems wire_simps \<open>lengths and round trips of the fixed-width encodings\<close>
named_theorems index_laws \<open>laws of the unit indices (slotted units, fiber maps)\<close>

section \<open>Slices\<close>

definition nth_opt :: "'a list \<Rightarrow> nat \<Rightarrow> 'a option" where
  "nth_opt xs i = (if i < length xs then Some (xs ! i) else None)"

lemma nth_opt_Some: "nth_opt xs i = Some x \<longleftrightarrow> i < length xs \<and> xs ! i = x"
  by (auto simp: nth_opt_def)

lemma nth_opt_None: "nth_opt xs i = None \<longleftrightarrow> length xs \<le> i"
  by (auto simp: nth_opt_def)

lemma nth_opt_in_set: "nth_opt xs i = Some x \<Longrightarrow> x \<in> set xs"
  by (auto simp: nth_opt_Some)

text \<open>The loop \<open>for pid := uint16(0); pid < n; pid++\<close> ranges over these process ids.\<close>

definition pids :: "u16 \<Rightarrow> u16 list" where
  "pids n = map of_nat [0..<unat n]"

lemma length_pids [simp]: "length (pids n) = unat n"
  by (simp add: pids_def)

lemma unat_of_nat_less: "i < unat (n :: 'a::len word) \<Longrightarrow> unat (of_nat i :: 'a word) = i"
proof -
  assume "i < unat n"
  also have "unat n < 2 ^ LENGTH('a)" by (rule unsigned_less)
  finally show ?thesis by (simp add: unat_of_nat take_bit_nat_eq_self)
qed

lemma unat_of_nat_le: "i \<le> unat (n :: 'a::len word) \<Longrightarrow> unat (of_nat i :: 'a word) = i"
  using unat_of_nat_less [of i n] by (cases "i = unat n") simp_all

lemma nth_pids [simp]: "i < unat n \<Longrightarrow> pids n ! i = of_nat i"
  by (simp add: pids_def)

lemma set_pids [simp]: "set (pids n) = {p. p < n}"
proof -
  have "p \<in> set (pids n) \<longleftrightarrow> p < n" for p
  proof
    assume "p \<in> set (pids n)"
    then obtain i where "i < unat n" "p = of_nat i" by (auto simp: pids_def)
    then show "p < n" by (simp add: word_less_nat_alt unat_of_nat_less)
  next
    assume "p < n"
    then have "p = of_nat (unat p)" "unat p < unat n" by (simp_all add: word_less_nat_alt)
    then show "p \<in> set (pids n)" by (force simp: pids_def)
  qed
  then show ?thesis by blast
qed

lemma distinct_pids [simp]: "distinct (pids n)"
proof -
  have "inj_on (of_nat :: nat \<Rightarrow> u16) {0..<unat n}"
    by (rule inj_on_inverseI [where g = unat]) (simp add: unat_of_nat_less)
  then show ?thesis by (simp add: pids_def distinct_map)
qed

section \<open>Lists\<close>

lemma map_filter_append: "filter P (xs @ [x]) = (if P x then filter P xs @ [x] else filter P xs)"
  by simp

lemma foldl_invariant:
  assumes "I s" and "\<And>s x. I s \<Longrightarrow> x \<in> set xs \<Longrightarrow> I (f s x)"
  shows "I (foldl f s xs)"
  using assms by (induction xs arbitrary: s) auto

lemma length_concat_const:
  "\<forall>x \<in> set xs. length x = k \<Longrightarrow> length (concat xs) = k * length xs"
  by (induction xs) auto


text \<open>Gathering the elements of a list key by key permutes the elements with these keys.\<close>

lemma mset_concat_by_key:
  "distinct ks \<Longrightarrow> mset (concat (map (\<lambda>k. filter (\<lambda>x. key x = k) xs) ks)) = mset (filter (\<lambda>x. key x \<in> set ks) xs)"
proof (induction ks)
  case (Cons k ks)
  have "mset (filter (\<lambda>x. key x = k) xs) + mset (filter (\<lambda>x. key x \<in> set ks) xs)
      = mset (filter (\<lambda>x. key x \<in> set (k # ks)) xs)"
    using Cons.prems by (induction xs) auto
  then show ?case using Cons by simp
qed simp

lemma concat_map_concat: "concat (map f (concat (map g xs))) = concat (map (\<lambda>x. concat (map f (g x))) xs)"
  by (induction xs) auto

lemma sorted_wrt_all: "(\<And>x y. x \<in> set xs \<Longrightarrow> y \<in> set xs \<Longrightarrow> R x y) \<Longrightarrow> sorted_wrt R xs"
  by (induction xs) auto

lemma sorted_wrt_distinct: "sorted_wrt R xs \<Longrightarrow> (\<And>x. \<not> R x x) \<Longrightarrow> distinct xs"
  by (induction xs) auto

lemma sorted_wrt_mono_distinct:
  "(\<And>x y. R x y \<Longrightarrow> x \<noteq> y \<Longrightarrow> x \<in> set xs \<Longrightarrow> y \<in> set xs \<Longrightarrow> Q x y) \<Longrightarrow> distinct xs \<Longrightarrow> sorted_wrt R xs \<Longrightarrow> sorted_wrt Q xs"
  by (induction xs) auto

lemma sorted_wrt_concat_by_key:
  assumes "sorted_wrt Q ks"
    and "\<And>x y. x \<in> set xs \<Longrightarrow> y \<in> set xs \<Longrightarrow> Q (key x) (key y) \<Longrightarrow> R x y"
    and "\<And>x y. x \<in> set xs \<Longrightarrow> y \<in> set xs \<Longrightarrow> key x = key y \<Longrightarrow> R x y"
  shows "sorted_wrt R (concat (map (\<lambda>k. filter (\<lambda>x. key x = k) xs) ks))"
  using assms(1)
proof (induction ks)
  case (Cons k ks)
  have "sorted_wrt R (filter (\<lambda>x. key x = k) xs)"
    by (rule sorted_wrt_all) (use assms(3) in auto)
  moreover have "\<forall>x \<in> set (filter (\<lambda>x. key x = k) xs).
      \<forall>y \<in> set (concat (map (\<lambda>k. filter (\<lambda>x. key x = k) xs) ks)). R x y"
    using Cons.prems assms(2) by auto
  ultimately show ?case using Cons by (simp add: sorted_wrt_append)
qed simp

lemma distinct_concat_Pair:
  "distinct hs \<Longrightarrow> (\<And>h. distinct (f h)) \<Longrightarrow> distinct (concat (map (\<lambda>h. map (Pair h) (f h)) hs))"
  by (induction hs) (auto simp: distinct_map inj_on_def)

lemma those_map_Some: "\<forall>x \<in> set xs. f x = Some (g x) \<Longrightarrow> those (map f xs) = Some (map g xs)"
  by (induction xs) auto


text \<open>A nil test followed by a condition on the value.\<close>

lemma case_option_ex: "(case x of None \<Rightarrow> False | Some y \<Rightarrow> P y) \<longleftrightarrow> (\<exists>y. x = Some y \<and> P y)"
  by (cases x) auto

text \<open>A loop over a list whose body may panic.\<close>

fun go_fold :: "('s \<Rightarrow> 'a \<Rightarrow> 's go) \<Rightarrow> 's \<Rightarrow> 'a list \<Rightarrow> 's go" where
  "go_fold f s [] = Some s"
| "go_fold f s (x # xs) = do { s' \<leftarrow> f s x; go_fold f s' xs }"

lemma go_fold_cong:
  assumes "\<And>s x. P s \<Longrightarrow> x \<in> set xs \<Longrightarrow> f s x = g s x" "\<And>s x s'. P s \<Longrightarrow> x \<in> set xs \<Longrightarrow> f s x = Some s' \<Longrightarrow> P s'" "P s"
  shows "go_fold f s xs = go_fold g s xs" "go_fold f s xs = Some s' \<Longrightarrow> P s'"
proof -
  have "go_fold f s xs = go_fold g s xs \<and> (go_fold f s xs = Some s' \<longrightarrow> P s')"
    using assms
  proof (induction xs arbitrary: s)
    case (Cons x xs)
    have "f s x = g s x" using Cons.prems by simp
    moreover have "go_fold f s1 xs = go_fold g s1 xs \<and> (go_fold f s1 xs = Some s' \<longrightarrow> P s')" if "f s x = Some s1" for s1
      using Cons.IH [of s1] Cons.prems that by (metis list.set_intros(1,2))
    ultimately show ?case by (cases "g s x") auto
  qed auto
  then show "go_fold f s xs = go_fold g s xs" "go_fold f s xs = Some s' \<Longrightarrow> P s'" by blast+
qed

lemma those_map: "those (map f xs) = Some ys \<longleftrightarrow> list_all2 (\<lambda>x y. f x = Some y) xs ys"
proof (induction xs arbitrary: ys)
  case (Cons x xs)
  then show ?case by (cases ys; cases "f x") auto
qed auto

section \<open>Decimal numbers\<close>

text \<open>What \<open>fmt\<close> prints for an unsigned number.\<close>

fun print_nat :: "nat \<Rightarrow> string" where
  "print_nat n = (if n < 10 then [char_of (48 + n)] else print_nat (n div 10) @ [char_of (48 + n mod 10)])"

declare print_nat.simps [simp del]

end
