(* ===== verification/Wire.thy ===== *)
theory Wire
  imports Prelude
begin

text \<open>
  Byte-level input and output as the sources use it: little-endian integers
  (\<open>encoding/binary\<close>), \<open>io.ReadFull\<close> on a byte stream, and readers that thread the rest of
  the stream. The locale \<open>codec\<close> is the contract between an encoder and the reader that
  decodes its output; the theories that model an encoding interpret it.
\<close>

section \<open>Little-endian integers\<close>

fun le_bytes :: "nat \<Rightarrow> 'a::len word \<Rightarrow> bytes" where
  "le_bytes 0 w = []"
| "le_bytes (Suc k) w = ucast w # le_bytes k (drop_bit 8 w)"

fun le_word :: "bytes \<Rightarrow> 'a::len word" where
  "le_word [] = 0"
| "le_word (b # bs) = ucast b OR push_bit 8 (le_word bs)"

definition PutUint16 :: "u16 \<Rightarrow> bytes" where
  "PutUint16 w = le_bytes 2 w"

definition PutUint32 :: "u32 \<Rightarrow> bytes" where
  "PutUint32 w = le_bytes 4 w"

definition PutUint64 :: "u64 \<Rightarrow> bytes" where
  "PutUint64 w = le_bytes 8 w"

text \<open>The readers below only call \<open>UintN\<close> on buffers of exactly \<open>N/8\<close> bytes.\<close>

definition Uint16 :: "bytes \<Rightarrow> u16" where
  "Uint16 b = le_word b"

definition Uint32 :: "bytes \<Rightarrow> u32" where
  "Uint32 b = le_word b"

definition Uint64 :: "bytes \<Rightarrow> u64" where
  "Uint64 b = le_word b"

lemma length_le_bytes [simp]: "length (le_bytes k w) = k"
  by (induction k arbitrary: w) auto

lemma le_word_step:
  fixes w :: "'a::len word"
  shows "ucast (ucast w :: u8) OR push_bit 8 (take_bit m (drop_bit 8 w)) = take_bit (8 + m) w"
  by (rule bit_word_eqI) (auto simp: bit_simps)

lemma le_word_bytes: "le_word (le_bytes k w) = take_bit (8 * k) w"
  by (induction k arbitrary: w) (simp_all add: le_word_step)

lemma take_bit_LENGTH: "take_bit LENGTH('a) w = (w :: 'a::len word)"
  by (rule bit_word_eqI) (auto simp: bit_simps)

lemma length_PutUint [simp, wire_simps]:
  "length (PutUint16 w) = 2" "length (PutUint32 x) = 4" "length (PutUint64 y) = 8"
  by (simp_all add: PutUint16_def PutUint32_def PutUint64_def)

lemma Uint_Put [simp, wire_simps]:
  "Uint16 (PutUint16 w) = w" "Uint32 (PutUint32 x) = x" "Uint64 (PutUint64 y) = y"
  using take_bit_LENGTH [of w] take_bit_LENGTH [of x] take_bit_LENGTH [of y]
  by (simp_all add: PutUint16_def PutUint32_def PutUint64_def Uint16_def Uint32_def Uint64_def
      le_word_bytes)

section \<open>Readers\<close>

datatype wire_error = EOF | ErrUnexpectedEOF | WireError string

text \<open>
  A reader consumes a prefix of the byte stream: it panics (\<^const>\<open>None\<close>), fails with an
  error, or returns a value and the rest of the stream.
\<close>

type_synonym 'a reader = "bytes \<Rightarrow> (wire_error + 'a \<times> bytes) go"

definition rreturn :: "'a \<Rightarrow> 'a reader" where
  "rreturn x s = Some (Inr (x, s))"

definition rfail :: "wire_error \<Rightarrow> 'a reader" where
  "rfail e s = Some (Inl e)"

definition rpanic :: "'a reader" where
  "rpanic s = None"

definition rbind :: "'a reader \<Rightarrow> ('a \<Rightarrow> 'b reader) \<Rightarrow> 'b reader" where
  "rbind m f s =
     (case m s of
        None \<Rightarrow> None
      | Some (Inl e) \<Rightarrow> Some (Inl e)
      | Some (Inr (x, s')) \<Rightarrow> f x s')"

text \<open>\<open>io.ReadFull(r, buf)\<close> with a buffer of \<open>n\<close> bytes.\<close>

definition ReadFull :: "nat \<Rightarrow> bytes reader" where
  "ReadFull n s =
     (if n \<le> length s then Some (Inr (take n s, drop n s))
      else if s = [] then Some (Inl EOF) else Some (Inl ErrUnexpectedEOF))"

text \<open>\<open>for i := range result { result[i], err = read(); if err != nil \{ return \} }\<close>\<close>

fun read_n :: "nat \<Rightarrow> 'a reader \<Rightarrow> 'a list reader" where
  "read_n 0 r = rreturn []"
| "read_n (Suc n) r = rbind r (\<lambda>x. rbind (read_n n r) (\<lambda>xs. rreturn (x # xs)))"

lemma ReadFull_append [wire_simps]: "n = length b \<Longrightarrow> ReadFull n (b @ rest) = Some (Inr (b, rest))"
  by (simp add: ReadFull_def)

lemma rbind_Inr [wire_simps]: "m s = Some (Inr (x, s')) \<Longrightarrow> rbind m f s = f x s'"
  by (simp add: rbind_def)

lemma rbind_Inl [wire_simps]: "m s = Some (Inl e) \<Longrightarrow> rbind m f s = Some (Inl e)"
  by (simp add: rbind_def)

lemma rbind_cases:
  assumes "rbind m f s = Some r"
  obtains (err) e where "m s = Some (Inl e)" and "r = Inl e"
    | (ok) x s' where "m s = Some (Inr (x, s'))" and "f x s' = Some r"
  using assms by (auto simp: rbind_def split: option.splits sum.splits)

section \<open>The contract of an encoding\<close>

text \<open>
  \<open>enc\<close> may panic (\<^const>\<open>None\<close>). The law says that on valid values the encoder returns and
  the reader recovers the value from its bytes, consuming exactly them.
\<close>

locale codec =
  fixes enc :: "'a \<Rightarrow> bytes go"
    and dec :: "'a reader"
    and valid :: "'a \<Rightarrow> bool"
  assumes enc_total: "valid x \<Longrightarrow> \<exists>bs. enc x = Some bs"
    and dec_enc: "valid x \<Longrightarrow> enc x = Some bs \<Longrightarrow> dec (bs @ rest) = Some (Inr (x, rest))"
begin

lemma enc_inject:
  assumes "valid x" "valid y" "enc x = Some bs" "enc y = Some cs" "bs @ r = cs @ r'"
  shows "x = y \<and> r = r'"
  using dec_enc [OF assms(1,3), of r] dec_enc [OF assms(2,4), of r'] assms(5) by simp

fun enc_all :: "'a list \<Rightarrow> bytes go" where
  "enc_all [] = Some []"
| "enc_all (x # xs) = do { b \<leftarrow> enc x; bs \<leftarrow> enc_all xs; Some (b @ bs) }"

lemma enc_all_total: "\<forall>x \<in> set xs. valid x \<Longrightarrow> \<exists>bs. enc_all xs = Some bs"
proof (induction xs)
  case (Cons x xs)
  obtain b where "enc x = Some b" using enc_total [of x] Cons.prems by auto
  moreover obtain bs where "enc_all xs = Some bs" using Cons by auto
  ultimately show ?case by simp
qed simp

lemma read_n_enc_all:
  "\<forall>x \<in> set xs. valid x \<Longrightarrow> enc_all xs = Some bs \<Longrightarrow>
   read_n (length xs) dec (bs @ rest) = Some (Inr (xs, rest))"
proof (induction xs arbitrary: bs)
  case Nil
  then show ?case by (simp add: rreturn_def)
next
  case (Cons x xs)
  obtain b cs where b: "enc x = Some b" and cs: "enc_all xs = Some cs" and bs: "bs = b @ cs"
    using Cons.prems(2) by (auto split: bind_splits)
  have "read_n (length xs) dec (cs @ rest) = Some (Inr (xs, rest))"
    using Cons.IH [OF _ cs] Cons.prems(1) by simp
  moreover have "dec (b @ cs @ rest) = Some (Inr (x, cs @ rest))"
    using dec_enc [OF _ b] Cons.prems(1) by simp
  ultimately show ?case by (simp add: bs rbind_Inr rreturn_def)
qed

end

text \<open>The integers are the first codecs.\<close>

definition read_u16 :: "u16 reader" where
  "read_u16 = rbind (ReadFull 2) (\<lambda>b. rreturn (Uint16 b))"

definition read_u32 :: "u32 reader" where
  "read_u32 = rbind (ReadFull 4) (\<lambda>b. rreturn (Uint32 b))"

definition read_u64 :: "u64 reader" where
  "read_u64 = rbind (ReadFull 8) (\<lambda>b. rreturn (Uint64 b))"

lemma read_uints [wire_simps]:
  "read_u16 (PutUint16 x @ rest) = Some (Inr (x, rest))"
  "read_u32 (PutUint32 y @ rest) = Some (Inr (y, rest))"
  "read_u64 (PutUint64 z @ rest) = Some (Inr (z, rest))"
  by (simp_all add: read_u16_def read_u32_def read_u64_def rreturn_def wire_simps)

interpretation u16_codec: codec "\<lambda>x. Some (PutUint16 x)" read_u16 "\<lambda>_. True"
  by unfold_locales (auto simp: wire_simps)

interpretation u32_codec: codec "\<lambda>x. Some (PutUint32 x)" read_u32 "\<lambda>_. True"
  by unfold_locales (auto simp: wire_simps)

interpretation u64_codec: codec "\<lambda>x. Some (PutUint64 x)" read_u64 "\<lambda>_. True"
  by unfold_locales (auto simp: wire_simps)

end
