(* ===== verification/Preunits.thy ===== *)
theory Preunits
  imports Wire
begin

text \<open>
  Hashes, crowns, unit ids and preunits: \<open>pkg/gomel/hash.go\<close>, \<open>crown.go\<close>,
  \<open>preunit.go\<close>, \<open>types.go\<close> and \<open>pkg/unit/preunit.go\<close>. The hash function
  \<open>sha3.ShakeSum128\<close> (32 bytes of output) is a parameter \<open>shake\<close>.
\<close>

section \<open>Hashes (\<open>pkg/gomel/hash.go\<close>, \<open>types.go\<close>)\<close>

text \<open>\<open>type Hash [HashLength]byte\<close>; a value of the Go type is a list of 32 bytes.\<close>

type_synonym hash = bytes
type_synonym EpochID = u32
type_synonym Signature = bytes

definition HashLength :: nat where
  "HashLength = 32"

fun LessThan :: "hash \<Rightarrow> hash \<Rightarrow> bool" where
  "LessThan (a # h) (b # k) =
     (if a < b then True else if a > b then False else LessThan h k)"
| "LessThan _ _ = False"

definition XOR_hash :: "hash \<Rightarrow> hash \<Rightarrow> hash" where
  "XOR_hash h k = map2 (XOR) h k"

definition XOREqual :: "hash \<Rightarrow> hash \<Rightarrow> hash" where
  "XOREqual h k = map2 (XOR) h k"

definition ZeroHash :: hash where
  "ZeroHash = replicate HashLength 0"

definition CombineHashes :: "(bytes \<Rightarrow> hash) \<Rightarrow> hash option list \<Rightarrow> hash" where
  "CombineHashes shake hashes =
     shake (concat (map (\<lambda>h. case h of Some k \<Rightarrow> k | None \<Rightarrow> ZeroHash) hashes))"

text \<open>
  On hashes of equal length \<^const>\<open>LessThan\<close> is a strict linear order (the comment in the
  source: ``used to create a linear order on hashes'').
\<close>

lemma LessThan_irrefl [simp]: "\<not> LessThan h h"
  by (induction h) auto

lemma LessThan_trans: "LessThan a b \<Longrightarrow> LessThan b c \<Longrightarrow> LessThan a c"
proof (induction a b arbitrary: c rule: LessThan.induct)
  case (1 a h b k)
  then show ?case by (cases c) (auto split: if_splits)
qed auto

lemma LessThan_total: "length a = length b \<Longrightarrow> a \<noteq> b \<Longrightarrow> LessThan a b \<or> LessThan b a"
  by (induction a b rule: list_induct2) auto

lemma length_XOR [simp]: "length h = length k \<Longrightarrow> length (XOR_hash h k) = length h"
  by (simp add: XOR_hash_def)

lemma XOR_hash_cancel: "length t = length h \<Longrightarrow> length t = length k \<Longrightarrow>
  XOR_hash t h = XOR_hash t k \<longleftrightarrow> h = k"
proof (induction t h arbitrary: k rule: list_induct2)
  case (Cons x xs y ys)
  then obtain z zs where k: "k = z # zs" by (cases k) auto
  have "x XOR y = x XOR z \<longleftrightarrow> y = z"
    by (metis xor.left_neutral xor.assoc xor_self_eq)
  with Cons k show ?case by (auto simp: XOR_hash_def)
qed (simp add: XOR_hash_def)

section \<open>Crowns (\<open>pkg/gomel/crown.go\<close>)\<close>

record Crown =
  Heights :: "int list"
  ControlHash :: hash

definition EmptyCrown :: "(bytes \<Rightarrow> hash) \<Rightarrow> u16 \<Rightarrow> Crown" where
  "EmptyCrown shake nProc =
     \<lparr>Heights = replicate (unat nProc) (-1),
      ControlHash = CombineHashes shake (replicate (unat nProc) None)\<rparr>"

definition NewCrown :: "int list \<Rightarrow> hash \<Rightarrow> Crown" where
  "NewCrown heights hash = \<lparr>Heights = heights, ControlHash = hash\<rparr>"

section \<open>Unit ids (\<open>pkg/gomel/preunit.go\<close>)\<close>

definition ID :: "int \<Rightarrow> u16 \<Rightarrow> EpochID \<Rightarrow> u64" where
  "ID height creator epoch =
     word_of_int height + push_bit 16 (ucast creator) + push_bit 32 (ucast epoch)"

definition DecodeID :: "u64 \<Rightarrow> int \<times> u16 \<times> EpochID" where
  "DecodeID uid =
     (uint (uid AND (push_bit 16 1 - 1)),
      let uid' = drop_bit 16 uid in
      (ucast (uid' AND (push_bit 16 1 - 1)), ucast (drop_bit 16 uid')))"

section \<open>Preunits (\<open>pkg/unit/preunit.go\<close>)\<close>

text \<open>
  \<open>rsData\<close> keeps the difference between a nil slice (\<^const>\<open>None\<close>) and an empty one,
  which the coin's compliance check observes; the payload \<open>data\<close> is only ever read through
  its length and bytes.
\<close>

record preunit =
  pu_creator :: u16
  pu_epochID :: EpochID
  pu_height :: int
  pu_signature :: Signature
  pu_hash :: hash
  pu_crown :: Crown
  pu_data :: bytes
  pu_rsData :: "bytes option"

definition bytes_of :: "bytes option \<Rightarrow> bytes" where
  "bytes_of s = (case s of None \<Rightarrow> [] | Some b \<Rightarrow> b)"

lemma bytes_of_simps [simp]: "bytes_of None = []" "bytes_of (Some b) = b"
  by (simp_all add: bytes_of_def)

text \<open>A height as it is written on the wire and hashed: \<open>-1\<close> is \<open>math.MaxUint32\<close>.\<close>

definition encode_height :: "int \<Rightarrow> u32" where
  "encode_height h = (if h = -1 then - 1 else word_of_int h)"

definition computeHash :: "(bytes \<Rightarrow> hash) \<Rightarrow> u64 \<Rightarrow> Crown \<Rightarrow> bytes \<Rightarrow> bytes option \<Rightarrow> hash" where
  "computeHash shake uid crown data rsData =
     shake (PutUint64 uid @ data @ bytes_of rsData
            @ concat (map (\<lambda>h. PutUint32 (encode_height h)) (Heights crown)) @ ControlHash crown)"

text \<open>
  \<open>NewPreunit\<close> panics when the creator has no entry in the crown (an index out of range) and
  when the height in the id contradicts the crown (the explicit \<open>panic\<close>).
\<close>

definition NewPreunit ::
  "(bytes \<Rightarrow> hash) \<Rightarrow> u64 \<Rightarrow> Crown \<Rightarrow> bytes \<Rightarrow> bytes option \<Rightarrow> Signature \<Rightarrow> preunit go" where
  "NewPreunit shake uid crown data rsData signature =
     (case DecodeID uid of (h, creator, epoch) \<Rightarrow>
        do { ch \<leftarrow> nth_opt (Heights crown) (unat creator);
             if h \<noteq> ch + 1 then None
             else Some \<lparr>pu_creator = creator, pu_epochID = epoch, pu_height = h,
                    pu_signature = signature, pu_hash = computeHash shake uid crown data rsData,
                    pu_crown = crown, pu_data = data, pu_rsData = rsData\<rparr> })"

definition UnitID :: "preunit \<Rightarrow> u64" where
  "UnitID u = ID (pu_height u) (pu_creator u) (pu_epochID u)"

definition Equal :: "preunit \<Rightarrow> preunit \<Rightarrow> bool" where
  "Equal u v \<longleftrightarrow> pu_creator u = pu_creator v \<and> pu_height u = pu_height v
     \<and> pu_epochID u = pu_epochID v \<and> pu_hash u = pu_hash v"

definition Dealing :: "preunit \<Rightarrow> bool" where
  "Dealing u \<longleftrightarrow> pu_height u = 0"

lemma Equal_refl [simp]: "Equal u u"
  by (simp add: Equal_def)

section \<open>Ids identify height, creator and epoch\<close>

lemma ID_bits:
  assumes "0 \<le> h" "h < 2 ^ 16"
  shows "ID h c e = word_of_int h OR push_bit 16 (ucast c) OR push_bit 32 (ucast e)"
proof -
  define w :: u64 where "w = word_of_int h"
  have w: "bit w n \<Longrightarrow> n < 16" for n
  proof -
    assume "bit w n"
    moreover have "take_bit 16 h = h" using assms by (simp add: take_bit_int_eq_self)
    then have "w = take_bit 16 w" by (simp add: w_def take_bit_word_eq_self flip: of_int_take_bit)
    ultimately show "n < 16" by (metis bit_take_bit_iff)
  qed
  have 1: "w + push_bit 16 (ucast c) = w OR push_bit 16 (ucast c :: u64)"
    by (rule disjunctive_add) (auto dest: w simp: bit_simps)
  have 2: "(w OR push_bit 16 (ucast c)) + push_bit 32 (ucast e :: u64)
      = (w OR push_bit 16 (ucast c)) OR push_bit 32 (ucast e)"
    by (rule disjunctive_add) (auto dest: w bit_imp_le_length simp: bit_simps)
  show ?thesis by (simp add: ID_def 1 2 or.assoc flip: w_def)
qed

lemma mask16: "(w :: u64) AND 65535 = take_bit 16 w"
  by (simp add: take_bit_eq_mask mask_eq_exp_minus_1)

lemma DecodeID_bits:
  "DecodeID uid = (uint (take_bit 16 uid), ucast (drop_bit 16 uid), ucast (drop_bit 32 uid))"
proof -
  have "ucast (take_bit 16 (drop_bit 16 uid)) = (ucast (drop_bit 16 uid) :: u16)"
    by (rule bit_word_eqI) (auto simp: bit_simps)
  moreover have "drop_bit 16 (drop_bit 16 uid) = drop_bit 32 uid"
    by simp
  ultimately show ?thesis
    by (simp add: DecodeID_def mask16 Let_def)
qed

lemma DecodeID_ID_lemma:
  assumes "0 \<le> h" "h < 2 ^ 16"
  shows "DecodeID (ID h c e) = (h, c, e)"
proof -
  define w :: u64 where "w = word_of_int h"
  have h: "take_bit 16 h = h" using assms by (simp add: take_bit_int_eq_self)
  have w: "bit w n \<longleftrightarrow> n < 16 \<and> bit h n" for n
  proof -
    have "bit h n \<Longrightarrow> n < 16" using h by (metis bit_take_bit_iff)
    then show ?thesis by (auto simp: w_def bit_word_of_int_iff)
  qed
  have 1: "take_bit 16 (ID h c e) = w"
    by (rule bit_word_eqI) (auto simp: ID_bits [OF assms] w bit_simps simp flip: w_def)
  have 2: "ucast (drop_bit 16 (ID h c e)) = c"
    by (rule bit_word_eqI) (auto simp: ID_bits [OF assms] w bit_simps simp flip: w_def)
  have 3: "ucast (drop_bit 32 (ID h c e)) = e"
    by (rule bit_word_eqI) (auto dest: bit_imp_le_length
        simp: ID_bits [OF assms] w bit_simps simp flip: w_def)
  have "uint w = h" using assms by (simp add: w_def uint_word_of_int_eq take_bit_int_eq_self)
  then show ?thesis by (simp add: DecodeID_bits 1 2 3)
qed

lemma ID_DecodeID_lemma:
  "DecodeID uid = (h, c, e) \<Longrightarrow> ID h c e = uid"
proof -
  assume d: "DecodeID uid = (h, c, e)"
  then have h: "h = uint (take_bit 16 uid)" and c: "c = ucast (drop_bit 16 uid)"
    and e: "e = ucast (drop_bit 32 uid)" by (simp_all add: DecodeID_bits)
  have "uint (take_bit 16 uid) < 2 ^ 16"
    using take_bit_int_less_exp [of 16 "uint uid"] by (simp add: unsigned_take_bit_eq)
  then have b: "0 \<le> h" "h < 2 ^ 16" by (simp_all add: h)
  have w: "word_of_int h = take_bit 16 uid" by (simp add: h)
  show "ID h c e = uid"
  proof (rule bit_word_eqI)
    fix n :: nat
    assume "n < LENGTH(64)"
    then consider "n < 16" | "16 \<le> n" "n < 32" | "32 \<le> n" "n < 64" by force
    then show "bit (ID h c e) n = bit uid n"
      by cases (auto simp: ID_bits [OF b] w c e bit_simps)
  qed
qed

lemma DecodeID_bounds: "DecodeID uid = (h, c, e) \<Longrightarrow> 0 \<le> h \<and> h < 2 ^ 16"
  using take_bit_int_less_exp [of 16 "uint uid"] by (auto simp: DecodeID_bits unsigned_take_bit_eq)


text \<open>
  \<open>DecodeID\<close> inverts \<open>ID\<close> for heights below \<open>2^16\<close>, and every id is the \<open>ID\<close> of what it
  decodes to; so an id determines height, creator and epoch.
\<close>

theorem ID_roundtrip:
  "(0 \<le> h \<and> h < 2 ^ 16 \<longrightarrow> DecodeID (ID h c e) = (h, c, e))
   \<and> (case DecodeID uid of (h', c', e') \<Rightarrow> ID h' c' e' = uid \<and> 0 \<le> h' \<and> h' < 2 ^ 16)"
  using DecodeID_ID_lemma [of h c e] ID_DecodeID_lemma [of uid] DecodeID_bounds [of uid]
  by (auto split: prod.splits)

theorem ID_roundtrip_witness: "DecodeID (ID 5 3 7) = (5, 3, 7)"
  using ID_roundtrip [of 5 3 7] by simp

text \<open>
  Past \<open>2^16\<close> ids overlap: a unit of that height gets the id of the dealing unit of the next
  process, so ids are only unique while heights stay below \<open>2^16\<close>.
\<close>

theorem ID_overflow_aliases: "ID (2 ^ 16) c e = ID 0 c e + 2 ^ 16 \<and> ID 65536 3 e = ID 0 4 e"
proof -
  have "push_bit 16 (ucast (3 :: u16)) = (196608 :: u64)" "push_bit 16 (ucast (4 :: u16)) = (262144 :: u64)"
    by (simp_all add: push_bit_eq_mult)
  then show ?thesis by (simp add: ID_def)
qed

end
