(* ===== verification/Units.thy ===== *)
theory Units
  imports Preunits
begin

text \<open>
  Units and the functions on them: \<open>pkg/gomel/unit.go\<close>, \<open>pkg/gomel/crown.go\<close>
  (crowns of parents), \<open>pkg/gomel/errors.go\<close>, \<open>pkg/unit/free_unit.go\<close> and the methods of
  \<open>pkg/unit/unit_in_dag.go\<close>. The quorum size \<open>crypto.MinimalQuorum\<close> is a parameter \<open>mq\<close>,
  the signing key's \<open>Sign\<close> a parameter \<open>sign\<close>.
\<close>

section \<open>The two implementations of \<open>gomel.Unit\<close>\<close>

text \<open>
  Units are immutable once built, so a pointer to a unit is modelled by the unit itself and
  the slice of parents by a list of optional units (a nil parent is \<^const>\<open>None\<close>).
  \<open>freeUnit pu parents level floor\<close> is the struct of \<open>free_unit.go\<close>, with the map
  \<open>floor\<close> as an association list; \<open>unitInDag u forkingHeight\<close> that of \<open>unit_in_dag.go\<close>.
\<close>

datatype Unit =
    freeUnit preunit "Unit option list" int "(u16 \<times> Unit list) list"
  | unitInDag Unit int

fun preunit_of :: "Unit \<Rightarrow> preunit" where
  "preunit_of (freeUnit pu ps l fl) = pu"
| "preunit_of (unitInDag u fh) = preunit_of u"

fun Parents :: "Unit \<Rightarrow> Unit option list" where
  "Parents (freeUnit pu ps l fl) = ps"
| "Parents (unitInDag u fh) = Parents u"

fun Level :: "Unit \<Rightarrow> int" where
  "Level (freeUnit pu ps l fl) = l"
| "Level (unitInDag u fh) = Level u"

definition Creator :: "Unit \<Rightarrow> u16" where "Creator u = pu_creator (preunit_of u)"
definition Height :: "Unit \<Rightarrow> int" where "Height u = pu_height (preunit_of u)"
definition Epoch :: "Unit \<Rightarrow> EpochID" where "Epoch u = pu_epochID (preunit_of u)"
definition Hash :: "Unit \<Rightarrow> hash" where "Hash u = pu_hash (preunit_of u)"

lemma in_dag_accessors [simp]:
  "Creator (unitInDag u fh) = Creator u" "Height (unitInDag u fh) = Height u"
  "Epoch (unitInDag u fh) = Epoch u" "Hash (unitInDag u fh) = Hash u"
  by (simp_all add: Creator_def Height_def Epoch_def Hash_def)

lemma free_accessors [simp]:
  "Creator (freeUnit pu ps l fl) = pu_creator pu" "Height (freeUnit pu ps l fl) = pu_height pu"
  "Epoch (freeUnit pu ps l fl) = pu_epochID pu" "Hash (freeUnit pu ps l fl) = pu_hash pu"
  by (simp_all add: Creator_def Height_def Epoch_def Hash_def)

text \<open>
  \<open>parents[pid]\<close>. Outside the slice Go panics; the model reads \<^const>\<open>None\<close> there, and
  \<open>wf_unit\<close> below, which the checks of the dag enforce, says that no such read happens.
\<close>

definition parent_at :: "Unit option list \<Rightarrow> u16 \<Rightarrow> Unit option" where
  "parent_at ps pid = (if unat pid < length ps then ps ! unat pid else None)"

definition Predecessor :: "Unit \<Rightarrow> Unit option" where
  "Predecessor u = parent_at (Parents u) (Creator u)"

lemma parent_at_in_set: "parent_at ps pid = Some p \<Longrightarrow> Some p \<in> set ps"
  by (auto simp: parent_at_def split: if_splits dest: nth_mem)

lemma parent_size: "Some p \<in> set (Parents u) \<Longrightarrow> size p < size u"
proof (induction u)
  case (freeUnit pu ps l fl)
  have "size p < size_option size (Some p)" by simp
  also have "\<dots> \<le> size_list (size_option size) ps"
    using freeUnit.prems by (intro size_list_estimation' [where x = "Some p"]) auto
  also have "\<dots> < size (freeUnit pu ps l fl)" by simp
  finally show ?case .
qed simp

lemma Predecessor_in_Parents: "Predecessor u = Some p \<Longrightarrow> Some p \<in> set (Parents u)"
  by (simp add: Predecessor_def parent_at_in_set)

lemma Predecessor_size: "Predecessor u = Some p \<Longrightarrow> size p < size u"
  by (simp add: Predecessor_in_Parents parent_size)

section \<open>Errors (\<open>pkg/gomel/errors.go\<close>)\<close>

datatype gerror =
    DataError string
  | ComplianceError string
  | DuplicateUnit Unit
  | DuplicatePreunit preunit
  | UnknownParents int
  | AmbiguousParents "Unit list list"
  | noCommitment string
  | OtherError string

section \<open>Comparing units (\<open>unit.go\<close>, \<open>free_unit.go\<close>, \<open>unit_in_dag.go\<close>)\<close>

text \<open>The loop \<open>for w = u; w != nil && w.Height() > h; w = Predecessor(w) \{\}\<close>.\<close>

function descendTo :: "Unit option \<Rightarrow> int \<Rightarrow> Unit option" where
  "descendTo None h = None"
| "descendTo (Some w) h = (if Height w > h then descendTo (Predecessor w) h else Some w)"
  by pat_completeness auto
termination
proof (relation "measure (\<lambda>(w, h). case w of None \<Rightarrow> 0 | Some u \<Rightarrow> Suc (size u))")
  fix w :: Unit and h
  show "((Predecessor w, h), (Some w, h)) \<in> measure (\<lambda>(w, h). case w of None \<Rightarrow> 0 | Some u \<Rightarrow> Suc (size u))"
    by (cases "Predecessor w") (auto dest: Predecessor_size)
qed simp

definition commonForkingHeight :: "int \<Rightarrow> int \<Rightarrow> int" where
  "commonForkingHeight ufh vfh = (if ufh < vfh then ufh else vfh)"

fun AboveWithinProc :: "Unit \<Rightarrow> Unit \<Rightarrow> bool" where
  "AboveWithinProc (freeUnit pu ps l fl) v =
     (if pu_creator pu \<noteq> Creator v then False
      else case descendTo (Some (freeUnit pu ps l fl)) (Height v) of
             None \<Rightarrow> False
           | Some w \<Rightarrow> Hash w = Hash v)"
| "AboveWithinProc (unitInDag u fh) v =
     (if Height u < Height v \<or> Creator u \<noteq> Creator v then False
      else if (case v of unitInDag _ vfh \<Rightarrow> Height v \<le> commonForkingHeight fh vfh | _ \<Rightarrow> False) then True
      else AboveWithinProc u v)"

fun Floor :: "Unit \<Rightarrow> u16 \<Rightarrow> Unit list" where
  "Floor (freeUnit pu ps l fl) pid =
     (case map_of fl pid of
        Some f \<Rightarrow> f
      | None \<Rightarrow> (case parent_at ps pid of None \<Rightarrow> [] | Some p \<Rightarrow> [p]))"
| "Floor (unitInDag u fh) pid = Floor u pid"

definition above :: "Unit \<Rightarrow> Unit \<Rightarrow> bool" where
  "above u v \<longleftrightarrow> Equal (preunit_of u) (preunit_of v)
     \<or> (\<exists>w \<in> set (Floor u (Creator v)). AboveWithinProc w v)"

text \<open>\<open>gomel.Above\<close> also accepts nil units.\<close>

definition Above :: "Unit option \<Rightarrow> Unit option \<Rightarrow> bool" where
  "Above u v = (case (u, v) of (Some u', Some v') \<Rightarrow> above u' v' | _ \<Rightarrow> False)"

definition BelowAny :: "Unit \<Rightarrow> Unit option list \<Rightarrow> bool" where
  "BelowAny u us = list_ex (\<lambda>v. v \<noteq> None \<and> Above v (Some u)) us"

definition ToHashes :: "Unit option list \<Rightarrow> hash option list" where
  "ToHashes units = map (map_option Hash) units"

section \<open>Levels, floors and crowns from parents\<close>

fun level_step :: "int \<times> u16 \<Rightarrow> Unit option \<Rightarrow> int \<times> u16" where
  "level_step (level, onLevel) None = (level, onLevel)"
| "level_step (level, onLevel) (Some p) =
     (if Level p = level then (level, onLevel + 1)
      else if Level p > level then (Level p, 1)
      else (level, onLevel))"

definition LevelFromParents :: "(u16 \<Rightarrow> u16) \<Rightarrow> Unit option list \<Rightarrow> int" where
  "LevelFromParents mq parents =
     (case foldl level_step (0, 0) parents of (level, onLevel) \<Rightarrow>
        if onLevel \<ge> mq (of_nat (length parents)) then level + 1 else level)"

text \<open>The inner loop of \<open>MaximalByPid\<close>: \<open>(found, ri)\<close> for \<open>w\<close> against \<open>maximal\<close>.\<close>

fun find_slot :: "Unit \<Rightarrow> int \<Rightarrow> Unit list \<Rightarrow> bool \<times> int" where
  "find_slot w ix [] = (False, -1)"
| "find_slot w ix (v # vs) =
     (if above w v then (True, ix)
      else if above v w then (True, -1)
      else find_slot w (ix + 1) vs)"

definition add_maximal :: "Unit list \<Rightarrow> Unit \<Rightarrow> Unit list" where
  "add_maximal maximal w =
     (case find_slot w 0 maximal of (found, ri) \<Rightarrow>
        if \<not> found then maximal @ [w]
        else if ri \<ge> 0 then maximal[nat ri := w]
        else maximal)"

definition MaximalByPid :: "Unit option list \<Rightarrow> u16 \<Rightarrow> Unit list" where
  "MaximalByPid parents pid =
     (case parent_at parents pid of
        None \<Rightarrow> []
      | Some p \<Rightarrow>
          foldl (\<lambda>maximal parent. case parent of
                   None \<Rightarrow> maximal
                 | Some q \<Rightarrow> foldl add_maximal maximal (Floor q pid))
                [p] parents)"

definition computeFloor :: "preunit \<Rightarrow> Unit option list \<Rightarrow> (u16 \<times> Unit list) list" where
  "computeFloor pu parents =
     (if Dealing pu then []
      else concat (map (\<lambda>pid.
             let maximal = MaximalByPid parents pid in
             if length maximal > 1 \<or>
                (length maximal = 1 \<and>
                 (case parent_at parents pid of
                    None \<Rightarrow> False
                  | Some p \<Rightarrow> \<not> Equal (preunit_of (hd maximal)) (preunit_of p)))
             then [(pid, maximal)] else [])
           (pids (of_nat (length parents)))))"

definition CrownFromParents :: "(bytes \<Rightarrow> hash) \<Rightarrow> Unit option list \<Rightarrow> Crown" where
  "CrownFromParents shake parents =
     \<lparr>Heights = map (\<lambda>u. case u of None \<Rightarrow> -1 | Some p \<Rightarrow> Height p) parents,
      ControlHash = CombineHashes shake
        (map (\<lambda>u. case u of None \<Rightarrow> Some ZeroHash | Some p \<Rightarrow> Some (Hash p)) parents)\<rparr>"

text \<open>\<open>unit.FromPreunit\<close> and \<open>unit.New\<close>.\<close>

definition FromPreunit :: "(u16 \<Rightarrow> u16) \<Rightarrow> preunit \<Rightarrow> Unit option list \<Rightarrow> Unit" where
  "FromPreunit mq pu parents =
     freeUnit pu parents (LevelFromParents mq parents) (computeFloor pu parents)"

definition New_unit ::
  "(bytes \<Rightarrow> hash) \<Rightarrow> (hash \<Rightarrow> Signature) \<Rightarrow> u16 \<Rightarrow> EpochID \<Rightarrow> Unit option list \<Rightarrow> int
   \<Rightarrow> bytes \<Rightarrow> bytes option \<Rightarrow> Unit go" where
  "New_unit shake sign creator epoch parents level data rsData =
     (let crown = CrownFromParents shake parents in
      do { ch \<leftarrow> nth_opt (Heights crown) (unat creator);
           let height = ch + 1;
           let uid = ID height creator epoch;
           let hash = computeHash shake uid crown data rsData;
           let pu = \<lparr>pu_creator = creator, pu_epochID = epoch, pu_height = height,
                     pu_signature = sign hash, pu_hash = hash, pu_crown = crown,
                     pu_data = data, pu_rsData = rsData\<rparr>;
           Some (freeUnit pu parents level (computeFloor pu parents)) })"

end
