(* ===== verification/Ancestry.thy ===== *)
theory Ancestry
  imports Units
begin

text \<open>
  What \<open>gomel.Above\<close>, \<open>Floor\<close> and \<open>AboveWithinProc\<close> mean. The specification is
  reachability along parents (\<open>reaches\<close>) and along predecessors (\<open>chain\<close>); the theorems say
  that the floor-based comparison of \<open>pkg/gomel/unit.go\<close> decides it on every set of units
  that satisfies the rules the dag checks.
\<close>

section \<open>Reachability\<close>

inductive reaches :: "Unit \<Rightarrow> Unit \<Rightarrow> bool" where
  refl [simp, intro]: "reaches u u"
| step: "Some p \<in> set (Parents u) \<Longrightarrow> reaches p v \<Longrightarrow> reaches u v"

inductive chain :: "Unit \<Rightarrow> Unit \<Rightarrow> bool" where
  refl [simp, intro]: "chain u u"
| step: "Predecessor u = Some p \<Longrightarrow> chain p v \<Longrightarrow> chain u v"

inductive_cases reachesE: "reaches u v"
inductive_cases chainE: "chain u v"

lemma chain_reaches: "chain u v \<Longrightarrow> reaches u v"
  by (induction rule: chain.induct) (auto intro: reaches.step Predecessor_in_Parents)

lemma reaches_trans: "reaches u v \<Longrightarrow> reaches v w \<Longrightarrow> reaches u w"
  by (induction rule: reaches.induct) (auto intro: reaches.step)

lemma chain_trans: "chain u v \<Longrightarrow> chain v w \<Longrightarrow> chain u w"
  by (induction rule: chain.induct) (auto intro: chain.step)

text \<open>Units are compared through their hashes, so the specification is up to hash.\<close>

definition chainH :: "Unit \<Rightarrow> Unit \<Rightarrow> bool" where
  "chainH u v \<longleftrightarrow> (\<exists>w. chain u w \<and> Hash w = Hash v)"

definition dominates :: "Unit \<Rightarrow> Unit \<Rightarrow> bool" where
  "dominates u v \<longleftrightarrow> (\<exists>w. reaches u w \<and> Equal (preunit_of w) (preunit_of v))"

section \<open>Well-formed units\<close>

text \<open>
  The shape every unit of a dag has: one slot per process, the \<open>i\<close>-th parent created by
  process \<open>i\<close>, the height one above the predecessor's, and no parents without a predecessor
  (what \<open>NewPreunit\<close>, \<open>DecodeParents\<close> and \<open>check.BasicCorrectness\<close> establish).
\<close>

definition wf_node :: "u16 \<Rightarrow> Unit \<Rightarrow> bool" where
  "wf_node n u \<longleftrightarrow>
     Creator u < n \<and> length (Parents u) = unat n
     \<and> (\<forall>i p. i < unat n \<longrightarrow> Parents u ! i = Some p \<longrightarrow> unat (Creator p) = i)
     \<and> Height u = (case Predecessor u of None \<Rightarrow> 0 | Some p \<Rightarrow> Height p + 1)
     \<and> (Predecessor u = None \<longrightarrow> (\<forall>p. Some p \<notin> set (Parents u)))"

text \<open>The floor of a unit is the one \<open>computeFloor\<close> builds from its parents.\<close>

definition floor_built :: "Unit \<Rightarrow> bool" where
  "floor_built u \<longleftrightarrow>
     Floor u = Floor (freeUnit (preunit_of u) (Parents u) (Level u) (computeFloor (preunit_of u) (Parents u)))"

text \<open>Two units with one hash have the same content and equally hashed parents.\<close>

definition hash_faithful :: "Unit set \<Rightarrow> bool" where
  "hash_faithful S \<longleftrightarrow> (\<forall>a \<in> S. \<forall>b \<in> S. Hash a = Hash b \<longrightarrow>
     preunit_of a = preunit_of b \<and> map (map_option Hash) (Parents a) = map (map_option Hash) (Parents b))"

definition parents_closed :: "Unit set \<Rightarrow> bool" where
  "parents_closed S \<longleftrightarrow> (\<forall>u \<in> S. \<forall>p. Some p \<in> set (Parents u) \<longrightarrow> p \<in> S)"

text \<open>
  The rules of \<open>parental_compliance.go\<close> that the comparison relies on: a unit sees directly
  every process its parents see, and its own floor holds only its predecessor.
\<close>

definition sees_all :: "u16 \<Rightarrow> Unit \<Rightarrow> bool" where
  "sees_all n u \<longleftrightarrow> (\<forall>q i. Some q \<in> set (Parents u) \<longrightarrow> i < n \<longrightarrow>
     parent_at (Parents q) i \<noteq> None \<longrightarrow> parent_at (Parents u) i \<noteq> None)"

definition no_self_fork :: "Unit \<Rightarrow> bool" where
  "no_self_fork u \<longleftrightarrow> (\<forall>w \<in> set (Floor u (Creator u)). \<exists>p. Predecessor u = Some p \<and> Hash w = Hash p)"

section \<open>Predecessor chains\<close>

lemma wf_node_Predecessor:
  assumes "wf_node n u" "Predecessor u = Some p"
  shows "Creator p = Creator u" "Height u = Height p + 1"
proof -
  have "unat (Creator u) < unat n" using assms(1) by (simp add: wf_node_def word_less_nat_alt)
  moreover have "Parents u ! unat (Creator u) = Some p"
    using assms(2) by (auto simp: Predecessor_def parent_at_def split: if_splits)
  ultimately have "unat (Creator p) = unat (Creator u)" using assms(1) by (auto simp: wf_node_def)
  then show "Creator p = Creator u" by (rule unsigned_word_eqI)
  show "Height u = Height p + 1" using assms by (simp add: wf_node_def)
qed

lemma wf_node_parent_at:
  assumes "wf_node n u" "parent_at (Parents u) i = Some p"
  shows "Creator p = i" "i < n"
proof -
  have "unat i < length (Parents u)" "Parents u ! unat i = Some p"
    using assms(2) by (auto simp: parent_at_def split: if_splits)
  then have "unat (Creator p) = unat i" "unat i < unat n" using assms(1) by (auto simp: wf_node_def)
  then show "Creator p = i" "i < n" by (auto simp: word_less_nat_alt intro: unsigned_word_eqI)
qed

lemma wf_node_parent:
  assumes "wf_node n u" "Some p \<in> set (Parents u)"
  shows "parent_at (Parents u) (Creator p) = Some p"
proof -
  obtain i where i: "i < length (Parents u)" "Parents u ! i = Some p"
    using assms(2) by (auto simp: in_set_conv_nth)
  then have "unat (Creator p) = i" using assms(1) by (auto simp: wf_node_def)
  with i show ?thesis by (auto simp: parent_at_def)
qed

definition wf_set :: "u16 \<Rightarrow> Unit set \<Rightarrow> bool" where
  "wf_set n S \<longleftrightarrow> parents_closed S \<and> (\<forall>u \<in> S. wf_node n u)"

lemma wf_setD:
  assumes "wf_set n S" "u \<in> S"
  shows "wf_node n u" and "Some p \<in> set (Parents u) \<Longrightarrow> p \<in> S"
    and "Predecessor u = Some q \<Longrightarrow> q \<in> S"
  using assms Predecessor_in_Parents by (auto simp: wf_set_def parents_closed_def)

lemma chain_closed: "chain u v \<Longrightarrow> wf_set n S \<Longrightarrow> u \<in> S \<Longrightarrow> v \<in> S"
  by (induction rule: chain.induct) (auto dest: wf_setD(3))

lemma reaches_closed: "reaches u v \<Longrightarrow> wf_set n S \<Longrightarrow> u \<in> S \<Longrightarrow> v \<in> S"
  by (induction rule: reaches.induct) (auto dest: wf_setD(2))

lemma chain_Creator: "chain u v \<Longrightarrow> wf_set n S \<Longrightarrow> u \<in> S \<Longrightarrow> Creator v = Creator u"
proof (induction rule: chain.induct)
  case (step u p v)
  then have "Creator p = Creator u" "p \<in> S"
    using wf_node_Predecessor(1) wf_setD by blast+
  with step show ?case by simp
qed simp

lemma chain_Height: "chain u v \<Longrightarrow> wf_set n S \<Longrightarrow> u \<in> S \<Longrightarrow> Height v \<le> Height u \<and> (Height v = Height u \<longrightarrow> v = u)"
proof (induction rule: chain.induct)
  case (step u p v)
  then have "Height u = Height p + 1" "p \<in> S"
    using wf_node_Predecessor(2) wf_setD by blast+
  with step show ?case by fastforce
qed simp

lemma wf_Height_nonneg: "wf_set n S \<Longrightarrow> u \<in> S \<Longrightarrow> 0 \<le> Height u"
proof (induction "size u" arbitrary: u rule: less_induct)
  case less
  show ?case
  proof (cases "Predecessor u")
    case None
    then show ?thesis using wf_setD(1) [OF less.prems] by (simp add: wf_node_def)
  next
    case (Some p)
    then have "0 \<le> Height p"
      using less Predecessor_size wf_setD(3) by blast
    then show ?thesis using wf_node_Predecessor(2) [OF wf_setD(1) [OF less.prems] Some] by simp
  qed
qed

lemma chain_unique:
  "chain u v \<Longrightarrow> chain u w \<Longrightarrow> Height v = Height w \<Longrightarrow> wf_set n S \<Longrightarrow> u \<in> S \<Longrightarrow> v = w"
proof (induction arbitrary: w rule: chain.induct)
  case (refl u)
  then show ?case using chain_Height by metis
next
  case (step u p v)
  note h = wf_node_Predecessor(2) [OF wf_setD(1) [OF step.prems(3,4)] step.hyps(1)]
  have p: "p \<in> S" using step.prems step.hyps wf_setD(3) by blast
  from step.prems(1) show ?case
  proof (cases rule: chain.cases)
    case refl
    then show ?thesis using h chain_Height [OF step.hyps(2) step.prems(3) p] step.prems(2) by simp
  next
    case (step p')
    then show ?thesis using step.IH step.hyps step.prems p by auto
  qed
qed

text \<open>\<open>descendTo\<close> finds the ancestor at a given height.\<close>

lemma descendTo_chain:
  "wf_set n S \<Longrightarrow> u \<in> S \<Longrightarrow> 0 \<le> h \<Longrightarrow> h \<le> Height u \<Longrightarrow>
   \<exists>w. descendTo (Some u) h = Some w \<and> chain u w \<and> Height w = h"
proof (induction "size u" arbitrary: u rule: less_induct)
  case less
  show ?case
  proof (cases "Height u > h")
    case False
    then show ?thesis using less.prems by (auto intro: exI [of _ u])
  next
    case True
    then obtain p where p: "Predecessor u = Some p"
      using wf_setD(1) [OF less.prems(1,2)] less.prems(3) by (cases "Predecessor u") (auto simp: wf_node_def)
    have "Height u = Height p + 1" using wf_node_Predecessor(2) wf_setD(1) less.prems(1,2) p by blast
    then obtain w where "descendTo (Some p) h = Some w \<and> chain p w \<and> Height w = h"
      using less.hyps [OF Predecessor_size [OF p]] less.prems True p wf_setD(3) by fastforce
    then show ?thesis using True p by (auto intro: chain.step)
  qed
qed

lemma descendTo_low: "Height u < h \<Longrightarrow> descendTo (Some u) h = Some u"
  by simp

text \<open>
  The walk along predecessors of \<open>free_unit.go\<close> decides \<^const>\<open>chainH\<close> between units whose
  hashes determine their content.
\<close>

definition walkAbove :: "Unit \<Rightarrow> Unit \<Rightarrow> bool" where
  "walkAbove u v \<longleftrightarrow> Creator u = Creator v \<and>
     (case descendTo (Some u) (Height v) of None \<Rightarrow> False | Some w \<Rightarrow> Hash w = Hash v)"

lemma hash_faithfulD:
  assumes "hash_faithful S" "a \<in> S" "b \<in> S" "Hash a = Hash b"
  shows "preunit_of a = preunit_of b" "Creator a = Creator b" "Height a = Height b"
    and "map (map_option Hash) (Parents a) = map (map_option Hash) (Parents b)"
proof -
  have h: "preunit_of a = preunit_of b \<and> map (map_option Hash) (Parents a) = map (map_option Hash) (Parents b)"
    using assms unfolding hash_faithful_def by blast
  then show "preunit_of a = preunit_of b" "map (map_option Hash) (Parents a) = map (map_option Hash) (Parents b)"
    by blast+
  from h show "Creator a = Creator b" "Height a = Height b" by (simp_all add: Creator_def Height_def)
qed

lemma walkAbove_iff:
  assumes S: "wf_set n S" "hash_faithful S" and uv: "u \<in> S" "v \<in> S"
  shows "walkAbove u v \<longleftrightarrow> chainH u v"
proof
  assume w: "walkAbove u v"
  show "chainH u v"
  proof (cases "Height v \<le> Height u")
    case True
    then obtain w where "descendTo (Some u) (Height v) = Some w" "chain u w"
      using descendTo_chain [OF S(1) uv(1) wf_Height_nonneg [OF S(1) uv(2)]] by blast
    then show ?thesis using w by (auto simp: walkAbove_def chainH_def)
  next
    case False
    then have "Hash u = Hash v" using w by (auto simp: walkAbove_def)
    then show ?thesis unfolding chainH_def by (intro exI [of _ u]) simp
  qed
next
  assume "chainH u v"
  then obtain w where w: "chain u w" "Hash w = Hash v" by (auto simp: chainH_def)
  have wS: "w \<in> S" using chain_closed w(1) S(1) uv(1) by blast
  have eq: "Creator w = Creator v" "Height w = Height v"
    using hash_faithfulD [OF S(2) wS uv(2) w(2)] by auto
  have cr: "Creator u = Creator v" using chain_Creator [OF w(1) S(1) uv(1)] eq by simp
  have "Height v \<le> Height u" using chain_Height [OF w(1) S(1) uv(1)] eq by simp
  then obtain x where x: "descendTo (Some u) (Height v) = Some x" "chain u x" "Height x = Height v"
    using descendTo_chain [OF S(1) uv(1) wf_Height_nonneg [OF S(1) uv(2)]] by blast
  then have "x = w" using chain_unique [OF x(2) w(1)] S(1) uv(1) eq by simp
  then show "walkAbove u v" using x w cr by (simp add: walkAbove_def)
qed

lemma chain_hash_transfer:
  assumes "hash_faithful S" "wf_set n S"
  shows "chain a x \<Longrightarrow> a \<in> S \<Longrightarrow> b \<in> S \<Longrightarrow> Hash a = Hash b \<Longrightarrow> chainH b x"
proof (induction arbitrary: b rule: chain.induct)
  case (refl a)
  then show ?case by (auto simp: chainH_def)
next
  case (step a p x)
  note f = hash_faithfulD [OF assms(1) step.prems]
  have "map_option Hash (Predecessor a) = map_option Hash (Predecessor b)"
    using f(2,4) map_eq_imp_length_eq [OF f(4)]
    by (auto simp: Predecessor_def parent_at_def) (metis nth_map)
  then obtain q where q: "Predecessor b = Some q" "Hash p = Hash q"
    using step.hyps(1) by (cases "Predecessor b") auto
  then have "chainH q x"
    using step.IH [of q] step.prems step.hyps(1) wf_setD(3) [OF assms(2)] by blast
  then show ?case using q(1) by (auto simp: chainH_def intro: chain.step)
qed

lemma chainH_trans:
  assumes "hash_faithful S" "wf_set n S" "a \<in> S" "b \<in> S" "chainH a b" "chainH b c"
  shows "chainH a c"
proof -
  obtain b' where b': "chain a b'" "Hash b' = Hash b" using assms(5) by (auto simp: chainH_def)
  obtain c' where c': "chain b c'" "Hash c' = Hash c" using assms(6) by (auto simp: chainH_def)
  have "b' \<in> S" using chain_closed b'(1) assms(2,3) by blast
  then have "chainH b' c'" using chain_hash_transfer [OF assms(1,2) c'(1) assms(4)] b'(2) by simp
  then show ?thesis using b'(1) c'(2) by (auto simp: chainH_def intro: chain_trans)
qed

lemma chainH_hash_left:
  assumes "hash_faithful S" "wf_set n S" "a \<in> S" "b \<in> S" "Hash a = Hash b"
  shows "chainH a c \<longleftrightarrow> chainH b c"
  using chainH_trans [OF assms(1,2)] assms(3-) by (metis chain.refl chainH_def)


section \<open>Floors\<close>

text \<open>
  The setting of the comparison theorems: a set of units closed under parents that obeys the
  dag's rules, with \<open>AboveWithinProc\<close> deciding \<^const>\<open>chainH\<close> (for free units this is
  \<open>walkAbove_iff\<close>, for units in a dag it is the correctness of forking heights).
\<close>

definition comparable_set :: "u16 \<Rightarrow> Unit set \<Rightarrow> bool" where
  "comparable_set n S \<longleftrightarrow> wf_set n S \<and> hash_faithful S
     \<and> (\<forall>u \<in> S. floor_built u \<and> sees_all n u \<and> no_self_fork u)
     \<and> (\<forall>u \<in> S. \<forall>v \<in> S. AboveWithinProc u v \<longleftrightarrow> chainH u v)"

lemma comparable_setD:
  assumes "comparable_set n S"
  shows "wf_set n S" "hash_faithful S"
    and "u \<in> S \<Longrightarrow> floor_built u" "u \<in> S \<Longrightarrow> sees_all n u" "u \<in> S \<Longrightarrow> no_self_fork u"
    and "u \<in> S \<Longrightarrow> v \<in> S \<Longrightarrow> AboveWithinProc u v \<longleftrightarrow> chainH u v"
  using assms unfolding comparable_set_def by blast+

lemma find_slot_cases:
  "find_slot w k vs = (found, ri) \<Longrightarrow>
     (\<not> found \<and> ri = -1)
   \<or> (found \<and> k \<le> ri \<and> nat (ri - k) < length vs \<and> above w (vs ! nat (ri - k)))
   \<or> (found \<and> ri = -1 \<and> (\<exists>v \<in> set vs. above v w))"
proof (induction w k vs rule: find_slot.induct)
  case (2 w ix v vs)
  show ?case
  proof (cases "above w v \<or> above v w")
    case True
    then show ?thesis using "2.prems" by (auto split: if_splits)
  next
    case False
    then have r: "find_slot w (ix + 1) vs = (found, ri)" using "2.prems" by simp
    have e: "ix + 1 \<le> ri \<Longrightarrow> nat (ri - ix) = Suc (nat (ri - (ix + 1)))" by simp
    from "2.IH" False r show ?thesis by (auto simp: e)
  qed
qed simp

lemma add_maximal_cases:
  obtains (append) "add_maximal m w = m @ [w]"
    | (replace) i where "i < length m" "above w (m ! i)" "add_maximal m w = m[i := w]"
    | (keep) v where "v \<in> set m" "above v w" "add_maximal m w = m"
proof -
  obtain found ri where fs: "find_slot w 0 m = (found, ri)" by fastforce
  from find_slot_cases [OF fs] consider "\<not> found"
    | "found" "0 \<le> ri" "nat ri < length m" "above w (m ! nat ri)"
    | v where "found" "ri = -1" "v \<in> set m" "above v w" by auto
  then show thesis
    by cases (auto simp: add_maximal_def fs intro: append replace keep)
qed

lemma set_add_maximal: "set (add_maximal m w) \<subseteq> insert w (set m)"
  by (rule add_maximal_cases [of m w]) (auto dest: set_update_subset_insert [THEN subsetD])

lemma set_foldl_add_maximal: "set (foldl add_maximal m ws) \<subseteq> set m \<union> set ws"
proof (induction ws arbitrary: m)
  case (Cons w ws)
  have "set (foldl add_maximal (add_maximal m w) ws) \<subseteq> set (add_maximal m w) \<union> set ws"
    by (rule Cons.IH)
  then show ?case using set_add_maximal [of m w] by auto
qed simp

text \<open>\<open>scan_floors\<close> names the two nested loops of \<open>MaximalByPid\<close>.\<close>

abbreviation scan_floors :: "u16 \<Rightarrow> Unit list \<Rightarrow> Unit option list \<Rightarrow> Unit list" where
  "scan_floors pid m ps \<equiv> foldl (\<lambda>maximal parent. case parent of
       None \<Rightarrow> maximal | Some q \<Rightarrow> foldl add_maximal maximal (Floor q pid)) m ps"

lemma set_scan_floors:
  "set (scan_floors pid m ps) \<subseteq> set m \<union> {w. \<exists>q. Some q \<in> set ps \<and> w \<in> set (Floor q pid)}"
proof (induction ps arbitrary: m)
  case (Cons p ps)
  show ?case
  proof (cases p)
    case None
    then show ?thesis using Cons.IH [of m] by auto
  next
    case (Some q)
    then show ?thesis
      using Cons.IH [of "foldl add_maximal m (Floor q pid)"] set_foldl_add_maximal [of m "Floor q pid"]
      by fastforce
  qed
qed simp

lemma MaximalByPid_sound:
  "w \<in> set (MaximalByPid ps pid) \<Longrightarrow>
   parent_at ps pid = Some w \<or> (\<exists>q. Some q \<in> set ps \<and> w \<in> set (Floor q pid))"
  using set_scan_floors [of pid _ ps] by (fastforce simp: MaximalByPid_def split: option.splits)

lemma map_of_computeFloor:
  "map_of (computeFloor pu ps) pid =
     (if \<not> Dealing pu \<and> pid < of_nat (length ps)
         \<and> (length (MaximalByPid ps pid) > 1
            \<or> (length (MaximalByPid ps pid) = 1
               \<and> (case parent_at ps pid of None \<Rightarrow> False
                  | Some p \<Rightarrow> \<not> Equal (preunit_of (hd (MaximalByPid ps pid))) (preunit_of p))))
      then Some (MaximalByPid ps pid) else None)"
proof -
  have "map_of (concat (map (\<lambda>p. if P p then [(p, f p)] else []) xs)) pid
      = (if pid \<in> set xs \<and> P pid then Some (f pid) else None)" for P f and xs :: "u16 list"
    by (induction xs) auto
  from this [of "\<lambda>p. length (MaximalByPid ps p) > 1 \<or> (length (MaximalByPid ps p) = 1
               \<and> (case parent_at ps p of None \<Rightarrow> False
                  | Some q \<Rightarrow> \<not> Equal (preunit_of (hd (MaximalByPid ps p))) (preunit_of q)))" "MaximalByPid ps"]
  show ?thesis by (auto simp: computeFloor_def Let_def)
qed

lemma Floor_built_sound:
  assumes "floor_built u" "w \<in> set (Floor u pid)"
  shows "parent_at (Parents u) pid = Some w
    \<or> (\<exists>q. Some q \<in> set (Parents u) \<and> w \<in> set (Floor q pid))"
  using assms(2) MaximalByPid_sound [of w "Parents u" pid]
  by (auto simp: assms(1) [unfolded floor_built_def] map_of_computeFloor split: if_splits option.splits)

lemma Floor_sound:
  assumes "wf_set n S" "\<And>u. u \<in> S \<Longrightarrow> floor_built u"
  shows "u \<in> S \<Longrightarrow> w \<in> set (Floor u pid) \<Longrightarrow>
    Creator w = pid \<and> w \<in> S \<and> (\<exists>p. Some p \<in> set (Parents u) \<and> reaches p w)"
proof (induction "size u" arbitrary: u rule: less_induct)
  case less
  note u = wf_setD [OF assms(1) less.prems(1)]
  from Floor_built_sound [OF assms(2) [OF less.prems(1)] less.prems(2)] show ?case
  proof
    assume w: "parent_at (Parents u) pid = Some w"
    then show ?thesis using wf_node_parent_at(1) [OF u(1) w] parent_at_in_set [OF w] u(2) by blast
  next
    assume "\<exists>q. Some q \<in> set (Parents u) \<and> w \<in> set (Floor q pid)"
    then obtain q where q: "Some q \<in> set (Parents u)" "w \<in> set (Floor q pid)" by blast
    with less.hyps [OF parent_size [OF q(1)] u(2) [OF q(1)] q(2)] show ?thesis
      by (blast intro: reaches.step)
  qed
qed


lemma above_same_creator:
  assumes C: "comparable_set n S" and "a \<in> S" "b \<in> S" "Creator a = Creator b" "above a b"
  shows "chainH a b"
  using assms(5) unfolding above_def
proof
  assume "Equal (preunit_of a) (preunit_of b)"
  then have "Hash a = Hash b" by (simp add: Equal_def Hash_def)
  then show ?thesis by (auto simp: chainH_def)
next
  note cD = comparable_setD [OF C]
  assume "\<exists>w \<in> set (Floor a (Creator b)). AboveWithinProc w b"
  then obtain w where w: "w \<in> set (Floor a (Creator a))" "AboveWithinProc w b"
    using assms(4) by auto
  obtain p where p: "Predecessor a = Some p" "Hash w = Hash p"
    using cD(5) [OF assms(2)] w(1) unfolding no_self_fork_def by blast
  have wS: "w \<in> S" using Floor_sound [OF cD(1) cD(3) assms(2) w(1)] by blast
  have pS: "p \<in> S" using wf_setD(3) [OF cD(1) assms(2) p(1)] .
  have "chainH w b" using cD(6) [OF wS assms(3)] w(2) by blast
  then have "chainH p b" using chainH_hash_left [OF cD(2,1) wS pS p(2)] by blast
  then show ?thesis using p(1) by (auto simp: chainH_def intro: chain.step)
qed

text \<open>A list of units of one process covers a unit that is on the chain of one of them.\<close>

definition covers :: "Unit list \<Rightarrow> Unit \<Rightarrow> bool" where
  "covers m x \<longleftrightarrow> (\<exists>y \<in> set m. chainH y x)"

lemma add_maximal_covers:
  assumes C: "comparable_set n S" and m: "\<forall>y \<in> set m. y \<in> S \<and> Creator y = pid"
    and w: "w \<in> S" "Creator w = pid" and x: "covers m x \<or> x = w"
  shows "covers (add_maximal m w) x"
proof (cases rule: add_maximal_cases [of m w])
  case append
  then show ?thesis using x by (auto simp: covers_def chainH_def)
next
  case (keep v)
  then have "chainH v w" using above_same_creator [OF C] m w by metis
  then show ?thesis using keep x by (auto simp: covers_def)
next
  case (replace i)
  have wm: "w \<in> set (m[i := w])" using replace(1) by (simp add: set_update_memI)
  have mi: "m ! i \<in> set m" using replace(1) by simp
  have cw: "chainH w (m ! i)" using above_same_creator [OF C w(1)] m mi w replace(2) by metis
  show ?thesis
  proof (cases "x = w")
    case True
    then show ?thesis using wm by (auto simp: covers_def replace(3) chainH_def)
  next
    case False
    then obtain y where y: "y \<in> set m" "chainH y x" using x by (auto simp: covers_def)
    then obtain j where j: "j < length m" "y = m ! j" by (metis in_set_conv_nth)
    show ?thesis
    proof (cases "j = i")
      case True
      then have "chainH w x"
        using chainH_trans [OF comparable_setD(2,1) [OF C] w(1) _ cw] y j m mi by blast
      then show ?thesis using wm by (auto simp: covers_def replace(3))
    next
      case False
      then have "y \<in> set (m[i := w])" using j by (metis length_list_update nth_list_update_neq nth_mem)
      then show ?thesis using y by (auto simp: covers_def replace(3))
    qed
  qed
qed

lemma foldl_add_maximal_covers:
  assumes "comparable_set n S"
  shows "\<forall>y \<in> set m. y \<in> S \<and> Creator y = pid \<Longrightarrow> \<forall>w \<in> set ws. w \<in> S \<and> Creator w = pid \<Longrightarrow>
    covers m x \<or> x \<in> set ws \<Longrightarrow> covers (foldl add_maximal m ws) x"
proof (induction ws arbitrary: m)
  case (Cons w ws)
  have "\<forall>y \<in> set (add_maximal m w). y \<in> S \<and> Creator y = pid"
    using Cons.prems set_add_maximal [of m w] by auto
  moreover have "covers (add_maximal m w) x \<or> x \<in> set ws"
    using add_maximal_covers [OF assms Cons.prems(1)] Cons.prems by auto
  ultimately show ?case using Cons.IH [of "add_maximal m w"] Cons.prems(2) by auto
qed simp

lemma scan_floors_covers:
  assumes "comparable_set n S"
  shows "\<forall>y \<in> set m. y \<in> S \<and> Creator y = pid \<Longrightarrow> \<forall>q. Some q \<in> set ps \<longrightarrow> q \<in> S \<Longrightarrow>
    covers m x \<or> (\<exists>q. Some q \<in> set ps \<and> x \<in> set (Floor q pid)) \<Longrightarrow> covers (scan_floors pid m ps) x"
proof (induction ps arbitrary: m)
  case (Cons p ps)
  show ?case
  proof (cases p)
    case None
    then show ?thesis using Cons by auto
  next
    case (Some q)
    have f: "\<forall>w \<in> set (Floor q pid). w \<in> S \<and> Creator w = pid"
      using Floor_sound [OF comparable_setD(1,3) [OF assms]] Cons.prems(2) Some by auto
    let ?m = "foldl add_maximal m (Floor q pid)"
    have "\<forall>y \<in> set ?m. y \<in> S \<and> Creator y = pid"
      using set_foldl_add_maximal [of m "Floor q pid"] Cons.prems(1) f by blast
    moreover have "covers ?m x \<or> (\<exists>q. Some q \<in> set ps \<and> x \<in> set (Floor q pid))"
      using foldl_add_maximal_covers [OF assms Cons.prems(1) f] Cons.prems(3) Some by auto
    ultimately show ?thesis using Cons.IH [of ?m] Cons.prems(2) Some by auto
  qed
qed simp

lemma MaximalByPid_covers:
  assumes C: "comparable_set n S" and u: "u \<in> S" and p: "parent_at (Parents u) pid = Some p"
    and x: "x = p \<or> (\<exists>q. Some q \<in> set (Parents u) \<and> x \<in> set (Floor q pid))"
  shows "covers (MaximalByPid (Parents u) pid) x"
proof -
  note uD = wf_setD [OF comparable_setD(1) [OF C] u]
  have "covers [p] x \<or> (\<exists>q. Some q \<in> set (Parents u) \<and> x \<in> set (Floor q pid))"
    using x by (auto simp: covers_def chainH_def)
  moreover have "\<forall>y \<in> set [p]. y \<in> S \<and> Creator y = pid"
    using wf_node_parent_at(1) [OF uD(1) p] uD(2) [OF parent_at_in_set [OF p]] by simp
  ultimately show ?thesis
    using scan_floors_covers [OF C, of "[p]" pid "Parents u" x] uD(2) by (simp add: MaximalByPid_def p)
qed

text \<open>The built floor covers what \<open>MaximalByPid\<close> covers.\<close>

lemma Floor_covers:
  assumes C: "comparable_set n S" and u: "u \<in> S" and p: "parent_at (Parents u) pid = Some p"
    and x: "x = p \<or> (\<exists>q. Some q \<in> set (Parents u) \<and> x \<in> set (Floor q pid))"
  shows "covers (Floor u pid) x"
proof -
  note cD = comparable_setD [OF C] and wD = wf_setD [OF comparable_setD(1) [OF C] u]
  have dealing: "\<not> Dealing (preunit_of u)"
  proof
    assume "Dealing (preunit_of u)"
    then have "Height u = 0" by (simp add: Dealing_def Height_def)
    moreover obtain q where "Predecessor u = Some q"
      using wD(1) parent_at_in_set [OF p] by (cases "Predecessor u") (auto simp: wf_node_def)
    ultimately show False
      using wf_node_Predecessor(2) [OF wD(1)] wf_Height_nonneg [OF cD(1) wD(3)] by fastforce
  qed
  have pid: "pid < of_nat (length (Parents u))"
    using wf_node_parent_at(2) [OF wD(1) p] wD(1) by (simp add: wf_node_def)
  obtain y where y: "y \<in> set (MaximalByPid (Parents u) pid)" "chainH y x"
    using MaximalByPid_covers [OF assms] by (auto simp: covers_def)
  show ?thesis
  proof (cases "map_of (computeFloor (preunit_of u) (Parents u)) pid")
    case (Some f)
    then have "Floor u pid = MaximalByPid (Parents u) pid"
      using cD(3) [OF u, unfolded floor_built_def] by (simp add: map_of_computeFloor split: if_splits)
    then show ?thesis using y by (auto simp: covers_def)
  next
    case None
    then have c: "\<not> (length (MaximalByPid (Parents u) pid) > 1
        \<or> (length (MaximalByPid (Parents u) pid) = 1
           \<and> \<not> Equal (preunit_of (hd (MaximalByPid (Parents u) pid))) (preunit_of p)))"
      using dealing pid p by (simp add: map_of_computeFloor split: if_splits)
    have "length (MaximalByPid (Parents u) pid) = 1"
      using c y(1) by (cases "MaximalByPid (Parents u) pid") auto
    moreover from this have "MaximalByPid (Parents u) pid = [y]"
      using y(1) by (auto simp: length_Suc_conv)
    ultimately have one: "MaximalByPid (Parents u) pid = [y]" "Equal (preunit_of y) (preunit_of p)"
      using c by simp_all
    have F: "Floor u pid = [p]"
      using cD(3) [OF u, unfolded floor_built_def] None p by simp
    have pS: "p \<in> S" by (rule wD(2) [OF parent_at_in_set [OF p]])
    have yS: "y \<in> S"
      using MaximalByPid_sound [OF y(1)]
    proof
      assume "parent_at (Parents u) pid = Some y"
      then show ?thesis using p pS by simp
    next
      assume "\<exists>q. Some q \<in> set (Parents u) \<and> y \<in> set (Floor q pid)"
      then obtain q where "Some q \<in> set (Parents u)" "y \<in> set (Floor q pid)" by blast
      then show ?thesis using Floor_sound [OF cD(1,3) wD(2)] by blast
    qed
    have "Hash y = Hash p" using one(2) by (simp add: Equal_def Hash_def)
    then have "chainH p x" using chainH_hash_left [OF cD(2,1) yS pS] y(2) by blast
    then show ?thesis by (simp add: F covers_def)
  qed
qed

lemma Floor_complete:
  assumes C: "comparable_set n S"
  shows "u \<in> S \<Longrightarrow> Some q \<in> set (Parents u) \<Longrightarrow> reaches q v \<Longrightarrow> covers (Floor u (Creator v)) v"
proof (induction "size u" arbitrary: u q rule: less_induct)
  case less
  note cD = comparable_setD [OF C]
  note uD = wf_setD [OF cD(1) less.prems(1)]
  have qS: "q \<in> S" by (rule uD(2) [OF less.prems(2)])
  have vS: "v \<in> S" using reaches_closed [OF less.prems(3) cD(1) qS] .
  from less.prems(3) show ?case
  proof (cases rule: reaches.cases)
    case refl
    then show ?thesis
      using Floor_covers [OF C less.prems(1) wf_node_parent [OF uD(1) less.prems(2)]] by simp
  next
    case (step r)
    have "covers (Floor q (Creator v)) v"
      using less.hyps [OF parent_size [OF less.prems(2)] qS step] .
    then obtain x where x: "x \<in> set (Floor q (Creator v))" "chainH x v" by (auto simp: covers_def)
    have xS: "x \<in> S" using Floor_sound [OF cD(1,3) qS x(1)] by blast
    have seen: "parent_at (Parents q) (Creator v) \<noteq> None"
    proof
      assume "parent_at (Parents q) (Creator v) = None"
      then have "Floor q (Creator v) = []"
        using cD(3) [OF qS, unfolded floor_built_def]
        by (auto simp: map_of_computeFloor MaximalByPid_def)
      then show False using x by simp
    qed
    have "Creator v < n" using wf_setD(1) [OF cD(1) vS] by (simp add: wf_node_def)
    then obtain p where p: "parent_at (Parents u) (Creator v) = Some p"
      using cD(4) [OF less.prems(1)] less.prems(2) seen unfolding sees_all_def by blast
    obtain y where y: "y \<in> set (Floor u (Creator v))" "chainH y x"
      using Floor_covers [OF C less.prems(1) p] less.prems(2) x(1) by (auto simp: covers_def)
    have "y \<in> S" using Floor_sound [OF cD(1,3) less.prems(1) y(1)] by blast
    then have "chainH y v" using chainH_trans [OF cD(2,1) _ xS y(2) x(2)] by blast
    then show ?thesis using y(1) by (auto simp: covers_def)
  qed
qed

theorem above_iff_dominates:
  assumes C: "comparable_set n S" and uv: "u \<in> S" "v \<in> S"
  shows "above u v \<longleftrightarrow> dominates u v"
proof
  note cD = comparable_setD [OF C]
  assume "above u v"
  then consider "Equal (preunit_of u) (preunit_of v)"
    | w where "w \<in> set (Floor u (Creator v))" "AboveWithinProc w v" by (auto simp: above_def)
  then show "dominates u v"
  proof cases
    case 1
    then show ?thesis by (auto simp: dominates_def)
  next
    case 2
    then obtain p where p: "Some p \<in> set (Parents u)" "reaches p w" "w \<in> S"
      using Floor_sound [OF cD(1,3) uv(1)] by blast
    have "chainH w v" using cD(6) [OF p(3) uv(2)] 2(2) by blast
    then obtain x where x: "chain w x" "Hash x = Hash v" by (auto simp: chainH_def)
    have "x \<in> S" using chain_closed x(1) cD(1) p(3) by blast
    then have "preunit_of x = preunit_of v" using hash_faithfulD(1) [OF cD(2)] uv(2) x(2) by blast
    moreover have "reaches u x"
      using p reaches_trans chain_reaches [OF x(1)] by (blast intro: reaches.step)
    ultimately show ?thesis unfolding dominates_def by (metis Equal_refl)
  qed
next
  note cD = comparable_setD [OF C]
  assume "dominates u v"
  then obtain x where x: "reaches u x" "Equal (preunit_of x) (preunit_of v)"
    by (auto simp: dominates_def)
  have eq: "Creator x = Creator v" "Hash x = Hash v" using x(2) by (simp_all add: Equal_def Creator_def Hash_def)
  from x(1) show "above u v"
  proof (cases rule: reaches.cases)
    case refl
    then show ?thesis using x(2) by (simp add: above_def)
  next
    case (step p)
    then obtain w where w: "w \<in> set (Floor u (Creator v))" "chainH w x"
      using Floor_complete [OF C uv(1) step] eq by (auto simp: covers_def)
    have "w \<in> S" using Floor_sound [OF cD(1,3) uv(1) w(1)] by blast
    moreover have "chainH w v" using w(2) eq(2) by (simp add: chainH_def)
    ultimately show ?thesis using w(1) cD(6) uv(2) by (auto simp: above_def)
  qed
qed

end
