(* ===== verification/Containers.thy ===== *)
theory Containers
  imports Ancestry "HOL-Library.AList"
begin

text \<open>
  The containers of \<open>pkg/dag\<close>: slotted units (\<open>slotted_units.go\<close>), fiber maps
  (\<open>fiber_map.go\<close>) and the unit bag (\<open>unit_bag.go\<close>). Their mutexes only serialise the
  operations, each of which is one definition here. The locale \<open>slots\<close> is the contract of
  \<open>gomel.SlottedUnits\<close>, the locale \<open>unit_index\<close> that of an index of units by a key and
  their creator, which the dag uses for heights and for levels.
\<close>

section \<open>Slotted units\<close>

record slottedUnits =
  contents :: "Unit list list"

definition newSlottedUnits :: "u16 \<Rightarrow> slottedUnits" where
  "newSlottedUnits n = \<lparr>contents = replicate (unat n) []\<rparr>"

definition Get :: "slottedUnits \<Rightarrow> u16 \<Rightarrow> Unit list" where
  "Get su pid = (if unat pid \<ge> length (contents su) then [] else contents su ! unat pid)"

definition Set_slot :: "slottedUnits \<Rightarrow> u16 \<Rightarrow> Unit list \<Rightarrow> slottedUnits" where
  "Set_slot su pid units =
     (if unat pid \<ge> length (contents su) then su
      else su\<lparr>contents := (contents su)[unat pid := units]\<rparr>)"

text \<open>
  \<open>Iterate\<close> calls \<open>work\<close>, a closure over some state, on the slots in order until it returns
  false.
\<close>

fun iterate_slots :: "(Unit list \<Rightarrow> 's \<Rightarrow> bool \<times> 's) \<Rightarrow> Unit list list \<Rightarrow> 's \<Rightarrow> 's" where
  "iterate_slots work [] s = s"
| "iterate_slots work (us # uss) s =
     (case work us s of (goOn, s') \<Rightarrow> if goOn then iterate_slots work uss s' else s')"

definition Iterate :: "slottedUnits \<Rightarrow> (Unit list \<Rightarrow> 's \<Rightarrow> bool \<times> 's) \<Rightarrow> 's \<Rightarrow> 's" where
  "Iterate su work s =
     iterate_slots work (map (\<lambda>pid. Get su (of_nat pid)) [0..<length (contents su)]) s"

text \<open>The contract: a container of \<open>n\<close> slots, indexed by process id.\<close>

locale slots =
  fixes new :: "u16 \<Rightarrow> 'c"
    and get :: "'c \<Rightarrow> u16 \<Rightarrow> 'a list"
    and put :: "'c \<Rightarrow> u16 \<Rightarrow> 'a list \<Rightarrow> 'c"
    and wf :: "u16 \<Rightarrow> 'c \<Rightarrow> bool"
  assumes new_wf: "wf n (new n)"
    and put_wf: "wf n c \<Longrightarrow> wf n (put c p xs)"
    and get_new: "get (new n) p = []"
    and get_put: "wf n c \<Longrightarrow> get (put c p xs) q = (if p = q \<and> p < n then xs else get c q)"
    and get_outside: "wf n c \<Longrightarrow> \<not> p < n \<Longrightarrow> get c p = []"
begin

text \<open>Appending a unit to a slot by read, copy and write, as \<open>adding.go\<close> does.\<close>

definition push :: "'c \<Rightarrow> u16 \<Rightarrow> 'a \<Rightarrow> 'c" where
  "push c p x = put c p (get c p @ [x])"

lemma push_wf: "wf n c \<Longrightarrow> wf n (push c p x)"
  by (simp add: push_def put_wf)

lemma get_push: "wf n c \<Longrightarrow> p < n \<Longrightarrow> get (push c p x) q = (if p = q then get c q @ [x] else get c q)"
  by (simp add: push_def get_put)

end

definition su_wf :: "u16 \<Rightarrow> slottedUnits \<Rightarrow> bool" where
  "su_wf n su \<longleftrightarrow> length (contents su) = unat n"

lemma unat_eq_iff: "unat (a :: 'a::len word) = unat b \<longleftrightarrow> a = b"
  by (simp add: word_unat_eq_iff)

interpretation su: slots newSlottedUnits Get Set_slot su_wf
  by unfold_locales
    (auto simp: su_wf_def newSlottedUnits_def Get_def Set_slot_def word_less_nat_alt nth_list_update
      unat_eq_iff)

lemma Iterate_all:
  assumes "\<And>us s. fst (work us s)"
  shows "iterate_slots work uss s = foldl (\<lambda>s us. snd (work us s)) s uss"
proof (induction uss arbitrary: s)
  case (Cons us uss)
  obtain s' where "work us s = (True, s')" using assms [of us s] by (cases "work us s") auto
  then show ?case using Cons by simp
qed simp

lemma Get_contents:
  assumes "su_wf n su"
  shows "map (\<lambda>pid. Get su (of_nat pid)) [0..<length (contents su)] = map (Get su) (pids n)"
  using assms by (simp add: su_wf_def pids_def)

section \<open>The unit bag\<close>

text \<open>
  The map from hashes to units, in one order of its entries: Go iterates maps in an
  unspecified order, and only \<open>getAll\<close> depends on it.
\<close>

type_synonym unitBag = "(hash \<times> Unit) list"

definition newUnitBag :: unitBag where
  "newUnitBag = []"

definition bag_add :: "unitBag \<Rightarrow> Unit \<Rightarrow> unitBag" where
  "bag_add units u = AList.update (Hash u) u units"

definition getOne :: "unitBag \<Rightarrow> hash \<Rightarrow> Unit option" where
  "getOne units h = map_of units h"

definition getMany :: "unitBag \<Rightarrow> hash option list \<Rightarrow> Unit option list" where
  "getMany units hashes = map (\<lambda>h. case h of None \<Rightarrow> None | Some k \<Rightarrow> map_of units k) hashes"

definition getAll :: "unitBag \<Rightarrow> Unit list" where
  "getAll units = map snd units"

lemma getOne_add: "getOne (bag_add b u) h = (if h = Hash u then Some u else getOne b h)"
  by (simp add: getOne_def bag_add_def update_conv)

lemma bag_add_new: "getOne b (Hash u) = None \<Longrightarrow> bag_add b u = b @ [(Hash u, u)]"
  unfolding getOne_def bag_add_def by (induction b) (auto split: if_splits)

section \<open>Fiber maps\<close>

record fiberMap =
  fm_content :: "int \<rightharpoonup> slottedUnits"
  fm_width :: u16
  fm_length :: int

datatype noSuchFiberError = noSuchFiberError int

definition newFiberMap :: "u16 \<Rightarrow> int \<Rightarrow> fiberMap" where
  "newFiberMap width initialLen =
     \<lparr>fm_content = foldl (\<lambda>m i. m(i \<mapsto> newSlottedUnits width)) Map.empty [0..initialLen - 1],
      fm_width = width, fm_length = initialLen\<rparr>"

definition getFiber :: "fiberMap \<Rightarrow> int \<Rightarrow> noSuchFiberError + slottedUnits" where
  "getFiber fm value =
     (case fm_content fm value of None \<Rightarrow> Inl (noSuchFiberError value) | Some su \<Rightarrow> Inr su)"

definition Len :: "fiberMap \<Rightarrow> int" where
  "Len fm = fm_length fm"

definition extendBy :: "fiberMap \<Rightarrow> int \<Rightarrow> fiberMap" where
  "extendBy fm nValues =
     fm\<lparr>fm_content := foldl (\<lambda>m i. m(i \<mapsto> newSlottedUnits (fm_width fm))) (fm_content fm)
                       [fm_length fm..fm_length fm + nValues - 1],
        fm_length := fm_length fm + nValues\<rparr>"

text \<open>The fiber is a pointer: setting a slot of it changes it inside the map.\<close>

definition setFiber :: "fiberMap \<Rightarrow> int \<Rightarrow> slottedUnits \<Rightarrow> fiberMap" where
  "setFiber fm value su = fm\<lparr>fm_content := (fm_content fm)(value \<mapsto> su)\<rparr>"

text \<open>
  \<open>get\<close>: the units at the given height of every process and the number of processes with
  none. It panics on a slice of the wrong length.
\<close>

definition fiber_get :: "fiberMap \<Rightarrow> int list \<Rightarrow> (Unit list list \<times> int) go" where
  "fiber_get fm heights =
     (if length heights \<noteq> unat (fm_width fm) then None
      else
        let result = map (\<lambda>(pid, h).
              if h = -1 then []
              else case fm_content fm h of None \<Rightarrow> [] | Some su \<Rightarrow> Get su (of_nat pid))
              (enumerate 0 heights);
            unknown = length (filter (\<lambda>(h, units). h \<noteq> -1 \<and> units = []) (zip heights result))
        in Some (result, int unknown))"

definition min_height :: "int \<Rightarrow> int list \<Rightarrow> int" where
  "min_height h0 hs = foldl (\<lambda>m h. if h < m then h else m) h0 hs"

text \<open>
  \<open>above\<close>: it panics on a slice of the wrong length, on an empty one (\<open>heights[0]\<close>) and when
  a fiber it visits does not exist (a nil \<open>SlottedUnits\<close>).
\<close>

definition fiber_above :: "fiberMap \<Rightarrow> int list \<Rightarrow> Unit list go" where
  "fiber_above fm heights =
     (if length heights \<noteq> unat (fm_width fm) then None
      else case heights of
        [] \<Rightarrow> None
      | h0 # hs \<Rightarrow>
          do { chunks \<leftarrow> those (concat (map (\<lambda>height.
                   map (\<lambda>i. case fm_content fm height of
                               None \<Rightarrow> None
                             | Some su \<Rightarrow> Some (Get su i))
                       (filter (\<lambda>i. height > heights ! unat i) (pids (fm_width fm))))
                   [min_height h0 hs + 1..fm_length fm - 1]));
               Some (concat chunks) })"

text \<open>
  The body shared by \<open>updateUnitsOnHeight\<close> and \<open>updateUnitsOnLevel\<close> of \<open>adding.go\<close>: extend
  by ten when the key is past the end, fetch the fiber (a nil fiber panics), append the unit to
  its creator's slot.
\<close>

definition fiber_insert :: "fiberMap \<Rightarrow> int \<Rightarrow> Unit \<Rightarrow> fiberMap go" where
  "fiber_insert fm key u =
     (let fm' = (if key \<ge> Len fm then extendBy fm 10 else fm) in
      case getFiber fm' key of
        Inl _ \<Rightarrow> None
      | Inr su \<Rightarrow> Some (setFiber fm' key (Set_slot su (Creator u) (Get su (Creator u) @ [u]))))"

definition fm_wf :: "u16 \<Rightarrow> fiberMap \<Rightarrow> bool" where
  "fm_wf n fm \<longleftrightarrow> fm_width fm = n \<and> (\<forall>k. (\<exists>su. fm_content fm k = Some su) \<longleftrightarrow> 0 \<le> k \<and> k < fm_length fm)
     \<and> (\<forall>k su. fm_content fm k = Some su \<longrightarrow> su_wf n su)"

definition fm_lookup :: "fiberMap \<Rightarrow> int \<Rightarrow> u16 \<Rightarrow> Unit list" where
  "fm_lookup fm k p = (case getFiber fm k of Inl _ \<Rightarrow> [] | Inr su \<Rightarrow> Get su p)"

lemma foldl_upd_const:
  "foldl (\<lambda>m i. m(i \<mapsto> x)) m is k = (if k \<in> set is then Some x else m k)"
  by (induction "is" arbitrary: m) auto

lemma newFiberMap_content [index_laws]:
  "fm_content (newFiberMap n l) k = (if 0 \<le> k \<and> k < l then Some (newSlottedUnits n) else None)"
  by (auto simp: newFiberMap_def foldl_upd_const)

lemma extendBy_content [index_laws]:
  "fm_content (extendBy fm m) k =
     (if fm_length fm \<le> k \<and> k < fm_length fm + m then Some (newSlottedUnits (fm_width fm)) else fm_content fm k)"
  by (auto simp: extendBy_def foldl_upd_const)

lemma fm_width_length [simp]:
  "fm_width (newFiberMap n l) = n" "fm_length (newFiberMap n l) = l"
  "fm_width (extendBy fm m) = fm_width fm" "fm_length (extendBy fm m) = fm_length fm + m"
  "fm_width (setFiber fm k su) = fm_width fm" "fm_length (setFiber fm k su) = fm_length fm"
  by (simp_all add: newFiberMap_def extendBy_def setFiber_def)

lemma setFiber_content [index_laws]: "fm_content (setFiber fm k su) = (fm_content fm)(k \<mapsto> su)"
  by (simp add: setFiber_def)

lemma fm_wf_None: "fm_wf n fm \<Longrightarrow> fm_content fm k = None \<longleftrightarrow> \<not> (0 \<le> k \<and> k < fm_length fm)"
  unfolding fm_wf_def by (metis not_None_eq)

lemma fm_wf_new: "fm_wf n (newFiberMap n l)"
  by (auto simp: fm_wf_def index_laws su.new_wf)

lemma fm_wf_extend: "fm_wf n fm \<Longrightarrow> 0 \<le> m \<Longrightarrow> 0 \<le> fm_length fm \<Longrightarrow> fm_wf n (extendBy fm m)"
  unfolding fm_wf_def by (auto simp: index_laws su.new_wf)

lemma fm_wf_set: "fm_wf n fm \<Longrightarrow> 0 \<le> k \<Longrightarrow> k < fm_length fm \<Longrightarrow> su_wf n su \<Longrightarrow> fm_wf n (setFiber fm k su)"
  unfolding fm_wf_def by (auto simp: index_laws)

lemma fm_lookup_content:
  "fm_lookup fm k p = (case fm_content fm k of None \<Rightarrow> [] | Some su \<Rightarrow> Get su p)"
  by (simp add: fm_lookup_def getFiber_def split: option.splits)

section \<open>Indices of units by key and creator\<close>

text \<open>
  The contract of an index: after a successful insertion a look-up returns the old units with
  the new one appended to its own slot. \<open>size\<close> bounds the keys the index holds; a key that
  does not jump more than ten past it is accepted.
\<close>

locale unit_index =
  fixes key :: "Unit \<Rightarrow> int"
    and insert_ix :: "'i \<Rightarrow> Unit \<Rightarrow> 'i go"
    and lookup :: "'i \<Rightarrow> int \<Rightarrow> u16 \<Rightarrow> Unit list"
    and size :: "'i \<Rightarrow> int"
    and wf :: "u16 \<Rightarrow> 'i \<Rightarrow> bool"
  assumes insert_total: "wf n i \<Longrightarrow> 0 \<le> size i \<Longrightarrow> 0 \<le> key u \<Longrightarrow> key u < size i + 10 \<Longrightarrow>
      \<exists>i'. insert_ix i u = Some i'"
    and insert_panics: "wf n i \<Longrightarrow> 0 \<le> size i \<Longrightarrow> key u < 0 \<or> size i + 10 \<le> key u \<Longrightarrow> insert_ix i u = None"
    and insert_wf: "wf n i \<Longrightarrow> 0 \<le> size i \<Longrightarrow> insert_ix i u = Some i' \<Longrightarrow>
      wf n i' \<and> size i \<le> size i' \<and> key u < size i'"
    and lookup_insert: "wf n i \<Longrightarrow> 0 \<le> size i \<Longrightarrow> insert_ix i u = Some i' \<Longrightarrow> Creator u < n \<Longrightarrow>
      lookup i' k p = (if key u = k \<and> Creator u = p then lookup i k p @ [u] else lookup i k p)"
begin

text \<open>The index holds exactly the units of a list, in their order.\<close>

definition represents :: "u16 \<Rightarrow> 'i \<Rightarrow> Unit list \<Rightarrow> bool" where
  "represents n i us \<longleftrightarrow> wf n i \<and> 0 \<le> size i
     \<and> (\<forall>k p. lookup i k p = filter (\<lambda>u. key u = k \<and> Creator u = p) us)
     \<and> (\<forall>u \<in> set us. key u < size i)"

lemma represents_lookup: "represents n i us \<Longrightarrow> lookup i k p = filter (\<lambda>u. key u = k \<and> Creator u = p) us"
  by (simp add: represents_def)

lemma represents_insert:
  assumes "represents n i us" "insert_ix i u = Some i'" "Creator u < n"
  shows "represents n i' (us @ [u])"
  using assms insert_wf [of n i u i'] lookup_insert [of n i u i']
  unfolding represents_def by (auto intro: order.strict_trans2)

lemma represents_insert_total:
  assumes "represents n i us" "0 \<le> key u" "key u = 0 \<or> (\<exists>v \<in> set us. key u \<le> key v + 1)"
  shows "\<exists>i'. insert_ix i u = Some i'"
proof -
  have "key u < size i + 10" using assms unfolding represents_def by force
  then show ?thesis using insert_total assms unfolding represents_def by blast
qed

end

lemma fiber_insert_fiber:
  fixes k :: int
  assumes wf: "fm_wf n fm" "0 \<le> fm_length fm"
  defines "fm' \<equiv> (if k \<ge> Len fm then extendBy fm 10 else fm)"
  shows "fm_wf n fm'" "fm_length fm \<le> fm_length fm'"
    and "0 \<le> k \<Longrightarrow> k < fm_length fm + 10 \<Longrightarrow> 0 \<le> k \<and> k < fm_length fm'"
    and "fm_lookup fm' j p = fm_lookup fm j p"
proof -
  show w: "fm_wf n fm'" "fm_length fm \<le> fm_length fm'"
    using fm_wf_extend [OF wf(1) _ wf(2), of 10] wf(1) by (simp_all add: fm'_def)
  show "0 \<le> k \<Longrightarrow> k < fm_length fm + 10 \<Longrightarrow> 0 \<le> k \<and> k < fm_length fm'"
    by (simp add: fm'_def Len_def)
  have "fm_content fm j = None" if "fm_length fm \<le> j" for j
    using wf(1) that unfolding fm_wf_def by (metis not_less option.exhaust)
  then show "fm_lookup fm' j p = fm_lookup fm j p"
    by (auto simp: fm'_def fm_lookup_content index_laws su.get_new)
qed

lemma fiber_insert_iff:
  assumes wf: "fm_wf n fm" "0 \<le> fm_length fm"
  shows "(\<exists>fm'. fiber_insert fm k u = Some fm') \<longleftrightarrow> 0 \<le> k \<and> k < fm_length fm + 10"
  using wf(2) fm_wf_None [OF wf(1), of k]
  by (cases "fm_content fm k") (auto simp: fiber_insert_def Let_def getFiber_def Len_def index_laws)

lemma fiber_insert_laws:
  assumes wf: "fm_wf n fm" "0 \<le> fm_length fm" and i: "fiber_insert fm k u = Some fm'"
  shows "fm_wf n fm' \<and> fm_length fm \<le> fm_length fm' \<and> k < fm_length fm'"
    and "Creator u < n \<Longrightarrow> fm_lookup fm' j p =
      (if k = j \<and> Creator u = p then fm_lookup fm j p @ [u] else fm_lookup fm j p)"
proof -
  define fx where "fx = (if k \<ge> Len fm then extendBy fm 10 else fm)"
  note fx = fiber_insert_fiber [OF wf, of k, folded fx_def]
  obtain s where s: "fm_content fx k = Some s"
    and fm': "fm' = setFiber fx k (Set_slot s (Creator u) (Get s (Creator u) @ [u]))"
    using i by (auto simp: fiber_insert_def Let_def getFiber_def fx_def [symmetric] split: option.splits)
  have k: "0 \<le> k" "k < fm_length fx" and sw: "su_wf n s"
    using fx(1) s unfolding fm_wf_def by blast+
  show "fm_wf n fm' \<and> fm_length fm \<le> fm_length fm' \<and> k < fm_length fm'"
    using fm_wf_set [OF fx(1) k su.push_wf [OF sw]] fx(2) k
    by (simp add: fm' su.push_def)
  show "fm_lookup fm' j p = (if k = j \<and> Creator u = p then fm_lookup fm j p @ [u] else fm_lookup fm j p)"
    if "Creator u < n"
    using that s fx(4) [of j p]
    by (auto simp: fm' fm_lookup_content index_laws su.get_put [OF sw])
qed

interpretation on_height: unit_index Height "\<lambda>fm u. fiber_insert fm (Height u) u" fm_lookup fm_length fm_wf
proof unfold_locales
  fix n fm u
  assume a: "fm_wf n fm" "0 \<le> fm_length fm"
  show "0 \<le> Height u \<Longrightarrow> Height u < fm_length fm + 10 \<Longrightarrow> \<exists>fm'. fiber_insert fm (Height u) u = Some fm'"
    using fiber_insert_iff [OF a] by blast
  show "Height u < 0 \<or> fm_length fm + 10 \<le> Height u \<Longrightarrow> fiber_insert fm (Height u) u = None"
    using fiber_insert_iff [OF a, of "Height u" u] by (cases "fiber_insert fm (Height u) u") auto
qed (fact fiber_insert_laws)+

interpretation on_level: unit_index Level "\<lambda>fm u. fiber_insert fm (Level u) u" fm_lookup fm_length fm_wf
proof unfold_locales
  fix n fm u
  assume a: "fm_wf n fm" "0 \<le> fm_length fm"
  show "0 \<le> Level u \<Longrightarrow> Level u < fm_length fm + 10 \<Longrightarrow> \<exists>fm'. fiber_insert fm (Level u) u = Some fm'"
    using fiber_insert_iff [OF a] by blast
  show "Level u < 0 \<or> fm_length fm + 10 \<le> Level u \<Longrightarrow> fiber_insert fm (Level u) u = None"
    using fiber_insert_iff [OF a, of "Level u" u] by (cases "fiber_insert fm (Level u) u") auto
qed (fact fiber_insert_laws)+

end
