(* ===== verification/Dag.thy ===== *)
theory Dag
  imports Containers
begin

text \<open>
  The dag of \<open>pkg/dag/dag.go\<close> and \<open>adding.go\<close>, the embedding of units with forking heights
  (\<open>pkg/unit/unit_in_dag.go\<close>) and \<open>MaxView\<close> (\<open>pkg/gomel/daginfo.go\<close>). The abstract dag is
  the list of the inserted units in insertion order; \<open>dag_inv\<close> relates the concrete indices
  to it and is preserved by every insertion of an acceptable unit.
\<close>

section \<open>State\<close>

record dagcore =
  nProc :: u16
  epochID :: EpochID
  units :: unitBag
  levelUnits :: fiberMap
  heightUnits :: fiberMap
  maxUnits :: slottedUnits

text \<open>
  The checks and hooks registered with the dag. Hooks are closures over state of other
  components, of type \<open>'s\<close>, and see the dag when they run.
\<close>

type_synonym UnitChecker = "Unit \<Rightarrow> dagcore \<Rightarrow> gerror option"
type_synonym 's InsertHook = "Unit \<Rightarrow> dagcore \<Rightarrow> 's \<Rightarrow> 's"

record 's dag =
  core :: dagcore
  checks :: "UnitChecker list"
  preInsert :: "'s InsertHook list"
  postInsert :: "'s InsertHook list"

definition New_core :: "u16 \<Rightarrow> int \<Rightarrow> EpochID \<Rightarrow> dagcore" where
  "New_core n epochLength epoch =
     \<lparr>nProc = n, epochID = epoch, units = newUnitBag,
      levelUnits = newFiberMap n epochLength, heightUnits = newFiberMap n epochLength,
      maxUnits = newSlottedUnits n\<rparr>"

definition New_dag :: "u16 \<Rightarrow> int \<Rightarrow> UnitChecker list \<Rightarrow> EpochID \<Rightarrow> 's dag" where
  "New_dag n epochLength confChecks epoch =
     \<lparr>core = New_core n epochLength epoch, checks = confChecks, preInsert = [], postInsert = []\<rparr>"

definition AddCheck :: "'s dag \<Rightarrow> UnitChecker \<Rightarrow> 's dag" where
  "AddCheck d check = d\<lparr>checks := checks d @ [check]\<rparr>"

definition BeforeInsert :: "'s dag \<Rightarrow> 's InsertHook \<Rightarrow> 's dag" where
  "BeforeInsert d hook = d\<lparr>preInsert := preInsert d @ [hook]\<rparr>"

definition AfterInsert :: "'s dag \<Rightarrow> 's InsertHook \<Rightarrow> 's dag" where
  "AfterInsert d hook = d\<lparr>postInsert := postInsert d @ [hook]\<rparr>"

section \<open>Queries\<close>

definition IsQuorum :: "(u16 \<Rightarrow> u16) \<Rightarrow> dagcore \<Rightarrow> u16 \<Rightarrow> bool" where
  "IsQuorum mq d number \<longleftrightarrow> number \<ge> mq (nProc d)"

definition UnitsOnLevel :: "dagcore \<Rightarrow> int \<Rightarrow> slottedUnits" where
  "UnitsOnLevel d level =
     (case getFiber (levelUnits d) level of
        Inl _ \<Rightarrow> newSlottedUnits (nProc d)
      | Inr res \<Rightarrow> res)"

definition UnitsAbove :: "dagcore \<Rightarrow> int list option \<Rightarrow> Unit list go" where
  "UnitsAbove d heights =
     (case heights of
        None \<Rightarrow> Some (getAll (units d))
      | Some hs \<Rightarrow> fiber_above (heightUnits d) hs)"

definition MaximalUnitsPerProcess :: "dagcore \<Rightarrow> slottedUnits" where
  "MaximalUnitsPerProcess d = maxUnits d"

definition GetUnit :: "dagcore \<Rightarrow> hash \<Rightarrow> Unit option" where
  "GetUnit d h = getOne (units d) h"

definition GetUnits :: "dagcore \<Rightarrow> hash option list \<Rightarrow> Unit option list" where
  "GetUnits d hashes = getMany (units d) hashes"

definition GetByID :: "dagcore \<Rightarrow> u64 \<Rightarrow> Unit list" where
  "GetByID d uid =
     (case DecodeID uid of (height, creator, epoch) \<Rightarrow>
        if epoch \<noteq> epochID d then []
        else case getFiber (heightUnits d) height of
               Inl _ \<Rightarrow> []
             | Inr fiber \<Rightarrow> Get fiber creator)"

record DagInfo =
  di_Epoch :: EpochID
  di_Heights :: "int list"

definition max_height :: "Unit list \<Rightarrow> int" where
  "max_height us = foldl (\<lambda>h u. if Height u > h then Height u else h) (-1) us"

definition MaxView :: "dagcore \<Rightarrow> DagInfo" where
  "MaxView d =
     \<lparr>di_Epoch = epochID d,
      di_Heights = Iterate (MaximalUnitsPerProcess d) (\<lambda>us heights. (True, heights @ [max_height us])) []\<rparr>"

section \<open>Adding units\<close>

text \<open>
  \<open>DecodeParents\<close>: the loop over the possible parents returns the \<open>AmbiguousParents\<close> error at
  the first slot with several units; \<open>units[0]\<close> exists there since no slot is unknown.
\<close>

fun pick_parents :: "int list \<Rightarrow> Unit list list \<Rightarrow> Unit option list option go" where
  "pick_parents (h # hs) (us # uss) =
     (if h = -1 then do { r \<leftarrow> pick_parents hs uss; Some (map_option (\<lambda>ps. None # ps) r) }
      else if length us > 1 then Some None
      else do { u \<leftarrow> nth_opt us 0; r \<leftarrow> pick_parents hs uss;
                Some (map_option (\<lambda>ps. Some u # ps) r) })"
| "pick_parents _ _ = Some (Some [])"

definition DecodeParents :: "dagcore \<Rightarrow> preunit \<Rightarrow> (gerror + Unit option list) go" where
  "DecodeParents d pu =
     (case GetUnit d (pu_hash pu) of
        Some u \<Rightarrow> Some (Inl (DuplicateUnit u))
      | None \<Rightarrow>
          do { (possibleParents, unknown) \<leftarrow> fiber_get (heightUnits d) (Heights (pu_crown pu));
               if unknown > 0 then Some (Inl (UnknownParents unknown))
               else do { r \<leftarrow> pick_parents (Heights (pu_crown pu)) possibleParents;
                         Some (case r of
                                 None \<Rightarrow> Inl (AmbiguousParents possibleParents)
                               | Some parents \<Rightarrow> Inr parents) } })"

definition BuildUnit :: "(u16 \<Rightarrow> u16) \<Rightarrow> preunit \<Rightarrow> Unit option list \<Rightarrow> Unit" where
  "BuildUnit mq pu parents = FromPreunit mq pu parents"

fun run_checks :: "UnitChecker list \<Rightarrow> Unit \<Rightarrow> dagcore \<Rightarrow> gerror option" where
  "run_checks [] u d = None"
| "run_checks (check # cs) u d = (case check u d of Some err \<Rightarrow> Some err | None \<Rightarrow> run_checks cs u d)"

definition Check :: "'s dag \<Rightarrow> Unit \<Rightarrow> gerror option" where
  "Check d u = run_checks (checks d) u (core d)"

text \<open>\<open>computeForkingHeight\<close> and \<open>Embed\<close>; pointer equality of dag units is equality here.\<close>

definition MaxInt32 :: int where
  "MaxInt32 = 2147483647"

definition computeForkingHeight :: "dagcore \<Rightarrow> Unit \<Rightarrow> int" where
  "computeForkingHeight d u =
     (if Dealing (preunit_of u) then
        (if length (Get (MaximalUnitsPerProcess d) (Creator u)) > 0 then -1 else MaxInt32)
      else case Predecessor u of
             Some (unitInDag p pfh) \<Rightarrow>
               (if \<exists>v \<in> set (Get (MaximalUnitsPerProcess d) (Creator u)). v = unitInDag p pfh then pfh
                else if pfh < Height p then pfh else Height p)
           | _ \<Rightarrow> MaxInt32)"

definition Embed :: "Unit \<Rightarrow> dagcore \<Rightarrow> Unit" where
  "Embed u d = unitInDag u (computeForkingHeight d u)"

definition updateUnitsOnHeight :: "dagcore \<Rightarrow> Unit \<Rightarrow> dagcore go" where
  "updateUnitsOnHeight d u =
     do { fm \<leftarrow> fiber_insert (heightUnits d) (Height u) u; Some (d\<lparr>heightUnits := fm\<rparr>) }"

definition updateUnitsOnLevel :: "dagcore \<Rightarrow> Unit \<Rightarrow> dagcore go" where
  "updateUnitsOnLevel d u =
     do { fm \<leftarrow> fiber_insert (levelUnits d) (Level u) u; Some (d\<lparr>levelUnits := fm\<rparr>) }"

definition updateMaximal :: "dagcore \<Rightarrow> Unit \<Rightarrow> dagcore" where
  "updateMaximal d u =
     (let maxByCreator = Get (maxUnits d) (Creator u);
          newMaxByCreator = filter (\<lambda>v. \<not> Above (Some u) (Some v)) maxByCreator @ [u]
      in d\<lparr>maxUnits := Set_slot (maxUnits d) (Creator u) newMaxByCreator\<rparr>)"

definition insert_core :: "dagcore \<Rightarrow> Unit \<Rightarrow> dagcore go" where
  "insert_core d u =
     do { d1 \<leftarrow> updateUnitsOnHeight d u;
          d2 \<leftarrow> updateUnitsOnLevel d1 u;
          let d3 = d2\<lparr>units := bag_add (units d2) u\<rparr>;
          Some (updateMaximal d3 u) }"

definition Insert :: "'s dag \<Rightarrow> Unit \<Rightarrow> 's \<Rightarrow> ('s dag \<times> 's) go" where
  "Insert d u s =
     (let u' = Embed u (core d);
          s1 = foldl (\<lambda>s hook. hook u' (core d) s) s (preInsert d)
      in do { c \<leftarrow> insert_core (core d) u';
              Some (d\<lparr>core := c\<rparr>, foldl (\<lambda>s hook. hook u' c s) s1 (postInsert d)) })"

section \<open>Acceptable units and the invariant\<close>

text \<open>What \<open>Insert\<close> relies on: established by \<open>DecodeParents\<close>, \<open>BuildUnit\<close> and the checks.\<close>

fun is_free :: "Unit \<Rightarrow> bool" where
  "is_free (freeUnit _ _ _ _) = True"
| "is_free (unitInDag _ _) = False"

fun_cases is_freeE: "is_free u"

definition acceptable :: "u16 \<Rightarrow> Unit list \<Rightarrow> Unit \<Rightarrow> bool" where
  "acceptable n es u \<longleftrightarrow>
     is_free u \<and> wf_node n u \<and> (\<forall>p. Some p \<in> set (Parents u) \<longrightarrow> p \<in> set es)
     \<and> floor_built u \<and> sees_all n u \<and> no_self_fork u \<and> (\<forall>v \<in> set es. Hash v \<noteq> Hash u)
     \<and> 0 \<le> Level u \<and> (Level u = 0 \<or> (\<exists>p. Some p \<in> set (Parents u) \<and> Level u \<le> Level p + 1))"

text \<open>Units are maximal when no other unit of the dag has them among its predecessors.\<close>

definition maximal_in :: "Unit list \<Rightarrow> Unit \<Rightarrow> bool" where
  "maximal_in es u \<longleftrightarrow> \<not> (\<exists>w \<in> set es. w \<noteq> u \<and> chain w u)"

definition embedded :: "Unit \<Rightarrow> bool" where
  "embedded u \<longleftrightarrow> (\<exists>v fh. u = unitInDag v fh \<and> is_free v)"

fun forkingHeight :: "Unit \<Rightarrow> int" where
  "forkingHeight (unitInDag u fh) = fh"
| "forkingHeight (freeUnit pu ps l fl) = -1"

text \<open>Below its forking height a unit has the same predecessors as every other unit of its creator.\<close>

definition fork_inv :: "Unit set \<Rightarrow> bool" where
  "fork_inv S \<longleftrightarrow> (\<forall>u \<in> S. \<forall>v \<in> S. \<forall>x y. Creator u = Creator v \<longrightarrow> chain u x \<longrightarrow> chain v y \<longrightarrow>
     Height x = Height y \<longrightarrow> Height x \<le> commonForkingHeight (forkingHeight u) (forkingHeight v) \<longrightarrow> x = y)"

definition units_inv :: "u16 \<Rightarrow> Unit list \<Rightarrow> bool" where
  "units_inv n es \<longleftrightarrow> wf_set n (set es) \<and> distinct (map Hash es) \<and> (\<forall>u \<in> set es. embedded u)
     \<and> (\<forall>u \<in> set es. floor_built u \<and> sees_all n u \<and> no_self_fork u) \<and> fork_inv (set es)"

definition dag_inv :: "dagcore \<Rightarrow> Unit list \<Rightarrow> bool" where
  "dag_inv d es \<longleftrightarrow> units_inv (nProc d) es
     \<and> on_height.represents (nProc d) (heightUnits d) es
     \<and> on_level.represents (nProc d) (levelUnits d) es
     \<and> units d = map (\<lambda>u. (Hash u, u)) es
     \<and> su_wf (nProc d) (maxUnits d)
     \<and> (\<forall>c. Get (maxUnits d) c = filter (\<lambda>u. Creator u = c \<and> maximal_in es u) es)"

section \<open>Forking heights\<close>

lemma accessors_embed [simp]:
  "floor_built (unitInDag u fh) = floor_built u" "sees_all n (unitInDag u fh) = sees_all n u"
  "no_self_fork (unitInDag u fh) = no_self_fork u" "wf_node n (unitInDag u fh) = wf_node n u"
  "Predecessor (unitInDag u fh) = Predecessor u"
  by (simp_all add: floor_built_def sees_all_def no_self_fork_def wf_node_def Predecessor_def
      fun_eq_iff)

lemma units_invD:
  assumes "units_inv n es"
  shows "wf_set n (set es)" "distinct (map Hash es)" "u \<in> set es \<Longrightarrow> embedded u" "fork_inv (set es)"
    and "u \<in> set es \<Longrightarrow> v \<in> set es \<Longrightarrow> Hash u = Hash v \<Longrightarrow> u = v"
  using assms by (auto simp: units_inv_def distinct_map inj_on_def)

lemma units_inv_faithful: "units_inv n es \<Longrightarrow> hash_faithful (set es)"
  unfolding hash_faithful_def by (metis units_invD(5))

text \<open>The walk and the short cut through forking heights agree.\<close>

lemma chainH_bounds:
  assumes "wf_set n S" "hash_faithful S" "u \<in> S" "v \<in> S" "chainH u v"
  shows "Creator u = Creator v" "Height v \<le> Height u"
proof -
  obtain w where w: "chain u w" "Hash w = Hash v" using assms(5) by (auto simp: chainH_def)
  have "w \<in> S" using chain_closed [OF w(1) assms(1,3)] .
  then have "Creator w = Creator v" "Height w = Height v"
    using hash_faithfulD [OF assms(2) _ assms(4) w(2)] by auto
  then show "Creator u = Creator v" "Height v \<le> Height u"
    using chain_Creator [OF w(1) assms(1,3)] chain_Height [OF w(1) assms(1,3)] by auto
qed

lemma AboveWithinProc_chainH:
  assumes I: "units_inv n es" and uv: "u \<in> set es" "v \<in> set es"
  shows "AboveWithinProc u v \<longleftrightarrow> chainH u v"
proof -
  note D = units_invD [OF I] and F = units_inv_faithful [OF I]
  obtain pu ps l fl fh where u: "u = unitInDag (freeUnit pu ps l fl) fh"
    using D(3) [OF uv(1)] by (auto simp: embedded_def elim!: is_freeE)
  obtain v' vfh where v: "v = unitInDag v' vfh"
    using D(3) [OF uv(2)] by (auto simp: embedded_def)
  have walk: "AboveWithinProc (freeUnit pu ps l fl) v \<longleftrightarrow> walkAbove u v"
    if "Height v \<le> Height u" "Creator u = Creator v"
    using that by (auto simp: walkAbove_def u split: option.splits)
  show ?thesis
  proof (cases "Height u < Height v \<or> Creator u \<noteq> Creator v")
    case True
    then show ?thesis using chainH_bounds [OF D(1) F uv] by (auto simp: u)
  next
    case False
    show ?thesis
    proof (cases "Height v \<le> commonForkingHeight fh vfh")
      case True
      obtain x where x: "chain u x" "Height x = Height v"
        using descendTo_chain [OF D(1) uv(1) wf_Height_nonneg [OF D(1) uv(2)]] False by auto
      have "x = v" using D(4) uv x False True unfolding fork_inv_def
        by (metis chain.refl forkingHeight.simps(1) u v)
      then have "chainH u v" using x by (auto simp: chainH_def)
      then show ?thesis using False True by (auto simp: u v)
    next
      case short: False
      then have "AboveWithinProc u v \<longleftrightarrow> walkAbove u v" using False short walk by (auto simp: u v)
      then show ?thesis using walkAbove_iff [OF D(1) F uv] by blast
    qed
  qed
qed

lemma units_inv_comparable:
  assumes I: "units_inv n es"
  shows "comparable_set n (set es)"
proof -
  have "\<forall>u \<in> set es. floor_built u \<and> sees_all n u \<and> no_self_fork u" using I by (simp add: units_inv_def)
  then show ?thesis
    unfolding comparable_set_def
    using units_invD(1) [OF I] units_inv_faithful [OF I] AboveWithinProc_chainH [OF I] by blast
qed

section \<open>Insertion preserves the invariant\<close>

lemma chain_new:
  assumes w: "wf_set n S" and p: "\<And>p. Some p \<in> set (Parents u) \<Longrightarrow> p \<in> S" and x: "chain (unitInDag u fh) x"
  shows "x = unitInDag u fh \<or> (\<exists>p. Predecessor u = Some p \<and> p \<in> S \<and> chain p x)"
  using x by (cases rule: chain.cases) (auto simp: Predecessor_in_Parents p)

lemma wf_set_insert:
  assumes "wf_set n S" "wf_node n u" "\<And>p. Some p \<in> set (Parents u) \<Longrightarrow> p \<in> S"
  shows "wf_set n (insert (unitInDag u fh) S)"
  using assms by (auto simp: wf_set_def parents_closed_def)

lemma acceptableD:
  assumes "acceptable n es u"
  shows "is_free u" "wf_node n u" "Some p \<in> set (Parents u) \<Longrightarrow> p \<in> set es"
    and "floor_built u" "sees_all n u" "no_self_fork u" "v \<in> set es \<Longrightarrow> Hash v \<noteq> Hash u"
    and "0 \<le> Level u" "Level u = 0 \<or> (\<exists>p. Some p \<in> set (Parents u) \<and> Level u \<le> Level p + 1)"
  using assms by (auto simp: acceptable_def)

lemma dag_invD:
  assumes "dag_inv d es"
  shows "units_inv (nProc d) es" "on_height.represents (nProc d) (heightUnits d) es"
    "on_level.represents (nProc d) (levelUnits d) es" "units d = map (\<lambda>u. (Hash u, u)) es"
    "su_wf (nProc d) (maxUnits d)"
    "Get (maxUnits d) c = filter (\<lambda>u. Creator u = c \<and> maximal_in es u) es"
  using assms by (auto simp: dag_inv_def)

text \<open>A creator with units in the dag has a maximal one.\<close>

lemma highest_unit:
  assumes "v \<in> set es" "Creator v = c"
  obtains m where "m \<in> set es" "Creator m = c" "\<And>w. w \<in> set es \<Longrightarrow> Creator w = c \<Longrightarrow> Height w \<le> Height m"
proof -
  let ?A = "Height ` {w \<in> set es. Creator w = c}"
  have "finite ?A" "?A \<noteq> {}" using assms by auto
  then have "Max ?A \<in> ?A" "\<And>h. h \<in> ?A \<Longrightarrow> h \<le> Max ?A" by auto
  then obtain m where "m \<in> set es" "Creator m = c" "Height m = Max ?A" by auto
  moreover have "Height w \<le> Max ?A" if "w \<in> set es" "Creator w = c" for w
    using that \<open>finite ?A\<close> by auto
  ultimately show thesis using that by metis
qed

lemma maximal_nonempty:
  assumes D: "dag_inv d es" and v: "v \<in> set es"
  shows "Get (maxUnits d) (Creator v) \<noteq> []"
proof -
  note I = units_invD [OF dag_invD(1) [OF D]]
  obtain m where m: "m \<in> set es" "Creator m = Creator v"
      and mx: "\<And>w. w \<in> set es \<Longrightarrow> Creator w = Creator v \<Longrightarrow> Height w \<le> Height m"
    using highest_unit [OF v] by blast
  have "maximal_in es m"
    unfolding maximal_in_def
  proof
    assume "\<exists>w \<in> set es. w \<noteq> m \<and> chain w m"
    then obtain w where w: "w \<in> set es" "w \<noteq> m" "chain w m" by blast
    then have "Height m < Height w" "Creator w = Creator v"
      using chain_Height [OF w(3) I(1) w(1)] chain_Creator [OF w(3) I(1) w(1)] m(2) by fastforce+
    then show False using mx [OF w(1)] by simp
  qed
  then have "m \<in> set (Get (maxUnits d) (Creator v))" using dag_invD(6) [OF D] m by simp
  then show ?thesis by auto
qed

text \<open>The new forking height keeps \<^const>\<open>fork_inv\<close>: the three branches of \<open>computeForkingHeight\<close>.\<close>

lemma fork_height_sound:
  assumes D: "dag_inv d es" and A: "acceptable (nProc d) es u"
    and v: "v \<in> set es" "Creator v = Creator u" and x: "chain (Embed u d) x" and y: "chain v y"
    and h: "Height x = Height y" "Height x \<le> commonForkingHeight (computeForkingHeight d u) (forkingHeight v)"
  shows "x = y"
proof -
  note I = units_invD [OF dag_invD(1) [OF D]] and a = acceptableD [OF A]
  have vb: "Height y \<le> Height v" using chain_Height [OF y I(1) v(1)] by blast
  have y0: "0 \<le> Height y" using wf_Height_nonneg [OF I(1) chain_closed [OF y I(1) v(1)]] .
  show ?thesis
  proof (cases "Predecessor u")
    case None
    then have "Height u = 0" using a(2) by (simp add: wf_node_def)
    then have "Dealing (preunit_of u)" by (simp add: Dealing_def Height_def)
    then have "computeForkingHeight d u = -1" using maximal_nonempty [OF D v(1)] v(2)
      by (simp add: computeForkingHeight_def MaximalUnitsPerProcess_def)
    then show ?thesis using h y0 by (simp add: commonForkingHeight_def split: if_splits)
  next
    case (Some p)
    have pS: "p \<in> set es" using a(3) Predecessor_in_Parents [OF Some] by blast
    have hp: "Height u = Height p + 1" "Creator p = Creator u" using wf_node_Predecessor [OF a(2) Some] by auto
    have h0: "0 \<le> Height p" using wf_Height_nonneg [OF I(1) pS] .
    obtain p' pfh where p': "p = unitInDag p' pfh" using I(3) [OF pS] by (auto simp: embedded_def)
    have cfh: "computeForkingHeight d u = (if p \<in> set (Get (maxUnits d) (Creator u)) then pfh
        else if pfh < Height p then pfh else Height p)"
      using hp(1) h0 Some
      by (simp add: computeForkingHeight_def Dealing_def Height_def p' MaximalUnitsPerProcess_def)
    have below: "x = y" if px: "chain p x"
    proof -
      have "Height x \<le> commonForkingHeight pfh (forkingHeight v)"
        using h(2) by (auto simp: cfh commonForkingHeight_def split: if_splits)
      then show ?thesis
        using I(4) pS v px y h(1) hp(2) unfolding fork_inv_def by (metis p' forkingHeight.simps(1))
    qed
    show ?thesis
    proof (cases "chain p x")
      case False
      then have xu: "x = Embed u d"
        using chain_new [OF I(1) a(3) x [unfolded Embed_def]] Some by (auto simp: Embed_def)
      then have hx: "Height x = Height p + 1" using hp by (simp add: Embed_def)
      then have found: "p \<in> set (Get (maxUnits d) (Creator u))" "Height x \<le> commonForkingHeight pfh (forkingHeight v)"
        using h(2) by (auto simp: cfh commonForkingHeight_def split: if_splits)
      obtain q where q: "chain v q" "Height q = Height p"
        using descendTo_chain [OF I(1) v(1) h0] vb hx h(1) by auto
      have "Height p \<le> commonForkingHeight pfh (forkingHeight v)" using found(2) hx by simp
      then have "p = q"
        using I(4) pS v q hp(2) unfolding fork_inv_def by (metis p' forkingHeight.simps(1) chain.refl)
      moreover have "v \<noteq> p" using vb hx h(1) by auto
      ultimately have "\<not> maximal_in es p" using v(1) q(1) by (auto simp: maximal_in_def)
      then show ?thesis using found(1) dag_invD(6) [OF D] by simp
    qed (rule below)
  qed
qed


text \<open>Chains of dag units stay inside the dag, chains of the new unit pass through its predecessor.\<close>

lemma chain_Embed_old:
  assumes D: "dag_inv d es" and A: "acceptable (nProc d) es u" and w: "w \<in> set es"
  shows "\<not> chain w (Embed u d)"
proof
  assume "chain w (Embed u d)"
  then have "Embed u d \<in> set es" using chain_closed units_invD(1) [OF dag_invD(1) [OF D]] w by blast
  then show False using acceptableD(7) [OF A] by (fastforce simp: Embed_def)
qed

lemma units_inv_insert:
  assumes D: "dag_inv d es" and A: "acceptable (nProc d) es u"
  shows "units_inv (nProc d) (es @ [Embed u d])"
proof -
  note I = units_invD [OF dag_invD(1) [OF D]] and a = acceptableD [OF A]
  have w: "wf_set (nProc d) (insert (Embed u d) (set es))"
    using wf_set_insert [OF I(1) a(2,3)] by (simp add: Embed_def)
  have new: "x = y" if "v \<in> set es" "Creator v = Creator u" "chain (Embed u d) x" "chain v y"
      "Height x = Height y" "Height x \<le> commonForkingHeight (forkingHeight (Embed u d)) (forkingHeight v)" for v x y
    using fork_height_sound [OF D A that(1-5)] that(6) by (simp add: Embed_def)
  have "fork_inv (insert (Embed u d) (set es))"
    unfolding fork_inv_def
  proof (intro ballI allI impI)
    fix s t x y
    assume st: "s \<in> insert (Embed u d) (set es)" "t \<in> insert (Embed u d) (set es)" "Creator s = Creator t"
      and c: "chain s x" "chain t y" and h: "Height x = Height y"
      and b: "Height x \<le> commonForkingHeight (forkingHeight s) (forkingHeight t)"
    have b': "Height y \<le> commonForkingHeight (forkingHeight t) (forkingHeight s)"
      using b h by (auto simp: commonForkingHeight_def split: if_splits)
    consider "s = t" | "s = Embed u d" "t \<in> set es" | "t = Embed u d" "s \<in> set es" | "s \<in> set es" "t \<in> set es"
      using st by auto
    then show "x = y"
    proof cases
      case 1
      then show ?thesis using chain_unique [OF _ _ _ w] c h st(1) by blast
    next
      case 2
      then show ?thesis using new [OF 2(2) _ _ c(2) h] c(1) b st(3) by (simp add: Embed_def)
    next
      case 3
      then show ?thesis using new [OF 3(2) _ _ c(1) h [symmetric]] c(2) b' st(3) by (simp add: Embed_def)
    next
      case 4
      then show ?thesis using I(4) st(3) c h b unfolding fork_inv_def by blast
    qed
  qed
  moreover have "distinct (map Hash (es @ [Embed u d]))"
    using I(2) a(7) by (fastforce simp: Embed_def)
  moreover have "embedded (Embed u d)" using a(1) by (auto simp: embedded_def Embed_def)
  moreover have "\<forall>v \<in> set es. embedded v \<and> floor_built v \<and> sees_all (nProc d) v \<and> no_self_fork v"
    using dag_invD(1) [OF D] by (simp add: units_inv_def)
  ultimately show ?thesis using w a(4-6) by (simp add: units_inv_def Embed_def)
qed

lemma above_Embed_iff:
  assumes D: "dag_inv d es" and A: "acceptable (nProc d) es u" and v: "v \<in> set es" "Creator v = Creator u"
  shows "above (Embed u d) v \<longleftrightarrow> chain (Embed u d) v"
proof -
  note U = units_inv_insert [OF D A]
  note C = units_inv_comparable [OF U]
  have m: "Embed u d \<in> set (es @ [Embed u d])" "v \<in> set (es @ [Embed u d])" using v by auto
  have c: "Creator (Embed u d) = Creator v" using v by (simp add: Embed_def)
  show ?thesis
  proof
    assume "above (Embed u d) v"
    then obtain w where w: "chain (Embed u d) w" "Hash w = Hash v"
      using above_same_creator [OF C m c] by (auto simp: chainH_def)
    then show "chain (Embed u d) v"
      using units_invD(5) [OF U chain_closed [OF w(1) units_invD(1) [OF U] m(1)] m(2)] by simp
  next
    assume "chain (Embed u d) v"
    then have "dominates (Embed u d) v" using chain_reaches Equal_refl unfolding dominates_def by blast
    then show "above (Embed u d) v" using above_iff_dominates [OF C m] by blast
  qed
qed

lemma maximal_insert:
  assumes D: "dag_inv d es" and A: "acceptable (nProc d) es u"
  shows "Get (maxUnits (updateMaximal d (Embed u d))) c =
    filter (\<lambda>v. Creator v = c \<and> maximal_in (es @ [Embed u d]) v) (es @ [Embed u d])"
proof -
  let ?e = "Embed u d"
  have n: "Creator u < nProc d" using acceptableD(2) [OF A] by (simp add: wf_node_def)
  have new: "maximal_in (es @ [?e]) ?e"
    using chain_Embed_old [OF D A] by (auto simp: maximal_in_def)
  have ne: "?e \<noteq> v" if "v \<in> set es" for v using acceptableD(7) [OF A that] by (auto simp: Embed_def)
  have old: "maximal_in (es @ [?e]) v \<longleftrightarrow> maximal_in es v \<and> \<not> chain ?e v" if "v \<in> set es" for v
    using ne [OF that] by (auto simp: maximal_in_def)
  have other: "\<not> chain ?e v" if "Creator v \<noteq> Creator u" "v \<in> set es" for v
    using chain_Creator [of ?e v "nProc d" "set (es @ [?e])"] units_invD(1) [OF units_inv_insert [OF D A]] that
    by (auto simp: Embed_def)
  have "Get (maxUnits (updateMaximal d ?e)) c =
      (if Creator u = c then filter (\<lambda>v. \<not> above ?e v) (Get (maxUnits d) c) @ [?e] else Get (maxUnits d) c)"
    using n by (simp add: updateMaximal_def Let_def su.get_put [OF dag_invD(5) [OF D]] Above_def Embed_def)
  also have "\<dots> = filter (\<lambda>v. Creator v = c \<and> maximal_in (es @ [?e]) v) (es @ [?e])"
  proof (cases "Creator u = c")
    case True
    have "filter (\<lambda>v. (Creator v = c \<and> maximal_in es v) \<and> \<not> above ?e v) es
        = filter (\<lambda>v. Creator v = c \<and> maximal_in (es @ [?e]) v) es"
      using old above_Embed_iff [OF D A] True by (intro filter_cong) auto
    then show ?thesis using True new by (simp add: dag_invD(6) [OF D] Embed_def)
  next
    case False
    then show ?thesis using old other
      by (simp add: dag_invD(6) [OF D] Embed_def) (intro filter_cong, auto simp: Embed_def)
  qed
  finally show ?thesis .
qed


lemma dag_inv_New:
  assumes "0 \<le> len"
  shows "dag_inv (New_core n len epoch) []"
proof -
  have e: "fm_wf n (newFiberMap n len)" "\<And>k p. fm_lookup (newFiberMap n len) k p = []"
    using fm_wf_new by (simp_all add: fm_lookup_content index_laws su.get_new)
  then show ?thesis using assms
    by (simp add: dag_inv_def New_core_def units_inv_def wf_set_def parents_closed_def fork_inv_def
        on_height.represents_def on_level.represents_def newUnitBag_def su.new_wf su.get_new)
qed

lemma insert_core_inv:
  assumes D: "dag_inv d es" and A: "acceptable (nProc d) es u"
  shows "\<exists>d'. insert_core d (Embed u d) = Some d' \<and> dag_inv d' (es @ [Embed u d])
    \<and> nProc d' = nProc d \<and> epochID d' = epochID d"
proof -
  let ?e = "Embed u d"
  note a = acceptableD [OF A] and R = dag_invD(2,3) [OF D]
  have n: "Creator ?e < nProc d" using a(2) by (simp add: wf_node_def Embed_def)
  have h: "0 \<le> Height ?e" "Height ?e = 0 \<or> (\<exists>v \<in> set es. Height ?e \<le> Height v + 1)"
  proof -
    have "0 \<le> Height u \<and> (Height u = 0 \<or> (\<exists>v \<in> set es. Height u \<le> Height v + 1))"
    proof (cases "Predecessor u")
      case None
      then show ?thesis using a(2) by (simp add: wf_node_def)
    next
      case (Some p)
      then have p: "p \<in> set es" "Height u = Height p + 1"
        using a(3) Predecessor_in_Parents wf_node_Predecessor(2) [OF a(2)] by blast+
      then show ?thesis using wf_Height_nonneg [OF units_invD(1) [OF dag_invD(1) [OF D]] p(1)] by auto
    qed
    then show "0 \<le> Height ?e" "Height ?e = 0 \<or> (\<exists>v \<in> set es. Height ?e \<le> Height v + 1)"
      by (simp_all add: Embed_def)
  qed
  have l: "0 \<le> Level ?e" "Level ?e = 0 \<or> (\<exists>v \<in> set es. Level ?e \<le> Level v + 1)"
    using a(3,8,9) by (auto simp: Embed_def)
  obtain hm where hm: "fiber_insert (heightUnits d) (Height ?e) ?e = Some hm"
    using on_height.represents_insert_total [OF R(1) h] by blast
  obtain lm where lm: "fiber_insert (levelUnits d) (Level ?e) ?e = Some lm"
    using on_level.represents_insert_total [OF R(2) l] by blast
  have b: "bag_add (units d) ?e = map (\<lambda>u. (Hash u, u)) (es @ [?e])"
  proof -
    have "getOne (units d) (Hash ?e) = None"
      using a(7) by (fastforce simp: dag_invD(4) [OF D] getOne_def map_of_eq_None_iff Embed_def)
    then show ?thesis by (simp add: bag_add_new dag_invD(4) [OF D])
  qed
  let ?d = "d\<lparr>heightUnits := hm, levelUnits := lm, units := bag_add (units d) ?e\<rparr>"
  have "insert_core d ?e = Some (updateMaximal ?d ?e)"
    by (simp add: insert_core_def updateUnitsOnHeight_def updateUnitsOnLevel_def hm lm Let_def)
  moreover have "maxUnits (updateMaximal ?d ?e) = maxUnits (updateMaximal d ?e)"
    by (simp add: updateMaximal_def Let_def)
  moreover have "dag_inv (updateMaximal ?d ?e) (es @ [?e])"
    unfolding dag_inv_def
    using units_inv_insert [OF D A] on_height.represents_insert [OF R(1) hm n]
      on_level.represents_insert [OF R(2) lm n] b maximal_insert [OF D A]
      su.put_wf [OF dag_invD(5) [OF D]]
    by (simp add: updateMaximal_def Let_def)
  ultimately show ?thesis by (auto simp: updateMaximal_def Let_def)
qed

section \<open>What the queries return\<close>

lemma GetUnit_inv: "dag_inv d es \<Longrightarrow> GetUnit d h = find (\<lambda>u. Hash u = h) es"
proof -
  assume "dag_inv d es"
  then have "units d = map (\<lambda>u. (Hash u, u)) es" by (rule dag_invD)
  moreover have "map_of (map (\<lambda>u. (Hash u, u)) es) h = find (\<lambda>u. Hash u = h) es" for es
    by (induction es) auto
  ultimately show ?thesis by (simp add: GetUnit_def getOne_def)
qed

lemma GetByID_inv:
  assumes "dag_inv d es" "DecodeID uid = (h, c, e)"
  shows "GetByID d uid = (if e = epochID d then filter (\<lambda>u. Height u = h \<and> Creator u = c) es else [])"
  using on_height.represents_lookup [OF dag_invD(2) [OF assms(1)], of h c] assms(2)
  by (simp add: GetByID_def fm_lookup_def)

lemma UnitsOnLevel_inv:
  assumes D: "dag_inv d es"
  shows "Get (UnitsOnLevel d l) c = filter (\<lambda>u. Level u = l \<and> Creator u = c) es"
  using on_level.represents_lookup [OF dag_invD(3) [OF D], of l c]
  by (simp add: UnitsOnLevel_def fm_lookup_def su.get_new split: sum.splits)


lemma min_height_le: "min_height h0 hs \<le> h0" "h \<in> set hs \<Longrightarrow> min_height h0 hs \<le> h"
proof -
  have le: "min_height h0 hs \<le> h0" for h0 :: int and hs
    unfolding min_height_def
  proof (induction hs arbitrary: h0)
    case (Cons a hs)
    show ?case using Cons.IH [of "if a < h0 then a else h0"] by (simp split: if_splits)
  qed simp
  then show "min_height h0 hs \<le> h0" .
  show "h \<in> set hs \<Longrightarrow> min_height h0 hs \<le> h"
  proof (induction hs arbitrary: h0)
    case (Cons a hs)
    then show ?case using le [of "if a < h0 then a else h0" hs]
      by (auto simp: min_height_def split: if_splits)
  qed simp
qed

lemma min_height_in: "min_height h0 hs \<in> set (h0 # hs)"
  unfolding min_height_def by (induction hs arbitrary: h0) auto

text \<open>The slots \<open>above\<close> reads, in its order.\<close>

definition slots_above :: "u16 \<Rightarrow> int list \<Rightarrow> int \<Rightarrow> (int \<times> u16) list" where
  "slots_above n hs len = concat (map (\<lambda>h. map (Pair h) (filter (\<lambda>i. h > hs ! unat i) (pids n)))
     [min_height (hd hs) (tl hs) + 1..len - 1])"

lemma slots_above_iff:
  assumes "length hs = unat n" "n \<noteq> 0"
  shows "(h, i) \<in> set (slots_above n hs len) \<longleftrightarrow> i < n \<and> hs ! unat i < h \<and> h < len"
proof -
  have "min_height (hd hs) (tl hs) < h" if "i < n" "hs ! unat i < h"
  proof -
    have "unat i < length hs" using that(1) assms(1) by (simp add: word_less_nat_alt)
    then have "hs ! unat i \<in> set (hd hs # tl hs)" using nth_mem [of "unat i" hs] by (cases hs) auto
    then have "min_height (hd hs) (tl hs) \<le> hs ! unat i" using min_height_le by auto
    then show ?thesis using that(2) by simp
  qed
  then show ?thesis by (auto simp: slots_above_def)
qed

lemma fiber_above_eq:
  assumes wf: "fm_wf n fm" and l: "length hs = unat n" and n: "n \<noteq> 0" and b: "\<forall>h \<in> set hs. -1 \<le> h"
  shows "fiber_above fm hs = Some (concat (map (\<lambda>(h, i). fm_lookup fm h i) (slots_above n hs (fm_length fm))))"
proof -
  have "unat n \<noteq> 0" using n by (simp add: unat_eq_zero)
  then obtain h0 hs' where hs: "hs = h0 # hs'" using l by (cases hs) auto
  have w: "fm_width fm = n" using wf by (simp add: fm_wf_def)
  have m: "-1 \<le> min_height h0 hs'" using min_height_in [of h0 hs'] b hs by auto
  let ?f = "\<lambda>(h, i). case fm_content fm h of None \<Rightarrow> None | Some su \<Rightarrow> Some (Get su i)"
  have "those (map ?f (slots_above n hs (fm_length fm)))
      = Some (map (\<lambda>(h, i). fm_lookup fm h i) (slots_above n hs (fm_length fm)))"
  proof (rule those_map_Some, clarify)
    fix h i assume "(h, i) \<in> set (slots_above n hs (fm_length fm))"
    then have "0 \<le> h" "h < fm_length fm" using m by (auto simp: slots_above_def hs)
    then have "fm_content fm h \<noteq> None" using fm_wf_None [OF wf] by blast
    then show "(case fm_content fm h of None \<Rightarrow> None | Some su \<Rightarrow> Some (Get su i)) = Some (fm_lookup fm h i)"
      by (auto simp: fm_lookup_content)
  qed
  then show ?thesis using l
    by (simp add: fiber_above_def w hs slots_above_def map_concat comp_def)
qed

lemma UnitsAbove_inv:
  assumes D: "dag_inv d es" and l: "length hs = unat (nProc d)" "nProc d \<noteq> 0" and b: "\<forall>h \<in> set hs. -1 \<le> h"
  shows "\<exists>us. UnitsAbove d (Some hs) = Some us \<and>
    mset us = mset (filter (\<lambda>u. hs ! unat (Creator u) < Height u) es)"
proof -
  note R = dag_invD(2) [OF D]
  have wf: "fm_wf (nProc d) (heightUnits d)" using R by (simp add: on_height.represents_def)
  let ?s = "slots_above (nProc d) hs (fm_length (heightUnits d))"
  let ?key = "\<lambda>u. (Height u, Creator u)"
  have "UnitsAbove d (Some hs) = Some (concat (map (\<lambda>k. filter (\<lambda>u. ?key u = k) es) ?s))"
    using on_height.represents_lookup [OF R]
    by (simp add: UnitsAbove_def fiber_above_eq [OF wf l b])
      (intro arg_cong [where f = concat] map_cong, auto)
  moreover have "distinct ?s" unfolding slots_above_def by (rule distinct_concat_Pair) auto
  moreover have "filter (\<lambda>u. ?key u \<in> set ?s) es = filter (\<lambda>u. hs ! unat (Creator u) < Height u) es"
  proof (rule filter_cong)
    fix u assume u: "u \<in> set es"
    have "Creator u < nProc d"
      using wf_setD(1) [OF units_invD(1) [OF dag_invD(1) [OF D]] u] by (simp add: wf_node_def)
    moreover have "Height u < fm_length (heightUnits d)" using R u by (simp add: on_height.represents_def)
    ultimately show "(?key u \<in> set ?s) = (hs ! unat (Creator u) < Height u)"
      using slots_above_iff [OF l] by simp
  qed simp
  ultimately show ?thesis using mset_concat_by_key [of ?s ?key es] by auto
qed


section \<open>Decoding parents\<close>

definition ambiguous :: "int list \<Rightarrow> Unit list list \<Rightarrow> bool" where
  "ambiguous hs uss \<longleftrightarrow> (\<exists>(h, us) \<in> set (zip hs uss). h \<noteq> -1 \<and> length us > 1)"

lemma pick_parents_eq:
  "length hs = length uss \<Longrightarrow> \<forall>(h, us) \<in> set (zip hs uss). h \<noteq> -1 \<longrightarrow> us \<noteq> [] \<Longrightarrow>
   pick_parents hs uss = Some (if ambiguous hs uss then None
     else Some (map2 (\<lambda>h us. if h = -1 then None else Some (hd us)) hs uss))"
proof (induction hs uss rule: list_induct2)
  case (Cons h hs us uss)
  then have IH: "pick_parents hs uss = Some (if ambiguous hs uss then None
     else Some (map2 (\<lambda>h us. if h = -1 then None else Some (hd us)) hs uss))" by simp
  have a: "ambiguous (h # hs) (us # uss) \<longleftrightarrow> (h \<noteq> -1 \<and> length us > 1) \<or> ambiguous hs uss"
    by (auto simp: ambiguous_def)
  have "h \<noteq> -1 \<Longrightarrow> nth_opt us 0 = Some (hd us)" using Cons.prems by (auto simp: nth_opt_def hd_conv_nth)
  then show ?case by (simp add: IH a)
qed (simp add: ambiguous_def)

text \<open>The units of the dag a height of the crown can mean.\<close>

definition candidates :: "Unit list \<Rightarrow> int list \<Rightarrow> nat \<Rightarrow> Unit list" where
  "candidates es hs i = (if hs ! i = -1 then [] else filter (\<lambda>u. Height u = hs ! i \<and> Creator u = of_nat i) es)"

definition unknown_parents :: "Unit list \<Rightarrow> int list \<Rightarrow> nat" where
  "unknown_parents es hs = length (filter (\<lambda>i. hs ! i \<noteq> -1 \<and> candidates es hs i = []) [0..<length hs])"

lemma fiber_get_inv:
  assumes D: "dag_inv d es" and l: "length hs = unat (nProc d)"
  shows "fiber_get (heightUnits d) hs =
    Some (map (candidates es hs) [0..<length hs], int (unknown_parents es hs))"
proof -
  note R = dag_invD(2) [OF D]
  have w: "fm_width (heightUnits d) = nProc d" using R by (simp add: on_height.represents_def fm_wf_def)
  have g: "(case fm_content (heightUnits d) h of None \<Rightarrow> [] | Some su \<Rightarrow> Get su p)
      = filter (\<lambda>u. Height u = h \<and> Creator u = p) es" for h p
    using on_height.represents_lookup [OF R, of h p] by (simp add: fm_lookup_content)
  have c: "map (\<lambda>(pid, h). if h = -1 then []
        else case fm_content (heightUnits d) h of None \<Rightarrow> [] | Some su \<Rightarrow> Get su (of_nat pid)) (enumerate 0 hs)
      = map (candidates es hs) [0..<length hs]"
    by (rule nth_equalityI) (simp_all add: nth_enumerate_eq candidates_def g)
  have "zip hs (map (candidates es hs) [0..<length hs]) = map (\<lambda>i. (hs ! i, candidates es hs i)) [0..<length hs]"
    by (rule nth_equalityI) simp_all
  then have "length (filter (\<lambda>(h, us). h \<noteq> -1 \<and> us = []) (zip hs (map (candidates es hs) [0..<length hs])))
      = unknown_parents es hs"
    by (simp add: unknown_parents_def filter_map comp_def)
  then show ?thesis using l by (simp add: fiber_get_def w c Let_def)
qed

lemma DecodeParents_inv:
  assumes D: "dag_inv d es" and new: "\<forall>u \<in> set es. Hash u \<noteq> pu_hash pu" and l: "length (Heights (pu_crown pu)) = unat (nProc d)"
  defines "hs \<equiv> Heights (pu_crown pu)"
  shows "DecodeParents d pu = Some (
    if unknown_parents es hs > 0 then Inl (UnknownParents (int (unknown_parents es hs)))
    else if \<exists>i < length hs. length (candidates es hs i) > 1 then Inl (AmbiguousParents (map (candidates es hs) [0..<length hs]))
    else Inr (map (\<lambda>i. if hs ! i = -1 then None else Some (hd (candidates es hs i))) [0..<length hs]))"
proof -
  let ?c = "map (candidates es hs) [0..<length hs]"
  have g: "GetUnit d (pu_hash pu) = None"
    using new by (simp add: GetUnit_inv [OF D] find_None_iff)
  have z: "zip hs ?c = map (\<lambda>i. (hs ! i, candidates es hs i)) [0..<length hs]"
    by (rule nth_equalityI) simp_all
  have amb: "ambiguous hs ?c \<longleftrightarrow> (\<exists>i < length hs. length (candidates es hs i) > 1)"
    unfolding ambiguous_def z by (auto simp: candidates_def Bex_def)
  have pick: "pick_parents hs ?c = Some (if ambiguous hs ?c then None
      else Some (map (\<lambda>i. if hs ! i = -1 then None else Some (hd (candidates es hs i))) [0..<length hs]))"
    if "unknown_parents es hs = 0"
  proof -
    have "\<forall>(h, us) \<in> set (zip hs ?c). h \<noteq> -1 \<longrightarrow> us \<noteq> []"
      using that unfolding z by (auto simp: unknown_parents_def filter_empty_conv)
    then show ?thesis using pick_parents_eq [of hs ?c] unfolding z by (simp add: comp_def)
  qed
  show ?thesis
    using fiber_get_inv [OF D l, folded hs_def] pick amb
    by (simp add: DecodeParents_def g hs_def [symmetric]) blast
qed

end
