(* ===== verification/Checks.thy ===== *)
theory Checks
  imports Dag
begin

text \<open>
  The unit checkers of \<open>pkg/dag/check\<close>, what each of them accepts, and the two standard lists
  of checks of \<open>pkg/config/checks.go\<close>. The theorem \<open>checked_acceptable\<close> says that a unit built
  by \<open>DecodeParents\<close> and \<open>BuildUnit\<close> that passes the consensus checks satisfies everything the
  dag's invariant needs.
\<close>

section \<open>The checkers\<close>

definition BasicCorrectness :: UnitChecker where
  "BasicCorrectness u d =
     (let parents = Parents u; n = nProc d in
      if length parents \<noteq> unat n then Some (ComplianceError ''Wrong number of parents'')
      else if \<exists>i \<in> set (pids n). (case parent_at parents i of None \<Rightarrow> False | Some p \<Rightarrow> Creator p \<noteq> i)
      then Some (ComplianceError ''i-th parent not created by i-th process'')
      else
        let nonNilParents = of_nat (length (filter (\<lambda>i. parent_at parents i \<noteq> None) (pids n))) :: u16 in
        if Predecessor u = None \<and> nonNilParents > 0
        then Some (ComplianceError ''unit without a predecessor but with other parents'')
        else (case Predecessor u of
                None \<Rightarrow> None
              | Some p \<Rightarrow> if Level p \<ge> Level u then Some (ComplianceError ''non-prime unit'') else None))"

definition ParentConsistency :: UnitChecker where
  "ParentConsistency u d =
     (let parents = Parents u; n = nProc d in
      if \<exists>i \<in> set (pids n). \<exists>j \<in> set (pids n).
           (case parent_at parents j of
              None \<Rightarrow> False
            | Some q \<Rightarrow> (case parent_at (Parents q) i of
                          None \<Rightarrow> False
                        | Some v \<Rightarrow> (case parent_at parents i of
                                      None \<Rightarrow> True
                                    | Some p \<Rightarrow> Level p < Level v)))
      then Some (ComplianceError ''parent consistency rule violated'') else None)"

text \<open>
  \<open>hasForkingEvidence\<close>. When the floor is a single unit the corresponding parent is not nil
  (\<open>Floor_nonempty_parent\<close> below), so the comparison \<open>Equal(f[0], u.Parents()[creator])\<close> never
  dereferences nil.
\<close>

definition hasForkingEvidence :: "Unit \<Rightarrow> u16 \<Rightarrow> bool" where
  "hasForkingEvidence u creator \<longleftrightarrow>
     (if Dealing (preunit_of u) then False
      else let f = Floor u creator in
           length f > 1 \<or>
           (length f = 1 \<and> (case parent_at (Parents u) creator of
                               None \<Rightarrow> True
                             | Some p \<Rightarrow> \<not> Equal (preunit_of (hd f)) (preunit_of p))))"

definition NoSelfForkingEvidence :: UnitChecker where
  "NoSelfForkingEvidence u d =
     (if hasForkingEvidence u (Creator u)
      then Some (ComplianceError ''A unit is evidence of self forking'') else None)"

definition ForkerMuting :: UnitChecker where
  "ForkerMuting u d =
     (if \<exists>parent1 \<in> set (Parents u). \<exists>parent2 \<in> set (Parents u).
           (case (parent1, parent2) of
              (Some p1, Some p2) \<Rightarrow> p1 \<noteq> p2 \<and> hasForkingEvidence p1 (Creator p2)
            | _ \<Rightarrow> False)
      then Some (ComplianceError ''Some parent has evidence of another parent being a forker'') else None)"

definition NoLevelSkipping :: UnitChecker where
  "NoLevelSkipping u d =
     (if Level u \<noteq> Height u
      then Some (ComplianceError ''the level of the unit is different than its height'') else None)"

definition NoForks :: UnitChecker where
  "NoForks u d =
     (case Get (MaximalUnitsPerProcess d) (Creator u) of
        [] \<Rightarrow> None
      | mx # _ \<Rightarrow> if Height mx \<ge> Height u then Some (ComplianceError ''the unit is a fork'') else None)"

definition setupChecks :: "UnitChecker list" where
  "setupChecks = [BasicCorrectness, ParentConsistency, NoLevelSkipping, NoForks]"

definition consensusChecks :: "UnitChecker list" where
  "consensusChecks = [BasicCorrectness, ParentConsistency, NoSelfForkingEvidence, ForkerMuting]"

section \<open>What the checkers accept\<close>

lemma nonNilParents_zero:
  assumes "length ps = unat n"
  shows "(of_nat (length (filter (\<lambda>i. parent_at ps i \<noteq> None) (pids n))) :: u16) > 0
    \<longleftrightarrow> (\<exists>p. Some p \<in> set ps)"
proof -
  let ?f = "filter (\<lambda>i. parent_at ps i \<noteq> None) (pids n)"
  have "length ?f \<le> unat n" by (metis length_filter_le length_pids)
  then have "unat (of_nat (length ?f) :: u16) = length ?f" by (rule unat_of_nat_le)
  then have "(of_nat (length ?f) :: u16) > 0 \<longleftrightarrow> ?f \<noteq> []"
    by (simp add: word_less_nat_alt)
  also have "\<dots> \<longleftrightarrow> (\<exists>i < n. parent_at ps i \<noteq> None)"
    by (auto simp: filter_empty_conv)
  also have "\<dots> \<longleftrightarrow> (\<exists>p. Some p \<in> set ps)"
  proof
    assume "\<exists>p. Some p \<in> set ps"
    then obtain i p where i: "i < length ps" "ps ! i = Some p" by (auto simp: in_set_conv_nth)
    then have "unat (of_nat i :: u16) = i" using unat_of_nat_less [of i n] assms by simp
    then show "\<exists>i < n. parent_at ps i \<noteq> None"
      using i assms by (intro exI [of _ "of_nat i"]) (simp add: parent_at_def word_less_nat_alt)
  qed (auto dest: parent_at_in_set)
  finally show ?thesis .
qed

lemma BasicCorrectness_iff:
  "BasicCorrectness u d = None \<longleftrightarrow>
     length (Parents u) = unat (nProc d)
     \<and> (\<forall>i p. i < nProc d \<longrightarrow> parent_at (Parents u) i = Some p \<longrightarrow> Creator p = i)
     \<and> (Predecessor u = None \<longrightarrow> (\<forall>p. Some p \<notin> set (Parents u)))
     \<and> (\<forall>p. Predecessor u = Some p \<longrightarrow> Level p < Level u)"
proof (cases "length (Parents u) = unat (nProc d)")
  case True
  have ex: "(\<exists>i \<in> set (pids (nProc d)). (case parent_at (Parents u) i of None \<Rightarrow> False | Some p \<Rightarrow> Creator p \<noteq> i))
      \<longleftrightarrow> \<not> (\<forall>i p. i < nProc d \<longrightarrow> parent_at (Parents u) i = Some p \<longrightarrow> Creator p = i)"
    by (auto split: option.splits)
  show ?thesis using True
    unfolding BasicCorrectness_def Let_def ex nonNilParents_zero [OF True]
    by (auto split: option.splits)
qed (simp add: BasicCorrectness_def)

lemma ParentConsistency_iff:
  "ParentConsistency u d = None \<longleftrightarrow>
     (\<forall>i j q v. i < nProc d \<longrightarrow> j < nProc d \<longrightarrow> parent_at (Parents u) j = Some q \<longrightarrow>
        parent_at (Parents q) i = Some v \<longrightarrow>
        (\<exists>p. parent_at (Parents u) i = Some p \<and> Level v \<le> Level p))"
proof -
  have c: "(case parent_at (Parents u) i of None \<Rightarrow> True | Some p \<Rightarrow> Level p < Level v)
      \<longleftrightarrow> \<not> (\<exists>p. parent_at (Parents u) i = Some p \<and> Level v \<le> Level p)" for i v
    by (auto split: option.splits)
  show ?thesis unfolding ParentConsistency_def Let_def c case_option_ex by auto
qed

lemma Floor_nonempty_parent:
  assumes "floor_built u" "Floor u c \<noteq> []"
  shows "parent_at (Parents u) c \<noteq> None"
  using assms(2) unfolding assms(1) [unfolded floor_built_def]
  by (auto simp: map_of_computeFloor MaximalByPid_def split: if_splits option.splits)

lemma NoSelfForkingEvidence_no_self_fork:
  assumes "wf_node n u" "floor_built u" "NoSelfForkingEvidence u d = None"
  shows "no_self_fork u"
  unfolding no_self_fork_def
proof
  fix w assume w: "w \<in> set (Floor u (Creator u))"
  then have "Floor u (Creator u) \<noteq> []" by auto
  then obtain p where p: "Predecessor u = Some p"
    using Floor_nonempty_parent [OF assms(2)] by (auto simp: Predecessor_def)
  show "\<exists>p. Predecessor u = Some p \<and> Hash w = Hash p"
  proof (cases "Dealing (preunit_of u)")
    case True
    have "map_of (computeFloor (preunit_of u) (Parents u)) (Creator u) = None"
      using True by (simp add: computeFloor_def)
    then have "Floor u (Creator u) = [p]"
      using p unfolding assms(2) [unfolded floor_built_def] Predecessor_def by simp
    then show ?thesis using w p by simp
  next
    case False
    have "length (Floor u (Creator u)) = 1 \<and> Equal (preunit_of (hd (Floor u (Creator u)))) (preunit_of p)"
      using assms(3) False p \<open>Floor u (Creator u) \<noteq> []\<close>
      by (cases "Floor u (Creator u)")
        (auto simp: NoSelfForkingEvidence_def hasForkingEvidence_def Let_def Predecessor_def split: if_splits)
    then have "Equal (preunit_of w) (preunit_of p)" using w by (cases "Floor u (Creator u)") auto
    then show ?thesis using p by (simp add: Equal_def Hash_def)
  qed
qed

lemma run_checks_None: "run_checks cs u d = None \<longleftrightarrow> (\<forall>c \<in> set cs. c u d = None)"
  by (induction cs) (auto split: option.splits)

section \<open>Levels\<close>

lemma level_step_fold:
  assumes "0 \<le> fst s"
  shows "0 \<le> fst (foldl level_step s ps)"
    and "fst s = 0 \<or> (\<exists>p. Some p \<in> A \<and> Level p = fst s) \<Longrightarrow> set ps \<subseteq> A \<Longrightarrow>
      fst (foldl level_step s ps) = 0 \<or> (\<exists>p. Some p \<in> A \<and> Level p = fst (foldl level_step s ps))"
    and "snd s \<noteq> 0 \<longrightarrow> (\<exists>p. Some p \<in> A \<and> Level p = fst s) \<Longrightarrow> set ps \<subseteq> A \<Longrightarrow>
      snd (foldl level_step s ps) \<noteq> 0 \<longrightarrow> (\<exists>p. Some p \<in> A \<and> Level p = fst (foldl level_step s ps))"
proof -
  have step: "0 \<le> fst s \<Longrightarrow> 0 \<le> fst (level_step s p)" for s p
    by (cases s; cases p) auto
  have stepA: "(snd s \<noteq> 0 \<longrightarrow> (\<exists>q. Some q \<in> A \<and> Level q = fst s)) \<Longrightarrow> p \<in> A \<Longrightarrow>
      (snd (level_step s p) \<noteq> 0 \<longrightarrow> (\<exists>q. Some q \<in> A \<and> Level q = fst (level_step s p)))" for s p
    by (cases s; cases p) auto
  have stepB: "fst s = 0 \<or> (\<exists>q. Some q \<in> A \<and> Level q = fst s) \<Longrightarrow> p \<in> A \<Longrightarrow>
      fst (level_step s p) = 0 \<or> (\<exists>q. Some q \<in> A \<and> Level q = fst (level_step s p))" for s p
    by (cases s; cases p) auto
  show "0 \<le> fst (foldl level_step s ps)"
    using assms step by (induction ps arbitrary: s) auto
  show "fst s = 0 \<or> (\<exists>p. Some p \<in> A \<and> Level p = fst s) \<Longrightarrow> set ps \<subseteq> A \<Longrightarrow>
      fst (foldl level_step s ps) = 0 \<or> (\<exists>p. Some p \<in> A \<and> Level p = fst (foldl level_step s ps))"
    by (rule foldl_invariant) (use stepB in blast)+
  show "snd s \<noteq> 0 \<longrightarrow> (\<exists>p. Some p \<in> A \<and> Level p = fst s) \<Longrightarrow> set ps \<subseteq> A \<Longrightarrow>
      snd (foldl level_step s ps) \<noteq> 0 \<longrightarrow> (\<exists>p. Some p \<in> A \<and> Level p = fst (foldl level_step s ps))"
    by (rule foldl_invariant) (use stepA in blast)+
qed

lemma level_step_ge: "fst s \<le> fst (foldl level_step s ps)" "Some p \<in> set ps \<Longrightarrow> Level p \<le> fst (foldl level_step s ps)"
proof -
  have step: "fst s \<le> fst (level_step s q)" "Level p \<le> fst (level_step s (Some p))" for s q p
    by (cases s; cases q; auto)+
  show ge: "fst s \<le> fst (foldl level_step s ps)" for s ps
  proof (induction ps arbitrary: s)
    case (Cons q ps)
    show ?case using order.trans [OF step(1) [of s q] Cons.IH [of "level_step s q"]] by simp
  qed simp
  show "Some p \<in> set ps \<Longrightarrow> Level p \<le> fst (foldl level_step s ps)"
  proof (induction ps arbitrary: s)
    case (Cons q ps)
    show ?case
    proof (cases "q = Some p")
      case True
      then show ?thesis using order.trans [OF step(2) [of p s] ge [of "level_step s (Some p)" ps]] by simp
    next
      case False
      then show ?thesis using Cons.IH [of "level_step s q"] Cons.prems by simp
    qed
  qed simp
qed

lemma LevelFromParents_ge: "Some p \<in> set ps \<Longrightarrow> Level p \<le> LevelFromParents mq ps"
  using level_step_ge(2) [of p ps "(0, 0)"] by (auto simp: LevelFromParents_def split: prod.splits)

lemma LevelFromParents_bounds:
  assumes "0 < mq (of_nat (length ps))"
  shows "0 \<le> LevelFromParents mq ps"
    and "LevelFromParents mq ps = 0 \<or> (\<exists>p. Some p \<in> set ps \<and> LevelFromParents mq ps \<le> Level p + 1)"
proof -
  obtain l k where f: "foldl level_step (0, 0) ps = (l, k)" by fastforce
  have l: "0 \<le> l" using level_step_fold(1) [of "(0, 0)" ps] f by simp
  then show "0 \<le> LevelFromParents mq ps" by (simp add: LevelFromParents_def f)
  have 1: "l = 0 \<or> (\<exists>p. Some p \<in> set ps \<and> Level p = l)"
    using level_step_fold(2) [of "(0, 0)" "set ps" ps] f by simp
  have 2: "k \<noteq> 0 \<longrightarrow> (\<exists>p. Some p \<in> set ps \<and> Level p = l)"
    using level_step_fold(3) [of "(0, 0)" "set ps" ps] f by simp
  show "LevelFromParents mq ps = 0 \<or> (\<exists>p. Some p \<in> set ps \<and> LevelFromParents mq ps \<le> Level p + 1)"
  proof (cases "k \<ge> mq (of_nat (length ps))")
    case True
    then have "k \<noteq> 0" using assms leD by fastforce
    then show ?thesis using 2 True by (auto simp: LevelFromParents_def f)
  next
    case False
    then show ?thesis using 1 by (auto simp: LevelFromParents_def f)
  qed
qed


section \<open>Checked units are acceptable\<close>

text \<open>What \<open>NewPreunit\<close> guarantees of a preunit whose creator belongs to the committee.\<close>

definition preunit_ok :: "u16 \<Rightarrow> preunit \<Rightarrow> bool" where
  "preunit_ok n pu \<longleftrightarrow> pu_creator pu < n \<and> unat (pu_creator pu) < length (Heights (pu_crown pu))
     \<and> pu_height pu = Heights (pu_crown pu) ! unat (pu_creator pu) + 1"

lemma NewPreunit_ok:
  assumes "NewPreunit shake uid crown data rsData sig = Some pu" "pu_creator pu < n"
  shows "preunit_ok n pu"
  using assms by (auto simp: NewPreunit_def preunit_ok_def nth_opt_def split: prod.splits if_splits bind_splits)

text \<open>A successful \<open>DecodeParents\<close>: the parents are the only candidates, one per height of the crown.\<close>

lemma DecodeParents_parents:
  assumes D: "dag_inv d es" and P: "DecodeParents d pu = Some (Inr ps)"
  defines "hs \<equiv> Heights (pu_crown pu)"
  shows "length hs = unat (nProc d)" "length ps = unat (nProc d)" "\<forall>u \<in> set es. Hash u \<noteq> pu_hash pu"
    and "i < unat (nProc d) \<Longrightarrow> hs ! i = -1 \<Longrightarrow> ps ! i = None"
    and "i < unat (nProc d) \<Longrightarrow> hs ! i \<noteq> -1 \<Longrightarrow> \<exists>p \<in> set es. ps ! i = Some p \<and> Height p = hs ! i \<and> unat (Creator p) = i"
proof -
  show new: "\<forall>u \<in> set es. Hash u \<noteq> pu_hash pu"
    using P by (auto simp: DecodeParents_def GetUnit_inv [OF D] find_None_iff split: option.splits)
  have w: "fm_width (heightUnits d) = nProc d"
    using dag_invD(2) [OF D] by (simp add: on_height.represents_def fm_wf_def)
  show l: "length hs = unat (nProc d)"
    using P by (auto simp: DecodeParents_def fiber_get_def w hs_def split: option.splits if_splits bind_splits)
  have r: "unknown_parents es hs = 0"
      "ps = map (\<lambda>i. if hs ! i = -1 then None else Some (hd (candidates es hs i))) [0..<length hs]"
    using P DecodeParents_inv [OF D new l [unfolded hs_def]] by (auto simp: hs_def split: if_splits)
  then show "length ps = unat (nProc d)" using l by simp
  assume i: "i < unat (nProc d)"
  show "hs ! i = -1 \<Longrightarrow> ps ! i = None" using i l r(2) by simp
  assume "hs ! i \<noteq> -1"
  moreover from this have "candidates es hs i \<noteq> []"
    using r(1) i l by (auto simp: unknown_parents_def filter_empty_conv)
  then have "hd (candidates es hs i) \<in> set (candidates es hs i)" by simp
  ultimately show "\<exists>p \<in> set es. ps ! i = Some p \<and> Height p = hs ! i \<and> unat (Creator p) = i"
    using i l r(2) by (auto simp: candidates_def unat_of_nat_less)
qed

theorem checked_acceptable:
  assumes D: "dag_inv d es" and ok: "preunit_ok (nProc d) pu" and q: "0 < mq (nProc d)"
    and P: "DecodeParents d pu = Some (Inr ps)"
    and C: "run_checks consensusChecks (BuildUnit mq pu ps) d = None"
  shows "acceptable (nProc d) es (BuildUnit mq pu ps)"
proof -
  let ?u = "BuildUnit mq pu ps" and ?hs = "Heights (pu_crown pu)" and ?c = "unat (pu_creator pu)"
  note dp = DecodeParents_parents [OF D P]
  have ck: "BasicCorrectness ?u d = None" "ParentConsistency ?u d = None" "NoSelfForkingEvidence ?u d = None"
    using C unfolding run_checks_None consensusChecks_def by simp_all
  have u [simp]: "Parents ?u = ps" "Creator ?u = pu_creator pu" "Height ?u = pu_height pu" "Hash ?u = pu_hash pu"
      "Level ?u = LevelFromParents mq ps" "is_free ?u"
    by (simp_all add: BuildUnit_def FromPreunit_def)
  have fb: "floor_built ?u" by (simp add: floor_built_def BuildUnit_def FromPreunit_def)
  have c: "?c < unat (nProc d)" using ok by (simp add: preunit_ok_def word_less_nat_alt)
  have pred: "Predecessor ?u = ps ! ?c" using c dp(2) by (simp add: Predecessor_def parent_at_def)
  have par: "\<And>i p. i < unat (nProc d) \<Longrightarrow> ps ! i = Some p \<Longrightarrow> p \<in> set es \<and> Height p = ?hs ! i \<and> unat (Creator p) = i"
    using dp(4,5) by (metis option.distinct(1) option.inject)
  have h: "pu_height pu = (case ps ! ?c of None \<Rightarrow> 0 | Some p \<Rightarrow> Height p + 1)"
    using ok dp(4,5) [OF c] by (cases "?hs ! ?c = -1") (auto simp: preunit_ok_def)
  have wf: "wf_node (nProc d) ?u"
    using ok dp(2) par h ck(1) pred unfolding wf_node_def by (auto simp: preunit_ok_def BasicCorrectness_iff)
  have mem: "p \<in> set es" if "Some p \<in> set ps" for p
  proof -
    obtain i where "i < length ps" "ps ! i = Some p" using \<open>Some p \<in> set ps\<close> by (auto simp: in_set_conv_nth)
    then show ?thesis using par dp(2) by simp
  qed
  have "parent_at ps i \<noteq> None"
    if "Some q \<in> set ps" "i < nProc d" "parent_at (Parents q) i \<noteq> None" for q i
  proof -
    have "parent_at ps (Creator q) = Some q" "Creator q < nProc d"
      using wf_node_parent [OF wf, of q] wf_node_parent_at(2) [OF wf, of "Creator q" q] that(1) by auto
    then show ?thesis using ck(2) that(2,3) unfolding ParentConsistency_iff by fastforce
  qed
  then have sa: "sees_all (nProc d) ?u" unfolding sees_all_def by simp
  have "mq (of_nat (length ps)) = mq (nProc d)" using dp(2) by simp
  then show ?thesis
    using wf mem fb sa NoSelfForkingEvidence_no_self_fork [OF wf fb ck(3)] dp(3) LevelFromParents_bounds [of mq ps] q
    unfolding acceptable_def by simp
qed

end
