(* ===== verification/Growth.thy ===== *)
theory Growth
  imports Checks
begin

text \<open>
  The life of a dag as a step relation: it starts empty and grows by preunits whose parents
  decode, whose unit passes the consensus checks and which are then inserted (the path of
  \<open>pkg/adder\<close> through \<open>pkg/dag\<close>). Every reachable dag satisfies \<open>dag_inv\<close>; the properties of
  the dag follow from that.
\<close>

section \<open>The step relation\<close>

inductive dag_reach :: "(u16 \<Rightarrow> u16) \<Rightarrow> u16 \<Rightarrow> dagcore \<Rightarrow> Unit list \<Rightarrow> bool"
  for mq :: "u16 \<Rightarrow> u16" and n :: u16 where
  start: "0 \<le> len \<Longrightarrow> dag_reach mq n (New_core n len epoch) []"
| grow: "dag_reach mq n d es \<Longrightarrow> preunit_ok n pu \<Longrightarrow> DecodeParents d pu = Some (Inr ps) \<Longrightarrow>
    run_checks consensusChecks (BuildUnit mq pu ps) d = None \<Longrightarrow>
    insert_core d (Embed (BuildUnit mq pu ps) d) = Some d' \<Longrightarrow>
    dag_reach mq n d' (es @ [Embed (BuildUnit mq pu ps) d])"

lemma dag_reach_inv:
  assumes "dag_reach mq n d es" "0 < mq n"
  shows "dag_inv d es \<and> nProc d = n"
  using assms
proof (induction rule: dag_reach.induct)
  case (start len epoch)
  then show ?case using dag_inv_New by (simp add: New_core_def)
next
  case (grow d es pu ps d')
  then have d: "dag_inv d es" "nProc d = n" by auto
  then have a: "acceptable (nProc d) es (BuildUnit mq pu ps)"
    using checked_acceptable [OF d(1)] grow by simp
  show ?case using insert_core_inv [OF d(1) a] grow.hyps(5) d(2) by auto
qed

lemma dag_reach_levels:
  "dag_reach mq n d es \<Longrightarrow> u \<in> set es \<Longrightarrow> Some p \<in> set (Parents u) \<Longrightarrow> Level p \<le> Level u"
proof (induction rule: dag_reach.induct)
  case (grow d es pu ps d')
  then show ?case using LevelFromParents_ge [of p ps mq] by (auto simp: Embed_def BuildUnit_def FromPreunit_def)
qed simp

section \<open>A small dag\<close>

text \<open>
  The dag the witnesses below evaluate: two processes, a dealing unit each, a second unit of
  process 0 above both. The hashes are made up, since the dag never recomputes them.
\<close>

definition demo_mq :: "u16 \<Rightarrow> u16" where
  "demo_mq n = n - n div 3"

definition demo_pu :: "u16 \<Rightarrow> int list \<Rightarrow> u8 \<Rightarrow> preunit" where
  "demo_pu c hs h = \<lparr>pu_creator = c, pu_epochID = 0, pu_height = hs ! unat c + 1, pu_signature = [],
     pu_hash = replicate 32 h, pu_crown = \<lparr>Heights = hs, ControlHash = []\<rparr>, pu_data = [], pu_rsData = None\<rparr>"

definition demo_add :: "preunit \<Rightarrow> dagcore \<times> Unit list \<Rightarrow> (dagcore \<times> Unit list) go" where
  "demo_add pu s =
     (case s of (d, es) \<Rightarrow>
        do { r \<leftarrow> DecodeParents d pu;
             case r of
               Inl _ \<Rightarrow> None
             | Inr ps \<Rightarrow>
                 if preunit_ok (nProc d) pu \<and> run_checks consensusChecks (BuildUnit demo_mq pu ps) d = None
                 then do { d' \<leftarrow> insert_core d (Embed (BuildUnit demo_mq pu ps) d);
                           Some (d', es @ [Embed (BuildUnit demo_mq pu ps) d]) }
                 else None })"

definition demo :: "(dagcore \<times> Unit list) go" where
  "demo = do { s0 \<leftarrow> Some (New_core 2 1 0, []);
               s1 \<leftarrow> demo_add (demo_pu 0 [-1, -1] 1) s0;
               s2 \<leftarrow> demo_add (demo_pu 1 [-1, -1] 2) s1;
               demo_add (demo_pu 0 [0, 0] 3) s2 }"

definition demo_a0 :: Unit where
  "demo_a0 = unitInDag (freeUnit (demo_pu 0 [-1, -1] 1) [None, None] 0 []) MaxInt32"

definition demo_b0 :: Unit where
  "demo_b0 = unitInDag (freeUnit (demo_pu 1 [-1, -1] 2) [None, None] 0 []) MaxInt32"

definition demo_a1 :: Unit where
  "demo_a1 = unitInDag (freeUnit (demo_pu 0 [0, 0] 3) [Some demo_a0, Some demo_b0] 1 []) MaxInt32"

lemma demo_add_reach:
  assumes "demo_add pu (d, es) = Some (d', es')" "dag_reach demo_mq n d es" "nProc d = n"
  shows "dag_reach demo_mq n d' es'"
  using assms dag_reach.grow [OF assms(2)]
  by (auto simp: demo_add_def split: bind_splits sum.splits if_splits)

lemma demo_units: "map_option snd demo = Some [demo_a0, demo_b0, demo_a1]"
  by code_simp

lemma demo_epoch: "map_option (epochID \<circ> fst) demo = Some 0"
  by code_simp

lemma demo_reach:
  obtains d where "demo = Some (d, [demo_a0, demo_b0, demo_a1])"
    "dag_reach demo_mq 2 d [demo_a0, demo_b0, demo_a1]" "nProc d = 2" "epochID d = 0"
proof -
  have pos: "0 < demo_mq 2" by code_simp
  obtain s1 s2 s3 where s: "demo_add (demo_pu 0 [-1, -1] 1) (New_core 2 1 0, []) = Some s1"
      "demo_add (demo_pu 1 [-1, -1] 2) s1 = Some s2" "demo_add (demo_pu 0 [0, 0] 3) s2 = Some s3"
      and d: "demo = Some s3"
    using demo_units by (auto simp: demo_def split: bind_splits)
  have inv: "dag_reach demo_mq 2 d es \<Longrightarrow> nProc d = 2" for d es
    using dag_reach_inv [where mq = demo_mq and n = 2] pos by blast
  have e: "epochID (fst s3) = 0" using demo_epoch unfolding d by simp
  have 0: "dag_reach demo_mq 2 (New_core 2 1 0) []" by (rule dag_reach.start) simp
  have add: "dag_reach demo_mq 2 (fst s') (snd s')"
    if "demo_add pu s = Some s'" "dag_reach demo_mq 2 (fst s) (snd s)" for pu s s'
    using demo_add_reach [of pu "fst s" "snd s" "fst s'" "snd s'" 2] that inv [OF that(2)] by simp
  have "dag_reach demo_mq 2 (fst s3) (snd s3)"
    using add [OF s(3) add [OF s(2) add [OF s(1)]]] 0 by simp
  note 3 = this inv [OF this]
  have "snd s3 = [demo_a0, demo_b0, demo_a1]" using demo_units unfolding d by simp
  then show thesis using that [of "fst s3"] 3 e unfolding d by (cases s3) simp
qed


section \<open>Properties of reachable dags\<close>

lemma above_reaches_inv:
  assumes D: "dag_inv d es" and uv: "u \<in> set es" "v \<in> set es"
  shows "above u v \<longleftrightarrow> reaches u v"
proof -
  note U = dag_invD(1) [OF D]
  have "dominates u v \<longleftrightarrow> reaches u v"
  proof
    assume "dominates u v"
    then obtain w where w: "reaches u w" "Equal (preunit_of w) (preunit_of v)" by (auto simp: dominates_def)
    then have "w = v"
      using units_invD(5) [OF U reaches_closed [OF w(1) units_invD(1) [OF U] uv(1)] uv(2)]
      by (simp add: Equal_def Hash_def)
    then show "reaches u v" using w by simp
  qed (auto simp: dominates_def intro: Equal_refl)
  then show ?thesis using above_iff_dominates [OF units_inv_comparable [OF U] uv] by simp
qed

text \<open>
  C12: \<open>gomel.Above\<close>, which looks at floors, maximal units and forking heights, decides
  reachability along parents for any two units of a reachable dag.
\<close>

theorem Above_is_reachability:
  assumes "dag_reach mq n d es" "0 < mq n" "u \<in> set es" "v \<in> set es"
  shows "Above (Some u) (Some v) \<longleftrightarrow> reaches u v"
  using above_reaches_inv [OF conjunct1 [OF dag_reach_inv [OF assms(1,2)]] assms(3,4)] by (simp add: Above_def)

theorem Above_is_reachability_witness:
  "Above (Some demo_a1) (Some demo_b0) \<longleftrightarrow> reaches demo_a1 demo_b0"
proof -
  have pos: "0 < demo_mq 2" by code_simp
  obtain d where "dag_reach demo_mq 2 d [demo_a0, demo_b0, demo_a1]" by (rule demo_reach)
  from Above_is_reachability [OF this pos] show ?thesis by simp
qed

text \<open>
  C13: the short cut through forking heights in \<open>unitInDag.AboveWithinProc\<close> gives the answer of
  the walk along predecessors of \<open>freeUnit.AboveWithinProc\<close>.
\<close>

theorem forking_height_shortcut:
  assumes "dag_reach mq n d es" "0 < mq n" "u \<in> set es" "v \<in> set es"
  shows "AboveWithinProc u v \<longleftrightarrow> walkAbove u v"
proof -
  have U: "units_inv n es" using dag_reach_inv [OF assms(1,2)] dag_invD(1) by blast
  show ?thesis
    using AboveWithinProc_chainH [OF U assms(3,4)]
      walkAbove_iff [OF units_invD(1) [OF U] units_inv_faithful [OF U] assms(3,4)] by simp
qed

theorem forking_height_shortcut_witness:
  "AboveWithinProc demo_a1 demo_a0 \<longleftrightarrow> walkAbove demo_a1 demo_a0"
proof -
  have pos: "0 < demo_mq 2" by code_simp
  obtain d where "dag_reach demo_mq 2 d [demo_a0, demo_b0, demo_a1]" by (rule demo_reach)
  from forking_height_shortcut [OF this pos] show ?thesis by simp
qed


definition demo_dag :: "nat dag" where
  "demo_dag = New_dag 2 1 consensusChecks 0"




text \<open>
  \<open>UnitsAbove\<close> with a slice of heights returns, each once, exactly the units of the dag
  that are higher than the height given for their creator.
\<close>

theorem UnitsAbove_complete:
  assumes "dag_reach mq n d es" "0 < mq n" "length hs = unat n" "n \<noteq> 0" "\<forall>h \<in> set hs. -1 \<le> h"
  shows "\<exists>us. UnitsAbove d (Some hs) = Some us
    \<and> mset us = mset (filter (\<lambda>u. hs ! unat (Creator u) < Height u) es)"
  using UnitsAbove_inv [of d es hs] dag_reach_inv [OF assms(1,2)] assms(3-) by simp

theorem UnitsAbove_complete_witness:
  "\<exists>d us. map_option fst demo = Some d \<and> UnitsAbove d (Some [0, -1]) = Some us \<and> mset us = {#demo_b0, demo_a1#}"
proof -
  have pos: "0 < demo_mq 2" by code_simp
  obtain d where d: "demo = Some (d, [demo_a0, demo_b0, demo_a1])"
      "dag_reach demo_mq 2 d [demo_a0, demo_b0, demo_a1]" by (rule demo_reach)
  have "filter (\<lambda>u. [0, -1] ! unat (Creator u) < Height u) [demo_a0, demo_b0, demo_a1] = [demo_b0, demo_a1]"
    by code_simp
  then show ?thesis using UnitsAbove_complete [OF d(2) pos, of "[0, -1]"] d(1) by auto
qed

text \<open>
  Every branch of \<open>DecodeParents\<close> on a reachable dag. A known hash is a duplicate; otherwise
  a crown of the wrong length panics in \<open>fiberMap.get\<close>, heights with no unit are counted as
  unknown parents, a height with several units is ambiguous, and otherwise the parents are the
  only units of the dag with the creators and heights of the crown.
\<close>

theorem DecodeParents_branches:
  assumes "dag_reach mq n d es" "0 < mq n" "hs = Heights (pu_crown pu)"
  shows "DecodeParents d pu =
    (case find (\<lambda>u. Hash u = pu_hash pu) es of
       Some u \<Rightarrow> Some (Inl (DuplicateUnit u))
     | None \<Rightarrow>
         if length hs \<noteq> unat n then None
         else if unknown_parents es hs > 0 then Some (Inl (UnknownParents (int (unknown_parents es hs))))
         else if \<exists>i < length hs. length (candidates es hs i) > 1
         then Some (Inl (AmbiguousParents (map (candidates es hs) [0..<length hs])))
         else Some (Inr (map (\<lambda>i. if hs ! i = -1 then None else Some (hd (candidates es hs i))) [0..<length hs])))"
proof -
  have D: "dag_inv d es" and n: "nProc d = n" using dag_reach_inv [OF assms(1,2)] by auto
  have w: "fm_width (heightUnits d) = n"
    using dag_invD(2) [OF D] n by (simp add: on_height.represents_def fm_wf_def)
  note g = GetUnit_inv [OF D, of "pu_hash pu"]
  show ?thesis
  proof (cases "find (\<lambda>u. Hash u = pu_hash pu) es")
    case (Some u)
    then show ?thesis by (simp add: DecodeParents_def g)
  next
    case None
    then have new: "\<forall>u \<in> set es. Hash u \<noteq> pu_hash pu" by (simp add: find_None_iff)
    show ?thesis
    proof (cases "length hs = unat n")
      case True
      have "DecodeParents d pu = Some (
          if unknown_parents es hs > 0 then Inl (UnknownParents (int (unknown_parents es hs)))
          else if \<exists>i < length hs. length (candidates es hs i) > 1
          then Inl (AmbiguousParents (map (candidates es hs) [0..<length hs]))
          else Inr (map (\<lambda>i. if hs ! i = -1 then None else Some (hd (candidates es hs i))) [0..<length hs]))"
        using DecodeParents_inv [OF D new] n True unfolding assms(3) by blast
      then show ?thesis using None True by (simp split: if_splits)
    next
      case False
      then show ?thesis using None by (simp add: DecodeParents_def g fiber_get_def w assms(3))
    qed
  qed
qed

theorem DecodeParents_branches_witness:
  "DecodeParents (New_core 2 1 0) (demo_pu 0 [-1, -1, -1] 1) = None
   \<and> DecodeParents (New_core 2 1 0) (demo_pu 0 [0, 5] 1) = Some (Inl (UnknownParents 2))"
proof -
  have pos: "0 < demo_mq 2" by code_simp
  have r: "dag_reach demo_mq 2 (New_core 2 1 0) []" by (rule dag_reach.start) simp
  have "int (unknown_parents [] (Heights (pu_crown (demo_pu 0 [0, 5] 1)))) = 2" by code_simp
  then show ?thesis
    using DecodeParents_branches [OF r pos HOL.refl, of "demo_pu 0 [-1, -1, -1] 1"]
      DecodeParents_branches [OF r pos HOL.refl, of "demo_pu 0 [0, 5] 1"] by (simp add: demo_pu_def)
qed

end
