(* ===== verification/Encoding.thy ===== *)
theory Encoding
  imports Dag
begin

text \<open>
  The wire format of units, dag infos and chunks: \<open>pkg/encoding/encoder.go\<close>, \<open>decoder.go\<close> and
  \<open>public.go\<close>. The encoder writes to a buffer (\<open>bytes.Buffer\<close>, whose writes never fail); errors
  of a network connection are the connection's. Each pair of encoder and decoder interprets the
  locale \<open>codec\<close>.
\<close>

section \<open>Limits (\<open>pkg/config/checks.go\<close>)\<close>

definition MaxDataBytesPerUnit :: nat where "MaxDataBytesPerUnit = 2000000"
definition MaxRandomSourceDataBytesPerUnit :: nat where "MaxRandomSourceDataBytesPerUnit = 1000000"
definition MaxUnitsInChunk :: nat where "MaxUnitsInChunk = 1000000"

section \<open>Encoders\<close>

text \<open>\<open>copy(data[s:s+len(b)], b)\<close> into a slice: it panics when the range does not fit.\<close>

definition write_at :: "bytes \<Rightarrow> nat \<Rightarrow> bytes \<Rightarrow> bytes go" where
  "write_at buf s b =
     (if s + length b \<le> length buf then Some (take s buf @ b @ drop (s + length b) buf) else None)"

fun write_heights :: "bytes \<Rightarrow> nat \<Rightarrow> int list \<Rightarrow> (bytes \<times> nat) go" where
  "write_heights buf s [] = Some (buf, s)"
| "write_heights buf s (h # hs) =
     do { buf' \<leftarrow> write_at buf s (PutUint32 (encode_height h)); write_heights buf' (s + 4) hs }"

text \<open>The size of the buffer is computed in \<open>uint16\<close> arithmetic.\<close>

definition encodeCrown :: "Crown \<Rightarrow> bytes go" where
  "encodeCrown crown =
     (let nParents = of_nat (length (Heights crown)) :: u16;
          data = replicate (unat (2 + nParents * 4 + 32)) 0
      in do { data \<leftarrow> write_at data 0 (PutUint16 nParents);
              (data, s) \<leftarrow> write_heights data 2 (Heights crown);
              write_at data s (ControlHash crown) })"

definition encodeDagInfo :: "DagInfo option \<Rightarrow> bytes go" where
  "encodeDagInfo info =
     (case info of
        None \<Rightarrow> Some (PutUint32 (- 1))
      | Some i \<Rightarrow>
          let n = of_nat (length (di_Heights i)) :: u16;
              data = replicate (unat (4 + 2 + n * 4)) 0
          in do { data \<leftarrow> write_at data 0 (PutUint32 (di_Epoch i));
                  data \<leftarrow> write_at data 4 (PutUint16 n);
                  (data, s) \<leftarrow> write_heights data 6 (di_Heights i);
                  Some data })"

text \<open>\<open>copy(data[8:72], signature)\<close> keeps at most 64 bytes and leaves zeros after a shorter one.\<close>

definition encodeUnit :: "preunit option \<Rightarrow> bytes go" where
  "encodeUnit unit =
     (case unit of
        None \<Rightarrow> Some (PutUint64 (- 1))
      | Some u \<Rightarrow>
          do { crown \<leftarrow> encodeCrown (pu_crown u);
               let unitDataLen = (of_nat (length (pu_data u)) :: u32);
               let rsDataLen = (of_nat (length (bytes_of (pu_rsData u))) :: u32);
               Some (PutUint64 (UnitID u) @ take 64 (pu_signature u @ replicate 64 0)
                     @ crown
                     @ PutUint32 unitDataLen @ (if unitDataLen > 0 then pu_data u else [])
                     @ PutUint32 rsDataLen @ (if rsDataLen > 0 then bytes_of (pu_rsData u) else [])) })"

definition encodeUint32 :: "u32 \<Rightarrow> bytes" where
  "encodeUint32 i = PutUint32 i"

section \<open>Decoders\<close>

definition decode_height :: "u32 \<Rightarrow> int" where
  "decode_height h = (if h = - 1 then -1 else uint h)"

definition read_height :: "int reader" where
  "read_height = rbind read_u32 (\<lambda>h. rreturn (decode_height h))"

definition decodeCrown :: "Crown reader" where
  "decodeCrown =
     rbind read_u16 (\<lambda>n.
     rbind (read_n (unat n) read_height) (\<lambda>heights.
     rbind (ReadFull HashLength) (\<lambda>controlHash.
     rreturn (NewCrown heights controlHash))))"

definition decodeDagInfo :: "DagInfo option reader" where
  "decodeDagInfo =
     rbind read_u32 (\<lambda>epoch.
     if epoch = - 1 then rreturn None
     else rbind read_u16 (\<lambda>n.
          rbind (read_n (unat n) read_height) (\<lambda>heights.
          rreturn (Some \<lparr>di_Epoch = epoch, di_Heights = heights\<rparr>))))"

definition decodePreunit :: "(bytes \<Rightarrow> hash) \<Rightarrow> preunit option reader" where
  "decodePreunit shake =
     rbind read_u64 (\<lambda>uid.
     if uid = - 1 then rreturn None
     else
       rbind (ReadFull 64) (\<lambda>signature.
       rbind decodeCrown (\<lambda>crown.
       rbind read_u32 (\<lambda>unitDataLen.
       if unat unitDataLen > MaxDataBytesPerUnit
       then rfail (WireError ''maximal allowed data size in a preunit exceeded'')
       else
         rbind (ReadFull (unat unitDataLen)) (\<lambda>unitData.
         rbind read_u32 (\<lambda>rsDataLen.
         if unat rsDataLen > MaxRandomSourceDataBytesPerUnit
         then rfail (WireError ''maximal allowed random source data size in a preunit exceeded'')
         else
           rbind (ReadFull (unat rsDataLen)) (\<lambda>rsData.
           case NewPreunit shake uid crown unitData (Some rsData) signature of
             None \<Rightarrow> rpanic
           | Some pu \<Rightarrow> rreturn (Some pu))))))))"

definition decodeUint32 :: "u32 reader" where
  "decodeUint32 = read_u32"

definition decodeChunk :: "(bytes \<Rightarrow> hash) \<Rightarrow> preunit option list reader" where
  "decodeChunk shake =
     rbind decodeUint32 (\<lambda>k.
     if unat k > MaxUnitsInChunk then rfail (WireError ''chunk contains too many units'')
     else read_n (unat k) (decodePreunit shake))"

section \<open>Sorting a chunk\<close>

text \<open>
  \<open>computeLayer\<close> memoises in the map \<open>layers\<close>, where a missing key (a nil parent or a unit
  outside the chunk) reads as \<open>0\<close>.
\<close>

type_synonym layers = "Unit option \<Rightarrow> int"

function computeLayer :: "Unit option \<Rightarrow> layers \<Rightarrow> int \<times> layers" where
  "computeLayer v layers =
     (if layers v = -1 then
        (case v of
           None \<Rightarrow> (layers v, layers)
         | Some u \<Rightarrow>
             (case foldl (\<lambda>st p. case st of (maxParentLayer, layers) \<Rightarrow>
                       (case computeLayer p layers of (cl, layers') \<Rightarrow>
                          (if cl > maxParentLayer then cl else maxParentLayer, layers')))
                     (0, layers) (Parents u) of
                (maxParentLayer, layers') \<Rightarrow>
                  (maxParentLayer + 1, layers'(v := maxParentLayer + 1))))
      else (layers v, layers))"
  by pat_completeness auto
termination
  by (relation "measure (\<lambda>(v, _). case v of None \<Rightarrow> 0 | Some u \<Rightarrow> Suc (size u))")
    (auto split: option.splits dest: parent_size)

declare computeLayer.simps [simp del]

text \<open>
  The outer loop \<open>for epoch := minEpoch; epoch <= maxEpoch; epoch++\<close>: \<open>epoch\<close> is a
  \<open>uint32\<close>, so the loop does not end when \<open>maxEpoch\<close> is the largest one; \<^const>\<open>None\<close> is then
  not returning.
\<close>

partial_function (option) epoch_loop :: "(u32 \<Rightarrow> 'a list) \<Rightarrow> u32 \<Rightarrow> u32 \<Rightarrow> 'a list \<Rightarrow> 'a list option" where
  "epoch_loop body epoch maxEpoch acc =
     (if epoch \<le> maxEpoch then epoch_loop body (epoch + 1) maxEpoch (acc @ body epoch) else Some acc)"

declare epoch_loop.simps [code]

definition all_layers :: "Unit list \<Rightarrow> layers" where
  "all_layers us =
     foldl (\<lambda>layers u. case computeLayer (Some u) layers of (l, layers') \<Rightarrow> layers'(Some u := l))
       (foldl (\<lambda>layers u. layers(Some u := -1)) (\<lambda>_. 0) us) us"

definition sortChunk :: "Unit list \<Rightarrow> Unit list go" where
  "sortChunk us =
     (case us of
        [] \<Rightarrow> Some us
      | u0 # _ \<Rightarrow>
          let layers = all_layers us;
              maxLayer = foldl (\<lambda>m u. if layers (Some u) > m then layers (Some u) else m) (-1) us;
              maxEpoch = foldl (\<lambda>e u. if Epoch u > e then Epoch u else e) (Epoch u0) us;
              minEpoch = foldl (\<lambda>e u. if Epoch u < e then Epoch u else e) (Epoch u0) us
          in epoch_loop (\<lambda>epoch. concat (map (\<lambda>layer.
                 filter (\<lambda>u. Epoch u = epoch \<and> layers (Some u) = layer) us) [0..maxLayer]))
               minEpoch maxEpoch [])"

fun encode_units :: "preunit list \<Rightarrow> bytes go" where
  "encode_units [] = Some []"
| "encode_units (u # us) = do { b \<leftarrow> encodeUnit (Some u); bs \<leftarrow> encode_units us; Some (b @ bs) }"

definition encodeChunk :: "Unit list \<Rightarrow> (wire_error + bytes) go" where
  "encodeChunk us =
     (if length us > MaxUnitsInChunk then Some (Inl (WireError ''chunk contains too many units''))
      else do { sorted \<leftarrow> sortChunk us;
                body \<leftarrow> encode_units (map preunit_of sorted);
                Some (Inr (encodeUint32 (of_nat (length us)) @ body)) })"

section \<open>The public functions (\<open>public.go\<close>)\<close>

definition EncodeUnit :: "preunit option \<Rightarrow> bytes go" where
  "EncodeUnit unit = encodeUnit unit"

definition DecodePreunit :: "(bytes \<Rightarrow> hash) \<Rightarrow> bytes \<Rightarrow> (wire_error + preunit option) go" where
  "DecodePreunit shake data = map_option (map_sum id fst) (decodePreunit shake data)"

definition WriteDagInfos :: "DagInfo option \<Rightarrow> DagInfo option \<Rightarrow> bytes go" where
  "WriteDagInfos i0 i1 = do { b0 \<leftarrow> encodeDagInfo i0; b1 \<leftarrow> encodeDagInfo i1; Some (b0 @ b1) }"

definition ReadDagInfos :: "(DagInfo option \<times> DagInfo option) reader" where
  "ReadDagInfos = rbind decodeDagInfo (\<lambda>i0. rbind decodeDagInfo (\<lambda>i1. rreturn (i0, i1)))"

definition WriteChunk :: "Unit list \<Rightarrow> (wire_error + bytes) go" where
  "WriteChunk us = encodeChunk us"

definition ReadChunk :: "(bytes \<Rightarrow> hash) \<Rightarrow> preunit option list reader" where
  "ReadChunk shake = decodeChunk shake"


section \<open>Heights, crowns and dag infos round-trip\<close>

definition valid_height :: "int \<Rightarrow> bool" where
  "valid_height h \<longleftrightarrow> -1 \<le> h \<and> h < 2 ^ 32 - 1"

lemma decode_encode_height: "valid_height h \<Longrightarrow> decode_height (encode_height h) = h"
proof -
  assume v: "valid_height h"
  have "uint (word_of_int h :: u32) = h" "(word_of_int h :: u32) \<noteq> - 1" if "0 \<le> h"
  proof -
    show u: "uint (word_of_int h :: u32) = h"
      using v that by (simp add: valid_height_def uint_word_of_int_eq take_bit_int_eq_self)
    have "uint (- 1 :: u32) = 2 ^ 32 - 1" by (simp add: unsigned_minus_1_eq_mask mask_eq_exp_minus_1)
    then show "(word_of_int h :: u32) \<noteq> - 1" using u v by (auto simp: valid_height_def)
  qed
  then show ?thesis using v by (auto simp: decode_height_def encode_height_def valid_height_def)
qed

interpretation height_codec: codec "\<lambda>h. Some (PutUint32 (encode_height h))" read_height valid_height
  by unfold_locales (auto simp: read_height_def rbind_Inr wire_simps rreturn_def decode_encode_height)

definition heights_bytes :: "int list \<Rightarrow> bytes" where
  "heights_bytes hs = concat (map (\<lambda>h. PutUint32 (encode_height h)) hs)"

lemma heights_bytes_simps [simp]:
  "heights_bytes [] = []" "heights_bytes (h # hs) = PutUint32 (encode_height h) @ heights_bytes hs"
  "length (heights_bytes hs) = 4 * length hs"
  by (simp_all add: heights_bytes_def) (induction hs, simp_all)

lemma enc_all_heights: "height_codec.enc_all hs = Some (heights_bytes hs)"
  by (induction hs) simp_all

lemma read_heights:
  "\<forall>h \<in> set hs. valid_height h \<Longrightarrow> read_n (length hs) read_height (heights_bytes hs @ rest) = Some (Inr (hs, rest))"
  using height_codec.read_n_enc_all enc_all_heights by blast

lemma write_heights_eq:
  "s + 4 * length hs \<le> length buf \<Longrightarrow>
   write_heights buf s hs = Some (take s buf @ heights_bytes hs @ drop (s + 4 * length hs) buf, s + 4 * length hs)"
proof (induction hs arbitrary: buf s)
  case (Cons h hs)
  let ?b = "take s buf @ PutUint32 (encode_height h) @ drop (s + 4) buf"
  have w: "write_at buf s (PutUint32 (encode_height h)) = Some ?b" using Cons.prems by (simp add: write_at_def)
  have "write_heights ?b (s + 4) hs
      = Some (take (s + 4) ?b @ heights_bytes hs @ drop (s + 4 + 4 * length hs) ?b, s + 4 + 4 * length hs)"
    using Cons.prems by (intro Cons.IH) simp
  moreover have "take (s + 4) ?b = take s buf @ PutUint32 (encode_height h)"
    and "drop (s + 4 + 4 * length hs) ?b = drop (s + 4 * length (h # hs)) buf"
    using Cons.prems by (simp_all add: ac_simps)
  ultimately show ?case by (simp add: w ac_simps)
qed simp

lemma write_heights_length:
  "write_heights buf s hs = Some (buf', s') \<Longrightarrow> length buf' = length buf \<and> s' = s + 4 * length hs"
  by (induction buf s hs rule: write_heights.induct) (auto simp: write_at_def split: bind_splits if_splits)

lemma unat_size: "unat (of_nat k :: u16) = k mod 65536"
  by (simp add: unat_of_nat take_bit_eq_mod)

lemma crown_buffer:
  "unat (2 + (of_nat n :: u16) * 4 + 32) = (34 + 4 * n) mod 65536"
proof -
  have "2 + (of_nat n :: u16) * 4 + 32 = of_nat (34 + 4 * n)" by simp
  then show ?thesis by (simp only: unat_size)
qed

lemma daginfo_buffer:
  "unat (4 + 2 + (of_nat n :: u16) * 4) = (6 + 4 * n) mod 65536"
proof -
  have "4 + 2 + (of_nat n :: u16) * 4 = of_nat (6 + 4 * n)" by simp
  then show ?thesis by (simp only: unat_size)
qed

lemma encodeCrown_eq:
  assumes "length (ControlHash crown) = HashLength"
  shows "encodeCrown crown =
    (if 34 + 4 * length (Heights crown) < 65536
     then Some (PutUint16 (of_nat (length (Heights crown))) @ heights_bytes (Heights crown) @ ControlHash crown)
     else None)"
proof -
  let ?n = "length (Heights crown)" and ?p = "PutUint16 (of_nat (length (Heights crown)))"
  let ?size = "(34 + 4 * ?n) mod 65536"
  show ?thesis
  proof (cases "34 + 4 * ?n < 65536")
    case True
    then have size: "?size = 34 + 4 * ?n" by simp
    let ?b = "?p @ replicate (32 + 4 * ?n) 0"
    have 1: "write_at (replicate ?size 0) 0 ?p = Some ?b"
      by (simp add: size write_at_def)
    have 2: "write_heights ?b 2 (Heights crown) = Some (?p @ heights_bytes (Heights crown) @ replicate 32 0, 2 + 4 * ?n)"
      using write_heights_eq [of 2 "Heights crown" ?b] by simp
    have 3: "write_at (?p @ heights_bytes (Heights crown) @ replicate 32 0) (2 + 4 * ?n) (ControlHash crown)
        = Some (?p @ heights_bytes (Heights crown) @ ControlHash crown)"
      using assms by (simp add: write_at_def HashLength_def)
    show ?thesis unfolding encodeCrown_def Let_def crown_buffer using 1 2 3 True by simp
  next
    case False
    then have "?size < 34 + 4 * ?n" by (metis mod_less_divisor not_less order.strict_trans2 zero_less_numeral)
    then have none: "write_at b (2 + 4 * ?n) (ControlHash crown) = None" if "length b = ?size" for b
      using assms that by (simp add: write_at_def HashLength_def)
    show ?thesis
    proof (cases "write_at (replicate ?size 0) 0 ?p")
      case None
      then show ?thesis using False unfolding encodeCrown_def Let_def crown_buffer by simp
    next
      case (Some b1)
      then have b1: "length b1 = ?size" by (auto simp: write_at_def split: if_splits)
      show ?thesis
      proof (cases "write_heights b1 2 (Heights crown)")
        case None
        then show ?thesis using False Some unfolding encodeCrown_def Let_def crown_buffer by simp
      next
        case (Some r)
        then obtain b2 where "write_heights b1 2 (Heights crown) = Some (b2, 2 + 4 * ?n)" "length b2 = ?size"
          using write_heights_length [of b1 2 "Heights crown"] b1 by (cases r) auto
        then show ?thesis using False \<open>write_at (replicate ?size 0) 0 ?p = Some b1\<close> none
          unfolding encodeCrown_def Let_def crown_buffer by simp
      qed
    qed
  qed
qed


definition valid_crown :: "Crown \<Rightarrow> bool" where
  "valid_crown crown \<longleftrightarrow> (\<forall>h \<in> set (Heights crown). valid_height h)
     \<and> length (ControlHash crown) = HashLength \<and> length (Heights crown) \<le> 16375"

lemma unat_length: "length xs < 65536 \<Longrightarrow> unat (of_nat (length xs) :: u16) = length xs"
  by (simp add: unat_size)

lemma decodeCrown_encode:
  assumes v: "valid_crown crown" and e: "encodeCrown crown = Some bs"
  shows "decodeCrown (bs @ rest) = Some (Inr (crown, rest))"
proof -
  let ?n = "length (Heights crown)"
  have bs: "bs = PutUint16 (of_nat ?n) @ heights_bytes (Heights crown) @ ControlHash crown"
    using v e by (auto simp: valid_crown_def encodeCrown_eq split: if_splits)
  have "read_n (unat (of_nat ?n :: u16)) read_height (heights_bytes (Heights crown) @ ControlHash crown @ rest)
      = Some (Inr (Heights crown, ControlHash crown @ rest))"
    using v read_heights [of "Heights crown" "ControlHash crown @ rest"] by (simp add: valid_crown_def unat_length)
  moreover have "ReadFull HashLength (ControlHash crown @ rest) = Some (Inr (ControlHash crown, rest))"
    using v by (simp add: valid_crown_def ReadFull_append)
  ultimately show ?thesis
    by (simp add: bs decodeCrown_def rbind_Inr wire_simps rreturn_def NewCrown_def)
qed

interpretation crown_codec: codec encodeCrown decodeCrown valid_crown
proof
  show "valid_crown c \<Longrightarrow> \<exists>bs. encodeCrown c = Some bs" for c
    by (simp add: valid_crown_def encodeCrown_eq)
qed (rule decodeCrown_encode)

definition valid_daginfo :: "DagInfo option \<Rightarrow> bool" where
  "valid_daginfo info \<longleftrightarrow> (case info of None \<Rightarrow> True
     | Some i \<Rightarrow> di_Epoch i \<noteq> - 1 \<and> (\<forall>h \<in> set (di_Heights i). valid_height h) \<and> length (di_Heights i) \<le> 16382)"

lemma encodeDagInfo_Some:
  assumes "length (di_Heights i) \<le> 16382"
  shows "encodeDagInfo (Some i) =
    Some (PutUint32 (di_Epoch i) @ PutUint16 (of_nat (length (di_Heights i))) @ heights_bytes (di_Heights i))"
proof -
  let ?n = "length (di_Heights i)"
  let ?e = "PutUint32 (di_Epoch i)" and ?p = "PutUint16 (of_nat ?n)"
  have size: "(6 + 4 * ?n) mod 65536 = 6 + 4 * ?n" using assms by simp
  have "write_at (replicate (6 + 4 * ?n) 0) 0 ?e = Some (?e @ replicate (2 + 4 * ?n) 0)"
    by (simp add: write_at_def)
  moreover have "write_at (?e @ replicate (2 + 4 * ?n) 0) 4 ?p = Some (?e @ ?p @ replicate (4 * ?n) 0)"
    by (simp add: write_at_def)
  moreover have "write_heights (?e @ ?p @ replicate (4 * ?n) 0) 6 (di_Heights i)
      = Some (?e @ ?p @ heights_bytes (di_Heights i), 6 + 4 * ?n)"
    using write_heights_eq [of 6 "di_Heights i" "?e @ ?p @ replicate (4 * ?n) 0"] by simp
  ultimately show ?thesis
    unfolding encodeDagInfo_def Let_def daginfo_buffer by (simp add: size)
qed

interpretation daginfo_codec: codec encodeDagInfo decodeDagInfo valid_daginfo
proof
  show "\<exists>bs. encodeDagInfo i = Some bs" if "valid_daginfo i" for i
    using that encodeDagInfo_Some by (cases i) (auto simp: valid_daginfo_def encodeDagInfo_def)
  show "decodeDagInfo (bs @ rest) = Some (Inr (i, rest))" if v: "valid_daginfo i" and e: "encodeDagInfo i = Some bs" for i bs rest
  proof (cases i)
    case None
    then have "bs = PutUint32 (- 1)" using e by (simp add: encodeDagInfo_def)
    then show ?thesis by (simp add: None decodeDagInfo_def rbind_Inr wire_simps rreturn_def)
  next
    case (Some j)
    then have j: "di_Epoch j \<noteq> - 1" "\<forall>h \<in> set (di_Heights j). valid_height h" "length (di_Heights j) \<le> 16382"
      using v by (auto simp: valid_daginfo_def)
    then have bs: "bs = PutUint32 (di_Epoch j) @ PutUint16 (of_nat (length (di_Heights j))) @ heights_bytes (di_Heights j)"
      using e Some encodeDagInfo_Some by simp
    show ?thesis
      using j read_heights [OF j(2), of rest] unat_length [of "di_Heights j"]
      by (simp add: bs Some decodeDagInfo_def rbind_Inr wire_simps rreturn_def)
  qed
qed

section \<open>Units and chunks round-trip\<close>

text \<open>
  What the wire format can carry. The first clause says that the preunit is one \<open>NewPreunit\<close>
  builds from its own fields; a nil slice of random source data comes back empty, so it is left
  to \<open>decodePreunit_nil_rsData\<close>.
\<close>

definition valid_preunit :: "(bytes \<Rightarrow> hash) \<Rightarrow> preunit \<Rightarrow> bool" where
  "valid_preunit shake u \<longleftrightarrow>
     NewPreunit shake (UnitID u) (pu_crown u) (pu_data u) (pu_rsData u) (pu_signature u) = Some u
     \<and> UnitID u \<noteq> - 1 \<and> valid_crown (pu_crown u) \<and> length (pu_signature u) = 64
     \<and> length (pu_data u) \<le> MaxDataBytesPerUnit
     \<and> length (bytes_of (pu_rsData u)) \<le> MaxRandomSourceDataBytesPerUnit"

definition valid_unit :: "(bytes \<Rightarrow> hash) \<Rightarrow> preunit option \<Rightarrow> bool" where
  "valid_unit shake u \<longleftrightarrow> (case u of None \<Rightarrow> True | Some pu \<Rightarrow> valid_preunit shake pu \<and> pu_rsData pu \<noteq> None)"

lemma unat_length32: "length xs \<le> 2000000 \<Longrightarrow> unat (of_nat (length xs) :: u32) = length xs"
  by (simp add: unat_of_nat take_bit_nat_eq_self)

lemma sized_bytes:
  "length xs \<le> 2000000 \<Longrightarrow> (if (of_nat (length xs) :: u32) > 0 then xs else []) = xs"
  using unat_length32 [of xs] by (auto simp: word_less_nat_alt)

lemma encodeUnit_Some:
  assumes "valid_preunit shake u" "encodeCrown (pu_crown u) = Some crown"
  shows "encodeUnit (Some u) = Some (PutUint64 (UnitID u) @ pu_signature u @ crown
    @ PutUint32 (of_nat (length (pu_data u))) @ pu_data u
    @ PutUint32 (of_nat (length (bytes_of (pu_rsData u)))) @ bytes_of (pu_rsData u))"
proof -
  have "length (pu_data u) \<le> 2000000" "length (bytes_of (pu_rsData u)) \<le> 2000000" "length (pu_signature u) = 64"
    using assms(1) by (auto simp: valid_preunit_def MaxDataBytesPerUnit_def MaxRandomSourceDataBytesPerUnit_def)
  then show ?thesis using assms(2) sized_bytes [of "pu_data u"] sized_bytes [of "bytes_of (pu_rsData u)"]
    by (simp add: encodeUnit_def Let_def)
qed

lemma NewPreunit_rsData:
  assumes "NewPreunit shake uid crown data rs sig = Some u"
  shows "NewPreunit shake uid crown data (Some (bytes_of rs)) sig = Some (u\<lparr>pu_rsData := Some (bytes_of rs)\<rparr>)"
  using assms by (auto simp: NewPreunit_def computeHash_def split: prod.splits bind_splits if_splits)

lemma decodePreunit_encode:
  assumes v: "valid_preunit shake u" and e: "encodeUnit (Some u) = Some bs"
  shows "decodePreunit shake (bs @ rest) = Some (Inr (Some (u\<lparr>pu_rsData := Some (bytes_of (pu_rsData u))\<rparr>), rest))"
proof -
  have vD: "UnitID u \<noteq> - 1" "valid_crown (pu_crown u)" "length (pu_signature u) = 64"
      "length (pu_data u) \<le> MaxDataBytesPerUnit" "length (bytes_of (pu_rsData u)) \<le> MaxRandomSourceDataBytesPerUnit"
    and n: "NewPreunit shake (UnitID u) (pu_crown u) (pu_data u) (pu_rsData u) (pu_signature u) = Some u"
    using v by (auto simp: valid_preunit_def)
  obtain crown where c: "encodeCrown (pu_crown u) = Some crown" using crown_codec.enc_total [OF vD(2)] by blast
  have bs: "bs = PutUint64 (UnitID u) @ pu_signature u @ crown
    @ PutUint32 (of_nat (length (pu_data u))) @ pu_data u
    @ PutUint32 (of_nat (length (bytes_of (pu_rsData u)))) @ bytes_of (pu_rsData u)"
    using e encodeUnit_Some [OF v c] by simp
  have len: "unat (of_nat (length (pu_data u)) :: u32) = length (pu_data u)"
      "unat (of_nat (length (bytes_of (pu_rsData u))) :: u32) = length (bytes_of (pu_rsData u))"
    using vD(4,5) by (auto intro!: unat_length32 simp: MaxDataBytesPerUnit_def MaxRandomSourceDataBytesPerUnit_def)
  show ?thesis
    using vD(1,3-) len decodeCrown_encode [OF vD(2) c] NewPreunit_rsData [OF n]
    by (simp add: bs decodePreunit_def rbind_Inr wire_simps rreturn_def)
qed

interpretation unit_codec: codec encodeUnit "decodePreunit shake" "valid_unit shake" for shake
proof
  show "\<exists>bs. encodeUnit u = Some bs" if "valid_unit shake u" for u
  proof (cases u)
    case (Some pu)
    then have v: "valid_preunit shake pu" using that by (simp add: valid_unit_def)
    then obtain crown where "encodeCrown (pu_crown pu) = Some crown"
      using crown_codec.enc_total [of "pu_crown pu"] by (auto simp: valid_preunit_def)
    then show ?thesis using encodeUnit_Some [OF v] Some by blast
  qed (simp add: encodeUnit_def)
  show "decodePreunit shake (bs @ rest) = Some (Inr (u, rest))"
    if "valid_unit shake u" "encodeUnit u = Some bs" for u bs rest
  proof (cases u)
    case None
    then have "bs = PutUint64 (- 1)" using that(2) by (simp add: encodeUnit_def)
    then show ?thesis by (simp add: None decodePreunit_def rbind_Inr wire_simps rreturn_def)
  next
    case (Some pu)
    then have "valid_preunit shake pu" "pu\<lparr>pu_rsData := Some (bytes_of (pu_rsData pu))\<rparr> = pu"
      using that(1) by (auto simp: valid_unit_def)
    then show ?thesis using decodePreunit_encode [of shake pu bs rest] that(2) Some by simp
  qed
qed

end
