(* ===== verification/SyncWire.thy ===== *)
theory SyncWire
  imports Encoding
begin

text \<open>
  The small wire formats of the sync protocols: the greeting of \<open>pkg/sync/handshake\<close>, the
  requests of \<open>pkg/sync/fetch/requests.go\<close> and the bit set of \<open>pkg/sync/gossip/bit_set.go\<close>.
\<close>

section \<open>Greetings\<close>

definition Greet :: "u16 \<Rightarrow> u32 \<Rightarrow> bytes" where
  "Greet pid sid = PutUint16 pid @ PutUint32 sid"

definition AcceptGreeting :: "(u16 \<times> u32) reader" where
  "AcceptGreeting =
     rbind (ReadFull 6) (\<lambda>data. rreturn (Uint16 (take 2 data), Uint32 (take 4 (drop 2 data))))"

interpretation greeting_codec: codec "\<lambda>(pid, sid). Some (Greet pid sid)" AcceptGreeting "\<lambda>_. True"
  by unfold_locales
    (auto simp: AcceptGreeting_def Greet_def rbind_Inr ReadFull_def rreturn_def)

section \<open>Requests\<close>

definition sendRequests :: "u64 list \<Rightarrow> bytes" where
  "sendRequests unitIDs =
     (let ids = (if length unitIDs > MaxUnitsInChunk then take MaxUnitsInChunk unitIDs else unitIDs)
      in PutUint32 (of_nat (length ids)) @ concat (map PutUint64 ids))"

definition receiveRequests :: "u64 list reader" where
  "receiveRequests =
     rbind read_u32 (\<lambda>nReqs.
     if unat nReqs > MaxUnitsInChunk then rfail (WireError ''requests too big'')
     else read_n (unat nReqs) read_u64)"

lemma enc_all_u64: "u64_codec.enc_all ids = Some (concat (map PutUint64 ids))"
  by (induction ids) simp_all

lemma receive_sent:
  "receiveRequests (sendRequests ids @ rest) = Some (Inr (take MaxUnitsInChunk ids, rest))"
proof -
  let ?ids = "take MaxUnitsInChunk ids"
  have l: "length ?ids \<le> MaxUnitsInChunk" by simp
  have u: "unat (of_nat (length ?ids) :: u32) = length ?ids"
    using l by (intro unat_length32) (simp add: MaxUnitsInChunk_def)
  have "read_n (length ?ids) read_u64 (concat (map PutUint64 ?ids) @ rest) = Some (Inr (?ids, rest))"
    using u64_codec.read_n_enc_all [of ?ids] enc_all_u64 by blast
  moreover have "sendRequests ids = PutUint32 (of_nat (length ?ids)) @ concat (map PutUint64 ?ids)"
    by (simp add: sendRequests_def Let_def)
  ultimately show ?thesis using l u by (simp add: receiveRequests_def rbind_Inr wire_simps)
qed

interpretation requests_codec: codec "\<lambda>ids. Some (sendRequests ids)" receiveRequests "\<lambda>ids. length ids \<le> MaxUnitsInChunk"
  by unfold_locales (auto simp: receive_sent)

text \<open>
  The receiver of a request gets the first million of the requested ids, in order, and the
  stream after them.
\<close>

theorem requests_roundtrip:
  "receiveRequests (sendRequests ids @ rest) = Some (Inr (take 1000000 ids, rest))"
  using receive_sent [of ids rest] by (simp add: MaxUnitsInChunk_def)

text \<open>a greeting is accepted with the process id and session id that were sent.\<close>

theorem greeting_roundtrip: "AcceptGreeting (Greet pid sid @ rest) = Some (Inr ((pid, sid), rest))"
  using greeting_codec.dec_enc [of "(pid, sid)"] by simp

section \<open>Bit sets\<close>

record bitSet =
  array :: bytes

definition bs_set :: "bitSet \<Rightarrow> u32 \<Rightarrow> bitSet go" where
  "bs_set bs k =
     do { b \<leftarrow> nth_opt (array bs) (unat (drop_bit 3 k));
          Some (bs\<lparr>array := (array bs)[unat (drop_bit 3 k) := b OR push_bit (unat (k AND 7)) 1]\<rparr>) }"

definition bs_test :: "bitSet \<Rightarrow> u32 \<Rightarrow> bool go" where
  "bs_test bs k =
     do { b \<leftarrow> nth_opt (array bs) (unat (drop_bit 3 k)); Some (b AND push_bit (unat (k AND 7)) 1 \<noteq> 0) }"

definition newBitSet :: "u32 \<Rightarrow> bitSet" where
  "newBitSet n = \<lparr>array = replicate (unat (drop_bit 3 (n + 7))) 0\<rparr>"

definition bitSetFromSlice :: "bytes \<Rightarrow> bitSet" where
  "bitSetFromSlice a = \<lparr>array = a\<rparr>"

definition toSlice :: "bitSet \<Rightarrow> bytes" where
  "toSlice bs = array bs"

lemma bs_test_eq:
  "bs_test bs k = (if unat (drop_bit 3 k) < length (array bs)
     then Some (bit (array bs ! unat (drop_bit 3 k)) (unat (k AND 7))) else None)"
  by (simp add: bs_test_def nth_opt_def bit_iff_and_push_bit_not_eq_0)

lemma low3: "k AND 7 = (take_bit 3 k :: u32)"
  by (simp add: take_bit_eq_mask mask_eq_exp_minus_1)

lemma unat_drop3: "unat (drop_bit 3 (k :: u32)) = unat k div 8"
  by (simp add: drop_bit_eq_div unat_div)

lemma unat_low3: "unat (k AND 7 :: u32) = unat k mod 8"
  by (simp add: low3 take_bit_eq_mod unat_mod)

text \<open>
  Setting a bit inside a bit set makes exactly that bit test true and keeps all others; outside
  the slice \<open>set\<close> panics.
\<close>

theorem bitset_set_test:
  "(unat (drop_bit 3 k) < length (array bs) \<longrightarrow>
      (\<exists>bs'. bs_set bs k = Some bs' \<and> length (array bs') = length (array bs)
        \<and> (\<forall>j. bs_test bs' j = (if j = k then Some True else bs_test bs j))))
   \<and> (\<not> unat (drop_bit 3 k) < length (array bs) \<longrightarrow> bs_set bs k = None)"
proof (cases "unat (drop_bit 3 k) < length (array bs)")
  case True
  let ?i = "unat (drop_bit 3 k)" and ?m = "unat (k AND 7)"
  let ?b = "array bs ! ?i OR push_bit ?m 1"
  let ?bs' = "bs\<lparr>array := (array bs)[?i := ?b]\<rparr>"
  have s: "bs_set bs k = Some ?bs'" using True by (simp add: bs_set_def nth_opt_def)
  have "bs_test ?bs' j = (if j = k then Some True else bs_test bs j)" for j
  proof -
    have "unat j = unat k" if "unat j div 8 = unat k div 8" "unat j mod 8 = unat k mod 8"
      using that by (metis div_mult_mod_eq)
    then have jk: "j = k \<longleftrightarrow> unat (drop_bit 3 j) = ?i \<and> unat (j AND 7) = ?m"
      by (auto simp: unat_drop3 unat_low3 word_unat_eq_iff)
    have "bit ?b m \<longleftrightarrow> m = ?m \<or> bit (array bs ! ?i) m" if "m < 8" for m
      using that by (auto simp: bit_simps)
    moreover have "unat (j AND 7) < 8" by (simp add: unat_low3)
    ultimately have "bit ?b (unat (j AND 7)) \<longleftrightarrow> unat (j AND 7) = ?m \<or> bit (array bs ! ?i) (unat (j AND 7))" by blast
    then show ?thesis
      using True jk by (cases "unat (drop_bit 3 j) = ?i") (auto simp: bs_test_eq)
  qed
  then show ?thesis using True s by auto
qed (simp add: bs_set_def nth_opt_def)

theorem bitset_set_test_witness:
  "\<exists>bs'. bs_set \<lparr>array = [0, 1]\<rparr> 9 = Some bs' \<and> bs_test bs' 9 = Some True \<and> bs_test bs' 8 = Some True"
proof -
  have t: "bs_test \<lparr>array = [0, 1]\<rparr> 8 = Some True" by code_simp
  have "unat (drop_bit 3 (9 :: u32)) < length (array \<lparr>array = [0, 1]\<rparr>)" by code_simp
  then obtain bs' where b: "bs_set \<lparr>array = [0, 1]\<rparr> 9 = Some bs'"
      "\<And>j. bs_test bs' j = (if j = 9 then Some True else bs_test \<lparr>array = [0, 1]\<rparr> j)"
    using bitset_set_test [of 9 "\<lparr>array = [0, 1]\<rparr>"] by blast
  then show ?thesis using t by simp
qed

text \<open>
  A new bit set has room for the bits below its size and all of them are false, as long as the
  size plus seven does not wrap around in 32 bits.
\<close>

theorem newBitSet_clear:
  assumes "k < n" "unat n + 7 < 2 ^ 32"
  shows "bs_test (newBitSet n) k = Some False"
proof -
  have "unat (n + 7) = unat n + 7" using assms(2) by (simp add: unat_word_ariths)
  then have "unat (drop_bit 3 k) < unat (drop_bit 3 (n + 7))"
    using assms(1) by (simp add: unat_drop3 word_less_nat_alt)
  then show ?thesis by (simp add: bs_test_def newBitSet_def nth_opt_def)
qed

theorem newBitSet_clear_witness: "bs_test (newBitSet 20) 19 = Some False"
  by (rule newBitSet_clear) simp_all

end
