(* ===== verification/Config.thy ===== *)
theory Config
  imports Growth
begin

text \<open>
  The configuration of a process (\<open>pkg/config/config.go\<close>, \<open>checks.go\<close>). Keys are values of the
  crypto libraries, the type variable \<open>'k\<close>; a nil key is \<^const>\<open>None\<close>. A unit checker is kept with
  the name that \<open>funcName\<close> reads from the runtime. The theorems say that the configurations built
  by \<open>New\<close> and \<open>NewSetup\<close> pass the checks of \<open>Valid\<close> and \<open>ValidSetup\<close>.
\<close>

section \<open>Data\<close>

type_synonym NamedCheck = "string \<times> UnitChecker"
type_synonym addresses = "string \<rightharpoonup> string list"

record 'k Member =
  m_Pid :: u16
  m_PrivateKey :: "'k option"
  m_RMCSecretKey :: "'k option"
  m_P2PSecretKey :: "'k option"

record 'k Committee =
  c_PublicKeys :: "'k option list"
  c_P2PPublicKeys :: "'k option list"
  c_RMCVerificationKeys :: "'k option list"
  SetupAddresses :: addresses
  Addresses :: addresses

record 'k conf =
  Pid :: u16
  NProc :: u16
  EpochLength :: int
  NumberOfEpochs :: int
  LastLevel :: int
  CanSkipLevel :: bool
  conf_Checks :: "NamedCheck list"
  LogFile :: string
  LogLevel :: int
  LogHuman :: bool
  LogBuffer :: int
  WTKey :: "'k option"
  PrivateKey :: "'k option"
  PublicKeys :: "'k option list"
  P2PPublicKeys :: "'k option list"
  P2PSecretKey :: "'k option"
  RMCPrivateKey :: "'k option"
  RMCPublicKeys :: "'k option list"
  GossipAbove :: int
  FetchInterval :: int
  GossipInterval :: int
  Timeout :: int
  RMCAddresses :: "string list"
  RMCNetType :: string
  GossipAddresses :: "string list"
  GossipNetType :: string
  FetchAddresses :: "string list"
  FetchNetType :: string
  MCastAddresses :: "string list"
  MCastNetType :: string
  GossipWorkers :: "int \<times> int"
  FetchWorkers :: "int \<times> int"
  OrderStartLevel :: int
  CRPFixedPrefix :: u16
  ZeroVoteRoundForCommonVote :: int
  FirstDecidingRound :: int
  CommonVoteDeterministicPrefix :: int

text \<open>Durations are counted in nanoseconds, as in \<open>time.Duration\<close>.\<close>

definition Millisecond :: int where
  "Millisecond = 1000000"

definition Second :: int where
  "Second = 1000 * Millisecond"

text \<open>\<open>strconv.Itoa\<close>.\<close>

fun nat_digits :: "nat \<Rightarrow> string" where
  "nat_digits k = (if k < 10 then [char_of (48 + k)] else nat_digits (k div 10) @ [char_of (48 + k mod 10)])"

declare nat_digits.simps [simp del]

definition Itoa :: "int \<Rightarrow> string" where
  "Itoa i = (if i < 0 then CHR ''-'' # nat_digits (nat (- i)) else nat_digits (nat i))"

section \<open>Building a configuration\<close>

definition AddCheck_conf :: "'k conf \<Rightarrow> NamedCheck \<Rightarrow> 'k conf" where
  "AddCheck_conf c ck = c\<lparr>conf_Checks := conf_Checks c @ [ck]\<rparr>"

text \<open>The other fields of the literal in \<open>requiredByLinear\<close> have Go's zero values.\<close>

definition requiredByLinear :: "'k conf" where
  "requiredByLinear =
     \<lparr>Pid = 0, NProc = 0, EpochLength = 0, NumberOfEpochs = 0, LastLevel = 0, CanSkipLevel = False, conf_Checks = [],
      LogFile = [], LogLevel = 0, LogHuman = False, LogBuffer = 0, WTKey = None, PrivateKey = None, PublicKeys = [],
      P2PPublicKeys = [], P2PSecretKey = None, RMCPrivateKey = None, RMCPublicKeys = [], GossipAbove = 0,
      FetchInterval = 0, GossipInterval = 0, Timeout = 0, RMCAddresses = [], RMCNetType = [], GossipAddresses = [],
      GossipNetType = [], FetchAddresses = [], FetchNetType = [], MCastAddresses = [], MCastNetType = [],
      GossipWorkers = (0, 0), FetchWorkers = (0, 0), OrderStartLevel = 0, CRPFixedPrefix = 0,
      ZeroVoteRoundForCommonVote = 3, FirstDecidingRound = 3, CommonVoteDeterministicPrefix = 10\<rparr>"

definition Empty_conf :: "'k conf" where
  "Empty_conf = requiredByLinear"

definition addKeys :: "'k conf \<Rightarrow> 'k Member \<Rightarrow> 'k Committee \<Rightarrow> 'k conf" where
  "addKeys cnf m c =
     cnf\<lparr>Pid := m_Pid m,
         NProc := of_nat (length (c_PublicKeys c)),
         PrivateKey := m_PrivateKey m,
         PublicKeys := c_PublicKeys c,
         RMCPrivateKey := m_RMCSecretKey m,
         RMCPublicKeys := c_RMCVerificationKeys c,
         P2PSecretKey := m_P2PSecretKey m,
         P2PPublicKeys := c_P2PPublicKeys c\<rparr>"

text \<open>Reading a missing key of a Go map of slices gives the nil slice.\<close>

definition addrs_at :: "addresses \<Rightarrow> string \<Rightarrow> string list" where
  "addrs_at a k = (case a k of None \<Rightarrow> [] | Some xs \<Rightarrow> xs)"

definition addSyncConf :: "'k conf \<Rightarrow> addresses \<Rightarrow> bool \<Rightarrow> 'k conf" where
  "addSyncConf cnf addresses setup =
     (let n = int (unat (NProc cnf)) in
      cnf\<lparr>Timeout := 5 * Second,
          FetchInterval := Second,
          GossipInterval := 100 * Millisecond,
          GossipAbove := 50,
          RMCNetType := ''tcp'',
          RMCAddresses := addrs_at addresses ''rmc'',
          GossipNetType := ''tcp'',
          GossipAddresses := addrs_at addresses ''gossip'',
          FetchNetType := ''tcp'',
          FetchAddresses := addrs_at addresses ''fetch'',
          MCastNetType := ''tcp'',
          MCastAddresses := addrs_at addresses ''mcast'',
          GossipWorkers := (n div 20 + 1, n div 40 + 1),
          FetchWorkers := (n div 2, n div 4)\<rparr>)"

definition addLogConf :: "'k conf \<Rightarrow> string \<Rightarrow> 'k conf" where
  "addLogConf cnf logFile = cnf\<lparr>LogFile := logFile, LogBuffer := 100000, LogHuman := False, LogLevel := 1\<rparr>"

definition check_pkg :: string where
  "check_pkg = ''gitlab.com/alephledger/consensus-go/pkg/dag/check.''"

definition named_setupChecks :: "NamedCheck list" where
  "named_setupChecks =
     zip (map ((@) check_pkg) [''BasicCorrectness'', ''ParentConsistency'', ''NoLevelSkipping'', ''NoForks'']) setupChecks"

definition named_consensusChecks :: "NamedCheck list" where
  "named_consensusChecks =
     zip (map ((@) check_pkg) [''BasicCorrectness'', ''ParentConsistency'', ''NoSelfForkingEvidence'', ''ForkerMuting''])
       consensusChecks"

definition addSetupConf :: "'k conf \<Rightarrow> 'k conf" where
  "addSetupConf cnf =
     cnf\<lparr>CanSkipLevel := False, OrderStartLevel := 6, CRPFixedPrefix := 0, EpochLength := 1,
         NumberOfEpochs := 1, conf_Checks := named_setupChecks\<rparr>"

definition addConsensusConf :: "'k conf \<Rightarrow> 'k conf" where
  "addConsensusConf cnf =
     cnf\<lparr>CanSkipLevel := True, OrderStartLevel := 0, CRPFixedPrefix := 4, EpochLength := 30,
         NumberOfEpochs := 3, conf_Checks := named_consensusChecks\<rparr>"

definition addLastLevel :: "'k conf \<Rightarrow> 'k conf" where
  "addLastLevel cnf = cnf\<lparr>LastLevel := EpochLength cnf + OrderStartLevel cnf - 1\<rparr>"

definition NewSetup :: "'k Member \<Rightarrow> 'k Committee \<Rightarrow> 'k conf" where
  "NewSetup m c =
     (let cnf = requiredByLinear;
          cnf = addKeys cnf m c;
          cnf = addSyncConf cnf (SetupAddresses c) True;
          cnf = addLogConf cnf (Itoa (int (unat (Pid cnf))) @ ''.setup'');
          cnf = addSetupConf cnf
      in addLastLevel cnf)"

definition New_conf :: "'k Member \<Rightarrow> 'k Committee \<Rightarrow> 'k conf" where
  "New_conf m c =
     (let cnf = requiredByLinear;
          cnf = addKeys cnf m c;
          cnf = addSyncConf cnf (Addresses c) False;
          cnf = addLogConf cnf (Itoa (int (unat (Pid cnf))));
          cnf = addConsensusConf cnf
      in addLastLevel cnf)"

section \<open>Checking a configuration\<close>

text \<open>The checks return the message of the first problem; \<open>or_else\<close> is the early return.\<close>

definition or_else :: "string option \<Rightarrow> string option \<Rightarrow> string option" where
  "or_else e f = (case e of None \<Rightarrow> f | Some m \<Rightarrow> Some m)"

definition fail_if :: "bool \<Rightarrow> string \<Rightarrow> string option" where
  "fail_if b m = (if b then Some m else None)"

definition noNils :: "'a option list \<Rightarrow> u16 \<Rightarrow> string \<Rightarrow> string option" where
  "noNils s n keyType =
     or_else (fail_if ((of_nat (length s) :: u16) \<noteq> n) (''wrong number of '' @ keyType))
             (fail_if (None \<in> set s) (keyType @ '' contains nil''))"

definition checkKeys :: "'k conf \<Rightarrow> string option" where
  "checkKeys cnf =
     or_else (fail_if (NProc cnf = 0) ''nProc set to 0 during keys check'')
     (or_else (fail_if (PrivateKey cnf = None) ''Private key is missing'')
     (or_else (noNils (PublicKeys cnf) (NProc cnf) ''PublicKeys'')
     (or_else (fail_if (RMCPrivateKey cnf = None) ''RMC private key is missing'')
     (or_else (noNils (RMCPublicKeys cnf) (NProc cnf) ''RMC verification keys'')
     (or_else (fail_if (P2PSecretKey cnf = None) ''P2P private key is missing'')
              (noNils (P2PPublicKeys cnf) (NProc cnf) ''P2P public keys''))))))"

definition checkSyncConf :: "'k conf \<Rightarrow> bool \<Rightarrow> string option" where
  "checkSyncConf cnf setup =
     (let n = unat (NProc cnf); ok = (\<lambda>s. length s = n) in
      or_else (fail_if (Timeout cnf = 0) ''timeout cannot be 0'')
      (or_else (fail_if (FetchInterval cnf = 0) ''fetch interval cannot be 0'')
      (or_else (fail_if (GossipAbove cnf = 0) ''GossipAbove cannot be 0'')
      (or_else (fail_if (\<not> ok (RMCAddresses cnf)) ''wrong number of rmc addresses'')
      (or_else (fail_if (\<not> ok (GossipAddresses cnf)) ''wrong number of gossip addresses'')
      (or_else (fail_if (\<not> ok (FetchAddresses cnf)) ''wrong number of fetch addresses'')
      (or_else (fail_if (\<not> setup \<and> \<not> ok (MCastAddresses cnf)) ''wrong number of mcast addresses'')
      (or_else (fail_if (fst (GossipWorkers cnf) = 0) ''nIn gossip workers cannot be 0'')
      (or_else (fail_if (snd (GossipWorkers cnf) = 0) ''nOut gossip workers cannot be 0'')
      (or_else (fail_if (fst (FetchWorkers cnf) = 0) ''nIn fetch workers cannot be 0'')
               (fail_if (snd (FetchWorkers cnf) = 0) ''nOut fetch workers cannot be 0'')))))))))))"

fun checkChecks :: "NamedCheck list \<Rightarrow> NamedCheck list \<Rightarrow> string option" where
  "checkChecks given [] = None"
| "checkChecks given (sc # expected) =
     (if list_ex (\<lambda>c. fst c = fst sc) given then checkChecks given expected
      else Some (''missing check: '' @ fst sc))"

definition valid_conf :: "'k conf \<Rightarrow> string option" where
  "valid_conf cnf =
     or_else (fail_if (NProc cnf < 4) (''nProc is '' @ Itoa (int (unat (NProc cnf)))))
     (or_else (fail_if (EpochLength cnf < 1) (''EpochLength is '' @ Itoa (EpochLength cnf)))
     (or_else (fail_if (LogFile cnf = []) ''missing log filename'')
     (or_else (fail_if (LogBuffer cnf = 0) ''Log buffer cannot be 0'')
              (checkKeys cnf))))"

definition Valid :: "'k conf \<Rightarrow> string option" where
  "Valid cnf =
     or_else (valid_conf cnf)
     (or_else (fail_if (CRPFixedPrefix cnf > NProc cnf) ''CRPFixedPrefix connot exceed NProc'')
     (or_else (fail_if (length (conf_Checks cnf) \<noteq> length named_consensusChecks) ''wrong number of checks'')
     (or_else (checkChecks (conf_Checks cnf) named_consensusChecks)
              (checkSyncConf cnf False))))"

definition ValidSetup :: "'k conf \<Rightarrow> string option" where
  "ValidSetup cnf =
     or_else (valid_conf cnf)
     (or_else (fail_if (CanSkipLevel cnf) ''Cannot skip level in setup'')
     (or_else (fail_if (OrderStartLevel cnf \<noteq> 6) (''OrderStartLevel should be 6 and not '' @ Itoa (OrderStartLevel cnf)))
     (or_else (fail_if (CRPFixedPrefix cnf \<noteq> 0) ''CRPFixedPrefix connot be nonzero in setup'')
     (or_else (fail_if (length (conf_Checks cnf) \<noteq> length named_setupChecks) ''wrong number of checks'')
     (or_else (checkChecks (conf_Checks cnf) named_setupChecks)
              (checkSyncConf cnf True))))))"

section \<open>The standard configurations are valid\<close>

lemma or_else_None [simp]: "or_else e f = None \<longleftrightarrow> e = None \<and> f = None"
  by (cases e) (simp_all add: or_else_def)

lemma fail_if_None [simp]: "fail_if b m = None \<longleftrightarrow> \<not> b"
  by (simp add: fail_if_def)

lemma of_nat_u16_eq_iff: "(of_nat a :: u16) = of_nat b \<longleftrightarrow> a mod 65536 = b mod 65536"
  by (simp add: word_of_nat_eq_iff take_bit_nat_def)

lemma unat_of_nat_u16: "unat (of_nat a :: u16) = a mod 65536"
  by (simp add: unat_of_nat take_bit_nat_def)

lemma noNils_None:
  "noNils s (of_nat n) k = None \<longleftrightarrow> length s mod 65536 = n mod 65536 \<and> None \<notin> set s"
  by (simp add: noNils_def of_nat_u16_eq_iff)

lemma Itoa_nonempty: "Itoa i \<noteq> []"
  by (subst Itoa_def) (simp add: nat_digits.simps [of "nat i"])

lemma length_named_checks [simp]: "length named_setupChecks = 4" "length named_consensusChecks = 4"
  by (simp_all add: named_setupChecks_def named_consensusChecks_def setupChecks_def consensusChecks_def)

lemma checkChecks_self: "checkChecks cs cs' = None \<longleftrightarrow> fst ` set cs' \<subseteq> fst ` set cs"
proof (induction cs')
  case (Cons ck cs')
  have "list_ex (\<lambda>c. fst c = fst ck) cs \<longleftrightarrow> fst ck \<in> fst ` set cs" unfolding list_ex_iff image_iff by metis
  then show ?case using Cons by simp
qed simp

text \<open>The keys of a member and a committee are complete.\<close>

definition keys_complete :: "'k Member \<Rightarrow> 'k Committee \<Rightarrow> bool" where
  "keys_complete m c \<longleftrightarrow>
     m_PrivateKey m \<noteq> None \<and> m_RMCSecretKey m \<noteq> None \<and> m_P2PSecretKey m \<noteq> None
     \<and> None \<notin> set (c_PublicKeys c)
     \<and> length (c_RMCVerificationKeys c) mod 65536 = length (c_PublicKeys c) \<and> None \<notin> set (c_RMCVerificationKeys c)
     \<and> length (c_P2PPublicKeys c) mod 65536 = length (c_PublicKeys c) \<and> None \<notin> set (c_P2PPublicKeys c)"

lemmas conf_defs = requiredByLinear_def addKeys_def addSyncConf_def addLogConf_def addSetupConf_def
  addConsensusConf_def addLastLevel_def Let_def

lemma workers_pos: "4 \<le> n \<Longrightarrow> int n div 4 \<noteq> 0 \<and> int n div 2 \<noteq> 0 \<and> int n div 20 + 1 \<noteq> 0 \<and> int n div 40 + 1 \<noteq> 0"
  by linarith

text \<open>The fields that the two constructors have in common.\<close>

definition built_from :: "'k conf \<Rightarrow> 'k Member \<Rightarrow> 'k Committee \<Rightarrow> addresses \<Rightarrow> bool" where
  "built_from cnf m c a \<longleftrightarrow>
     NProc cnf = of_nat (length (c_PublicKeys c)) \<and> 1 \<le> EpochLength cnf \<and> LogFile cnf \<noteq> [] \<and> LogBuffer cnf = 100000
     \<and> PrivateKey cnf = m_PrivateKey m \<and> PublicKeys cnf = c_PublicKeys c
     \<and> RMCPrivateKey cnf = m_RMCSecretKey m \<and> RMCPublicKeys cnf = c_RMCVerificationKeys c
     \<and> P2PSecretKey cnf = m_P2PSecretKey m \<and> P2PPublicKeys cnf = c_P2PPublicKeys c
     \<and> Timeout cnf \<noteq> 0 \<and> FetchInterval cnf \<noteq> 0 \<and> GossipAbove cnf \<noteq> 0
     \<and> RMCAddresses cnf = addrs_at a ''rmc'' \<and> GossipAddresses cnf = addrs_at a ''gossip''
     \<and> FetchAddresses cnf = addrs_at a ''fetch'' \<and> MCastAddresses cnf = addrs_at a ''mcast''
     \<and> GossipWorkers cnf = (int (unat (NProc cnf)) div 20 + 1, int (unat (NProc cnf)) div 40 + 1)
     \<and> FetchWorkers cnf = (int (unat (NProc cnf)) div 2, int (unat (NProc cnf)) div 4)"

lemma New_built: "built_from (New_conf m c) m c (Addresses c)"
  by (simp add: built_from_def New_conf_def conf_defs Itoa_nonempty Second_def Millisecond_def)

lemma NewSetup_built: "built_from (NewSetup m c) m c (SetupAddresses c)"
  by (simp add: built_from_def NewSetup_def conf_defs Itoa_nonempty Second_def Millisecond_def)

lemma built_valid:
  assumes b: "built_from cnf m c a" and n: "length (c_PublicKeys c) = n" "n < 65536"
  shows "valid_conf cnf = None \<longleftrightarrow> 4 \<le> n \<and> keys_complete m c"
proof -
  have u: "unat (of_nat n :: u16) = n" using n by (simp add: unat_of_nat_u16)
  have lt: "(of_nat n :: u16) < 4 \<longleftrightarrow> n < 4" using u by (simp add: word_less_nat_alt)
  have z: "4 \<le> n \<Longrightarrow> (of_nat n :: u16) \<noteq> 0" using u by auto
  have f: "NProc cnf = of_nat n" "1 \<le> EpochLength cnf" "LogFile cnf \<noteq> []" "LogBuffer cnf = 100000"
    "PrivateKey cnf = m_PrivateKey m" "PublicKeys cnf = c_PublicKeys c" "RMCPrivateKey cnf = m_RMCSecretKey m"
    "RMCPublicKeys cnf = c_RMCVerificationKeys c" "P2PSecretKey cnf = m_P2PSecretKey m" "P2PPublicKeys cnf = c_P2PPublicKeys c"
    using b n by (simp_all add: built_from_def)
  have k: "4 \<le> n \<Longrightarrow> checkKeys cnf = None \<longleftrightarrow> keys_complete m c"
    using z n by (auto simp: checkKeys_def f noNils_None keys_complete_def)
  show ?thesis
    using f(2,3) k by (auto simp: valid_conf_def f(1,4) lt)
qed

lemma built_sync:
  assumes b: "built_from cnf m c a" and n: "length (c_PublicKeys c) = n" "n < 65536" "4 \<le> n"
  shows "checkSyncConf cnf stp = None \<longleftrightarrow>
    (\<forall>k \<in> {''rmc'', ''gossip'', ''fetch''} \<union> (if stp then {} else {''mcast''}). length (addrs_at a k) = n)"
proof -
  have u: "unat (NProc cnf) = n" using n b by (simp add: built_from_def unat_of_nat_u16)
  have f: "Timeout cnf \<noteq> 0" "FetchInterval cnf \<noteq> 0" "GossipAbove cnf \<noteq> 0"
    "RMCAddresses cnf = addrs_at a ''rmc''" "GossipAddresses cnf = addrs_at a ''gossip''"
    "FetchAddresses cnf = addrs_at a ''fetch''" "MCastAddresses cnf = addrs_at a ''mcast''"
    using b by (simp_all add: built_from_def)
  have w: "GossipWorkers cnf = (int n div 20 + 1, int n div 40 + 1)" "FetchWorkers cnf = (int n div 2, int n div 4)"
    using b u by (simp_all add: built_from_def)
  show ?thesis
    using workers_pos [OF n(3)] by (cases stp) (auto simp: checkSyncConf_def Let_def u f w)
qed

text \<open>
  The configurations that \<open>New\<close> and \<open>NewSetup\<close> make of a member and a committee of fewer than
  \<open>2^16\<close> public keys are accepted by \<open>Valid\<close> and \<open>ValidSetup\<close> exactly when there are at least four
  of them, all keys are there (the lengths of the other two lists of keys are compared modulo
  \<open>2^16\<close>), and each process has one address of each kind, where the setup does not need the
  multicast addresses.
\<close>

theorem New_valid:
  assumes "length (c_PublicKeys c) = n" "n < 65536"
  shows "(Valid (New_conf m c) = None \<longleftrightarrow> 4 \<le> n \<and> keys_complete m c
      \<and> (\<forall>k \<in> {''rmc'', ''gossip'', ''fetch'', ''mcast''}. length (addrs_at (Addresses c) k) = n))
    \<and> (ValidSetup (NewSetup m c) = None \<longleftrightarrow> 4 \<le> n \<and> keys_complete m c
      \<and> (\<forall>k \<in> {''rmc'', ''gossip'', ''fetch''}. length (addrs_at (SetupAddresses c) k) = n))"
proof -
  note v = built_valid [OF New_built assms, of m] built_valid [OF NewSetup_built assms, of m]
  note s = built_sync [OF New_built assms, of m False] built_sync [OF NewSetup_built assms, of m True]
  have p: "4 \<le> n \<Longrightarrow> \<not> CRPFixedPrefix (New_conf m c) > NProc (New_conf m c)"
    using assms by (simp add: New_conf_def conf_defs word_less_nat_alt unat_of_nat_u16)
  have f: "conf_Checks (New_conf m c) = named_consensusChecks" "conf_Checks (NewSetup m c) = named_setupChecks"
    "\<not> CanSkipLevel (NewSetup m c)" "OrderStartLevel (NewSetup m c) = 6" "CRPFixedPrefix (NewSetup m c) = 0"
    by (simp_all add: New_conf_def NewSetup_def conf_defs)
  show ?thesis
    using v s p by (auto simp: Valid_def ValidSetup_def f checkChecks_self)
qed

definition demo_addrs :: addresses where
  "demo_addrs = (\<lambda>_. Some [''a'', ''b'', ''c'', ''d''])"

definition demo_member :: "unit Member" where
  "demo_member = \<lparr>m_Pid = 0, m_PrivateKey = Some (), m_RMCSecretKey = Some (), m_P2PSecretKey = Some ()\<rparr>"

definition demo_committee :: "unit Committee" where
  "demo_committee =
     \<lparr>c_PublicKeys = replicate 4 (Some ()), c_P2PPublicKeys = replicate 4 (Some ()), c_RMCVerificationKeys = replicate 4 (Some ()),
      SetupAddresses = demo_addrs, Addresses = demo_addrs\<rparr>"

theorem New_valid_witness:
  "Valid (New_conf demo_member demo_committee) = None \<and> ValidSetup (NewSetup demo_member demo_committee) = None"
  using New_valid [of demo_committee 4 demo_member]
  by (simp add: keys_complete_def addrs_at_def demo_addrs_def demo_member_def demo_committee_def)

end
