(* ===== verification/Voting.thy ===== *)
theory Voting
  imports Growth
begin

text \<open>
  Virtual voting on the popularity of a unit: \<open>pkg/linear/unanimous_voting.go\<close> and
  \<open>super_majority_deciding.go\<close>. The random source is a parameter \<open>rb\<close> (\<open>RandomBytes\<close>, with
  \<^const>\<open>None\<close> for nil), \<open>mq\<close> the quorum size. A nil slice of random bytes makes \<open>coinToss\<close> panic,
  so votes are computed in the option type of panics.
\<close>

section \<open>Votes\<close>

datatype vote = popular | unpopular | undecided

definition firstVotingRound :: int where
  "firstVotingRound = 1"

record votingResult =
  vr_popular :: u16
  vr_unpopular :: u16

type_synonym votingMemo = "hash \<rightharpoonup> vote"
type_synonym randomBytes = "u16 \<Rightarrow> int \<Rightarrow> bytes option"

record unanimousVoter =
  uv_uc :: Unit
  zeroVoteRoundForCommonVote :: int
  commonVoteDeterministicPrefix :: int
  votingMemo :: votingMemo

definition newUnanimousVoter :: "Unit \<Rightarrow> int \<Rightarrow> int \<Rightarrow> unanimousVoter" where
  "newUnanimousVoter uc prefix zeroRound =
     \<lparr>uv_uc = uc, zeroVoteRoundForCommonVote = zeroRound, commonVoteDeterministicPrefix = prefix,
      votingMemo = Map.empty\<rparr>"

definition dispose :: "unanimousVoter \<Rightarrow> unanimousVoter" where
  "dispose uv = uv\<lparr>votingMemo := Map.empty\<rparr>"

definition initialVote :: "Unit \<Rightarrow> Unit \<Rightarrow> vote" where
  "initialVote uc u = (if Above (Some u) (Some uc) then popular else unpopular)"

definition coinToss :: "randomBytes \<Rightarrow> Unit \<Rightarrow> int \<Rightarrow> bool go" where
  "coinToss rb uc level =
     do { bs \<leftarrow> rb (Creator uc) level; b \<leftarrow> nth_opt bs 0; Some (b AND 1 = 0) }"

definition CommonVote :: "randomBytes \<Rightarrow> unanimousVoter \<Rightarrow> int \<Rightarrow> vote go" where
  "CommonVote rb uv level =
     (let round = level - Level (uv_uc uv) in
      if round \<le> firstVotingRound then Some undecided
      else if round \<le> commonVoteDeterministicPrefix uv then
        (if round = zeroVoteRoundForCommonVote uv then Some unpopular else Some popular)
      else do { c \<leftarrow> coinToss rb (uv_uc uv) (level + 1);
                Some (if c then popular else unpopular) })"

text \<open>
  \<open>lazyCommonVote\<close> calls \<open>CommonVote\<close> at its first use only and keeps the value; the vote is
  substituted for an undecided one.
\<close>

definition or_common :: "vote go \<Rightarrow> vote \<Rightarrow> vote go" where
  "or_common commonVote result = (if result = undecided then commonVote else Some result)"

definition superMajority :: "(u16 \<Rightarrow> u16) \<Rightarrow> u16 \<Rightarrow> votingResult \<Rightarrow> vote" where
  "superMajority mq n votes =
     (if vr_popular votes \<ge> mq n then popular
      else if vr_unpopular votes \<ge> mq n then unpopular
      else undecided)"

section \<open>Prime ancestors\<close>

text \<open>The inner loop of \<open>voteUsingPrimeAncestors\<close>: down the predecessors while the level allows.\<close>

function primeAncestor :: "int \<Rightarrow> Unit \<Rightarrow> Unit" where
  "primeAncestor l v =
     (if Level v \<ge> l then
        (case Predecessor v of
           None \<Rightarrow> v
         | Some p \<Rightarrow> if Level p \<ge> l then primeAncestor l p else v)
      else v)"
  by pat_completeness auto
termination
  by (relation "measure (\<lambda>(_, v). size v)") (auto dest: Predecessor_size)

declare primeAncestor.simps [simp del]

text \<open>The loop over one floor, with the flags \<open>votesOne\<close>, \<open>votesZero\<close> and \<open>finish\<close>.\<close>

fun vote_floor ::
  "int \<Rightarrow> (Unit \<Rightarrow> 's \<Rightarrow> ((vote \<times> bool) \<times> 's) go) \<Rightarrow> Unit list \<Rightarrow> bool \<Rightarrow> bool \<Rightarrow> bool \<Rightarrow> 's
   \<Rightarrow> ((bool \<times> bool \<times> bool) \<times> 's) go" where
  "vote_floor l voter [] one zero finish s = Some ((one, zero, finish), s)"
| "vote_floor l voter (w # ws) one zero finish s =
     (let v = primeAncestor l w in
      if Level v \<noteq> l then vote_floor l voter ws one zero finish s
      else do { ((vt, finish'), s') \<leftarrow> voter v s;
                let one' = (one \<or> vt = popular);
                let zero' = (zero \<or> vt = unpopular);
                if finish' \<or> (one' \<and> zero') then Some ((one', zero', finish'), s')
                else vote_floor l voter ws one' zero' finish' s' })"

fun vote_pids ::
  "Unit \<Rightarrow> (Unit \<Rightarrow> 's \<Rightarrow> ((vote \<times> bool) \<times> 's) go) \<Rightarrow> u16 list \<Rightarrow> votingResult \<Rightarrow> 's
   \<Rightarrow> (votingResult \<times> 's) go" where
  "vote_pids u voter [] votes s = Some (votes, s)"
| "vote_pids u voter (pid # ps) votes s =
     do { ((one, zero, finish), s') \<leftarrow> vote_floor (Level u - 1) voter (Floor u pid) False False False s;
          let votes' = votes\<lparr>vr_popular := vr_popular votes + (if one then 1 else 0),
                             vr_unpopular := vr_unpopular votes + (if zero then 1 else 0)\<rparr>;
          if finish then Some (votes', s') else vote_pids u voter ps votes' s' }"

definition voteUsingPrimeAncestors ::
  "Unit \<Rightarrow> (Unit \<Rightarrow> 's \<Rightarrow> ((vote \<times> bool) \<times> 's) go) \<Rightarrow> 's \<Rightarrow> (votingResult \<times> 's) go" where
  "voteUsingPrimeAncestors u voter s =
     vote_pids u voter (map of_nat [0..<length (Parents u)]) \<lparr>vr_popular = 0, vr_unpopular = 0\<rparr> s"

section \<open>Voting\<close>

text \<open>
  The closure of \<open>VoteUsing\<close>: it captures the pointer \<open>lastVote\<close> and, through the recursive call,
  the memo.
\<close>

definition unanimous_step ::
  "vote go \<Rightarrow> (Unit \<Rightarrow> votingMemo \<Rightarrow> (vote \<times> votingMemo) go)
   \<Rightarrow> Unit \<Rightarrow> vote option \<times> votingMemo \<Rightarrow> ((vote \<times> bool) \<times> (vote option \<times> votingMemo)) go" where
  "unanimous_step commonVote voteUsing uPrA s =
     (case s of (lastVote, memo) \<Rightarrow>
        do { (r, memo') \<leftarrow> voteUsing uPrA memo;
             result \<leftarrow> or_common commonVote r;
             case lastVote of
               None \<Rightarrow> Some ((result, False), (Some result, memo'))
             | Some l \<Rightarrow>
                 if l \<noteq> result then Some ((result, True), (Some undecided, memo'))
                 else Some ((result, False), (Some l, memo')) })"

text \<open>
  \<open>VoteUsing\<close> for a unit \<open>k\<close> levels above the candidate. A prime ancestor is exactly one level
  lower, so the recursive calls are at \<open>k - 1\<close>.
\<close>

fun VoteUsing_round :: "randomBytes \<Rightarrow> unanimousVoter \<Rightarrow> nat \<Rightarrow> Unit \<Rightarrow> votingMemo \<Rightarrow> (vote \<times> votingMemo) go" where
  "VoteUsing_round rb uv 0 u memo = Some (undecided, memo)"
| "VoteUsing_round rb uv (Suc k) u memo =
     (case memo (Hash u) of
        Some cachedResult \<Rightarrow> Some (cachedResult, memo)
      | None \<Rightarrow>
          do { (result, memo') \<leftarrow>
                 (if k = 0 then Some (initialVote (uv_uc uv) u, memo)
                  else do { (_, (lastVote, memo')) \<leftarrow>
                              voteUsingPrimeAncestors u
                                (unanimous_step (CommonVote rb uv (Level u - 1)) (VoteUsing_round rb uv k))
                                (None, memo);
                            Some (case lastVote of None \<Rightarrow> undecided | Some v \<Rightarrow> v, memo') });
               Some (result, memo'(Hash u \<mapsto> result)) })"

definition VoteUsing :: "randomBytes \<Rightarrow> unanimousVoter \<Rightarrow> Unit \<Rightarrow> votingMemo \<Rightarrow> (vote \<times> votingMemo) go" where
  "VoteUsing rb uv u memo = VoteUsing_round rb uv (nat (Level u - Level (uv_uc uv))) u memo"

section \<open>Deciding\<close>

record superMajorityDecider =
  smd_uv :: unanimousVoter
  smd_decision :: vote
  smd_decisionLevel :: int

definition newSuperMajorityDecider :: "Unit \<Rightarrow> int \<Rightarrow> int \<Rightarrow> superMajorityDecider" where
  "newSuperMajorityDecider uc prefix zeroRound =
     \<lparr>smd_uv = newUnanimousVoter uc prefix zeroRound, smd_decision = undecided, smd_decisionLevel = -1\<rparr>"

definition decide_step ::
  "(u16 \<Rightarrow> u16) \<Rightarrow> u16 \<Rightarrow> vote go \<Rightarrow> (Unit \<Rightarrow> votingMemo \<Rightarrow> (vote \<times> votingMemo) go)
   \<Rightarrow> Unit \<Rightarrow> votingResult \<times> votingMemo \<Rightarrow> ((vote \<times> bool) \<times> (votingResult \<times> votingMemo)) go" where
  "decide_step mq n commonVote voteUsing uPrA s =
     (case s of (vr, memo) \<Rightarrow>
        do { (r, memo') \<leftarrow> voteUsing uPrA memo;
             result \<leftarrow> or_common commonVote r;
             let vr' = (case result of
                          popular \<Rightarrow> vr\<lparr>vr_popular := vr_popular vr + 1\<rparr>
                        | unpopular \<Rightarrow> vr\<lparr>vr_unpopular := vr_unpopular vr + 1\<rparr>
                        | undecided \<Rightarrow> vr);
             if result \<noteq> undecided then
               Some ((result, superMajority mq n vr' \<noteq> undecided), (vr', memo'))
             else
               (let remaining = n - Creator uPrA - 1;
                    test = \<lparr>vr_popular = vr_popular vr' + remaining, vr_unpopular = vr_unpopular vr' + remaining\<rparr>
                in Some ((result, superMajority mq n test = undecided), (vr', memo'))) })"

definition decide_vote ::
  "randomBytes \<Rightarrow> (u16 \<Rightarrow> u16) \<Rightarrow> u16 \<Rightarrow> unanimousVoter \<Rightarrow> Unit \<Rightarrow> votingMemo \<Rightarrow> (vote \<times> votingMemo) go" where
  "decide_vote rb mq n uv u memo =
     do { (result, (_, memo')) \<leftarrow>
            voteUsingPrimeAncestors u
              (decide_step mq n (CommonVote rb uv (Level u - 1)) (VoteUsing rb uv))
              (\<lparr>vr_popular = 0, vr_unpopular = 0\<rparr>, memo);
          Some (superMajority mq n result, memo') }"

definition getMaxDecideLevel :: "unanimousVoter \<Rightarrow> int \<Rightarrow> int" where
  "getMaxDecideLevel uv dagMaxLevel =
     (let deterministicLevel = Level (uv_uc uv) + commonVoteDeterministicPrefix uv in
      if dagMaxLevel - 2 < deterministicLevel then
        (if deterministicLevel > dagMaxLevel then dagMaxLevel else deterministicLevel)
      else dagMaxLevel - 2)"

text \<open>The closure given to \<open>Iterate\<close>, over the primes of one process, then over all processes.\<close>

fun decide_primes ::
  "randomBytes \<Rightarrow> (u16 \<Rightarrow> u16) \<Rightarrow> u16 \<Rightarrow> unanimousVoter \<Rightarrow> vote go \<Rightarrow> Unit list \<Rightarrow> votingMemo \<Rightarrow> (vote \<times> votingMemo) go" where
  "decide_primes rb mq n uv commonVote [] memo = Some (undecided, memo)"
| "decide_primes rb mq n uv commonVote (v # vs) memo =
     do { (vDecision, memo') \<leftarrow> decide_vote rb mq n uv v memo;
          if vDecision \<noteq> undecided then
            do { c \<leftarrow> commonVote;
                 if vDecision = c then Some (vDecision, memo')
                 else decide_primes rb mq n uv commonVote vs memo' }
          else decide_primes rb mq n uv commonVote vs memo' }"

fun decide_level ::
  "randomBytes \<Rightarrow> (u16 \<Rightarrow> u16) \<Rightarrow> u16 \<Rightarrow> unanimousVoter \<Rightarrow> vote go \<Rightarrow> Unit list list \<Rightarrow> votingMemo \<Rightarrow> (vote \<times> votingMemo) go" where
  "decide_level rb mq n uv commonVote [] memo = Some (undecided, memo)"
| "decide_level rb mq n uv commonVote (primes # rest) memo =
     do { (decision, memo') \<leftarrow> decide_primes rb mq n uv commonVote primes memo;
          if decision \<noteq> undecided then Some (decision, memo')
          else decide_level rb mq n uv commonVote rest memo' }"

fun decide_levels ::
  "randomBytes \<Rightarrow> (u16 \<Rightarrow> u16) \<Rightarrow> dagcore \<Rightarrow> unanimousVoter \<Rightarrow> int list \<Rightarrow> votingMemo \<Rightarrow> ((vote \<times> int) \<times> votingMemo) go" where
  "decide_levels rb mq d uv [] memo = Some ((undecided, -1), memo)"
| "decide_levels rb mq d uv (level # ls) memo =
     do { (decision, memo') \<leftarrow>
            decide_level rb mq (nProc d) uv (CommonVote rb uv level) (contents (UnitsOnLevel d level)) memo;
          if decision \<noteq> undecided then Some ((decision, level), memo')
          else decide_levels rb mq d uv ls memo' }"

text \<open>
  \<open>DecideUnitIsPopular\<close>. For a decision made earlier it returns the named result
  \<open>decisionLevel\<close>, which is still zero, and not the stored level.
\<close>

definition DecideUnitIsPopular ::
  "randomBytes \<Rightarrow> (u16 \<Rightarrow> u16) \<Rightarrow> dagcore \<Rightarrow> superMajorityDecider \<Rightarrow> int \<Rightarrow> ((vote \<times> int) \<times> superMajorityDecider) go" where
  "DecideUnitIsPopular rb mq d smd dagMaxLevel =
     (if smd_decision smd \<noteq> undecided then Some ((smd_decision smd, 0), smd)
      else
        let uv = smd_uv smd in
        do { ((decision, level), memo) \<leftarrow>
               decide_levels rb mq d uv
                 [Level (uv_uc uv) + firstVotingRound + 1..getMaxDecideLevel uv dagMaxLevel] (votingMemo uv);
             if decision \<noteq> undecided then
               Some ((decision, level),
                     smd\<lparr>smd_decision := decision, smd_decisionLevel := level, smd_uv := dispose uv\<rparr>)
             else Some ((undecided, -1), smd\<lparr>smd_uv := uv\<lparr>votingMemo := memo\<rparr>\<rparr>) })"

end
