(* ===== verification/Sorting_Slices.thy ===== *)
theory Sorting_Slices
  imports Preunits
begin

text \<open>
  Go's \<open>sort.Slice\<close>. The library sorts in place by a strict order; which of several possible
  results it gives for incomparable elements is not specified. The model is an insertion sort;
  \<open>sort_Slice_unique\<close> says that for a strict total order every sorting algorithm gives the same
  result, so on the distinct keys the sources sort by nothing depends on this choice.
\<close>

fun insert_less :: "('a \<Rightarrow> 'a \<Rightarrow> bool) \<Rightarrow> 'a \<Rightarrow> 'a list \<Rightarrow> 'a list" where
  "insert_less lt x [] = [x]"
| "insert_less lt x (y # ys) = (if lt x y then x # y # ys else y # insert_less lt x ys)"

fun sort_Slice :: "('a \<Rightarrow> 'a \<Rightarrow> bool) \<Rightarrow> 'a list \<Rightarrow> 'a list" where
  "sort_Slice lt [] = []"
| "sort_Slice lt (x # xs) = insert_less lt x (sort_Slice lt xs)"

lemma mset_insert_less [simp]: "mset (insert_less lt x xs) = add_mset x (mset xs)"
  by (induction xs) auto

lemma mset_sort_Slice [simp]: "mset (sort_Slice lt xs) = mset xs"
  by (induction xs) auto

lemma set_sort_Slice [simp]: "set (sort_Slice lt xs) = set xs"
  by (metis mset_sort_Slice set_mset_mset)

lemma length_sort_Slice [simp]: "length (sort_Slice lt xs) = length xs"
  by (metis mset_sort_Slice size_mset)

definition strict_total_on :: "'a set \<Rightarrow> ('a \<Rightarrow> 'a \<Rightarrow> bool) \<Rightarrow> bool" where
  "strict_total_on A lt \<longleftrightarrow>
     (\<forall>x \<in> A. \<not> lt x x) \<and> (\<forall>x \<in> A. \<forall>y \<in> A. \<forall>z \<in> A. lt x y \<longrightarrow> lt y z \<longrightarrow> lt x z)
     \<and> (\<forall>x \<in> A. \<forall>y \<in> A. x \<noteq> y \<longrightarrow> lt x y \<or> lt y x)"

lemma strict_total_onD:
  assumes "strict_total_on A lt"
  shows "x \<in> A \<Longrightarrow> \<not> lt x x"
    and "x \<in> A \<Longrightarrow> y \<in> A \<Longrightarrow> z \<in> A \<Longrightarrow> lt x y \<Longrightarrow> lt y z \<Longrightarrow> lt x z"
    and "x \<in> A \<Longrightarrow> y \<in> A \<Longrightarrow> x \<noteq> y \<Longrightarrow> lt x y \<or> lt y x"
  using assms unfolding strict_total_on_def by blast+

lemma strict_total_on_mono: "strict_total_on A lt \<Longrightarrow> B \<subseteq> A \<Longrightarrow> strict_total_on B lt"
  unfolding strict_total_on_def by blast

lemma set_insert_less: "set (insert_less lt x xs) = insert x (set xs)"
  by (metis mset_insert_less set_mset_add_mset_insert set_mset_mset)

lemma insert_less_sorted:
  "strict_total_on (insert x (set xs)) lt \<Longrightarrow> sorted_wrt lt xs \<Longrightarrow> x \<notin> set xs \<Longrightarrow>
   sorted_wrt lt (insert_less lt x xs)"
proof (induction xs)
  case (Cons y ys)
  note t = strict_total_onD [OF Cons.prems(1)]
  show ?case
  proof (cases "lt x y")
    case True
    then have "\<forall>z \<in> set ys. lt x z" using t(2) [of x y] Cons.prems(2) by auto
    then show ?thesis using Cons.prems(2) True by simp
  next
    case False
    then have "lt y x" using t(3) [of x y] Cons.prems(3) by auto
    moreover have "sorted_wrt lt (insert_less lt x ys)"
      using Cons.IH strict_total_on_mono [OF Cons.prems(1)] Cons.prems(2,3) by auto
    ultimately show ?thesis using False Cons.prems(2) by (simp add: set_insert_less)
  qed
qed simp

lemma sort_Slice_sorted:
  "strict_total_on (set xs) lt \<Longrightarrow> distinct xs \<Longrightarrow> sorted_wrt lt (sort_Slice lt xs)"
proof (induction xs)
  case (Cons x xs)
  have "sorted_wrt lt (sort_Slice lt xs)"
    using Cons.IH strict_total_on_mono [OF Cons.prems(1)] Cons.prems(2) by auto
  then show ?case using insert_less_sorted [of x "sort_Slice lt xs" lt] Cons.prems by simp
qed simp

lemma sorted_unique:
  assumes "strict_total_on (set xs) lt"
  shows "sorted_wrt lt xs \<Longrightarrow> sorted_wrt lt ys \<Longrightarrow> set ys = set xs \<Longrightarrow> distinct xs \<Longrightarrow> distinct ys \<Longrightarrow> xs = ys"
  using assms
proof (induction xs arbitrary: ys)
  case (Cons x xs)
  note t = strict_total_onD [OF Cons.prems(6)]
  obtain y ys' where ys: "ys = y # ys'" using Cons.prems(3) by (cases ys) auto
  have "x = y"
  proof (rule ccontr)
    assume "x \<noteq> y"
    then have "x \<in> set ys'" "y \<in> set xs" using Cons.prems(3) ys by auto
    then have "lt y x" "lt x y" using Cons.prems(1,2) ys by auto
    then show False using t(1,2) [of x] t(2) [of x y x] Cons.prems(3) ys by (metis list.set_intros(1))
  qed
  moreover have "set ys' = set xs" using Cons.prems(3-5) ys \<open>x = y\<close> by (metis distinct.simps(2) insert_ident list.simps(15))
  then have "xs = ys'"
    using Cons.prems ys strict_total_on_mono [OF Cons.prems(6)] by (intro Cons.IH) auto
  ultimately show ?case using ys by simp
qed simp

lemma sort_Slice_unique:
  assumes "strict_total_on (set xs) lt" "distinct xs" "mset ys = mset xs" "sorted_wrt lt ys"
  shows "ys = sort_Slice lt xs"
proof (rule sorted_unique)
  show "strict_total_on (set ys) lt" using assms(1,3) by (metis set_mset_mset)
  show "distinct ys" using assms(2,3) by (metis mset_eq_imp_distinct_iff)
  then show "distinct (sort_Slice lt xs)" by (metis assms(3) mset_sort_Slice mset_eq_imp_distinct_iff)
  show "set (sort_Slice lt xs) = set ys" using assms(3) by (metis mset_sort_Slice set_mset_mset)
qed (use assms sort_Slice_sorted in auto)

lemma sort_Slice_cong:
  assumes "strict_total_on (set xs) lt" "distinct xs" "mset ys = mset xs"
  shows "sort_Slice lt ys = sort_Slice lt xs"
proof (rule sort_Slice_unique [OF assms(1,2)])
  have "set ys = set xs" "distinct ys" using assms by (metis set_mset_mset, metis mset_eq_imp_distinct_iff)
  then show "sorted_wrt lt (sort_Slice lt ys)" using sort_Slice_sorted assms(1) by metis
qed (simp add: assms(3))

text \<open>Orders by the bytes of distinct hashes of one length.\<close>

lemma strict_total_on_LessThan:
  assumes "inj_on f A" "\<And>x. x \<in> A \<Longrightarrow> length (f x) = n"
  shows "strict_total_on A (\<lambda>x y. LessThan (f x) (f y))"
  unfolding strict_total_on_def
proof (intro conjI ballI impI)
  show "LessThan (f x) (f z)" if "LessThan (f x) (f y)" "LessThan (f y) (f z)" for x y z
    using LessThan_trans that by blast
  show "LessThan (f x) (f y) \<or> LessThan (f y) (f x)" if "x \<in> A" "y \<in> A" "x \<noteq> y" for x y
    using that assms by (intro LessThan_total) (auto dest: inj_onD)
qed simp

end
