(* ===== verification/CRP.thy ===== *)
theory CRP
  imports Voting Sorting_Slices
begin

text \<open>
  The common random permutation of the units on a level (\<open>pkg/linear/crp.go\<close>). The random source
  is the parameter \<open>rb\<close> (\<open>RandomBytes\<close>, with \<^const>\<open>None\<close> for nil) and the hash function
  \<open>sha3.ShakeSum128\<close> on 32 bytes of output is the parameter \<open>shake\<close>. The theorems say when the two
  parts of the split are a permutation of the processes, that the iteration visits the units of the
  level exactly once, and that two processes visit the units they both have in the same order.
\<close>

section \<open>Definitions\<close>

text \<open>Go's remainder \<open>a % b\<close> for positive \<open>b\<close>: it has the sign of \<open>a\<close>.\<close>

definition go_rem :: "int \<Rightarrow> int \<Rightarrow> int" where
  "go_rem a b = (if 0 \<le> a then a mod b else - ((- a) mod b))"

definition splitProcesses :: "u16 \<Rightarrow> u16 \<Rightarrow> int \<Rightarrow> Unit option \<Rightarrow> u16 list \<times> u16 list" where
  "splitProcesses n prefixLen level tu =
     (let prefixLen = (if prefixLen > n then n else prefixLen);
          ps = map (\<lambda>pid. of_int (go_rem (int pid + level) (int (unat n)))) [0..<unat n];
          ps = (case tu of None \<Rightarrow> ps | Some t \<Rightarrow> map (\<lambda>p. (p + Creator t) mod n) ps)
      in (take (unat prefixLen) ps, drop (unat prefixLen) ps))"

definition defaultPermutation :: "dagcore \<Rightarrow> int \<Rightarrow> u16 list \<Rightarrow> Unit list" where
  "defaultPermutation d level ps =
     sort_Slice (\<lambda>u v. LessThan (Hash u) (Hash v)) (concat (map (Get (UnitsOnLevel d level)) ps))"

text \<open>
  The loop of \<open>randomPermutation\<close>: the units of the processes with their priorities, or
  \<^const>\<open>None\<close> when the random bytes of a process with units on the level are not available.
\<close>

fun priorities ::
  "(bytes \<Rightarrow> bytes) \<Rightarrow> randomBytes \<Rightarrow> slottedUnits \<Rightarrow> int \<Rightarrow> u16 list \<Rightarrow> (Unit \<times> bytes) list option" where
  "priorities shake rb allUnitsOnLevel level [] = Some []"
| "priorities shake rb allUnitsOnLevel level (pid # ps) =
     (let us = Get allUnitsOnLevel pid in
      if us = [] then priorities shake rb allUnitsOnLevel level ps
      else do { bs \<leftarrow> rb pid (level + 5);
                rest \<leftarrow> priorities shake rb allUnitsOnLevel level ps;
                Some (map (\<lambda>u. (u, shake (bs @ Hash u))) us @ rest) })"

text \<open>
  \<open>randomPermutation\<close>. Sorting compares two elements of equal priority whenever there are such
  elements, and the comparison panics: the outer \<^const>\<open>None\<close>. The inner one is the result
  \<open>nil, false\<close>.
\<close>

definition randomPermutation ::
  "(bytes \<Rightarrow> bytes) \<Rightarrow> randomBytes \<Rightarrow> dagcore \<Rightarrow> int \<Rightarrow> u16 list \<Rightarrow> Unit list option go" where
  "randomPermutation shake rb d level ps =
     (case priorities shake rb (UnitsOnLevel d level) level ps of
        None \<Rightarrow> Some None
      | Some prs \<Rightarrow>
          if distinct (map snd prs) then
            Some (Some (map fst (sort_Slice (\<lambda>x y. LessThan (snd x) (snd y)) prs)))
          else None)"

text \<open>
  \<open>work\<close> is a closure over a state of type \<open>'s\<close>; it returns whether to go on, or panics. The two
  loops of \<open>CRPIterate\<close> stop at the first false.
\<close>

fun iterate_units :: "(Unit \<Rightarrow> 's \<Rightarrow> (bool \<times> 's) go) \<Rightarrow> Unit list \<Rightarrow> 's \<Rightarrow> (bool \<times> 's) go" where
  "iterate_units work [] s = Some (True, s)"
| "iterate_units work (u # us) s =
     do { (go_on, s') \<leftarrow> work u s; if go_on then iterate_units work us s' else Some (False, s') }"

definition CRPIterate ::
  "(bytes \<Rightarrow> bytes) \<Rightarrow> randomBytes \<Rightarrow> dagcore \<Rightarrow> u16 \<Rightarrow> int \<Rightarrow> Unit option
   \<Rightarrow> (Unit \<Rightarrow> 's \<Rightarrow> (bool \<times> 's) go) \<Rightarrow> 's \<Rightarrow> (bool \<times> 's) go" where
  "CRPIterate shake rb d crpFixedPrefix level previousTU work s =
     (case splitProcesses (nProc d) crpFixedPrefix level previousTU of (prefix, suffix) \<Rightarrow>
        do { (go_on, s1) \<leftarrow> iterate_units work (defaultPermutation d level prefix) s;
             if \<not> go_on then Some (True, s1)
             else do { perm \<leftarrow> randomPermutation shake rb d level suffix;
                       case perm of
                         None \<Rightarrow> Some (False, s1)
                       | Some us \<Rightarrow> do { (_, s2) \<leftarrow> iterate_units work us s1; Some (True, s2) } } })"

section \<open>The split is a permutation of the processes\<close>

lemma splitProcesses_concat:
  "fst (splitProcesses n k l tu) @ snd (splitProcesses n k l tu) =
     map (\<lambda>i. let p = of_int (go_rem (int i + l) (int (unat n))) in
              case tu of None \<Rightarrow> p | Some t \<Rightarrow> (p + Creator t) mod n) [0..<unat n]"
  by (cases tu) (simp_all add: splitProcesses_def Let_def)

lemma inj_on_shift_mod:
  assumes "0 < m"
  shows "inj_on (\<lambda>i. (i + c) mod m) {0..<m :: nat}"
proof (rule linorder_inj_onI')
  fix i j assume a: "i \<in> {0..<m}" "j \<in> {0..<m}" "i < j"
  show "(i + c) mod m \<noteq> (j + c) mod m"
  proof
    assume "(i + c) mod m = (j + c) mod m"
    then have "m dvd j - i" using mod_eq_dvd_iff_nat [of "i + c" "j + c" m] a(3) by simp
    then show False using a by (auto dest!: dvd_imp_le)
  qed
qed

lemma word_of_nat_unat_id: "of_nat (unat x) = (x :: 'a::len word)"
  by simp

text \<open>A rotation of the processes, as long as the sum of two of them fits in 16 bits.\<close>

lemma splitProcesses_rotation:
  assumes l: "0 \<le> l" and fit: "unat n \<le> 32768" and c: "\<And>t. tu = Some t \<Longrightarrow> Creator t < n"
  shows "fst (splitProcesses n k l tu) @ snd (splitProcesses n k l tu) =
    map (\<lambda>i. of_nat ((i + (nat l + (case tu of None \<Rightarrow> 0 | Some t \<Rightarrow> unat (Creator t)))) mod unat n)) [0..<unat n]"
  unfolding splitProcesses_concat
proof (rule map_cong [OF HOL.refl])
  fix i assume i: "i \<in> set [0..<unat n]"
  define a where "a = (i + nat l) mod unat n"
  have an: "a < unat n" using i by (simp add: a_def)
  have "go_rem (int i + l) (int (unat n)) = int a"
    using l by (simp add: go_rem_def a_def zmod_int)
  then have p: "(of_int (go_rem (int i + l) (int (unat n))) :: u16) = of_nat a" by simp
  show "(let p = of_int (go_rem (int i + l) (int (unat n))) in case tu of None \<Rightarrow> p | Some t \<Rightarrow> (p + Creator t) mod n)
      = of_nat ((i + (nat l + (case tu of None \<Rightarrow> 0 | Some t \<Rightarrow> unat (Creator t)))) mod unat n)"
  proof (cases tu)
    case None
    then show ?thesis using p by (simp add: a_def Let_def)
  next
    case (Some t)
    have ct: "unat (Creator t) < unat n" using c [OF Some] by (simp add: word_less_nat_alt)
    have ua: "unat (of_nat a :: u16) = a" using an by (rule unat_of_nat_less)
    have "unat ((of_nat a :: u16) + Creator t) = a + unat (Creator t)"
      using ua ct an fit by (subst unat_add_lem [THEN iffD1]) auto
    then have "unat (((of_nat a :: u16) + Creator t) mod n) = (a + unat (Creator t)) mod unat n"
      by (simp add: unat_mod_distrib)
    moreover have "(a + unat (Creator t)) mod unat n = (i + (nat l + unat (Creator t))) mod unat n"
      by (simp add: a_def mod_add_left_eq add.assoc)
    ultimately have "((of_nat a :: u16) + Creator t) mod n = of_nat ((i + (nat l + unat (Creator t))) mod unat n)"
      by (metis word_of_nat_unat_id)
    then show ?thesis using p Some by (simp add: Let_def)
  qed
qed

lemma set_map_rotation:
  assumes "0 < m"
  shows "(\<lambda>i. (i + c) mod m) ` {0..<m :: nat} = {0..<m}"
  using assms by (intro endo_inj_surj inj_on_shift_mod) auto

lemma splitProcesses_mset:
  assumes "0 \<le> level" "unat n \<le> 32768" "\<forall>t. tu = Some t \<longrightarrow> Creator t < n"
    and "splitProcesses n k level tu = (prefix, suffix)"
  shows "mset (prefix @ suffix) = mset (pids n)"
proof -
  let ?c = "nat level + (case tu of None \<Rightarrow> 0 | Some t \<Rightarrow> unat (Creator t))"
  have cat: "prefix @ suffix = map of_nat (map (\<lambda>i. (i + ?c) mod unat n) [0..<unat n])"
    using splitProcesses_rotation [OF assms(1,2), of tu k] assms(3,4) by simp
  have "mset (map (\<lambda>i. (i + ?c) mod unat n) [0..<unat n]) = mset [0..<unat n]"
  proof (cases "unat n = 0")
    case False
    then show ?thesis
      using inj_on_shift_mod [of "unat n" ?c] set_map_rotation [of "unat n" ?c]
      by (intro set_eq_iff_mset_eq_distinct [THEN iffD1]) (auto simp: distinct_map)
  qed simp
  then show ?thesis unfolding cat pids_def by (metis mset_map)
qed

text \<open>
  For at most \<open>2^15\<close> processes, and a previous timing unit of one of them, the two parts of
  \<open>splitProcesses\<close> together are a permutation of the processes, and the first part has the
  configured length or, when that is more than the number of processes, contains all of them.
\<close>

theorem splitProcesses_permutes:
  assumes "0 \<le> level" "unat n \<le> 32768" "\<forall>t. tu = Some t \<longrightarrow> Creator t < n"
    and "splitProcesses n k level tu = (prefix, suffix)"
  shows "mset (prefix @ suffix) = mset (pids n) \<and> length prefix = min (unat k) (unat n)"
proof
  show "mset (prefix @ suffix) = mset (pids n)" by (rule splitProcesses_mset [OF assms])
  show "length prefix = min (unat k) (unat n)"
    using assms(4) by (cases tu) (auto simp: splitProcesses_def Let_def word_less_nat_alt min_def)
qed

theorem splitProcesses_permutes_witness:
  "splitProcesses 4 2 6 None = ([2, 3], [0, 1]) \<and> mset ([2, 3, 0, 1] :: u16 list) = mset (pids 4)"
proof
  show s: "splitProcesses 4 2 6 None = ([2, 3], [0, 1])" by code_simp
  show "mset ([2, 3, 0, 1] :: u16 list) = mset (pids 4)"
    using splitProcesses_permutes [OF _ _ _ s] by simp
qed

text \<open>
  Beyond this bound the sum of two process ids can wrap: with 40000 processes and a previous
  timing unit of process 30000, processes 10000 and 35536 are both sent to process 0, so the split
  is not a permutation and some processes are never visited.
\<close>

theorem splitProcesses_wraps:
  assumes "Creator t = 30000" "splitProcesses 40000 k 0 (Some t) = (prefix, suffix)"
  shows "(prefix @ suffix) ! 10000 = (prefix @ suffix) ! 35536"
proof -
  have "prefix @ suffix = map (\<lambda>i. (of_int (go_rem (int i) 40000) + 30000) mod 40000) [0..<40000]"
    using splitProcesses_concat [of 40000 k 0 "Some t"] assms by (simp add: Let_def)
  then show ?thesis by (simp add: go_rem_def)
qed

theorem splitProcesses_wraps_witness:
  "\<exists>t prefix suffix. Creator t = 30000 \<and> splitProcesses 40000 5 0 (Some t) = (prefix, suffix)
     \<and> (prefix @ suffix) ! 10000 = (prefix @ suffix) ! 35536"
proof -
  define t where "t = freeUnit (demo_pu 30000 (replicate 40000 (-1)) 1) (replicate 40000 None) 0 []"
  have "Creator t = 30000" by (simp add: t_def demo_pu_def Creator_def)
  then show ?thesis using splitProcesses_wraps [of t 5] by (metis prod.exhaust)
qed

section \<open>The order of the units\<close>

definition crp_priority :: "(bytes \<Rightarrow> bytes) \<Rightarrow> randomBytes \<Rightarrow> int \<Rightarrow> Unit \<Rightarrow> bytes" where
  "crp_priority shake rb level u = shake (bytes_of (rb (Creator u) (level + 5)) @ Hash u)"

lemma priorities_eq:
  assumes "\<And>p u. p \<in> set ps \<Longrightarrow> u \<in> set (Get su p) \<Longrightarrow> Creator u = p"
  shows "priorities shake rb su level ps =
    (if \<exists>p \<in> set ps. Get su p \<noteq> [] \<and> rb p (level + 5) = None then None
     else Some (map (\<lambda>u. (u, crp_priority shake rb level u)) (concat (map (Get su) ps))))"
  using assms
proof (induction ps)
  case (Cons p ps)
  then have IH: "priorities shake rb su level ps =
    (if \<exists>p \<in> set ps. Get su p \<noteq> [] \<and> rb p (level + 5) = None then None
     else Some (map (\<lambda>u. (u, crp_priority shake rb level u)) (concat (map (Get su) ps))))" by simp
  show ?case
  proof (cases "rb p (level + 5)")
    case None
    then show ?thesis by (simp add: IH Let_def)
  next
    case (Some bs)
    then have "map (\<lambda>u. (u, shake (bs @ Hash u))) (Get su p) = map (\<lambda>u. (u, crp_priority shake rb level u)) (Get su p)"
      using Cons.prems [of p] by (intro map_cong) (simp_all add: crp_priority_def bytes_of_def)
    then show ?thesis using Some by (simp add: IH Let_def)
  qed
qed simp

text \<open>The units of some processes on a level, in a dag that holds the units \<open>es\<close>.\<close>

definition level_units :: "Unit list \<Rightarrow> int \<Rightarrow> u16 set \<Rightarrow> Unit set" where
  "level_units es l ps = {u \<in> set es. Level u = l \<and> Creator u \<in> ps}"

lemma units_of_pids:
  assumes D: "dag_inv d es" and ps: "distinct ps"
  shows "set (concat (map (Get (UnitsOnLevel d l)) ps)) = level_units es l (set ps)"
    and "distinct (concat (map (Get (UnitsOnLevel d l)) ps))"
proof -
  have e: "concat (map (Get (UnitsOnLevel d l)) ps) = concat (map (\<lambda>k. filter (\<lambda>u. Creator u = k) (filter (\<lambda>u. Level u = l) es)) ps)"
    by (simp add: UnitsOnLevel_inv [OF D] conj_commute cong: map_cong)
  show "set (concat (map (Get (UnitsOnLevel d l)) ps)) = level_units es l (set ps)"
    unfolding e by (auto simp: level_units_def)
  have "distinct es" using units_invD(2) [OF dag_invD(1) [OF D]] by (simp add: distinct_map)
  then have "distinct (filter (\<lambda>x. Creator x \<in> set ps) (filter (\<lambda>u. Level u = l) es))" by simp
  then show "distinct (concat (map (Get (UnitsOnLevel d l)) ps))"
    unfolding e using mset_concat_by_key [OF ps, of Creator "filter (\<lambda>u. Level u = l) es"] by (metis mset_eq_imp_distinct_iff)
qed

lemma defaultPermutation_props:
  assumes D: "dag_inv d es" and ps: "distinct ps" and h: "\<forall>u \<in> set es. length (Hash u) = HashLength"
  shows "set (defaultPermutation d l ps) = level_units es l (set ps)" "distinct (defaultPermutation d l ps)"
    and "sorted_wrt (\<lambda>u v. LessThan (Hash u) (Hash v)) (defaultPermutation d l ps)"
proof -
  note U = units_of_pids [OF D ps]
  show "set (defaultPermutation d l ps) = level_units es l (set ps)" by (simp add: defaultPermutation_def U(1) [simplified])
  show "distinct (defaultPermutation d l ps)"
    unfolding defaultPermutation_def using U(2) by (metis mset_sort_Slice mset_eq_imp_distinct_iff)
  have "strict_total_on (set (concat (map (Get (UnitsOnLevel d l)) ps))) (\<lambda>u v. LessThan (Hash u) (Hash v))"
    unfolding U(1)
  proof (rule strict_total_on_LessThan)
    show "inj_on Hash (level_units es l (set ps))"
      using units_invD(5) [OF dag_invD(1) [OF D]] by (auto simp: level_units_def inj_on_def)
    show "length (Hash u) = HashLength" if "u \<in> level_units es l (set ps)" for u using that h by (simp add: level_units_def)
  qed
  then show "sorted_wrt (\<lambda>u v. LessThan (Hash u) (Hash v)) (defaultPermutation d l ps)"
    unfolding defaultPermutation_def by (rule sort_Slice_sorted [OF _ U(2)])
qed

lemma randomPermutation_props:
  assumes D: "dag_inv d es" and ps: "distinct ps" and sh: "\<forall>x. length (shake x) = 32"
    and r: "randomPermutation shake rb d l ps = Some (Some us)"
  shows "set us = level_units es l (set ps)" "distinct us"
    and "sorted_wrt (\<lambda>u v. LessThan (crp_priority shake rb l u) (crp_priority shake rb l v)) us"
proof -
  let ?us = "concat (map (Get (UnitsOnLevel d l)) ps)" and ?f = "\<lambda>u. (u, crp_priority shake rb l u)"
  let ?lt = "\<lambda>x y. LessThan (snd x) (snd y)"
  note U = units_of_pids [OF D ps]
  have "Creator u = p" if "u \<in> set (Get (UnitsOnLevel d l) p)" for u p using that by (simp add: UnitsOnLevel_inv [OF D])
  note pr = priorities_eq [of ps "UnitsOnLevel d l" shake rb l, OF this]
  have us: "us = map fst (sort_Slice ?lt (map ?f ?us)) \<and> distinct (map snd (map ?f ?us))"
  proof (cases "priorities shake rb (UnitsOnLevel d l) l ps")
    case None
    then show ?thesis using r by (simp add: randomPermutation_def)
  next
    case (Some prs)
    then have "prs = map ?f ?us" using pr by (metis option.distinct(1) option.inject)
    then show ?thesis using r Some by (simp add: randomPermutation_def split: if_splits)
  qed
  have fs: "fst ` ?f ` A = A" for A by force
  show "set us = level_units es l (set ps)" unfolding us [THEN conjunct1] by (simp only: set_map set_sort_Slice fs U(1))
  have "mset us = mset (map fst (map ?f ?us))" 
    unfolding us [THEN conjunct1] by (simp only: mset_map mset_sort_Slice)
  moreover have "map fst (map ?f xs) = xs" for xs by (induction xs) simp_all
  ultimately have "mset us = mset ?us" by (simp only:)
  then show "distinct us" using U(2) by (metis mset_eq_imp_distinct_iff)
  have d: "distinct (map ?f ?us)" "inj_on snd (set (map ?f ?us))" using us [THEN conjunct2] by (simp_all only: distinct_map)
  have "length (snd x) = 32" if "x \<in> set (map ?f ?us)" for x using that sh unfolding crp_priority_def by force
  from sort_Slice_sorted [OF strict_total_on_LessThan [OF d(2) this] d(1)]
  have "sorted_wrt ?lt (sort_Slice ?lt (map ?f ?us))" by simp
  then have "sorted_wrt (\<lambda>x y. LessThan (crp_priority shake rb l (fst x)) (crp_priority shake rb l (fst y))) (sort_Slice ?lt (map ?f ?us))"
    by (rule sorted_wrt_mono_rel [rotated]) auto
  then show "sorted_wrt (\<lambda>u v. LessThan (crp_priority shake rb l u) (crp_priority shake rb l v)) us"
    unfolding us [THEN conjunct1] by (simp add: sorted_wrt_map)
qed

text \<open>
  The order that all processes share: first the units of the prefix by hash, then the others by
  priority.
\<close>

definition crp_before :: "(bytes \<Rightarrow> bytes) \<Rightarrow> randomBytes \<Rightarrow> int \<Rightarrow> u16 set \<Rightarrow> Unit \<Rightarrow> Unit \<Rightarrow> bool" where
  "crp_before shake rb l P u v \<longleftrightarrow>
     (if Creator u \<in> P then Creator v \<in> P \<longrightarrow> LessThan (Hash u) (Hash v)
      else Creator v \<notin> P \<and> LessThan (crp_priority shake rb l u) (crp_priority shake rb l v))"

lemma crp_before_asym: "crp_before shake rb l P u v \<Longrightarrow> \<not> crp_before shake rb l P v u"
  using LessThan_trans [of "Hash u" "Hash v" "Hash u"]
    LessThan_trans [of "crp_priority shake rb l u" "crp_priority shake rb l v" "crp_priority shake rb l u"]
  by (auto simp: crp_before_def split: if_splits)

text \<open>
  A process knows the random bytes of a level once its dag is high enough, so its source \<open>rb\<close> is
  at any time a part of the common source \<open>R\<close>.
\<close>

definition reveals :: "randomBytes \<Rightarrow> randomBytes \<Rightarrow> bool" where
  "reveals rb R \<longleftrightarrow> (\<forall>p l b. rb p l = Some b \<longrightarrow> R p l = Some b)"

lemma reveals_refl [simp]: "reveals rb rb"
  by (simp add: reveals_def)

lemma priorities_reveals:
  "reveals rb R \<Longrightarrow> priorities shake rb su level ps = Some prs \<Longrightarrow> priorities shake R su level ps = Some prs"
  by (induction ps arbitrary: prs) (auto simp: reveals_def Let_def split: bind_splits if_splits)

lemma randomPermutation_reveals:
  "reveals rb R \<Longrightarrow> randomPermutation shake rb d level ps = Some (Some us) \<Longrightarrow>
   randomPermutation shake R d level ps = Some (Some us)"
  using priorities_reveals [of rb R shake "UnitsOnLevel d level" level ps]
  by (auto simp: randomPermutation_def split: option.splits if_splits)

section \<open>Iteration\<close>

lemma sorted_wrt_split: "sorted_wrt R (vs @ u # ws) \<Longrightarrow> v \<in> set (vs @ u # ws) \<Longrightarrow> v \<in> set vs \<or> v = u \<or> R u v"
  by (auto simp: sorted_wrt_append)

text \<open>A loop over the units either visits all of them or stops at one; \<open>Q\<close> holds of those passed.\<close>

lemma iterate_units_cases:
  assumes "\<And>u s s'. u \<in> set us \<Longrightarrow> I s \<Longrightarrow> work u s = Some (True, s') \<Longrightarrow> I s' \<and> Q u"
  shows "iterate_units work us s = Some (b, s') \<Longrightarrow> I s \<Longrightarrow>
    (if b then I s' \<and> (\<forall>u \<in> set us. Q u)
     else \<exists>vs u ws sm. us = vs @ u # ws \<and> (\<forall>v \<in> set vs. Q v) \<and> I sm \<and> work u sm = Some (False, s'))"
  using assms
proof (induction us arbitrary: s)
  case (Cons u us)
  obtain g s1 where w: "work u s = Some (g, s1)" using Cons.prems(1) by (auto split: bind_splits)
  show ?case
  proof (cases g)
    case True
    then have 1: "I s1" "Q u" using Cons.prems w by auto
    have "if b then I s' \<and> (\<forall>u \<in> set us. Q u)
     else \<exists>vs u ws sm. us = vs @ u # ws \<and> (\<forall>v \<in> set vs. Q v) \<and> I sm \<and> work u sm = Some (False, s')"
      by (rule Cons.IH [of s1]) (use Cons.prems w True 1 in auto)
    then show ?thesis using 1(2) by (auto split: if_splits) (metis append_Cons set_ConsD)
  next
    case False
    then have "b = False" "s' = s1" using Cons.prems(1) w by auto
    moreover have "u # us = [] @ u # us" "\<forall>v \<in> set []. Q v" by auto
    ultimately show ?thesis using w False Cons.prems(2) by metis
  qed
qed simp

lemma splitProcesses_parts:
  assumes "0 \<le> level" "unat n \<le> 32768" "\<forall>t. tu = Some t \<longrightarrow> Creator t < n"
    and "splitProcesses n k level tu = (prefix, suffix)"
  shows "distinct prefix" "distinct suffix" "set prefix \<inter> set suffix = {}" "set prefix \<union> set suffix = {p. p < n}"
proof -
  note m = splitProcesses_mset [OF assms]
  have "distinct (prefix @ suffix)" using mset_eq_imp_distinct_iff [OF m] by simp
  then show "distinct prefix" "distinct suffix" "set prefix \<inter> set suffix = {}" by simp_all
  show "set prefix \<union> set suffix = {p. p < n}" using mset_eq_setD [OF m] by simp
qed

text \<open>What an iteration tells about the units of the level that it does not visit.\<close>

lemma CRPIterate_cases:
  assumes D: "dag_inv d es" and h: "\<forall>u \<in> set es. length (Hash u) = HashLength" and sh: "\<forall>x. length (shake x) = 32"
    and sp: "0 \<le> l" "unat (nProc d) \<le> 32768" "\<forall>t. tu = Some t \<longrightarrow> Creator t < nProc d"
    and R: "reveals rb R"
    and it: "CRPIterate shake rb d k l tu work s = Some (r, s')" and I: "I s"
    and step: "\<And>u s s'. u \<in> set es \<Longrightarrow> Level u = l \<Longrightarrow> I s \<Longrightarrow> work u s = Some (True, s') \<Longrightarrow> I s' \<and> Q u"
  obtains (through) "I s'"
    | (stop) u sm where "u \<in> set es" "Level u = l" "I sm" "work u sm = Some (False, s')"
        "\<forall>v \<in> set es. Level v = l \<longrightarrow> v = u \<or> Q v \<or> crp_before shake R l (set (fst (splitProcesses (nProc d) k l tu))) u v"
proof -
  obtain pre suf where ps: "splitProcesses (nProc d) k l tu = (pre, suf)" by fastforce
  note P = splitProcesses_parts [OF sp ps]
  note dp = defaultPermutation_props [OF D P(1) h, of l]
  obtain g s1 where g: "iterate_units work (defaultPermutation d l pre) s = Some (g, s1)"
    using it ps by (auto simp: CRPIterate_def split: bind_splits)
  have lu: "u \<in> set es \<and> Level u = l" if "u \<in> level_units es l A" for u A using that by (simp add: level_units_def)
  have cr: "v \<in> level_units es l (set pre) \<or> v \<in> level_units es l (set suf)" if "v \<in> set es" "Level v = l" for v
    using that P(4) wf_setD(1) [OF units_invD(1) [OF dag_invD(1) [OF D]] that(1)] by (auto simp: level_units_def wf_node_def)
  have np: "Creator v \<notin> set pre" if "v \<in> level_units es l (set suf)" for v using that P(3) by (auto simp: level_units_def)
  have st: "I s' \<and> Q u" if "u \<in> level_units es l A" "I s" "work u s = Some (True, s')" for u s s' A
    using step lu [OF that(1)] that(2,3) by blast
  note c1 = iterate_units_cases [of "defaultPermutation d l pre" I work Q, OF _ g I]
  show thesis
  proof (cases g)
    case False
    then obtain vs u ws sm where w: "defaultPermutation d l pre = vs @ u # ws" "\<forall>v \<in> set vs. Q v" "I sm" "work u sm = Some (False, s1)"
      using c1 st dp(1) by auto
    have s1: "s' = s1" using it ps g False by (simp add: CRPIterate_def)
    have u: "u \<in> level_units es l (set pre)" using w(1) dp(1) by auto
    have "v = u \<or> Q v \<or> crp_before shake R l (set pre) u v" if v: "v \<in> set es" "Level v = l" for v
    proof (cases "v \<in> level_units es l (set pre)")
      case True
      then have "v \<in> set (vs @ u # ws)" using dp(1) w(1) by simp
      from sorted_wrt_split [OF dp(3) [unfolded w(1)] this] show ?thesis
        using w(2) True u by (auto simp: crp_before_def level_units_def)
    next
      case False
      then show ?thesis using cr [OF v] np u by (auto simp: crp_before_def level_units_def)
    qed
    then show ?thesis using stop [of u sm] lu [OF u] w(3,4) s1 ps by simp
  next
    case True
    then have 1: "I s1" "\<forall>u \<in> level_units es l (set pre). Q u" using c1 st dp(1) by auto
    obtain pm where pm: "randomPermutation shake rb d l suf = Some pm"
      using it ps g True by (auto simp: CRPIterate_def split: bind_splits)
    show ?thesis
    proof (cases pm)
      case None
      then show ?thesis using it ps g True pm through 1(1) by (simp add: CRPIterate_def)
    next
      case (Some us)
      obtain b s2 where b: "iterate_units work us s1 = Some (b, s2)" and s2: "s' = s2"
        using it ps g True pm Some by (auto simp: CRPIterate_def split: bind_splits)
      note rp = randomPermutation_props [OF D P(2) sh randomPermutation_reveals [OF R pm [unfolded Some]]]
      note c2 = iterate_units_cases [of us I work Q, OF _ b 1(1)]
      show ?thesis
      proof (cases b)
        case True
        then show ?thesis using c2 st rp(1) through s2 by auto
      next
        case False
        then obtain vs u ws sm where w: "us = vs @ u # ws" "\<forall>v \<in> set vs. Q v" "I sm" "work u sm = Some (False, s2)"
          using c2 st rp(1) by auto
        have u: "u \<in> level_units es l (set suf)" using w(1) rp(1) by auto
        have "v = u \<or> Q v \<or> crp_before shake R l (set pre) u v" if v: "v \<in> set es" "Level v = l" for v
        proof (cases "v \<in> level_units es l (set pre)")
          case False
          then have "v \<in> set (vs @ u # ws)" using rp(1) w(1) cr [OF v] by simp
          from sorted_wrt_split [OF rp(3) [unfolded w(1)] this] show ?thesis
            using w(2) np u False cr [OF v] by (auto simp: crp_before_def)
        qed (use 1(2) in auto)
        then show ?thesis using stop [of u sm] lu [OF u] w(3,4) s2 ps by simp
      qed
    qed
  qed
qed

section \<open>Visiting a whole level\<close>

definition visit :: "Unit \<Rightarrow> Unit list \<Rightarrow> (bool \<times> Unit list) go" where
  "visit u us = Some (True, us @ [u])"

lemma iterate_visit [simp]: "iterate_units visit us acc = Some (True, acc @ us)"
  by (induction us arbitrary: acc) (simp_all add: visit_def)

lemma CRPIterate_visit:
  assumes D: "dag_inv d es" and h: "\<forall>u \<in> set es. length (Hash u) = HashLength" and sh: "\<forall>x. length (shake x) = 32"
    and sp: "0 \<le> l" "unat (nProc d) \<le> 32768" "\<forall>t. tu = Some t \<longrightarrow> Creator t < nProc d"
    and R: "reveals rb R" and it: "CRPIterate shake rb d k l tu visit [] = Some (True, us)"
  shows "distinct us" "set us = {u \<in> set es. Level u = l}"
    and "sorted_wrt (crp_before shake R l (set (fst (splitProcesses (nProc d) k l tu)))) us"
proof -
  obtain pre suf where ps: "splitProcesses (nProc d) k l tu = (pre, suf)" by fastforce
  note P = splitProcesses_parts [OF sp ps]
  note dp = defaultPermutation_props [OF D P(1) h, of l]
  obtain vs where r: "randomPermutation shake rb d l suf = Some (Some vs)" and us: "us = defaultPermutation d l pre @ vs"
    using it ps by (auto simp: CRPIterate_def split: bind_splits option.splits)
  note rp = randomPermutation_props [OF D P(2) sh randomPermutation_reveals [OF R r]]
  have "Creator u < nProc d" if "u \<in> set es" for u
    using wf_setD(1) [OF units_invD(1) [OF dag_invD(1) [OF D]] that] by (simp add: wf_node_def)
  then show "set us = {u \<in> set es. Level u = l}" using P(4) dp(1) rp(1) us by (auto simp: level_units_def)
  have cr: "Creator u \<in> set pre" if "u \<in> set (defaultPermutation d l pre)" for u using that dp(1) by (simp add: level_units_def)
  have cr': "Creator u \<notin> set pre" if "u \<in> set vs" for u using that rp(1) P(3) by (auto simp: level_units_def)
  show "distinct us" using dp(2) rp(2) us cr cr' by auto
  have "sorted_wrt (crp_before shake R l (set pre)) (defaultPermutation d l pre)"
    by (rule sorted_wrt_mono_rel [OF _ dp(3)]) (use cr in \<open>auto simp: crp_before_def\<close>)
  moreover have "sorted_wrt (crp_before shake R l (set pre)) vs"
    by (rule sorted_wrt_mono_rel [OF _ rp(3)]) (use cr' in \<open>auto simp: crp_before_def\<close>)
  ultimately show "sorted_wrt (crp_before shake R l (set (fst (splitProcesses (nProc d) k l tu)))) us"
    using cr cr' us ps by (auto simp: sorted_wrt_append crp_before_def)
qed

lemma sorted_wrt_asym_unique:
  "(\<And>x y. R x y \<Longrightarrow> \<not> R y x) \<Longrightarrow> sorted_wrt R xs \<Longrightarrow> sorted_wrt R ys \<Longrightarrow> distinct xs \<Longrightarrow> distinct ys \<Longrightarrow> set xs = set ys \<Longrightarrow> xs = ys"
proof (induction xs arbitrary: ys)
  case (Cons x xs)
  obtain y ys' where ys: "ys = y # ys'" using Cons.prems(6) by (cases ys) auto
  have "x = y" using Cons.prems ys by (metis list.set_intros(1) set_ConsD sorted_wrt.simps(2))
  moreover have "set xs = set ys'" using Cons.prems(4-6) ys \<open>x = y\<close> by (metis distinct.simps(2) insert_ident list.simps(15))
  ultimately show ?case using Cons.IH [of ys'] Cons.prems ys by simp
qed simp

text \<open>
  C17: an iteration over a level that never stops visits every unit on the level exactly once, and
  two processes whose random sources reveal parts of a common one visit the units they both have in
  the same order, whatever else their dags contain.
\<close>

theorem CRPIterate_common_order:
  assumes "dag_reach mq n d1 es1" "dag_reach mq n d2 es2" "0 < mq n"
    and "\<forall>u \<in> set es1 \<union> set es2. length (Hash u) = HashLength" "\<forall>x. length (shake x) = 32"
    and "0 \<le> l" "unat n \<le> 32768" "\<forall>t. tu = Some t \<longrightarrow> Creator t < n"
    and "reveals rb1 R" "reveals rb2 R"
    and "CRPIterate shake rb1 d1 k l tu visit [] = Some (True, us1)" "CRPIterate shake rb2 d2 k l tu visit [] = Some (True, us2)"
  shows "distinct us1 \<and> set us1 = {u \<in> set es1. Level u = l}
    \<and> filter (\<lambda>u. u \<in> set us2) us1 = filter (\<lambda>u. u \<in> set us1) us2"
proof -
  have D: "dag_inv d1 es1" "nProc d1 = n" "dag_inv d2 es2" "nProc d2 = n"
    using dag_reach_inv [OF assms(1,3)] dag_reach_inv [OF assms(2,3)] by auto
  note v1 = CRPIterate_visit [OF D(1) _ assms(5,6) _ _ assms(9,11), unfolded D(2), OF _ assms(7,8)]
  note v2 = CRPIterate_visit [OF D(3) _ assms(5,6) _ _ assms(10,12), unfolded D(4), OF _ assms(7,8)]
  have h: "\<forall>u \<in> set es1. length (Hash u) = HashLength" "\<forall>u \<in> set es2. length (Hash u) = HashLength" using assms(4) by auto
  have "filter (\<lambda>u. u \<in> set us2) us1 = filter (\<lambda>u. u \<in> set us1) us2"
    by (rule sorted_wrt_asym_unique [where R = "crp_before shake R l (set (fst (splitProcesses n k l tu)))"])
      (use v1 [OF h(1)] v2 [OF h(2)] crp_before_asym in \<open>auto simp: sorted_wrt_filter\<close>)
  then show ?thesis using v1 [OF h(1)] by simp
qed

definition demo_prio :: "bytes \<Rightarrow> bytes" where
  "demo_prio bs = take 32 (drop 1 bs @ replicate 32 0)"

theorem CRPIterate_common_order_witness:
  "\<exists>d. map_option fst demo = Some d \<and> CRPIterate demo_prio (\<lambda>p l. Some [0]) d 1 0 None visit [] = Some (True, [demo_a0, demo_b0])
     \<and> distinct [demo_a0, demo_b0] \<and> set [demo_a0, demo_b0] = {u \<in> set [demo_a0, demo_b0, demo_a1]. Level u = 0}"
proof -
  obtain d where d: "demo = Some (d, [demo_a0, demo_b0, demo_a1])" "dag_reach demo_mq 2 d [demo_a0, demo_b0, demo_a1]"
    by (rule demo_reach)
  have "(case demo of None \<Rightarrow> None | Some (d, _) \<Rightarrow> CRPIterate demo_prio (\<lambda>p l. Some [0]) d 1 0 None visit []) = Some (True, [demo_a0, demo_b0])"
    by code_simp
  then have it: "CRPIterate demo_prio (\<lambda>p l. Some [0]) d 1 0 None visit [] = Some (True, [demo_a0, demo_b0])" unfolding d(1) by simp
  have m: "0 < demo_mq 2" "\<forall>u \<in> set [demo_a0, demo_b0, demo_a1] \<union> set [demo_a0, demo_b0, demo_a1]. length (Hash u) = HashLength"
    by code_simp+
  have n2: "unat (2 :: u16) \<le> 32768" by simp
  have sh: "\<forall>x. length (demo_prio x) = 32" by (simp add: demo_prio_def min_def)
  show ?thesis
    using CRPIterate_common_order [OF d(2,2) m(1,2) sh _ n2 _ reveals_refl reveals_refl it it] d(1) it by auto
qed

end
