(* ===== verification/Timing.thy ===== *)
theory Timing
  imports Growth Sorting_Slices
begin

text \<open>
  Timing rounds (\<open>pkg/linear/timing_round.go\<close>): the units that a timing unit adds to the order,
  divided into layers by a depth-first search and merged with a tie-break. The theorems say that
  the result is a linear extension of the dag order on exactly the new units below the timing
  unit, that the timing unit is its last element and that the order depends only on the set of
  units in each layer.
\<close>

section \<open>Definitions\<close>

record TimingRound =
  tr_currentTU :: Unit
  tr_lastTUs :: "Unit option list"

definition newTimingRound :: "Unit \<Rightarrow> Unit option list \<Rightarrow> TimingRound" where
  "newTimingRound currentTimingUnit lastTimingUnits =
     \<lparr>tr_currentTU = currentTimingUnit, tr_lastTUs = lastTimingUnits\<rparr>"

text \<open>
  \<open>prevTUs[len(prevTUs)-1]\<close> exists, since the extender keeps \<open>ZeroVoteRoundForCommonVote > 0\<close>
  timing units; the empty slice, where Go panics, is mapped to false.
\<close>

definition checkIfAlreadyOrdered :: "Unit \<Rightarrow> Unit option list \<Rightarrow> bool" where
  "checkIfAlreadyOrdered u prevTUs =
     (case rev prevTUs of
        [] \<Rightarrow> False
      | None # _ \<Rightarrow> False
      | Some prevTU # _ \<Rightarrow>
          if Level u > Level prevTU then False
          else list_ex (\<lambda>tu. Above tu (Some u)) (rev prevTUs))"

record layering =
  unitToLayer :: "hash \<Rightarrow> int"
  seenUnits :: "hash \<Rightarrow> bool"
  result :: "Unit list list"

text \<open>The recursive closure \<open>dfs\<close>, with the three captured variables as its state.\<close>

function dfs :: "Unit option list \<Rightarrow> Unit \<Rightarrow> layering \<Rightarrow> layering" where
  "dfs prevTUs u s =
     (case foldl (\<lambda>st uParent. case st of (minLayerBelow, s) \<Rightarrow>
             (case uParent of
                None \<Rightarrow> (minLayerBelow, s)
              | Some p \<Rightarrow>
                  if checkIfAlreadyOrdered p prevTUs then (minLayerBelow, s)
                  else let s' = (if \<not> seenUnits s (Hash p) then dfs prevTUs p s else s) in
                       (if unitToLayer s' (Hash p) > minLayerBelow then unitToLayer s' (Hash p) else minLayerBelow, s')))
           (-1, s\<lparr>seenUnits := (seenUnits s)(Hash u := True)\<rparr>) (Parents u) of
        (minLayerBelow, s') \<Rightarrow>
          let uLayer = minLayerBelow + 1 in
          s'\<lparr>unitToLayer := (unitToLayer s')(Hash u := uLayer),
             result := (if int (length (result s')) \<le> uLayer then result s' @ [[u]]
                        else (result s')[nat uLayer := result s' ! nat uLayer @ [u]])\<rparr>)"
  by pat_completeness auto
termination
  by (relation "measure (\<lambda>(_, u, _). size u)") (auto dest: parent_size)

declare dfs.simps [simp del]

definition getAntichainLayers :: "Unit \<Rightarrow> Unit option list \<Rightarrow> Unit list list" where
  "getAntichainLayers tu prevTUs =
     result (dfs prevTUs tu \<lparr>unitToLayer = (\<lambda>_. 0), seenUnits = (\<lambda>_. False), result = []\<rparr>)"

text \<open>The map \<open>tiebreaker\<close> holds \<open>XOR(totalXOR, h)\<close> at each hash \<open>h\<close>.\<close>

definition mergeLayers :: "Unit list list \<Rightarrow> Unit list" where
  "mergeLayers layers =
     (let totalXOR = foldl XOREqual ZeroHash (map Hash (concat layers));
          tiebreaker = (\<lambda>h. XOR_hash totalXOR h)
      in concat (map (sort_Slice (\<lambda>u v. LessThan (tiebreaker (Hash u)) (tiebreaker (Hash v)))) layers))"

definition OrderedUnits :: "TimingRound \<Rightarrow> Unit list" where
  "OrderedUnits tr = mergeLayers (getAntichainLayers (tr_currentTU tr) (tr_lastTUs tr))"

section \<open>The units of a timing round\<close>

text \<open>What a timing unit orders: everything below it through parents that are not ordered yet.\<close>

inductive in_round :: "(Unit \<Rightarrow> bool) \<Rightarrow> Unit \<Rightarrow> Unit \<Rightarrow> bool" for ordered :: "Unit \<Rightarrow> bool" where
  here: "in_round ordered u u"
| below: "Some p \<in> set (Parents u) \<Longrightarrow> \<not> ordered p \<Longrightarrow> in_round ordered p w \<Longrightarrow> in_round ordered u w"

inductive_cases in_roundE: "in_round ordered u w"

lemma in_round_reaches: "in_round ordered u w \<Longrightarrow> reaches u w"
  by (induction rule: in_round.induct) (auto intro: reaches.step)

lemma in_round_unfold:
  "{w. in_round A u w} = insert u (\<Union>p \<in> {p. Some p \<in> set (Parents u) \<and> \<not> A p}. {w. in_round A p w})"
  by (auto intro: in_round.intros elim: in_roundE)

text \<open>The layer of a unit: one more than the layers of its parents in the round.\<close>

function rank :: "(Unit \<Rightarrow> bool) \<Rightarrow> Unit \<Rightarrow> int" where
  "rank A u =
     foldl (\<lambda>m q. case q of
              None \<Rightarrow> m
            | Some p \<Rightarrow> if A p then m else if rank A p > m then rank A p else m) (-1) (Parents u) + 1"
  by pat_completeness auto
termination
  by (relation "measure (\<lambda>(_, u). size u)") (auto dest: parent_size)

declare rank.simps [simp del]

definition below_max :: "(Unit \<Rightarrow> bool) \<Rightarrow> int \<Rightarrow> Unit option list \<Rightarrow> int" where
  "below_max A m ps = foldl (\<lambda>m q. case q of
              None \<Rightarrow> m
            | Some p \<Rightarrow> if A p then m else if rank A p > m then rank A p else m) m ps"

lemma rank_below: "rank A u = below_max A (-1) (Parents u) + 1"
  by (subst rank.simps) (simp add: below_max_def)

lemma below_max_simps [simp]:
  "below_max A m [] = m"
  "below_max A m (None # ps) = below_max A m ps"
  "below_max A m (Some p # ps) = below_max A (if A p then m else max m (rank A p)) ps"
  by (simp_all add: below_max_def max_def)

lemma below_max_ge: "m \<le> below_max A m ps"
proof (induction ps arbitrary: m)
  case (Cons q ps)
  then show ?case
    by (cases q) (auto intro: order.trans [OF _ Cons.IH])
qed simp

lemma below_max_parent: "Some p \<in> set ps \<Longrightarrow> \<not> A p \<Longrightarrow> rank A p \<le> below_max A m ps"
proof (induction ps arbitrary: m)
  case (Cons q ps)
  show ?case
  proof (cases "q = Some p")
    case True
    then show ?thesis using below_max_ge [of "max m (rank A p)" A ps] Cons.prems(2) by simp
  next
    case False
    then show ?thesis using Cons by (cases q) auto
  qed
qed simp

lemma below_max_witness: "below_max A m ps = m \<or> (\<exists>p. Some p \<in> set ps \<and> \<not> A p \<and> below_max A m ps = rank A p)"
proof (induction ps arbitrary: m)
  case (Cons q ps)
  show ?case
  proof (cases q)
    case None
    then show ?thesis using Cons.IH [of m] by auto
  next
    case (Some p)
    then show ?thesis using Cons.IH [of "if A p then m else max m (rank A p)"] by (auto simp: max_def split: if_splits)
  qed
qed simp

lemma rank_nonneg: "0 \<le> rank A u"
  using below_max_ge [of "-1" A "Parents u"] by (simp add: rank_below)

lemma rank_parent: "Some p \<in> set (Parents u) \<Longrightarrow> \<not> A p \<Longrightarrow> rank A p < rank A u"
  using below_max_parent [of p "Parents u" A "-1"] by (simp add: rank_below)

lemma rank_in_round: "in_round A u w \<Longrightarrow> w = u \<or> rank A w < rank A u"
proof (induction rule: in_round.induct)
  case (below p u w)
  then show ?case using rank_parent [OF below.hyps(1), of A] by auto
qed simp


lemma reaches_size: "reaches u w \<Longrightarrow> size w \<le> size u"
  by (induction rule: reaches.induct) (auto dest: parent_size)

lemma reaches_antisym: "reaches u v \<Longrightarrow> reaches v u \<Longrightarrow> u = v"
  by (erule reachesE) (auto dest!: parent_size reaches_size)

section \<open>The depth-first search\<close>

definition found :: "layering \<Rightarrow> Unit set" where
  "found s = set (concat (result s))"

text \<open>
  The state between calls: the layered units are closed under unordered parents, carry their
  rank, and sit, each once, in the layer of their rank.
\<close>

definition layered :: "(Unit \<Rightarrow> bool) \<Rightarrow> Unit set \<Rightarrow> layering \<Rightarrow> bool" where
  "layered A T s \<longleftrightarrow> found s \<subseteq> T
     \<and> (\<forall>w \<in> found s. (\<forall>p. Some p \<in> set (Parents w) \<longrightarrow> \<not> A p \<longrightarrow> p \<in> found s) \<and> unitToLayer s (Hash w) = rank A w)
     \<and> (\<forall>i < length (result s). \<forall>w \<in> set (result s ! i). rank A w = int i)
     \<and> distinct (concat (result s))"

definition seen_ok :: "Unit set \<Rightarrow> Unit set \<Rightarrow> layering \<Rightarrow> bool" where
  "seen_ok T P s \<longleftrightarrow> (\<forall>w \<in> T. seenUnits s (Hash w) \<longleftrightarrow> w \<in> found s \<union> P)"

lemma layeredD:
  assumes "layered A T s"
  shows "found s \<subseteq> T" "w \<in> found s \<Longrightarrow> Some p \<in> set (Parents w) \<Longrightarrow> \<not> A p \<Longrightarrow> p \<in> found s"
    and "w \<in> found s \<Longrightarrow> unitToLayer s (Hash w) = rank A w"
    and "i < length (result s) \<Longrightarrow> w \<in> set (result s ! i) \<Longrightarrow> rank A w = int i" "distinct (concat (result s))"
  using assms unfolding layered_def by blast+

lemma found_rank:
  assumes "layered A T s" "w \<in> found s"
  shows "rank A w < int (length (result s))" "w \<in> set (result s ! nat (rank A w))"
proof -
  obtain i where "i < length (result s)" "w \<in> set (result s ! i)"
    using assms(2) by (auto simp: found_def in_set_conv_nth) (metis in_set_conv_nth)
  then show "rank A w < int (length (result s))" "w \<in> set (result s ! nat (rank A w))"
    using layeredD(4) [OF assms(1)] by auto
qed

lemma found_closed:
  assumes "layered A T s"
  shows "in_round A u w \<Longrightarrow> u \<in> found s \<Longrightarrow> w \<in> found s"
  by (induction rule: in_round.induct) (auto dest: layeredD(2) [OF assms])

text \<open>Placing the unit in its layer, once its parents in the round are layered.\<close>

lemma set_concat_update:
  "i < length xs \<Longrightarrow> set (concat (xs[i := xs ! i @ [u]])) = insert u (set (concat xs))"
  by (induction xs arbitrary: i) (auto split: nat.splits)

lemma distinct_concat_update:
  "i < length xs \<Longrightarrow> distinct (concat xs) \<Longrightarrow> u \<notin> set (concat xs) \<Longrightarrow> distinct (concat (xs[i := xs ! i @ [u]]))"
proof (induction xs arbitrary: i)
  case (Cons x xs)
  show ?case
  proof (cases i)
    case 0
    then show ?thesis using Cons.prems by auto
  next
    case (Suc j)
    then show ?thesis using Cons set_concat_update [of j xs u] by auto
  qed
qed simp

lemma layered_place:
  assumes L: "layered A T s" and inj: "inj_on Hash T" and u: "u \<in> T" "u \<notin> found s"
    and p: "\<And>p. Some p \<in> set (Parents u) \<Longrightarrow> \<not> A p \<Longrightarrow> p \<in> found s"
  defines "s' \<equiv> s\<lparr>unitToLayer := (unitToLayer s)(Hash u := rank A u),
     result := (if int (length (result s)) \<le> rank A u then result s @ [[u]]
                else (result s)[nat (rank A u) := result s ! nat (rank A u) @ [u]])\<rparr>"
  shows "layered A T s'" "found s' = insert u (found s)"
proof -
  have len: "rank A u \<le> int (length (result s))"
  proof -
    consider "rank A u = 0" | p where "Some p \<in> set (Parents u)" "\<not> A p" "rank A u = rank A p + 1"
      using below_max_witness [of A "-1" "Parents u"] by (auto simp: rank_below)
    then show ?thesis
    proof cases
      case 2
      then show ?thesis using found_rank(1) [OF L p] by fastforce
    qed simp
  qed
  show f: "found s' = insert u (found s)"
  proof (cases "int (length (result s)) \<le> rank A u")
    case False
    then have "nat (rank A u) < length (result s)" using rank_nonneg [of A u] by simp
    then show ?thesis using set_concat_update [of "nat (rank A u)" "result s" u] False by (simp add: s'_def found_def)
  qed (simp add: s'_def found_def)
  have r: "\<forall>i < length (result s'). \<forall>w \<in> set (result s' ! i). rank A w = int i"
  proof (cases "int (length (result s)) \<le> rank A u")
    case True
    then have "rank A u = int (length (result s))" using len by simp
    then show ?thesis using layeredD(4) [OF L] by (auto simp: s'_def nth_append less_Suc_eq)
  next
    case False
    then have res: "result s' = (result s)[nat (rank A u) := result s ! nat (rank A u) @ [u]]" by (simp add: s'_def)
    show ?thesis
    proof (intro allI ballI impI)
      fix i w assume i: "i < length (result s')" and w: "w \<in> set (result s' ! i)"
      then have "w \<in> set (result s ! i) \<or> (w = u \<and> i = nat (rank A u))"
        by (cases "i = nat (rank A u)") (auto simp: res)
      then show "rank A w = int i"
      proof
        assume "w \<in> set (result s ! i)"
        then show ?thesis using layeredD(4) [OF L, of i w] i by (simp add: res)
      qed (use rank_nonneg [of A u] in simp)
    qed
  qed
  have d: "distinct (concat (result s'))"
  proof (cases "int (length (result s)) \<le> rank A u")
    case True
    then show ?thesis using layeredD(5) [OF L] u(2) by (simp add: s'_def found_def)
  next
    case False
    then have "nat (rank A u) < length (result s)" using rank_nonneg [of A u] by simp
    then have "distinct (concat ((result s)[nat (rank A u) := result s ! nat (rank A u) @ [u]]))"
      using layeredD(5) [OF L] u(2) by (intro distinct_concat_update) (simp_all add: found_def)
    then show ?thesis using False by (simp add: s'_def)
  qed
  have ul: "unitToLayer s' (Hash w) = rank A w" if "w \<in> found s'" for w
  proof (cases "w = u")
    case False
    then have w: "w \<in> found s" using that f by simp
    then have "Hash w \<noteq> Hash u" using inj_onD [OF inj, of w u] layeredD(1) [OF L] u(1) False by blast
    then show ?thesis using layeredD(3) [OF L w] by (simp add: s'_def)
  qed (simp add: s'_def)
  show "layered A T s'"
    unfolding layered_def f
  proof (intro conjI ballI allI impI)
    show "insert u (found s) \<subseteq> T" using layeredD(1) [OF L] u(1) by simp
    show "q \<in> insert u (found s)" if "w \<in> insert u (found s)" "Some q \<in> set (Parents w)" "\<not> A q" for w q
      using that layeredD(2) [OF L] p by blast
    show "unitToLayer s' (Hash w) = rank A w" if "w \<in> insert u (found s)" for w using that ul f by simp
    show "rank A w = int i" if "i < length (result s')" "w \<in> set (result s' ! i)" for i w using that r by blast
    show "distinct (concat (result s'))" by (rule d)
  qed
qed


text \<open>One iteration of the loop over the parents.\<close>

definition dfs_step :: "Unit option list \<Rightarrow> int \<times> layering \<Rightarrow> Unit option \<Rightarrow> int \<times> layering" where
  "dfs_step prevTUs st uParent = (case st of (minLayerBelow, s) \<Rightarrow>
             (case uParent of
                None \<Rightarrow> (minLayerBelow, s)
              | Some p \<Rightarrow>
                  if checkIfAlreadyOrdered p prevTUs then (minLayerBelow, s)
                  else let s' = (if \<not> seenUnits s (Hash p) then dfs prevTUs p s else s) in
                       (if unitToLayer s' (Hash p) > minLayerBelow then unitToLayer s' (Hash p) else minLayerBelow, s')))"

lemma dfs_unfold:
  "dfs prevTUs u s =
     (case foldl (dfs_step prevTUs) (-1, s\<lparr>seenUnits := (seenUnits s)(Hash u := True)\<rparr>) (Parents u) of
        (m, s') \<Rightarrow> s'\<lparr>unitToLayer := (unitToLayer s')(Hash u := m + 1),
             result := (if int (length (result s')) \<le> m + 1 then result s' @ [[u]]
                        else (result s')[nat (m + 1) := result s' ! nat (m + 1) @ [u]])\<rparr>)"
  by (subst dfs.simps) (simp add: dfs_step_def [abs_def] Let_def)

text \<open>The contract of a call of \<open>dfs\<close> on \<open>u\<close> while the units \<open>P\<close> are on the stack.\<close>

definition dfs_ok :: "(Unit \<Rightarrow> bool) \<Rightarrow> Unit set \<Rightarrow> Unit \<Rightarrow> Unit set \<Rightarrow> layering \<Rightarrow> layering \<Rightarrow> bool" where
  "dfs_ok A T u P s s' \<longleftrightarrow> layered A T s' \<and> seen_ok T P s' \<and> found s' = found s \<union> {w. in_round A u w}"

lemma dfs_loop:
  assumes A: "A = (\<lambda>p. checkIfAlreadyOrdered p prevTUs)" and P: "\<forall>x \<in> P. \<forall>p. Some p \<in> set ps \<longrightarrow> size p < size x"
    and T: "\<forall>p. Some p \<in> set ps \<longrightarrow> p \<in> T"
    and IH: "\<And>p s. Some p \<in> set ps \<Longrightarrow> layered A T s \<Longrightarrow> seen_ok T P s \<Longrightarrow> p \<notin> found s \<Longrightarrow> dfs_ok A T p P s (dfs prevTUs p s)"
  shows "layered A T s \<Longrightarrow> seen_ok T P s \<Longrightarrow> \<exists>s'. foldl (dfs_step prevTUs) (m, s) ps = (below_max A m ps, s')
    \<and> layered A T s' \<and> seen_ok T P s' \<and> found s' = found s \<union> (\<Union>p \<in> {p. Some p \<in> set ps \<and> \<not> A p}. {w. in_round A p w})"
  using P T IH
proof (induction ps arbitrary: m s)
  case (Cons q ps)
  have IH': "\<exists>s'. foldl (dfs_step prevTUs) (m, s) ps = (below_max A m ps, s')
    \<and> layered A T s' \<and> seen_ok T P s' \<and> found s' = found s \<union> (\<Union>p \<in> {p. Some p \<in> set ps \<and> \<not> A p}. {w. in_round A p w})"
    if "layered A T s" "seen_ok T P s" for m s
    using that Cons.prems(3-) by (intro Cons.IH) auto
  show ?case
  proof (cases "\<exists>p. q = Some p \<and> \<not> A p")
    case False
    then have skip: "dfs_step prevTUs (m, s) q = (m, s)" "below_max A m (q # ps) = below_max A m ps"
        "{p. Some p \<in> set (q # ps) \<and> \<not> A p} = {p. Some p \<in> set ps \<and> \<not> A p}"
      by (cases q, auto simp: dfs_step_def A split: option.splits)+
    show ?thesis using IH' [OF Cons.prems(1,2), of m] by (simp only: foldl_Cons skip)
  next
    case True
    then obtain p where p: "q = Some p" "\<not> A p" by blast
    define s1 where "s1 = (if \<not> seenUnits s (Hash p) then dfs prevTUs p s else s)"
    have pT: "p \<in> T" and nP: "p \<notin> P" using Cons.prems(3,4) p(1) by auto
    have s1: "layered A T s1 \<and> seen_ok T P s1 \<and> found s1 = found s \<union> {w. in_round A p w}"
    proof (cases "p \<in> found s")
      case True
      then have "s1 = s" using Cons.prems(2) pT by (simp add: s1_def seen_ok_def)
      moreover have "{w. in_round A p w} \<subseteq> found s" using found_closed [OF Cons.prems(1)] True by blast
      ultimately show ?thesis using Cons.prems(1,2) by auto
    next
      case False
      then have "s1 = dfs prevTUs p s" using Cons.prems(2) pT nP by (simp add: s1_def seen_ok_def)
      then show ?thesis using Cons.prems(5) [of p s] Cons.prems(1,2) False p(1) by (simp add: dfs_ok_def)
    qed
    have "p \<in> found s1" using s1 in_round.here by blast
    then have l: "unitToLayer s1 (Hash p) = rank A p" using layeredD(3) s1 by blast
    have step: "dfs_step prevTUs (m, s) q = (max m (rank A p), s1)"
      using p l by (simp add: dfs_step_def A Let_def flip: s1_def)
    obtain s' where "foldl (dfs_step prevTUs) (max m (rank A p), s1) ps = (below_max A (max m (rank A p)) ps, s')"
        "layered A T s'" "seen_ok T P s'" "found s' = found s1 \<union> (\<Union>p \<in> {p. Some p \<in> set ps \<and> \<not> A p}. {w. in_round A p w})"
      using IH' s1 by blast
    moreover have "(\<Union>p \<in> {p. Some p \<in> set (q # ps) \<and> \<not> A p}. {w. in_round A p w})
        = {w. in_round A p w} \<union> (\<Union>p \<in> {p. Some p \<in> set ps \<and> \<not> A p}. {w. in_round A p w})"
      using p by auto
    moreover have "below_max A m (q # ps) = below_max A (max m (rank A p)) ps" using p by simp
    ultimately show ?thesis using s1 by (simp only: foldl_Cons step Un_assoc) blast
  qed
qed simp


lemma dfs_correct:
  assumes A: "A = (\<lambda>p. checkIfAlreadyOrdered p prevTUs)" and inj: "inj_on Hash T" and cl: "parents_closed T"
  shows "u \<in> T \<Longrightarrow> layered A T s \<Longrightarrow> seen_ok T P s \<Longrightarrow> u \<notin> found s \<Longrightarrow> (\<forall>x \<in> P. x \<in> T \<and> size u < size x) \<Longrightarrow>
    dfs_ok A T u P s (dfs prevTUs u s)"
proof (induction "size u" arbitrary: u s P rule: less_induct)
  case less
  let ?s0 = "s\<lparr>seenUnits := (seenUnits s)(Hash u := True)\<rparr>" and ?P = "insert u P"
  have pT: "p \<in> T" if "Some p \<in> set (Parents u)" for p
    using cl less.prems(1) that unfolding parents_closed_def by blast
  have f0: "found ?s0 = found s" by (simp add: found_def)
  have l0: "layered A T ?s0" using less.prems(2) by (simp add: layered_def f0)
  have so0: "seen_ok T ?P ?s0"
    using less.prems(1,3) inj_onD [OF inj, of _ u] by (auto simp: seen_ok_def f0)
  have small: "\<forall>x \<in> ?P. \<forall>p. Some p \<in> set (Parents u) \<longrightarrow> size p < size x"
    using less.prems(5) parent_size by fastforce
  have IH: "dfs_ok A T p ?P s' (dfs prevTUs p s')"
    if "Some p \<in> set (Parents u)" "layered A T s'" "seen_ok T ?P s'" "p \<notin> found s'" for p s'
    using less.hyps [OF parent_size [OF that(1)] pT [OF that(1)] that(2-4)] small that(1) less.prems(1,5) by blast
  obtain s' where s': "foldl (dfs_step prevTUs) (-1, ?s0) (Parents u) = (below_max A (-1) (Parents u), s')"
      "layered A T s'" "seen_ok T ?P s'"
      and fs': "found s' = found s \<union> (\<Union>p \<in> {p. Some p \<in> set (Parents u) \<and> \<not> A p}. {w. in_round A p w})"
    using dfs_loop [OF A small _ IH l0 so0, of "-1"] pT f0 by auto
  have nu: "u \<notin> found s'"
  proof
    assume "u \<in> found s'"
    then obtain p where "Some p \<in> set (Parents u)" "in_round A p u" using less.prems(4) fs' by auto
    then show False using rank_in_round [of A p u] parent_size [of p u] reaches_size in_round_reaches by fastforce
  qed
  let ?r = "dfs prevTUs u s"
  have r: "?r = s'\<lparr>unitToLayer := (unitToLayer s')(Hash u := rank A u),
     result := (if int (length (result s')) \<le> rank A u then result s' @ [[u]]
                else (result s')[nat (rank A u) := result s' ! nat (rank A u) @ [u]])\<rparr>"
    by (simp add: dfs_unfold s'(1) rank_below)
  have par: "p \<in> found s'" if "Some p \<in> set (Parents u)" "\<not> A p" for p
    using that fs' in_round.here by blast
  note place = layered_place [OF s'(2) inj less.prems(1) nu par, folded r]
  have "found ?r = found s \<union> {w. in_round A u w}"
    by (simp add: place(2) fs' in_round_unfold [of A u])
  moreover have "seen_ok T P ?r"
    using s'(3) place(2) unfolding seen_ok_def by (simp add: r)
  ultimately show ?case using place(1) by (simp add: dfs_ok_def)
qed

text \<open>The layers of a timing unit: all new units, by rank.\<close>

lemma getAntichainLayers_correct:
  assumes "inj_on Hash T" "parents_closed T" "tu \<in> T"
    and A_def: "A = (\<lambda>p. checkIfAlreadyOrdered p prevTUs)"
  shows "set (concat (getAntichainLayers tu prevTUs)) = {w. in_round A tu w}"
    and "distinct (concat (getAntichainLayers tu prevTUs))"
    and "i < length (getAntichainLayers tu prevTUs) \<Longrightarrow> w \<in> set (getAntichainLayers tu prevTUs ! i) \<Longrightarrow> rank A w = int i"
proof -
  let ?s0 = "\<lparr>unitToLayer = (\<lambda>_. 0), seenUnits = (\<lambda>_. False), result = []\<rparr>"
  have "dfs_ok A T tu {} ?s0 (dfs prevTUs tu ?s0)"
    by (rule dfs_correct [OF _ assms(1-3)]) (simp_all add: A_def layered_def seen_ok_def found_def)
  then have "layered A T (dfs prevTUs tu ?s0)" "found (dfs prevTUs tu ?s0) = {w. in_round A tu w}"
    by (auto simp: dfs_ok_def found_def)
  then show "set (concat (getAntichainLayers tu prevTUs)) = {w. in_round A tu w}"
      "distinct (concat (getAntichainLayers tu prevTUs))"
      "i < length (getAntichainLayers tu prevTUs) \<Longrightarrow> w \<in> set (getAntichainLayers tu prevTUs ! i) \<Longrightarrow> rank A w = int i"
    using layeredD(4,5) by (auto simp: getAntichainLayers_def found_def)
qed


section \<open>Merging the layers\<close>

lemma sorted_concat_layers:
  fixes r :: "'a \<Rightarrow> int"
  shows "\<forall>i < length xss. \<forall>w \<in> set (xss ! i). r w = int (k + i) \<Longrightarrow> sorted_wrt (\<lambda>u v. r u \<le> r v) (concat xss)"
proof (induction xss arbitrary: k)
  case (Cons xs xss)
  have tail: "\<forall>i < length xss. \<forall>w \<in> set (xss ! i). r w = int (Suc k + i)"
  proof (intro allI impI ballI)
    fix i w assume "i < length xss" "w \<in> set (xss ! i)"
    then show "r w = int (Suc k + i)" using Cons.prems [rule_format, of "Suc i" w] by simp
  qed
  have "r w \<ge> int k" if w: "w \<in> set (concat xss)" for w
  proof -
    obtain ys where ys: "ys \<in> set xss" "w \<in> set ys" using w by auto
    then obtain i where "i < length xss" "w \<in> set (xss ! i)" by (auto simp: in_set_conv_nth [of ys])
    then have "r w = int (Suc k + i)" using tail by blast
    then show ?thesis by simp
  qed
  moreover have "\<forall>w \<in> set xs. r w = int k" using Cons.prems [rule_format, of 0] by simp
  moreover have "sorted_wrt (\<lambda>u v. r u \<le> r v) xs" using calculation(2) by (intro sorted_wrt_all) auto
  ultimately show ?case using Cons.IH [OF tail] by (auto simp: sorted_wrt_append)
qed simp

lemma mergeLayers_mset [simp]: "mset (mergeLayers layers) = mset (concat layers)"
proof -
  have "mset (concat (map (sort_Slice lt) layers)) = mset (concat layers)" for lt
    by (induction layers) auto
  then show ?thesis by (simp add: mergeLayers_def Let_def)
qed

lemma mergeLayers_sorted:
  assumes "\<forall>i < length layers. \<forall>w \<in> set (layers ! i). r w = int i"
  shows "sorted_wrt (\<lambda>u v. r u \<le> r v) (mergeLayers layers)"
  unfolding mergeLayers_def Let_def
  by (rule sorted_concat_layers [where k = 0]) (use assms in simp)

text \<open>The units of a timing round, their order and its last element.\<close>

lemma OrderedUnits_correct:
  assumes "inj_on Hash T" "parents_closed T" "tu \<in> T"
    and A: "A = (\<lambda>p. checkIfAlreadyOrdered p prevTUs)"
  defines "us \<equiv> OrderedUnits (newTimingRound tu prevTUs)"
  shows "set us = {w. in_round A tu w}" "distinct us" "sorted_wrt (\<lambda>u v. rank A u \<le> rank A v) us"
    and "us \<noteq> []" "last us = tu"
proof -
  note g = getAntichainLayers_correct [OF assms(1-3) A]
  have us: "us = mergeLayers (getAntichainLayers tu prevTUs)"
    by (simp add: us_def OrderedUnits_def newTimingRound_def)
  show s: "set us = {w. in_round A tu w}" by (metis us g(1) mergeLayers_mset set_mset_mset)
  show "distinct us" by (metis us g(2) mergeLayers_mset mset_eq_imp_distinct_iff)
  show o: "sorted_wrt (\<lambda>u v. rank A u \<le> rank A v) us" unfolding us using g(3) by (intro mergeLayers_sorted) blast
  have tu: "tu \<in> set us" by (simp add: s in_round.here)
  then show ne: "us \<noteq> []" by auto
  have "rank A tu \<le> rank A (last us)"
  proof (cases "tu = last us")
    case False
    have "us = butlast us @ [last us]" using ne by simp
    then have "tu \<in> set (butlast us)" "sorted_wrt (\<lambda>u v. rank A u \<le> rank A v) (butlast us @ [last us])"
      using tu False o by (metis in_set_butlast_appendI insertE last_in_set list.set(1) list.set(2) set_append Un_iff singletonD, simp)
    then show ?thesis by (auto simp: sorted_wrt_append)
  qed simp
  moreover have "in_round A tu (last us)" using s ne last_in_set by blast
  ultimately show "last us = tu" using rank_in_round [of A tu "last us"] by auto
qed

text \<open>Ordered units are closed downwards, so inside a round reachability is that of the dag.\<close>

lemma in_round_unordered: "in_round A u w \<Longrightarrow> w \<noteq> u \<Longrightarrow> \<not> A w"
  by (induction rule: in_round.induct) auto

lemma reaches_in_round:
  assumes "\<And>p q. p \<in> T \<Longrightarrow> A p \<Longrightarrow> reaches p q \<Longrightarrow> A q" "parents_closed T"
  shows "reaches u v \<Longrightarrow> u \<in> T \<Longrightarrow> u \<noteq> v \<Longrightarrow> \<not> A v \<Longrightarrow> in_round A u v"
proof (induction rule: reaches.induct)
  case (step p u v)
  have pT: "p \<in> T" using assms(2) step.hyps(1) step.prems(1) unfolding parents_closed_def by blast
  moreover have "\<not> A p" using assms(1) [OF pT] step.hyps(2) step.prems(3) by blast
  ultimately show ?case using step in_round.below [OF step.hyps(1)] in_round.here by (cases "p = v") auto
qed simp

text \<open>\<open>checkIfAlreadyOrdered\<close> is closed downwards where \<open>Above\<close> is reachability and levels grow.\<close>

lemma ordered_downward:
  assumes ab: "\<And>u v. u \<in> T \<Longrightarrow> v \<in> T \<Longrightarrow> above u v \<longleftrightarrow> reaches u v"
    and lv: "\<And>u p. u \<in> T \<Longrightarrow> Some p \<in> set (Parents u) \<Longrightarrow> Level p \<le> Level u"
    and cl: "parents_closed T" and tus: "\<And>t. Some t \<in> set prevTUs \<Longrightarrow> t \<in> T"
  shows "p \<in> T \<Longrightarrow> checkIfAlreadyOrdered p prevTUs \<Longrightarrow> reaches p q \<Longrightarrow> checkIfAlreadyOrdered q prevTUs"
proof -
  assume p: "p \<in> T" "checkIfAlreadyOrdered p prevTUs" and r: "reaches p q"
  have q: "q \<in> T \<and> Level q \<le> Level p" using r p(1)
  proof (induction rule: reaches.induct)
    case (step r u v)
    then have "r \<in> T" using cl unfolding parents_closed_def by blast
    then show ?case using step lv [OF step.prems step.hyps(1)] by auto
  qed simp
  obtain t ts where ts: "rev prevTUs = Some t # ts" "\<not> Level p > Level t" "list_ex (\<lambda>tu. Above tu (Some p)) (rev prevTUs)"
    using p(2) by (auto simp: checkIfAlreadyOrdered_def split: list.splits option.splits if_splits)
  have "Above tu (Some q)" if "tu \<in> set prevTUs" "Above tu (Some p)" for tu
    using that tus ab p(1) q r reaches_trans by (auto simp: Above_def split: option.splits)
  then have "list_ex (\<lambda>tu. Above tu (Some q)) (rev prevTUs)" using ts(3) by (auto simp: list_ex_iff)
  then show ?thesis using ts(1,2) q by (simp add: checkIfAlreadyOrdered_def)
qed


section \<open>The order does not depend on the traversal\<close>

lemma XOREqual_swap: "XOREqual (XOREqual z x) y = XOREqual (XOREqual z y) x"
proof -
  have "map2 (XOR) (map2 (XOR) z x) y = map2 (XOR) (map2 (XOR) z y) x" for z x y :: bytes
  proof (induction z x arbitrary: y rule: list_induct2')
    case (4 a z b x)
    then show ?case by (cases y) (auto simp: ac_simps)
  qed auto
  then show ?thesis by (simp add: XOREqual_def)
qed

lemma foldl_XOREqual_perm: "mset xs = mset ys \<Longrightarrow> foldl XOREqual z xs = foldl XOREqual z ys"
  unfolding foldl_conv_fold
  by (rule fun_cong [OF fold_multiset_equiv]) (auto simp: fun_eq_iff XOREqual_swap)

lemma length_foldl_XOREqual:
  "length z = n \<Longrightarrow> \<forall>x \<in> set xs. length x = n \<Longrightarrow> length (foldl XOREqual z xs) = n"
  by (induction xs arbitrary: z) (auto simp: XOREqual_def)

lemma mset_concat_rel: "list_all2 (\<lambda>a b. mset a = mset b) xss yss \<Longrightarrow> mset (concat xss) = mset (concat yss)"
  by (induction rule: list_all2_induct) auto

text \<open>
  \<open>mergeLayers\<close> gives the same order whatever the order of the units inside the layers, so
  the linear order depends only on which units form each layer.
\<close>

theorem mergeLayers_canonical:
  assumes "list_all2 (\<lambda>a b. mset a = mset b) layers layers'"
    and "distinct (map Hash (concat layers))" "\<forall>u \<in> set (concat layers). length (Hash u) = HashLength"
  shows "mergeLayers layers' = mergeLayers layers"
proof -
  let ?t = "foldl XOREqual ZeroHash (map Hash (concat layers))"
  have m: "mset (concat layers) = mset (concat layers')" using mset_concat_rel [OF assms(1)] .
  then have t: "foldl XOREqual ZeroHash (map Hash (concat layers')) = ?t"
    by (intro foldl_XOREqual_perm) simp
  have lt: "length ?t = HashLength"
    using assms(3) by (intro length_foldl_XOREqual) (auto simp: ZeroHash_def)
  have inj: "inj_on Hash (set (concat layers))" and dc: "distinct (concat layers)"
    using assms(2) by (auto simp: distinct_map)
  have tot: "strict_total_on (set (concat layers)) (\<lambda>u v. LessThan (XOR_hash ?t (Hash u)) (XOR_hash ?t (Hash v)))"
  proof (rule strict_total_on_LessThan)
    show "inj_on (\<lambda>u. XOR_hash ?t (Hash u)) (set (concat layers))"
      using inj XOR_hash_cancel [of ?t] lt assms(3) unfolding inj_on_def by metis
    show "length (XOR_hash ?t (Hash u)) = HashLength" if "u \<in> set (concat layers)" for u
      using that lt assms(3) by (auto simp: XOR_hash_def)
  qed
  have "list_all2 (\<lambda>a b. mset a = mset b) as bs \<Longrightarrow> set (concat as) \<subseteq> set (concat layers) \<Longrightarrow> distinct (concat as) \<Longrightarrow>
      map (sort_Slice (\<lambda>u v. LessThan (XOR_hash ?t (Hash u)) (XOR_hash ?t (Hash v)))) bs
      = map (sort_Slice (\<lambda>u v. LessThan (XOR_hash ?t (Hash u)) (XOR_hash ?t (Hash v)))) as" for as bs
  proof (induction rule: list_all2_induct)
    case (Cons a as b bs)
    then show ?case using sort_Slice_cong [OF strict_total_on_mono [OF tot], of a b] by simp
  qed simp
  from this [OF assms(1)] show ?thesis using dc unfolding mergeLayers_def Let_def t by simp
qed

theorem mergeLayers_canonical_witness:
  "mergeLayers [[demo_b0, demo_a0], [demo_a1]] = mergeLayers [[demo_a0, demo_b0], [demo_a1]]"
proof -
  have "distinct (map Hash (concat [[demo_a0, demo_b0], [demo_a1]]))"
    "\<forall>u \<in> set (concat [[demo_a0, demo_b0], [demo_a1]]). length (Hash u) = HashLength" by code_simp+
  then show ?thesis
    using mergeLayers_canonical [of "[[demo_a0, demo_b0], [demo_a1]]" "[[demo_b0, demo_a0], [demo_a1]]"]
    by (simp add: add_mset_commute)
qed

section \<open>Timing rounds of reachable dags\<close>

text \<open>The units of a round, in any closed set in which \<open>above\<close> is reachability.\<close>

lemma OrderedUnits_in:
  assumes inj: "inj_on Hash T" and cl: "parents_closed T"
    and ab: "\<And>u v. u \<in> T \<Longrightarrow> v \<in> T \<Longrightarrow> above u v \<longleftrightarrow> reaches u v"
    and lv: "\<And>u p. u \<in> T \<Longrightarrow> Some p \<in> set (Parents u) \<Longrightarrow> Level p \<le> Level u"
    and tu: "tu \<in> T" "\<And>t. Some t \<in> set prevTUs \<Longrightarrow> t \<in> T"
    and us: "us = OrderedUnits (newTimingRound tu prevTUs)"
  shows "set us = insert tu {w. reaches tu w \<and> \<not> checkIfAlreadyOrdered w prevTUs}" "distinct us"
    and "sorted_wrt (\<lambda>u v. \<not> reaches u v) us" "us \<noteq> []" "last us = tu"
proof -
  let ?A = "\<lambda>p. checkIfAlreadyOrdered p prevTUs"
  note o = OrderedUnits_correct [where prevTUs = prevTUs, OF inj cl tu(1) HOL.refl, folded us]
  show "distinct us" "us \<noteq> []" "last us = tu" using o by auto
  have down: "?A q" if "p \<in> T" "?A p" "reaches p q" for p q
    using ordered_downward [where prevTUs = prevTUs, OF ab lv cl tu(2) that] by blast
  have rr: "in_round ?A u v" if "u \<in> T" "reaches u v" "u \<noteq> v" "\<not> ?A v" for u v
    by (rule reaches_in_round [of T]) (use down cl that in blast)+
  show "set us = insert tu {w. reaches tu w \<and> \<not> ?A w}"
  proof (rule set_eqI)
    fix w
    show "w \<in> set us \<longleftrightarrow> w \<in> insert tu {w. reaches tu w \<and> \<not> ?A w}"
      using rr [OF tu(1), of w] in_round_reaches [of ?A tu w] in_round_unordered [of ?A tu w] in_round.here [of ?A tu] o(1)
      by (cases "w = tu") auto
  qed
  have mem: "u \<in> T" if "in_round ?A tu u" for u
    using in_round_reaches [OF that] tu(1) cl
  proof (induction rule: reaches.induct)
    case (step p u v)
    then show ?case unfolding parents_closed_def by blast
  qed
  have "\<not> reaches u v" if "rank ?A u \<le> rank ?A v" "u \<noteq> v" "u \<in> set us" "v \<in> set us" for u v
  proof
    assume r: "reaches u v"
    have i: "in_round ?A tu u" "in_round ?A tu v" using o(1) that(3,4) by simp_all
    have "v \<noteq> tu" using reaches_antisym [OF r] in_round_reaches [OF i(1)] that(2) by auto
    then have "\<not> ?A v" using in_round_unordered [OF i(2)] by simp
    from rank_in_round [OF rr [OF mem [OF i(1)] r that(2) this]] show False using that(1,2) by auto
  qed
  then show "sorted_wrt (\<lambda>u v. \<not> reaches u v) us"
    by (rule sorted_wrt_mono_distinct [OF _ o(2,3)])
qed

text \<open>
  C16: the units of a timing round of a reachable dag are exactly the units below the timing unit
  that earlier timing units did not order, each once, in an order in which no unit comes before a
  unit it is above; the timing unit itself comes last.
\<close>

theorem OrderedUnits_linear_extension:
  assumes "dag_reach mq n d es" "0 < mq n" "tu \<in> set es" "\<forall>t. Some t \<in> set prevTUs \<longrightarrow> t \<in> set es"
    and "us = OrderedUnits (newTimingRound tu prevTUs)"
  shows "set us = insert tu {w. reaches tu w \<and> \<not> checkIfAlreadyOrdered w prevTUs} \<and> distinct us
    \<and> sorted_wrt (\<lambda>u v. \<not> Above (Some u) (Some v)) us \<and> us \<noteq> [] \<and> last us = tu"
proof -
  have D: "dag_inv d es" using dag_reach_inv [OF assms(1,2)] by blast
  note U = dag_invD(1) [OF D]
  have wf: "wf_set n (set es)" using units_invD(1) [OF U] dag_reach_inv [OF assms(1,2)] by simp
  have inj: "inj_on Hash (set es)" using units_invD(2) [OF U] by (simp add: distinct_map)
  have cl: "parents_closed (set es)" using wf by (simp add: wf_set_def)
  have tus: "\<And>t. Some t \<in> set prevTUs \<Longrightarrow> t \<in> set es" using assms(4) by blast
  note o = OrderedUnits_in [OF inj cl above_reaches_inv [OF D] dag_reach_levels [OF assms(1)] assms(3) tus assms(5)]
  have "u \<in> set es" if "u \<in> set us" for u using that o(1) reaches_closed [OF _ wf assms(3)] assms(3) by auto
  then have "sorted_wrt (\<lambda>u v. \<not> Above (Some u) (Some v)) us"
    using above_reaches_inv [OF D] by (intro sorted_wrt_mono_rel [OF _ o(3)]) (auto simp: Above_def)
  then show ?thesis using o by simp
qed

theorem OrderedUnits_linear_extension_witness:
  "last (OrderedUnits (newTimingRound demo_a1 [None, None, None])) = demo_a1
   \<and> distinct (OrderedUnits (newTimingRound demo_a1 [None, None, None]))"
proof -
  have pos: "0 < demo_mq 2" by code_simp
  obtain d where d: "dag_reach demo_mq 2 d [demo_a0, demo_b0, demo_a1]" by (rule demo_reach)
  show ?thesis
    using OrderedUnits_linear_extension [OF d pos, of demo_a1 "[None, None, None]"] by simp
qed

end
