(* ===== verification/Agreement.thy ===== *)
theory Agreement
  imports Voting
begin

text \<open>
  Correctness of virtual voting. First, the memo of \<open>VoteUsing\<close> is transparent: it computes the
  vote \<open>pvote\<close> that looks at all prime ancestors and asks for unanimity. Then the agreement
  theorem: without forks and with intersecting quorums, two decisions about a unit, taken at any
  levels by any two processes, are equal.
\<close>

section \<open>Prime ancestors\<close>

definition floor_ancestors :: "int \<Rightarrow> Unit list \<Rightarrow> Unit list" where
  "floor_ancestors l ws = filter (\<lambda>v. Level v = l) (map (primeAncestor l) ws)"

definition slot_ids :: "Unit \<Rightarrow> u16 list" where
  "slot_ids u = map of_nat [0..<length (Parents u)]"

definition prime_ancestors :: "Unit \<Rightarrow> Unit list" where
  "prime_ancestors u = concat (map (\<lambda>pid. floor_ancestors (Level u - 1) (Floor u pid)) (slot_ids u))"

lemma primeAncestor_chain: "chain v (primeAncestor l v)"
proof (induction l v rule: primeAncestor.induct)
  case (1 l v)
  show ?case
  proof (cases "\<exists>p. Level v \<ge> l \<and> Predecessor v = Some p \<and> Level p \<ge> l")
    case True
    then obtain p where "Level v \<ge> l" "Predecessor v = Some p" "Level p \<ge> l" by blast
    then show ?thesis using 1 by (subst primeAncestor.simps) (auto intro: chain.step)
  next
    case False
    then show ?thesis by (subst primeAncestor.simps) (auto split: option.splits)
  qed
qed

lemma floor_ancestors_simps [simp]:
  "floor_ancestors l [] = []"
  "floor_ancestors l (w # ws) =
     (if Level (primeAncestor l w) = l then primeAncestor l w # floor_ancestors l ws else floor_ancestors l ws)"
  by (simp_all add: floor_ancestors_def)

lemma floor_ancestors_props:
  assumes C: "comparable_set n T" and u: "u \<in> T" and v: "v \<in> set (floor_ancestors l (Floor u pid))"
  shows "v \<in> T" "Level v = l" "Creator v = pid"
proof -
  obtain w where w: "w \<in> set (Floor u pid)" "v = primeAncestor l w" "Level v = l"
    using v by (auto simp: floor_ancestors_def)
  have wT: "w \<in> T" "Creator w = pid" using Floor_sound [OF comparable_setD(1,3) [OF C] u w(1)] by auto
  have c: "chain w v" using primeAncestor_chain w(2) by simp
  show "v \<in> T" using chain_closed [OF c comparable_setD(1) [OF C] wT(1)] .
  show "Level v = l" by (rule w(3))
  show "Creator v = pid" using chain_Creator [OF c comparable_setD(1) [OF C] wT(1)] wT(2) by simp
qed

section \<open>Votes without the memo\<close>

text \<open>
  \<open>unan_st lv xs\<close>: the pointer \<open>lastVote\<close> after the votes \<open>xs\<close>, and whether two of them differed.
\<close>

fun unan_st :: "vote option \<Rightarrow> vote go list \<Rightarrow> (vote option \<times> bool) go" where
  "unan_st lv [] = Some (lv, False)"
| "unan_st lv (x # xs) =
     do { r \<leftarrow> x;
          case lv of
            None \<Rightarrow> unan_st (Some r) xs
          | Some l \<Rightarrow> if l \<noteq> r then Some (Some undecided, True) else unan_st (Some l) xs }"

lemma unan_st_append:
  "unan_st lv (xs @ ys) = do { (l, f) \<leftarrow> unan_st lv xs; if f then Some (l, f) else unan_st l ys }"
proof (induction xs arbitrary: lv)
  case (Cons x xs)
  then show ?case by (cases x; cases lv) (auto split: if_splits)
qed simp

text \<open>The vote of a unit \<open>k\<close> levels above the candidate.\<close>

fun pvote :: "randomBytes \<Rightarrow> unanimousVoter \<Rightarrow> nat \<Rightarrow> Unit \<Rightarrow> vote go" where
  "pvote rb uv 0 u = Some undecided"
| "pvote rb uv (Suc k) u =
     (if k = 0 then Some (initialVote (uv_uc uv) u)
      else do { (lv, _) \<leftarrow> unan_st None (map (\<lambda>v. do { r \<leftarrow> pvote rb uv k v; or_common (CommonVote rb uv (Level u - 1)) r })
                                        (prime_ancestors u));
                Some (case lv of None \<Rightarrow> undecided | Some v \<Rightarrow> v) })"

definition round_of :: "unanimousVoter \<Rightarrow> Unit \<Rightarrow> nat" where
  "round_of uv u = nat (Level u - Level (uv_uc uv))"

text \<open>The vote of a unit with the common vote in place of an undecided one.\<close>

definition full_vote :: "randomBytes \<Rightarrow> unanimousVoter \<Rightarrow> Unit \<Rightarrow> vote go" where
  "full_vote rb uv v = do { r \<leftarrow> pvote rb uv (round_of uv v) v; or_common (CommonVote rb uv (Level v)) r }"

definition vmemo_ok :: "randomBytes \<Rightarrow> unanimousVoter \<Rightarrow> Unit set \<Rightarrow> votingMemo \<Rightarrow> bool" where
  "vmemo_ok rb uv T memo \<longleftrightarrow>
     (\<forall>v \<in> T. \<forall>c. memo (Hash v) = Some c \<longrightarrow> pvote rb uv (round_of uv v) v = Some c)"

text \<open>A voter with a memo that computes the memo-free vote.\<close>

definition votes_as :: "randomBytes \<Rightarrow> unanimousVoter \<Rightarrow> Unit set \<Rightarrow> (Unit \<Rightarrow> votingMemo \<Rightarrow> (vote \<times> votingMemo) go) \<Rightarrow> nat \<Rightarrow> bool" where
  "votes_as rb uv T voteUsing k \<longleftrightarrow>
     (\<forall>v \<in> T. \<forall>memo. round_of uv v = k \<longrightarrow> vmemo_ok rb uv T memo \<longrightarrow>
        (case pvote rb uv k v of
           None \<Rightarrow> voteUsing v memo = None
         | Some r \<Rightarrow> \<exists>memo'. voteUsing v memo = Some (r, memo') \<and> vmemo_ok rb uv T memo'))"

lemma unanimous_step_agrees:
  assumes V: "votes_as rb uv T voteUsing k" and v: "v \<in> T" "round_of uv v = k" "Level v = l"
    and m: "vmemo_ok rb uv T memo"
  shows "case full_vote rb uv v of
      None \<Rightarrow> unanimous_step (CommonVote rb uv l) voteUsing v (lv, memo) = None
    | Some r \<Rightarrow> \<exists>memo'. vmemo_ok rb uv T memo' \<and>
        unanimous_step (CommonVote rb uv l) voteUsing v (lv, memo) =
          Some ((r, lv \<noteq> None \<and> lv \<noteq> Some r), (case lv of None \<Rightarrow> Some r | Some x \<Rightarrow> if x \<noteq> r then Some undecided else Some x, memo'))"
proof -
  have V': "case pvote rb uv k v of None \<Rightarrow> voteUsing v memo = None
      | Some r \<Rightarrow> \<exists>memo'. voteUsing v memo = Some (r, memo') \<and> vmemo_ok rb uv T memo'"
    using V v m unfolding votes_as_def by blast
  show ?thesis
  proof (cases "pvote rb uv k v")
    case None
    then show ?thesis using V' v by (simp add: full_vote_def unanimous_step_def)
  next
    case (Some r)
    then obtain memo' where m': "voteUsing v memo = Some (r, memo')" "vmemo_ok rb uv T memo'" using V' by auto
    show ?thesis
      using Some m' v
      by (cases "or_common (CommonVote rb uv l) r"; cases lv)
        (auto simp: full_vote_def unanimous_step_def)
  qed
qed


lemma vote_floor_agrees:
  assumes V: "votes_as rb uv T voteUsing k"
    and T: "\<And>v. v \<in> set (floor_ancestors l ws) \<Longrightarrow> v \<in> T \<and> round_of uv v = k"
  shows "vmemo_ok rb uv T memo \<Longrightarrow> (one \<longrightarrow> lv = Some popular) \<Longrightarrow> (zero \<longrightarrow> lv = Some unpopular) \<Longrightarrow>
    (case unan_st lv (map (full_vote rb uv) (floor_ancestors l ws)) of
       None \<Rightarrow> vote_floor l (unanimous_step (CommonVote rb uv l) voteUsing) ws one zero False (lv, memo) = None
     | Some (lv', f) \<Rightarrow> \<exists>one' zero' memo'. vmemo_ok rb uv T memo' \<and>
         vote_floor l (unanimous_step (CommonVote rb uv l) voteUsing) ws one zero False (lv, memo)
           = Some ((one', zero', f), (lv', memo')))"
  using T
proof (induction ws arbitrary: memo one zero lv)
  case (Cons w ws)
  let ?v = "primeAncestor l w" and ?step = "unanimous_step (CommonVote rb uv l) voteUsing"
  show ?case
  proof (cases "Level ?v = l")
    case False
    then have skip: "vote_floor l ?step (w # ws) one zero False (lv, memo) = vote_floor l ?step ws one zero False (lv, memo)"
        "floor_ancestors l (w # ws) = floor_ancestors l ws" by (simp_all add: Let_def)
    show ?thesis unfolding skip using Cons.IH [OF Cons.prems(1-3)] Cons.prems(4) False by simp
  next
    case True
    then have v: "?v \<in> T" "round_of uv ?v = k" using Cons.prems(4) [of ?v] by auto
    note st = unanimous_step_agrees [OF V v True Cons.prems(1), of lv]
    show ?thesis
    proof (cases "full_vote rb uv ?v")
      case None
      then show ?thesis using st True by simp
    next
      case (Some r)
      then obtain memo' where m': "vmemo_ok rb uv T memo'"
          "?step ?v (lv, memo) = Some ((r, lv \<noteq> None \<and> lv \<noteq> Some r),
             (case lv of None \<Rightarrow> Some r | Some x \<Rightarrow> if x \<noteq> r then Some undecided else Some x, memo'))"
        using st by auto
      show ?thesis
      proof (cases "lv \<noteq> None \<and> lv \<noteq> Some r")
        case True
        then obtain x where x: "lv = Some x" "x \<noteq> r" by blast
        then have "unan_st lv (map (full_vote rb uv) (floor_ancestors l (w # ws))) = Some (Some undecided, True)"
          using \<open>Level ?v = l\<close> Some by simp
        moreover have "vote_floor l ?step (w # ws) one zero False (lv, memo)
            = Some ((one \<or> r = popular, zero \<or> r = unpopular, True), (Some undecided, memo'))"
          using \<open>Level ?v = l\<close> m'(2) x by (simp add: Let_def)
        ultimately show ?thesis using m'(1) by auto
      next
        case False
        let ?one = "one \<or> r = popular" and ?zero = "zero \<or> r = unpopular"
        have lv': "(case lv of None \<Rightarrow> Some r | Some x \<Rightarrow> if x \<noteq> r then Some undecided else Some x) = Some r"
          using False by (auto split: option.splits)
        have flags: "\<not> (?one \<and> ?zero)" "?one \<longrightarrow> Some r = Some popular" "?zero \<longrightarrow> Some r = Some unpopular"
          using False Cons.prems(2,3) by auto
        have e1: "unan_st lv (map (full_vote rb uv) (floor_ancestors l (w # ws)))
            = unan_st (Some r) (map (full_vote rb uv) (floor_ancestors l ws))"
          using \<open>Level ?v = l\<close> Some False by (cases lv) auto
        have e2: "vote_floor l ?step (w # ws) one zero False (lv, memo) = vote_floor l ?step ws ?one ?zero False (Some r, memo')"
          using \<open>Level ?v = l\<close> m'(2) lv' flags(1) False by (auto simp: Let_def)
        show ?thesis unfolding e1 e2 using Cons.prems(4) \<open>Level ?v = l\<close> by (intro Cons.IH [OF m'(1) flags(2,3)]) simp
      qed
    qed
  qed
qed simp

lemma vote_pids_agrees:
  assumes V: "votes_as rb uv T voteUsing k"
    and T: "\<And>pid v. pid \<in> set ps \<Longrightarrow> v \<in> set (floor_ancestors (Level u - 1) (Floor u pid)) \<Longrightarrow> v \<in> T \<and> round_of uv v = k"
  shows "vmemo_ok rb uv T memo \<Longrightarrow>
    (case unan_st lv (map (full_vote rb uv) (concat (map (\<lambda>pid. floor_ancestors (Level u - 1) (Floor u pid)) ps))) of
       None \<Rightarrow> vote_pids u (unanimous_step (CommonVote rb uv (Level u - 1)) voteUsing) ps vr (lv, memo) = None
     | Some (lv', f) \<Rightarrow> \<exists>vr' memo'. vmemo_ok rb uv T memo' \<and>
         vote_pids u (unanimous_step (CommonVote rb uv (Level u - 1)) voteUsing) ps vr (lv, memo) = Some (vr', (lv', memo')))"
  using T
proof (induction ps arbitrary: memo lv vr)
  case (Cons pid ps)
  let ?step = "unanimous_step (CommonVote rb uv (Level u - 1)) voteUsing"
  have T': "v \<in> T \<and> round_of uv v = k" if "v \<in> set (floor_ancestors (Level u - 1) (Floor u pid))" for v
    using Cons.prems(2) [of pid v] that by simp
  note fl = vote_floor_agrees [where l = "Level u - 1" and ws = "Floor u pid" and one = False and zero = False and lv = lv,
      OF V T' Cons.prems(1)]
  show ?case
  proof (cases "unan_st lv (map (full_vote rb uv) (floor_ancestors (Level u - 1) (Floor u pid)))")
    case None
    then show ?thesis using fl by (simp add: unan_st_append)
  next
    case (Some lf)
    obtain lv' f where lf: "lf = (lv', f)" by fastforce
    obtain one zero memo' where m': "vmemo_ok rb uv T memo'"
        "vote_floor (Level u - 1) ?step (Floor u pid) False False False (lv, memo) = Some ((one, zero, f), (lv', memo'))"
      using fl Some lf by auto
    show ?thesis
    proof (cases f)
      case True
      then show ?thesis using Some lf m' by (simp add: unan_st_append Let_def)
    next
      case False
      let ?vr = "vr\<lparr>vr_popular := vr_popular vr + (if one then 1 else 0), vr_unpopular := vr_unpopular vr + (if zero then 1 else 0)\<rparr>"
      have e1: "unan_st lv (map (full_vote rb uv) (concat (map (\<lambda>pid. floor_ancestors (Level u - 1) (Floor u pid)) (pid # ps))))
          = unan_st lv' (map (full_vote rb uv) (concat (map (\<lambda>pid. floor_ancestors (Level u - 1) (Floor u pid)) ps)))"
        using Some lf False by (simp add: unan_st_append)
      have e2: "vote_pids u ?step (pid # ps) vr (lv, memo) = vote_pids u ?step ps ?vr (lv', memo')"
        using m'(2) False by (simp add: Let_def)
      have P: "v \<in> T \<and> round_of uv v = k" if "q \<in> set ps" "v \<in> set (floor_ancestors (Level u - 1) (Floor u q))" for q v
        using Cons.prems(2) [of q v] that by simp
      show ?thesis unfolding e1 e2 by (rule Cons.IH [OF m'(1) P])
    qed
  qed
qed simp


lemma prime_ancestors_props:
  assumes C: "comparable_set n T" and u: "u \<in> T" and v: "v \<in> set (prime_ancestors u)"
  shows "v \<in> T" "Level v = Level u - 1"
  using v floor_ancestors_props [OF C u] by (auto simp: prime_ancestors_def)

lemma round_of_ancestor: "Level v = Level u - 1 \<Longrightarrow> round_of uv u = Suc k \<Longrightarrow> round_of uv v = k"
  by (simp add: round_of_def)

lemma VoteUsing_round_correct:
  assumes C: "comparable_set n T" and inj: "inj_on Hash T"
  shows "votes_as rb uv T (VoteUsing_round rb uv k) k"
proof (induction k)
  case 0
  then show ?case by (simp add: votes_as_def)
next
  case (Suc k)
  show ?case
    unfolding votes_as_def
  proof (intro ballI allI impI)
    fix u memo
    assume u: "u \<in> T" "round_of uv u = Suc k" and m: "vmemo_ok rb uv T memo"
    have upd: "vmemo_ok rb uv T (memo'(Hash u \<mapsto> r))" if "vmemo_ok rb uv T memo'" "pvote rb uv (Suc k) u = Some r" for memo' r
      using that u inj_onD [OF inj _ u(1)] unfolding vmemo_ok_def by (metis (no_types, lifting) fun_upd_other fun_upd_same option.inject)
    show "case pvote rb uv (Suc k) u of None \<Rightarrow> VoteUsing_round rb uv (Suc k) u memo = None
        | Some r \<Rightarrow> \<exists>memo'. VoteUsing_round rb uv (Suc k) u memo = Some (r, memo') \<and> vmemo_ok rb uv T memo'"
    proof (cases "memo (Hash u)")
      case (Some c)
      then have "pvote rb uv (Suc k) u = Some c" using m u unfolding vmemo_ok_def by metis
      then show ?thesis using Some m by simp
    next
      case None
      show ?thesis
      proof (cases "k = 0")
        case True
        then show ?thesis using None upd [OF m] by simp
      next
        case False
        have anc: "v \<in> T \<and> round_of uv v = k"
          if "pid \<in> set (slot_ids u)" "v \<in> set (floor_ancestors (Level u - 1) (Floor u pid))" for pid v
          using floor_ancestors_props [OF C u(1) that(2)] round_of_ancestor u(2) by blast
        have fv: "map (\<lambda>v. do { r \<leftarrow> pvote rb uv k v; or_common (CommonVote rb uv (Level u - 1)) r }) (prime_ancestors u)
            = map (full_vote rb uv) (prime_ancestors u)"
          using prime_ancestors_props [OF C u(1)] u(2) by (auto simp: full_vote_def round_of_ancestor)
        have pv: "pvote rb uv (Suc k) u = do { (lv, _) \<leftarrow> unan_st None (map (full_vote rb uv) (prime_ancestors u));
            Some (case lv of None \<Rightarrow> undecided | Some v \<Rightarrow> v) }"
          unfolding pvote.simps fv using False by simp
        let ?step = "unanimous_step (CommonVote rb uv (Level u - 1)) (VoteUsing_round rb uv k)"
          and ?vr0 = "\<lparr>vr_popular = 0, vr_unpopular = 0\<rparr>"
        have vp: "case unan_st None (map (full_vote rb uv) (prime_ancestors u)) of
            None \<Rightarrow> vote_pids u ?step (slot_ids u) ?vr0 (None, memo) = None
          | Some (lv', f) \<Rightarrow> \<exists>vr' memo'. vmemo_ok rb uv T memo' \<and>
              vote_pids u ?step (slot_ids u) ?vr0 (None, memo) = Some (vr', (lv', memo'))"
          unfolding prime_ancestors_def by (rule vote_pids_agrees [OF Suc.IH _ m]) (use anc in blast)
        show ?thesis
        proof (cases "unan_st None (map (full_vote rb uv) (prime_ancestors u))")
          case None
          then have "pvote rb uv (Suc k) u = None" "VoteUsing_round rb uv (Suc k) u memo = None"
            using vp pv \<open>memo (Hash u) = None\<close> False
            by (simp_all add: voteUsingPrimeAncestors_def flip: slot_ids_def)
          then show ?thesis by simp
        next
          case (Some lf)
          obtain lv f where lf: "lf = (lv, f)" by fastforce
          obtain vr memo' where m': "vmemo_ok rb uv T memo'"
              "vote_pids u (unanimous_step (CommonVote rb uv (Level u - 1)) (VoteUsing_round rb uv k)) (slot_ids u)
                 \<lparr>vr_popular = 0, vr_unpopular = 0\<rparr> (None, memo) = Some (vr, (lv, memo'))"
            using vp Some lf by auto
          have p: "pvote rb uv (Suc k) u = Some (case lv of None \<Rightarrow> undecided | Some v \<Rightarrow> v)"
            using Some lf pv by simp
          moreover have "VoteUsing_round rb uv (Suc k) u memo
              = Some (case lv of None \<Rightarrow> undecided | Some v \<Rightarrow> v, memo'(Hash u \<mapsto> (case lv of None \<Rightarrow> undecided | Some v \<Rightarrow> v)))"
            using m'(2) \<open>memo (Hash u) = None\<close> False by (simp add: voteUsingPrimeAncestors_def flip: slot_ids_def)
          ultimately show ?thesis using upd [OF m'(1) p] by simp
        qed
      qed
    qed
  qed
qed

text \<open>
  C18: the memo of \<open>VoteUsing\<close> is transparent: from any memo with correct entries, in particular the
  empty one, it returns the unanimous vote of the prime ancestors and keeps the memo correct.
\<close>

theorem VoteUsing_memo_transparent:
  assumes "comparable_set n T" "inj_on Hash T" "u \<in> T" "vmemo_ok rb uv T memo"
  shows "case pvote rb uv (round_of uv u) u of
      None \<Rightarrow> VoteUsing rb uv u memo = None
    | Some r \<Rightarrow> \<exists>memo'. VoteUsing rb uv u memo = Some (r, memo') \<and> vmemo_ok rb uv T memo'"
  using VoteUsing_round_correct [OF assms(1,2), of rb uv "round_of uv u"] assms(3,4)
  unfolding votes_as_def VoteUsing_def round_of_def by blast


section \<open>Unanimity\<close>

lemma unan_st_Some:
  "unan_st (Some l) xs = Some (lv, f) \<Longrightarrow>
     (f \<and> lv = Some undecided \<and> (\<exists>r. Some r \<in> set xs \<and> r \<noteq> l)) \<or> (\<not> f \<and> lv = Some l \<and> (\<forall>x \<in> set xs. x = Some l))"
  by (induction xs) (auto split: bind_splits if_splits)

text \<open>What a returned vote of the second or a later round says about the votes one level below.\<close>

lemma pvote_cases:
  assumes "pvote rb uv (Suc (Suc k)) u = Some x"
    and "\<And>v. v \<in> set (prime_ancestors u) \<Longrightarrow>
       (do { r \<leftarrow> pvote rb uv (Suc k) v; or_common (CommonVote rb uv (Level u - 1)) r }) = V v"
  obtains (empty) "prime_ancestors u = []" "x = undecided"
    | (all) "prime_ancestors u \<noteq> []" "\<forall>v \<in> set (prime_ancestors u). V v = Some x"
    | (split) v w a b where "v \<in> set (prime_ancestors u)" "w \<in> set (prime_ancestors u)" "V v = Some a" "V w = Some b" "a \<noteq> b" "x = undecided"
proof -
  have m: "map (\<lambda>v. do { r \<leftarrow> pvote rb uv (Suc k) v; or_common (CommonVote rb uv (Level u - 1)) r }) (prime_ancestors u)
      = map V (prime_ancestors u)" using assms(2) by simp
  obtain lv f where u: "unan_st None (map V (prime_ancestors u)) = Some (lv, f)" "x = (case lv of None \<Rightarrow> undecided | Some v \<Rightarrow> v)"
    using assms(1) by (auto simp only: pvote.simps(2) [of rb uv "Suc k" u] m nat.distinct if_False split: bind_splits)
  show thesis
  proof (cases "prime_ancestors u")
    case Nil
    then show ?thesis using u empty by simp
  next
    case (Cons v vs)
    then obtain a where a: "V v = Some a" "unan_st (Some a) (map V vs) = Some (lv, f)" using u(1) by (auto split: bind_splits)
    from unan_st_Some [OF a(2)] show ?thesis
    proof
      assume "f \<and> lv = Some undecided \<and> (\<exists>r. Some r \<in> set (map V vs) \<and> r \<noteq> a)"
      then obtain w r where "w \<in> set vs" "Some r = V w" "r \<noteq> a" "lv = Some undecided" by auto
      then show ?thesis using split [of v w a r] Cons a(1) u(2) by auto
    next
      assume "\<not> f \<and> lv = Some a \<and> (\<forall>x \<in> set (map V vs). x = Some a)"
      then show ?thesis using all Cons a(1) u(2) by simp
    qed
  qed
qed

lemma pvote_round_cases:
  assumes C: "comparable_set n T" and u: "u \<in> T" and r: "Level (uv_uc uv) + 2 \<le> Level u"
    and p: "pvote rb uv (round_of uv u) u = Some x"
  obtains (empty) "prime_ancestors u = []" "x = undecided"
    | (all) "prime_ancestors u \<noteq> []" "\<forall>v \<in> set (prime_ancestors u). full_vote rb uv v = Some x"
    | (split) v w a b where "v \<in> set (prime_ancestors u)" "w \<in> set (prime_ancestors u)" "full_vote rb uv v = Some a"
        "full_vote rb uv w = Some b" "a \<noteq> b" "x = undecided"
proof -
  define k where "k = nat (Level u - Level (uv_uc uv) - 2)"
  have k: "round_of uv u = Suc (Suc k)" using r by (simp add: k_def round_of_def)
  have "(do { r \<leftarrow> pvote rb uv (Suc k) v; or_common (CommonVote rb uv (Level u - 1)) r }) = full_vote rb uv v"
    if "v \<in> set (prime_ancestors u)" for v
    using prime_ancestors_props [OF C u that] round_of_ancestor [OF _ k] by (simp add: full_vote_def)
  from pvote_cases [OF p [unfolded k] this] show thesis using empty all split by blast
qed

section \<open>What a decision shows\<close>

definition supporters :: "randomBytes \<Rightarrow> unanimousVoter \<Rightarrow> u16 \<Rightarrow> Unit \<Rightarrow> vote \<Rightarrow> u16 set" where
  "supporters rb uv n u d =
     {p. p < n \<and> (\<exists>v \<in> set (floor_ancestors (Level u - 1) (Floor u p)). full_vote rb uv v = Some d)}"

definition voter_sound :: "(Unit \<Rightarrow> vote go) \<Rightarrow> Unit set \<Rightarrow> ('s \<Rightarrow> bool) \<Rightarrow> (Unit \<Rightarrow> 's \<Rightarrow> ((vote \<times> bool) \<times> 's) go) \<Rightarrow> bool" where
  "voter_sound V A ok voter \<longleftrightarrow>
     (\<forall>v \<in> A. \<forall>s vt fin s'. ok s \<longrightarrow> voter v s = Some ((vt, fin), s') \<longrightarrow> V v = Some vt \<and> ok s')"

lemma vote_floor_sound:
  assumes "voter_sound V A ok voter"
  shows "vote_floor l voter ws one zero fin s = Some ((one', zero', fin'), s') \<Longrightarrow> set (floor_ancestors l ws) \<subseteq> A \<Longrightarrow> ok s \<Longrightarrow>
    ok s' \<and> (one' \<longrightarrow> one \<or> (\<exists>v \<in> set (floor_ancestors l ws). V v = Some popular))
         \<and> (zero' \<longrightarrow> zero \<or> (\<exists>v \<in> set (floor_ancestors l ws). V v = Some unpopular))"
proof (induction ws arbitrary: one zero fin s)
  case (Cons w ws)
  let ?v = "primeAncestor l w"
  show ?case
  proof (cases "Level ?v = l")
    case False
    then have "vote_floor l voter ws one zero fin s = Some ((one', zero', fin'), s')"
      using Cons.prems(1) by (simp add: Let_def)
    from Cons.IH [OF this _ Cons.prems(3)] show ?thesis using Cons.prems(2) False by simp
  next
    case True
    obtain vt f s1 where v: "voter ?v s = Some ((vt, f), s1)"
      using Cons.prems(1) True by (auto simp: Let_def split: bind_splits)
    have sd: "V ?v = Some vt" "ok s1"
      using assms v Cons.prems(2,3) True unfolding voter_sound_def by auto
    show ?thesis
    proof (cases "f \<or> ((one \<or> vt = popular) \<and> (zero \<or> vt = unpopular))")
      case stop: True
      then show ?thesis using Cons.prems(1) True v sd by (auto simp: Let_def)
    next
      case False
      then have "vote_floor l voter ws (one \<or> vt = popular) (zero \<or> vt = unpopular) f s1 = Some ((one', zero', fin'), s')"
        using Cons.prems(1) True v by (auto simp: Let_def)
      from Cons.IH [OF this _ sd(2)] show ?thesis using Cons.prems(2) True sd(1) by auto
    qed
  qed
qed simp

lemma vote_pids_sound:
  assumes "voter_sound V A ok voter"
  shows "vote_pids u voter ps vr s = Some (vr', s') \<Longrightarrow> ok s \<Longrightarrow> distinct ps \<Longrightarrow>
    (\<And>p. p \<in> set ps \<Longrightarrow> set (floor_ancestors (Level u - 1) (Floor u p)) \<subseteq> A) \<Longrightarrow>
    ok s' \<and> (\<exists>P Z. P \<subseteq> set ps \<and> Z \<subseteq> set ps
      \<and> vr_popular vr' = vr_popular vr + of_nat (card P) \<and> vr_unpopular vr' = vr_unpopular vr + of_nat (card Z)
      \<and> (\<forall>p \<in> P. \<exists>v \<in> set (floor_ancestors (Level u - 1) (Floor u p)). V v = Some popular)
      \<and> (\<forall>p \<in> Z. \<exists>v \<in> set (floor_ancestors (Level u - 1) (Floor u p)). V v = Some unpopular))"
proof (induction ps arbitrary: vr s)
  case Nil
  then show ?case by (auto intro!: exI [of _ "{}"])
next
  case (Cons p ps)
  obtain one zero fin s1 where f: "vote_floor (Level u - 1) voter (Floor u p) False False False s = Some ((one, zero, fin), s1)"
    using Cons.prems(1) by (auto split: bind_splits)
  note fs = vote_floor_sound [OF assms f Cons.prems(4) [of p, simplified] Cons.prems(2)]
  let ?vr = "vr\<lparr>vr_popular := vr_popular vr + (if one then 1 else 0), vr_unpopular := vr_unpopular vr + (if zero then 1 else 0)\<rparr>"
  have "ok s' \<and> (\<exists>P Z. P \<subseteq> set ps \<and> Z \<subseteq> set ps
      \<and> vr_popular vr' = vr_popular ?vr + of_nat (card P) \<and> vr_unpopular vr' = vr_unpopular ?vr + of_nat (card Z)
      \<and> (\<forall>p \<in> P. \<exists>v \<in> set (floor_ancestors (Level u - 1) (Floor u p)). V v = Some popular)
      \<and> (\<forall>p \<in> Z. \<exists>v \<in> set (floor_ancestors (Level u - 1) (Floor u p)). V v = Some unpopular))"
  proof (cases fin)
    case True
    then have "vr' = ?vr" "s' = s1" using Cons.prems(1) f by (auto simp: Let_def)
    then show ?thesis using fs by (auto intro!: exI [of _ "{}"])
  next
    case False
    then have "vote_pids u voter ps ?vr s1 = Some (vr', s')" using Cons.prems(1) f by (auto simp: Let_def)
    from Cons.IH [OF this] show ?thesis using fs Cons.prems(3,4) by auto
  qed
  then obtain P Z where ok: "ok s'" and PZ: "P \<subseteq> set ps" "Z \<subseteq> set ps"
      and cnt: "vr_popular vr' = vr_popular ?vr + of_nat (card P)" "vr_unpopular vr' = vr_unpopular ?vr + of_nat (card Z)"
      and P: "\<forall>p \<in> P. \<exists>v \<in> set (floor_ancestors (Level u - 1) (Floor u p)). V v = Some popular"
      and Z: "\<forall>p \<in> Z. \<exists>v \<in> set (floor_ancestors (Level u - 1) (Floor u p)). V v = Some unpopular"
    by blast
  have fin: "finite P" "finite Z" "p \<notin> P" "p \<notin> Z" using PZ Cons.prems(3) finite_subset by auto
  let ?P = "if one then insert p P else P" and ?Z = "if zero then insert p Z else Z"
  have "?P \<subseteq> set (p # ps) \<and> ?Z \<subseteq> set (p # ps)" using PZ by auto
  moreover have "vr_popular vr' = vr_popular vr + of_nat (card ?P) \<and> vr_unpopular vr' = vr_unpopular vr + of_nat (card ?Z)"
    using cnt fin by simp
  moreover have "\<forall>p \<in> ?P. \<exists>v \<in> set (floor_ancestors (Level u - 1) (Floor u p)). V v = Some popular"
    and "\<forall>p \<in> ?Z. \<exists>v \<in> set (floor_ancestors (Level u - 1) (Floor u p)). V v = Some unpopular"
    using P Z fs by auto
  ultimately show ?case using ok by blast
qed


text \<open>Deciding keeps the memo correct, and a decision comes with a quorum of supporters.\<close>

lemma decide_step_sound:
  assumes "\<And>v. v \<in> A \<Longrightarrow> v \<in> T \<and> Level v = l" and C: "comparable_set n' T" "inj_on Hash T"
  shows "voter_sound (full_vote rb uv) A (\<lambda>s. vmemo_ok rb uv T (snd s)) (decide_step mq n (CommonVote rb uv l) (VoteUsing rb uv))"
  unfolding voter_sound_def
proof (intro ballI allI impI)
  fix v s vt fin s'
  assume v: "v \<in> A" and ok: "vmemo_ok rb uv T (snd s)"
    and st: "decide_step mq n (CommonVote rb uv l) (VoteUsing rb uv) v s = Some ((vt, fin), s')"
  obtain vr memo where s: "s = (vr, memo)" by fastforce
  obtain r memo' where r: "VoteUsing rb uv v memo = Some (r, memo')" "or_common (CommonVote rb uv l) r = Some vt" "snd s' = memo'"
    using st by (auto simp: s decide_step_def Let_def split: bind_splits if_splits)
  have "pvote rb uv (round_of uv v) v = Some r \<and> vmemo_ok rb uv T memo'"
    using VoteUsing_round_correct [OF C, of rb uv "round_of uv v"] assms(1) [OF v] ok r(1) s
    unfolding votes_as_def VoteUsing_def round_of_def by (fastforce split: option.splits)
  then show "full_vote rb uv v = Some vt \<and> vmemo_ok rb uv T (snd s')"
    using r assms(1) [OF v] by (simp add: full_vote_def)
qed

lemma card_pids: "card {p. p < (n :: u16)} = unat n"
  using distinct_card [OF distinct_pids, of n] by simp

lemma unat_card_pids: "P \<subseteq> {p. p < (n :: u16)} \<Longrightarrow> unat (of_nat (card P) :: u16) = card P"
  by (rule unat_of_nat_le [of _ n]) (metis card_mono card_pids finite_code)

lemma slot_ids_pids: "comparable_set n T \<Longrightarrow> u \<in> T \<Longrightarrow> slot_ids u = pids n"
  using wf_setD(1) [OF comparable_setD(1)] by (simp add: slot_ids_def pids_def wf_node_def)

lemma decide_vote_sound:
  assumes C: "comparable_set n T" "inj_on Hash T" and u: "u \<in> T" and m: "vmemo_ok rb uv T memo"
    and dv: "decide_vote rb mq n uv u memo = Some (d, memo')"
  shows "vmemo_ok rb uv T memo'" "d \<noteq> undecided \<Longrightarrow> unat (mq n) \<le> card (supporters rb uv n u d)"
proof -
  let ?step = "decide_step mq n (CommonVote rb uv (Level u - 1)) (VoteUsing rb uv)"
    and ?A = "{v. v \<in> T \<and> Level v = Level u - 1}"
  have snd: "voter_sound (full_vote rb uv) ?A (\<lambda>s. vmemo_ok rb uv T (snd s)) ?step"
    by (rule decide_step_sound [OF _ C]) simp
  obtain vr s' where r: "vote_pids u ?step (pids n) \<lparr>vr_popular = 0, vr_unpopular = 0\<rparr> (\<lparr>vr_popular = 0, vr_unpopular = 0\<rparr>, memo) = Some (vr, s')"
      "d = superMajority mq n vr" "memo' = snd s'"
    using dv slot_ids_pids [OF C(1) u]
    by (auto simp: decide_vote_def voteUsingPrimeAncestors_def simp flip: slot_ids_def split: bind_splits)
  have anc: "set (floor_ancestors (Level u - 1) (Floor u p)) \<subseteq> ?A" for p using floor_ancestors_props [OF C(1) u] by blast
  obtain P Z where ok: "vmemo_ok rb uv T (snd s')" and PZ: "P \<subseteq> {p. p < n}" "Z \<subseteq> {p. p < n}"
      "vr_popular vr = of_nat (card P)" "vr_unpopular vr = of_nat (card Z)"
      and P: "\<forall>p \<in> P. \<exists>v \<in> set (floor_ancestors (Level u - 1) (Floor u p)). full_vote rb uv v = Some popular"
      and Z: "\<forall>p \<in> Z. \<exists>v \<in> set (floor_ancestors (Level u - 1) (Floor u p)). full_vote rb uv v = Some unpopular"
    using vote_pids_sound [OF snd r(1)] m anc by auto
  show "vmemo_ok rb uv T memo'" using ok r(3) by simp
  have fin: "finite (supporters rb uv n u d)" for d by (rule finite_subset [of _ "{p. p < n}"]) (auto simp: supporters_def)
  have "P \<subseteq> supporters rb uv n u popular" "Z \<subseteq> supporters rb uv n u unpopular"
    using P Z PZ(1,2) by (auto simp: supporters_def)
  then have "card P \<le> card (supporters rb uv n u popular)" "card Z \<le> card (supporters rb uv n u unpopular)"
    by (simp_all add: card_mono [OF fin])
  moreover have "unat (vr_popular vr) = card P" "unat (vr_unpopular vr) = card Z"
    using PZ unat_card_pids by auto
  ultimately show "unat (mq n) \<le> card (supporters rb uv n u d)" if "d \<noteq> undecided"
    using that r(2) by (auto simp: superMajority_def word_le_nat_alt split: if_splits)
qed

section \<open>Agreement\<close>

definition no_forks :: "Unit set \<Rightarrow> bool" where
  "no_forks T \<longleftrightarrow> (\<forall>v \<in> T. \<forall>w \<in> T. Creator v = Creator w \<longrightarrow> Level v = Level w \<longrightarrow> v = w)"

text \<open>Every unit above level zero sees units of a quorum of processes one level below.\<close>

definition quorum_below :: "(u16 \<Rightarrow> u16) \<Rightarrow> u16 \<Rightarrow> Unit set \<Rightarrow> bool" where
  "quorum_below mq n T \<longleftrightarrow> (\<forall>u \<in> T. 0 < Level u \<longrightarrow>
     unat (mq n) \<le> card {p. p < n \<and> floor_ancestors (Level u - 1) (Floor u p) \<noteq> []})"

definition voting_set :: "(u16 \<Rightarrow> u16) \<Rightarrow> u16 \<Rightarrow> Unit set \<Rightarrow> bool" where
  "voting_set mq n T \<longleftrightarrow> comparable_set n T \<and> inj_on Hash T \<and> no_forks T \<and> quorum_below mq n T
     \<and> (\<forall>u \<in> T. 0 \<le> Level u) \<and> unat n < 2 * unat (mq n)"

lemma voting_setD:
  assumes "voting_set mq n T"
  shows "comparable_set n T" "inj_on Hash T" "no_forks T" "quorum_below mq n T" "u \<in> T \<Longrightarrow> 0 \<le> Level u" "unat n < 2 * unat (mq n)"
  using assms by (auto simp: voting_set_def)

lemma quorums_meet:
  assumes "A \<subseteq> {p. p < n}" "B \<subseteq> {p. p < n}" "unat (q :: u16) \<le> card A" "unat q \<le> card B" "unat (n :: u16) < 2 * unat q"
  shows "\<exists>p. p \<in> A \<and> p \<in> B"
proof (rule ccontr)
  assume "\<not> ?thesis"
  then have "A \<inter> B = {}" by blast
  moreover have "finite A" "finite B" using assms(1,2) finite_subset finite_code by blast+
  ultimately have "card A + card B = card (A \<union> B)" by (simp add: card_Un_disjoint)
  also have "\<dots> \<le> unat n" using card_mono [of "{p. p < n}" "A \<union> B"] assms(1,2) card_pids [of n] by simp
  finally show False using assms(3-5) by simp
qed

text \<open>The evidence of a decision: a quorum one level below, and the common vote of the level.\<close>

definition decided_at :: "randomBytes \<Rightarrow> (u16 \<Rightarrow> u16) \<Rightarrow> u16 \<Rightarrow> Unit set \<Rightarrow> unanimousVoter \<Rightarrow> int \<Rightarrow> vote \<Rightarrow> bool" where
  "decided_at rb mq n T uv L d \<longleftrightarrow> d \<noteq> undecided \<and> Level (uv_uc uv) + 2 \<le> L \<and> CommonVote rb uv L = Some d
     \<and> (\<exists>u \<in> T. Level u = L \<and> unat (mq n) \<le> card (supporters rb uv n u d))"

lemma supporters_sub: "supporters rb uv n u d \<subseteq> {p. p < n}"
  by (auto simp: supporters_def)

lemma same_ancestor:
  assumes "voting_set mq n T" "u \<in> T" "w \<in> T" "Level u = Level w"
    "v \<in> set (floor_ancestors (Level u - 1) (Floor u p))" "v' \<in> set (floor_ancestors (Level w - 1) (Floor w p))"
  shows "v = v'"
  using floor_ancestors_props [OF voting_setD(1) [OF assms(1)] assms(2,5)]
    floor_ancestors_props [OF voting_setD(1) [OF assms(1)] assms(3,6)]
    voting_setD(3) [OF assms(1)] assms(4) unfolding no_forks_def by metis

lemma decision_fixes_level:
  assumes S: "voting_set mq n T" and d: "decided_at rb mq n T uv L d" and w: "w \<in> T" "Level w = L"
    and uc: "0 \<le> Level (uv_uc uv)" and f: "full_vote rb uv w = Some x"
  shows "x = d"
proof -
  note D = voting_setD [OF S]
  obtain u where u: "u \<in> T" "Level u = L" "unat (mq n) \<le> card (supporters rb uv n u d)"
      and d': "d \<noteq> undecided" "Level (uv_uc uv) + 2 \<le> L" "CommonVote rb uv L = Some d"
    using d by (auto simp: decided_at_def)
  obtain r where r: "pvote rb uv (round_of uv w) w = Some r" "or_common (CommonVote rb uv L) r = Some x"
    using f w(2) by (auto simp: full_vote_def split: bind_splits)
  let ?B = "{p. p < n \<and> floor_ancestors (Level w - 1) (Floor w p) \<noteq> []}"
  have "unat (mq n) \<le> card ?B" using D(4) w d'(2) uc unfolding quorum_below_def by auto
  then obtain p where p: "p \<in> supporters rb uv n u d" "p \<in> ?B"
    using quorums_meet [OF supporters_sub _ u(3) _ D(6), of ?B] by auto
  obtain v where v: "v \<in> set (floor_ancestors (Level u - 1) (Floor u p))" "full_vote rb uv v = Some d"
    using p(1) by (auto simp: supporters_def)
  obtain v' where v': "v' \<in> set (floor_ancestors (Level w - 1) (Floor w p))" using p(2) last_in_set by blast
  have eq: "v = v'" using same_ancestor [OF S u(1) w(1) _ v(1) v'] u(2) w(2) by simp
  have "p \<in> set (slot_ids w)" using p(2) slot_ids_pids [OF D(1) w(1)] by simp
  then have anc: "v \<in> set (prime_ancestors w)" using v' eq by (auto simp: prime_ancestors_def)
  show ?thesis
  proof (cases "r = undecided")
    case True
    then show ?thesis using r(2) d'(3) by (simp add: or_common_def)
  next
    case False
    have "full_vote rb uv v = Some r"
      using pvote_round_cases [OF D(1) w(1) _ r(1)] d'(2) w(2) False anc by (metis empty_iff list.set(1))
    then show ?thesis using v(2) r(2) False by (simp add: or_common_def)
  qed
qed

lemma decision_persists:
  assumes S: "voting_set mq n T" and d: "decided_at rb mq n T uv L d" and uc: "0 \<le> Level (uv_uc uv)"
  shows "w \<in> T \<Longrightarrow> Level w = L + int k \<Longrightarrow> full_vote rb uv w = Some x \<Longrightarrow> x = d"
proof (induction k arbitrary: w x)
  case 0
  then show ?case using decision_fixes_level [OF S d _ _ uc] by simp
next
  case (Suc k)
  note D = voting_setD [OF S]
  have d': "d \<noteq> undecided" "Level (uv_uc uv) + 2 \<le> L" using d by (auto simp: decided_at_def)
  obtain r where r: "pvote rb uv (round_of uv w) w = Some r" "or_common (CommonVote rb uv (Level w)) r = Some x"
    using Suc.prems(3) by (auto simp: full_vote_def split: bind_splits)
  have below: "y = d" if "v \<in> set (prime_ancestors w)" "full_vote rb uv v = Some y" for v y
    using Suc.IH [of v y] prime_ancestors_props [OF D(1) Suc.prems(1) that(1)] that(2) Suc.prems(2) by simp
  have "prime_ancestors w \<noteq> []"
  proof -
    have "unat (mq n) \<le> card {p. p < n \<and> floor_ancestors (Level w - 1) (Floor w p) \<noteq> []}" "0 < unat (mq n)"
      using D(4,6) Suc.prems(1,2) d'(2) uc unfolding quorum_below_def by auto
    then obtain p where "p < n" "floor_ancestors (Level w - 1) (Floor w p) \<noteq> []"
      by (metis (mono_tags, lifting) Collect_empty_eq card.empty not_le)
    then show ?thesis using slot_ids_pids [OF D(1) Suc.prems(1)] by (auto simp: prime_ancestors_def)
  qed
  moreover have "Level (uv_uc uv) + 2 \<le> Level w" using d'(2) Suc.prems(2) by simp
  ultimately have "r = d"
    using pvote_round_cases [OF D(1) Suc.prems(1) _ r(1)] below by (metis last_in_set)
  then show ?case using r(2) d'(1) by (simp add: or_common_def)
qed

lemma decided_unique_le:
  assumes S: "voting_set mq n T" and uc: "0 \<le> Level (uv_uc uv)"
    and d: "decided_at rb mq n T uv L d" "decided_at rb mq n T uv L' d'" and le: "L \<le> L'"
  shows "d' = d"
proof -
  note D = voting_setD [OF S]
  obtain u where u: "u \<in> T" "Level u = L" "unat (mq n) \<le> card (supporters rb uv n u d)"
    using d(1) by (auto simp: decided_at_def)
  obtain u' where u': "u' \<in> T" "Level u' = L'" "unat (mq n) \<le> card (supporters rb uv n u' d')"
    using d(2) by (auto simp: decided_at_def)
  show ?thesis
  proof (cases "L = L'")
    case True
    obtain p where p: "p \<in> supporters rb uv n u d" "p \<in> supporters rb uv n u' d'"
      using quorums_meet [OF supporters_sub supporters_sub u(3) u'(3) D(6)] by blast
    then obtain v v' where v: "v \<in> set (floor_ancestors (Level u - 1) (Floor u p))" "full_vote rb uv v = Some d"
        "v' \<in> set (floor_ancestors (Level u' - 1) (Floor u' p))" "full_vote rb uv v' = Some d'"
      by (auto simp: supporters_def)
    then have "v = v'" using same_ancestor [OF S u(1) u'(1) _ v(1,3)] u(2) u'(2) True by simp
    then show ?thesis using v by simp
  next
    case False
    have "supporters rb uv n u' d' \<noteq> {}" using u'(3) D(6) by (metis card.empty le_zero_eq mult_0_right not_less_zero)
    then obtain p v where v: "v \<in> set (floor_ancestors (Level u' - 1) (Floor u' p))" "full_vote rb uv v = Some d'"
      by (auto simp: supporters_def)
    have "v \<in> T" "Level v = L + int (nat (L' - 1 - L))"
      using floor_ancestors_props [OF D(1) u'(1) v(1)] u'(2) le False by auto
    then show ?thesis using decision_persists [OF S d(1) uc _ _ v(2)] by blast
  qed
qed


section \<open>Decisions of \<open>DecideUnitIsPopular\<close>\<close>

lemma memo_irrelevant [simp]:
  "CommonVote rb (uv\<lparr>votingMemo := m\<rparr>) l = CommonVote rb uv l"
  "round_of (uv\<lparr>votingMemo := m\<rparr>) u = round_of uv u"
  by (simp_all add: CommonVote_def round_of_def Let_def)

lemma pvote_memo_irrelevant [simp]: "pvote rb (uv\<lparr>votingMemo := m\<rparr>) k u = pvote rb uv k u"
  by (induction k arbitrary: u) simp_all

lemma vmemo_ok_irrelevant [simp]: "vmemo_ok rb (uv\<lparr>votingMemo := m\<rparr>) T memo = vmemo_ok rb uv T memo"
  by (simp add: vmemo_ok_def)

lemma full_vote_irrelevant [simp]: "full_vote rb (uv\<lparr>votingMemo := m\<rparr>) = full_vote rb uv"
  by (simp add: full_vote_def fun_eq_iff)

lemma decided_at_irrelevant [simp]: "decided_at rb mq n T (uv\<lparr>votingMemo := m\<rparr>) L d = decided_at rb mq n T uv L d"
  by (simp add: decided_at_def supporters_def)

lemma decide_primes_sound:
  assumes C: "comparable_set n T" "inj_on Hash T"
  shows "decide_primes rb mq n uv cv vs memo = Some (d, memo') \<Longrightarrow> vmemo_ok rb uv T memo \<Longrightarrow> set vs \<subseteq> T \<Longrightarrow>
    vmemo_ok rb uv T memo' \<and> (d \<noteq> undecided \<longrightarrow> cv = Some d \<and> (\<exists>u \<in> set vs. unat (mq n) \<le> card (supporters rb uv n u d)))"
proof (induction vs arbitrary: memo)
  case (Cons v vs)
  obtain dv m1 where dv: "decide_vote rb mq n uv v memo = Some (dv, m1)"
    using Cons.prems(1) by (auto split: bind_splits)
  note snd = decide_vote_sound [OF C _ Cons.prems(2) dv]
  have m1: "vmemo_ok rb uv T m1" using snd(1) Cons.prems(3) by simp
  show ?case
  proof (cases "dv \<noteq> undecided \<and> cv = Some dv")
    case True
    then show ?thesis using Cons.prems(1,3) dv snd by auto
  next
    case False
    then have "decide_primes rb mq n uv cv vs m1 = Some (d, memo')"
      using Cons.prems(1) dv by (auto split: bind_splits if_splits)
    then show ?thesis using Cons.IH [OF _ m1] Cons.prems(3) by auto
  qed
qed simp

lemma decide_level_sound:
  assumes C: "comparable_set n T" "inj_on Hash T"
  shows "decide_level rb mq n uv cv uss memo = Some (d, memo') \<Longrightarrow> vmemo_ok rb uv T memo \<Longrightarrow> set (concat uss) \<subseteq> T \<Longrightarrow>
    vmemo_ok rb uv T memo' \<and> (d \<noteq> undecided \<longrightarrow> cv = Some d \<and> (\<exists>u \<in> set (concat uss). unat (mq n) \<le> card (supporters rb uv n u d)))"
proof (induction uss arbitrary: memo)
  case (Cons us uss)
  obtain dl m1 where dl: "decide_primes rb mq n uv cv us memo = Some (dl, m1)"
    using Cons.prems(1) by (auto split: bind_splits)
  note snd = decide_primes_sound [OF C dl Cons.prems(2)]
  show ?case
  proof (cases "dl = undecided")
    case True
    then have "decide_level rb mq n uv cv uss m1 = Some (d, memo')" using Cons.prems(1) dl by simp
    then show ?thesis using Cons.IH [of m1] snd Cons.prems(3) by auto
  next
    case False
    then show ?thesis using Cons.prems(1,3) dl snd by auto
  qed
qed simp

lemma UnitsOnLevel_contents:
  assumes D: "dag_inv d es" and v: "v \<in> set (concat (contents (UnitsOnLevel d l)))"
  shows "v \<in> set es \<and> Level v = l"
proof -
  have w: "su_wf (nProc d) (UnitsOnLevel d l)"
    using dag_invD(3) [OF D]
    by (auto simp: UnitsOnLevel_def getFiber_def on_level.represents_def fm_wf_def su.new_wf split: option.splits)
  obtain us where us: "us \<in> set (contents (UnitsOnLevel d l))" "v \<in> set us" using v by auto
  then obtain i where i: "i < length (contents (UnitsOnLevel d l))" "us = contents (UnitsOnLevel d l) ! i"
    by (auto simp: in_set_conv_nth)
  then have "i < unat (nProc d)" using w by (simp add: su_wf_def)
  then have "unat (of_nat i :: u16) = i" by (rule unat_of_nat_less)
  then have "v \<in> set (Get (UnitsOnLevel d l) (of_nat i))" using us i by (simp add: Get_def)
  then show ?thesis using UnitsOnLevel_inv [OF D] by simp
qed

lemma decide_levels_sound:
  assumes C: "comparable_set (nProc d) T" "inj_on Hash T" and D: "dag_inv d es" "set es \<subseteq> T"
  shows "decide_levels rb mq d uv ls memo = Some ((x, L), memo') \<Longrightarrow> vmemo_ok rb uv T memo \<Longrightarrow>
    \<forall>l \<in> set ls. Level (uv_uc uv) + 2 \<le> l \<Longrightarrow>
    vmemo_ok rb uv T memo' \<and> (x \<noteq> undecided \<longrightarrow> decided_at rb mq (nProc d) T uv L x)"
proof (induction ls arbitrary: memo)
  case (Cons l ls)
  have sub: "set (concat (contents (UnitsOnLevel d l))) \<subseteq> T" using UnitsOnLevel_contents [OF D(1)] D(2) by blast
  obtain dl m1 where dl: "decide_level rb mq (nProc d) uv (CommonVote rb uv l) (contents (UnitsOnLevel d l)) memo = Some (dl, m1)"
    using Cons.prems(1) by (auto split: bind_splits)
  note snd = decide_level_sound [OF C dl Cons.prems(2) sub]
  show ?case
  proof (cases "dl = undecided")
    case True
    then have "decide_levels rb mq d uv ls m1 = Some ((x, L), memo')" using Cons.prems(1) dl by simp
    then show ?thesis using Cons.IH [of m1] snd Cons.prems(3) by simp
  next
    case False
    then have x: "x = dl" "L = l" "memo' = m1" using Cons.prems(1) dl by auto
    have "decided_at rb mq (nProc d) T uv l dl"
      using False snd Cons.prems(3) UnitsOnLevel_contents [OF D(1)] sub unfolding decided_at_def by fastforce
    then show ?thesis using x snd by simp
  qed
qed simp

text \<open>A decider for the unit \<open>uc\<close> whose memo is correct, as new and as after earlier undecided calls.\<close>

definition decider_ok :: "randomBytes \<Rightarrow> Unit set \<Rightarrow> unanimousVoter \<Rightarrow> superMajorityDecider \<Rightarrow> bool" where
  "decider_ok rb T uv smd \<longleftrightarrow> smd_decision smd = undecided
     \<and> (\<exists>m. smd_uv smd = uv\<lparr>votingMemo := m\<rparr> \<and> vmemo_ok rb uv T m)"

lemma decider_ok_new: "decider_ok rb T (newUnanimousVoter uc prefix zero) (newSuperMajorityDecider uc prefix zero)"
  by (auto simp: decider_ok_def newSuperMajorityDecider_def newUnanimousVoter_def vmemo_ok_def intro!: exI [of _ Map.empty])

lemma DecideUnitIsPopular_sound:
  assumes C: "comparable_set (nProc d) T" "inj_on Hash T" and D: "dag_inv d es" "set es \<subseteq> T"
    and o: "decider_ok rb T uv smd" and dec: "DecideUnitIsPopular rb mq d smd mx = Some ((x, L), smd')"
  shows "(x \<noteq> undecided \<longrightarrow> decided_at rb mq (nProc d) T uv L x) \<and> (x = undecided \<longrightarrow> decider_ok rb T uv smd')"
proof -
  obtain m where m: "smd_uv smd = uv\<lparr>votingMemo := m\<rparr>" "vmemo_ok rb uv T m" "smd_decision smd = undecided"
    using o by (auto simp: decider_ok_def)
  let ?uv = "uv\<lparr>votingMemo := m\<rparr>"
  obtain y l memo where l: "decide_levels rb mq d ?uv [Level (uv_uc uv) + firstVotingRound + 1..getMaxDecideLevel ?uv mx] m = Some ((y, l), memo)"
      and r: "(x, L, smd') = (if y \<noteq> undecided then (y, l, smd\<lparr>smd_decision := y, smd_decisionLevel := l, smd_uv := dispose ?uv\<rparr>)
        else (undecided, -1, smd\<lparr>smd_uv := ?uv\<lparr>votingMemo := memo\<rparr>\<rparr>))"
    using dec m by (auto simp: DecideUnitIsPopular_def Let_def split: bind_splits if_splits)
  have "vmemo_ok rb ?uv T memo \<and> (y \<noteq> undecided \<longrightarrow> decided_at rb mq (nProc d) T ?uv l y)"
    using decide_levels_sound [OF C D l] m(2) by (simp add: firstVotingRound_def)
  then show ?thesis using r m(3) by (auto simp: decider_ok_def split: if_splits)
qed

text \<open>
  C8: agreement. Let the units of two dags belong to a set without forks in which every unit sees a
  quorum one level below, with quorums of more than half of the processes. If two deciders for the
  same unit, each run on its own dag, both decide, their decisions are equal, whatever the levels
  at which they decide.
\<close>

theorem decisions_agree:
  assumes "voting_set mq n T" "0 \<le> Level (uv_uc uv)"
    and "dag_reach mq n d1 es1" "set es1 \<subseteq> T" "dag_reach mq n d2 es2" "set es2 \<subseteq> T"
    and "decider_ok rb T uv smd1" "decider_ok rb T uv smd2"
    and "DecideUnitIsPopular rb mq d1 smd1 m1 = Some ((x1, l1), s1)" "x1 \<noteq> undecided"
    and "DecideUnitIsPopular rb mq d2 smd2 m2 = Some ((x2, l2), s2)" "x2 \<noteq> undecided"
  shows "x1 = x2"
proof -
  note D = voting_setD [OF assms(1)]
  have pos: "0 < mq n" using D(6) by (simp add: word_less_nat_alt)
  have 1: "decided_at rb mq n T uv l1 x1"
    using DecideUnitIsPopular_sound [OF _ D(2) _ assms(4,7,9)] dag_reach_inv [OF assms(3) pos] D(1) assms(10) by auto
  have 2: "decided_at rb mq n T uv l2 x2"
    using DecideUnitIsPopular_sound [OF _ D(2) _ assms(6,8,11)] dag_reach_inv [OF assms(5) pos] D(1) assms(12) by auto
  show ?thesis
    using decided_unique_le [OF assms(1,2) 1 2] decided_unique_le [OF assms(1,2) 2 1] by (cases "l1 \<le> l2") auto
qed


text \<open>A chain of three units of a single process, in which the lowest is decided popular at level 2.\<close>

definition demo_chain :: "(dagcore \<times> Unit list) go" where
  "demo_chain = do { s1 \<leftarrow> demo_add (demo_pu 0 [-1] 1) (New_core 1 1 0, []);
                     s2 \<leftarrow> demo_add (demo_pu 0 [0] 2) s1;
                     demo_add (demo_pu 0 [1] 3) s2 }"

definition demo_c :: "nat \<Rightarrow> Unit" where
  "demo_c i = (case demo_chain of Some (_, es) \<Rightarrow> es ! i | None \<Rightarrow> demo_a0)"

definition demo_rb :: randomBytes where
  "demo_rb p l = Some [0]"

lemma demo_chain_units: "map_option snd demo_chain = Some [demo_c 0, demo_c 1, demo_c 2]"
  by code_simp

lemma demo_chain_reach:
  obtains d where "demo_chain = Some (d, [demo_c 0, demo_c 1, demo_c 2])" "dag_reach demo_mq 1 d [demo_c 0, demo_c 1, demo_c 2]"
proof -
  have pos: "0 < demo_mq 1" by code_simp
  obtain s1 s2 s3 where s: "demo_add (demo_pu 0 [-1] 1) (New_core 1 1 0, []) = Some s1"
      "demo_add (demo_pu 0 [0] 2) s1 = Some s2" "demo_add (demo_pu 0 [1] 3) s2 = Some s3" and d: "demo_chain = Some s3"
    using demo_chain_units by (auto simp: demo_chain_def split: bind_splits)
  have add: "dag_reach demo_mq 1 (fst s') (snd s')"
    if "demo_add pu s = Some s'" "dag_reach demo_mq 1 (fst s) (snd s)" for pu s s'
    using demo_add_reach [of pu "fst s" "snd s" "fst s'" "snd s'" 1] that dag_reach_inv [OF that(2) pos] by simp
  have 0: "dag_reach demo_mq 1 (New_core 1 1 0) []" by (rule dag_reach.start) simp
  have 3: "dag_reach demo_mq 1 (fst s3) (snd s3)" using add [OF s(3) add [OF s(2) add [OF s(1)]]] 0 by simp
  have "snd s3 = [demo_c 0, demo_c 1, demo_c 2]" using demo_chain_units unfolding d by simp
  then show thesis using that [of "fst s3"] 3 unfolding d by (cases s3) simp
qed

lemma card_pids_filter: "card {p. p < n \<and> P p} = length (filter P (pids n))"
proof -
  have "{p. p < n \<and> P p} = set (filter P (pids n))" by auto
  then show ?thesis using distinct_card [of "filter P (pids n)"] by simp
qed

lemma demo_voting_set: "voting_set demo_mq 1 (set [demo_c 0, demo_c 1, demo_c 2])"
proof -
  have pos: "0 < demo_mq 1" by code_simp
  obtain d where d: "dag_reach demo_mq 1 d [demo_c 0, demo_c 1, demo_c 2]" by (rule demo_chain_reach)
  have U: "units_inv 1 [demo_c 0, demo_c 1, demo_c 2]" using dag_invD(1) [of d] dag_reach_inv [OF d pos] by auto
  have "no_forks (set [demo_c 0, demo_c 1, demo_c 2])" unfolding no_forks_def by code_simp
  moreover have "quorum_below demo_mq 1 (set [demo_c 0, demo_c 1, demo_c 2])"
    unfolding quorum_below_def card_pids_filter by code_simp
  moreover have "inj_on Hash (set [demo_c 0, demo_c 1, demo_c 2])" by (rule inj_onI) (rule units_invD(5) [OF U])
  moreover have "\<forall>u \<in> set [demo_c 0, demo_c 1, demo_c 2]. 0 \<le> Level u" "unat (1 :: u16) < 2 * unat (demo_mq 1)" by code_simp+
  ultimately show ?thesis unfolding voting_set_def using units_inv_comparable [OF U] by blast
qed

lemma demo_decision:
  "(case demo_chain of None \<Rightarrow> None | Some (d, _) \<Rightarrow>
     map_option fst (DecideUnitIsPopular demo_rb demo_mq d (newSuperMajorityDecider (demo_c 0) 10 3) 2)) = Some (popular, 2)"
  by code_simp

theorem decisions_agree_witness:
  "\<exists>d s. map_option fst demo_chain = Some d
     \<and> DecideUnitIsPopular demo_rb demo_mq d (newSuperMajorityDecider (demo_c 0) 10 3) 2 = Some ((popular, 2), s)
     \<and> (\<forall>x l s'. DecideUnitIsPopular demo_rb demo_mq d (newSuperMajorityDecider (demo_c 0) 10 3) 2 = Some ((x, l), s') \<longrightarrow> x = popular)"
proof -
  obtain d where d: "demo_chain = Some (d, [demo_c 0, demo_c 1, demo_c 2])" "dag_reach demo_mq 1 d [demo_c 0, demo_c 1, demo_c 2]"
    by (rule demo_chain_reach)
  then obtain s where s: "DecideUnitIsPopular demo_rb demo_mq d (newSuperMajorityDecider (demo_c 0) 10 3) 2 = Some ((popular, 2), s)"
    using demo_decision unfolding d(1) by auto
  let ?uv = "newUnanimousVoter (demo_c 0) 10 3"
  have uc: "0 \<le> Level (uv_uc ?uv)" by code_simp
  have "x = popular" if "x = popular" for x
    using decisions_agree [OF demo_voting_set uc d(2) order.refl d(2) order.refl decider_ok_new decider_ok_new s _ s] that by simp
  then show ?thesis using d(1) s by auto
qed

lemma demo_pvote:
  "pvote demo_rb (newUnanimousVoter (demo_c 0) 10 3) (round_of (newUnanimousVoter (demo_c 0) 10 3) (demo_c 2)) (demo_c 2)
     = Some popular"
  by code_simp

theorem VoteUsing_memo_transparent_witness:
  "\<exists>memo. VoteUsing demo_rb (newUnanimousVoter (demo_c 0) 10 3) (demo_c 2) Map.empty = Some (popular, memo)
     \<and> vmemo_ok demo_rb (newUnanimousVoter (demo_c 0) 10 3) (set [demo_c 0, demo_c 1, demo_c 2]) memo"
  using VoteUsing_memo_transparent
      [OF voting_setD(1,2) [OF demo_voting_set], of "demo_c 2" demo_rb "newUnanimousVoter (demo_c 0) 10 3" Map.empty]
  unfolding demo_pvote by (simp add: vmemo_ok_def)

end
