(* ===== verification/Extender.thy ===== *)
theory Extender
  imports Config CRP Timing Agreement
begin

text \<open>
  The extender (\<open>pkg/linear/extender.go\<close>): it picks timing units level by level, by the votes of
  \<open>Voting\<close> in the order of \<open>CRP\<close>, and hands out timing rounds. Its state is the record \<open>Extender\<close>;
  the dag and the random source, which the Go struct points to and which grow between the calls,
  are arguments of the operations. The main theorem says that any two extenders produce the same
  sequence of timing rounds, as far as both have got.
\<close>

section \<open>Definitions\<close>

record Extender =
  deciders :: "hash \<rightharpoonup> superMajorityDecider"
  lastTUs :: "Unit option list"
  currentTU :: "Unit option"
  lastDecideResult :: bool
  ext_zeroVoteRound :: int
  ext_firstDecidingRound :: int
  ext_orderStartLevel :: int
  ext_deterministicPrefix :: int
  ext_crpFixedPrefix :: u16

definition NewExtender :: "'k conf \<Rightarrow> Extender" where
  "NewExtender cnf =
     \<lparr>deciders = Map.empty,
      lastTUs = replicate (nat (ZeroVoteRoundForCommonVote cnf)) None,
      currentTU = None,
      lastDecideResult = False,
      ext_zeroVoteRound = ZeroVoteRoundForCommonVote cnf,
      ext_firstDecidingRound = FirstDecidingRound cnf,
      ext_orderStartLevel = OrderStartLevel cnf,
      ext_deterministicPrefix = CommonVoteDeterministicPrefix cnf,
      ext_crpFixedPrefix = CRPFixedPrefix cnf\<rparr>"

definition getDecider :: "Extender \<Rightarrow> Unit \<Rightarrow> superMajorityDecider \<times> Extender" where
  "getDecider ext uc =
     (case deciders ext (Hash uc) of
        Some decider \<Rightarrow> (decider, ext)
      | None \<Rightarrow>
          let decider = newSuperMajorityDecider uc (ext_deterministicPrefix ext) (ext_zeroVoteRound ext)
          in (decider, ext\<lparr>deciders := (deciders ext)(Hash uc \<mapsto> decider)\<rparr>))"

definition dagMaxLevel :: "dagcore \<Rightarrow> int" where
  "dagMaxLevel d =
     Iterate (MaximalUnitsPerProcess d)
       (\<lambda>us maxLevel. (True, foldl (\<lambda>m v. if Level v > m then Level v else m) maxLevel us)) (-1)"

text \<open>
  The closure given to \<open>CRPIterate\<close>. The decider is a pointer kept in the map, so what
  \<open>DecideUnitIsPopular\<close> writes to it is stored there. The state is the extender and the flag
  \<open>decided\<close>; \<open>ext.lastTUs[1:]\<close> panics on the empty slice.
\<close>

definition try_unit ::
  "randomBytes \<Rightarrow> (u16 \<Rightarrow> u16) \<Rightarrow> dagcore \<Rightarrow> int \<Rightarrow> Unit \<Rightarrow> Extender \<times> bool \<Rightarrow> (bool \<times> (Extender \<times> bool)) go" where
  "try_unit rb mq d maxLevel uc s =
     (case s of (ext, decided) \<Rightarrow>
      case getDecider ext uc of (decider, ext1) \<Rightarrow>
        do { ((decision, decidedOn), decider') \<leftarrow> DecideUnitIsPopular rb mq d decider maxLevel;
             let ext2 = ext1\<lparr>deciders := (deciders ext1)(Hash uc \<mapsto> decider')\<rparr>;
             if decision = popular then
               (case lastTUs ext2 of
                  [] \<Rightarrow> None
                | _ # tus \<Rightarrow>
                    Some (False, (ext2\<lparr>lastTUs := tus @ [currentTU ext2], currentTU := Some uc,
                                       lastDecideResult := True, deciders := Map.empty\<rparr>, True)))
             else if decision = undecided then Some (False, (ext2, decided))
             else Some (True, (ext2, decided)) })"

definition next_level :: "Extender \<Rightarrow> int" where
  "next_level ext = (case currentTU ext of None \<Rightarrow> ext_orderStartLevel ext | Some tu \<Rightarrow> Level tu + 1)"

definition NextRound ::
  "(bytes \<Rightarrow> bytes) \<Rightarrow> randomBytes \<Rightarrow> (u16 \<Rightarrow> u16) \<Rightarrow> dagcore \<Rightarrow> Extender \<Rightarrow> (TimingRound option \<times> Extender) go" where
  "NextRound shake rb mq d ext0 =
     (let ext = (if lastDecideResult ext0 then ext0\<lparr>lastDecideResult := False\<rparr> else ext0);
          maxLevel = dagMaxLevel d
      in
      if maxLevel < ext_orderStartLevel ext then Some (None, ext)
      else
        let level = next_level ext in
        if maxLevel < level + ext_firstDecidingRound ext then Some (None, ext)
        else
          do { (randomBytesPresent, (ext', decided)) \<leftarrow>
                 CRPIterate shake rb d (ext_crpFixedPrefix ext) level (currentTU ext)
                   (try_unit rb mq d maxLevel) (ext, False);
               if \<not> decided then Some (None, ext')
               else (case currentTU ext' of
                       None \<Rightarrow> None
                     | Some tu \<Rightarrow> Some (Some (newTimingRound tu (lastTUs ext')), ext')) })"

section \<open>Revealed random bytes\<close>

text \<open>What is computed with a part of the random bytes is computed with all of them.\<close>

lemma revealsD: "reveals rb R \<Longrightarrow> rb p l = Some b \<Longrightarrow> R p l = Some b"
  by (simp add: reveals_def)

lemma CommonVote_reveals: "reveals rb R \<Longrightarrow> CommonVote rb uv l = Some v \<Longrightarrow> CommonVote R uv l = Some v"
  by (auto simp: CommonVote_def coinToss_def Let_def split: if_splits bind_splits dest: revealsD)

lemma or_common_mono: "(\<And>v. c = Some v \<Longrightarrow> c' = Some v) \<Longrightarrow> or_common c r = Some x \<Longrightarrow> or_common c' r = Some x"
  by (auto simp: or_common_def split: if_splits)

text \<open>The order on voters: the second returns whenever the first does, with the same result.\<close>

definition extends_voter :: "('a \<Rightarrow> 's \<Rightarrow> 'b go) \<Rightarrow> ('a \<Rightarrow> 's \<Rightarrow> 'b go) \<Rightarrow> bool" where
  "extends_voter f g \<longleftrightarrow> (\<forall>u s x. f u s = Some x \<longrightarrow> g u s = Some x)"

lemma extends_voterD: "extends_voter f g \<Longrightarrow> f u s = Some x \<Longrightarrow> g u s = Some x"
  by (simp add: extends_voter_def)

lemma vote_floor_mono:
  assumes "extends_voter f g"
  shows "vote_floor l f ws one zero fin s = Some x \<Longrightarrow> vote_floor l g ws one zero fin s = Some x"
proof (induction ws arbitrary: one zero fin s)
  case (Cons w ws)
  show ?case
  proof (cases "Level (primeAncestor l w) = l")
    case False
    then show ?thesis using Cons by (simp add: Let_def)
  next
    case True
    obtain vt fin' s' where f: "f (primeAncestor l w) s = Some ((vt, fin'), s')"
      using Cons.prems True by (auto simp: Let_def split: bind_splits)
    then show ?thesis using Cons True extends_voterD [OF assms, OF f] by (auto simp: Let_def split: if_splits)
  qed
qed simp

lemma vote_pids_mono:
  assumes "extends_voter f g"
  shows "vote_pids u f ps vr s = Some x \<Longrightarrow> vote_pids u g ps vr s = Some x"
proof (induction ps arbitrary: vr s)
  case (Cons p ps)
  obtain one zero fin s' where f: "vote_floor (Level u - 1) f (Floor u p) False False False s = Some ((one, zero, fin), s')"
    using Cons.prems by (auto split: bind_splits)
  show ?case using Cons f vote_floor_mono [OF assms f] by (auto simp: Let_def split: if_splits)
qed simp

lemma voteUsingPrimeAncestors_mono:
  "extends_voter f g \<Longrightarrow> voteUsingPrimeAncestors u f s = Some x \<Longrightarrow> voteUsingPrimeAncestors u g s = Some x"
  unfolding voteUsingPrimeAncestors_def by (rule vote_pids_mono)

lemma unanimous_step_mono:
  assumes "\<And>v. c = Some v \<Longrightarrow> c' = Some v" "extends_voter f g"
  shows "extends_voter (unanimous_step c f) (unanimous_step c' g)"
  unfolding extends_voter_def
proof (intro allI impI)
  fix u s x assume a: "unanimous_step c f u s = Some x"
  obtain lv memo where s: "s = (lv, memo)" by fastforce
  obtain r memo' y where r: "f u memo = Some (r, memo')" "or_common c r = Some y"
    using a s by (auto simp: unanimous_step_def split: bind_splits)
  show "unanimous_step c' g u s = Some x"
    using a s r extends_voterD [OF assms(2), OF r(1)] or_common_mono [OF assms(1) r(2)] by (auto simp: unanimous_step_def)
qed

lemma VoteUsing_round_reveals:
  assumes "reveals rb R"
  shows "extends_voter (VoteUsing_round rb uv k) (VoteUsing_round R uv k)"
proof (induction k)
  case (Suc k)
  have m: "voteUsingPrimeAncestors u (unanimous_step (CommonVote rb uv l) (VoteUsing_round rb uv k)) s = Some x \<Longrightarrow>
      voteUsingPrimeAncestors u (unanimous_step (CommonVote R uv l) (VoteUsing_round R uv k)) s = Some x" for u l s x
    by (rule voteUsingPrimeAncestors_mono [OF unanimous_step_mono [OF _ Suc]]) (rule CommonVote_reveals [OF assms])
  show ?case
    unfolding extends_voter_def
  proof (intro allI impI)
    fix u memo x assume a: "VoteUsing_round rb uv (Suc k) u memo = Some x"
    show "VoteUsing_round R uv (Suc k) u memo = Some x"
    proof (cases "memo (Hash u) = None \<and> k \<noteq> 0")
      case True
      then obtain y where "voteUsingPrimeAncestors u (unanimous_step (CommonVote rb uv (Level u - 1)) (VoteUsing_round rb uv k)) (None, memo) = Some y"
        using a by (auto split: bind_splits)
      from m [OF this] this a True show ?thesis by simp
    next
      case False
      then show ?thesis using a by (auto split: option.splits)
    qed
  qed
qed (simp add: extends_voter_def)

lemma VoteUsing_reveals: "reveals rb R \<Longrightarrow> extends_voter (VoteUsing rb uv) (VoteUsing R uv)"
  unfolding extends_voter_def VoteUsing_def by (blast dest: extends_voterD [OF VoteUsing_round_reveals])

lemma decide_step_mono:
  assumes "\<And>v. c = Some v \<Longrightarrow> c' = Some v" "extends_voter f g"
  shows "extends_voter (decide_step mq n c f) (decide_step mq n c' g)"
  unfolding extends_voter_def
proof (intro allI impI)
  fix u s x assume a: "decide_step mq n c f u s = Some x"
  obtain vr memo where s: "s = (vr, memo)" by fastforce
  obtain r memo' y where r: "f u memo = Some (r, memo')" "or_common c r = Some y"
    using a s by (auto simp: decide_step_def split: bind_splits)
  show "decide_step mq n c' g u s = Some x"
    using a s r extends_voterD [OF assms(2), OF r(1)] or_common_mono [OF assms(1) r(2)] by (auto simp: decide_step_def)
qed

lemma decide_vote_reveals:
  assumes R: "reveals rb R" and d: "decide_vote rb mq n uv u memo = Some x"
  shows "decide_vote R mq n uv u memo = Some x"
proof -
  let ?s = "\<lambda>rb. decide_step mq n (CommonVote rb uv (Level u - 1)) (VoteUsing rb uv)"
  have m: "extends_voter (?s rb) (?s R)"
    by (rule decide_step_mono [OF _ VoteUsing_reveals [OF R]]) (rule CommonVote_reveals [OF R])
  obtain y where "voteUsingPrimeAncestors u (?s rb) (\<lparr>vr_popular = 0, vr_unpopular = 0\<rparr>, memo) = Some y"
    using d by (auto simp: decide_vote_def split: bind_splits)
  from voteUsingPrimeAncestors_mono [OF m, OF this] this d show ?thesis by (simp add: decide_vote_def)
qed

lemma decide_primes_reveals:
  assumes R: "reveals rb R" and c: "\<And>v. c = Some v \<Longrightarrow> c' = Some v"
  shows "decide_primes rb mq n uv c vs memo = Some x \<Longrightarrow> decide_primes R mq n uv c' vs memo = Some x"
proof (induction vs arbitrary: memo)
  case (Cons v vs)
  obtain dv m1 where dv: "decide_vote rb mq n uv v memo = Some (dv, m1)" using Cons.prems by (auto split: bind_splits)
  show ?case
    using Cons dv decide_vote_reveals [OF R dv] by (auto split: if_splits bind_splits dest: c)
qed simp

lemma decide_level_reveals:
  assumes R: "reveals rb R" and c: "\<And>v. c = Some v \<Longrightarrow> c' = Some v"
  shows "decide_level rb mq n uv c vss memo = Some x \<Longrightarrow> decide_level R mq n uv c' vss memo = Some x"
proof (induction vss arbitrary: memo)
  case (Cons vs vss)
  obtain dv m1 where dv: "decide_primes rb mq n uv c vs memo = Some (dv, m1)" using Cons.prems by (auto split: bind_splits)
  have "decide_primes R mq n uv c' vs memo = Some (dv, m1)" by (rule decide_primes_reveals [OF R c dv])
  then show ?case using Cons dv by (auto split: if_splits)
qed simp

lemma decide_levels_reveals:
  assumes R: "reveals rb R"
  shows "decide_levels rb mq d uv ls memo = Some x \<Longrightarrow> decide_levels R mq d uv ls memo = Some x"
proof (induction ls arbitrary: memo)
  case (Cons l ls)
  obtain dv m1 where dv: "decide_level rb mq (nProc d) uv (CommonVote rb uv l) (contents (UnitsOnLevel d l)) memo = Some (dv, m1)"
    using Cons.prems by (auto split: bind_splits)
  have "decide_level R mq (nProc d) uv (CommonVote R uv l) (contents (UnitsOnLevel d l)) memo = Some (dv, m1)"
    by (rule decide_level_reveals [OF R _ dv]) (rule CommonVote_reveals [OF R])
  then show ?case using Cons dv by (auto split: if_splits)
qed simp

lemma DecideUnitIsPopular_reveals:
  assumes R: "reveals rb R" and d: "DecideUnitIsPopular rb mq d smd mx = Some x"
  shows "DecideUnitIsPopular R mq d smd mx = Some x"
proof (cases "smd_decision smd = undecided")
  case True
  let ?uv = "smd_uv smd"
  obtain y where "decide_levels rb mq d ?uv [Level (uv_uc ?uv) + firstVotingRound + 1..getMaxDecideLevel ?uv mx] (votingMemo ?uv) = Some y"
    using d True by (auto simp: DecideUnitIsPopular_def Let_def split: bind_splits)
  from decide_levels_reveals [OF R this] this d True show ?thesis by (simp add: DecideUnitIsPopular_def Let_def)
next
  case False
  then show ?thesis using d by (simp add: DecideUnitIsPopular_def)
qed

section \<open>The highest level\<close>

lemma foldl_max_level:
  "foldl (\<lambda>m v. if Level v > m then Level v else m) m us \<in> insert m (Level ` set us)
   \<and> (\<forall>x \<in> insert m (Level ` set us). x \<le> foldl (\<lambda>m v. if Level v > m then Level v else m) m us)"
proof (induction us arbitrary: m)
  case (Cons u us)
  show ?case using Cons.IH [of "if Level u > m then Level u else m"] by (auto split: if_splits)
qed simp

lemma foldl_concat: "foldl (foldl f) m uss = foldl f m (concat uss)"
  by (induction uss arbitrary: m) simp_all

lemma dagMaxLevel_eq:
  assumes D: "dag_inv d es"
  shows "dagMaxLevel d = foldl (\<lambda>m v. if Level v > m then Level v else m) (-1) (concat (map (Get (maxUnits d)) (pids (nProc d))))"
  unfolding dagMaxLevel_def Iterate_def MaximalUnitsPerProcess_def Get_contents [OF dag_invD(5) [OF D]]
  by (simp add: Iterate_all foldl_concat)

lemma dagMaxLevel_unit:
  assumes D: "dag_inv d es" and m: "0 \<le> dagMaxLevel d"
  shows "\<exists>u \<in> set es. Level u = dagMaxLevel d"
proof -
  obtain u where u: "u \<in> set (concat (map (Get (maxUnits d)) (pids (nProc d))))" "Level u = dagMaxLevel d"
    using foldl_max_level [of "-1" "concat (map (Get (maxUnits d)) (pids (nProc d)))"] m unfolding dagMaxLevel_eq [OF D] by force
  then show ?thesis using dag_invD(6) [OF D] by auto
qed

section \<open>A popular unit is in every high dag\<close>

lemma prime_ancestors_nonempty:
  assumes S: "voting_set mq n T" and w: "w \<in> T" "0 < Level w"
  shows "prime_ancestors w \<noteq> []"
proof -
  note D = voting_setD [OF S]
  have "unat (mq n) \<le> card {p. p < n \<and> floor_ancestors (Level w - 1) (Floor w p) \<noteq> []}" "0 < unat (mq n)"
    using D(4,6) w unfolding quorum_below_def by auto
  then obtain p where "p < n" "floor_ancestors (Level w - 1) (Floor w p) \<noteq> []"
    by (metis (mono_tags, lifting) Collect_empty_eq card.empty not_le)
  then show ?thesis using slot_ids_pids [OF D(1) w(1)] by (auto simp: prime_ancestors_def)
qed

lemma unit_on_lower_level:
  assumes S: "voting_set mq n T" and E: "comparable_set n E" "E \<subseteq> T"
  shows "w \<in> E \<Longrightarrow> Level w = l + int k \<Longrightarrow> 0 \<le> l \<Longrightarrow> \<exists>v \<in> E. Level v = l"
proof (induction k arbitrary: w)
  case (Suc k)
  then obtain v where v: "v \<in> set (prime_ancestors w)" using prime_ancestors_nonempty [OF S, of w] E(2) by (metis last_in_set of_nat_0_less_iff subsetD zero_less_Suc add_nonneg_pos)
  then have "v \<in> E" "Level v = l + int k" using prime_ancestors_props [OF E(1) Suc.prems(1) v] Suc.prems(2) by auto
  then show ?case using Suc.IH Suc.prems(3) by blast
qed auto

text \<open>In a closed set without the candidate all votes are against it.\<close>

lemma absent_unpopular:
  assumes S: "voting_set mq n T" and E: "comparable_set n E" "E \<subseteq> T" and u: "u \<in> T" "u \<notin> E" and uv: "uv_uc uv = u"
  shows "w \<in> E \<Longrightarrow> Level w = Level u + int (Suc k) \<Longrightarrow> pvote rb uv (Suc k) w = Some unpopular"
proof (induction k arbitrary: w)
  case 0
  have "\<not> above w u"
  proof
    assume "above w u"
    then have "dominates w u" using above_iff_dominates [OF voting_setD(1) [OF S]] 0 E(2) u(1) by blast
    then obtain x where x: "reaches w x" "Equal (preunit_of x) (preunit_of u)" by (auto simp: dominates_def)
    have "x \<in> E" using reaches_closed [OF x(1) comparable_setD(1) [OF E(1)] 0(1)] .
    moreover have "Hash x = Hash u" using x(2) by (simp add: Equal_def Hash_def)
    ultimately show False using voting_setD(2) [OF S] E(2) u by (metis inj_onD subsetD)
  qed
  then show ?case using uv by (simp add: initialVote_def Above_def)
next
  case (Suc k)
  have "0 < Level w" using Suc.prems(2) voting_setD(5) [OF S u(1)] by simp
  then have ne: "prime_ancestors w \<noteq> []" using prime_ancestors_nonempty [OF S] Suc.prems(1) E(2) by blast
  have "pvote rb uv (Suc k) v = Some unpopular" if "v \<in> set (prime_ancestors w)" for v
    using Suc.IH prime_ancestors_props [OF E(1) Suc.prems(1) that] Suc.prems(2) by simp
  then have m: "map (\<lambda>v. do { r \<leftarrow> pvote rb uv (Suc k) v; or_common (CommonVote rb uv (Level w - 1)) r }) (prime_ancestors w)
      = map (\<lambda>_. Some unpopular) (prime_ancestors w)" by (auto simp: or_common_def)
  have un: "unan_st (Some unpopular) (map (\<lambda>_. Some unpopular) xs) = Some (Some unpopular, False)" for xs :: "Unit list"
    by (induction xs) simp_all
  have "unan_st None (map (\<lambda>_. Some unpopular) (prime_ancestors w)) = Some (Some unpopular, False)"
    using ne un by (cases "prime_ancestors w") simp_all
  then show ?case using m by (simp only: pvote.simps(2) [of rb uv "Suc k"]) simp
qed

lemma popular_seen:
  assumes S: "voting_set mq n T" and E: "comparable_set n E" "E \<subseteq> T" and u: "u \<in> T"
    and z: "1 < zero" "zero \<le> prefix" and w: "w \<in> E" "Level u + zero \<le> Level w"
    and d: "decided_at rb mq n T (newUnanimousVoter u prefix zero) L popular"
  shows "u \<in> E"
proof (rule ccontr)
  assume out: "u \<notin> E"
  let ?uv = "newUnanimousVoter u prefix zero"
  note D = voting_setD [OF S]
  have uv: "uv_uc ?uv = u" "zeroVoteRoundForCommonVote ?uv = zero" "commonVoteDeterministicPrefix ?uv = prefix"
    by (simp_all add: newUnanimousVoter_def)
  have "Level w = (Level u + zero) + int (nat (Level w - (Level u + zero)))" using w(2) by simp
  moreover have "0 \<le> Level u + zero" using D(5) [OF u] z(1) by simp
  ultimately obtain w0 where w0: "w0 \<in> E" "Level w0 = Level u + zero"
    using unit_on_lower_level [OF S E w(1)] by blast
  have "full_vote rb ?uv v = Some unpopular" if "v \<in> set (floor_ancestors (Level w0 - 1) (Floor w0 p))" for v p
  proof -
    note v = floor_ancestors_props [OF E(1) w0(1) that]
    have l: "Level v = Level u + int (Suc (nat (zero - 2)))" using v(2) w0(2) z(1) by simp
    have "pvote rb ?uv (Suc (nat (zero - 2))) v = Some unpopular" by (rule absent_unpopular [OF S E u out uv(1) v(1) l])
    moreover have "round_of ?uv v = Suc (nat (zero - 2))" unfolding round_of_def uv(1) l by (simp only: add_diff_cancel_left' nat_int)
    ultimately show ?thesis by (simp add: full_vote_def or_common_def)
  qed
  then have "{p. p < n \<and> floor_ancestors (Level w0 - 1) (Floor w0 p) \<noteq> []} \<subseteq> supporters rb ?uv n w0 unpopular"
    unfolding supporters_def by (auto simp: neq_Nil_conv)
  then have "card {p. p < n \<and> floor_ancestors (Level w0 - 1) (Floor w0 p) \<noteq> []} \<le> card (supporters rb ?uv n w0 unpopular)"
    using supporters_sub finite_subset finite_code by (intro card_mono) blast+
  moreover have "unat (mq n) \<le> card {p. p < n \<and> floor_ancestors (Level w0 - 1) (Floor w0 p) \<noteq> []}"
  proof -
    have "0 < Level w0" "w0 \<in> T" using D(5) [OF u] w0 E(2) z(1) by auto
    then show ?thesis using D(4) unfolding quorum_below_def by blast
  qed
  moreover have "CommonVote rb ?uv (Level u + zero) = Some unpopular"
    using z by (simp add: CommonVote_def uv firstVotingRound_def)
  ultimately have "decided_at rb mq n T ?uv (Level u + zero) unpopular"
    unfolding decided_at_def using w0 E(2) z(1) uv(1) by auto
  then show False
    using decided_unique_le [OF S _ d] decided_unique_le [OF S _ _ d] D(5) [OF u] uv(1) by (metis linorder_linear vote.distinct(1))
qed

section \<open>The state of an extender\<close>

definition unpopular_for :: "randomBytes \<Rightarrow> (u16 \<Rightarrow> u16) \<Rightarrow> u16 \<Rightarrow> Unit set \<Rightarrow> Extender \<Rightarrow> Unit \<Rightarrow> bool" where
  "unpopular_for R mq n T ext u \<longleftrightarrow>
     (\<exists>L. decided_at R mq n T (newUnanimousVoter u (ext_deterministicPrefix ext) (ext_zeroVoteRound ext)) L unpopular)"

definition popular_for :: "randomBytes \<Rightarrow> (u16 \<Rightarrow> u16) \<Rightarrow> u16 \<Rightarrow> Unit set \<Rightarrow> Extender \<Rightarrow> Unit \<Rightarrow> bool" where
  "popular_for R mq n T ext u \<longleftrightarrow>
     (\<exists>L. decided_at R mq n T (newUnanimousVoter u (ext_deterministicPrefix ext) (ext_zeroVoteRound ext)) L popular)"

text \<open>Every decider in the map is fresh enough for its unit or holds a correct decision against it.\<close>

definition decider_state :: "randomBytes \<Rightarrow> (u16 \<Rightarrow> u16) \<Rightarrow> u16 \<Rightarrow> Unit set \<Rightarrow> Extender \<Rightarrow> Unit \<Rightarrow> superMajorityDecider \<Rightarrow> bool" where
  "decider_state R mq n T ext u smd \<longleftrightarrow>
     decider_ok R T (newUnanimousVoter u (ext_deterministicPrefix ext) (ext_zeroVoteRound ext)) smd
     \<or> smd_decision smd = unpopular \<and> unpopular_for R mq n T ext u"

definition ext_inv :: "randomBytes \<Rightarrow> (u16 \<Rightarrow> u16) \<Rightarrow> u16 \<Rightarrow> Unit set \<Rightarrow> Extender \<Rightarrow> bool" where
  "ext_inv R mq n T ext \<longleftrightarrow>
     (\<forall>u \<in> T. \<forall>smd. deciders ext (Hash u) = Some smd \<longrightarrow> decider_state R mq n T ext u smd)
     \<and> (\<forall>tu. currentTU ext = Some tu \<longrightarrow> tu \<in> T)"

text \<open>The configuration of an extender, which its operations never change.\<close>

definition ext_conf :: "Extender \<Rightarrow> int \<times> int \<times> int \<times> int \<times> u16" where
  "ext_conf ext = (ext_zeroVoteRound ext, ext_firstDecidingRound ext, ext_orderStartLevel ext, ext_deterministicPrefix ext,
     ext_crpFixedPrefix ext)"

lemma getDecider_state:
  assumes "ext_inv R mq n T ext" "u \<in> T" "getDecider ext u = (smd, ext1)"
  shows "decider_state R mq n T ext u smd" "ext_conf ext1 = ext_conf ext" "lastTUs ext1 = lastTUs ext" "currentTU ext1 = currentTU ext"
    and "\<exists>m. ext1 = ext\<lparr>deciders := m\<rparr> \<and> (\<forall>h. h \<noteq> Hash u \<longrightarrow> m h = deciders ext h)"
proof -
  show 1: "\<exists>m. ext1 = ext\<lparr>deciders := m\<rparr> \<and> (\<forall>h. h \<noteq> Hash u \<longrightarrow> m h = deciders ext h)"
    using assms(3) by (intro exI [of _ "deciders ext1"]) (auto simp: getDecider_def Let_def split: option.splits)
  then show "ext_conf ext1 = ext_conf ext" "lastTUs ext1 = lastTUs ext" "currentTU ext1 = currentTU ext"
    by (auto simp: ext_conf_def)
  show "decider_state R mq n T ext u smd"
  proof (cases "deciders ext (Hash u)")
    case None
    then show ?thesis using assms(3) decider_ok_new by (auto simp: getDecider_def Let_def decider_state_def)
  next
    case (Some s)
    then show ?thesis using assms by (auto simp: getDecider_def ext_inv_def)
  qed
qed

lemma decide_state:
  assumes S: "voting_set mq n T" and D: "dag_inv d es" "nProc d = n" "set es \<subseteq> T" and R: "reveals rb R"
    and s: "decider_state R mq n T ext u smd" and dec: "DecideUnitIsPopular rb mq d smd mx = Some ((x, l), smd')"
  shows "x = popular \<Longrightarrow> popular_for R mq n T ext u" "x = unpopular \<Longrightarrow> unpopular_for R mq n T ext u"
    and "x \<noteq> popular \<Longrightarrow> decider_state R mq n T ext u smd'"
proof -
  let ?uv = "newUnanimousVoter u (ext_deterministicPrefix ext) (ext_zeroVoteRound ext)"
  note dR = DecideUnitIsPopular_reveals [OF R dec]
  have C: "comparable_set (nProc d) T" "inj_on Hash T" using voting_setD(1,2) [OF S] D(2) by auto
  have A: "(x = popular \<longrightarrow> popular_for R mq n T ext u) \<and> (x = unpopular \<longrightarrow> unpopular_for R mq n T ext u)
      \<and> (x \<noteq> popular \<longrightarrow> decider_state R mq n T ext u smd')"
  proof (cases "decider_ok R T ?uv smd")
    case True
    note o = DecideUnitIsPopular_sound [OF C D(1,3) True dR]
    have "x = unpopular \<Longrightarrow> smd_decision smd' = unpopular"
      using dR True by (auto simp: DecideUnitIsPopular_def decider_ok_def Let_def split: bind_splits if_splits)
    then show ?thesis
      using o D(2) by (cases x) (auto simp: popular_for_def unpopular_for_def decider_state_def)
  next
    case False
    then have u: "smd_decision smd = unpopular" "unpopular_for R mq n T ext u" using s by (auto simp: decider_state_def)
    then have "x = unpopular" "smd' = smd" using dR by (auto simp: DecideUnitIsPopular_def)
    then show ?thesis using u by (simp add: decider_state_def)
  qed
  then show "x = popular \<Longrightarrow> popular_for R mq n T ext u" "x = unpopular \<Longrightarrow> unpopular_for R mq n T ext u"
    and "x \<noteq> popular \<Longrightarrow> decider_state R mq n T ext u smd'" by auto
qed

text \<open>The flag \<open>decided\<close> and the fields that \<open>try_unit\<close> keeps while it passes units.\<close>

definition trying :: "randomBytes \<Rightarrow> (u16 \<Rightarrow> u16) \<Rightarrow> u16 \<Rightarrow> Unit set \<Rightarrow> Extender \<Rightarrow> Extender \<times> bool \<Rightarrow> bool" where
  "trying R mq n T ext0 s \<longleftrightarrow> ext_inv R mq n T (fst s) \<and> ext_conf (fst s) = ext_conf ext0 \<and> lastTUs (fst s) = lastTUs ext0
     \<and> currentTU (fst s) = currentTU ext0 \<and> \<not> snd s"

lemma conf_states:
  assumes "ext_conf ext = ext_conf ext'"
  shows "popular_for R mq n T ext = popular_for R mq n T ext'" "unpopular_for R mq n T ext = unpopular_for R mq n T ext'"
    "decider_state R mq n T ext = decider_state R mq n T ext'"
  using assms by (auto simp: ext_conf_def popular_for_def unpopular_for_def decider_state_def fun_eq_iff)

lemma try_unit_cases:
  assumes S: "voting_set mq n T" and D: "dag_inv d es" "nProc d = n" "set es \<subseteq> T" and R: "reveals rb R"
    and t: "trying R mq n T ext0 s" and u: "u \<in> T" and r: "try_unit rb mq d mx u s = Some (g, s')"
  obtains (passed) "g" "trying R mq n T ext0 s'" "unpopular_for R mq n T ext0 u"
    | (waiting) "\<not> g" "trying R mq n T ext0 s'"
    | (picked) ext' where "\<not> g" "s' = (ext', True)" "popular_for R mq n T ext0 u" "ext_inv R mq n T ext'" "ext_conf ext' = ext_conf ext0"
        "lastTUs ext0 \<noteq> []" "lastTUs ext' = tl (lastTUs ext0) @ [currentTU ext0]" "currentTU ext' = Some u"
proof -
  obtain ext dec where s: "s = (ext, dec)" by fastforce
  obtain smd ext1 where gd: "getDecider ext u = (smd, ext1)" by fastforce
  have ti: "ext_inv R mq n T ext" "ext_conf ext = ext_conf ext0" "lastTUs ext = lastTUs ext0" "currentTU ext = currentTU ext0" "\<not> dec"
    using t s by (auto simp: trying_def)
  note G = getDecider_state [OF ti(1) u gd]
  obtain x l smd' where x: "DecideUnitIsPopular rb mq d smd mx = Some ((x, l), smd')"
    using r s gd by (auto simp: try_unit_def split: bind_splits)
  note ds = decide_state [OF S D R G(1) x, unfolded conf_states [OF ti(2)]]
  let ?ext2 = "ext1\<lparr>deciders := (deciders ext1)(Hash u \<mapsto> smd')\<rparr>"
  have cf: "ext_conf ?ext2 = ext_conf ext0" "lastTUs ?ext2 = lastTUs ext0" "currentTU ?ext2 = currentTU ext0"
    using G(2-4) ti by (simp_all add: ext_conf_def)
  have inv2: "ext_inv R mq n T ?ext2" if np: "x \<noteq> popular"
    unfolding ext_inv_def conf_states(3) [OF cf(1)]
  proof (intro conjI ballI allI impI)
    fix v smd'' assume v: "v \<in> T" "deciders ?ext2 (Hash v) = Some smd''"
    show "decider_state R mq n T ext0 v smd''"
    proof (cases "v = u")
      case True
      then show ?thesis using v ds(3) [OF np] by simp
    next
      case False
      then have "Hash v \<noteq> Hash u" using voting_setD(2) [OF S] u v(1) by (auto dest: inj_onD)
      then have "deciders ext (Hash v) = Some smd''" using v(2) G(5) by auto
      then show ?thesis using ti(1) v(1) conf_states(3) [OF ti(2), of R mq n T] by (simp add: ext_inv_def)
    qed
  qed (use ti(1,4) cf(3) in \<open>simp add: ext_inv_def\<close>)
  show thesis
  proof (cases x)
    case popular
    then obtain a tus where l2: "lastTUs ?ext2 = a # tus" using r s gd x by (auto simp: try_unit_def Let_def split: list.splits)
    let ?e = "?ext2\<lparr>lastTUs := tus @ [currentTU ?ext2], currentTU := Some u, lastDecideResult := True, deciders := Map.empty\<rparr>"
    have "g = False \<and> s' = (?e, True)" using r s gd x l2 popular by (auto simp: try_unit_def Let_def)
    moreover have "ext_inv R mq n T ?e" using u by (simp add: ext_inv_def)
    moreover have "ext_conf ?e = ext_conf ext0" using cf(1) by (simp add: ext_conf_def)
    moreover have "lastTUs ext0 \<noteq> []" "lastTUs ?e = tl (lastTUs ext0) @ [currentTU ext0]" using l2 cf(2,3) by simp_all
    moreover have "popular_for R mq n T ext0 u" using ds(1) popular by blast
    ultimately show ?thesis using picked [of ?e] by simp
  next
    case undecided
    then have "g = False" "s' = (?ext2, dec)" using r s gd x by (auto simp: try_unit_def Let_def)
    then show ?thesis using waiting inv2 undecided cf ti(5) by (simp add: trying_def)
  next
    case unpopular
    then have "g = True" "s' = (?ext2, dec)" using r s gd x by (auto simp: try_unit_def Let_def)
    then show ?thesis using passed inv2 unpopular cf ti(5) ds(2) by (simp add: trying_def)
  qed
qed

section \<open>The next round\<close>

text \<open>
  The setting in which extenders work: an overall set of units with hashes of the right length and
  levels that do not decrease from parent to child, and a configuration whose zero round lies in the
  deterministic prefix and not after the first deciding round.
\<close>

definition linear_setting :: "(bytes \<Rightarrow> bytes) \<Rightarrow> (u16 \<Rightarrow> u16) \<Rightarrow> u16 \<Rightarrow> Unit set \<Rightarrow> bool" where
  "linear_setting shake mq n T \<longleftrightarrow> voting_set mq n T \<and> unat n \<le> 32768
     \<and> (\<forall>u \<in> T. length (Hash u) = HashLength) \<and> (\<forall>x. length (shake x) = 32)
     \<and> (\<forall>u \<in> T. \<forall>p. Some p \<in> set (Parents u) \<longrightarrow> Level p \<le> Level u)"

definition conf_ok :: "int \<times> int \<times> int \<times> int \<times> u16 \<Rightarrow> bool" where
  "conf_ok c = (case c of (zero, first, start, prefix, _) \<Rightarrow> 1 < zero \<and> zero \<le> prefix \<and> zero \<le> first \<and> 0 \<le> start)"

definition crp_prefix :: "u16 \<Rightarrow> Extender \<Rightarrow> u16 set" where
  "crp_prefix n ext = set (fst (splitProcesses n (ext_crpFixedPrefix ext) (next_level ext) (currentTU ext)))"

definition chosen :: "(bytes \<Rightarrow> bytes) \<Rightarrow> randomBytes \<Rightarrow> (u16 \<Rightarrow> u16) \<Rightarrow> u16 \<Rightarrow> Unit set \<Rightarrow> Extender \<Rightarrow> Unit set \<Rightarrow> Unit \<Rightarrow> bool" where
  "chosen shake R mq n T ext E u \<longleftrightarrow> u \<in> E \<and> Level u = next_level ext \<and> popular_for R mq n T ext u
     \<and> (\<exists>w \<in> E. next_level ext + ext_firstDecidingRound ext \<le> Level w)
     \<and> (\<forall>v \<in> E. Level v = next_level ext \<longrightarrow>
          v = u \<or> unpopular_for R mq n T ext v \<or> crp_before shake R (next_level ext) (crp_prefix n ext) u v)"

lemma NextRound_reset:
  "NextRound shake rb mq d ext = NextRound shake rb mq d (ext\<lparr>lastDecideResult := False\<rparr>)"
  by (cases ext) (simp add: NextRound_def)

lemma NextRound_cases:
  assumes L: "linear_setting shake mq n T" and D: "dag_inv d es" "nProc d = n" "set es \<subseteq> T" and R: "reveals rb R"
    and I: "ext_inv R mq n T ext" and c: "conf_ok (ext_conf ext)"
    and r: "NextRound shake rb mq d ext = Some (tr, ext')"
  obtains (none) "tr = None" "ext_inv R mq n T ext'" "ext_conf ext' = ext_conf ext" "lastTUs ext' = lastTUs ext" "currentTU ext' = currentTU ext"
    | (round) u where "tr = Some (newTimingRound u (lastTUs ext'))" "ext_inv R mq n T ext'" "ext_conf ext' = ext_conf ext" "lastTUs ext \<noteq> []"
        "lastTUs ext' = tl (lastTUs ext) @ [currentTU ext]" "currentTU ext' = Some u" "chosen shake R mq n T ext (set es) u"
proof -
  let ?e = "ext\<lparr>lastDecideResult := False\<rparr>"
  have S: "voting_set mq n T" and n: "unat n \<le> 32768" and sh: "\<forall>x. length (shake x) = 32"
    and h: "\<forall>u \<in> set es. length (Hash u) = HashLength" using L D(3) by (auto simp: linear_setting_def)
  note V = voting_setD [OF S]
  have e: "ext_inv R mq n T ?e" "ext_conf ?e = ext_conf ext" "next_level ?e = next_level ext"
    using I by (simp_all add: ext_inv_def ext_conf_def next_level_def decider_state_def unpopular_for_def split: option.splits)
  have tu: "0 \<le> next_level ext" "\<forall>t. currentTU ext = Some t \<longrightarrow> Creator t < nProc d"
    using I c V(5) wf_setD(1) [OF comparable_setD(1) [OF V(1)]] D(2)
    by (auto simp: next_level_def ext_inv_def conf_ok_def ext_conf_def wf_node_def split: option.splits)
  show thesis
  proof (cases "dagMaxLevel d < ext_orderStartLevel ext \<or> dagMaxLevel d < next_level ext + ext_firstDecidingRound ext")
    case True
    then have "tr = None" "ext' = ?e" using r unfolding NextRound_reset [of shake rb mq d ext] by (auto simp: NextRound_def Let_def e(3) split: if_splits)
    then show ?thesis using none e by simp
  next
    case False
    then have mx: "next_level ext + ext_firstDecidingRound ext \<le> dagMaxLevel d" by simp
    then obtain w where w: "w \<in> set es" "Level w = dagMaxLevel d"
      using dagMaxLevel_unit [OF D(1)] tu(1) c by (auto simp: conf_ok_def ext_conf_def)
    obtain rp ext1 dec where it: "CRPIterate shake rb d (ext_crpFixedPrefix ext) (next_level ext) (currentTU ext) (try_unit rb mq d (dagMaxLevel d)) (?e, False)
        = Some (rp, (ext1, dec))"
      and res: "(if \<not> dec then Some (None, ext1) else (case currentTU ext1 of None \<Rightarrow> None | Some tu \<Rightarrow> Some (Some (newTimingRound tu (lastTUs ext1)), ext1))) = Some (tr, ext')"
      using r False unfolding NextRound_reset [of shake rb mq d ext] by (auto simp: NextRound_def Let_def e(3) split: bind_splits)
    have st: "trying R mq n T ext s' \<and> unpopular_for R mq n T ext u"
      if "u \<in> set es" "trying R mq n T ext s" "try_unit rb mq d (dagMaxLevel d) u s = Some (True, s')" for u s s'
      using try_unit_cases [OF S D R that(2) _ that(3)] that(1) D(3) by blast
    have t0: "trying R mq n T ext (?e, False)" using e by (simp add: trying_def)
    have idle: thesis if "trying R mq n T ext (ext1, dec)" using none res that by (auto simp: trying_def)
    show ?thesis
    proof (rule CRPIterate_cases [OF D(1) h sh tu(1) _ tu(2) R it, of "trying R mq n T ext" "unpopular_for R mq n T ext"])
      fix u sm
      assume u: "u \<in> set es" "Level u = next_level ext" "trying R mq n T ext sm" "try_unit rb mq d (dagMaxLevel d) u sm = Some (False, ext1, dec)"
        and o: "\<forall>v \<in> set es. Level v = next_level ext \<longrightarrow> v = u \<or> unpopular_for R mq n T ext v
          \<or> crp_before shake R (next_level ext) (set (fst (splitProcesses (nProc d) (ext_crpFixedPrefix ext) (next_level ext) (currentTU ext)))) u v"
      show thesis
      proof (rule try_unit_cases [OF S D R u(3) _ u(4)])
        fix e' assume p: "(ext1, dec) = (e', True)" "popular_for R mq n T ext u" "ext_inv R mq n T e'" "ext_conf e' = ext_conf ext"
          "lastTUs ext \<noteq> []" "lastTUs e' = tl (lastTUs ext) @ [currentTU ext]" "currentTU e' = Some u"
        have "chosen shake R mq n T ext (set es) u"
          unfolding chosen_def crp_prefix_def
          using u(1,2) p(2) o D(2) mx w(1) by (auto intro!: bexI [of _ w] simp: w(2))
        then show thesis using round [of u] p res by simp
      qed (use u(1) D(3) idle in auto)
    qed (use st t0 n D(2) idle in auto)
  qed
qed

section \<open>Agreement of extenders\<close>

lemma popular_for_unique:
  assumes S: "voting_set mq n T" and u: "u \<in> T"
  shows "popular_for R mq n T ext u \<Longrightarrow> \<not> unpopular_for R mq n T ext u"
proof
  assume "popular_for R mq n T ext u" "unpopular_for R mq n T ext u"
  then obtain L L' where d: "decided_at R mq n T (newUnanimousVoter u (ext_deterministicPrefix ext) (ext_zeroVoteRound ext)) L popular"
      "decided_at R mq n T (newUnanimousVoter u (ext_deterministicPrefix ext) (ext_zeroVoteRound ext)) L' unpopular"
    by (auto simp: popular_for_def unpopular_for_def)
  have "0 \<le> Level (uv_uc (newUnanimousVoter u (ext_deterministicPrefix ext) (ext_zeroVoteRound ext)))"
    using voting_setD(5) [OF S u] by (simp add: newUnanimousVoter_def)
  then show False
    using decided_unique_le [OF S _ d] decided_unique_le [OF S _ d(2,1)] by (metis linorder_linear vote.distinct(1))
qed

lemma chosen_seen:
  assumes S: "voting_set mq n T" and c: "conf_ok (ext_conf ext)" and E: "comparable_set n E" "E \<subseteq> T"
    and u: "u \<in> T" "Level u = next_level ext" "popular_for R mq n T ext u"
    and w: "w \<in> E" "next_level ext + ext_firstDecidingRound ext \<le> Level w"
  shows "u \<in> E"
proof -
  obtain L where "decided_at R mq n T (newUnanimousVoter u (ext_deterministicPrefix ext) (ext_zeroVoteRound ext)) L popular"
    using u(3) by (auto simp: popular_for_def)
  from popular_seen [OF S E u(1) _ _ w(1) _ this] show ?thesis
    using c w(2) u(2) by (auto simp: conf_ok_def ext_conf_def)
qed

lemma chosen_unique:
  assumes L: "linear_setting shake mq n T" and E: "comparable_set n E1" "E1 \<subseteq> T" "comparable_set n E2" "E2 \<subseteq> T"
    and c: "conf_ok (ext_conf ext1)" "ext_conf ext2 = ext_conf ext1" and cur: "currentTU ext2 = currentTU ext1"
    and ch: "chosen shake R mq n T ext1 E1 u" "chosen shake R mq n T ext2 E2 v"
  shows "u = v"
proof (rule ccontr)
  assume neq: "u \<noteq> v"
  have S: "voting_set mq n T" using L by (simp add: linear_setting_def)
  have nl: "next_level ext2 = next_level ext1" "ext_firstDecidingRound ext2 = ext_firstDecidingRound ext1"
    "crp_prefix n ext2 = crp_prefix n ext1"
    using c(2) cur by (simp_all add: next_level_def ext_conf_def crp_prefix_def cong: option.case_cong)
  note pf = conf_states [OF c(2)]
  have u: "u \<in> T" "Level u = next_level ext1" "popular_for R mq n T ext1 u" and v: "v \<in> T" "Level v = next_level ext1" "popular_for R mq n T ext1 v"
    using ch E nl(1) pf(1) by (auto simp: chosen_def)
  obtain w1 w2 where w: "w1 \<in> E1" "next_level ext1 + ext_firstDecidingRound ext1 \<le> Level w1"
      "w2 \<in> E2" "next_level ext1 + ext_firstDecidingRound ext1 \<le> Level w2"
    using ch nl by (auto simp: chosen_def)
  have "u \<in> E2" "v \<in> E1" using chosen_seen [OF S c(1) E(3,4) u w(3,4)] chosen_seen [OF S c(1) E(1,2) v w(1,2)] by auto
  then have "crp_before shake R (next_level ext1) (crp_prefix n ext1) u v" "crp_before shake R (next_level ext1) (crp_prefix n ext1) v u"
    using ch neq popular_for_unique [OF S u(1,3)] popular_for_unique [OF S v(1,3)] u(2) v(2) nl pf
    by (auto simp: chosen_def)
  then show False using crp_before_asym by blast
qed

text \<open>
  Runs of an extender: \<open>NextRound\<close> is called again and again, on dags with units of \<open>T\<close> and with
  the random bytes revealed by then. The list holds the timing rounds returned so far.
\<close>

inductive ext_run :: "(bytes \<Rightarrow> bytes) \<Rightarrow> randomBytes \<Rightarrow> (u16 \<Rightarrow> u16) \<Rightarrow> u16 \<Rightarrow> Unit set \<Rightarrow> 'k conf \<Rightarrow> Extender \<Rightarrow> TimingRound list \<Rightarrow> bool"
  for shake R mq n T cnf where
  start: "ext_run shake R mq n T cnf (NewExtender cnf) []"
| call: "ext_run shake R mq n T cnf ext trs \<Longrightarrow> dag_reach mq n d es \<Longrightarrow> set es \<subseteq> T \<Longrightarrow> reveals rb R \<Longrightarrow>
    NextRound shake rb mq d ext = Some (tr, ext') \<Longrightarrow>
    ext_run shake R mq n T cnf ext' (trs @ (case tr of None \<Rightarrow> [] | Some t \<Rightarrow> [t]))"

text \<open>The current and the last timing units, as determined by the rounds returned so far.\<close>

definition tu_state :: "'k conf \<Rightarrow> TimingRound list \<Rightarrow> Unit option \<times> Unit option list" where
  "tu_state cnf trs =
     foldl (\<lambda>s tr. (Some (tr_currentTU tr), tl (snd s) @ [fst s]))
       (None, replicate (nat (ZeroVoteRoundForCommonVote cnf)) None) trs"

definition round_ok ::
  "(bytes \<Rightarrow> bytes) \<Rightarrow> randomBytes \<Rightarrow> (u16 \<Rightarrow> u16) \<Rightarrow> u16 \<Rightarrow> Unit set \<Rightarrow> 'k conf \<Rightarrow> TimingRound list \<Rightarrow> TimingRound \<Rightarrow> bool" where
  "round_ok shake R mq n T cnf trs tr \<longleftrightarrow>
     tr_lastTUs tr = snd (tu_state cnf (trs @ [tr]))
     \<and> (\<exists>ext E. ext_conf ext = ext_conf (NewExtender cnf) \<and> currentTU ext = fst (tu_state cnf trs)
          \<and> comparable_set n E \<and> E \<subseteq> T \<and> chosen shake R mq n T ext E (tr_currentTU tr))"

lemma tu_state_snoc: "tu_state cnf (trs @ [tr]) = (Some (tr_currentTU tr), tl (snd (tu_state cnf trs)) @ [fst (tu_state cnf trs)])"
  by (simp add: tu_state_def)

lemma ext_run_inv:
  assumes L: "linear_setting shake mq n T" and c: "conf_ok (ext_conf (NewExtender cnf))"
  shows "ext_run shake R mq n T cnf ext trs \<Longrightarrow>
    ext_inv R mq n T ext \<and> ext_conf ext = ext_conf (NewExtender cnf) \<and> (currentTU ext, lastTUs ext) = tu_state cnf trs
    \<and> (\<forall>i < length trs. round_ok shake R mq n T cnf (take i trs) (trs ! i))"
proof (induction rule: ext_run.induct)
  case start
  then show ?case by (simp add: ext_inv_def NewExtender_def tu_state_def)
next
  case (call ext trs d es rb tr ext')
  have S: "voting_set mq n T" using L by (simp add: linear_setting_def)
  have "0 < mq n" using voting_setD(6) [OF S] by (simp add: word_less_nat_alt)
  then have D: "dag_inv d es" "nProc d = n" using dag_reach_inv [OF call.hyps(2)] by auto
  have C: "comparable_set n (set es)" using units_inv_comparable [OF dag_invD(1) [OF D(1)]] D(2) by simp
  have I: "ext_inv R mq n T ext" "ext_conf ext = ext_conf (NewExtender cnf)" "(currentTU ext, lastTUs ext) = tu_state cnf trs"
    and r: "\<forall>i < length trs. round_ok shake R mq n T cnf (take i trs) (trs ! i)" using call.IH by auto
  have c': "conf_ok (ext_conf ext)" using c I(2) by simp
  show ?case
  proof (cases rule: NextRound_cases [OF L D call.hyps(3,4) I(1) c' call.hyps(5)])
    case 1
    then show ?thesis using I r by simp
  next
    case (2 u)
    let ?tr = "newTimingRound u (lastTUs ext')"
    have st: "(currentTU ext', lastTUs ext') = tu_state cnf (trs @ [?tr])"
      using 2 I(3) [symmetric] by (simp add: tu_state_snoc newTimingRound_def)
    have "round_ok shake R mq n T cnf trs ?tr"
      unfolding round_ok_def
    proof (intro conjI exI)
      show "tr_lastTUs ?tr = snd (tu_state cnf (trs @ [?tr]))" unfolding st [symmetric] by (simp add: newTimingRound_def)
      show "ext_conf ext = ext_conf (NewExtender cnf)" "comparable_set n (set es)" "set es \<subseteq> T" using I(2) C call.hyps(3) by auto
      show "currentTU ext = fst (tu_state cnf trs)" using I(3) [symmetric] by simp
      show "chosen shake R mq n T ext (set es) (tr_currentTU ?tr)" using 2(7) by (simp add: newTimingRound_def)
    qed
    then show ?thesis using 2 st r I(2) by (auto simp: nth_append less_Suc_eq)
  qed
qed

lemma runs_agree_at:
  assumes L: "linear_setting shake mq n T" and c: "conf_ok (ext_conf (NewExtender cnf))"
    and r: "\<forall>i < length trs1. round_ok shake R mq n T cnf (take i trs1) (trs1 ! i)"
      "\<forall>i < length trs2. round_ok shake R mq n T cnf (take i trs2) (trs2 ! i)"
  shows "i \<le> length trs1 \<Longrightarrow> i \<le> length trs2 \<Longrightarrow> take i trs1 = take i trs2"
proof (induction i)
  case (Suc i)
  then have eq: "take i trs1 = take i trs2" by simp
  obtain e1 E1 where 1: "tr_lastTUs (trs1 ! i) = snd (tu_state cnf (take i trs1 @ [trs1 ! i]))" "ext_conf e1 = ext_conf (NewExtender cnf)"
      "currentTU e1 = fst (tu_state cnf (take i trs1))" "comparable_set n E1" "E1 \<subseteq> T" "chosen shake R mq n T e1 E1 (tr_currentTU (trs1 ! i))"
    using r(1) Suc.prems(1) unfolding round_ok_def by (auto simp: Suc_le_eq)
  obtain e2 E2 where 2: "tr_lastTUs (trs2 ! i) = snd (tu_state cnf (take i trs2 @ [trs2 ! i]))" "ext_conf e2 = ext_conf (NewExtender cnf)"
      "currentTU e2 = fst (tu_state cnf (take i trs2))" "comparable_set n E2" "E2 \<subseteq> T" "chosen shake R mq n T e2 E2 (tr_currentTU (trs2 ! i))"
    using r(2) Suc.prems(2) unfolding round_ok_def by (auto simp: Suc_le_eq)
  have "tr_currentTU (trs1 ! i) = tr_currentTU (trs2 ! i)"
    by (rule chosen_unique [OF L 1(4,5) 2(4,5) _ _ _ 1(6) 2(6)]) (use c 1 2 eq in auto)
  moreover from this have "tr_lastTUs (trs1 ! i) = tr_lastTUs (trs2 ! i)" using 1(1) 2(1) eq by (simp add: tu_state_snoc)
  ultimately have "trs1 ! i = trs2 ! i" by simp
  then show ?case using eq Suc.prems by (simp add: take_Suc_conv_app_nth)
qed simp

end
