(* ===== verification/Ordering.thy ===== *)
theory Ordering
  imports Extender
begin

text \<open>
  The linear order as a whole. Comparing with the last few timing units is enough to see whether a
  unit was ordered before (the note at \<open>checkIfAlreadyOrdered\<close> in \<open>pkg/linear/timing_round.go\<close>):
  every unit that is high enough is above a timing unit. So over all rounds of an extender each
  unit below a timing unit is ordered exactly once.
\<close>

section \<open>High units are above timing units\<close>

lemma comparable_subset:
  assumes "comparable_set n T" "E \<subseteq> T" "parents_closed E"
  shows "comparable_set n E"
proof -
  have "wf_set n E" using comparable_setD(1) [OF assms(1)] assms(2,3) by (auto simp: wf_set_def)
  moreover have "hash_faithful E" using comparable_setD(2) [OF assms(1)] assms(2) unfolding hash_faithful_def by blast
  ultimately show ?thesis using assms(1,2) unfolding comparable_set_def by blast
qed

lemma above_reaches_set:
  assumes C: "comparable_set n T" "inj_on Hash T" and uv: "u \<in> T" "v \<in> T"
  shows "above u v \<longleftrightarrow> reaches u v"
proof -
  have "dominates u v \<longleftrightarrow> reaches u v"
  proof
    assume "dominates u v"
    then obtain w where w: "reaches u w" "Equal (preunit_of w) (preunit_of v)" by (auto simp: dominates_def)
    then have "w = v"
      using inj_onD [OF C(2) _ reaches_closed [OF w(1) comparable_setD(1) [OF C(1)] uv(1)] uv(2)] by (simp add: Equal_def Hash_def)
    then show "reaches u v" using w by simp
  qed (auto simp: dominates_def intro: Equal_refl)
  then show ?thesis using above_iff_dominates [OF C(1) uv] by simp
qed

lemma high_above_popular:
  assumes S: "voting_set mq n T" and c: "conf_ok (ext_conf ext)" and u: "u \<in> T" "popular_for R mq n T ext u"
    and w: "w \<in> T" "Level u + ext_zeroVoteRound ext \<le> Level w"
  shows "reaches w u"
proof -
  let ?E = "{v. reaches w v}"
  note D = voting_setD [OF S]
  have E: "?E \<subseteq> T" using reaches_closed [OF _ comparable_setD(1) [OF D(1)] w(1)] by blast
  have "reaches w p" if "reaches w v" "Some p \<in> set (Parents v)" for v p
    using reaches_trans [OF that(1) reaches.step [OF that(2) reaches.refl]] .
  then have "parents_closed ?E" unfolding parents_closed_def by blast
  then have C: "comparable_set n ?E" using comparable_subset [OF D(1) E] by blast
  obtain L where "decided_at R mq n T (newUnanimousVoter u (ext_deterministicPrefix ext) (ext_zeroVoteRound ext)) L popular"
    using u(2) by (auto simp: popular_for_def)
  then have "u \<in> ?E"
    using popular_seen [OF S C E u(1), where w = w] c w(2) by (auto simp: conf_ok_def ext_conf_def intro: reaches.refl)
  then show ?thesis by simp
qed

section \<open>The timing units of a run\<close>

definition tu_at :: "TimingRound list \<Rightarrow> nat \<Rightarrow> Unit" where
  "tu_at trs i = tr_currentTU (trs ! i)"

definition tu_list :: "TimingRound list \<Rightarrow> Unit option list" where
  "tu_list trs = None # map (Some \<circ> tr_currentTU) trs"

lemma tu_list_snoc: "tu_list (trs @ [tr]) = tu_list trs @ [Some (tr_currentTU tr)]"
  by (simp add: tu_list_def)

lemma tu_list_nonempty [simp]: "tu_list trs \<noteq> []"
  by (simp add: tu_list_def)

lemma length_tu_list [simp]: "length (tu_list trs) = Suc (length trs)"
  by (simp add: tu_list_def)

lemma tu_state_eq:
  assumes "0 < ZeroVoteRoundForCommonVote cnf"
  shows "tu_state cnf trs =
    (last (tu_list trs), drop (length trs) (replicate (nat (ZeroVoteRoundForCommonVote cnf)) None @ butlast (tu_list trs)))"
proof (induction trs rule: rev_induct)
  case Nil
  then show ?case by (simp add: tu_state_def tu_list_def)
next
  case (snoc tr trs)
  let ?z = "replicate (nat (ZeroVoteRoundForCommonVote cnf)) None :: Unit option list"
  have shift: "k < length xs \<Longrightarrow> tl (drop k xs) @ [x] = drop (Suc k) (xs @ [x])" for k and xs :: "Unit option list" and x
    by (simp add: drop_Suc tl_drop)
  have "length trs < length (?z @ butlast (tu_list trs))" using assms by simp
  from shift [OF this, of "last (tu_list trs)"]
  have "tl (drop (length trs) (?z @ butlast (tu_list trs))) @ [last (tu_list trs)] = drop (Suc (length trs)) (?z @ tu_list trs)"
    by (simp only: append_assoc append_butlast_last_id [OF tu_list_nonempty])
  then show ?case by (simp add: tu_state_snoc snoc tu_list_snoc)
qed

text \<open>The window of timing units that round \<open>j\<close> compares with.\<close>

lemma last_TUs:
  assumes z: "0 < ZeroVoteRoundForCommonVote cnf" and j: "j < length trs"
    and p: "prev = snd (tu_state cnf (take (Suc j) trs))"
  shows "Some t \<in> set prev \<Longrightarrow> \<exists>i < j. t = tu_at trs i"
    and "i < j \<Longrightarrow> j \<le> i + nat (ZeroVoteRoundForCommonVote cnf) \<Longrightarrow> Some (tu_at trs i) \<in> set prev"
    and "prev \<noteq> [] \<and> last prev = (if j = 0 then None else Some (tu_at trs (j - 1)))"
proof -
  let ?k = "nat (ZeroVoteRoundForCommonVote cnf)"
  let ?xs = "replicate ?k None @ None # map (\<lambda>i. Some (tu_at trs i)) [0..<j]"
  have tl: "tu_list (take j trs) = None # map (\<lambda>i. Some (tu_at trs i)) [0..<j]"
    using j by (auto simp: tu_list_def tu_at_def intro!: nth_equalityI)
  have pv: "prev = drop (Suc j) ?xs"
    using j by (simp add: p tu_state_eq [OF z] take_Suc_conv_app_nth tu_list_snoc tl butlast_append)
  show "\<exists>i < j. t = tu_at trs i" if "Some t \<in> set prev"
  proof -
    have "Some t \<in> set ?xs" using that unfolding pv by (rule in_set_dropD)
    then show ?thesis by auto
  qed
  have len: "length ?xs = Suc (?k + j)" by simp
  show "prev \<noteq> [] \<and> last prev = (if j = 0 then None else Some (tu_at trs (j - 1)))"
    using z unfolding pv by (cases j) (auto simp: last_drop)
  show "Some (tu_at trs i) \<in> set prev" if i: "i < j" "j \<le> i + ?k"
  proof -
    have "?xs ! (Suc (?k + i)) = Some (tu_at trs i)" using i by (simp add: nth_append)
    moreover have "drop (Suc j) ?xs ! (?k + i - j) = ?xs ! (Suc j + (?k + i - j))" using i by (intro nth_drop) simp
    moreover have "Suc j + (?k + i - j) = Suc (?k + i)" "?k + i - j < length (drop (Suc j) ?xs)" using i by simp_all
    ultimately show ?thesis unfolding pv by (metis nth_mem)
  qed
qed

text \<open>What a run guarantees about its timing units.\<close>

definition tus_ok :: "'k conf \<Rightarrow> Unit set \<Rightarrow> TimingRound list \<Rightarrow> bool" where
  "tus_ok cnf T trs \<longleftrightarrow>
     (\<forall>j < length trs. tu_at trs j \<in> T \<and> Level (tu_at trs j) = OrderStartLevel cnf + int j
        \<and> tr_lastTUs (trs ! j) = snd (tu_state cnf (take (Suc j) trs)))
     \<and> (\<forall>i j. i < length trs \<longrightarrow> j < length trs \<longrightarrow> int i + ZeroVoteRoundForCommonVote cnf \<le> int j \<longrightarrow>
          reaches (tu_at trs j) (tu_at trs i))"

lemma ext_conf_New: "ext_conf (NewExtender cnf) = (ZeroVoteRoundForCommonVote cnf, FirstDecidingRound cnf, OrderStartLevel cnf,
    CommonVoteDeterministicPrefix cnf, CRPFixedPrefix cnf)"
  by (simp add: ext_conf_def NewExtender_def)

lemma run_tus_ok:
  assumes L: "linear_setting shake mq n T" and c: "conf_ok (ext_conf (NewExtender cnf))"
    and r: "\<forall>i < length trs. round_ok shake R mq n T cnf (take i trs) (trs ! i)"
  shows "tus_ok cnf T trs"
proof -
  have S: "voting_set mq n T" using L by (simp add: linear_setting_def)
  have z: "0 < ZeroVoteRoundForCommonVote cnf" using c by (simp add: ext_conf_New conf_ok_def)
  have cur: "\<exists>e. ext_conf e = ext_conf (NewExtender cnf) \<and> tu_at trs j \<in> T \<and> popular_for R mq n T e (tu_at trs j)
      \<and> Level (tu_at trs j) = (case last (tu_list (take j trs)) of None \<Rightarrow> OrderStartLevel cnf | Some t \<Rightarrow> Level t + 1)
      \<and> tr_lastTUs (trs ! j) = snd (tu_state cnf (take (Suc j) trs))" if j: "j < length trs" for j
  proof -
    obtain e E where e: "ext_conf e = ext_conf (NewExtender cnf)" "currentTU e = fst (tu_state cnf (take j trs))" "E \<subseteq> T"
        "chosen shake R mq n T e E (tu_at trs j)" "tr_lastTUs (trs ! j) = snd (tu_state cnf (take j trs @ [trs ! j]))"
      using r j by (auto simp: round_ok_def tu_at_def)
    have "currentTU e = last (tu_list (take j trs))" "ext_orderStartLevel e = OrderStartLevel cnf"
      using e(1,2) tu_state_eq [OF z] by (simp_all add: ext_conf_New) (simp_all add: ext_conf_def)
    then show ?thesis
      using e j by (intro exI [of _ e]) (auto simp: chosen_def next_level_def take_Suc_conv_app_nth cong: option.case_cong)
  qed
  have lev: "j < length trs \<Longrightarrow> Level (tu_at trs j) = OrderStartLevel cnf + int j" for j
  proof (induction j)
    case 0
    then show ?case using cur [OF 0] by (auto simp: tu_list_def)
  next
    case (Suc j)
    have "last (tu_list (take (Suc j) trs)) = Some (tu_at trs j)"
      using Suc.prems by (simp add: take_Suc_conv_app_nth tu_list_snoc tu_at_def)
    then show ?case using cur [OF Suc.prems] Suc by auto
  qed
  have "reaches (tu_at trs j) (tu_at trs i)"
    if ij: "i < length trs" "j < length trs" "int i + ZeroVoteRoundForCommonVote cnf \<le> int j" for i j
  proof -
    obtain e where e: "ext_conf e = ext_conf (NewExtender cnf)" "popular_for R mq n T e (tu_at trs i)" "tu_at trs i \<in> T"
      using cur [OF ij(1)] by blast
    have "ext_zeroVoteRound e = ZeroVoteRoundForCommonVote cnf" using e(1) unfolding ext_conf_New by (simp add: ext_conf_def)
    then show ?thesis
      using high_above_popular [OF S _ e(3,2)] cur [OF ij(2)] lev [OF ij(1)] lev [OF ij(2)] ij(3) e(1) c by auto
  qed
  then show ?thesis unfolding tus_ok_def using cur lev by blast
qed

section \<open>Every unit is ordered once\<close>

lemma reaches_Level:
  assumes "\<And>u p. u \<in> T \<Longrightarrow> Some p \<in> set (Parents u) \<Longrightarrow> Level p \<le> Level u" "parents_closed T"
  shows "reaches u v \<Longrightarrow> u \<in> T \<Longrightarrow> v \<in> T \<and> Level v \<le> Level u"
proof (induction rule: reaches.induct)
  case (step p u v)
  have "p \<in> T" using assms(2) step.hyps(1) step.prems unfolding parents_closed_def by blast
  then show ?case using step.IH assms(1) [OF step.prems step.hyps(1)] by simp
qed simp

text \<open>The comparison with the last timing units finds all units below earlier ones.\<close>

lemma already_ordered_iff:
  assumes L: "linear_setting shake mq n T" and z: "0 < ZeroVoteRoundForCommonVote cnf" and tus: "tus_ok cnf T trs"
    and j: "j < length trs" and w: "w \<in> T"
  shows "checkIfAlreadyOrdered w (tr_lastTUs (trs ! j)) \<longleftrightarrow> (\<exists>i < j. reaches (tu_at trs i) w)"
proof -
  have S: "voting_set mq n T" using L by (simp add: linear_setting_def)
  note D = voting_setD [OF S]
  have cl: "parents_closed T" using comparable_setD(1) [OF D(1)] by (simp add: wf_set_def)
  have lv: "\<And>u p. u \<in> T \<Longrightarrow> Some p \<in> set (Parents u) \<Longrightarrow> Level p \<le> Level u" using L by (auto simp: linear_setting_def)
  have T: "tu_at trs i \<in> T" "Level (tu_at trs i) = OrderStartLevel cnf + int i" if "i < length trs" for i
    using tus that by (auto simp: tus_ok_def)
  define prev where "prev = tr_lastTUs (trs ! j)"
  have pv: "prev = snd (tu_state cnf (take (Suc j) trs))" using tus j by (auto simp: tus_ok_def prev_def)
  note W = last_TUs [OF z j pv]
  have ab: "Above (Some t) (Some w) \<longleftrightarrow> reaches t w" if "t \<in> T" for t
    using above_reaches_set [OF D(1,2) that w] by (simp add: Above_def)
  show ?thesis
  proof
    assume "checkIfAlreadyOrdered w (tr_lastTUs (trs ! j))"
    then obtain t where t: "t \<in> set prev" "Above t (Some w)"
      unfolding prev_def [symmetric] checkIfAlreadyOrdered_def by (auto simp: list_ex_iff split: list.splits option.splits if_splits)
    obtain t' where t': "t = Some t'" using t(2) unfolding Above_def by (cases t) auto
    then obtain i where "i < j" "t' = tu_at trs i" using W(1) t(1) by blast
    then show "\<exists>i < j. reaches (tu_at trs i) w" using ab T(1) [of i] t(2) t' j by auto
  next
    assume "\<exists>i < j. reaches (tu_at trs i) w"
    then obtain i where i: "i < j" "reaches (tu_at trs i) w" by blast
    obtain m where m: "j = Suc m" using i(1) by (cases j) auto
    have lw: "Level w \<le> Level (tu_at trs m)"
      using reaches_Level [OF lv cl i(2)] T(1,2) [of i] T(2) [of m] i(1) j m by auto
    have "\<exists>t. Some t \<in> set prev \<and> reaches t w \<and> t \<in> T"
    proof (cases "j \<le> i + nat (ZeroVoteRoundForCommonVote cnf)")
      case True
      then show ?thesis using W(2) [OF i(1)] i(2) T(1) [of i] i(1) j by auto
    next
      case False
      then have "reaches (tu_at trs m) (tu_at trs i)" using tus i(1) j m z by (auto simp: tus_ok_def)
      moreover have "Some (tu_at trs m) \<in> set prev" using W(3) m last_in_set [of prev] by simp
      ultimately show ?thesis using reaches_trans i(2) T(1) [of m] j m by auto
    qed
    then have ex: "list_ex (\<lambda>tu. Above tu (Some w)) (rev prev)" using ab by (auto simp: list_ex_iff)
    obtain rest where rv: "rev prev = Some (tu_at trs m) # rest" using W(3) m by (cases prev rule: rev_cases) auto
    show "checkIfAlreadyOrdered w (tr_lastTUs (trs ! j))"
      using lw ex unfolding prev_def [symmetric] checkIfAlreadyOrdered_def rv by simp
  qed
qed

lemma round_units:
  assumes L: "linear_setting shake mq n T" and z: "0 < ZeroVoteRoundForCommonVote cnf" and tus: "tus_ok cnf T trs"
    and j: "j < length trs"
  shows "set (OrderedUnits (trs ! j)) = {w. reaches (tu_at trs j) w \<and> (\<forall>i < j. \<not> reaches (tu_at trs i) w)}"
    and "distinct (OrderedUnits (trs ! j))" "sorted_wrt (\<lambda>u v. \<not> reaches u v) (OrderedUnits (trs ! j))"
proof -
  have S: "voting_set mq n T" using L by (simp add: linear_setting_def)
  note D = voting_setD [OF S]
  have wf: "wf_set n T" using comparable_setD(1) [OF D(1)] .
  have cl: "parents_closed T" using wf by (simp add: wf_set_def)
  have lv: "\<And>u p. u \<in> T \<Longrightarrow> Some p \<in> set (Parents u) \<Longrightarrow> Level p \<le> Level u" using L by (auto simp: linear_setting_def)
  have T: "tu_at trs i \<in> T" "Level (tu_at trs i) = OrderStartLevel cnf + int i" if "i < length trs" for i
    using tus that by (auto simp: tus_ok_def)
  let ?prev = "tr_lastTUs (trs ! j)"
  have pv: "?prev = snd (tu_state cnf (take (Suc j) trs))" using tus j by (auto simp: tus_ok_def)
  have pT: "t \<in> T" if "Some t \<in> set ?prev" for t using last_TUs(1) [OF z j pv that] T(1) j by auto
  have us: "OrderedUnits (trs ! j) = OrderedUnits (newTimingRound (tu_at trs j) ?prev)"
    by (simp add: newTimingRound_def tu_at_def OrderedUnits_def)
  note o = OrderedUnits_in [OF D(2) cl above_reaches_set [OF D(1,2)] lv T(1) [OF j] pT us]
  show "distinct (OrderedUnits (trs ! j))" "sorted_wrt (\<lambda>u v. \<not> reaches u v) (OrderedUnits (trs ! j))" using o by auto
  have new: "\<not> reaches (tu_at trs i) (tu_at trs j)" if "i < j" for i
    using reaches_Level [OF lv cl] T [of i] T(2) [OF j] that j by fastforce
  have "checkIfAlreadyOrdered w ?prev \<longleftrightarrow> (\<exists>i < j. reaches (tu_at trs i) w)" if "reaches (tu_at trs j) w" for w
    using already_ordered_iff [OF L z tus j] reaches_closed [OF that wf T(1) [OF j]] by blast
  then show "set (OrderedUnits (trs ! j)) = {w. reaches (tu_at trs j) w \<and> (\<forall>i < j. \<not> reaches (tu_at trs i) w)}"
    using o(1) new by (auto intro: reaches.refl)
qed


section \<open>Agreement on the linear order\<close>

text \<open>Two runs of extenders give rounds of which one list begins with the other.\<close>

lemma ext_runs_prefix:
  assumes "linear_setting shake mq n T" "conf_ok (ext_conf (NewExtender cnf))"
    and "ext_run shake R mq n T cnf ext1 trs1" "ext_run shake R mq n T cnf ext2 trs2" "length trs1 \<le> length trs2"
  shows "\<exists>rest. trs2 = trs1 @ rest"
proof -
  have "take (length trs1) trs1 = take (length trs1) trs2"
    using runs_agree_at [OF assms(1,2)] ext_run_inv [OF assms(1,2,3)] ext_run_inv [OF assms(1,2,4)] assms(5) by blast
  then show ?thesis by (metis append_take_drop_id take_all_iff order_refl)
qed


section \<open>An example run\<close>

text \<open>A single process with units on levels 0 to 3; the extender picks the unit on level 0.\<close>

definition demo_four :: "(dagcore \<times> Unit list) go" where
  "demo_four = do { s \<leftarrow> demo_chain; demo_add (demo_pu 0 [2] 4) s }"

definition demo_f :: "nat \<Rightarrow> Unit" where
  "demo_f i = (case demo_four of Some (_, es) \<Rightarrow> es ! i | None \<Rightarrow> demo_a0)"

abbreviation demo_T :: "Unit list" where
  "demo_T \<equiv> [demo_f 0, demo_f 1, demo_f 2, demo_f 3]"

lemma demo_four_units: "map_option snd demo_four = Some demo_T"
  by code_simp

lemma demo_four_prefix: "[demo_c 0, demo_c 1, demo_c 2] = [demo_f 0, demo_f 1, demo_f 2]"
  by code_simp

lemma demo_four_reach:
  obtains d where "demo_four = Some (d, demo_T)" "dag_reach demo_mq 1 d demo_T"
proof -
  have pos: "0 < demo_mq 1" by code_simp
  obtain d0 where d0: "demo_chain = Some (d0, [demo_c 0, demo_c 1, demo_c 2])" "dag_reach demo_mq 1 d0 [demo_c 0, demo_c 1, demo_c 2]"
    by (rule demo_chain_reach)
  obtain d es where d: "demo_four = Some (d, es)" "es = demo_T" using demo_four_units by auto
  have "demo_add (demo_pu 0 [2] 4) (d0, [demo_c 0, demo_c 1, demo_c 2]) = Some (d, es)" using d(1) unfolding demo_four_def d0(1) by simp
  then have "dag_reach demo_mq 1 d es" using demo_add_reach d0(2) dag_reach_inv [OF d0(2) pos] by blast
  then show thesis using that d by simp
qed

lemma demo_setting: "linear_setting demo_prio demo_mq 1 (set demo_T)"
proof -
  have pos: "0 < demo_mq 1" by code_simp
  obtain d where d: "dag_reach demo_mq 1 d demo_T" by (rule demo_four_reach)
  have U: "units_inv 1 demo_T" using dag_invD(1) [of d] dag_reach_inv [OF d pos] by auto
  have 1: "no_forks (set demo_T)" unfolding no_forks_def by code_simp
  have 2: "quorum_below demo_mq 1 (set demo_T)" unfolding quorum_below_def card_pids_filter by code_simp
  have 3: "inj_on Hash (set demo_T)" by (rule inj_onI) (rule units_invD(5) [OF U])
  have 4: "\<forall>u \<in> set demo_T. 0 \<le> Level u" "unat (1 :: u16) < 2 * unat (demo_mq 1)" "\<forall>u \<in> set demo_T. length (Hash u) = HashLength"
    by code_simp+
  have 5: "\<forall>x. length (demo_prio x) = 32" by (simp add: demo_prio_def min_def)
  have 6: "\<forall>u \<in> set demo_T. \<forall>p. Some p \<in> set (Parents u) \<longrightarrow> Level p \<le> Level u" using dag_reach_levels [OF d] by blast
  show ?thesis unfolding linear_setting_def voting_set_def using units_inv_comparable [OF U] 1 2 3 4 5 6 by simp
qed

lemma demo_NextRound:
  "(case demo_four of None \<Rightarrow> None | Some (d, _) \<Rightarrow>
      map_option fst (NextRound demo_prio demo_rb demo_mq d (NewExtender (requiredByLinear :: unit conf))))
     = Some (Some (newTimingRound (demo_f 0) [None, None, None]))"
  by code_simp

lemma demo_ext_run:
  "\<exists>ext. ext_run demo_prio demo_rb demo_mq 1 (set demo_T) (requiredByLinear :: unit conf) ext [newTimingRound (demo_f 0) [None, None, None]]"
proof -
  let ?e = "NewExtender (requiredByLinear :: unit conf)"
  obtain d where d: "demo_four = Some (d, demo_T)" "dag_reach demo_mq 1 d demo_T" by (rule demo_four_reach)
  obtain ext where "NextRound demo_prio demo_rb demo_mq d ?e = Some (Some (newTimingRound (demo_f 0) [None, None, None]), ext)"
    using demo_NextRound unfolding d(1) by auto
  from ext_run.call [OF ext_run.start d(2) order.refl reveals_refl this] show ?thesis by auto
qed

lemma demo_conf_ok: "conf_ok (ext_conf (NewExtender (requiredByLinear :: unit conf)))"
  by code_simp



end
