(* ===== verification/Proofs.thy ===== *)
theory Proofs
  imports Config "HOL-Library.AList"
begin

text \<open>
  Epoch proofs (\<open>pkg/creator/proofs.go\<close>): the message about the last timing unit of an epoch, its
  signature shares, and their combination into the proof that a new epoch starts. The threshold
  signatures of \<open>core-go/pkg/crypto/tss\<close> are parameters: the record \<open>tss\<close> of the operations on
  shares \<open>'sh\<close> and signatures \<open>'sg\<close>, and the record \<open>wtk\<close> of the operations of a weak threshold key;
  a nil key is \<^const>\<open>None\<close>, and calling it panics.
\<close>

section \<open>Definitions\<close>

record ('sh, 'sg) wtk =
  Threshold :: u16
  CreateShare :: "bytes \<Rightarrow> 'sh option"
  VerifyShare :: "'sh \<Rightarrow> bytes \<Rightarrow> bool"
  CombineShares :: "'sh list \<Rightarrow> 'sg option"
  VerifySignature :: "'sg \<Rightarrow> bytes \<Rightarrow> bool"

record ('sh, 'sg) tss =
  Owner :: "'sh \<Rightarrow> u16"
  MarshalShare :: "'sh \<Rightarrow> bytes"
  UnmarshalShare :: "bytes \<Rightarrow> 'sh option"
  MarshalSignature :: "'sg \<Rightarrow> bytes"
  UnmarshalSignature :: "bytes \<Rightarrow> 'sg option"

definition proofLength :: nat where
  "proofLength = HashLength + 8"

text \<open>\<open>copy\<close> fills the remaining 32 bytes with the hash.\<close>

definition encodeProof :: "Unit \<Rightarrow> bytes" where
  "encodeProof u = PutUint64 (UnitID (preunit_of u)) @ take HashLength (Hash u @ replicate HashLength 0)"

definition decodeProof :: "bytes \<Rightarrow> int \<times> u16 \<times> EpochID \<times> hash option" where
  "decodeProof msg =
     (if length msg = proofLength then
        (case DecodeID (Uint64 (take 8 msg)) of (h, c, e) \<Rightarrow> (h, c, e, Some (drop 8 msg)))
      else (-1, 0, 0, None))"

text \<open>\<open>data[proofLength:]\<close> panics on shorter data.\<close>

definition slice_from :: "bytes \<Rightarrow> nat \<Rightarrow> bytes go" where
  "slice_from data k = (if k \<le> length data then Some (drop k data) else None)"

definition encodeShare :: "('sh, 'sg) tss \<Rightarrow> 'sh \<Rightarrow> bytes \<Rightarrow> bytes" where
  "encodeShare t share msg = msg @ MarshalShare t share"

definition decodeShare :: "('sh, 'sg) tss \<Rightarrow> bytes \<Rightarrow> (unit + 'sh \<times> bytes) go" where
  "decodeShare t data =
     do { rest \<leftarrow> slice_from data proofLength;
          case UnmarshalShare t rest of
            None \<Rightarrow> Some (Inl ())
          | Some share \<Rightarrow> Some (Inr (share, take proofLength data)) }"

definition encodeSignature :: "('sh, 'sg) tss \<Rightarrow> 'sg \<Rightarrow> bytes \<Rightarrow> bytes" where
  "encodeSignature t sg msg = msg @ MarshalSignature t sg"

definition decodeSignature :: "('sh, 'sg) tss \<Rightarrow> bytes \<Rightarrow> (unit + 'sg \<times> bytes) go" where
  "decodeSignature t data =
     do { rest \<leftarrow> slice_from data proofLength;
          case UnmarshalSignature t rest of
            None \<Rightarrow> Some (Inl ())
          | Some sg \<Rightarrow> Some (Inr (sg, take proofLength data)) }"

definition EpochProof :: "('sh, 'sg) tss \<Rightarrow> preunit \<Rightarrow> ('sh, 'sg) wtk option \<Rightarrow> bool go" where
  "EpochProof t pu wtk =
     (case wtk of
        None \<Rightarrow> Some False
      | Some key \<Rightarrow>
          if \<not> Dealing pu then Some False
          else if pu_epochID pu = 0 then Some True
          else do { r \<leftarrow> decodeSignature t (pu_data pu);
                    case r of
                      Inl _ \<Rightarrow> Some False
                    | Inr (sg, msg) \<Rightarrow>
                        (case decodeProof msg of (_, _, epoch, _) \<Rightarrow>
                           if epoch + 1 \<noteq> pu_epochID pu then Some False
                           else Some (VerifySignature key sg msg)) })"

text \<open>
  The share storage: for each message the shares by owner. Go iterates over the inner map in an
  unspecified order; the list keeps one order.
\<close>

type_synonym 'sh shareDB = "bytes \<rightharpoonup> (u16 \<times> 'sh) list"

definition newShareDB :: "'sh shareDB" where
  "newShareDB = Map.empty"

definition Add_share ::
  "('sh, 'sg) tss \<Rightarrow> ('sh, 'sg) wtk option \<Rightarrow> 'sh shareDB \<Rightarrow> 'sh \<Rightarrow> bytes \<Rightarrow> ('sg option \<times> 'sh shareDB) go" where
  "Add_share t wtk db share msg =
     (let shares = (case db msg of None \<Rightarrow> [] | Some s \<Rightarrow> s);
          shares = AList.update (Owner t share) share shares;
          db = db(msg \<mapsto> shares)
      in do { key \<leftarrow> wtk;
              if length shares \<ge> unat (Threshold key) then Some (CombineShares key (map snd shares), db)
              else Some (None, db) })"

record 'sh epochProofImpl =
  epi_epoch :: EpochID
  epi_shares :: "'sh shareDB"

definition NewProofBuilder :: "EpochID \<Rightarrow> 'sh epochProofImpl" where
  "NewProofBuilder epoch = \<lparr>epi_epoch = epoch, epi_shares = newShareDB\<rparr>"

definition BuildShare :: "('sh, 'sg) tss \<Rightarrow> ('sh, 'sg) wtk option \<Rightarrow> Unit \<Rightarrow> bytes go" where
  "BuildShare t wtk lastTimingUnit =
     do { key \<leftarrow> wtk;
          let msg = encodeProof lastTimingUnit;
          case CreateShare key msg of
            Some share \<Rightarrow> Some (encodeShare t share msg)
          | None \<Rightarrow> Some [] }"

definition Verify :: "('sh, 'sg) tss \<Rightarrow> ('sh, 'sg) wtk option \<Rightarrow> 'sh epochProofImpl \<Rightarrow> preunit \<Rightarrow> bool go" where
  "Verify t wtk epi pu = (if epi_epoch epi + 1 \<noteq> pu_epochID pu then Some False else EpochProof t pu wtk)"

text \<open>
  \<open>TryBuilding\<close>. In the branch for a share that does not verify the code logs \<open>err.Error()\<close> with
  a nil \<open>err\<close>, which panics. The result nil is the inner \<^const>\<open>None\<close>.
\<close>

definition TryBuilding ::
  "('sh, 'sg) tss \<Rightarrow> ('sh, 'sg) wtk option \<Rightarrow> 'k conf \<Rightarrow> 'sh epochProofImpl \<Rightarrow> Unit \<Rightarrow> (bytes option \<times> 'sh epochProofImpl) go" where
  "TryBuilding t wtk cnf epi u =
     (if Level u < OrderStartLevel cnf + EpochLength cnf \<or> pu_data (preunit_of u) = [] then Some (None, epi)
      else do { r \<leftarrow> decodeShare t (pu_data (preunit_of u));
                case r of
                  Inl _ \<Rightarrow> Some (None, epi)
                | Inr (share, msg) \<Rightarrow>
                    do { key \<leftarrow> wtk;
                         if \<not> VerifyShare key share msg then None
                         else do { (sg, db) \<leftarrow> Add_share t wtk (epi_shares epi) share msg;
                                   let epi' = epi\<lparr>epi_shares := db\<rparr>;
                                   case sg of
                                     None \<Rightarrow> Some (None, epi')
                                   | Some s \<Rightarrow> Some (Some (encodeSignature t s msg), epi') } } })"

section \<open>Round trips\<close>

lemma length_encodeProof [simp]: "length (encodeProof u) = proofLength"
  by (simp add: encodeProof_def proofLength_def wire_simps)

lemma decodeProof_encodeProof:
  assumes "length (Hash u) = HashLength" "0 \<le> Height u" "Height u < 2 ^ 16"
  shows "decodeProof (encodeProof u) = (Height u, Creator u, Epoch u, Some (Hash u))"
proof -
  have "DecodeID (UnitID (preunit_of u)) = (Height u, Creator u, Epoch u)"
    using DecodeID_ID_lemma [OF assms(2,3)] by (simp add: UnitID_def Height_def Creator_def Epoch_def)
  then show ?thesis
    using assms(1) by (simp add: decodeProof_def) (simp add: encodeProof_def wire_simps)
qed

text \<open>What the code relies on of the share and signature encodings of the library.\<close>

definition marshals :: "('sh, 'sg) tss \<Rightarrow> bool" where
  "marshals t \<longleftrightarrow> (\<forall>s. UnmarshalShare t (MarshalShare t s) = Some s)
     \<and> (\<forall>s. UnmarshalSignature t (MarshalSignature t s) = Some s)"

lemma decode_encode:
  assumes "marshals t" "length msg = proofLength"
  shows "decodeShare t (encodeShare t s msg) = Some (Inr (s, msg))"
    and "decodeSignature t (encodeSignature t g msg) = Some (Inr (g, msg))"
  using assms by (simp_all add: marshals_def decodeShare_def encodeShare_def decodeSignature_def encodeSignature_def slice_from_def)

section \<open>Built proofs are accepted\<close>

text \<open>Every stored share verifies for the message it is stored under.\<close>

definition shares_ok :: "('sh, 'sg) wtk \<Rightarrow> 'sh epochProofImpl \<Rightarrow> bool" where
  "shares_ok key epi \<longleftrightarrow>
     (\<forall>msg ss. epi_shares epi msg = Some ss \<longrightarrow> (\<forall>s \<in> snd ` set ss. VerifyShare key s msg) \<and> distinct (map fst ss))"

text \<open>What the code relies on: combined verified shares of enough distinct owners give a signature that verifies.\<close>

definition combines :: "('sh, 'sg) wtk \<Rightarrow> bool" where
  "combines key \<longleftrightarrow>
     (\<forall>ss msg sg. (\<forall>s \<in> set ss. VerifyShare key s msg) \<longrightarrow> unat (Threshold key) \<le> length ss \<longrightarrow>
        CombineShares key ss = Some sg \<longrightarrow> VerifySignature key sg msg)"

lemma shares_ok_new: "shares_ok key (NewProofBuilder e)"
  by (simp add: shares_ok_def NewProofBuilder_def newShareDB_def)

lemma set_update_subset: "set (AList.update k v xs) \<subseteq> insert (k, v) (set xs)"
  by (induction xs) auto

lemma Add_share_ok:
  assumes "shares_ok key epi" "VerifyShare key share msg" "Add_share t (Some key) (epi_shares epi) share msg = Some (r, db)"
  shows "shares_ok key (epi\<lparr>epi_shares := db\<rparr>)"
    and "r = Some sg \<Longrightarrow> combines key \<Longrightarrow> VerifySignature key sg msg"
proof -
  let ?old = "case epi_shares epi msg of None \<Rightarrow> [] | Some s \<Rightarrow> s"
  let ?new = "AList.update (Owner t share) share ?old"
  have db: "db = (epi_shares epi)(msg \<mapsto> ?new)"
    and r: "r = (if length ?new \<ge> unat (Threshold key) then CombineShares key (map snd ?new) else None)"
    using assms(3) by (auto simp: Add_share_def Let_def split: if_splits)
  have old: "\<forall>s \<in> snd ` set ?old. VerifyShare key s msg" "distinct (map fst ?old)"
    using assms(1) by (cases "epi_shares epi msg"; force simp: shares_ok_def)+
  have new: "\<forall>s \<in> snd ` set ?new. VerifyShare key s msg"
    using old(1) assms(2) set_update_subset [of "Owner t share" share ?old] by force
  show "shares_ok key (epi\<lparr>epi_shares := db\<rparr>)"
    using assms(1) new old(2) by (auto simp: shares_ok_def db distinct_update)
  show "VerifySignature key sg msg" if "r = Some sg" "combines key"
  proof -
    have c: "unat (Threshold key) \<le> length (map snd ?new)" "CombineShares key (map snd ?new) = Some sg" "\<forall>s \<in> set (map snd ?new). VerifyShare key s msg"
      using that(1) new r by (auto split: if_splits)
    then show ?thesis using that(2) unfolding combines_def by blast
  qed
qed

lemma TryBuilding_ok:
  assumes "shares_ok key epi" "TryBuilding t (Some key) cnf epi u = Some (r, epi')"
  shows "shares_ok key epi'"
    and "r = Some data \<Longrightarrow> combines key \<Longrightarrow> \<exists>sg. data = encodeSignature t sg (take proofLength (pu_data (preunit_of u)))
      \<and> proofLength \<le> length (pu_data (preunit_of u)) \<and> VerifySignature key sg (take proofLength (pu_data (preunit_of u)))"
proof -
  have A: "shares_ok key epi' \<and> (r = Some data \<longrightarrow> combines key \<longrightarrow> (\<exists>sg. data = encodeSignature t sg (take proofLength (pu_data (preunit_of u)))
      \<and> proofLength \<le> length (pu_data (preunit_of u)) \<and> VerifySignature key sg (take proofLength (pu_data (preunit_of u)))))"
  proof (cases "Level u < OrderStartLevel cnf + EpochLength cnf \<or> pu_data (preunit_of u) = []")
    case True
    then show ?thesis using assms by (auto simp: TryBuilding_def)
  next
    case False
    obtain x where x: "decodeShare t (pu_data (preunit_of u)) = Some x" using assms(2) False by (auto simp: TryBuilding_def split: bind_splits)
    show ?thesis
    proof (cases x)
      case (Inl y)
      then show ?thesis using assms x False by (auto simp: TryBuilding_def)
    next
      case (Inr y)
      obtain share msg where y: "y = (share, msg)" by fastforce
      have msg: "msg = take proofLength (pu_data (preunit_of u))" "proofLength \<le> length (pu_data (preunit_of u))"
        using x Inr y by (auto simp: decodeShare_def slice_from_def split: bind_splits option.splits if_splits)
      have v: "VerifyShare key share msg" using assms(2) x Inr y False by (auto simp: TryBuilding_def split: if_splits)
      obtain sg db where ad: "Add_share t (Some key) (epi_shares epi) share msg = Some (sg, db)"
        using assms(2) x Inr y False v by (auto simp: TryBuilding_def split: bind_splits)
      note ok = Add_share_ok [OF assms(1) v ad]
      have "r = map_option (\<lambda>s. encodeSignature t s msg) sg" "epi' = epi\<lparr>epi_shares := db\<rparr>"
        using assms(2) x Inr y False v ad by (auto simp: TryBuilding_def Let_def split: option.splits)
      then show ?thesis using ok msg by auto
    qed
  qed
  then show "shares_ok key epi'" by blast
  show "\<exists>sg. data = encodeSignature t sg (take proofLength (pu_data (preunit_of u)))
      \<and> proofLength \<le> length (pu_data (preunit_of u)) \<and> VerifySignature key sg (take proofLength (pu_data (preunit_of u)))"
    if "r = Some data" "combines key" using A that by blast
qed

text \<open>A builder that has been given a sequence of units.\<close>

fun feed ::
  "('sh, 'sg) tss \<Rightarrow> ('sh, 'sg) wtk option \<Rightarrow> 'k conf \<Rightarrow> 'sh epochProofImpl \<Rightarrow> Unit list \<Rightarrow> 'sh epochProofImpl go" where
  "feed t wtk cnf epi [] = Some epi"
| "feed t wtk cnf epi (u # us) = do { (_, epi') \<leftarrow> TryBuilding t wtk cnf epi u; feed t wtk cnf epi' us }"

lemma feed_ok: "shares_ok key epi \<Longrightarrow> feed t (Some key) cnf epi us = Some epi' \<Longrightarrow> shares_ok key epi'"
  by (induction us arbitrary: epi) (auto split: bind_splits dest: TryBuilding_ok(1))

text \<open>
  When the builder of an epoch, given any units, has collected enough shares and returns a proof,
  every dealing unit of the epoch after the one in the signed message that carries this proof is
  accepted by \<open>EpochProof\<close>. It relies on the library: marshalled values unmarshal, and enough
  verified shares combine to a signature that verifies.
\<close>

theorem epoch_proof_accepted:
  assumes "marshals t" "combines key" "feed t (Some key) cnf (NewProofBuilder e0) us = Some epi"
    and "TryBuilding t (Some key) cnf epi u = Some (Some data, epi')"
    and "decodeProof (take proofLength (pu_data (preunit_of u))) = (h, c, e, x)"
    and "Dealing pu" "pu_data pu = data" "pu_epochID pu = e + 1"
  shows "EpochProof t pu (Some key) = Some True"
proof -
  have ok: "shares_ok key epi" using feed_ok [OF shares_ok_new assms(3)] .
  let ?msg = "take proofLength (pu_data (preunit_of u))"
  obtain sg where sg: "data = encodeSignature t sg ?msg" "proofLength \<le> length (pu_data (preunit_of u))" "VerifySignature key sg ?msg"
    using TryBuilding_ok(2) [OF ok assms(4) HOL.refl assms(2)] by blast
  have "decodeSignature t data = Some (Inr (sg, ?msg))"
    unfolding sg(1) using sg(2) by (intro decode_encode(2) [OF assms(1)]) simp
  then show ?thesis using assms(5-8) sg(3) by (simp add: EpochProof_def)
qed

text \<open>
  \<open>TryBuilding\<close> panics on a finishing unit exactly when its data is shorter than a proof or holds
  a share that does not verify, so a single unit with such data stops the creator of every process
  that receives it.
\<close>

theorem TryBuilding_panics_iff:
  assumes "OrderStartLevel cnf + EpochLength cnf \<le> Level u" "pu_data (preunit_of u) \<noteq> []"
  shows "TryBuilding t (Some key) cnf epi u = None \<longleftrightarrow>
    length (pu_data (preunit_of u)) < 40
    \<or> (\<exists>share. UnmarshalShare t (drop 40 (pu_data (preunit_of u))) = Some share
         \<and> \<not> VerifyShare key share (take 40 (pu_data (preunit_of u))))"
proof -
  have 40: "proofLength = 40" by (simp add: proofLength_def HashLength_def)
  have total: "\<exists>y. Add_share t (Some key) db s m = Some y" for db s m
    by (auto simp: Add_share_def Let_def)
  show ?thesis
  proof (cases "length (pu_data (preunit_of u)) < 40")
    case True
    then show ?thesis using assms by (simp add: TryBuilding_def decodeShare_def slice_from_def 40)
  next
    case False
    show ?thesis
    proof (cases "UnmarshalShare t (drop 40 (pu_data (preunit_of u)))")
      case None
      then show ?thesis using assms False by (simp add: TryBuilding_def decodeShare_def slice_from_def 40)
    next
      case (Some share)
      obtain sg db where "Add_share t (Some key) (epi_shares epi) share (take 40 (pu_data (preunit_of u))) = Some (sg, db)"
        using total by fastforce
      then show ?thesis
        using assms False Some by (auto simp: TryBuilding_def decodeShare_def slice_from_def 40 Let_def split: option.splits)
    qed
  qed
qed

section \<open>An example\<close>

text \<open>
  A key with threshold 1 whose shares and signatures are the bytes of the message, and the finishing
  unit of a process that signs the proof of a last timing unit.
\<close>

definition demo_tss :: "(bytes, bytes) tss" where
  "demo_tss = \<lparr>Owner = (\<lambda>_. 0), MarshalShare = id, UnmarshalShare = Some, MarshalSignature = id, UnmarshalSignature = Some\<rparr>"

definition demo_key :: "(bytes, bytes) wtk" where
  "demo_key = \<lparr>Threshold = 1, CreateShare = Some, VerifyShare = (=), CombineShares = (\<lambda>ss. Some (hd ss)), VerifySignature = (=)\<rparr>"

definition demo_share_unit :: "Unit" where
  "demo_share_unit = freeUnit (demo_pu 0 [0, 0] 3\<lparr>pu_data := the (BuildShare demo_tss (Some demo_key) demo_a1)\<rparr>) [Some demo_a0, Some demo_b0] 1 []"

definition demo_proof_pu :: preunit where
  "demo_proof_pu = demo_pu 0 [-1, -1] 9\<lparr>pu_epochID := 1, pu_data := encodeSignature demo_tss (encodeProof demo_a1) (encodeProof demo_a1)\<rparr>"

theorem epoch_proof_accepted_witness: "EpochProof demo_tss demo_proof_pu (Some demo_key) = Some True"
proof -
  let ?cnf = "requiredByLinear\<lparr>EpochLength := 1\<rparr> :: unit conf"
  have m: "marshals demo_tss" by (simp add: marshals_def demo_tss_def)
  have c: "combines demo_key"
    unfolding combines_def
  proof (intro allI impI)
    fix ss msg sg assume "\<forall>s \<in> set ss. VerifyShare demo_key s msg" "unat (Threshold demo_key) \<le> length ss" "CombineShares demo_key ss = Some sg"
    then show "VerifySignature demo_key sg msg" by (cases ss) (auto simp: demo_key_def)
  qed
  have f: "feed demo_tss (Some demo_key) ?cnf (NewProofBuilder 0) [] = Some (NewProofBuilder 0)" by simp
  have "map_option fst (TryBuilding demo_tss (Some demo_key) ?cnf (NewProofBuilder 0) demo_share_unit) = Some (Some (pu_data demo_proof_pu))"
    by code_simp
  then obtain epi where t: "TryBuilding demo_tss (Some demo_key) ?cnf (NewProofBuilder 0) demo_share_unit = Some (Some (pu_data demo_proof_pu), epi)"
    by auto
  have d: "decodeProof (take proofLength (pu_data (preunit_of demo_share_unit))) = (1, 0, 0, Some (replicate 32 3))" by code_simp
  have "Dealing demo_proof_pu" "pu_epochID demo_proof_pu = 0 + 1" by code_simp+
  from epoch_proof_accepted [OF m c f t d this(1) HOL.refl this(2)] show ?thesis .
qed

theorem TryBuilding_panics_iff_witness:
  "TryBuilding demo_tss (Some demo_key) (requiredByLinear\<lparr>EpochLength := 1\<rparr> :: unit conf) (NewProofBuilder 0)
     (freeUnit (demo_pu 0 [0, 0] 3\<lparr>pu_data := [7]\<rparr>) [Some demo_a0, Some demo_b0] 1 []) = None"
  by (subst TryBuilding_panics_iff) (simp_all add: requiredByLinear_def)

end
