(* ===== verification/Creation.thy ===== *)
theory Creation
  imports Proofs
begin

text \<open>
  The creator of units (\<open>pkg/creator/creator.go\<close>). The record \<open>Creator_state\<close> is its state; the units it
  sends are collected in \<open>sent\<close>, and the channel of last timing units is the queue \<open>lastTiming\<close>.
  What it calls outside (hashing, signing, the data source, the random source, the threshold key) is
  the record \<open>cr_env\<close>. \<open>update\<close>, \<open>createUnit\<close> and \<open>newEpoch\<close> call each other, so they take fuel; a
  unit of a new epoch leads to a dealing unit and no further, and \<open>update_fuel\<close> shows that four steps
  are enough.
\<close>

section \<open>Definitions\<close>

record ('sh, 'sg) cr_env =
  env_shake :: "bytes \<Rightarrow> hash"
  env_sign :: "hash \<Rightarrow> Signature"
  env_tss :: "('sh, 'sg) tss"
  env_wtk :: "('sh, 'sg) wtk option"
  env_rsData :: "int \<Rightarrow> Unit option list \<Rightarrow> EpochID \<Rightarrow> bytes option"
  env_ds :: "(nat \<Rightarrow> bytes) option"

record ('sh, 'k) Creator_state =
  cr_conf :: "'k conf"
  cr_epoch :: EpochID
  epochDone :: bool
  candidates :: "Unit option list"
  quorum :: u16
  maxLvl :: int
  onMaxLvl :: u16
  cr_level :: int
  frozen :: "u16 \<Rightarrow> bool"
  epochProof :: "'sh epochProofImpl option"
  sent :: "Unit list"
  lastTiming :: "Unit list"
  ds_calls :: nat

definition NewForEpoch :: "(u16 \<Rightarrow> u16) \<Rightarrow> 'k conf \<Rightarrow> EpochID \<Rightarrow> ('sh, 'k) Creator_state" where
  "NewForEpoch mq cnf epoch =
     \<lparr>cr_conf = cnf, cr_epoch = epoch, epochDone = False, candidates = replicate (unat (NProc cnf)) None,
      quorum = mq (NProc cnf), maxLvl = -1, onMaxLvl = 0, cr_level = 0, frozen = (\<lambda>_. False),
      epochProof = None, sent = [], lastTiming = [], ds_calls = 0\<rparr>"

definition New_creator :: "(u16 \<Rightarrow> u16) \<Rightarrow> 'k conf \<Rightarrow> ('sh, 'k) Creator_state" where
  "New_creator mq cnf = NewForEpoch mq cnf 0"

definition raise_parent :: "nat \<Rightarrow> Unit option list \<Rightarrow> nat \<Rightarrow> Unit option list go" where
  "raise_parent i parents j =
     (case parents ! j of
        None \<Rightarrow> Some parents
      | Some p \<Rightarrow>
          do { u \<leftarrow> nth_opt (Parents p) i;
               if (case parents ! i of
                     None \<Rightarrow> True
                   | Some q \<Rightarrow> (case u of None \<Rightarrow> False | Some v \<Rightarrow> Level v > Level q))
               then Some (parents[i := u]) else Some parents })"

definition MakeConsistent :: "Unit option list \<Rightarrow> Unit option list go" where
  "MakeConsistent parents =
     go_fold (\<lambda>ps i. go_fold (raise_parent i) ps [0..<length parents]) parents [0..<length parents]"

text \<open>\<open>make\<close> and \<open>copy\<close>: the slice of candidates has the length \<open>NProc\<close>.\<close>

definition getParents :: "('sh, 'k) Creator_state \<Rightarrow> Unit option list go" where
  "getParents cr = MakeConsistent (candidates cr)"

function descend_level :: "int \<Rightarrow> Unit option \<Rightarrow> Unit option" where
  "descend_level l None = None"
| "descend_level l (Some u) = (if Level u \<ge> l then descend_level l (Predecessor u) else Some u)"
  by pat_completeness auto
termination
proof (relation "measure (\<lambda>(l, w). case w of None \<Rightarrow> 0 | Some u \<Rightarrow> Suc (size u))")
  fix l :: int and w :: Unit
  show "((l, Predecessor w), (l, Some w)) \<in> measure (\<lambda>(l, w). case w of None \<Rightarrow> 0 | Some u \<Rightarrow> Suc (size u))"
    by (cases "Predecessor w") (auto dest: Predecessor_size)
qed simp

definition getParentsForLevel :: "('sh, 'k) Creator_state \<Rightarrow> int \<Rightarrow> Unit option list go" where
  "getParentsForLevel cr level = MakeConsistent (map (descend_level level) (candidates cr))"

text \<open>\<open>cr.candidates[cr.conf.Pid]\<close>, which panics on an index out of range and on nil.\<close>

definition own_candidate :: "('sh, 'k) Creator_state \<Rightarrow> Unit go" where
  "own_candidate cr = do { c \<leftarrow> nth_opt (candidates cr) (unat (Pid (cr_conf cr))); c }"

definition buildParents :: "('sh, 'k) Creator_state \<Rightarrow> (Unit option list \<times> int) go" where
  "buildParents cr =
     (if CanSkipLevel (cr_conf cr) then do { parents \<leftarrow> getParents cr; Some (parents, cr_level cr) }
      else do { own \<leftarrow> own_candidate cr;
                let level = Level own + 1;
                parents \<leftarrow> getParentsForLevel cr level;
                Some (parents, level) })"

definition ready :: "('sh, 'k) Creator_state \<Rightarrow> bool go" where
  "ready cr = (if epochDone cr then Some False else do { own \<leftarrow> own_candidate cr; Some (cr_level cr > Level own) })"

text \<open>The loop that drains the channel of last timing units.\<close>

fun drain_timing ::
  "('sh, 'sg) cr_env \<Rightarrow> ('sh, 'k) Creator_state \<Rightarrow> Unit list \<Rightarrow> (bytes \<times> ('sh, 'k) Creator_state) go" where
  "drain_timing env cr [] = Some ([], cr\<lparr>lastTiming := []\<rparr>)"
| "drain_timing env cr (timingUnit # ts) =
     (if Epoch timingUnit < cr_epoch cr then drain_timing env cr ts
      else if Epoch timingUnit = cr_epoch cr then
        let cr' = cr\<lparr>epochDone := True, lastTiming := ts\<rparr> in
        if int (unat (cr_epoch cr)) = NumberOfEpochs (cr_conf cr) - 1 then Some ([], cr')
        else do { _ \<leftarrow> epochProof cr; data \<leftarrow> BuildShare (env_tss env) (env_wtk env) timingUnit; Some (data, cr') }
      else drain_timing env cr ts)"

definition getData :: "('sh, 'sg) cr_env \<Rightarrow> ('sh, 'k) Creator_state \<Rightarrow> int \<Rightarrow> (bytes \<times> ('sh, 'k) Creator_state) go" where
  "getData env cr level =
     (if level \<le> LastLevel (cr_conf cr) then
        (case env_ds env of
           Some ds \<Rightarrow> Some (ds (ds_calls cr), cr\<lparr>ds_calls := Suc (ds_calls cr)\<rparr>)
         | None \<Rightarrow> Some ([], cr))
      else drain_timing env cr (lastTiming cr))"

definition updateCandidates :: "('sh, 'k) Creator_state \<Rightarrow> Unit \<Rightarrow> ('sh, 'k) Creator_state go" where
  "updateCandidates cr u =
     (if Epoch u \<noteq> cr_epoch cr then Some cr
      else do { prev \<leftarrow> nth_opt (candidates cr) (unat (Creator u));
                if (case prev of None \<Rightarrow> True | Some p \<Rightarrow> Level p < Level u) then
                  (let cr = cr\<lparr>candidates := (candidates cr)[unat (Creator u) := Some u]\<rparr>;
                       cr = (if Level u = maxLvl cr then cr\<lparr>onMaxLvl := onMaxLvl cr + 1\<rparr> else cr);
                       cr = (if Level u > maxLvl cr then cr\<lparr>maxLvl := Level u, onMaxLvl := 1\<rparr> else cr);
                       cr = cr\<lparr>cr_level := maxLvl cr\<rparr>
                   in Some (if onMaxLvl cr \<ge> quorum cr then cr\<lparr>cr_level := cr_level cr + 1\<rparr> else cr))
                else Some cr })"

definition resetEpoch :: "('sh, 'k) Creator_state \<Rightarrow> ('sh, 'k) Creator_state" where
  "resetEpoch cr = cr\<lparr>candidates := map (\<lambda>_. None) (candidates cr), maxLvl := -1, onMaxLvl := 0, cr_level := 0\<rparr>"

definition freezeParent :: "('sh, 'k) Creator_state \<Rightarrow> u16 \<Rightarrow> (Unit option \<times> ('sh, 'k) Creator_state) go" where
  "freezeParent cr pid =
     do { own \<leftarrow> own_candidate cr;
          u \<leftarrow> nth_opt (Parents own) (unat pid);
          _ \<leftarrow> nth_opt (candidates cr) (unat pid);
          Some (u, cr\<lparr>candidates := (candidates cr)[unat pid := u], frozen := (frozen cr)(pid := True)\<rparr>) }"

fun update :: "('sh, 'sg) cr_env \<Rightarrow> nat \<Rightarrow> ('sh, 'k) Creator_state \<Rightarrow> Unit \<Rightarrow> ('sh, 'k) Creator_state go"
and createUnit :: "('sh, 'sg) cr_env \<Rightarrow> nat \<Rightarrow> ('sh, 'k) Creator_state \<Rightarrow> Unit option list \<Rightarrow> int \<Rightarrow> bytes \<Rightarrow> ('sh, 'k) Creator_state go"
and newEpoch :: "('sh, 'sg) cr_env \<Rightarrow> nat \<Rightarrow> ('sh, 'k) Creator_state \<Rightarrow> EpochID \<Rightarrow> bytes \<Rightarrow> ('sh, 'k) Creator_state go"
where
  "update env 0 cr u = None"
| "update env (Suc f) cr u =
     (if frozen cr (Creator u) \<or> Epoch u < cr_epoch cr then Some cr
      else do { r \<leftarrow> (if Epoch u > cr_epoch cr then
                        do { epi \<leftarrow> epochProof cr;
                             ok \<leftarrow> Verify (env_tss env) (env_wtk env) epi (preunit_of u);
                             if \<not> ok then Some None
                             else do { cr' \<leftarrow> newEpoch env f cr (Epoch u) (pu_data (preunit_of u)); Some (Some cr') } }
                      else Some (Some cr));
                case r of
                  None \<Rightarrow> Some cr
                | Some cr1 \<Rightarrow>
                    do { epi \<leftarrow> epochProof cr1;
                         (epochProof', epi') \<leftarrow> TryBuilding (env_tss env) (env_wtk env) (cr_conf cr1) epi u;
                         let cr2 = cr1\<lparr>epochProof := Some epi'\<rparr>;
                         case epochProof' of
                           Some proof_data \<Rightarrow> newEpoch env f cr2 (cr_epoch cr2 + 1) proof_data
                         | None \<Rightarrow> updateCandidates cr2 u } })"
| "createUnit env 0 cr parents level data = None"
| "createUnit env (Suc f) cr parents level data =
     (let rs = env_rsData env level parents (cr_epoch cr) in
      do { u \<leftarrow> New_unit (env_shake env) (env_sign env) (Pid (cr_conf cr)) (cr_epoch cr) parents level data rs;
           update env f (cr\<lparr>sent := sent cr @ [u]\<rparr>) u })"
| "newEpoch env 0 cr epoch data = None"
| "newEpoch env (Suc f) cr epoch data =
     (let cr = resetEpoch (cr\<lparr>cr_epoch := epoch, epochDone := False\<rparr>);
          cr = cr\<lparr>epochProof := Some (NewProofBuilder epoch)\<rparr>
      in createUnit env f cr (replicate (unat (NProc (cr_conf cr))) None) 0 data)"

text \<open>
  The body of the loop of \<open>CreateUnits\<close> for the units that wait on the belt. The inner loop runs while
  the creator is ready; it is bounded by the fuel \<open>k\<close>.
\<close>

fun create_while_ready :: "('sh, 'sg) cr_env \<Rightarrow> nat \<Rightarrow> nat \<Rightarrow> ('sh, 'k) Creator_state \<Rightarrow> ('sh, 'k) Creator_state go" where
  "create_while_ready env f 0 cr = None"
| "create_while_ready env f (Suc k) cr =
     do { r \<leftarrow> ready cr;
          if r then
            do { (parents, level) \<leftarrow> buildParents cr;
                 (data, cr1) \<leftarrow> getData env cr level;
                 cr2 \<leftarrow> createUnit env f cr1 parents level data;
                 create_while_ready env f k cr2 }
          else Some cr }"

definition create_batch :: "('sh, 'sg) cr_env \<Rightarrow> nat \<Rightarrow> nat \<Rightarrow> ('sh, 'k) Creator_state \<Rightarrow> Unit list \<Rightarrow> ('sh, 'k) Creator_state go" where
  "create_batch env f k cr belt =
     do { cr1 \<leftarrow> go_fold (update env f) cr belt; create_while_ready env f k cr1 }"

text \<open>
  \<open>CreateUnits\<close> on a sequence of batches: the units on the belt, the timing units that arrived on the
  other channel before, and the forks reported by the alerter before.
\<close>

fun create_batches ::
  "('sh, 'sg) cr_env \<Rightarrow> nat \<Rightarrow> nat \<Rightarrow> ('sh, 'k) Creator_state \<Rightarrow> (u16 list \<times> Unit list \<times> Unit list) list \<Rightarrow> ('sh, 'k) Creator_state go" where
  "create_batches env f k cr [] = Some cr"
| "create_batches env f k cr ((forkers, timing, belt) # bs) =
     do { cr1 \<leftarrow> go_fold (\<lambda>cr pid. map_option snd (freezeParent cr pid)) cr forkers;
          cr2 \<leftarrow> create_batch env f k (cr1\<lparr>lastTiming := lastTiming cr1 @ timing\<rparr>) belt;
          create_batches env f k cr2 bs }"

definition CreateUnits ::
  "('sh, 'sg) cr_env \<Rightarrow> nat \<Rightarrow> nat \<Rightarrow> ('sh, 'k) Creator_state \<Rightarrow> (u16 list \<times> Unit list \<times> Unit list) list \<Rightarrow> ('sh, 'k) Creator_state go" where
  "CreateUnits env f k cr bs =
     do { cr1 \<leftarrow> newEpoch env f cr (cr_epoch cr) []; create_batches env f k cr1 bs }"

section \<open>Consistent parents\<close>

definition lvl :: "Unit option \<Rightarrow> int" where
  "lvl u = (case u of None \<Rightarrow> -1 | Some p \<Rightarrow> Level p)"

lemma lvl_simps [simp]: "lvl None = -1" "lvl (Some p) = Level p"
  by (simp_all add: lvl_def)

text \<open>Units that pass the structural checks, together with everything below them.\<close>

definition consistent_units :: "nat \<Rightarrow> Unit set \<Rightarrow> bool" where
  "consistent_units n S \<longleftrightarrow> (\<forall>u \<in> S. length (Parents u) = n \<and> 0 \<le> Level u \<and> unat (Creator u) < n
     \<and> (\<forall>i < n. \<forall>p. Parents u ! i = Some p \<longrightarrow> p \<in> S \<and> Level p \<le> Level u \<and> unat (Creator p) = i)
     \<and> (\<forall>i < n. \<forall>j < n. \<forall>q. Parents u ! j = Some q \<longrightarrow> lvl (Parents q ! i) \<le> lvl (Parents u ! i)))"

lemma consistent_unitsD:
  assumes "consistent_units n S" "u \<in> S"
  shows "length (Parents u) = n" "0 \<le> Level u" "unat (Creator u) < n"
    and "i < n \<Longrightarrow> Parents u ! i = Some p \<Longrightarrow> p \<in> S \<and> Level p \<le> Level u \<and> unat (Creator p) = i"
    and "i < n \<Longrightarrow> j < n \<Longrightarrow> Parents u ! j = Some q \<Longrightarrow> lvl (Parents q ! i) \<le> lvl (Parents u ! i)"
  using assms unfolding consistent_units_def by blast+

lemma consistent_lvl:
  assumes "consistent_units n S" "u \<in> S" "i < n"
  shows "lvl (Parents u ! i) \<le> Level u"
  using consistent_unitsD(2,4) [OF assms(1,2)] assms(3) by (cases "Parents u ! i") fastforce+

definition entries_in :: "nat \<Rightarrow> Unit set \<Rightarrow> Unit option list \<Rightarrow> bool" where
  "entries_in n S ps \<longleftrightarrow> length ps = n \<and> (\<forall>i < n. \<forall>p. ps ! i = Some p \<longrightarrow> p \<in> S \<and> unat (Creator p) = i)"

text \<open>The consistency rule for the first \<open>k\<close> parents.\<close>

definition consistent_upto :: "nat \<Rightarrow> nat \<Rightarrow> Unit option list \<Rightarrow> bool" where
  "consistent_upto n k ps \<longleftrightarrow> (\<forall>i < k. \<forall>j < n. \<forall>p. ps ! j = Some p \<longrightarrow> lvl (Parents p ! i) \<le> lvl (ps ! i))"

definition consistent_at :: "nat \<Rightarrow> nat \<Rightarrow> Unit option list \<Rightarrow> bool" where
  "consistent_at i m ps \<longleftrightarrow> (\<forall>j < m. \<forall>p. ps ! j = Some p \<longrightarrow> lvl (Parents p ! i) \<le> lvl (ps ! i))"

lemma entries_lvl:
  assumes "consistent_units n S" "entries_in n S ps" "i < n"
  shows "-1 \<le> lvl (ps ! i)"
  using assms consistent_unitsD(2) [OF assms(1)] by (cases "ps ! i") (fastforce simp: entries_in_def)+

lemma raise_parent_eq:
  assumes S: "consistent_units n S" and e: "entries_in n S ps" and i: "i < n" and j: "j < n"
  shows "raise_parent i ps j =
    Some (case ps ! j of None \<Rightarrow> ps | Some p \<Rightarrow> if lvl (Parents p ! i) > lvl (ps ! i) then ps[i := Parents p ! i] else ps)"
proof (cases "ps ! j")
  case None
  then show ?thesis by (simp add: raise_parent_def)
next
  case (Some p)
  have p: "p \<in> S" using e j Some by (auto simp: entries_in_def)
  have len: "i < length (Parents p)" using consistent_unitsD(1) [OF S p] i by simp
  have pos: "Parents p ! i = Some v \<Longrightarrow> 0 \<le> Level v" for v
    using consistent_unitsD(4) [OF S p i] consistent_unitsD(2) [OF S] by blast
  have upd: "ps ! i = None \<Longrightarrow> ps[i := None] = ps" using i e by (metis list_update_id)
  show ?thesis
    using Some len upd pos entries_lvl [OF S e i]
    by (cases "ps ! i"; cases "Parents p ! i") (auto simp: raise_parent_def nth_opt_def)
qed

lemma raise_parent_step:
  assumes S: "consistent_units n S" and e: "entries_in n S ps" and i: "i < n" and j: "j < n"
    and c: "consistent_upto n i ps" "consistent_at i j ps"
  shows "\<exists>ps'. raise_parent i ps j = Some ps' \<and> entries_in n S ps' \<and> consistent_upto n i ps' \<and> consistent_at i (Suc j) ps'
    \<and> (\<forall>k < n. lvl (ps ! k) \<le> lvl (ps' ! k))"
proof (cases "\<exists>p. ps ! j = Some p \<and> lvl (Parents p ! i) > lvl (ps ! i)")
  case False
  then have "raise_parent i ps j = Some ps" unfolding raise_parent_eq [OF S e i j] by (auto split: option.splits)
  moreover have "consistent_at i (Suc j) ps" using c(2) False by (auto simp: consistent_at_def less_Suc_eq)
  ultimately show ?thesis using e c by auto
next
  case True
  then obtain p where p: "ps ! j = Some p" "lvl (Parents p ! i) > lvl (ps ! i)" by blast
  have pS: "p \<in> S" using e j p(1) by (auto simp: entries_in_def)
  have "\<exists>v. Parents p ! i = Some v"
    using p(2) entries_lvl [OF S e i] by (cases "Parents p ! i") auto
  then obtain v where v: "Parents p ! i = Some v" by blast
  note pv = consistent_unitsD(4) [OF S pS i v]
  have ij: "i \<noteq> j" using p pv v by auto
  let ?ps = "ps[i := Some v]"
  have len: "length ps = n" using e by (simp add: entries_in_def)
  have r: "raise_parent i ps j = Some ?ps" unfolding raise_parent_eq [OF S e i j] using p v by simp
  have e': "entries_in n S ?ps" using e pv i by (auto simp: entries_in_def nth_list_update)
  have up: "consistent_upto n i ?ps"
    unfolding consistent_upto_def
  proof (intro allI impI)
    fix i' k q assume a: "i' < i" "k < n" "?ps ! k = Some q"
    show "lvl (Parents q ! i') \<le> lvl (?ps ! i')"
    proof (cases "k = i")
      case True
      then have "q = v" using a(3) i len by simp
      then have "lvl (Parents q ! i') \<le> lvl (Parents p ! i')" using consistent_unitsD(5) [OF S pS, of i' i] a i v by simp
      also have "\<dots> \<le> lvl (ps ! i')" using c(1) a(1) j p(1) unfolding consistent_upto_def by blast
      finally show ?thesis using a(1) by simp
    next
      case False
      then show ?thesis using c(1) a unfolding consistent_upto_def by simp
    qed
  qed
  have "consistent_at i (Suc j) ?ps"
    unfolding consistent_at_def
  proof (intro allI impI)
    fix k q assume a: "k < Suc j" "?ps ! k = Some q"
    show "lvl (Parents q ! i) \<le> lvl (?ps ! i)"
    proof (cases "k = i")
      case True
      then show ?thesis using a(2) i len consistent_lvl [OF S _ i, of v] pv by simp
    next
      case False
      then have q: "ps ! k = Some q" using a(2) by simp
      show ?thesis
      proof (cases "k = j")
        case True
        then show ?thesis using q p(1) v i len by simp
      next
        case False
        then have "k < j" using a(1) by simp
        then have "lvl (Parents q ! i) \<le> lvl (ps ! i)" using c(2) q unfolding consistent_at_def by blast
        then show ?thesis using p(2) v i len by simp
      qed
    qed
  qed
  moreover have "\<forall>k < n. lvl (ps ! k) \<le> lvl (?ps ! k)" using p(2) v i len by (auto simp: nth_list_update)
  ultimately show ?thesis using r e' up by blast
qed

lemma raise_parents:
  assumes S: "consistent_units n S" and i: "i < n"
  shows "entries_in n S ps \<Longrightarrow> consistent_upto n i ps \<Longrightarrow> consistent_at i m ps \<Longrightarrow> m + k = n \<Longrightarrow>
    \<exists>ps'. go_fold (raise_parent i) ps [m..<n] = Some ps' \<and> entries_in n S ps' \<and> consistent_upto n (Suc i) ps'
      \<and> (\<forall>k < n. lvl (ps ! k) \<le> lvl (ps' ! k))"
proof (induction k arbitrary: m ps)
  case 0
  then have "consistent_upto n (Suc i) ps" by (auto simp: consistent_upto_def consistent_at_def less_Suc_eq)
  then show ?case using 0 by auto
next
  case (Suc k)
  then have m: "m < n" by simp
  obtain ps1 where 1: "raise_parent i ps m = Some ps1" "entries_in n S ps1" "consistent_upto n i ps1" "consistent_at i (Suc m) ps1"
      "\<forall>k < n. lvl (ps ! k) \<le> lvl (ps1 ! k)"
    using raise_parent_step [OF S Suc.prems(1) i m Suc.prems(2,3)] by blast
  obtain ps2 where 2: "go_fold (raise_parent i) ps1 [Suc m..<n] = Some ps2" "entries_in n S ps2" "consistent_upto n (Suc i) ps2"
      "\<forall>k < n. lvl (ps1 ! k) \<le> lvl (ps2 ! k)"
    using Suc.IH [OF 1(2,3,4)] Suc.prems(4) by auto
  have "[m..<n] = m # [Suc m..<n]" using m by (rule upt_conv_Cons)
  then show ?case using 1 2 by (auto intro: order.trans)
qed

lemma MakeConsistent_loop:
  assumes S: "consistent_units n S"
  shows "entries_in n S ps \<Longrightarrow> consistent_upto n i ps \<Longrightarrow> i + k = n \<Longrightarrow>
    \<exists>ps'. go_fold (\<lambda>ps i. go_fold (raise_parent i) ps [0..<n]) ps [i..<n] = Some ps' \<and> entries_in n S ps' \<and> consistent_upto n n ps'
      \<and> (\<forall>k < n. lvl (ps ! k) \<le> lvl (ps' ! k))"
proof (induction k arbitrary: i ps)
  case (Suc k)
  then have i: "i < n" by simp
  have "consistent_at i 0 ps" by (simp add: consistent_at_def)
  then obtain ps1 where 1: "go_fold (raise_parent i) ps [0..<n] = Some ps1" "entries_in n S ps1" "consistent_upto n (Suc i) ps1"
      "\<forall>k < n. lvl (ps ! k) \<le> lvl (ps1 ! k)"
    using raise_parents [OF S i Suc.prems(1,2), of 0 n] by auto
  obtain ps2 where 2: "go_fold (\<lambda>ps i. go_fold (raise_parent i) ps [0..<n]) ps1 [Suc i..<n] = Some ps2" "entries_in n S ps2" "consistent_upto n n ps2"
      "\<forall>k < n. lvl (ps1 ! k) \<le> lvl (ps2 ! k)"
    using Suc.IH [OF 1(2,3)] Suc.prems(3) by auto
  have "[i..<n] = i # [Suc i..<n]" using i by (rule upt_conv_Cons)
  then show ?case using 1 2 by (auto intro: order.trans)
qed auto

text \<open>Parents that are consistent already stay as they are.\<close>

lemma MakeConsistent_id:
  assumes S: "consistent_units n S" and e: "entries_in n S ps" and c: "consistent_upto n n ps"
  shows "MakeConsistent ps = Some ps"
proof -
  have len: "length ps = n" using e by (simp add: entries_in_def)
  have r: "raise_parent i ps j = Some ps" if "i < n" "j < n" for i j
    using c that unfolding raise_parent_eq [OF S e that] consistent_upto_def by (force split: option.splits)
  have in_loop: "go_fold (raise_parent i) ps js = Some ps" if "i < n" "set js \<subseteq> {0..<n}" for i js
    using that by (induction js) (auto simp: r)
  have "go_fold (\<lambda>ps i. go_fold (raise_parent i) ps [0..<n]) ps is = Some ps" if "set is \<subseteq> {0..<n}" for "is"
    using that in_loop by (induction "is") auto
  then show ?thesis unfolding MakeConsistent_def len by simp
qed

text \<open>
  \<open>MakeConsistent\<close> never panics on candidates that are structurally sound, and what it returns
  obeys the parent consistency rule (no parent of a parent is on a higher level than the own parent
  of the same process); it only raises levels, and consistent parents stay unchanged.
\<close>

theorem MakeConsistent_consistent:
  assumes "consistent_units n S" "entries_in n S ps"
  shows "\<exists>ps'. MakeConsistent ps = Some ps' \<and> entries_in n S ps'
    \<and> (\<forall>i < n. \<forall>j < n. \<forall>p v. ps' ! j = Some p \<longrightarrow> Parents p ! i = Some v \<longrightarrow> (\<exists>q. ps' ! i = Some q \<and> Level v \<le> Level q))
    \<and> (\<forall>i < n. lvl (ps ! i) \<le> lvl (ps' ! i))
    \<and> (consistent_upto n n ps \<longrightarrow> ps' = ps)"
proof -
  have len: "length ps = n" using assms(2) by (simp add: entries_in_def)
  have "consistent_upto n 0 ps" by (simp add: consistent_upto_def)
  then obtain ps' where p: "MakeConsistent ps = Some ps'" "entries_in n S ps'" "consistent_upto n n ps'" "\<forall>i < n. lvl (ps ! i) \<le> lvl (ps' ! i)"
    using MakeConsistent_loop [OF assms, of 0 n] unfolding MakeConsistent_def len by auto
  have "\<exists>q. ps' ! i = Some q \<and> Level v \<le> Level q" if ij: "i < n" "j < n" "ps' ! j = Some q'" "Parents q' ! i = Some v" for i j q' v
  proof -
    have "q' \<in> S" using p(2) ij by (auto simp: entries_in_def)
    then have "0 \<le> Level v" using consistent_unitsD(4) [OF assms(1) _ ij(1,4)] consistent_unitsD(2) [OF assms(1)] by blast
    moreover have "Level v \<le> lvl (ps' ! i)" using p(3) ij unfolding consistent_upto_def by force
    ultimately show ?thesis by (cases "ps' ! i") auto
  qed
  then show ?thesis using p MakeConsistent_id [OF assms] by fastforce
qed

section \<open>Levels of new units\<close>

text \<open>The number of candidates on a level.\<close>

definition on_lvl :: "int \<Rightarrow> Unit option list \<Rightarrow> nat" where
  "on_lvl l ps = length (filter (\<lambda>c. c \<noteq> None \<and> lvl c = l) ps)"

lemma on_lvl_simps [simp]:
  "on_lvl l [] = 0" "on_lvl l (None # ps) = on_lvl l ps" "on_lvl l (Some p # ps) = (if Level p = l then Suc (on_lvl l ps) else on_lvl l ps)"
  by (simp_all add: on_lvl_def)

lemma on_lvl_le: "on_lvl l ps \<le> length ps"
  by (simp add: on_lvl_def)

lemma foldl_level_step:
  assumes "\<forall>p. Some p \<in> set ps \<longrightarrow> Level p \<le> m" "l \<le> m" "l = m \<or> 0 < on_lvl m ps"
  shows "foldl level_step (l, k) ps = (m, (if l = m then k else 0) + of_nat (on_lvl m ps))"
  using assms
proof (induction ps arbitrary: l k)
  case (Cons c ps)
  then show ?case by (cases c) auto
qed simp

text \<open>The counters of the creator agree with its candidates.\<close>

definition counts_ok :: "(u16 \<Rightarrow> u16) \<Rightarrow> ('sh, 'k) Creator_state \<Rightarrow> bool" where
  "counts_ok mq cr \<longleftrightarrow>
     quorum cr = mq (of_nat (length (candidates cr)))
     \<and> (\<forall>p. Some p \<in> set (candidates cr) \<longrightarrow> 0 \<le> Level p \<and> Level p \<le> maxLvl cr)
     \<and> onMaxLvl cr = of_nat (on_lvl (maxLvl cr) (candidates cr))
     \<and> (if maxLvl cr = -1 then cr_level cr = 0
        else 0 \<le> maxLvl cr \<and> 0 < on_lvl (maxLvl cr) (candidates cr)
          \<and> cr_level cr = maxLvl cr + (if onMaxLvl cr \<ge> quorum cr then 1 else 0))"

lemma foldl_level_step_none: "\<forall>p. Some p \<notin> set ps \<Longrightarrow> foldl level_step s ps = s"
proof (induction ps arbitrary: s)
  case (Cons c ps)
  then show ?case by (cases c; cases s) auto
qed simp

lemma counts_level:
  assumes "counts_ok mq cr" "0 < quorum cr"
  shows "cr_level cr = LevelFromParents mq (candidates cr)"
proof (cases "maxLvl cr = -1")
  case True
  then have "\<forall>p. Some p \<notin> set (candidates cr)" using assms(1) unfolding counts_ok_def by fastforce
  from foldl_level_step_none [OF this, of "(0, 0)"] show ?thesis
    using assms True leD by (fastforce simp: LevelFromParents_def counts_ok_def)
next
  case False
  then have "foldl level_step (0, 0) (candidates cr) = (maxLvl cr, onMaxLvl cr)"
    using assms(1) foldl_level_step [of "candidates cr" "maxLvl cr" 0 0] by (simp add: counts_ok_def)
  then show ?thesis using assms False by (simp add: LevelFromParents_def counts_ok_def)
qed

text \<open>What the creator keeps of its candidates besides the counters.\<close>

definition creator_ok :: "(u16 \<Rightarrow> u16) \<Rightarrow> u16 \<Rightarrow> Unit set \<Rightarrow> ('sh, 'k) Creator_state \<Rightarrow> bool" where
  "creator_ok mq n S cr \<longleftrightarrow> counts_ok mq cr \<and> entries_in (unat n) S (candidates cr)
     \<and> consistent_upto (unat n) (unat n) (candidates cr) \<and> quorum cr = mq n"

lemma on_lvl_update:
  assumes "i < length ps"
  shows "on_lvl l (ps[i := Some u]) =
    on_lvl l ps + (if Level u = l then 1 else 0) - (if ps ! i \<noteq> None \<and> lvl (ps ! i) = l then 1 else 0)"
  using assms
proof (induction ps arbitrary: i)
  case (Cons c ps)
  show ?case
  proof (cases i)
    case 0
    then show ?thesis by (cases c) auto
  next
    case (Suc j)
    have "j < length ps" using Cons.prems Suc by simp
    moreover have "0 < on_lvl l ps" if "ps ! j \<noteq> None" "lvl (ps ! j) = l"
      using that nth_mem [OF \<open>j < length ps\<close>] unfolding on_lvl_def
      by (auto simp: filter_empty_conv intro!: bexI [of _ "ps ! j"])
    ultimately show ?thesis using Cons.IH [of j] Suc by (cases c) auto
  qed
qed simp

lemma updateCandidates_raise:
  assumes "Epoch u = cr_epoch cr" "unat (Creator u) < length (candidates cr)"
    "lvl (candidates cr ! unat (Creator u)) < Level u" "0 \<le> Level u"
  obtains cr' where "updateCandidates cr u = Some cr'" "candidates cr' = (candidates cr)[unat (Creator u) := Some u]"
    "quorum cr' = quorum cr" "maxLvl cr' = max (maxLvl cr) (Level u)"
    "onMaxLvl cr' = (if Level u > maxLvl cr then 1 else if Level u = maxLvl cr then onMaxLvl cr + 1 else onMaxLvl cr)"
    "cr_level cr' = maxLvl cr' + (if onMaxLvl cr' \<ge> quorum cr' then 1 else 0)"
proof -
  have c: "case candidates cr ! unat (Creator u) of None \<Rightarrow> True | Some p \<Rightarrow> Level p < Level u"
    using assms(3) by (auto split: option.splits)
  consider (up) "maxLvl cr < Level u" | (eq) "maxLvl cr = Level u" | (down) "Level u < maxLvl cr" by linarith
  then show thesis
    by cases (rule that [of "the (updateCandidates cr u)"]; simp add: updateCandidates_def nth_opt_def Let_def c assms(1,2))+
qed

lemma updateCandidates_same:
  assumes "unat (Creator u) < length (candidates cr)" "0 \<le> Level u"
    "\<not> (Epoch u = cr_epoch cr \<and> lvl (candidates cr ! unat (Creator u)) < Level u)"
  shows "updateCandidates cr u = Some cr"
  using assms by (cases "candidates cr ! unat (Creator u)") (auto simp: updateCandidates_def nth_opt_def)

lemma counts_ok_raise:
  assumes ok: "counts_ok mq cr" and u: "0 \<le> Level u" "unat (Creator u) < length (candidates cr)"
    and l: "lvl (candidates cr ! unat (Creator u)) < Level u"
    and c: "candidates cr' = (candidates cr)[unat (Creator u) := Some u]" "quorum cr' = quorum cr"
      "maxLvl cr' = max (maxLvl cr) (Level u)"
      "onMaxLvl cr' = (if Level u > maxLvl cr then 1 else if Level u = maxLvl cr then onMaxLvl cr + 1 else onMaxLvl cr)"
      "cr_level cr' = maxLvl cr' + (if onMaxLvl cr' \<ge> quorum cr' then 1 else 0)"
  shows "counts_ok mq cr'"
proof -
  let ?m = "maxLvl cr"
  have le: "\<forall>p. Some p \<in> set (candidates cr) \<longrightarrow> 0 \<le> Level p \<and> Level p \<le> ?m" and m: "-1 \<le> ?m"
    and on: "onMaxLvl cr = of_nat (on_lvl ?m (candidates cr))" and q: "quorum cr = mq (of_nat (length (candidates cr)))"
    and some: "?m \<noteq> -1 \<Longrightarrow> 0 < on_lvl ?m (candidates cr)"
    using ok by (auto simp: counts_ok_def split: if_splits)
  have le': "\<forall>p. Some p \<in> set (candidates cr') \<longrightarrow> 0 \<le> Level p \<and> Level p \<le> maxLvl cr'"
    using le u(1) set_update_subset_insert [of "candidates cr" "unat (Creator u)" "Some u"] unfolding c(1,3) by fastforce
  have cnt: "on_lvl l (candidates cr') = on_lvl l (candidates cr) + (if Level u = l then 1 else 0)" if "Level u \<le> l" for l
    using l that u(2) unfolding c(1) by (subst on_lvl_update) auto
  have none: "on_lvl l (candidates cr) = 0" if "?m < l" for l
    using le that by (fastforce simp: on_lvl_def filter_empty_conv)
  have "onMaxLvl cr' = of_nat (on_lvl (maxLvl cr') (candidates cr')) \<and> 0 < on_lvl (maxLvl cr') (candidates cr')"
    using cnt [of "max ?m (Level u)"] none [of "Level u"] on some m u(1) unfolding c(3,4) max_def
    by (cases "?m < Level u"; cases "?m = Level u") auto
  moreover have "0 \<le> maxLvl cr'" "maxLvl cr' \<noteq> -1" "length (candidates cr') = length (candidates cr)"
    using u(1) c(1,3) by auto
  ultimately show ?thesis using le' c(5) q unfolding counts_ok_def c(2) by simp
qed

lemma creator_ok_updateCandidates:
  assumes ok: "creator_ok mq n S cr" and S: "consistent_units (unat n) S" and u: "u \<in> S"
    and seen: "\<forall>i < unat n. lvl (Parents u ! i) \<le> lvl (candidates cr ! i)"
  shows "\<exists>cr'. updateCandidates cr u = Some cr' \<and> creator_ok mq n S cr'
    \<and> (\<forall>i < unat n. lvl (candidates cr ! i) \<le> lvl (candidates cr' ! i))
    \<and> (Epoch u = cr_epoch cr \<longrightarrow> Level u \<le> lvl (candidates cr' ! unat (Creator u)))"
proof -
  note uS = consistent_unitsD(2,3) [OF S u]
  have len: "length (candidates cr) = unat n" and e: "entries_in (unat n) S (candidates cr)"
    and cons: "consistent_upto (unat n) (unat n) (candidates cr)" and cnt: "counts_ok mq cr"
    using ok by (auto simp: creator_ok_def entries_in_def)
  have c: "unat (Creator u) < length (candidates cr)" using uS len by simp
  show ?thesis
  proof (cases "Epoch u = cr_epoch cr \<and> lvl (candidates cr ! unat (Creator u)) < Level u")
    case False
    then show ?thesis using updateCandidates_same [OF c uS(1)] ok by auto
  next
    case True
    then obtain cr' where r: "updateCandidates cr u = Some cr'"
      "candidates cr' = (candidates cr)[unat (Creator u) := Some u]" "quorum cr' = quorum cr" "maxLvl cr' = max (maxLvl cr) (Level u)"
      "onMaxLvl cr' = (if Level u > maxLvl cr then 1 else if Level u = maxLvl cr then onMaxLvl cr + 1 else onMaxLvl cr)"
      "cr_level cr' = maxLvl cr' + (if onMaxLvl cr' \<ge> quorum cr' then 1 else 0)"
      using updateCandidates_raise [OF _ c _ uS(1)] by blast
    have cnt': "counts_ok mq cr'" using counts_ok_raise [OF cnt uS(1) c _ r(2-6)] True by simp
    have e': "entries_in (unat n) S (candidates cr')" using e u c unfolding r(2) entries_in_def by (auto simp: nth_list_update)
    have mono: "lvl (candidates cr ! i) \<le> lvl (candidates cr' ! i)" if "i < unat n" for i
      using True that len unfolding r(2) by (cases "i = unat (Creator u)") auto
    have "lvl (Parents p ! i) \<le> lvl (candidates cr' ! i)"
      if "i < unat n" "j < unat n" "candidates cr' ! j = Some p" for i j p
    proof -
      have "lvl (Parents p ! i) \<le> lvl (candidates cr ! i)"
        using that seen cons c unfolding r(2) consistent_upto_def by (auto simp: nth_list_update split: if_splits)
      then show ?thesis using mono [OF that(1)] by linarith
    qed
    then have "creator_ok mq n S cr'" using cnt' e' ok r(3) unfolding creator_ok_def consistent_upto_def by auto
    then show ?thesis using r(1,2) mono c by simp
  qed
qed

lemma updateCandidates_frame:
  assumes "updateCandidates cr u = Some cr'"
  shows "cr_epoch cr' = cr_epoch cr" "frozen cr' = frozen cr" "epochProof cr' = epochProof cr" "cr_conf cr' = cr_conf cr"
    "epochDone cr' = epochDone cr" "quorum cr' = quorum cr" "length (candidates cr') = length (candidates cr)"
  using assms by (auto simp: updateCandidates_def Let_def split: if_splits bind_splits)

lemmas create_simps = update.simps createUnit.simps newEpoch.simps

text \<open>On a regular unit of the current epoch \<open>update\<close> only updates the candidates.\<close>

definition regular :: "('sh, 'k) Creator_state \<Rightarrow> Unit \<Rightarrow> bool" where
  "regular cr u \<longleftrightarrow> Epoch u = cr_epoch cr \<and> \<not> frozen cr (Creator u)
     \<and> Level u < OrderStartLevel (cr_conf cr) + EpochLength (cr_conf cr)"

lemma update_regular:
  assumes "regular cr u" "epochProof cr \<noteq> None"
  shows "update env (Suc f) cr u = updateCandidates cr u"
proof -
  obtain epi where e: "epochProof cr = Some epi" using assms(2) by blast
  then have same: "cr\<lparr>epochProof := Some epi\<rparr> = cr" by (cases cr) simp
  have "update env (Suc f) cr u = updateCandidates (cr\<lparr>epochProof := Some epi\<rparr>) u"
    using assms(1) e by (simp add: regular_def TryBuilding_def)
  then show ?thesis unfolding same .
qed

declare create_simps [simp del]

lemma update_list_ok:
  assumes S: "consistent_units (unat n) S"
  shows "creator_ok mq n S cr \<Longrightarrow> epochProof cr \<noteq> None \<Longrightarrow> set us \<subseteq> S \<Longrightarrow> (\<forall>u \<in> set us. regular cr u)
    \<Longrightarrow> (\<forall>v \<in> D. Level v \<le> lvl (candidates cr ! unat (Creator v))) \<Longrightarrow> D \<subseteq> S
    \<Longrightarrow> (\<forall>k < length us. \<forall>p. Some p \<in> set (Parents (us ! k)) \<longrightarrow> p \<in> D \<union> set (take k us))
    \<Longrightarrow> \<exists>cr'. go_fold (update env (Suc f)) cr us = Some cr' \<and> creator_ok mq n S cr' \<and> cr_conf cr' = cr_conf cr"
proof (induction us arbitrary: cr D)
  case (Cons u us)
  note ok = Cons.prems(1) and uS = Cons.prems(3)
  have "lvl (Parents u ! i) \<le> lvl (candidates cr ! i)" if i: "i < unat n" for i
  proof (cases "Parents u ! i")
    case None
    then show ?thesis using entries_lvl [OF S _ i, of "candidates cr"] ok by (simp add: creator_ok_def)
  next
    case (Some p)
    have "Some p \<in> set (Parents u)" using Some i consistent_unitsD(1) [OF S, of u] uS nth_mem [of i "Parents u"] by auto
    then have "p \<in> D" using Cons.prems(7) [rule_format, of 0] by simp
    moreover have "unat (Creator p) = i" using consistent_unitsD(4) [OF S _ i Some] uS by simp
    ultimately show ?thesis using Some Cons.prems(5) by auto
  qed
  then obtain cr1 where r: "updateCandidates cr u = Some cr1" "creator_ok mq n S cr1"
      "\<forall>i < unat n. lvl (candidates cr ! i) \<le> lvl (candidates cr1 ! i)"
      "Epoch u = cr_epoch cr \<longrightarrow> Level u \<le> lvl (candidates cr1 ! unat (Creator u))"
    using creator_ok_updateCandidates [OF ok S, of u] uS by auto
  note fr = updateCandidates_frame [OF r(1)]
  have D: "\<forall>v \<in> insert u D. Level v \<le> lvl (candidates cr1 ! unat (Creator v))"
  proof
    fix v assume v: "v \<in> insert u D"
    show "Level v \<le> lvl (candidates cr1 ! unat (Creator v))"
    proof (cases "v = u")
      case True
      then show ?thesis using r(4) Cons.prems(4) by (simp add: regular_def)
    next
      case False
      then have "v \<in> D" "unat (Creator v) < unat n" using v Cons.prems(6) consistent_unitsD(3) [OF S] by auto
      then show ?thesis using r(3) Cons.prems(5) order.trans by blast
    qed
  qed
  have later: "\<forall>k < length us. \<forall>p. Some p \<in> set (Parents (us ! k)) \<longrightarrow> p \<in> insert u D \<union> set (take k us)"
  proof (intro allI impI)
    fix k p assume "k < length us" "Some p \<in> set (Parents (us ! k))"
    then show "p \<in> insert u D \<union> set (take k us)" using Cons.prems(7) [rule_format, of "Suc k" p] by auto
  qed
  have "\<exists>cr'. go_fold (update env (Suc f)) cr1 us = Some cr' \<and> creator_ok mq n S cr' \<and> cr_conf cr' = cr_conf cr1"
  proof (rule Cons.IH [OF r(2) _ _ _ D _ later])
    show "\<forall>u \<in> set us. regular cr1 u" using Cons.prems(4) fr by (simp add: regular_def)
  qed (use Cons.prems(2,3,6) fr in auto)
  then show ?case using r(1) fr(4) update_regular [of cr u env f] Cons.prems(2,4) by auto
qed auto

lemma built_unit_checks:
  assumes S: "consistent_units (unat n) S" and ok: "creator_ok mq n S cr"
    and cnf: "CanSkipLevel (cr_conf cr)" "Pid (cr_conf cr) < n" and r: "ready cr = Some True"
  shows "buildParents cr = Some (candidates cr, cr_level cr)"
    and "New_unit shake sign (Pid (cr_conf cr)) e (candidates cr) (cr_level cr) data rs = Some u \<Longrightarrow> nProc d = n \<Longrightarrow>
      BasicCorrectness u d = None \<and> ParentConsistency u d = None"
proof -
  have e: "entries_in (unat n) S (candidates cr)" and c: "consistent_upto (unat n) (unat n) (candidates cr)"
    using ok by (auto simp: creator_ok_def)
  have len: "length (candidates cr) = unat n" using e by (simp add: entries_in_def)
  show "buildParents cr = Some (candidates cr, cr_level cr)"
    using cnf(1) MakeConsistent_id [OF S e c] by (simp add: buildParents_def getParents_def)
  assume u: "New_unit shake sign (Pid (cr_conf cr)) e (candidates cr) (cr_level cr) data rs = Some u" and d: "nProc d = n"
  have p: "Parents u = candidates cr" "Level u = cr_level cr" "Creator u = Pid (cr_conf cr)"
    using u by (auto simp: New_unit_def Let_def split: bind_splits)
  obtain own where own: "candidates cr ! unat (Pid (cr_conf cr)) = Some own" "Level own < cr_level cr"
    using r by (auto simp: ready_def own_candidate_def nth_opt_def split: if_splits bind_splits)
  have at: "parent_at (candidates cr) i = candidates cr ! unat i" if "i < n" for i
    using that len by (simp add: parent_at_def word_less_nat_alt)
  have in_S: "q \<in> S \<and> Creator q = i" if "i < n" "candidates cr ! unat i = Some q" for i q
    using e that by (auto simp: entries_in_def word_less_nat_alt word_unat_eq_iff)
  have pred: "Predecessor u = Some own" using own(1) cnf(2) p at by (simp add: Predecessor_def)
  have B: "BasicCorrectness u d = None"
    unfolding BasicCorrectness_iff using p d len pred own(2) at in_S by auto
  have "\<exists>p. candidates cr ! unat i = Some p \<and> Level v \<le> Level p"
    if ij: "i < n" "j < n" "candidates cr ! unat j = Some q" "parent_at (Parents q) i = Some v" for i j q v
  proof -
    have q: "q \<in> S" and i: "unat i < unat n" and j: "unat j < unat n" using in_S ij by (auto simp: word_less_nat_alt)
    have v: "Parents q ! unat i = Some v" using ij(4) by (simp add: parent_at_def split: if_splits)
    have "0 \<le> Level v" using consistent_unitsD(4) [OF S q i v] consistent_unitsD(2) [OF S] by blast
    moreover have "Level v \<le> lvl (candidates cr ! unat i)" using c i j ij(3) v unfolding consistent_upto_def by force
    ultimately show ?thesis by (cases "candidates cr ! unat i") auto
  qed
  then have "ParentConsistency u d = None" unfolding ParentConsistency_iff using p d at by auto
  then show "BasicCorrectness u d = None \<and> ParentConsistency u d = None" using B by blast
qed

text \<open>
  C34: a creator that starts an epoch and processes the units of the belt, each after its parents, never panics;
  its counters give the level that \<open>LevelFromParents\<close> computes for its candidates; and when it is
  ready, the unit it makes of them (skipping levels allowed) passes the checks of basic correctness and of parent
  consistency, the candidates being consistent as they are.
\<close>

theorem creator_builds_valid_unit:
  assumes "consistent_units (unat n) S" "set us \<subseteq> S" "NProc cnf = n" "Pid cnf < n" "CanSkipLevel cnf" "0 < mq n"
    and "\<forall>k < length us. \<forall>p. Some p \<in> set (Parents (us ! k)) \<longrightarrow> p \<in> set (take k us)"
    and "\<forall>u \<in> set us. Epoch u = e \<and> Level u < OrderStartLevel cnf + EpochLength cnf"
  shows "\<exists>cr. go_fold (update env (Suc f)) ((NewForEpoch mq cnf e)\<lparr>epochProof := Some epi\<rparr>) us = Some cr
    \<and> cr_level cr = LevelFromParents mq (candidates cr)
    \<and> (ready cr = Some True \<longrightarrow> buildParents cr = Some (candidates cr, cr_level cr)
      \<and> (\<forall>data rs u d. New_unit (env_shake env) (env_sign env) (Pid cnf) e (candidates cr) (cr_level cr) data rs = Some u \<longrightarrow>
          nProc d = n \<longrightarrow> BasicCorrectness u d = None \<and> ParentConsistency u d = None))"
proof -
  let ?cr = "(NewForEpoch mq cnf e)\<lparr>epochProof := Some epi\<rparr>"
  have ok: "creator_ok mq n S ?cr"
    using assms(3) by (auto simp: creator_ok_def NewForEpoch_def counts_ok_def entries_in_def consistent_upto_def on_lvl_def)
  have reg: "\<forall>u \<in> set us. regular ?cr u" using assms(8) by (simp add: regular_def NewForEpoch_def)
  have empty: "\<forall>k < length us. \<forall>p. Some p \<in> set (Parents (us ! k)) \<longrightarrow> p \<in> {} \<union> set (take k us)" using assms(7) by simp
  have "\<exists>cr'. go_fold (update env (Suc f)) ?cr us = Some cr' \<and> creator_ok mq n S cr' \<and> cr_conf cr' = cr_conf ?cr"
    by (rule update_list_ok [OF assms(1) ok _ assms(2) reg _ _ empty]) simp_all
  then obtain cr where cr: "go_fold (update env (Suc f)) ?cr us = Some cr" "creator_ok mq n S cr" "cr_conf cr = cnf"
    by (auto simp: NewForEpoch_def)
  have "cr_level cr = LevelFromParents mq (candidates cr)"
    using counts_level [of mq cr] cr(2) assms(6) by (simp add: creator_ok_def)
  then show ?thesis using built_unit_checks [OF assms(1) cr(2)] cr assms(4,5) by auto
qed

section \<open>Fuel\<close>

text \<open>
  What the creator keeps for its loops to end: the level it could produce is at least the highest
  level of a candidate, its own units are not frozen, one unit is no quorum, and epochs
  have at least one level.
\<close>

definition creator_live :: "('sh, 'k) Creator_state \<Rightarrow> bool" where
  "creator_live cr \<longleftrightarrow> CanSkipLevel (cr_conf cr) \<and> 0 < OrderStartLevel (cr_conf cr) + EpochLength (cr_conf cr)
     \<and> \<not> frozen cr (Pid (cr_conf cr)) \<and> 1 < quorum cr \<and> maxLvl cr \<le> cr_level cr \<and> -1 \<le> maxLvl cr"

lemma updateCandidates_live:
  assumes "updateCandidates cr u = Some cr'" "creator_live cr"
  shows "creator_live cr'"
  using assms by (auto simp: creator_live_def updateCandidates_def Let_def split: if_splits bind_splits)

lemma New_unit_fields:
  assumes "New_unit shake sign pid e ps l data rs = Some u"
  shows "Creator u = pid" "Epoch u = e" "Level u = l" "Parents u = ps" "pu_data (preunit_of u) = data"
  using assms by (auto simp: New_unit_def Let_def split: bind_splits)

text \<open>The dealing unit of a new epoch only becomes a candidate.\<close>

lemma update_dealing:
  assumes "creator_live cr" "Level u = 0" "Epoch u = cr_epoch cr" "Creator u = Pid (cr_conf cr)" "epochProof cr \<noteq> None"
  shows "update env (Suc f) cr u = updateCandidates cr u"
  using assms by (intro update_regular) (simp_all add: regular_def creator_live_def)

lemma newEpoch_eq:
  assumes "creator_live cr"
  shows "newEpoch env (Suc (Suc (Suc f))) cr e data =
    (let cr' = (resetEpoch (cr\<lparr>cr_epoch := e, epochDone := False\<rparr>))\<lparr>epochProof := Some (NewProofBuilder e)\<rparr>;
         ps = replicate (unat (NProc (cr_conf cr))) None in
     do { u \<leftarrow> New_unit (env_shake env) (env_sign env) (Pid (cr_conf cr)) e ps 0 data (env_rsData env 0 ps e);
          updateCandidates (cr'\<lparr>sent := sent cr @ [u]\<rparr>) u })"
  using assms
  by (auto simp: createUnit.simps newEpoch.simps resetEpoch_def Let_def creator_live_def intro!: Option.bind_cong [OF HOL.refl] update_dealing dest: New_unit_fields)

lemma newEpoch_live:
  assumes "creator_live cr" "newEpoch env (Suc (Suc (Suc f))) cr e data = Some cr'"
  shows "creator_live cr'" "cr_conf cr' = cr_conf cr"
proof -
  have live: "creator_live (resetEpoch (cr\<lparr>cr_epoch := e, epochDone := False\<rparr>)\<lparr>epochProof := Some (NewProofBuilder e), sent := us\<rparr>)" for us
    using assms(1) by (simp add: creator_live_def resetEpoch_def)
  show "creator_live cr'" "cr_conf cr' = cr_conf cr"
    using assms(2) updateCandidates_live [OF _ live] unfolding newEpoch_eq [OF assms(1)]
    by (auto simp: Let_def resetEpoch_def split: bind_splits dest: updateCandidates_frame(4))
qed

text \<open>More fuel than needed changes nothing.\<close>

lemma newEpoch_fuel:
  assumes "creator_live cr" "3 \<le> f"
  shows "newEpoch env f cr e data = newEpoch env 3 cr e data"
proof -
  obtain g where "f = Suc (Suc (Suc g))" using assms(2) by (metis Suc_le_D numeral_3_eq_3 Suc_le_mono)
  then show ?thesis unfolding numeral_3_eq_3 by (simp only: newEpoch_eq [OF assms(1)])
qed

text \<open>The part of \<open>update\<close> after the switch to the epoch of the unit.\<close>

definition update_rest :: "('sh, 'sg) cr_env \<Rightarrow> nat \<Rightarrow> Unit \<Rightarrow> ('sh, 'k) Creator_state \<Rightarrow> ('sh, 'k) Creator_state go" where
  "update_rest env f u cr =
     do { epi \<leftarrow> epochProof cr;
          (pr, epi') \<leftarrow> TryBuilding (env_tss env) (env_wtk env) (cr_conf cr) epi u;
          let cr2 = cr\<lparr>epochProof := Some epi'\<rparr>;
          case pr of
            Some proof_data \<Rightarrow> newEpoch env f cr2 (cr_epoch cr2 + 1) proof_data
          | None \<Rightarrow> updateCandidates cr2 u }"

lemma update_eq:
  "update env (Suc f) cr u =
     (if frozen cr (Creator u) \<or> Epoch u < cr_epoch cr then Some cr
      else if Epoch u > cr_epoch cr then
        do { epi \<leftarrow> epochProof cr;
             ok \<leftarrow> Verify (env_tss env) (env_wtk env) epi (preunit_of u);
             if ok then do { cr' \<leftarrow> newEpoch env f cr (Epoch u) (pu_data (preunit_of u)); update_rest env f u cr' }
             else Some cr }
      else update_rest env f u cr)"
proof -
  have rest: "(case r of None \<Rightarrow> Some cr | Some cr1 \<Rightarrow> do { epi \<leftarrow> epochProof cr1;
         (epochProof', epi') \<leftarrow> TryBuilding (env_tss env) (env_wtk env) (cr_conf cr1) epi u;
         let cr2 = cr1\<lparr>epochProof := Some epi'\<rparr>;
         case epochProof' of Some proof_data \<Rightarrow> newEpoch env f cr2 (cr_epoch cr2 + 1) proof_data
         | None \<Rightarrow> updateCandidates cr2 u }) = (case r of None \<Rightarrow> Some cr | Some cr1 \<Rightarrow> update_rest env f u cr1)" for r
    by (simp add: update_rest_def Let_def split: option.split)
  show ?thesis unfolding update.simps rest by (auto split: bind_splits intro!: Option.bind_cong [OF HOL.refl])
qed

lemma update_rest_fuel:
  assumes "creator_live cr" "3 \<le> f"
  shows "update_rest env f u cr = update_rest env 3 u cr"
    and "update_rest env f u cr = Some cr' \<Longrightarrow> creator_live cr' \<and> cr_conf cr' = cr_conf cr"
proof -
  have live: "creator_live (cr\<lparr>epochProof := p\<rparr>)" for p using assms(1) by (simp add: creator_live_def)
  show "update_rest env f u cr = update_rest env 3 u cr"
    unfolding update_rest_def Let_def
    by (auto intro!: Option.bind_cong [OF HOL.refl] simp: newEpoch_fuel [OF live assms(2)] split: option.splits)
  assume r: "update_rest env f u cr = Some cr'"
  obtain g where f: "f = Suc (Suc (Suc g))" using assms(2) by (metis Suc_le_D numeral_3_eq_3 Suc_le_mono)
  show "creator_live cr' \<and> cr_conf cr' = cr_conf cr"
    using r newEpoch_live [OF live] updateCandidates_live [OF _ live] updateCandidates_frame(4) [of "cr\<lparr>epochProof := p\<rparr>" for p] unfolding f
    by (auto simp: update_rest_def Let_def split: bind_splits option.splits)
qed

lemma update_fuel:
  assumes "creator_live cr" "4 \<le> f"
  shows "update env f cr u = update env 4 cr u"
    and "update env f cr u = Some cr' \<Longrightarrow> creator_live cr' \<and> cr_conf cr' = cr_conf cr"
proof -
  obtain g where f: "f = Suc g" "3 \<le> g" using assms(2) by (cases f) auto
  have four: "(4 :: nat) = Suc 3" by simp
  obtain h where h: "g = Suc (Suc (Suc h))" using f(2) by (metis Suc_le_D numeral_3_eq_3 Suc_le_mono)
  have "newEpoch env g cr e data = Some c \<Longrightarrow> creator_live c \<and> cr_conf c = cr_conf cr" for e data c
    unfolding h using newEpoch_live [OF assms(1)] by blast
  then have n: "newEpoch env 3 cr e data = Some c \<Longrightarrow> creator_live c" "newEpoch env 3 cr e data = Some c \<Longrightarrow> cr_conf c = cr_conf cr" for e data c
    unfolding newEpoch_fuel [OF assms(1) f(2)] by blast+
  show "update env f cr u = update env 4 cr u"
    unfolding f(1) four update_eq newEpoch_fuel [OF assms(1) f(2)] using assms(1) update_rest_fuel(1) [OF _ f(2)]
    by (auto intro!: Option.bind_cong [OF HOL.refl] dest!: n(1))
  assume "update env f cr u = Some cr'"
  then have "cr' = cr \<or> update_rest env g u cr = Some cr'
    \<or> (\<exists>c. newEpoch env 3 cr (Epoch u) (pu_data (preunit_of u)) = Some c \<and> update_rest env g u c = Some cr')"
    unfolding f(1) update_eq newEpoch_fuel [OF assms(1) f(2)] by (auto simp: bind_eq_Some_conv split: if_splits)
  then show "creator_live cr' \<and> cr_conf cr' = cr_conf cr"
    using assms(1) n update_rest_fuel(2) [OF _ f(2)] by metis
qed

lemma createUnit_fuel:
  assumes "creator_live cr" "5 \<le> f"
  shows "createUnit env f cr ps l data = createUnit env 5 cr ps l data"
    and "createUnit env f cr ps l data = Some cr' \<Longrightarrow> creator_live cr' \<and> cr_conf cr' = cr_conf cr"
proof -
  obtain g where f: "f = Suc g" "4 \<le> g" using assms(2) by (cases f) auto
  have five: "(5 :: nat) = Suc 4" by simp
  have live: "creator_live (cr\<lparr>sent := s\<rparr>)" for s using assms(1) by (simp add: creator_live_def)
  show "createUnit env f cr ps l data = createUnit env 5 cr ps l data"
    unfolding f(1) five createUnit.simps update_fuel(1) [OF live f(2)] ..
  show "createUnit env f cr ps l data = Some cr' \<Longrightarrow> creator_live cr' \<and> cr_conf cr' = cr_conf cr"
    unfolding f(1) createUnit.simps using update_fuel(2) [OF live f(2)] by (auto simp: Let_def bind_eq_Some_conv)
qed

text \<open>
  A unit on the level the creator is ready for: afterwards the creator is either not ready, or it is
  ready for a level above all candidates, after which it is not ready any more.
\<close>

lemma ready_iff:
  assumes "candidates cr ! unat (Pid (cr_conf cr)) = Some own" "unat (Pid (cr_conf cr)) < length (candidates cr)"
  shows "ready cr = Some (\<not> epochDone cr \<and> Level own < cr_level cr)"
  using assms by (simp add: ready_def own_candidate_def nth_opt_def)

definition own_below :: "('sh, 'k) Creator_state \<Rightarrow> bool" where
  "own_below cr \<longleftrightarrow> (\<exists>own. unat (Pid (cr_conf cr)) < length (candidates cr)
     \<and> candidates cr ! unat (Pid (cr_conf cr)) = Some own \<and> Level own < cr_level cr)"

definition ready_after :: "int \<Rightarrow> int \<Rightarrow> ('sh, 'k) Creator_state \<Rightarrow> bool" where
  "ready_after m l cr' \<longleftrightarrow> (\<exists>b. ready cr' = Some b \<and> (b \<longrightarrow> maxLvl cr' < cr_level cr' \<and> l = m))"

lemma ready_own_below: "ready cr = Some True \<Longrightarrow> own_below cr"
  by (auto simp: own_below_def ready_def own_candidate_def nth_opt_def bind_eq_Some_conv split: if_splits)

lemma updateCandidates_own:
  assumes live: "creator_live cr" and u: "Creator u = Pid (cr_conf cr)" "Level u = cr_level cr" "Epoch u = cr_epoch cr"
    and r: "own_below cr" "updateCandidates cr u = Some cr'"
  shows "ready_after (maxLvl cr) (cr_level cr) cr'"
proof -
  let ?p = "unat (Pid (cr_conf cr))"
  obtain own where own: "?p < length (candidates cr)" "candidates cr ! ?p = Some own" "Level own < cr_level cr"
    using r(1) by (auto simp: own_below_def)
  have c: "candidates cr' ! ?p = Some u" "?p < length (candidates cr')" "cr_conf cr' = cr_conf cr"
    and l: "cr_level cr' = max (maxLvl cr) (cr_level cr) + (if onMaxLvl cr' \<ge> quorum cr then 1 else 0)" "maxLvl cr' = max (maxLvl cr) (cr_level cr)"
    and one: "cr_level cr > maxLvl cr \<Longrightarrow> onMaxLvl cr' = 1"
    using r(2) u own by (auto simp: updateCandidates_def nth_opt_def Let_def max_def split: if_splits)
  have top: "cr_level cr' = cr_level cr" if "cr_level cr > maxLvl cr" using that l one live by (simp add: creator_live_def max_def not_le)
  have le: "maxLvl cr \<le> cr_level cr" using live by (simp add: creator_live_def)
  show ?thesis
  proof (cases "cr_level cr > maxLvl cr")
    case True
    then show ?thesis using ready_iff [of cr' u] c top u(2) by (auto simp: ready_after_def)
  next
    case False
    then have eq: "cr_level cr = maxLvl cr" using le by simp
    then have "maxLvl cr' < cr_level cr'" if "cr_level cr < cr_level cr'" using that l by simp
    then show ?thesis using ready_iff [of cr' u] c u(2) eq by (auto simp: ready_after_def)
  qed
qed

lemma newEpoch_ready:
  assumes "creator_live cr" "3 \<le> f" "newEpoch env f cr e data = Some cr'"
  shows "ready cr' = Some False"
proof -
  let ?cr = "(resetEpoch (cr\<lparr>cr_epoch := e, epochDone := False\<rparr>))\<lparr>epochProof := Some (NewProofBuilder e)\<rparr>"
  let ?ps = "replicate (unat (NProc (cr_conf cr))) None :: Unit option list"
  obtain u where u: "New_unit (env_shake env) (env_sign env) (Pid (cr_conf cr)) e ?ps 0 data (env_rsData env 0 ?ps e) = Some u"
      "updateCandidates (?cr\<lparr>sent := sent cr @ [u]\<rparr>) u = Some cr'"
    using assms(3) newEpoch_eq [OF assms(1), of env 0 e data] unfolding newEpoch_fuel [OF assms(1,2)] numeral_3_eq_3
    by (auto simp: Let_def bind_eq_Some_conv)
  note f = New_unit_fields [OF u(1)]
  let ?p = "unat (Pid (cr_conf cr))"
  have q: "\<not> quorum cr \<le> 1" using assms(1) by (simp add: creator_live_def not_le)
  have p: "?p < length (candidates cr)" using u(2) f by (auto simp: updateCandidates_def resetEpoch_def nth_opt_def split: if_splits)
  then have "candidates cr' ! ?p = Some u \<and> ?p < length (candidates cr') \<and> cr_conf cr' = cr_conf cr \<and> cr_level cr' = 0"
    using u(2) f q by (simp add: updateCandidates_def resetEpoch_def nth_opt_def Let_def) auto
  then show ?thesis using ready_iff [of cr' u] f(3) by simp
qed

lemma update_own:
  assumes live: "creator_live cr" and f: "4 \<le> f" and own: "own_below cr"
    and u: "Creator u = Pid (cr_conf cr)" "Level u = cr_level cr" "Epoch u = cr_epoch cr" and r: "update env f cr u = Some cr'"
  shows "ready_after (maxLvl cr) (cr_level cr) cr'"
proof -
  obtain g where g: "f = Suc g" "3 \<le> g" using f by (cases f) auto
  have "update_rest env g u cr = Some cr'" using r u live unfolding g(1) update_eq by (simp add: creator_live_def)
  then obtain epi' where p: "(\<exists>d. newEpoch env g (cr\<lparr>epochProof := Some epi'\<rparr>) (cr_epoch cr + 1) d = Some cr')
      \<or> updateCandidates (cr\<lparr>epochProof := Some epi'\<rparr>) u = Some cr'"
    by (auto simp: update_rest_def Let_def bind_eq_Some_conv split: option.splits)
  let ?cr = "cr\<lparr>epochProof := Some epi'\<rparr>"
  have live': "creator_live ?cr" and own': "own_below ?cr" using live own by (simp_all add: creator_live_def own_below_def)
  from p show ?thesis
  proof
    assume "\<exists>d. newEpoch env g ?cr (cr_epoch cr + 1) d = Some cr'"
    then have "ready cr' = Some False" using newEpoch_ready [OF live' g(2)] by blast
    then show ?thesis by (auto simp: ready_after_def)
  next
    assume "updateCandidates ?cr u = Some cr'"
    then show ?thesis using updateCandidates_own [OF live' _ _ _ own'] u by simp
  qed
qed

lemma drain_timing_frame:
  "drain_timing env cr ts = Some (data, cr') \<Longrightarrow> \<exists>b q. cr' = cr\<lparr>epochDone := b, lastTiming := q\<rparr>"
proof (induction ts)
  case Nil
  then have "cr' = cr\<lparr>epochDone := epochDone cr, lastTiming := []\<rparr>" by (cases cr) simp
  then show ?case by blast
next
  case (Cons t ts)
  then show ?case by (auto simp: Let_def bind_eq_Some_conv split: if_splits)
qed

lemma getData_frame:
  assumes "getData env cr l = Some (data, cr')"
  shows "\<exists>b q n. cr' = cr\<lparr>epochDone := b, lastTiming := q, ds_calls := n\<rparr>"
proof (cases "l \<le> LastLevel (cr_conf cr)")
  case True
  then have "cr' = cr\<lparr>epochDone := epochDone cr, lastTiming := lastTiming cr, ds_calls := ds_calls cr'\<rparr>"
    using assms by (cases cr) (auto simp: getData_def split: option.splits)
  then show ?thesis by blast
next
  case False
  then obtain b q where "cr' = cr\<lparr>epochDone := b, lastTiming := q\<rparr>" using assms drain_timing_frame unfolding getData_def by metis
  then have "cr' = cr\<lparr>epochDone := b, lastTiming := q, ds_calls := ds_calls cr\<rparr>" by (cases cr) simp
  then show ?thesis by blast
qed

text \<open>The body of the inner loop.\<close>

definition create_step :: "('sh, 'sg) cr_env \<Rightarrow> nat \<Rightarrow> ('sh, 'k) Creator_state \<Rightarrow> ('sh, 'k) Creator_state go" where
  "create_step env f cr =
     do { (parents, level) \<leftarrow> buildParents cr;
          (data, cr1) \<leftarrow> getData env cr level;
          createUnit env f cr1 parents level data }"

lemma create_while_ready_eq:
  "create_while_ready env f (Suc k) cr =
     do { r \<leftarrow> ready cr; if r then do { cr2 \<leftarrow> create_step env f cr; create_while_ready env f k cr2 } else Some cr }"
  by (auto simp: create_step_def split: bind_splits)

lemma create_step_fuel:
  assumes live: "creator_live cr" and f: "5 \<le> f"
  shows "create_step env f cr = create_step env 5 cr"
    and "ready cr = Some True \<Longrightarrow> create_step env f cr = Some cr' \<Longrightarrow>
      creator_live cr' \<and> cr_conf cr' = cr_conf cr \<and> ready_after (maxLvl cr) (cr_level cr) cr'"
proof -
  have keep: "creator_live (cr\<lparr>epochDone := b, lastTiming := q, ds_calls := n\<rparr>)" for b q n
    using live by (simp add: creator_live_def)
  have fuel: "createUnit env f cr1 ps l data = createUnit env 5 cr1 ps l data"
    "createUnit env f cr1 ps l data = Some c \<Longrightarrow> creator_live c \<and> cr_conf c = cr_conf cr" if gd: "getData env cr l = Some (data, cr1)" for l data cr1 ps c
  proof -
    obtain b q n where cr1: "cr1 = cr\<lparr>epochDone := b, lastTiming := q, ds_calls := n\<rparr>" using getData_frame [OF gd] by blast
    show "createUnit env f cr1 ps l data = createUnit env 5 cr1 ps l data" unfolding cr1 by (rule createUnit_fuel [OF keep f])
    show "createUnit env f cr1 ps l data = Some c \<Longrightarrow> creator_live c \<and> cr_conf c = cr_conf cr"
      unfolding cr1 by (drule createUnit_fuel(2) [OF keep f]) simp
  qed
  show "create_step env f cr = create_step env 5 cr"
    unfolding create_step_def by (auto intro!: Option.bind_cong [OF HOL.refl] fuel(1))
  assume r: "ready cr = Some True" "create_step env f cr = Some cr'"
  then obtain ps data cr1 where g: "getData env cr (cr_level cr) = Some (data, cr1)" "createUnit env f cr1 ps (cr_level cr) data = Some cr'"
    using live by (auto simp: create_step_def buildParents_def creator_live_def bind_eq_Some_conv)
  obtain b q n where cr1: "cr1 = cr\<lparr>epochDone := b, lastTiming := q, ds_calls := n\<rparr>" using getData_frame [OF g(1)] by blast
  obtain h where h: "f = Suc h" "4 \<le> h" using f by (cases f) auto
  obtain u where u: "New_unit (env_shake env) (env_sign env) (Pid (cr_conf cr)) (cr_epoch cr) ps (cr_level cr) data (env_rsData env (cr_level cr) ps (cr_epoch cr)) = Some u"
      "update env h (cr1\<lparr>sent := sent cr @ [u]\<rparr>) u = Some cr'"
    using g(2) cr1 unfolding h(1) createUnit.simps by (auto simp: Let_def bind_eq_Some_conv)
  let ?cr = "cr1\<lparr>sent := sent cr @ [u]\<rparr>"
  have "creator_live ?cr" "own_below ?cr"
    using live ready_own_below [OF r(1)] cr1 by (simp_all add: creator_live_def own_below_def)
  from update_own [OF this(1) h(2) this(2) _ _ _ u(2)] New_unit_fields [OF u(1)]
  have "ready_after (maxLvl cr) (cr_level cr) cr'" using cr1 by simp
  then show "creator_live cr' \<and> cr_conf cr' = cr_conf cr \<and> ready_after (maxLvl cr) (cr_level cr) cr'"
    using fuel(2) [OF g] by blast
qed

lemma create_while_ready_fuel:
  assumes live: "creator_live cr" and f: "5 \<le> f" and k: "3 \<le> k"
  shows "create_while_ready env f k cr = create_while_ready env 5 3 cr"
    and "create_while_ready env f k cr = Some cr' \<Longrightarrow> creator_live cr' \<and> cr_conf cr' = cr_conf cr"
proof -
  obtain j where j: "k = Suc (Suc (Suc j))" using k by (metis Suc_le_D numeral_3_eq_3 Suc_le_mono)
  have done0: "create_while_ready env g (Suc i) c = Some c" if "ready c = Some False" for g i c
    using that by (simp add: create_while_ready_eq del: create_while_ready.simps)
  have done1: "create_while_ready env g (Suc (Suc i)) c = create_step env 5 c"
    if c: "creator_live c" "ready c = Some True" "maxLvl c < cr_level c" and g: "5 \<le> g" for g i c
  proof (cases "create_step env 5 c")
    case (Some c')
    then have s: "create_step env g c = Some c'" unfolding create_step_fuel(1) [OF c(1) g] .
    have "ready c' = Some False" using create_step_fuel(2) [OF c(1) g c(2) s] c(3) by (auto simp: ready_after_def)
    then show ?thesis using s Some c(2) done0 by (simp add: create_while_ready_eq [of env g "Suc i"] del: create_while_ready.simps)
  qed (simp add: create_while_ready_eq c(2) create_step_fuel(1) [OF c(1) g] del: create_while_ready.simps)
  have all: "create_while_ready env g (Suc (Suc (Suc i))) cr =
      do { r \<leftarrow> ready cr; if r then do { c \<leftarrow> create_step env 5 cr; r' \<leftarrow> ready c; if r' then create_step env 5 c else Some c } else Some cr }"
    if g: "5 \<le> g" for g i
  proof (cases "ready cr = Some True \<and> create_step env 5 cr \<noteq> None")
    case True
    then obtain c where c: "create_step env g cr = Some c" "create_step env 5 cr = Some c"
      unfolding create_step_fuel(1) [OF live g] by auto
    note ok = create_step_fuel(2) [OF live g _ c(1)]
    then obtain b where "ready c = Some b" "b \<longrightarrow> maxLvl c < cr_level c" "creator_live c" using True by (auto simp: ready_after_def)
    then show ?thesis using True c done0 done1 [OF _ _ _ g]
      by (cases b) (simp_all add: create_while_ready_eq [of env g "Suc (Suc i)"] del: create_while_ready.simps)
  qed (auto simp: create_while_ready_eq create_step_fuel(1) [OF live g] simp del: create_while_ready.simps split: bind_splits)
  show "create_while_ready env f k cr = create_while_ready env 5 3 cr"
    unfolding j numeral_3_eq_3 all [OF f] all [OF order.refl] ..
  assume r: "create_while_ready env f k cr = Some cr'"
  have 5: "(5 :: nat) \<le> 5" by simp
  from r have "cr' = cr \<or> (ready cr = Some True \<and> (create_step env 5 cr = Some cr'
      \<or> (\<exists>c. create_step env 5 cr = Some c \<and> ready c = Some True \<and> create_step env 5 c = Some cr')))"
    unfolding j all [OF f] by (auto simp: bind_eq_Some_conv split: if_splits)
  then show "creator_live cr' \<and> cr_conf cr' = cr_conf cr" using live create_step_fuel(2) [OF _ 5] by metis
qed

lemma freezeParent_live:
  assumes "creator_live cr" "pid \<noteq> Pid (cr_conf cr)" "map_option snd (freezeParent cr pid) = Some cr'"
  shows "creator_live cr' \<and> cr_conf cr' = cr_conf cr"
  using assms by (auto simp: freezeParent_def creator_live_def bind_eq_Some_conv)

lemma create_batch_fuel:
  assumes live: "creator_live cr" and f: "5 \<le> f" and k: "3 \<le> k"
  shows "create_batch env f k cr belt = create_batch env 5 3 cr belt"
    and "create_batch env f k cr belt = Some cr' \<Longrightarrow> creator_live cr' \<and> cr_conf cr' = cr_conf cr"
proof -
  let ?P = "\<lambda>c. creator_live c \<and> cr_conf c = cr_conf cr"
  have f4: "4 \<le> f" "(4 :: nat) \<le> 5" using f by auto
  have step: "update env f c u = update env 5 c u" "update env f c u = Some c' \<Longrightarrow> ?P c'" if "?P c" for c u c'
    using that update_fuel(1) [of c f env u] update_fuel(1) [of c 5 env u] update_fuel(2) [of c f env u c'] f4 by simp_all
  have fold: "go_fold (update env f) cr belt = go_fold (update env 5) cr belt" "go_fold (update env f) cr belt = Some c \<Longrightarrow> ?P c" for c
    using go_fold_cong [of ?P belt "update env f" "update env 5" cr] step live by blast+
  then show "create_batch env f k cr belt = create_batch env 5 3 cr belt"
    unfolding create_batch_def by (auto intro!: Option.bind_cong create_while_ready_fuel(1) [OF _ f k])
  assume "create_batch env f k cr belt = Some cr'"
  then obtain c where "go_fold (update env f) cr belt = Some c" "create_while_ready env f k c = Some cr'"
    unfolding create_batch_def by (auto simp: bind_eq_Some_conv)
  then show "?P cr'" using fold(2) create_while_ready_fuel(2) [OF _ f k] by metis
qed

lemma create_batches_fuel:
  assumes f: "5 \<le> f" and k: "3 \<le> k"
  shows "creator_live cr \<Longrightarrow> \<forall>(forkers, timing, belt) \<in> set bs. Pid (cr_conf cr) \<notin> set forkers
    \<Longrightarrow> create_batches env f k cr bs = create_batches env 5 3 cr bs"
proof (induction bs arbitrary: cr)
  case (Cons b bs)
  obtain forkers timing belt where b: "b = (forkers, timing, belt)" by (cases b)
  let ?P = "\<lambda>c. creator_live c \<and> cr_conf c = cr_conf cr"
  let ?freeze = "\<lambda>cr pid. map_option snd (freezeParent cr pid)"
  have fork: "Pid (cr_conf cr) \<notin> set forkers" using Cons.prems(2) b by auto
  have fr: "?P c" if "go_fold ?freeze cr forkers = Some c" for c
    using go_fold_cong(2) [of ?P forkers ?freeze ?freeze cr c] that fork Cons.prems(1) freezeParent_live by metis
  have "(do { c \<leftarrow> create_batch env f k (c1\<lparr>lastTiming := lastTiming c1 @ timing\<rparr>) belt; create_batches env f k c bs })
      = (do { c \<leftarrow> create_batch env 5 3 (c1\<lparr>lastTiming := lastTiming c1 @ timing\<rparr>) belt; create_batches env 5 3 c bs })"
    if "?P c1" for c1
  proof -
    let ?c = "c1\<lparr>lastTiming := lastTiming c1 @ timing\<rparr>"
    have live: "creator_live ?c" and cnf: "cr_conf ?c = cr_conf cr" using that by (auto simp: creator_live_def)
    show ?thesis
    proof (rule Option.bind_cong [OF create_batch_fuel(1) [OF live f k]])
      fix c assume "create_batch env 5 3 ?c belt = Some c"
      then have "?P c" using create_batch_fuel [OF live f k, of env belt] cnf by metis
      then show "create_batches env f k c bs = create_batches env 5 3 c bs" using Cons.IH [of c] Cons.prems(2) by simp
    qed
  qed
  then show ?case using fr unfolding b by (auto intro!: Option.bind_cong [OF HOL.refl])
qed simp


section \<open>An example\<close>

definition demo_creator_conf :: "unit conf" where
  "demo_creator_conf = requiredByLinear\<lparr>NProc := 2, Pid := 0, CanSkipLevel := True, EpochLength := 4, LastLevel := 3\<rparr>"

definition demo_env :: "(bytes, bytes) cr_env" where
  "demo_env = \<lparr>env_shake = (\<lambda>bs. replicate 31 0 @ [of_nat (length bs)]), env_sign = (\<lambda>h. h), env_tss = demo_tss,
     env_wtk = Some demo_key, env_rsData = (\<lambda>l ps e. None), env_ds = Some (\<lambda>k. [of_nat k])\<rparr>"

lemma demo_consistent: "consistent_units 2 {demo_a0, demo_b0, demo_a1}"
  by (auto simp: consistent_units_def demo_a0_def demo_b0_def demo_a1_def demo_pu_def numeral_2_eq_2 less_Suc_eq)


theorem MakeConsistent_consistent_witness:
  "\<exists>ps'. MakeConsistent [None, Some (freeUnit (demo_pu 1 [0, 0] 4) [Some demo_a0, Some demo_b0] 1 [])] = Some ps'
     \<and> ps' ! 0 = Some demo_a0"
proof -
  let ?v = "freeUnit (demo_pu 1 [0, 0] 4) [Some demo_a0, Some demo_b0] 1 []"
  let ?S = "{demo_a0, demo_b0, ?v}"
  have S: "consistent_units 2 ?S"
    by (auto simp: consistent_units_def demo_a0_def demo_b0_def demo_pu_def numeral_2_eq_2 less_Suc_eq)
  have e: "entries_in 2 ?S [None, Some ?v]"
    by (auto simp: entries_in_def demo_pu_def numeral_2_eq_2 less_Suc_eq)
  obtain ps' where p: "MakeConsistent [None, Some ?v] = Some ps'" "entries_in 2 ?S ps'"
      "\<forall>i < 2. \<forall>j < 2. \<forall>p v. ps' ! j = Some p \<longrightarrow> Parents p ! i = Some v \<longrightarrow> (\<exists>q. ps' ! i = Some q \<and> Level v \<le> Level q)"
      "\<forall>i < 2. lvl ([None, Some ?v] ! i) \<le> lvl (ps' ! i)"
    using MakeConsistent_consistent [OF S e] by blast
  have in_S: "x \<in> ?S \<and> unat (Creator x) = i" if "ps' ! i = Some x" "i < 2" for i x
    using p(2) that unfolding entries_in_def by blast
  have lv: "1 \<le> lvl (ps' ! 1)" using p(4) [rule_format, of 1] by simp
  then obtain x where x: "ps' ! 1 = Some x" "1 \<le> Level x" by (cases "ps' ! 1") auto
  then have "x = ?v" using in_S [of 1 x] by (auto simp: demo_a0_def demo_b0_def)
  then obtain q where "ps' ! 0 = Some q" using x(1) p(3) [rule_format, of 0 1 ?v demo_a0] by auto
  then have "ps' ! 0 = Some demo_a0" using in_S [of 0 q] by (auto simp: demo_b0_def demo_pu_def)
  then show ?thesis using p(1) by blast
qed

theorem creator_builds_valid_unit_witness:
  "\<exists>cr. go_fold (update demo_env 1) ((NewForEpoch demo_mq demo_creator_conf 0)\<lparr>epochProof := Some (NewProofBuilder 0)\<rparr>) [demo_b0, demo_a0] = Some cr
     \<and> cr_level cr = 1 \<and> buildParents cr = Some ([Some demo_a0, Some demo_b0], 1)"
proof -
  let ?cr = "(NewForEpoch demo_mq demo_creator_conf 0)\<lparr>epochProof := Some (NewProofBuilder 0)\<rparr>"
  let ?P = "\<forall>k < length [demo_b0, demo_a0]. \<forall>p. Some p \<in> set (Parents ([demo_b0, demo_a0] ! k)) \<longrightarrow> p \<in> set (take k [demo_b0, demo_a0])"
  have r: "map_option (\<lambda>cr. (candidates cr, ready cr)) (go_fold (update demo_env 1) ?cr [demo_b0, demo_a0]) = Some ([Some demo_a0, Some demo_b0], Some True)"
    by code_simp
  have P: ?P by (auto simp: demo_a0_def demo_b0_def less_Suc_eq)
  have l: "LevelFromParents demo_mq [Some demo_a0, Some demo_b0] = 1" by code_simp
  have c: "NProc demo_creator_conf = 2" "Pid demo_creator_conf < 2" "CanSkipLevel demo_creator_conf" "0 < demo_mq 2"
      "\<forall>u \<in> set [demo_b0, demo_a0]. Epoch u = 0 \<and> Level u < OrderStartLevel demo_creator_conf + EpochLength demo_creator_conf"
    by code_simp+
  have S: "consistent_units (unat (2 :: u16)) {demo_a0, demo_b0, demo_a1}" using demo_consistent by simp
  have us: "set [demo_b0, demo_a0] \<subseteq> {demo_a0, demo_b0, demo_a1}" by simp
  obtain cr where cr: "go_fold (update demo_env (Suc 0)) ?cr [demo_b0, demo_a0] = Some cr" "cr_level cr = LevelFromParents demo_mq (candidates cr)"
      "ready cr = Some True \<longrightarrow> buildParents cr = Some (candidates cr, cr_level cr)"
    using creator_builds_valid_unit [OF S us c(1,2,3) _ P c(5), of demo_mq demo_env 0 "NewProofBuilder 0"] c(4) by auto
  have "candidates cr = [Some demo_a0, Some demo_b0] \<and> ready cr = Some True" using r cr(1) by simp
  then show ?thesis using cr l by simp
qed

text \<open>
  \<open>freezeParent\<close> replaces a candidate without recounting the candidates on the highest level. After
  the report of a fork the creator can hold the level it counted before, which its parents no longer give:
  here one of two processes is ready for level 1 while its parents only give level 0.
\<close>

theorem freezeParent_stale_level:
  "\<exists>cr cr' :: (bytes, unit) Creator_state. counts_ok demo_mq cr \<and> freezeParent cr 1 = Some (None, cr')
     \<and> ready cr' = Some True \<and> buildParents cr' = Some (candidates cr', 1) \<and> LevelFromParents demo_mq (candidates cr') = 0"
proof -
  let ?cr = "(NewForEpoch demo_mq demo_creator_conf 0)\<lparr>candidates := [Some demo_a0, Some demo_b0], maxLvl := 0, onMaxLvl := 2, cr_level := 1\<rparr> :: (bytes, unit) Creator_state"
  let ?cr' = "?cr\<lparr>candidates := [Some demo_a0, None], frozen := (frozen ?cr)(1 := True)\<rparr>"
  have 1: "counts_ok demo_mq ?cr"
    by (simp add: counts_ok_def NewForEpoch_def demo_mq_def demo_creator_conf_def demo_a0_def demo_b0_def on_lvl_def)
  have 2: "freezeParent ?cr 1 = Some (None, ?cr')"
    by (simp add: freezeParent_def own_candidate_def nth_opt_def NewForEpoch_def demo_creator_conf_def demo_a0_def)
  have "(ready ?cr', buildParents ?cr', LevelFromParents demo_mq (candidates ?cr')) = (Some True, Some ([Some demo_a0, None], 1), 0)"
    by code_simp
  then show ?thesis using 1 2 by (intro exI [of _ ?cr] exI [of _ ?cr']) simp
qed

end
