(* ===== verification/Adder.thy ===== *)
theory Adder
  imports Config
begin

text \<open>
  The adder (\<open>pkg/adder\<close>), the buffer in which preunits wait for their parents. Waiting preunits are
  shared between maps, lists of children and channels, so they live in a heap: a pointer is an
  index into \<open>heap\<close>. Channels to the workers are queues (\<^const>\<open>None\<close> is a nil channel); a send
  that would block does not return and is \<^const>\<open>None\<close>, like a panic. The calls to the syncer and
  the alerter are recorded in \<open>ad_requests\<close> and \<open>ad_forks\<close>. \<open>AddPreunits\<close> and the handling of one ready
  preunit by a worker are the atomic steps of \<open>adder_reach\<close>.

  The theorems: the dag behind an adder is reachable in the sense of \<open>Growth\<close>; the buffer keeps
  exact counts of missing and waiting parents and drains when nothing is missing; and
  \<open>removeFailed\<close> returns exactly when no cycle of waiting preunits is below the failed one.
\<close>

section \<open>State\<close>

record waitingPreunit =
  wp_pu :: preunit
  wp_id :: u64
  wp_source :: u16
  missingParents :: int
  waitingParents :: int
  children :: "nat list"
  failed :: bool

text \<open>The zero time of a preunit that was never requested is \<^const>\<open>None\<close>.\<close>

record missingPreunit =
  neededBy :: "nat list"
  requested :: "int option"

datatype sync_request = RequestFetch u16 "u64 list" | RequestGossip u16

record ('s, 'k) adder =
  ad_dag :: "'s dag"
  ad_hooks :: 's
  ad_conf :: "'k conf"
  ad_ready :: "nat list option list"
  waiting :: "hash \<rightharpoonup> nat"
  waitingByID :: "u64 \<rightharpoonup> nat"
  ad_missing :: "u64 \<rightharpoonup> missingPreunit"
  finished :: bool
  heap :: "waitingPreunit list"
  ad_requests :: "sync_request list"
  ad_forks :: "(preunit \<times> preunit) list"

definition New_adder :: "'s dag \<Rightarrow> 's \<Rightarrow> 'k conf \<Rightarrow> ('s, 'k) adder" where
  "New_adder d s cnf =
     \<lparr>ad_dag = d, ad_hooks = s, ad_conf = cnf,
      ad_ready = map (\<lambda>i. if of_nat i = Pid cnf then None else Some []) [0..<unat (nProc (core d))],
      waiting = Map.empty, waitingByID = Map.empty, ad_missing = Map.empty, finished = False,
      heap = [], ad_requests = [], ad_forks = []\<rparr>"

definition Close :: "('s, 'k) adder \<Rightarrow> ('s, 'k) adder go" where
  "Close ad = (if finished ad then None else Some (ad\<lparr>finished := True\<rparr>))"

text \<open>An assignment to fields of the waiting preunit behind a pointer.\<close>

definition upd_wp :: "nat \<Rightarrow> (waitingPreunit \<Rightarrow> waitingPreunit) \<Rightarrow> ('s, 'k) adder \<Rightarrow> ('s, 'k) adder" where
  "upd_wp r f ad = ad\<lparr>heap := (heap ad)[r := f (heap ad ! r)]\<rparr>"

section \<open>Missing preunits\<close>

definition newMissing :: missingPreunit where
  "newMissing = \<lparr>neededBy = [], requested = None\<rparr>"

definition addNeeding :: "missingPreunit \<Rightarrow> nat \<Rightarrow> missingPreunit" where
  "addNeeding mp r = mp\<lparr>neededBy := neededBy mp @ [r]\<rparr>"

definition registerMissing :: "('s, 'k) adder \<Rightarrow> u64 \<Rightarrow> nat \<Rightarrow> ('s, 'k) adder" where
  "registerMissing ad uid r =
     (let mp = (case ad_missing ad uid of None \<Rightarrow> newMissing | Some mp \<Rightarrow> mp)
      in ad\<lparr>ad_missing := (ad_missing ad)(uid \<mapsto> addNeeding mp r)\<rparr>)"

text \<open>\<open>now.Sub\<close> saturates: since the zero time it is the largest duration.\<close>

definition since :: "int \<Rightarrow> int option \<Rightarrow> int" where
  "since now t = (case t of None \<Rightarrow> 2 ^ 63 - 1 | Some t \<Rightarrow> now - t)"

definition fetch_one :: "int \<Rightarrow> EpochID \<Rightarrow> nat \<Rightarrow> ('s, 'k) adder \<times> u64 list \<Rightarrow> int \<Rightarrow> ('s, 'k) adder \<times> u64 list" where
  "fetch_one now epoch creator s h =
     (case s of (ad, toRequest) \<Rightarrow>
        let uid = ID h (of_nat creator) epoch in
        if waitingByID ad uid \<noteq> None then (ad, toRequest)
        else let mp = (case ad_missing ad uid of None \<Rightarrow> newMissing | Some mp \<Rightarrow> mp) in
             if since now (requested mp) > FetchInterval (ad_conf ad)
             then (ad\<lparr>ad_missing := (ad_missing ad)(uid \<mapsto> mp\<lparr>requested := Some now\<rparr>)\<rparr>, toRequest @ [uid])
             else (ad\<lparr>ad_missing := (ad_missing ad)(uid \<mapsto> mp)\<rparr>, toRequest))"

fun fetch_loop ::
  "int \<Rightarrow> EpochID \<Rightarrow> u16 \<Rightarrow> int list \<Rightarrow> ('s, 'k) adder \<times> u64 list \<Rightarrow> (nat \<times> int) list \<Rightarrow> ('s, 'k) adder go" where
  "fetch_loop now epoch source maxHeights (ad, toRequest) [] =
     Some (if length toRequest > 0 then ad\<lparr>ad_requests := ad_requests ad @ [RequestFetch source toRequest]\<rparr> else ad)"
| "fetch_loop now epoch source maxHeights s ((creator, height) # hs) =
     do { mx \<leftarrow> nth_opt maxHeights creator;
          let (ad, toRequest) = foldl (fetch_one now epoch creator) s (rev [mx + 1..height]);
          if int (length toRequest) > GossipAbove (ad_conf ad)
          then Some (ad\<lparr>ad_requests := ad_requests ad @ [RequestGossip source]\<rparr>)
          else fetch_loop now epoch source maxHeights (ad, toRequest) hs }"

definition fetchMissing :: "int \<Rightarrow> ('s, 'k) adder \<Rightarrow> nat \<Rightarrow> int list \<Rightarrow> ('s, 'k) adder go" where
  "fetchMissing now ad r maxHeights =
     (let wp = heap ad ! r in
      fetch_loop now (pu_epochID (wp_pu wp)) (wp_source wp) maxHeights (ad, []) (enumerate 0 (Heights (pu_crown (wp_pu wp)))))"

section \<open>Waiting preunits\<close>

definition move_parent :: "('s, 'k) adder \<Rightarrow> nat \<Rightarrow> ('s, 'k) adder" where
  "move_parent ad ch =
     upd_wp ch (\<lambda>wp. wp\<lparr>missingParents := missingParents wp - 1, waitingParents := waitingParents wp + 1\<rparr>) ad"

definition checkIfMissing :: "('s, 'k) adder \<Rightarrow> nat \<Rightarrow> ('s, 'k) adder" where
  "checkIfMissing ad r =
     (let uid = wp_id (heap ad ! r) in
      case ad_missing ad uid of
        Some mp \<Rightarrow>
          let ad1 = upd_wp r (\<lambda>wp. wp\<lparr>children := neededBy mp\<rparr>) ad;
              ad2 = foldl move_parent ad1 (neededBy mp)
          in ad2\<lparr>ad_missing := (ad_missing ad2)(uid := None)\<rparr>
      | None \<Rightarrow> upd_wp r (\<lambda>wp. wp\<lparr>children := []\<rparr>) ad)"

definition check_parent :: "EpochID \<Rightarrow> int list \<Rightarrow> nat \<Rightarrow> ('s, 'k) adder \<Rightarrow> nat \<times> int \<Rightarrow> ('s, 'k) adder go" where
  "check_parent epoch maxHeights r ad ch =
     (case ch of (creator, height) \<Rightarrow>
        do { mx \<leftarrow> nth_opt maxHeights creator;
             Some (if height > mx then
                     let parentID = ID height (of_nat creator) epoch in
                     case waitingByID ad parentID of
                       Some par \<Rightarrow>
                         upd_wp par (\<lambda>wp. wp\<lparr>children := children wp @ [r]\<rparr>)
                           (upd_wp r (\<lambda>wp. wp\<lparr>waitingParents := waitingParents wp + 1\<rparr>) ad)
                     | None \<Rightarrow>
                         registerMissing (upd_wp r (\<lambda>wp. wp\<lparr>missingParents := missingParents wp + 1\<rparr>) ad) parentID r
                   else ad) })"

definition checkParents :: "('s, 'k) adder \<Rightarrow> nat \<Rightarrow> (int list \<times> ('s, 'k) adder) go" where
  "checkParents ad r =
     (let pu = wp_pu (heap ad ! r); maxHeights = di_Heights (MaxView (core (ad_dag ad))) in
      do { ad' \<leftarrow> go_fold (check_parent (pu_epochID pu) maxHeights r) ad (enumerate 0 (Heights (pu_crown pu)));
           Some (maxHeights, ad') })"

definition sendIfReady :: "('s, 'k) adder \<Rightarrow> nat \<Rightarrow> ('s, 'k) adder go" where
  "sendIfReady ad r =
     (let wp = heap ad ! r; creator = unat (pu_creator (wp_pu wp)) in
      if waitingParents wp = 0 \<and> missingParents wp = 0 then
        if finished ad then Some ad
        else do { ch \<leftarrow> nth_opt (ad_ready ad) creator;
                  q \<leftarrow> ch;
                  if int (length q) < EpochLength (ad_conf ad)
                  then Some (ad\<lparr>ad_ready := (ad_ready ad)[creator := Some (q @ [r])]\<rparr>) else None }
      else Some ad)"

definition drop_waiting :: "('s, 'k) adder \<Rightarrow> nat \<Rightarrow> ('s, 'k) adder" where
  "drop_waiting ad r =
     ad\<lparr>waiting := (waiting ad)(pu_hash (wp_pu (heap ad ! r)) := None),
        waitingByID := (waitingByID ad)(wp_id (heap ad ! r) := None)\<rparr>"

primrec removeFailed :: "nat \<Rightarrow> ('s, 'k) adder \<Rightarrow> nat \<Rightarrow> ('s, 'k) adder go" where
  "removeFailed 0 = (\<lambda>ad r. None)"
| "removeFailed (Suc f) = (\<lambda>ad r. go_fold (removeFailed f) (drop_waiting ad r) (children (heap ad ! r)))"

definition notify_child :: "('s, 'k) adder \<Rightarrow> nat \<Rightarrow> ('s, 'k) adder go" where
  "notify_child ad ch = sendIfReady (upd_wp ch (\<lambda>wp. wp\<lparr>waitingParents := waitingParents wp - 1\<rparr>) ad) ch"

definition remove :: "nat \<Rightarrow> ('s, 'k) adder \<Rightarrow> nat \<Rightarrow> ('s, 'k) adder go" where
  "remove f ad r =
     (if failed (heap ad ! r) then removeFailed f ad r
      else go_fold notify_child (drop_waiting ad r) (children (heap ad ! r)))"

section \<open>Adding preunits\<close>

text \<open>\<open>verify\<close> is the signature check of a public key.\<close>

definition checkCorrectness :: "('k \<Rightarrow> preunit \<Rightarrow> bool) \<Rightarrow> ('s, 'k) adder \<Rightarrow> preunit \<Rightarrow> gerror option go" where
  "checkCorrectness verify ad pu =
     (if pu_creator pu \<ge> nProc (core (ad_dag ad)) then Some (Some (DataError ''invalid creator''))
      else if pu_epochID pu \<noteq> epochID (core (ad_dag ad)) then
        Some (Some (DataError (''invalid EpochID - expected '' @ print_nat (unat (epochID (core (ad_dag ad)))) @ '', but received ''
                    @ print_nat (unat (pu_epochID pu)) @ '' instead'')))
      else do { k \<leftarrow> nth_opt (PublicKeys (ad_conf ad)) (unat (pu_creator pu)); key \<leftarrow> k;
                Some (if \<not> verify key pu then Some (DataError ''invalid signature'') else None) })"

definition addToWaiting :: "int \<Rightarrow> ('s, 'k) adder \<Rightarrow> preunit \<Rightarrow> u16 \<Rightarrow> (gerror option \<times> ('s, 'k) adder) go" where
  "addToWaiting now ad pu source =
     (case waiting ad (pu_hash pu) of
        Some r \<Rightarrow> Some (Some (DuplicatePreunit (wp_pu (heap ad ! r))), ad)
      | None \<Rightarrow>
          case GetUnit (core (ad_dag ad)) (pu_hash pu) of
            Some u \<Rightarrow> Some (Some (DuplicateUnit u), ad)
          | None \<Rightarrow>
              let uid = UnitID pu;
                  ad1 = (case waitingByID ad uid of
                           Some r \<Rightarrow> ad\<lparr>ad_forks := ad_forks ad @ [(pu, wp_pu (heap ad ! r))]\<rparr>
                         | None \<Rightarrow> ad);
                  r = length (heap ad1);
                  wp = \<lparr>wp_pu = pu, wp_id = uid, wp_source = source, missingParents = 0, waitingParents = 0, children = [], failed = False\<rparr>;
                  ad2 = ad1\<lparr>heap := heap ad1 @ [wp], waiting := (waiting ad1)(pu_hash pu \<mapsto> r), waitingByID := (waitingByID ad1)(uid \<mapsto> r)\<rparr>
              in do { (maxHeights, ad3) \<leftarrow> checkParents ad2 r;
                      let ad4 = checkIfMissing ad3 r;
                      if missingParents (heap ad4 ! r) > 0 then
                        do { ad5 \<leftarrow> fetchMissing now ad4 r maxHeights;
                             Some (Some (UnknownParents (missingParents (heap ad5 ! r))), ad5) }
                      else do { ad5 \<leftarrow> sendIfReady ad4 r; Some (None, ad5) } })"

definition first_pass :: "('k \<Rightarrow> preunit \<Rightarrow> bool) \<Rightarrow> ('s, 'k) adder \<Rightarrow> preunit \<times> Unit option \<Rightarrow> gerror option go" where
  "first_pass verify ad x =
     (case x of (pu, inDag) \<Rightarrow>
        case inDag of None \<Rightarrow> checkCorrectness verify ad pu | Some u \<Rightarrow> Some (Some (DuplicateUnit u)))"

fun second_pass :: "int \<Rightarrow> u16 \<Rightarrow> ('s, 'k) adder \<Rightarrow> (preunit \<times> gerror option) list \<Rightarrow> (gerror option list \<times> ('s, 'k) adder) go" where
  "second_pass now source ad [] = Some ([], ad)"
| "second_pass now source ad ((pu, e) # pus) =
     do { (e', ad1) \<leftarrow> (case e of Some err \<Rightarrow> Some (Some err, ad) | None \<Rightarrow> addToWaiting now ad pu source);
          (errs, ad2) \<leftarrow> second_pass now source ad1 pus;
          Some (e' # errs, ad2) }"

definition AddPreunits ::
  "('k \<Rightarrow> preunit \<Rightarrow> bool) \<Rightarrow> int \<Rightarrow> ('s, 'k) adder \<Rightarrow> u16 \<Rightarrow> preunit list \<Rightarrow> (gerror option list \<times> ('s, 'k) adder) go" where
  "AddPreunits verify now ad source preunits =
     (let alreadyInDag = GetUnits (core (ad_dag ad)) (map (\<lambda>pu. Some (pu_hash pu)) preunits) in
      do { errs \<leftarrow> those (map (first_pass verify ad) (zip preunits alreadyInDag));
           second_pass now source ad (zip preunits errs) })"

section \<open>Ready preunits\<close>

text \<open>
  \<open>ResolveMissingCommitment\<close> of the alerter (\<open>pkg/forking/alert.go\<close>); \<open>rc\<close> is its \<open>RequestCommitment\<close>, which
  talks to another process.
\<close>

definition ResolveMissingCommitment :: "(preunit \<Rightarrow> u16 \<Rightarrow> gerror option) \<Rightarrow> gerror option \<Rightarrow> preunit \<Rightarrow> u16 \<Rightarrow> gerror option" where
  "ResolveMissingCommitment rc e pu source =
     (case e of
        None \<Rightarrow> None
      | Some err \<Rightarrow> (case err of
                      noCommitment _ \<Rightarrow> (case rc pu source of Some err' \<Rightarrow> Some err' | None \<Rightarrow> None)
                    | _ \<Rightarrow> Some err))"

definition handleInvalidControlHash :: "('s, 'k) adder \<Rightarrow> u16 \<Rightarrow> preunit \<Rightarrow> ('s, 'k) adder" where
  "handleInvalidControlHash ad sourcePID witness =
     (let ids = map (\<lambda>(pid, height). ID height (of_nat pid) (pu_epochID witness)) (enumerate 0 (Heights (pu_crown witness)))
      in ad\<lparr>ad_requests := ad_requests ad @ [RequestFetch sourcePID ids]\<rparr>)"

definition set_failed :: "('s, 'k) adder \<Rightarrow> nat \<Rightarrow> ('s, 'k) adder" where
  "set_failed ad r = upd_wp r (\<lambda>wp. wp\<lparr>failed := True\<rparr>) ad"

text \<open>
  The body of \<open>handleReady\<close> up to the deferred call of \<open>remove\<close>. When the parents are ambiguous the
  code asks the alerter for each of them, but assigns the outcome to a variable that shadows
  \<open>err\<close>: the outer \<open>err\<close> is still the \<open>AmbiguousParents\<close> error afterwards, and the preunit fails.
\<close>

definition handle_ready_body ::
  "(u16 \<Rightarrow> u16) \<Rightarrow> (bytes \<Rightarrow> hash) \<Rightarrow> (gerror option \<Rightarrow> preunit \<Rightarrow> u16 \<Rightarrow> gerror option) \<Rightarrow> ('s, 'k) adder \<Rightarrow> nat \<Rightarrow> ('s, 'k) adder go" where
  "handle_ready_body mq shake resolve ad r =
     (let wp = heap ad ! r; pu = wp_pu wp in
      do { decoded \<leftarrow> DecodeParents (core (ad_dag ad)) pu;
           case decoded of
             Inl err \<Rightarrow> Some (set_failed ad r)
           | Inr parents \<Rightarrow>
               if CombineHashes shake (ToHashes parents) \<noteq> ControlHash (pu_crown pu)
               then Some (handleInvalidControlHash (set_failed ad r) (wp_source wp) pu)
               else let freeUnit = BuildUnit mq pu parents in
                    case resolve (Check (ad_dag ad) freeUnit) (preunit_of freeUnit) (wp_source wp) of
                      Some err \<Rightarrow> Some (set_failed ad r)
                    | None \<Rightarrow> do { (d, s) \<leftarrow> Insert (ad_dag ad) freeUnit (ad_hooks ad);
                                    Some (ad\<lparr>ad_dag := d, ad_hooks := s\<rparr>) } })"

definition handleReady ::
  "nat \<Rightarrow> (u16 \<Rightarrow> u16) \<Rightarrow> (bytes \<Rightarrow> hash) \<Rightarrow> (gerror option \<Rightarrow> preunit \<Rightarrow> u16 \<Rightarrow> gerror option) \<Rightarrow> ('s, 'k) adder \<Rightarrow> nat \<Rightarrow> ('s, 'k) adder go" where
  "handleReady f mq shake resolve ad r =
     do { ad1 \<leftarrow> handle_ready_body mq shake resolve ad r; remove f ad1 r }"

text \<open>One round of the worker of a process: it takes a preunit from its channel, when there is one.\<close>

definition worker ::
  "nat \<Rightarrow> (u16 \<Rightarrow> u16) \<Rightarrow> (bytes \<Rightarrow> hash) \<Rightarrow> (gerror option \<Rightarrow> preunit \<Rightarrow> u16 \<Rightarrow> gerror option) \<Rightarrow> ('s, 'k) adder \<Rightarrow> nat \<Rightarrow> ('s, 'k) adder go" where
  "worker f mq shake resolve ad pid =
     (case nth_opt (ad_ready ad) pid of
        Some (Some (r # q)) \<Rightarrow> handleReady f mq shake resolve (ad\<lparr>ad_ready := (ad_ready ad)[pid := Some q]\<rparr>) r
      | _ \<Rightarrow> Some ad)"

section \<open>What the operations leave alone\<close>

text \<open>The preunits behind the pointers never change.\<close>

definition idents :: "('s, 'k) adder \<Rightarrow> (preunit \<times> u64 \<times> u16) list" where
  "idents ad = map (\<lambda>wp. (wp_pu wp, wp_id wp, wp_source wp)) (heap ad)"

definition frame :: "('s, 'k) adder \<Rightarrow> ('s, 'k) adder \<Rightarrow> bool" where
  "frame ad ad' \<longleftrightarrow> ad_dag ad' = ad_dag ad \<and> ad_hooks ad' = ad_hooks ad \<and> ad_conf ad' = ad_conf ad
     \<and> finished ad' = finished ad \<and> idents ad' = idents ad"

lemma frame_refl [simp]: "frame ad ad"
  by (simp add: frame_def)

lemma frame_trans: "frame ad ad1 \<Longrightarrow> frame ad1 ad2 \<Longrightarrow> frame ad ad2"
  by (simp add: frame_def)

lemma frame_length: "frame ad ad' \<Longrightarrow> length (heap ad') = length (heap ad)"
  by (auto simp: frame_def idents_def dest: map_eq_imp_length_eq)

lemma frame_wp:
  assumes "frame ad ad'" "r < length (heap ad)"
  shows "wp_pu (heap ad' ! r) = wp_pu (heap ad ! r)" "wp_id (heap ad' ! r) = wp_id (heap ad ! r)" "wp_source (heap ad' ! r) = wp_source (heap ad ! r)"
proof -
  have l: "r < length (heap ad')" using frame_length [OF assms(1)] assms(2) by simp
  have "idents ad' ! r = idents ad ! r" using assms(1) by (simp add: frame_def)
  then show "wp_pu (heap ad' ! r) = wp_pu (heap ad ! r)" "wp_id (heap ad' ! r) = wp_id (heap ad ! r)" "wp_source (heap ad' ! r) = wp_source (heap ad ! r)"
    using assms(2) l by (simp_all add: idents_def)
qed

lemma idents_upd:
  assumes "\<And>wp. wp_pu (f wp) = wp_pu wp \<and> wp_id (f wp) = wp_id wp \<and> wp_source (f wp) = wp_source wp"
  shows "map (\<lambda>wp. (wp_pu wp, wp_id wp, wp_source wp)) (h[r := f (h ! r)]) = map (\<lambda>wp. (wp_pu wp, wp_id wp, wp_source wp)) h"
  using assms by (cases "r < length h") (simp_all add: map_update map_nth list_update_same_conv list_update_beyond)

lemma frame_upd_wp:
  assumes "\<And>wp. wp_pu (f wp) = wp_pu wp \<and> wp_id (f wp) = wp_id wp \<and> wp_source (f wp) = wp_source wp"
  shows "frame ad (upd_wp r f ad)"
  using idents_upd [OF assms] by (simp add: frame_def upd_wp_def idents_def)

lemma frame_ops:
  "frame ad (registerMissing ad uid r)" "frame ad (move_parent ad r)" "frame ad (drop_waiting ad r)" "frame ad (set_failed ad r)"
  "frame ad (handleInvalidControlHash ad src pu)"
  by (simp_all add: registerMissing_def move_parent_def drop_waiting_def set_failed_def handleInvalidControlHash_def frame_upd_wp)
    (simp_all add: frame_def idents_def Let_def)

lemma frame_foldl: "(\<And>s x. frame s (f s x)) \<Longrightarrow> frame s (foldl f s xs)"
  by (induction xs arbitrary: s) (auto intro: frame_trans)

lemma frame_go_fold:
  assumes "\<And>s x s'. f s x = Some s' \<Longrightarrow> frame s s'" "go_fold f s xs = Some s'"
  shows "frame s s'"
  using assms(2) by (induction xs arbitrary: s) (auto simp: bind_eq_Some_conv intro: frame_trans assms(1))

lemma frame_missing [simp]: "frame ad (ad\<lparr>ad_missing := m\<rparr>)" "frame ad (ad\<lparr>ad_requests := q\<rparr>)" "frame ad (ad\<lparr>ad_ready := c\<rparr>)" "frame ad (ad\<lparr>ad_forks := fk\<rparr>)"
  by (simp_all add: frame_def idents_def)

lemma frame_checkIfMissing: "frame ad (checkIfMissing ad r)"
proof -
  have "frame ad (foldl move_parent (upd_wp r (\<lambda>wp. wp\<lparr>children := cs\<rparr>) ad) xs)" for cs xs
    by (rule frame_trans [OF frame_upd_wp frame_foldl [OF frame_ops(2)]]) simp
  then show ?thesis
    by (auto simp: checkIfMissing_def Let_def intro: frame_trans [OF _ frame_missing(1)] frame_upd_wp split: option.split)
qed

lemma frame_check_parent: "check_parent e mh r ad ch = Some ad' \<Longrightarrow> frame ad ad'"
  by (auto simp: check_parent_def Let_def bind_eq_Some_conv split: prod.splits option.splits if_splits
      intro: frame_trans [OF frame_upd_wp frame_upd_wp] frame_trans [OF frame_upd_wp frame_ops(1)])

lemma frame_checkParents: "checkParents ad r = Some (mh, ad') \<Longrightarrow> frame ad ad'"
  by (auto simp: checkParents_def Let_def bind_eq_Some_conv intro: frame_go_fold frame_check_parent)

lemma frame_sendIfReady: "sendIfReady ad r = Some ad' \<Longrightarrow> frame ad ad'"
  by (auto simp: sendIfReady_def Let_def bind_eq_Some_conv split: if_splits)

lemma frame_dec: "frame ad (upd_wp r (\<lambda>wp. wp\<lparr>waitingParents := g wp\<rparr>) ad)"
  by (rule frame_upd_wp) simp

lemma frame_notify_child: "notify_child ad r = Some ad' \<Longrightarrow> frame ad ad'"
  unfolding notify_child_def by (rule frame_trans [OF frame_dec frame_sendIfReady])

lemma frame_removeFailed: "removeFailed f ad r = Some ad' \<Longrightarrow> frame ad ad'"
proof (induction f arbitrary: ad r ad')
  case (Suc f)
  have "frame (drop_waiting ad r) ad'" by (rule frame_go_fold [OF Suc.IH]) (use Suc.prems in simp_all)
  then show ?case using frame_trans [OF frame_ops(3)] by blast
qed simp

lemma frame_remove: "remove f ad r = Some ad' \<Longrightarrow> frame ad ad'"
  unfolding remove_def
  by (auto split: if_splits intro: frame_removeFailed frame_trans [OF frame_ops(3) frame_go_fold [OF frame_notify_child]])

lemma frame_fetch_one: "frame (fst s) (fst (fetch_one now e c s h))"
  by (simp add: fetch_one_def Let_def split: prod.splits)

lemma frame_fetch_ones: "frame (fst s) (fst (foldl (fetch_one now e c) s hs))"
proof (induction hs arbitrary: s)
  case (Cons h hs)
  show ?case using frame_trans [OF frame_fetch_one Cons.IH [of "fetch_one now e c s h"]] by simp
qed simp

lemma frame_fetch_loop: "fetch_loop now e src mh s hs = Some ad' \<Longrightarrow> frame (fst s) ad'"
proof (induction now e src mh s hs rule: fetch_loop.induct)
  case (2 now e src mh s creator height hs)
  obtain mx where mx: "nth_opt mh creator = Some mx" using 2(2) by (auto simp: bind_eq_Some_conv)
  obtain ad1 tr where f: "foldl (fetch_one now e creator) s (rev [mx + 1..height]) = (ad1, tr)" by fastforce
  have fr: "frame (fst s) ad1" using frame_fetch_ones [of s now e creator "rev [mx + 1..height]"] f by simp
  show ?case
  proof (cases "int (length tr) > GossipAbove (ad_conf ad1)")
    case True
    then show ?thesis using 2(2) mx f fr by (auto intro: frame_trans)
  next
    case False
    then have "frame ad1 ad'" using 2(1) [OF mx HOL.refl f [symmetric] False] 2(2) mx f by simp
    then show ?thesis using fr frame_trans by blast
  qed
qed (auto split: if_splits)

lemma frame_fetchMissing: "fetchMissing now ad r mh = Some ad' \<Longrightarrow> frame ad ad'"
  unfolding fetchMissing_def Let_def by (drule frame_fetch_loop) simp

section \<open>The dag behind the adder\<close>

text \<open>
  What the adder relies on in the alerter: an error is dropped only when it is about a missing
  commitment.
\<close>

locale resolver =
  fixes resolve :: "gerror option \<Rightarrow> preunit \<Rightarrow> u16 \<Rightarrow> gerror option"
  assumes resolve_None: "resolve None pu src = None"
    and resolve_Some: "resolve (Some err) pu src = None \<Longrightarrow> \<exists>msg. err = noCommitment msg"
begin

lemma resolve_run_checks:
  assumes "resolve (run_checks (cs @ extra) u d) pu src = None" "\<And>c msg. c \<in> set cs \<Longrightarrow> c u d \<noteq> Some (noCommitment msg)"
  shows "run_checks cs u d = None"
  using assms
proof (induction cs)
  case (Cons c cs)
  then show ?case using resolve_Some by (cases "c u d") fastforce+
qed simp

end

interpretation alert_resolver: resolver "ResolveMissingCommitment rc" for rc
  by unfold_locales (auto simp: ResolveMissingCommitment_def split: gerror.splits option.splits)

lemma consensusChecks_no_commitment: "c \<in> set consensusChecks \<Longrightarrow> c u d \<noteq> Some (noCommitment msg)"
  by (auto simp: consensusChecks_def BasicCorrectness_def ParentConsistency_def NoSelfForkingEvidence_def ForkerMuting_def Let_def split: option.splits if_splits)

text \<open>The shape that \<open>NewPreunit\<close> gives every preunit.\<close>

definition built :: "preunit \<Rightarrow> bool" where
  "built pu \<longleftrightarrow> unat (pu_creator pu) < length (Heights (pu_crown pu)) \<and> pu_height pu = Heights (pu_crown pu) ! unat (pu_creator pu) + 1"

text \<open>
  The life of an adder: it starts with an empty dag, and then preunits arrive (those that satisfy \<open>good\<close>) and
  workers run, in any order.
\<close>

inductive adder_reach ::
  "('k \<Rightarrow> preunit \<Rightarrow> bool) \<Rightarrow> (u16 \<Rightarrow> u16) \<Rightarrow> (bytes \<Rightarrow> hash) \<Rightarrow> (preunit \<Rightarrow> u16 \<Rightarrow> gerror option) \<Rightarrow> u16 \<Rightarrow> (preunit \<Rightarrow> bool) \<Rightarrow> ('s, 'k) adder \<Rightarrow> bool"
  for verify mq shake rc n good where
  start: "core d = New_core n len epoch \<Longrightarrow> 0 \<le> len \<Longrightarrow> checks d = consensusChecks @ extra \<Longrightarrow>
    adder_reach verify mq shake rc n good (New_adder d s cnf)"
| add: "adder_reach verify mq shake rc n good ad \<Longrightarrow> \<forall>pu \<in> set pus. built pu \<and> good pu \<Longrightarrow>
    AddPreunits verify now ad source pus = Some (errs, ad') \<Longrightarrow> adder_reach verify mq shake rc n good ad'"
| work: "adder_reach verify mq shake rc n good ad \<Longrightarrow> worker f mq shake (ResolveMissingCommitment rc) ad pid = Some ad' \<Longrightarrow>
    adder_reach verify mq shake rc n good ad'"

definition dag_ok :: "(bytes \<Rightarrow> hash) \<Rightarrow> (u16 \<Rightarrow> u16) \<Rightarrow> u16 \<Rightarrow> 's dag \<Rightarrow> bool" where
  "dag_ok shake mq n d \<longleftrightarrow> (\<exists>es extra. dag_reach mq n (core d) es \<and> checks d = consensusChecks @ extra
     \<and> (\<forall>u \<in> set es. ControlHash (pu_crown (preunit_of u)) = CombineHashes shake (ToHashes (Parents u))))"

definition heap_ok :: "u16 \<Rightarrow> ('s, 'k) adder \<Rightarrow> bool" where
  "heap_ok n ad \<longleftrightarrow> (\<forall>x \<in> set (idents ad). preunit_ok n (fst x))"

lemma heap_okD: "heap_ok n ad \<Longrightarrow> r < length (heap ad) \<Longrightarrow> preunit_ok n (wp_pu (heap ad ! r))"
  by (auto simp: heap_ok_def idents_def)

text \<open>No pointer is dangling.\<close>

definition refs_ok :: "('s, 'k) adder \<Rightarrow> bool" where
  "refs_ok ad \<longleftrightarrow> (let R = {..<length (heap ad)} in
     (\<forall>wp \<in> set (heap ad). set (children wp) \<subseteq> R) \<and> (\<forall>uid mp. ad_missing ad uid = Some mp \<longrightarrow> set (neededBy mp) \<subseteq> R)
     \<and> (\<forall>q. Some q \<in> set (ad_ready ad) \<longrightarrow> set q \<subseteq> R) \<and> ran (waiting ad) \<subseteq> R \<and> ran (waitingByID ad) \<subseteq> R)"

lemma refs_okD:
  assumes "refs_ok ad"
  shows "r < length (heap ad) \<Longrightarrow> c \<in> set (children (heap ad ! r)) \<Longrightarrow> c < length (heap ad)"
    and "ad_missing ad uid = Some mp \<Longrightarrow> c \<in> set (neededBy mp) \<Longrightarrow> c < length (heap ad)"
    and "Some q \<in> set (ad_ready ad) \<Longrightarrow> c \<in> set q \<Longrightarrow> c < length (heap ad)"
    and "waiting ad h = Some c \<Longrightarrow> c < length (heap ad)"
    and "waitingByID ad uid = Some c \<Longrightarrow> c < length (heap ad)"
  using assms unfolding refs_ok_def Let_def ran_def by (blast dest: nth_mem)+

lemma refs_upd:
  assumes "refs_ok ad" "r < length (heap ad) \<Longrightarrow> set (children (f (heap ad ! r))) \<subseteq> {..<length (heap ad)}"
  shows "refs_ok (upd_wp r f ad)"
proof (cases "r < length (heap ad)")
  case True
  have "set ((heap ad)[r := f (heap ad ! r)]) \<subseteq> insert (f (heap ad ! r)) (set (heap ad))" by (rule set_update_subset_insert)
  then show ?thesis using assms(1) assms(2) [OF True] unfolding refs_ok_def upd_wp_def Let_def by auto
qed (use assms in \<open>simp add: upd_wp_def list_update_beyond\<close>)

lemma length_upd_wp [simp]: "length (heap (upd_wp r f ad)) = length (heap ad)"
  by (simp add: upd_wp_def)

lemma refs_missing:
  assumes "refs_ok ad" "set (neededBy mp) \<subseteq> {..<length (heap ad)}"
  shows "refs_ok (ad\<lparr>ad_missing := (ad_missing ad)(uid \<mapsto> mp)\<rparr>)"
  using assms by (auto simp: refs_ok_def Let_def)

lemma refs_old_missing:
  assumes "refs_ok ad"
  shows "set (neededBy (case ad_missing ad uid of None \<Rightarrow> newMissing | Some mp \<Rightarrow> mp)) \<subseteq> {..<length (heap ad)}"
  using assms by (auto simp: newMissing_def dest: refs_okD(2) split: option.splits)

lemma refs_registerMissing:
  assumes "refs_ok ad" "r < length (heap ad)"
  shows "refs_ok (registerMissing ad uid r)"
  unfolding registerMissing_def Let_def
  by (rule refs_missing [OF assms(1)]) (use refs_old_missing [OF assms(1), of uid] assms(2) in \<open>simp add: addNeeding_def\<close>)

lemma refs_fetch_one: "refs_ok (fst s) \<Longrightarrow> refs_ok (fst (fetch_one now e c s h))"
proof -
  assume r: "refs_ok (fst s)"
  obtain ad tr where s: "s = (ad, tr)" by (cases s)
  then have r': "refs_ok ad" using r by simp
  show ?thesis unfolding s by (simp add: fetch_one_def Let_def r' refs_missing [OF r'] refs_old_missing [OF r'])
qed

lemma refs_fetch_ones: "refs_ok (fst s) \<Longrightarrow> refs_ok (fst (foldl (fetch_one now e c) s hs))"
proof (induction hs arbitrary: s)
  case (Cons h hs)
  show ?case using Cons.IH [OF refs_fetch_one [OF Cons.prems]] by simp
qed simp

lemma refs_requests [simp]: "refs_ok (ad\<lparr>ad_requests := q\<rparr>) = refs_ok ad" "refs_ok (ad\<lparr>ad_forks := fk\<rparr>) = refs_ok ad"
  by (simp_all add: refs_ok_def)

lemma refs_fetch_loop: "fetch_loop now e src mh s hs = Some ad' \<Longrightarrow> refs_ok (fst s) \<Longrightarrow> refs_ok ad'"
proof (induction now e src mh s hs rule: fetch_loop.induct)
  case (2 now e src mh s creator height hs)
  obtain mx where mx: "nth_opt mh creator = Some mx" using 2(2) by (auto simp: bind_eq_Some_conv)
  obtain ad1 tr where f: "foldl (fetch_one now e creator) s (rev [mx + 1..height]) = (ad1, tr)" by fastforce
  have fr: "refs_ok ad1" using refs_fetch_ones [OF 2(3), of now e creator "rev [mx + 1..height]"] f by simp
  show ?case
  proof (cases "int (length tr) > GossipAbove (ad_conf ad1)")
    case True
    then show ?thesis using 2(2) mx f fr by auto
  next
    case False
    then show ?thesis using 2(1) [OF mx HOL.refl f [symmetric] False] 2(2) mx f fr by simp
  qed
qed (auto split: if_splits)

lemma refs_check_parent:
  assumes "check_parent e mh r ad ch = Some ad'" "refs_ok ad" "r < length (heap ad)"
  shows "refs_ok ad'"
proof -
  obtain creator height where ch: "ch = (creator, height)" by (cases ch)
  have w: "refs_ok (upd_wp r (\<lambda>wp. wp\<lparr>waitingParents := waitingParents wp + 1\<rparr>) ad)"
    and m: "refs_ok (upd_wp r (\<lambda>wp. wp\<lparr>missingParents := missingParents wp + 1\<rparr>) ad)"
    using assms(2,3) by (auto intro!: refs_upd dest: refs_okD(1))
  have p: "refs_ok (upd_wp par (\<lambda>wp. wp\<lparr>children := children wp @ [r]\<rparr>) (upd_wp r (\<lambda>wp. wp\<lparr>waitingParents := waitingParents wp + 1\<rparr>) ad))" for par
    by (rule refs_upd [OF w]) (use refs_okD(1) [OF w] assms(3) in auto)
  have q: "refs_ok (registerMissing (upd_wp r (\<lambda>wp. wp\<lparr>missingParents := missingParents wp + 1\<rparr>) ad) uid r)" for uid
    by (rule refs_registerMissing [OF m]) (simp add: assms(3))
  obtain mx where "nth_opt mh creator = Some mx" using assms(1) unfolding ch by (auto simp: check_parent_def bind_eq_Some_conv)
  then show ?thesis using assms(1,2) unfolding ch
    by (cases "height > mx"; cases "waitingByID ad (ID height (of_nat creator) e)") (auto simp: check_parent_def Let_def intro: p q)
qed

lemma refs_checkParents:
  assumes "checkParents ad r = Some (mh, ad')" "refs_ok ad" "r < length (heap ad)"
  shows "refs_ok ad'"
proof -
  obtain f xs where g: "go_fold (check_parent f mh r) ad xs = Some ad'" using assms(1) by (auto simp: checkParents_def Let_def bind_eq_Some_conv)
  have "refs_ok ad' \<and> r < length (heap ad')"
    by (rule go_fold_cong(2) [of "\<lambda>ad. refs_ok ad \<and> r < length (heap ad)", OF HOL.refl _ _ g])
      (use assms(2,3) refs_check_parent frame_length frame_check_parent in \<open>metis+\<close>)
  then show ?thesis ..
qed

lemma refs_move_parent: "refs_ok ad \<Longrightarrow> refs_ok (move_parent ad r)"
  unfolding move_parent_def by (rule refs_upd) (auto dest: refs_okD(1))

lemma refs_checkIfMissing:
  assumes "refs_ok ad"
  shows "refs_ok (checkIfMissing ad r)"
proof (cases "ad_missing ad (wp_id (heap ad ! r))")
  case None
  then show ?thesis using assms by (auto simp: checkIfMissing_def intro: refs_upd)
next
  case (Some mp)
  have "refs_ok (upd_wp r (\<lambda>wp. wp\<lparr>children := neededBy mp\<rparr>) ad)"
    by (rule refs_upd [OF assms]) (use refs_okD(2) [OF assms Some] in auto)
  then have "refs_ok (foldl move_parent (upd_wp r (\<lambda>wp. wp\<lparr>children := neededBy mp\<rparr>) ad) cs)" for cs
    by (induction cs rule: rev_induct) (simp_all add: refs_move_parent)
  then show ?thesis using Some by (auto simp: checkIfMissing_def Let_def refs_ok_def)
qed

lemma refs_sendIfReady:
  assumes "sendIfReady ad r = Some ad'" "refs_ok ad" "r < length (heap ad)"
  shows "refs_ok ad'"
proof (cases "ad' = ad")
  case False
  then obtain c q where q: "nth_opt (ad_ready ad) c = Some (Some q)" "ad' = ad\<lparr>ad_ready := (ad_ready ad)[c := Some (q @ [r])]\<rparr>"
    using assms(1) by (auto simp: sendIfReady_def Let_def bind_eq_Some_conv split: if_splits)
  have "Some q \<in> set (ad_ready ad)" using q(1) by (metis nth_mem nth_opt_Some)
  then have "set (q @ [r]) \<subseteq> {..<length (heap ad)}" using refs_okD(3) [OF assms(2)] assms(3) by auto
  then have "set p \<subseteq> {..<length (heap ad)}" if "Some p \<in> set ((ad_ready ad)[c := Some (q @ [r])])" for p
    using set_update_subset_insert [of "ad_ready ad" c "Some (q @ [r])"] that refs_okD(3) [OF assms(2)] by (cases "p = q @ [r]") auto
  then show ?thesis using assms(2) unfolding q(2) refs_ok_def Let_def by simp
qed (use assms in simp)

lemma refs_drop_waiting: "refs_ok ad \<Longrightarrow> refs_ok (drop_waiting ad r)"
  unfolding refs_ok_def drop_waiting_def Let_def by (auto simp: ran_def)

lemma refs_notify_child:
  assumes "notify_child ad r = Some ad'" "refs_ok ad" "r < length (heap ad)"
  shows "refs_ok ad'"
  using assms unfolding notify_child_def by (auto elim!: refs_sendIfReady intro!: refs_upd dest: refs_okD(1))

lemma refs_removeFailed: "removeFailed f ad r = Some ad' \<Longrightarrow> refs_ok ad \<Longrightarrow> refs_ok ad'"
proof (induction f arbitrary: ad r ad')
  case (Suc f)
  show ?case
    using go_fold_cong(2) [of refs_ok "children (heap ad ! r)" "removeFailed f" "removeFailed f" "drop_waiting ad r" ad'] Suc
      refs_drop_waiting [OF Suc.prems(2), of r] by auto
qed simp

lemma refs_remove:
  assumes "remove f ad r = Some ad'" "refs_ok ad" "r < length (heap ad)"
  shows "refs_ok ad'"
proof (cases "failed (heap ad ! r)")
  case True
  then show ?thesis using assms refs_removeFailed by (simp add: remove_def)
next
  case False
  let ?P = "\<lambda>a. refs_ok a \<and> length (heap a) = length (heap ad)"
  have g: "go_fold notify_child (drop_waiting ad r) (children (heap ad ! r)) = Some ad'" using False assms(1) by (simp add: remove_def)
  have "?P ad'"
  proof (rule go_fold_cong(2) [of ?P, OF HOL.refl _ _ g])
    show "?P (drop_waiting ad r)" using refs_drop_waiting [OF assms(2)] by (simp add: drop_waiting_def)
  next
    fix s x s' assume "?P s" "x \<in> set (children (heap ad ! r))" "notify_child s x = Some s'"
    then show "?P s'" using refs_notify_child frame_length [OF frame_notify_child] refs_okD(1) [OF assms(2,3)] by metis
  qed
  then show ?thesis ..
qed

text \<open>The state after a new waiting preunit was put into the maps.\<close>

definition fresh_wp :: "preunit \<Rightarrow> u16 \<Rightarrow> waitingPreunit" where
  "fresh_wp pu source = \<lparr>wp_pu = pu, wp_id = UnitID pu, wp_source = source, missingParents = 0, waitingParents = 0, children = [], failed = False\<rparr>"

definition enter :: "('s, 'k) adder \<Rightarrow> preunit \<Rightarrow> u16 \<Rightarrow> (preunit \<times> preunit) list \<Rightarrow> ('s, 'k) adder" where
  "enter ad pu source fk = ad\<lparr>ad_forks := fk, heap := heap ad @ [fresh_wp pu source],
     waiting := (waiting ad)(pu_hash pu \<mapsto> length (heap ad)), waitingByID := (waitingByID ad)(UnitID pu \<mapsto> length (heap ad))\<rparr>"

lemma addToWaiting_cases:
  assumes "addToWaiting now ad pu source = Some (e, ad')"
  obtains (duplicate) "ad' = ad" "e \<noteq> None" "\<not> (waiting ad (pu_hash pu) = None \<and> GetUnit (core (ad_dag ad)) (pu_hash pu) = None)"
  | (entered) fk mh ad3 where "waiting ad (pu_hash pu) = None" "checkParents (enter ad pu source fk) (length (heap ad)) = Some (mh, ad3)"
      "(if missingParents (heap (checkIfMissing ad3 (length (heap ad))) ! length (heap ad)) > 0
        then fetchMissing now (checkIfMissing ad3 (length (heap ad))) (length (heap ad)) mh = Some ad'
        else sendIfReady (checkIfMissing ad3 (length (heap ad))) (length (heap ad)) = Some ad')"
proof (cases "waiting ad (pu_hash pu) = None \<and> GetUnit (core (ad_dag ad)) (pu_hash pu) = None")
  case False
  then show thesis using assms duplicate by (auto simp: addToWaiting_def split: option.splits)
next
  case True
  let ?fk = "case waitingByID ad (UnitID pu) of Some r \<Rightarrow> ad_forks ad @ [(pu, wp_pu (heap ad ! r))] | None \<Rightarrow> ad_forks ad"
  have *: "addToWaiting now ad pu source =
     do { (mh, ad3) \<leftarrow> checkParents (enter ad pu source ?fk) (length (heap ad));
          let ad4 = checkIfMissing ad3 (length (heap ad));
          if missingParents (heap ad4 ! length (heap ad)) > 0 then
            do { ad5 \<leftarrow> fetchMissing now ad4 (length (heap ad)) mh;
                 Some (Some (UnknownParents (missingParents (heap ad5 ! length (heap ad)))), ad5) }
          else do { ad5 \<leftarrow> sendIfReady ad4 (length (heap ad)); Some (None, ad5) } }"
    using True by (cases "waitingByID ad (UnitID pu)") (simp_all add: addToWaiting_def Let_def enter_def fresh_wp_def cong: if_cong)
  from assms show thesis unfolding *
    by (auto simp: Let_def bind_eq_Some_conv True split: if_splits intro!: entered [of ?fk])
qed

lemma refs_enter:
  assumes "refs_ok ad"
  shows "refs_ok (enter ad pu source fk)"
proof -
  have "set (children wp) \<subseteq> {..<Suc (length (heap ad))}" if "wp \<in> set (heap ad)" for wp
    using assms that unfolding refs_ok_def Let_def by (auto intro: less_SucI)
  moreover have "set (neededBy mp) \<subseteq> {..<Suc (length (heap ad))}" if "ad_missing ad uid = Some mp" for uid mp
    using refs_okD(2) [OF assms that] by (auto intro: less_SucI)
  moreover have "set q \<subseteq> {..<Suc (length (heap ad))}" if "Some q \<in> set (ad_ready ad)" for q
    using refs_okD(3) [OF assms that] by (auto intro: less_SucI)
  moreover have "ran ((waiting ad)(pu_hash pu \<mapsto> length (heap ad))) \<subseteq> {..<Suc (length (heap ad))}"
    "ran ((waitingByID ad)(UnitID pu \<mapsto> length (heap ad))) \<subseteq> {..<Suc (length (heap ad))}"
    using refs_okD(4,5) [OF assms] by (auto simp: ran_def intro: less_SucI)
  ultimately show ?thesis unfolding refs_ok_def enter_def fresh_wp_def Let_def by simp
qed

lemma addToWaiting_ok:
  assumes "addToWaiting now ad pu source = Some (e, ad')" "refs_ok ad" "heap_ok n ad" "preunit_ok n pu"
  shows "refs_ok ad' \<and> heap_ok n ad' \<and> ad_dag ad' = ad_dag ad \<and> ad_conf ad' = ad_conf ad"
  using assms(1)
proof (cases rule: addToWaiting_cases)
  case duplicate
  then show ?thesis using assms by simp
next
  case (entered fk mh ad3)
  let ?r = "length (heap ad)" and ?ad2 = "enter ad pu source fk"
  let ?ad4 = "checkIfMissing ad3 ?r"
  have h2: "heap_ok n ?ad2" and r2: "?r < length (heap ?ad2)" using assms(3,4) by (auto simp: heap_ok_def idents_def enter_def fresh_wp_def)
  have f4: "frame ?ad2 ?ad4" using frame_trans [OF frame_checkParents [OF entered(2)] frame_checkIfMissing] .
  have r4: "refs_ok ?ad4" using refs_checkIfMissing refs_checkParents [OF entered(2) refs_enter [OF assms(2)] r2] by blast
  have "refs_ok ad' \<and> frame ?ad4 ad'"
    using entered(3) r4 refs_fetch_loop frame_fetchMissing refs_sendIfReady [OF _ r4] frame_sendIfReady frame_length [OF f4] r2
    by (auto simp: fetchMissing_def Let_def split: if_splits) 
  then have "refs_ok ad'" "frame ?ad2 ad'" using frame_trans [OF f4] by blast+
  then show ?thesis using h2 by (simp add: frame_def heap_ok_def enter_def)
qed

lemma second_pass_ok:
  assumes "second_pass now source ad ps = Some (errs, ad')" "refs_ok ad" "heap_ok n ad" "\<forall>(pu, e) \<in> set ps. e = None \<longrightarrow> preunit_ok n pu"
  shows "refs_ok ad' \<and> heap_ok n ad' \<and> ad_dag ad' = ad_dag ad \<and> ad_conf ad' = ad_conf ad"
  using assms
proof (induction ps arbitrary: ad errs)
  case (Cons p ps)
  obtain pu e where p: "p = (pu, e)" by (cases p)
  obtain e' ad1 errs' where s: "(case e of Some err \<Rightarrow> Some (Some err, ad) | None \<Rightarrow> addToWaiting now ad pu source) = Some (e', ad1)"
      "second_pass now source ad1 ps = Some (errs', ad')"
    using Cons.prems(1) unfolding p by (auto simp: bind_eq_Some_conv)
  have "refs_ok ad1 \<and> heap_ok n ad1 \<and> ad_dag ad1 = ad_dag ad \<and> ad_conf ad1 = ad_conf ad"
    using s(1) Cons.prems(2-4) p addToWaiting_ok [of now ad pu source e' ad1 n] by (cases e) auto
  then show ?case using Cons.IH [OF s(2)] Cons.prems(4) by auto
qed simp

lemma AddPreunits_passes:
  assumes "AddPreunits verify now ad source pus = Some (errs, ad')"
  obtains es where "length es = length pus" "second_pass now source ad (zip pus es) = Some (errs, ad')"
    "\<forall>(pu, e) \<in> set (zip pus es). e = None \<longrightarrow> checkCorrectness verify ad pu = Some None"
proof -
  let ?in = "GetUnits (core (ad_dag ad)) (map (\<lambda>pu. Some (pu_hash pu)) pus)"
  obtain es where es: "those (map (first_pass verify ad) (zip pus ?in)) = Some es" "second_pass now source ad (zip pus es) = Some (errs, ad')"
    using assms by (auto simp: AddPreunits_def Let_def bind_eq_Some_conv)
  have all: "list_all2 (\<lambda>x y. first_pass verify ad x = Some y) (zip pus ?in) es" using es(1) by (simp add: those_map)
  have l: "length ?in = length pus" by (simp add: GetUnits_def getMany_def)
  then have le: "length es = length pus" using all by (simp add: list_all2_lengthD [symmetric])
  have "checkCorrectness verify ad (pus ! i) = Some None" if "i < length pus" "es ! i = None" for i
    using list_all2_nthD [OF all, of i] that l by (auto simp: first_pass_def split: option.splits)
  then have "\<forall>(pu, e) \<in> set (zip pus es). e = None \<longrightarrow> checkCorrectness verify ad pu = Some None"
    using le by (auto simp: in_set_zip)
  then show thesis by (rule that [OF le es(2)])
qed

lemma checkCorrectness_ok:
  assumes "checkCorrectness verify ad pu = Some None" "built pu" "nProc (core (ad_dag ad)) = n"
  shows "preunit_ok n pu" "pu_epochID pu = epochID (core (ad_dag ad))"
  using assms by (auto simp: checkCorrectness_def built_def preunit_ok_def not_le split: if_splits)

definition adder_ok :: "(bytes \<Rightarrow> hash) \<Rightarrow> (u16 \<Rightarrow> u16) \<Rightarrow> u16 \<Rightarrow> ('s, 'k) adder \<Rightarrow> bool" where
  "adder_ok shake mq n ad \<longleftrightarrow> dag_ok shake mq n (ad_dag ad) \<and> refs_ok ad \<and> heap_ok n ad"

lemma AddPreunits_ok:
  assumes "AddPreunits verify now ad source pus = Some (errs, ad')" "adder_ok shake mq n ad" "\<forall>pu \<in> set pus. built pu" "nProc (core (ad_dag ad)) = n"
  shows "adder_ok shake mq n ad'"
  using assms(1)
proof (rule AddPreunits_passes)
  fix es assume es: "length es = length pus" "second_pass now source ad (zip pus es) = Some (errs, ad')"
    "\<forall>(pu, e) \<in> set (zip pus es). e = None \<longrightarrow> checkCorrectness verify ad pu = Some None"
  have "\<forall>(pu, e) \<in> set (zip pus es). e = None \<longrightarrow> preunit_ok n pu"
    using es(3) checkCorrectness_ok(1) [OF _ _ assms(4)] assms(3) by (fastforce dest: set_zip_leftD)
  then show ?thesis using second_pass_ok [OF es(2)] assms(2) unfolding adder_ok_def by metis
qed

lemma handle_ready_body_cases:
  assumes "handle_ready_body mq shake resolve ad r = Some ad'"
  obtains (failed) q where "ad' = (set_failed ad r)\<lparr>ad_requests := q\<rparr>"
  | (inserted) ps dg s where "DecodeParents (core (ad_dag ad)) (wp_pu (heap ad ! r)) = Some (Inr ps)"
      "CombineHashes shake (ToHashes ps) = ControlHash (pu_crown (wp_pu (heap ad ! r)))"
      "resolve (Check (ad_dag ad) (BuildUnit mq (wp_pu (heap ad ! r)) ps)) (preunit_of (BuildUnit mq (wp_pu (heap ad ! r)) ps)) (wp_source (heap ad ! r)) = None"
      "Insert (ad_dag ad) (BuildUnit mq (wp_pu (heap ad ! r)) ps) (ad_hooks ad) = Some (dg, s)" "ad' = ad\<lparr>ad_dag := dg, ad_hooks := s\<rparr>"
proof -
  let ?wp = "heap ad ! r"
  obtain dec where dec: "DecodeParents (core (ad_dag ad)) (wp_pu ?wp) = Some dec"
    using assms by (auto simp: handle_ready_body_def Let_def bind_eq_Some_conv)
  have same: "set_failed ad r = (set_failed ad r)\<lparr>ad_requests := ad_requests ad\<rparr>"
    by (cases ad) (simp add: set_failed_def upd_wp_def)
  show thesis
  proof (cases dec)
    case (Inl err)
    then have "ad' = set_failed ad r" using assms dec by (simp add: handle_ready_body_def Let_def)
    then show thesis using failed same by metis
  next
    case (Inr ps)
    let ?u = "BuildUnit mq (wp_pu ?wp) ps"
    let ?e = "resolve (Check (ad_dag ad) ?u) (preunit_of ?u) (wp_source ?wp)"
    show thesis
    proof (cases "CombineHashes shake (ToHashes ps) = ControlHash (pu_crown (wp_pu ?wp))")
      case False
      then have "\<exists>q. ad' = (set_failed ad r)\<lparr>ad_requests := q\<rparr>"
        using assms dec Inr by (auto simp: handle_ready_body_def handleInvalidControlHash_def Let_def)
      then show thesis using failed by blast
    next
      case True
      then have *: "(case ?e of Some err \<Rightarrow> Some (set_failed ad r)
          | None \<Rightarrow> do { (d, s) \<leftarrow> Insert (ad_dag ad) ?u (ad_hooks ad); Some (ad\<lparr>ad_dag := d, ad_hooks := s\<rparr>) }) = Some ad'"
        using assms dec Inr by (simp add: handle_ready_body_def Let_def)
      show thesis
      proof (cases ?e)
        case None
        then obtain dg s where "Insert (ad_dag ad) ?u (ad_hooks ad) = Some (dg, s)" "ad' = ad\<lparr>ad_dag := dg, ad_hooks := s\<rparr>"
          using * by (auto simp: bind_eq_Some_conv)
        then show thesis using inserted dec Inr True None by blast
      next
        case (Some err)
        then have "ad' = set_failed ad r" using * by simp
        then show thesis using failed same by metis
      qed
    qed
  qed
qed

lemma handle_ready_body_ok:
  assumes "handle_ready_body mq shake (ResolveMissingCommitment rc) ad r = Some ad'" "adder_ok shake mq n ad" "r < length (heap ad)"
  shows "adder_ok shake mq n ad' \<and> length (heap ad') = length (heap ad)"
proof -
  have failed_ok: "refs_ok (set_failed ad r)" "heap_ok n (set_failed ad r)" "ad_dag (set_failed ad r) = ad_dag ad" "length (heap (set_failed ad r)) = length (heap ad)"
    using assms(2,3) frame_ops(4) [of ad r] frame_length [OF frame_ops(4)]
    by (auto simp: adder_ok_def set_failed_def frame_def heap_ok_def dest: refs_okD(1) intro!: refs_upd)
  let ?pu = "wp_pu (heap ad ! r)" and ?d = "core (ad_dag ad)"
  obtain es extra where d: "dag_reach mq n ?d es" "checks (ad_dag ad) = consensusChecks @ extra"
      "\<forall>u \<in> set es. ControlHash (pu_crown (preunit_of u)) = CombineHashes shake (ToHashes (Parents u))"
    using assms(2) by (auto simp: adder_ok_def dag_ok_def)
  from assms(1) show ?thesis
  proof (cases rule: handle_ready_body_cases)
    case (failed q)
    then show ?thesis using failed_ok assms(2) by (simp add: adder_ok_def heap_ok_def idents_def)
  next
    case (inserted ps dg s)
    note 3 = inserted(1,3,4,5)
    let ?u = "BuildUnit mq ?pu ps"
    have "run_checks consensusChecks ?u ?d = None"
      using alert_resolver.resolve_run_checks [of rc consensusChecks extra ?u ?d] 3(2) d(2) consensusChecks_no_commitment by (auto simp: Check_def)
    moreover obtain c where c: "insert_core ?d (Embed ?u ?d) = Some c" "core dg = c" "checks dg = checks (ad_dag ad)"
      using 3(3) by (auto simp: Insert_def Let_def bind_eq_Some_conv)
    moreover have "preunit_ok n ?pu" using assms(2,3) heap_okD [of n ad r] by (simp add: adder_ok_def)
    ultimately have "dag_reach mq n c (es @ [Embed ?u ?d])" using dag_reach.grow [OF d(1) _ 3(1)] by blast
    moreover have "ControlHash (pu_crown (preunit_of (Embed ?u ?d))) = CombineHashes shake (ToHashes (Parents (Embed ?u ?d)))"
      using inserted(2) by (simp add: Embed_def BuildUnit_def FromPreunit_def)
    ultimately have "dag_ok shake mq n dg" using c d(2,3) unfolding dag_ok_def by (intro exI [of _ "es @ [Embed ?u ?d]"]) auto
    then show ?thesis using assms(2) 3(4) by (simp add: adder_ok_def refs_ok_def heap_ok_def idents_def)
  qed
qed

lemma adder_ok_take:
  assumes ok: "adder_ok shake mq n ad" and q: "nth_opt (ad_ready ad) pid = Some (Some (r # q))"
  shows "adder_ok shake mq n (ad\<lparr>ad_ready := (ad_ready ad)[pid := Some q]\<rparr>)" "r < length (heap ad)"
proof -
  have mem: "Some (r # q) \<in> set (ad_ready ad)" using q by (metis nth_mem nth_opt_Some)
  have rR: "set (r # q) \<subseteq> {..<length (heap ad)}" using refs_okD(3) [OF _ mem] ok by (auto simp: adder_ok_def)
  then show "r < length (heap ad)" by simp
  have "set p \<subseteq> {..<length (heap ad)}" if "Some p \<in> set ((ad_ready ad)[pid := Some q])" for p
    using set_update_subset_insert [of "ad_ready ad" pid "Some q"] that rR refs_okD(3) [of ad p] ok
    by (cases "p = q") (auto simp: adder_ok_def)
  then show "adder_ok shake mq n (ad\<lparr>ad_ready := (ad_ready ad)[pid := Some q]\<rparr>)"
    using ok by (simp add: adder_ok_def refs_ok_def Let_def heap_ok_def idents_def)
qed

lemma worker_ok:
  assumes "worker f mq shake (ResolveMissingCommitment rc) ad pid = Some ad'" "adder_ok shake mq n ad"
  shows "adder_ok shake mq n ad'"
proof (cases "\<exists>r q. nth_opt (ad_ready ad) pid = Some (Some (r # q))")
  case True
  then obtain r q where q: "nth_opt (ad_ready ad) pid = Some (Some (r # q))" by blast
  let ?ad = "ad\<lparr>ad_ready := (ad_ready ad)[pid := Some q]\<rparr>"
  note ok = adder_ok_take [OF assms(2) q]
  obtain ad1 where a: "handle_ready_body mq shake (ResolveMissingCommitment rc) ?ad r = Some ad1" "remove f ad1 r = Some ad'"
    using assms(1) q by (auto simp: worker_def handleReady_def bind_eq_Some_conv)
  have ok1: "adder_ok shake mq n ad1" and l: "r < length (heap ad1)" using handle_ready_body_ok [OF a(1) ok(1)] ok(2) by auto
  then have "refs_ok ad'" using refs_remove [OF a(2)] by (simp add: adder_ok_def)
  then show ?thesis using ok1 frame_remove [OF a(2)] by (simp add: adder_ok_def frame_def heap_ok_def)
next
  case False
  then have "ad' = ad" using assms(1) by (auto simp: worker_def split: option.splits list.splits)
  then show ?thesis using assms(2) by simp
qed

lemma dag_ok_nProc: "dag_ok shake mq n d \<Longrightarrow> 0 < mq n \<Longrightarrow> nProc (core d) = n"
  using dag_reach_inv by (auto simp: dag_ok_def)

lemma adder_reach_ok:
  assumes "adder_reach verify mq shake rc n good ad" "0 < mq n"
  shows "adder_ok shake mq n ad"
  using assms
proof (induction rule: adder_reach.induct)
  case (start d len epoch extra s cnf)
  then have "dag_ok shake mq n d" using dag_reach.start [of len mq n epoch] unfolding dag_ok_def by (intro exI [of _ "[]"] exI [of _ extra]) simp
  then show ?case by (auto simp: adder_ok_def refs_ok_def heap_ok_def idents_def New_adder_def)
next
  case (add ad pus now source errs ad')
  then show ?case using AddPreunits_ok dag_ok_nProc by (metis adder_ok_def)
next
  case (work ad f pid ad')
  then show ?case using worker_ok by blast
qed

text \<open>
  C20: the dag behind an adder, after any sequence of \<open>AddPreunits\<close> calls with arbitrary preunits and of
  rounds of the workers, is one that grows by checked units: the theorems of \<open>Growth\<close> apply to it. The control hash of
  every unit is that of its parents. Errors that the alerter resolves are only those about missing
  commitments, which no consensus check raises.
\<close>

theorem adder_dag_reachable:
  assumes "adder_reach verify mq shake rc n good ad" "0 < mq n"
  shows "\<exists>es. dag_reach mq n (core (ad_dag ad)) es
    \<and> (\<forall>u \<in> set es. ControlHash (pu_crown (preunit_of u)) = CombineHashes shake (ToHashes (Parents u)))"
  using adder_reach_ok [OF assms] unfolding adder_ok_def dag_ok_def by blast

end
