(* ===== verification/Buffer.thy ===== *)
theory Buffer
  imports Adder
begin

text \<open>
  The bookkeeping of the adder. For the set \<open>A\<close> of the pointers that are still active, \<open>counts_inv\<close> says that
  the two counters of a waiting preunit are the number of active preunits that have it as a child and the number of
  missing preunits it is needed by; preunits removed with a failed ancestor keep a counter that is too
  high, so that they are never sent to a worker. \<open>queue_inv\<close> says that the channels hold exactly the
  active preunits with both counters zero.
\<close>

section \<open>The invariant\<close>

definition needed :: "('s, 'k) adder \<Rightarrow> u64 \<Rightarrow> nat list" where
  "needed ad uid = (case ad_missing ad uid of None \<Rightarrow> [] | Some mp \<Rightarrow> neededBy mp)"

definition waits :: "('s, 'k) adder \<Rightarrow> nat set \<Rightarrow> nat \<Rightarrow> int" where
  "waits ad A x = (\<Sum>p \<in> A. int (count_list (children (heap ad ! p)) x))"

definition misses :: "('s, 'k) adder \<Rightarrow> nat \<Rightarrow> int" where
  "misses ad x = (\<Sum>uid \<in> UNIV. int (count_list (needed ad uid) x))"

text \<open>
  The lists \<open>cs\<close> and \<open>ds\<close> are what is still to be done in the middle of a loop: decrements of the
  waiting parents, and parents that move from missing to waiting.
\<close>

definition stuck :: "('s, 'k) adder \<Rightarrow> nat set \<Rightarrow> nat list \<Rightarrow> nat list \<Rightarrow> nat \<Rightarrow> bool" where
  "stuck ad A cs ds x \<longleftrightarrow> waitingParents (heap ad ! x) + int (count_list ds x) > waits ad A x + int (count_list cs x)"

definition counts_inv :: "('s, 'k) adder \<Rightarrow> nat set \<Rightarrow> nat list \<Rightarrow> nat list \<Rightarrow> bool" where
  "counts_inv ad A cs ds \<longleftrightarrow> A \<subseteq> {..<length (heap ad)}
     \<and> (\<forall>x \<in> A. waitingParents (heap ad ! x) + int (count_list ds x) = waits ad A x + int (count_list cs x)
          \<and> missingParents (heap ad ! x) = misses ad x + int (count_list ds x) \<and> 0 \<le> waitingParents (heap ad ! x))
     \<and> (\<forall>x < length (heap ad). x \<notin> A \<longrightarrow>
          (waits ad A x + int (count_list cs x) = 0 \<and> misses ad x + int (count_list ds x) = 0) \<or> stuck ad A cs ds x)
     \<and> (\<forall>x < length (heap ad). x \<notin> A \<longrightarrow> stuck ad A cs ds x \<longrightarrow> (\<forall>c \<in> set (children (heap ad ! x)). c \<notin> A \<and> stuck ad A cs ds c))"

definition is_ready :: "('s, 'k) adder \<Rightarrow> nat \<Rightarrow> bool" where
  "is_ready ad x \<longleftrightarrow> waitingParents (heap ad ! x) = 0 \<and> missingParents (heap ad ! x) = 0"

definition queued :: "('s, 'k) adder \<Rightarrow> nat \<Rightarrow> nat \<Rightarrow> bool" where
  "queued ad pid x \<longleftrightarrow> (\<exists>q. nth_opt (ad_ready ad) pid = Some (Some q) \<and> x \<in> set q)"

definition wp_creator :: "('s, 'k) adder \<Rightarrow> nat \<Rightarrow> nat" where
  "wp_creator ad x = unat (pu_creator (wp_pu (heap ad ! x)))"

definition queue_inv :: "('s, 'k) adder \<Rightarrow> nat set \<Rightarrow> nat set \<Rightarrow> bool" where
  "queue_inv ad A P \<longleftrightarrow>
     (\<forall>pid q. nth_opt (ad_ready ad) pid = Some (Some q) \<longrightarrow> distinct q)
     \<and> (\<forall>pid x. queued ad pid x \<longrightarrow> x \<in> A - P \<and> wp_creator ad x = pid \<and> is_ready ad x)
     \<and> (\<forall>x \<in> A - P. is_ready ad x \<longrightarrow> finished ad \<or> queued ad (wp_creator ad x) x)"

definition maps_inv :: "('s, 'k) adder \<Rightarrow> nat set \<Rightarrow> bool" where
  "maps_inv ad A \<longleftrightarrow> (\<forall>h x. waiting ad h = Some x \<longrightarrow> x \<in> A \<and> pu_hash (wp_pu (heap ad ! x)) = h)
     \<and> (\<forall>uid x. waitingByID ad uid = Some x \<longrightarrow> x \<in> A \<and> wp_id (heap ad ! x) = uid)"

definition buffer_inv :: "('s, 'k) adder \<Rightarrow> nat set \<Rightarrow> bool" where
  "buffer_inv ad A \<longleftrightarrow> refs_ok ad \<and> counts_inv ad A [] [] \<and> queue_inv ad A {} \<and> maps_inv ad A"

lemma counts_invD:
  assumes "counts_inv ad A cs ds"
  shows "A \<subseteq> {..<length (heap ad)}" "finite A"
    and "x \<in> A \<Longrightarrow> waitingParents (heap ad ! x) + int (count_list ds x) = waits ad A x + int (count_list cs x)"
    and "x \<in> A \<Longrightarrow> missingParents (heap ad ! x) = misses ad x + int (count_list ds x)"
    and "x \<in> A \<Longrightarrow> 0 \<le> waitingParents (heap ad ! x)"
    and "x < length (heap ad) \<Longrightarrow> x \<notin> A \<Longrightarrow>
      (waits ad A x + int (count_list cs x) = 0 \<and> misses ad x + int (count_list ds x) = 0) \<or> stuck ad A cs ds x"
    and "x < length (heap ad) \<Longrightarrow> x \<notin> A \<Longrightarrow> stuck ad A cs ds x \<Longrightarrow> c \<in> set (children (heap ad ! x)) \<Longrightarrow> c \<notin> A \<and> stuck ad A cs ds c"
  using assms unfolding counts_inv_def by (blast intro: finite_subset [OF _ finite_lessThan])+

lemma needed_requests [simp]: "needed (ad\<lparr>ad_requests := q\<rparr>) = needed ad"
  by (simp add: needed_def fun_eq_iff)

lemma waits_nonneg: "0 \<le> waits ad A x"
  by (simp add: waits_def sum_nonneg)

lemma misses_nonneg: "0 \<le> misses ad x"
  by (simp add: misses_def sum_nonneg)

lemma waits_ge:
  assumes "finite A" "p \<in> A"
  shows "int (count_list (children (heap ad ! p)) x) \<le> waits ad A x"
  unfolding waits_def using assms by (intro member_le_sum) auto

lemma sum_change:
  fixes f g :: "'a \<Rightarrow> int"
  assumes "finite A" "p \<in> A" "\<And>q. q \<in> A \<Longrightarrow> q \<noteq> p \<Longrightarrow> g q = f q"
  shows "sum g A = sum f A + g p - f p"
proof -
  have "sum g (A - {p}) = sum f (A - {p})" using assms(3) by (intro sum.cong) auto
  then show ?thesis using sum.remove [OF assms(1,2), of g] sum.remove [OF assms(1,2), of f] by simp
qed

text \<open>The counters only depend on the heap and on the lists of needing preunits.\<close>

lemma counts_inv_cong:
  assumes "counts_inv ad A cs ds" "needed ad' = needed ad" "length (heap ad') = length (heap ad)"
    "\<And>x. x < length (heap ad) \<Longrightarrow> children (heap ad' ! x) = children (heap ad ! x)
      \<and> waitingParents (heap ad' ! x) = waitingParents (heap ad ! x) \<and> missingParents (heap ad' ! x) = missingParents (heap ad ! x)"
    and refs: "refs_ok ad"
  shows "counts_inv ad' A cs ds"
proof -
  have A: "A \<subseteq> {..<length (heap ad)}" using counts_invD(1) [OF assms(1)] .
  have w: "waits ad' A = waits ad A" using assms(4) A unfolding waits_def by (intro ext sum.cong) auto
  have m: "misses ad' = misses ad" by (simp add: misses_def assms(2) fun_eq_iff)
  have st: "stuck ad' A cs ds x = stuck ad A cs ds x" if "x < length (heap ad)" for x using assms(4) [OF that] w by (simp add: stuck_def)
  have eq: "children (heap ad' ! x) = children (heap ad ! x)" "waitingParents (heap ad' ! x) = waitingParents (heap ad ! x)"
    "missingParents (heap ad' ! x) = missingParents (heap ad ! x)" if "x < length (heap ad)" for x using assms(4) [OF that] by auto
  show ?thesis
    unfolding counts_inv_def assms(3) w m
  proof (intro conjI ballI allI impI)
    fix x c assume x: "x < length (heap ad)" "x \<notin> A" "stuck ad' A cs ds x" "c \<in> set (children (heap ad' ! x))"
    then have "c < length (heap ad)" using refs_okD(1) [OF refs] eq by simp
    then show "c \<notin> A" "stuck ad' A cs ds c" using counts_invD(7) [OF assms(1) x(1,2)] x eq st by simp_all
  qed (use counts_invD(3-6) [OF assms(1)] A eq st in auto)
qed

section \<open>Entering the buffer\<close>

lemma count_list_0: "x \<notin> set xs \<Longrightarrow> count_list xs x = 0"
  by (simp add: count_list_0_iff)

lemma counts_enter:
  assumes inv: "counts_inv ad A [] []" and refs: "refs_ok ad"
  shows "counts_inv (enter ad pu src fk) (insert (length (heap ad)) A) [] []"
proof -
  let ?r = "length (heap ad)" and ?ad = "enter ad pu src fk"
  note A = counts_invD(1,2) [OF inv]
  have rA: "?r \<notin> A" using A by auto
  have old: "heap ?ad ! x = heap ad ! x" if "x < ?r" for x using that by (simp add: enter_def nth_append)
  have new: "children (heap ?ad ! ?r) = []" "waitingParents (heap ?ad ! ?r) = 0" "missingParents (heap ?ad ! ?r) = 0"
    by (simp_all add: enter_def fresh_wp_def)
  have w: "waits ?ad (insert ?r A) x = waits ad A x" for x
    using A rA new old unfolding waits_def by (auto intro!: sum.cong)
  have m: "misses ?ad = misses ad" by (simp add: misses_def needed_def enter_def fun_eq_iff)
  have "?r \<notin> set (children (heap ad ! p))" if "p \<in> A" for p using refs_okD(1) [OF refs, of p ?r] A that by auto
  then have wr: "waits ad A ?r = 0" by (simp add: waits_def count_list_0)
  have "?r \<notin> set (needed ad uid)" for uid 
    using refs_okD(2) [OF refs, of uid _ ?r] by (cases "ad_missing ad uid") (auto simp: needed_def)
  then have mr: "misses ad ?r = 0" by (simp add: misses_def count_list_0)
  have st: "stuck ?ad (insert ?r A) [] [] x = stuck ad A [] [] x" if "x < ?r" for x using old [OF that] w by (simp add: stuck_def)
  have len: "length (heap ?ad) = Suc ?r" by (simp add: enter_def)
  show ?thesis
    unfolding counts_inv_def len w m
  proof (intro conjI ballI allI impI)
    fix x c assume x: "x < Suc ?r" "x \<notin> insert ?r A" "stuck ?ad (insert ?r A) [] [] x" "c \<in> set (children (heap ?ad ! x))"
    then have xr: "x < ?r" by simp
    have c: "c \<in> set (children (heap ad ! x))" "c < ?r" using x(4) old [OF xr] refs_okD(1) [OF refs xr] by auto
    then show "c \<notin> insert ?r A" "stuck ?ad (insert ?r A) [] [] c" using counts_invD(7) [OF inv xr _ _ c(1)] x st xr by auto
  next
    fix x assume x: "x < Suc ?r" "x \<notin> insert ?r A"
    then show "(waits ad A x + int (count_list [] x) = 0 \<and> misses ad x + int (count_list [] x) = 0) \<or> stuck ?ad (insert ?r A) [] [] x"
      using counts_invD(6) [OF inv, of x] st [of x] by auto
  next
    fix x assume x: "x \<in> insert ?r A"
    have "x \<in> A \<Longrightarrow> x < ?r" using A by auto
    then show "waitingParents (heap ?ad ! x) + int (count_list [] x) = waits ad A x + int (count_list [] x)"
      "missingParents (heap ?ad ! x) = misses ad x + int (count_list [] x)" "0 \<le> waitingParents (heap ?ad ! x)"
      using x old [of x] new wr mr counts_invD(3,4,5) [OF inv, of x] by auto
  qed (use A in auto)
qed

text \<open>A change of the counters of one active preunit that matches a new entry in a list.\<close>

lemma counts_step:
  assumes inv: "counts_inv ad A cs ds" and r: "r \<in> A" and len: "length (heap ad') = length (heap ad)"
    and w: "\<And>x. waits ad' A x = waits ad A x + (if x = r then a else 0)"
    and m: "\<And>x. misses ad' x = misses ad x + (if x = r then b else 0)"
    and p: "waitingParents (heap ad' ! r) = waitingParents (heap ad ! r) + a" "missingParents (heap ad' ! r) = missingParents (heap ad ! r) + b"
    and o: "\<And>x. x \<noteq> r \<Longrightarrow> waitingParents (heap ad' ! x) = waitingParents (heap ad ! x) \<and> missingParents (heap ad' ! x) = missingParents (heap ad ! x)"
    and ch: "\<And>x. x \<notin> A \<Longrightarrow> children (heap ad' ! x) = children (heap ad ! x)" and a: "0 \<le> a"
  shows "counts_inv ad' A cs ds"
proof -
  have st: "stuck ad' A cs ds x = stuck ad A cs ds x" for x using w [of x] p(1) o [of x] by (cases "x = r") (auto simp: stuck_def)
  show ?thesis
    unfolding counts_inv_def len st
  proof (intro conjI ballI allI impI)
    fix x assume x: "x \<in> A"
    show "waitingParents (heap ad' ! x) + int (count_list ds x) = waits ad' A x + int (count_list cs x)"
      "missingParents (heap ad' ! x) = misses ad' x + int (count_list ds x)" "0 \<le> waitingParents (heap ad' ! x)"
      using counts_invD(3-5) [OF inv x] w [of x] m [of x] p o [of x] a by (cases "x = r"; simp)+
  next
    fix x assume "x < length (heap ad)" "x \<notin> A"
    then show "(waits ad' A x + int (count_list cs x) = 0 \<and> misses ad' x + int (count_list ds x) = 0) \<or> stuck ad A cs ds x"
      using counts_invD(6) [OF inv, of x] w [of x] m [of x] r by auto
  qed (use counts_invD(1,7) [OF inv] ch in auto)
qed

lemma heap_upd_wp: "heap (upd_wp r f ad) ! x = (if x = r \<and> r < length (heap ad) then f (heap ad ! r) else heap ad ! x)"
  by (cases "r < length (heap ad)"; cases "x = r") (simp_all add: upd_wp_def list_update_beyond)

lemma upd_wp_rest [simp]:
  "waiting (upd_wp r f ad) = waiting ad" "waitingByID (upd_wp r f ad) = waitingByID ad" "ad_ready (upd_wp r f ad) = ad_ready ad"
  "finished (upd_wp r f ad) = finished ad" "ad_missing (upd_wp r f ad) = ad_missing ad" "ad_conf (upd_wp r f ad) = ad_conf ad"
  by (simp_all add: upd_wp_def)

lemma registerMissing_rest [simp]:
  "waiting (registerMissing ad uid r) = waiting ad" "waitingByID (registerMissing ad uid r) = waitingByID ad"
  "ad_ready (registerMissing ad uid r) = ad_ready ad" "finished (registerMissing ad uid r) = finished ad" "heap (registerMissing ad uid r) = heap ad"
  by (simp_all add: registerMissing_def Let_def)

lemma check_parent_cases:
  assumes "check_parent e mh r ad (creator, height) = Some ad'"
  obtains (known) "ad' = ad"
  | (waits) par where "waitingByID ad (ID height (of_nat creator) e) = Some par"
      "ad' = upd_wp par (\<lambda>wp. wp\<lparr>children := children wp @ [r]\<rparr>) (upd_wp r (\<lambda>wp. wp\<lparr>waitingParents := waitingParents wp + 1\<rparr>) ad)"
      "\<exists>mx. nth_opt mh creator = Some mx \<and> mx < height"
  | (misses) "ad' = registerMissing (upd_wp r (\<lambda>wp. wp\<lparr>missingParents := missingParents wp + 1\<rparr>) ad) (ID height (of_nat creator) e) r"
proof -
  obtain mx where mx: "nth_opt mh creator = Some mx" using assms by (auto simp: check_parent_def bind_eq_Some_conv)
  show thesis
  proof (cases "height > mx")
    case False
    then show thesis using assms mx by (intro known) (simp add: check_parent_def)
  next
    case True
    show thesis
    proof (cases "waitingByID ad (ID height (of_nat creator) e)")
      case None
      then show thesis using assms mx True by (intro misses) (simp add: check_parent_def Let_def)
    next
      case (Some par)
      then show thesis using assms mx True by (intro waits [of par]) (simp_all add: check_parent_def Let_def)
    qed
  qed
qed

lemma counts_check_parent:
  assumes inv: "counts_inv ad A cs ds" and maps: "maps_inv ad A" and r: "r \<in> A" and s: "check_parent e mh r ad ch = Some ad'"
  shows "counts_inv ad' A cs ds"
proof -
  obtain creator height where ch: "ch = (creator, height)" by (cases ch)
  let ?uid = "ID height (of_nat creator) e"
  note A = counts_invD(1,2) [OF inv]
  have rl: "r < length (heap ad)" using r A by auto
  from s [unfolded ch] show ?thesis
  proof (cases rule: check_parent_cases)
    case known
    then show ?thesis using inv by simp
  next
    case (waits par)
    note 2 = this
    have par: "par \<in> A" "par < length (heap ad)" using maps 2(1) A(1) unfolding maps_inv_def by blast+
    have c: "children (heap ad' ! p) = (if p = par then children (heap ad ! p) @ [r] else children (heap ad ! p))" for p
      using rl par by (auto simp: 2(2) heap_upd_wp)
    have "waits ad' A x = waits ad A x + (if x = r then 1 else 0)" for x
      unfolding waits_def c by (subst sum_change [OF A(2) par(1)]) auto
    moreover have "misses ad' = misses ad" by (simp add: 2(2) misses_def needed_def upd_wp_def fun_eq_iff)
    ultimately show ?thesis
      using rl par c by (intro counts_step [OF inv r, of ad' 1 0]) (auto simp: 2(2) upd_wp_def nth_list_update)
  next
    case misses
    note 3 = this
    have h: "heap ad' = heap (upd_wp r (\<lambda>wp. wp\<lparr>missingParents := missingParents wp + 1\<rparr>) ad)" by (simp add: 3 registerMissing_def Let_def)
    have c: "children (heap ad' ! p) = children (heap ad ! p)" for p using rl by (auto simp: h upd_wp_def nth_list_update)
    have nd: "needed ad' uid = (if uid = ?uid then needed ad uid @ [r] else needed ad uid)" for uid
      by (auto simp: 3 needed_def registerMissing_def upd_wp_def Let_def addNeeding_def newMissing_def split: option.splits)
    have "misses ad' x = misses ad x + (if x = r then 1 else 0)" for x
      unfolding misses_def nd by (subst sum_change [of UNIV ?uid]) auto
    moreover have "waits ad' A = waits ad A" by (simp add: waits_def c fun_eq_iff)
    ultimately show ?thesis
      using rl c by (intro counts_step [OF inv r, of ad' 0 1]) (auto simp: h upd_wp_def nth_list_update)
  qed
qed

lemma maps_cong:
  assumes "maps_inv ad A" "waiting ad' = waiting ad" "waitingByID ad' = waitingByID ad" "frame ad ad'" "A \<subseteq> {..<length (heap ad)}"
  shows "maps_inv ad' A"
proof -
  have "x < length (heap ad)" if "x \<in> A" for x using assms(5) that by auto
  then show ?thesis using assms(1-3) frame_wp(1,2) [OF assms(4)] unfolding maps_inv_def by metis
qed

lemma queue_cong:
  assumes "queue_inv ad A P" "ad_ready ad' = ad_ready ad" "finished ad' = finished ad"
    "\<And>x. x \<in> A - P \<Longrightarrow> is_ready ad' x = is_ready ad x" "\<And>x. x \<in> A \<Longrightarrow> wp_creator ad' x = wp_creator ad x"
  shows "queue_inv ad' A P"
proof -
  have q: "queued ad' = queued ad" by (simp add: queued_def assms(2) fun_eq_iff)
  show ?thesis using assms(1,4,5) unfolding queue_inv_def q assms(2,3) by (metis DiffD1)
qed

lemma frame_creator: "frame ad ad' \<Longrightarrow> x < length (heap ad) \<Longrightarrow> wp_creator ad' x = wp_creator ad x"
  using frame_wp(1) [of ad ad' x] by (simp add: wp_creator_def)

lemma check_parent_rest:
  assumes "check_parent e mh r ad ch = Some ad'"
  shows "waiting ad' = waiting ad" "waitingByID ad' = waitingByID ad" "ad_ready ad' = ad_ready ad" "finished ad' = finished ad"
    and "x \<noteq> r \<Longrightarrow> is_ready ad' x = is_ready ad x"
proof -
  obtain creator height where ch: "ch = (creator, height)" by (cases ch)
  have *: "waiting ad' = waiting ad \<and> waitingByID ad' = waitingByID ad \<and> ad_ready ad' = ad_ready ad \<and> finished ad' = finished ad
      \<and> (\<forall>x. x \<noteq> r \<longrightarrow> is_ready ad' x = is_ready ad x)"
    using assms unfolding ch by (cases rule: check_parent_cases) (auto simp: is_ready_def heap_upd_wp)
  then show "waiting ad' = waiting ad" "waitingByID ad' = waitingByID ad" "ad_ready ad' = ad_ready ad" "finished ad' = finished ad"
    "x \<noteq> r \<Longrightarrow> is_ready ad' x = is_ready ad x" by auto
qed

text \<open>What holds while a new preunit \<open>r\<close> is put into the buffer.\<close>

definition entering :: "('s, 'k) adder \<Rightarrow> nat set \<Rightarrow> nat \<Rightarrow> bool" where
  "entering ad A r \<longleftrightarrow> refs_ok ad \<and> counts_inv ad A [] [] \<and> queue_inv ad A {r} \<and> maps_inv ad A \<and> r \<in> A \<and> children (heap ad ! r) = []"

lemma entering_check_parent:
  assumes "entering ad A r" "check_parent e mh r ad (creator, height) = Some ad'"
    "\<And>mx. nth_opt mh creator = Some mx \<Longrightarrow> mx < height \<Longrightarrow> ID height (of_nat creator) e \<noteq> wp_id (heap ad ! r)"
  shows "entering ad' A r"
proof -
  note E = assms(1) [unfolded entering_def]
  have A: "A \<subseteq> {..<length (heap ad)}" using counts_invD(1) E by blast
  have rl: "r < length (heap ad)" using A E by auto
  note R = check_parent_rest [OF assms(2)] and F = frame_check_parent [OF assms(2)]
  have "counts_inv ad' A [] []" using counts_check_parent [OF _ _ _ assms(2)] E by blast
  moreover have "wp_creator ad' x = wp_creator ad x" if "x \<in> A" for x using frame_creator [OF F, of x] A that by auto
  then have "queue_inv ad' A {r}" using E R(5) by (intro queue_cong [OF _ R(3,4)]) auto
  moreover have "maps_inv ad' A" using maps_cong [OF _ R(1,2) F A] E by blast
  moreover have "refs_ok ad'" using refs_check_parent [OF assms(2)] E rl by blast
  moreover have "children (heap ad' ! r) = []"
    using assms(2)
  proof (cases rule: check_parent_cases)
    case (waits par)
    then have "par \<noteq> r" using E assms(3) unfolding maps_inv_def by metis
    then show ?thesis using waits E by (auto simp: heap_upd_wp)
  qed (use E in \<open>auto simp: heap_upd_wp\<close>)
  ultimately show ?thesis using E by (simp add: entering_def)
qed

text \<open>A preunit whose crown does not name its own id as a parent.\<close>

definition no_self_parent :: "preunit \<Rightarrow> bool" where
  "no_self_parent pu \<longleftrightarrow> (\<forall>(i, h) \<in> set (enumerate 0 (Heights (pu_crown pu))). 0 \<le> h \<longrightarrow> ID h (of_nat i) (pu_epochID pu) \<noteq> UnitID pu)"

lemma iterate_max_heights:
  "iterate_slots (\<lambda>us heights. (True, heights @ [max_height us])) uss hs = hs @ map max_height uss"
  by (induction uss arbitrary: hs) auto

lemma MaxView_ge: "h \<in> set (di_Heights (MaxView d)) \<Longrightarrow> -1 \<le> h"
proof -
  have "m \<le> foldl (\<lambda>h u. if Height u > h then Height u else h) m us" for m us
  proof (induction us arbitrary: m)
    case (Cons u us)
    have "m \<le> (if Height u > m then Height u else m)" by simp
    also have "\<dots> \<le> foldl (\<lambda>h u. if Height u > h then Height u else h) (if Height u > m then Height u else m) us" by (rule Cons.IH)
    finally show ?case by simp
  qed simp
  then have ge: "-1 \<le> max_height us" for us by (simp add: max_height_def)
  assume "h \<in> set (di_Heights (MaxView d))"
  then show ?thesis using ge by (auto simp: MaxView_def Iterate_def iterate_max_heights)
qed

lemma entering_checkParents:
  assumes "entering ad A r" "checkParents ad r = Some (mh, ad')" "no_self_parent (wp_pu (heap ad ! r))" "wp_id (heap ad ! r) = UnitID (wp_pu (heap ad ! r))"
  shows "entering ad' A r"
proof -
  let ?pu = "wp_pu (heap ad ! r)" and ?uid = "wp_id (heap ad ! r)"
  let ?hs = "enumerate 0 (Heights (pu_crown ?pu))"
  have g: "go_fold (check_parent (pu_epochID ?pu) mh r) ad ?hs = Some ad'" and mh: "mh = di_Heights (MaxView (core (ad_dag ad)))"
    using assms(2) by (auto simp: checkParents_def Let_def bind_eq_Some_conv)
  have rl: "r < length (heap ad)" using assms(1) counts_invD(1) [of ad A] unfolding entering_def by blast
  let ?P = "\<lambda>a. entering a A r \<and> frame ad a"
  have "?P ad'"
  proof (rule go_fold_cong(2) [of ?P, OF HOL.refl _ _ g])
    show "?P ad" using assms(1) by simp
  next
    fix a x a' assume P: "?P a" and x: "x \<in> set ?hs" and c: "check_parent (pu_epochID ?pu) mh r a x = Some a'"
    obtain i h where ih: "x = (i, h)" by (cases x)
    have "ID h (of_nat i) (pu_epochID ?pu) \<noteq> wp_id (heap a ! r)" if "nth_opt mh i = Some mx" "mx < h" for mx
    proof -
      have "0 \<le> h" using that MaxView_ge [of mx] mh by (fastforce dest: nth_opt_in_set)
      then show ?thesis using assms(3,4) x ih P frame_wp(2) [of ad a r] rl by (auto simp: no_self_parent_def)
    qed
    then have "entering a' A r" using entering_check_parent P c unfolding ih by blast
    then show "?P a'" using P frame_trans frame_check_parent [OF c] by blast
  qed
  then show ?thesis ..
qed

section \<open>Children that waited for the new preunit\<close>

lemma count_list_Cons_int: "int (count_list (c # cs) x) = int (count_list cs x) + (if x = c then 1 else 0)"
  by simp

lemma counts_move_parent:
  assumes inv: "counts_inv ad A cs (c # ds)" and c: "c < length (heap ad)"
  shows "counts_inv (move_parent ad c) A cs ds"
proof -
  let ?ad = "move_parent ad c"
  have h: "heap ?ad ! x = (if x = c then (heap ad ! c)\<lparr>missingParents := missingParents (heap ad ! c) - 1, waitingParents := waitingParents (heap ad ! c) + 1\<rparr> else heap ad ! x)" for x
    using c by (simp add: move_parent_def heap_upd_wp)
  have ch: "children (heap ?ad ! x) = children (heap ad ! x)" for x by (simp add: h)
  have w: "waits ?ad A = waits ad A" by (simp add: waits_def ch fun_eq_iff)
  have m: "misses ?ad = misses ad" by (simp add: misses_def needed_def move_parent_def fun_eq_iff)
  have len: "length (heap ?ad) = length (heap ad)" by (simp add: move_parent_def)
  have st: "stuck ?ad A cs ds x = stuck ad A cs (c # ds) x" for x by (auto simp: stuck_def w h)
  show ?thesis
    unfolding counts_inv_def len st w m
  proof (intro conjI ballI allI impI)
    fix x assume x: "x \<in> A"
    show "waitingParents (heap ?ad ! x) + int (count_list ds x) = waits ad A x + int (count_list cs x)"
      "missingParents (heap ?ad ! x) = misses ad x + int (count_list ds x)" "0 \<le> waitingParents (heap ?ad ! x)"
      using counts_invD(3-5) [OF inv x] by (simp_all add: h split: if_splits)
  next
    fix x assume "x < length (heap ad)" "x \<notin> A"
    then show "(waits ad A x + int (count_list cs x) = 0 \<and> misses ad x + int (count_list ds x) = 0) \<or> stuck ad A cs (c # ds) x"
      using counts_invD(6) [OF inv, of x] misses_nonneg [of ad x] by (auto split: if_splits)
  qed (use counts_invD(1,7) [OF inv] ch in auto)
qed

lemma counts_move_parents:
  "counts_inv ad A cs ds \<Longrightarrow> set ds \<subseteq> {..<length (heap ad)} \<Longrightarrow> queue_inv ad A P \<Longrightarrow>
    counts_inv (foldl move_parent ad ds) A cs [] \<and> queue_inv (foldl move_parent ad ds) A P"
proof (induction ds arbitrary: ad)
  case (Cons c ds)
  let ?ad = "move_parent ad c"
  have c: "c < length (heap ad)" using Cons.prems(2) by simp
  have inv: "counts_inv ?ad A cs ds" by (rule counts_move_parent [OF Cons.prems(1) c])
  have r: "is_ready ?ad x = is_ready ad x" if "x \<in> A" for x
    using counts_invD(4,5) [OF Cons.prems(1) that] misses_nonneg [of ad x] c
    by (cases "x = c") (simp_all add: is_ready_def move_parent_def heap_upd_wp)
  have "queue_inv ?ad A P"
    by (rule queue_cong [OF Cons.prems(3)]) (simp_all add: r, simp_all add: wp_creator_def move_parent_def heap_upd_wp)
  then show ?case using Cons.IH [OF inv] Cons.prems(2) by (simp add: move_parent_def)
qed simp

lemma move_parent_missing:
  "foldl move_parent (ad\<lparr>ad_missing := m\<rparr>) cs = (foldl move_parent ad cs)\<lparr>ad_missing := m\<rparr>"
proof (induction cs arbitrary: ad)
  case (Cons c cs)
  have "move_parent (ad\<lparr>ad_missing := m\<rparr>) c = (move_parent ad c)\<lparr>ad_missing := m\<rparr>" by (simp add: move_parent_def upd_wp_def)
  then show ?case using Cons.IH by simp
qed simp

lemma foldl_move_parent_rest:
  "ad_missing (foldl move_parent ad cs) = ad_missing ad" "waiting (foldl move_parent ad cs) = waiting ad" "waitingByID (foldl move_parent ad cs) = waitingByID ad"
  by (induction cs arbitrary: ad) (simp_all add: move_parent_def)

lemma checkIfMissing_rest:
  "waiting (checkIfMissing ad r) = waiting ad" "waitingByID (checkIfMissing ad r) = waitingByID ad"
  by (simp_all add: checkIfMissing_def Let_def foldl_move_parent_rest split: option.splits)

lemma entering_checkIfMissing:
  assumes E: "entering ad A r"
  shows "counts_inv (checkIfMissing ad r) A [] [] \<and> queue_inv (checkIfMissing ad r) A {r} \<and> maps_inv (checkIfMissing ad r) A"
proof -
  let ?uid = "wp_id (heap ad ! r)"
  have inv: "counts_inv ad A [] []" and refs: "refs_ok ad" and q: "queue_inv ad A {r}" and rA: "r \<in> A" and noch: "children (heap ad ! r) = []" and maps: "maps_inv ad A"
    using E by (auto simp: entering_def)
  note A = counts_invD(1,2) [OF inv]
  have rl: "r < length (heap ad)" using rA A by auto
  have maps': "maps_inv (checkIfMissing ad r) A" using maps_cong [OF maps checkIfMissing_rest frame_checkIfMissing A(1)] .
  show ?thesis
  proof (cases "ad_missing ad ?uid")
    case None
    have "(heap ad)[r := (heap ad ! r)\<lparr>children := []\<rparr>] = heap ad" using noch rl by (metis list_update_id waitingPreunit.surjective waitingPreunit.update_convs(6))
    then have "upd_wp r (\<lambda>wp. wp\<lparr>children := []\<rparr>) ad = ad" by (simp add: upd_wp_def)
    then have "checkIfMissing ad r = ad" using None by (simp add: checkIfMissing_def)
    then show ?thesis using inv q maps by simp
  next
    case (Some mp)
    let ?nb = "neededBy mp"
    let ?ad1 = "(upd_wp r (\<lambda>wp. wp\<lparr>children := ?nb\<rparr>) ad)\<lparr>ad_missing := (ad_missing ad)(?uid := None)\<rparr>"
    have res: "checkIfMissing ad r = foldl move_parent ?ad1 ?nb"
      using Some by (simp add: checkIfMissing_def Let_def move_parent_missing foldl_move_parent_rest)
    have nd: "needed ?ad1 uid = (if uid = ?uid then [] else needed ad uid)" for uid by (simp add: needed_def)
    have w: "waits ?ad1 A x = waits ad A x + int (count_list ?nb x)" for x
      unfolding waits_def by (subst sum_change [OF A(2) rA, of _ "\<lambda>p. int (count_list (children (heap ad ! p)) x)"]) (simp_all add: heap_upd_wp rl noch)
    have m: "misses ?ad1 x + int (count_list ?nb x) = misses ad x" for x
      using Some unfolding misses_def nd by (subst sum_change [of UNIV ?uid, of _ "\<lambda>uid. int (count_list (needed ad uid) x)"]) (auto simp: needed_def)
    have len: "length (heap ?ad1) = length (heap ad)" by simp
    have st: "stuck ?ad1 A [] ?nb x = stuck ad A [] [] x" for x by (simp add: stuck_def w heap_upd_wp)
    have ch: "children (heap ?ad1 ! x) = children (heap ad ! x)" if "x \<notin> A" for x using that rA by (auto simp: heap_upd_wp)
    have "counts_inv ?ad1 A [] ?nb"
      unfolding counts_inv_def len st
    proof (intro conjI ballI allI impI)
      fix x assume x: "x \<in> A"
      show "waitingParents (heap ?ad1 ! x) + int (count_list ?nb x) = waits ?ad1 A x + int (count_list [] x)"
        "missingParents (heap ?ad1 ! x) = misses ?ad1 x + int (count_list ?nb x)" "0 \<le> waitingParents (heap ?ad1 ! x)"
        using counts_invD(3-5) [OF inv x] w [of x] m [of x] by (auto simp: heap_upd_wp)
    next
      fix x assume "x < length (heap ad)" "x \<notin> A"
      then show "(waits ?ad1 A x + int (count_list [] x) = 0 \<and> misses ?ad1 x + int (count_list ?nb x) = 0) \<or> stuck ad A [] [] x"
        using counts_invD(6) [OF inv, of x] w [of x] m [of x] misses_nonneg [of ?ad1 x] by auto
    qed (use counts_invD(1,7) [OF inv] ch in auto)
    moreover have "set ?nb \<subseteq> {..<length (heap ?ad1)}" using refs_okD(2) [OF refs Some] by auto
    moreover have "queue_inv ?ad1 A {r}"
      by (rule queue_cong [OF q]) (simp_all add: is_ready_def wp_creator_def heap_upd_wp)
    ultimately show ?thesis using counts_move_parents [of ?ad1 A "[]" ?nb "{r}"] maps' unfolding res by blast
  qed
qed

section \<open>Sending and requesting\<close>

lemma queued_update:
  assumes "nth_opt (ad_ready ad) pid = Some (Some q)"
  shows "queued (ad\<lparr>ad_ready := (ad_ready ad)[pid := Some q']\<rparr>) i x \<longleftrightarrow> (if i = pid then x \<in> set q' else queued ad i x)"
  using assms by (auto simp: queued_def nth_opt_def nth_list_update split: if_splits)

lemma queue_sendIfReady:
  assumes q: "queue_inv ad A (insert c P)" and c: "c \<in> A" "c \<notin> P" and s: "sendIfReady ad c = Some ad'"
  shows "queue_inv ad' A P \<and> heap ad' = heap ad \<and> ad_missing ad' = ad_missing ad \<and> waiting ad' = waiting ad \<and> waitingByID ad' = waitingByID ad"
proof (cases "is_ready ad c \<and> \<not> finished ad")
  case False
  then have "ad' = ad" using s by (auto simp: sendIfReady_def Let_def is_ready_def split: if_splits)
  moreover have "queue_inv ad A P" using q False c unfolding queue_inv_def by (metis DiffD1 DiffD2 DiffI insertCI insertE)
  ultimately show ?thesis by simp
next
  case True
  obtain qs where qs: "nth_opt (ad_ready ad) (wp_creator ad c) = Some (Some qs)" "ad' = ad\<lparr>ad_ready := (ad_ready ad)[wp_creator ad c := Some (qs @ [c])]\<rparr>"
    using s True by (auto simp: sendIfReady_def Let_def is_ready_def wp_creator_def bind_eq_Some_conv split: if_splits)
  have qd: "queued ad' i x \<longleftrightarrow> queued ad i x \<or> (i = wp_creator ad c \<and> x = c)" for i x
    unfolding qs(2) queued_update [OF qs(1)] using qs(1) by (auto simp: queued_def)
  have same: "is_ready ad' = is_ready ad" "wp_creator ad' = wp_creator ad" "finished ad' = finished ad"
    by (auto simp: qs(2) is_ready_def wp_creator_def)
  have nc: "\<not> queued ad i c" for i using q unfolding queue_inv_def by blast
  have "distinct q'" if "nth_opt (ad_ready ad') pid = Some (Some q')" for pid q'
  proof (cases "pid = wp_creator ad c")
    case True
    then have "q' = qs @ [c]" using that qs by (auto simp: nth_opt_def split: if_splits)
    then show ?thesis using q qs(1) nc [of "wp_creator ad c"] unfolding queue_inv_def queued_def by auto
  next
    case False
    then show ?thesis using that q qs unfolding queue_inv_def by (auto simp: nth_opt_def split: if_splits)
  qed
  then have "queue_inv ad' A P" using q True c unfolding queue_inv_def same qd by blast
  then show ?thesis by (simp add: qs(2))
qed

text \<open>Requests for missing preunits do not change who needs them.\<close>

definition same_buffer :: "('s, 'k) adder \<Rightarrow> ('s, 'k) adder \<Rightarrow> bool" where
  "same_buffer ad ad' \<longleftrightarrow> heap ad' = heap ad \<and> needed ad' = needed ad \<and> ad_ready ad' = ad_ready ad
     \<and> waiting ad' = waiting ad \<and> waitingByID ad' = waitingByID ad \<and> finished ad' = finished ad"

lemma same_fetch_one: "same_buffer (fst s) (fst (fetch_one now e c s h))"
proof -
  obtain ad tr where s: "s = (ad, tr)" by (cases s)
  show ?thesis
    unfolding s by (auto simp: fetch_one_def same_buffer_def Let_def needed_def newMissing_def fun_eq_iff split: option.splits)
qed

lemma same_buffer_trans: "same_buffer ad ad1 \<Longrightarrow> same_buffer ad1 ad2 \<Longrightarrow> same_buffer ad ad2"
  by (simp add: same_buffer_def)

lemma same_fetch_ones: "same_buffer (fst s) (fst (foldl (fetch_one now e c) s hs))"
proof (induction hs arbitrary: s)
  case (Cons h hs)
  show ?case using same_buffer_trans [OF same_fetch_one Cons.IH [of "fetch_one now e c s h"]] by simp
qed (simp add: same_buffer_def)

lemma same_fetch_loop: "fetch_loop now e src mh s hs = Some ad' \<Longrightarrow> same_buffer (fst s) ad'"
proof (induction now e src mh s hs rule: fetch_loop.induct)
  case (2 now e src mh s creator height hs)
  obtain mx where mx: "nth_opt mh creator = Some mx" using 2(2) by (auto simp: bind_eq_Some_conv)
  obtain ad1 tr where f: "foldl (fetch_one now e creator) s (rev [mx + 1..height]) = (ad1, tr)" by fastforce
  have fr: "same_buffer (fst s) ad1" using same_fetch_ones [of s now e creator "rev [mx + 1..height]"] f by simp
  show ?case
  proof (cases "int (length tr) > GossipAbove (ad_conf ad1)")
    case True
    then show ?thesis using 2(2) mx f fr by (auto simp: same_buffer_def)
  next
    case False
    then have "same_buffer ad1 ad'" using 2(1) [OF mx HOL.refl f [symmetric] False] 2(2) mx f by simp
    then show ?thesis using fr same_buffer_trans by blast
  qed
qed (auto simp: same_buffer_def split: if_splits)

lemma same_buffer_inv:
  assumes "same_buffer ad ad'" "refs_ok ad"
  shows "counts_inv ad A cs ds \<Longrightarrow> counts_inv ad' A cs ds" "queue_inv ad A P \<Longrightarrow> queue_inv ad' A P" "maps_inv ad A \<Longrightarrow> maps_inv ad' A"
proof -
  note S = assms(1) [unfolded same_buffer_def]
  show "counts_inv ad A cs ds \<Longrightarrow> counts_inv ad' A cs ds" using S assms(2) by (auto intro: counts_inv_cong)
  show "queue_inv ad A P \<Longrightarrow> queue_inv ad' A P" using S by (auto intro!: queue_cong [of ad] simp: is_ready_def wp_creator_def)
  show "maps_inv ad A \<Longrightarrow> maps_inv ad' A" using S by (simp add: maps_inv_def)
qed

lemma entering_enter:
  assumes "buffer_inv ad A"
  shows "entering (enter ad pu src fk) (insert (length (heap ad)) A) (length (heap ad))"
proof -
  let ?r = "length (heap ad)" and ?ad = "enter ad pu src fk"
  have refs: "refs_ok ad" and inv: "counts_inv ad A [] []" and q: "queue_inv ad A {}" and m: "maps_inv ad A"
    using assms by (auto simp: buffer_inv_def)
  have A: "x < ?r" if "x \<in> A" for x using counts_invD(1) [OF inv] that by auto
  have old: "heap ?ad ! x = heap ad ! x" if "x \<in> A" for x using A [OF that] by (simp add: enter_def nth_append)
  have qd: "queued ?ad = queued ad" "ad_ready ?ad = ad_ready ad" "finished ?ad = finished ad" by (auto simp: queued_def enter_def fun_eq_iff)
  have "insert ?r A - {?r} = A" using A by auto
  then have "queue_inv ?ad (insert ?r A) {?r}"
    using q old unfolding queue_inv_def qd by (simp add: is_ready_def wp_creator_def)
  moreover have "maps_inv ?ad (insert ?r A)"
    using m old A unfolding maps_inv_def by (auto simp: enter_def fresh_wp_def split: if_splits)
  moreover have "children (heap ?ad ! ?r) = []" by (simp add: enter_def fresh_wp_def)
  ultimately show ?thesis using refs_enter [OF refs] counts_enter [OF inv refs] by (simp add: entering_def)
qed

lemma buffer_addToWaiting:
  assumes inv: "buffer_inv ad A" and a: "addToWaiting now ad pu src = Some (e, ad')" and pu: "no_self_parent pu"
  shows "\<exists>A'. buffer_inv ad' A'"
  using a
proof (cases rule: addToWaiting_cases)
  case duplicate
  then show ?thesis using inv by auto
next
  case (entered fk mh ad3)
  let ?r = "length (heap ad)" and ?A = "insert (length (heap ad)) A"
  let ?ad4 = "checkIfMissing ad3 ?r"
  have E2: "entering (enter ad pu src fk) ?A ?r" by (rule entering_enter [OF inv])
  have wp: "wp_pu (heap (enter ad pu src fk) ! ?r) = pu" "wp_id (heap (enter ad pu src fk) ! ?r) = UnitID pu" by (simp_all add: enter_def fresh_wp_def)
  have E3: "entering ad3 ?A ?r" using entering_checkParents [OF E2 entered(2)] wp pu by simp
  have 4: "counts_inv ?ad4 ?A [] []" "queue_inv ?ad4 ?A {?r}" "maps_inv ?ad4 ?A" using entering_checkIfMissing [OF E3] by auto
  have refs4: "refs_ok ?ad4" using refs_checkIfMissing [of ad3] E3 by (simp add: entering_def)
  have rl: "?r < length (heap ?ad4)" using counts_invD(1) [OF 4(1)] by auto
  show ?thesis
  proof (cases "missingParents (heap ?ad4 ! ?r) > 0")
    case True
    then have f: "fetchMissing now ?ad4 ?r mh = Some ad'" using entered(3) by simp
    have same: "same_buffer ?ad4 ad'" using same_fetch_loop [OF f [unfolded fetchMissing_def Let_def]] by simp
    have "queue_inv ?ad4 ?A {}" using 4(2) True unfolding queue_inv_def is_ready_def by auto
    then have "counts_inv ad' ?A [] []" "queue_inv ad' ?A {}" "maps_inv ad' ?A"
      using same_buffer_inv [OF same refs4] 4 by blast+
    moreover have "refs_ok ad'" using refs_fetch_loop [OF f [unfolded fetchMissing_def Let_def]] refs4 by simp
    ultimately show ?thesis unfolding buffer_inv_def by blast
  next
    case False
    then have s: "sendIfReady ?ad4 ?r = Some ad'" using entered(3) by simp
    note Q = queue_sendIfReady [OF 4(2) _ _ s]
    have "counts_inv ad' ?A [] []" using Q 4(1) refs4 by (intro counts_inv_cong [OF 4(1)]) (auto simp: needed_def)
    moreover have "maps_inv ad' ?A" using Q 4(3) by (simp add: maps_inv_def)
    ultimately show ?thesis using Q refs_sendIfReady [OF s refs4 rl] unfolding buffer_inv_def by blast
  qed
qed

section \<open>Leaving the buffer\<close>

lemma counts_notify:
  assumes inv: "counts_inv ad A (c # cs) []" and c: "c < length (heap ad)"
  shows "counts_inv (upd_wp c (\<lambda>wp. wp\<lparr>waitingParents := waitingParents wp - 1\<rparr>) ad) A cs []"
proof -
  let ?ad = "upd_wp c (\<lambda>wp. wp\<lparr>waitingParents := waitingParents wp - 1\<rparr>) ad"
  have h: "heap ?ad ! x = (if x = c then (heap ad ! c)\<lparr>waitingParents := waitingParents (heap ad ! c) - 1\<rparr> else heap ad ! x)" for x
    using c by (simp add: heap_upd_wp)
  have ch: "children (heap ?ad ! x) = children (heap ad ! x)" for x by (simp add: h)
  have w: "waits ?ad A = waits ad A" by (simp add: waits_def ch fun_eq_iff)
  have m: "misses ?ad = misses ad" by (simp add: misses_def needed_def fun_eq_iff)
  have st: "stuck ?ad A cs [] x = stuck ad A (c # cs) [] x" for x by (auto simp: stuck_def w h)
  have pos: "1 \<le> waitingParents (heap ad ! c)" if "c \<in> A" using counts_invD(3) [OF inv that] waits_nonneg [of ad A c] by simp
  show ?thesis
    unfolding counts_inv_def length_upd_wp st w m
  proof (intro conjI ballI allI impI)
    fix x assume x: "x \<in> A"
    show "waitingParents (heap ?ad ! x) + int (count_list [] x) = waits ad A x + int (count_list cs x)"
      "missingParents (heap ?ad ! x) = misses ad x + int (count_list [] x)" "0 \<le> waitingParents (heap ?ad ! x)"
      using counts_invD(3-5) [OF inv x] pos x by (auto simp: h split: if_splits)
  next
    fix x assume "x < length (heap ad)" "x \<notin> A"
    then show "(waits ad A x + int (count_list cs x) = 0 \<and> misses ad x + int (count_list [] x) = 0) \<or> stuck ad A (c # cs) [] x"
      using counts_invD(6) [OF inv, of x] waits_nonneg [of ad A x] by (auto split: if_splits)
  qed (use counts_invD(1,7) [OF inv] ch in auto)
qed

definition leaving :: "('s, 'k) adder \<Rightarrow> nat set \<Rightarrow> nat list \<Rightarrow> bool" where
  "leaving ad A cs \<longleftrightarrow> refs_ok ad \<and> counts_inv ad A cs [] \<and> queue_inv ad A {} \<and> maps_inv ad A"

lemma leaving_notify:
  assumes L: "leaving ad A (c # cs)" and c: "c < length (heap ad)" and s: "notify_child ad c = Some ad'"
  shows "leaving ad' A cs"
proof -
  have refs: "refs_ok ad" and inv: "counts_inv ad A (c # cs) []" and q: "queue_inv ad A {}" and m: "maps_inv ad A" using L by (auto simp: leaving_def)
  let ?ad = "upd_wp c (\<lambda>wp. wp\<lparr>waitingParents := waitingParents wp - 1\<rparr>) ad"
  have s': "sendIfReady ?ad c = Some ad'" using s by (simp add: notify_child_def)
  have refs1: "refs_ok ?ad" using refs by (auto intro!: refs_upd dest: refs_okD(1))
  have inv1: "counts_inv ?ad A cs []" by (rule counts_notify [OF inv c])
  have m1: "maps_inv ?ad A" by (rule maps_cong [OF m _ _ frame_dec counts_invD(1) [OF inv]]) simp_all
  have r: "is_ready ?ad x = is_ready ad x" if "x \<noteq> c" for x using that by (simp add: is_ready_def heap_upd_wp)
  have cr: "wp_creator ?ad x = wp_creator ad x" for x by (simp add: wp_creator_def heap_upd_wp)
  show ?thesis
  proof (cases "c \<in> A")
    case True
    have "\<not> is_ready ad c" using counts_invD(3) [OF inv True] waits_nonneg [of ad A c] by (auto simp: is_ready_def)
    then have "queue_inv ad A {c}" using q unfolding queue_inv_def by (metis Diff_empty Diff_iff singletonD)
    then have "queue_inv ?ad A {c}" by (rule queue_cong) (simp_all add: r cr)
    note Q = queue_sendIfReady [OF this True _ s']
    have "counts_inv ad' A cs []" using Q refs1 by (intro counts_inv_cong [OF inv1]) (auto simp: needed_def)
    moreover have "maps_inv ad' A" using Q m1 by (simp add: maps_inv_def)
    ultimately show ?thesis using Q refs_sendIfReady [OF s' refs1] c by (auto simp: leaving_def)
  next
    case False
    have "stuck ad A (c # cs) [] c" using counts_invD(6) [OF inv c False] waits_nonneg [of ad A c] by auto
    then have "waitingParents (heap ?ad ! c) \<noteq> 0" using waits_nonneg [of ad A c] c by (simp add: stuck_def heap_upd_wp)
    then have "ad' = ?ad" using s' by (simp add: sendIfReady_def Let_def)
    moreover have "is_ready ?ad x = is_ready ad x" if "x \<in> A" for x using r [of x] that False by metis
    then have "queue_inv ?ad A {}" by (intro queue_cong [OF q]) (simp_all add: cr)
    ultimately show ?thesis using refs1 inv1 m1 by (simp add: leaving_def)
  qed
qed

lemma leaving_notify_all:
  "leaving ad A cs \<Longrightarrow> set cs \<subseteq> {..<length (heap ad)} \<Longrightarrow> go_fold notify_child ad cs = Some ad' \<Longrightarrow> leaving ad' A []"
proof (induction cs arbitrary: ad)
  case (Cons c cs)
  obtain ad1 where s: "notify_child ad c = Some ad1" "go_fold notify_child ad1 cs = Some ad'" using Cons.prems(3) by (auto simp: bind_eq_Some_conv)
  have "leaving ad1 A cs" using leaving_notify [OF Cons.prems(1) _ s(1)] Cons.prems(2) by simp
  then show ?case using Cons.IH s(2) Cons.prems(2) frame_length [OF frame_notify_child [OF s(1)]] by simp
qed simp

section \<open>Removing a failed preunit with its descendants\<close>

definition edges :: "('s, 'k) adder \<Rightarrow> (nat \<times> nat) set" where
  "edges ad = {(p, c). p < length (heap ad) \<and> c \<in> set (children (heap ad ! p))}"

definition drop_all :: "('s, 'k) adder \<Rightarrow> nat set \<Rightarrow> ('s, 'k) adder" where
  "drop_all ad C =
     ad\<lparr>waiting := (\<lambda>h. if h \<in> (\<lambda>x. pu_hash (wp_pu (heap ad ! x))) ` C then None else waiting ad h),
        waitingByID := (\<lambda>uid. if uid \<in> (\<lambda>x. wp_id (heap ad ! x)) ` C then None else waitingByID ad uid)\<rparr>"

lemma drop_all_rest [simp]: "heap (drop_all ad C) = heap ad" "edges (drop_all ad C) = edges ad"
  by (simp_all add: drop_all_def edges_def)

lemma drop_waiting_all: "drop_waiting ad r = drop_all ad {r}"
  by (auto simp: drop_waiting_def drop_all_def fun_eq_iff intro: adder.equality)

lemma drop_all_drop_all: "drop_all (drop_all ad C) D = drop_all ad (C \<union> D)"
  by (auto simp: drop_all_def fun_eq_iff intro!: adder.equality)

lemma drop_all_empty: "drop_all ad {} = ad"
  by (simp add: drop_all_def)

lemma rtrancl_Image_step: "E\<^sup>* `` {r} = insert r (\<Union>c \<in> E `` {r}. E\<^sup>* `` {c})"
proof -
  have "x = r \<or> (\<exists>c. (r, c) \<in> E \<and> (c, x) \<in> E\<^sup>*)" if "(r, x) \<in> E\<^sup>*" for x using that by (metis converse_rtranclE)
  then show ?thesis by (auto intro: converse_rtrancl_into_rtrancl)
qed

lemma edges_Image: "r < length (heap ad) \<Longrightarrow> edges ad `` {r} = set (children (heap ad ! r))"
  by (auto simp: edges_def)

lemma removeFailed_eq:
  "removeFailed f (ad :: ('s, 'k) adder) r = Some ad' \<Longrightarrow> refs_ok ad \<Longrightarrow> r < length (heap ad) \<Longrightarrow> ad' = drop_all ad ((edges ad)\<^sup>* `` {r})"
proof (induction f arbitrary: ad r ad')
  case (Suc f)
  let ?E = "edges ad"
  have loop: "a' = drop_all a (\<Union>c \<in> set cs. ?E\<^sup>* `` {c})"
    if "go_fold (removeFailed f) a cs = Some a'" "edges a = ?E" "refs_ok a" "set cs \<subseteq> {..<length (heap a)}" for a a' :: "('s, 'k) adder" and cs
    using that
  proof (induction cs arbitrary: a)
    case (Cons c cs)
    obtain a1 where a1: "removeFailed f a c = Some a1" "go_fold (removeFailed f) a1 cs = Some a'" using Cons.prems(1) by (auto simp: bind_eq_Some_conv)
    have eq: "a1 = drop_all a (?E\<^sup>* `` {c})" using Suc.IH [OF a1(1) Cons.prems(3)] Cons.prems(2,4) by simp
    have "a' = drop_all a1 (\<Union>c \<in> set cs. ?E\<^sup>* `` {c})"
      using Cons.IH [OF a1(2)] Cons.prems(2,4) refs_removeFailed [OF a1(1) Cons.prems(3)] eq by simp
    then show ?case using eq by (simp add: drop_all_drop_all)
  qed (simp add: drop_all_empty)
  have "set (children (heap ad ! r)) \<subseteq> {..<length (heap ad)}" using refs_okD(1) [OF Suc.prems(2,3)] by auto
  then have "ad' = drop_all (drop_all ad {r}) (\<Union>c \<in> set (children (heap ad ! r)). ?E\<^sup>* `` {c})"
    using loop [of "drop_all ad {r}"] Suc.prems(1) refs_drop_waiting [OF Suc.prems(2), of r] by (simp add: drop_waiting_all)
  then show ?case by (simp add: drop_all_drop_all rtrancl_Image_step [of ?E r] edges_Image [OF Suc.prems(3)])
qed simp

lemma go_fold_each:
  assumes "go_fold f s xs = Some s'" "x \<in> set xs" "\<And>s x s'. f s x = Some s' \<Longrightarrow> P s \<Longrightarrow> P s'" "P s"
  shows "\<exists>t t'. P t \<and> f t x = Some t'"
  using assms(1,2,4)
proof (induction xs arbitrary: s)
  case (Cons y ys)
  then show ?case using assms(3) by (auto simp: bind_eq_Some_conv)
qed simp

lemma go_fold_keeps:
  assumes "go_fold f s xs = Some s'" "\<And>s x s'. f s x = Some s' \<Longrightarrow> P s \<Longrightarrow> P s'" "P s"
  shows "P s'"
  using assms(1,3) by (induction xs arbitrary: s) (auto simp: bind_eq_Some_conv intro: assms(2))

lemma removeFailed_heap: "removeFailed f ad r = Some ad' \<Longrightarrow> heap ad' = heap ad"
proof (induction f arbitrary: ad r ad')
  case (Suc f)
  have g: "go_fold (removeFailed f) (drop_waiting ad r) (children (heap ad ! r)) = Some ad'" using Suc.prems by simp
  show ?case
    by (rule go_fold_keeps [OF g, of "\<lambda>s. heap s = heap ad"]) (simp_all add: Suc.IH drop_waiting_def)
qed simp

lemma removeFailed_paths:
  "removeFailed f (ad :: ('s, 'k) adder) r = Some ad' \<Longrightarrow> (r, x) \<in> edges ad ^^ n \<Longrightarrow> n < f"
proof (induction f arbitrary: ad r ad' n)
  case (Suc f)
  show ?case
  proof (cases n)
    case (Suc m)
    then obtain c where c: "(r, c) \<in> edges ad" "(c, x) \<in> edges ad ^^ m" using Suc.prems(2) by (metis relpow_Suc_E2)
    have g: "go_fold (removeFailed f) (drop_waiting ad r) (children (heap ad ! r)) = Some ad'" using Suc.prems by simp
    have "\<exists>(t :: ('s, 'k) adder) t'. heap t = heap ad \<and> removeFailed f t c = Some t'"
      by (rule go_fold_each [OF g, of c "\<lambda>s. heap s = heap ad"]) (use c(1) in \<open>simp_all add: edges_def removeFailed_heap drop_waiting_def\<close>)
    then obtain t t' :: "('s, 'k) adder" where t: "heap t = heap ad" "removeFailed f t c = Some t'" by blast
    have "edges t = edges ad" using t(1) by (simp add: edges_def)
    then show ?thesis using Suc.IH [OF t(2)] c(2) Suc by simp
  qed simp
qed simp

lemma removeFailed_fuel:
  "refs_ok (ad :: ('s, 'k) adder) \<Longrightarrow> r < length (heap ad) \<Longrightarrow> \<forall>x. (r, x) \<in> (edges ad)\<^sup>* \<longrightarrow> (x, x) \<notin> (edges ad)\<^sup>+
    \<Longrightarrow> card ((edges ad)\<^sup>+ `` {r}) < f \<Longrightarrow> \<exists>ad'. removeFailed f ad r = Some ad'"
proof (induction f arbitrary: ad r)
  case (Suc f)
  let ?E = "edges ad"
  have sub: "?E\<^sup>+ `` {x} \<subseteq> {..<length (heap ad)}" for x
  proof
    fix y assume "y \<in> ?E\<^sup>+ `` {x}"
    then obtain z where "(z, y) \<in> ?E" by (auto elim: tranclE)
    then show "y \<in> {..<length (heap ad)}" using refs_okD(1) [OF Suc.prems(1)] by (auto simp: edges_def)
  qed
  have child: "\<exists>a'. removeFailed f a c = Some a'" if c: "c \<in> set (children (heap ad ! r))" and a: "heap a = heap ad" "refs_ok a" for c and a :: "('s, 'k) adder"
  proof -
    have rc: "(r, c) \<in> ?E" using c Suc.prems(2) by (simp add: edges_def)
    have E: "edges a = ?E" using a by (simp add: edges_def)
    have "c \<notin> ?E\<^sup>+ `` {c}" using Suc.prems(3) rc by auto
    moreover have "c \<in> ?E\<^sup>+ `` {r}" "?E\<^sup>+ `` {c} \<subseteq> ?E\<^sup>+ `` {r}" using rc by (auto intro: trancl_into_trancl2)
    ultimately have "?E\<^sup>+ `` {c} \<subset> ?E\<^sup>+ `` {r}" by blast
    then have "card (?E\<^sup>+ `` {c}) < card (?E\<^sup>+ `` {r})" using sub [of r] finite_subset by (intro psubset_card_mono) auto
    then have "card (?E\<^sup>+ `` {c}) < f" using Suc.prems(4) by simp
    moreover have "\<forall>x. (c, x) \<in> ?E\<^sup>* \<longrightarrow> (x, x) \<notin> ?E\<^sup>+" using Suc.prems(3) rc by (meson converse_rtrancl_into_rtrancl)
    ultimately show ?thesis using Suc.IH [of a c] E a refs_okD(1) [OF Suc.prems(1,2) c] by simp
  qed
  have "\<exists>a'. go_fold (removeFailed f) a cs = Some a'"
    if "heap a = heap ad" "refs_ok a" "set cs \<subseteq> set (children (heap ad ! r))" for cs and a :: "('s, 'k) adder"
    using that
  proof (induction cs arbitrary: a)
    case (Cons c cs)
    obtain a1 where "removeFailed f a c = Some a1" using child Cons.prems by force
    then show ?case using Cons.IH [of a1] Cons.prems removeFailed_heap refs_removeFailed by fastforce
  qed simp
  from this [of "drop_waiting ad r" "children (heap ad ! r)"] show ?case
    using refs_drop_waiting [OF Suc.prems(1), of r] by (simp add: drop_waiting_def)
qed simp

text \<open>
  C31: the recursion of \<open>removeFailed\<close> over the children of a failed preunit returns exactly when no cycle of children can
  be reached from it. On a cycle it never returns, whatever the stack: a process whose preunits name each
  other as parents can stop the adder of another one.
\<close>

theorem removeFailed_terminates_iff:
  assumes "refs_ok ad" "r < length (heap ad)"
  shows "(\<exists>f ad'. removeFailed f ad r = Some ad') \<longleftrightarrow> (\<forall>x. (r, x) \<in> (edges ad)\<^sup>* \<longrightarrow> (x, x) \<notin> (edges ad)\<^sup>+)"
proof
  assume "\<exists>f ad'. removeFailed f ad r = Some ad'"
  then obtain f ad' where f: "removeFailed f ad r = Some ad'" by blast
  show "\<forall>x. (r, x) \<in> (edges ad)\<^sup>* \<longrightarrow> (x, x) \<notin> (edges ad)\<^sup>+"
  proof (intro allI impI notI)
    fix x assume x: "(r, x) \<in> (edges ad)\<^sup>*" "(x, x) \<in> (edges ad)\<^sup>+"
    then obtain n k where nk: "(r, x) \<in> edges ad ^^ n" "(x, x) \<in> edges ad ^^ k" "0 < k" by (auto simp: rtrancl_power trancl_power)
    have "(x, x) \<in> edges ad ^^ (k * m)" for m
      by (induction m) (use nk(2) in \<open>auto simp: relpow_add relcomp_unfold\<close>)
    then have "(r, x) \<in> edges ad ^^ (n + k * f)" using nk(1) by (auto simp: relpow_add)
    then have "n + k * f < f" using removeFailed_paths [OF f] by blast
    moreover have "f \<le> k * f" using nk(3) by simp
    ultimately show False by linarith
  qed
next
  assume "\<forall>x. (r, x) \<in> (edges ad)\<^sup>* \<longrightarrow> (x, x) \<notin> (edges ad)\<^sup>+"
  then show "\<exists>f ad'. removeFailed f ad r = Some ad'" using removeFailed_fuel [OF assms] by blast
qed

section \<open>The buffer over a run\<close>

text \<open>What holds when a worker has taken \<open>r\<close> from its channel.\<close>

definition taken :: "('s, 'k) adder \<Rightarrow> nat set \<Rightarrow> nat \<Rightarrow> bool" where
  "taken ad A r \<longleftrightarrow> refs_ok ad \<and> counts_inv ad A [] [] \<and> queue_inv ad A {r} \<and> maps_inv ad A \<and> r \<in> A \<and> is_ready ad r"

lemma maps_drop:
  assumes "maps_inv ad A"
  shows "maps_inv (drop_all ad C) (A - C)"
  using assms unfolding maps_inv_def drop_all_def by (simp split: if_splits) blast

lemma queue_shrink:
  assumes "queue_inv ad A {r}" "A' \<subseteq> A - {r}" "\<And>x. x \<in> A - A' \<Longrightarrow> x \<noteq> r \<Longrightarrow> \<not> is_ready ad x"
  shows "queue_inv ad A' {}"
  using assms unfolding queue_inv_def by (metis DiffD1 DiffD2 DiffI Diff_empty insert_iff singletonD subsetD)

lemma taken_zero:
  assumes "taken ad A r"
  shows "waits ad A r = 0" "misses ad r = 0" "r < length (heap ad)"
  using assms counts_invD(1,3,4) [of ad A "[]" "[]"] by (auto simp: taken_def is_ready_def)

lemma taken_succeeds:
  assumes T: "taken ad A r"
  shows "leaving (drop_waiting ad r) (A - {r}) (children (heap ad ! r))"
proof -
  have inv: "counts_inv ad A [] []" and refs: "refs_ok ad" and rA: "r \<in> A" using T by (auto simp: taken_def)
  note A = counts_invD(1,2) [OF inv] and Z = taken_zero [OF T]
  let ?ad = "drop_waiting ad r" and ?cs = "children (heap ad ! r)"
  have h: "heap ?ad = heap ad" by (simp add: drop_waiting_def)
  have w: "waits ?ad (A - {r}) x + int (count_list ?cs x) = waits ad A x" for x
    unfolding waits_def h using sum.remove [OF A(2) rA, of "\<lambda>p. int (count_list (children (heap ad ! p)) x)"] by simp
  have m: "misses ?ad = misses ad" by (simp add: misses_def needed_def drop_waiting_def fun_eq_iff)
  have st: "stuck ?ad (A - {r}) ?cs [] x = stuck ad A [] [] x" for x unfolding stuck_def w h by simp
  have nst: "\<not> stuck ad A [] [] r" using T Z by (auto simp: stuck_def taken_def is_ready_def)
  have "counts_inv ?ad (A - {r}) ?cs []"
    unfolding counts_inv_def h st w m
  proof (intro conjI ballI allI impI)
    fix x assume x: "x < length (heap ad)" "x \<notin> A - {r}"
    show "(waits ad A x = 0 \<and> misses ad x + int (count_list [] x) = 0) \<or> stuck ad A [] [] x"
      using counts_invD(6) [OF inv x(1)] x(2) Z by (cases "x = r") auto
  next
    fix x c assume x: "x < length (heap ad)" "x \<notin> A - {r}" "stuck ad A [] [] x" "c \<in> set (children (heap ad ! x))"
    then have "x \<notin> A" using nst by auto
    then show "c \<notin> A - {r}" "stuck ad A [] [] c" using counts_invD(7) [OF inv x(1) _ x(3,4)] by auto
  qed (use counts_invD(1,3-5) [OF inv] in auto)
  moreover have "queue_inv ad (A - {r}) {}" using queue_shrink [of ad A r "A - {r}"] T by (auto simp: taken_def)
  then have "queue_inv ?ad (A - {r}) {}" by (rule queue_cong) (simp_all add: drop_waiting_def is_ready_def wp_creator_def)
  moreover have "maps_inv ?ad (A - {r})" using maps_drop T unfolding drop_waiting_all by (auto simp: taken_def)
  ultimately show ?thesis using refs_drop_waiting [OF refs, of r] by (simp add: leaving_def)
qed

text \<open>Below an active preunit that fails, a preunit is active only when its parent on the path is.\<close>

lemma active_parent:
  assumes inv: "counts_inv ad A [] []" and refs: "refs_ok ad" and r: "r \<in> A" and path: "(r, x) \<in> (edges ad)\<^sup>*"
  shows "x \<in> A \<or> (x < length (heap ad) \<and> stuck ad A [] [] x)" and "x \<in> A \<Longrightarrow> x \<noteq> r \<Longrightarrow> \<exists>p \<in> A. (r, p) \<in> (edges ad)\<^sup>* \<and> x \<in> set (children (heap ad ! p))"
proof -
  note A = counts_invD(1,2) [OF inv]
  have inA: "y \<in> A \<or> (y < length (heap ad) \<and> stuck ad A [] [] y)" if "(r, y) \<in> (edges ad)\<^sup>*" for y
    using that
  proof (induction rule: rtrancl_induct)
    case (step p y)
    then have p: "p < length (heap ad)" "y \<in> set (children (heap ad ! p))" by (auto simp: edges_def)
    then have yl: "y < length (heap ad)" using refs_okD(1) [OF refs] by blast
    show ?case
    proof (cases "p \<in> A")
      case True
      have "0 < count_list (children (heap ad ! p)) y" using p(2) by (metis count_list_0_iff gr0I)
      then have "0 < waits ad A y" using waits_ge [OF A(2) True, of ad y] by linarith
      then show ?thesis using counts_invD(6) [OF inv yl] yl by auto
    next
      case False
      then show ?thesis using counts_invD(7) [OF inv p(1) False] step.IH p yl by blast
    qed
  qed (use r in simp)
  then show "x \<in> A \<or> (x < length (heap ad) \<and> stuck ad A [] [] x)" using path .
  assume x: "x \<in> A" "x \<noteq> r"
  then obtain p where p: "(r, p) \<in> (edges ad)\<^sup>*" "(p, x) \<in> edges ad" using path by (metis rtranclE)
  then have c: "p < length (heap ad)" "x \<in> set (children (heap ad ! p))" by (auto simp: edges_def)
  have "p \<in> A" using inA [OF p(1)] counts_invD(7) [OF inv c(1) _ _ c(2)] x(1) by blast
  then show "\<exists>p \<in> A. (r, p) \<in> (edges ad)\<^sup>* \<and> x \<in> set (children (heap ad ! p))" using p(1) c(2) by blast
qed

lemma taken_fails:
  assumes T: "taken ad A r"
  shows "buffer_inv (drop_all ad ((edges ad)\<^sup>* `` {r})) (A - (edges ad)\<^sup>* `` {r})"
proof -
  let ?C = "(edges ad)\<^sup>* `` {r}"
  let ?ad = "drop_all ad ?C"
  have inv: "counts_inv ad A [] []" and refs: "refs_ok ad" and rA: "r \<in> A" using T by (auto simp: taken_def)
  note A = counts_invD(1,2) [OF inv] and Z = taken_zero [OF T]
  have le: "waits ad (A - ?C) x \<le> waits ad A x" for x unfolding waits_def using A(2) by (intro sum_mono2) auto
  have keep: "waits ad (A - ?C) x = waits ad A x" if "x \<notin> ?C" for x
  proof -
    have "x \<notin> set (children (heap ad ! p))" if "p \<in> A \<inter> ?C" for p
    proof
      assume "x \<in> set (children (heap ad ! p))"
      then have "(p, x) \<in> edges ad" using that A by (auto simp: edges_def)
      then have "(r, x) \<in> (edges ad)\<^sup>*" using that by (auto intro: rtrancl_into_rtrancl)
      then show False using \<open>x \<notin> ?C\<close> by simp
    qed
    then have "(\<Sum>p \<in> A \<inter> ?C. int (count_list (children (heap ad ! p)) x)) = 0" by (simp add: count_list_0)
    then show ?thesis using sum.Int_Diff [OF A(2), of "\<lambda>p. int (count_list (children (heap ad ! p)) x)" ?C] by (simp add: waits_def)
  qed
  have gone: "stuck ad (A - ?C) [] [] x" if x: "x \<in> ?C" "x \<noteq> r" for x
  proof (cases "x \<in> A")
    case True
    then obtain p where p: "p \<in> A" "p \<in> ?C" "x \<in> set (children (heap ad ! p))" using active_parent(2) [OF inv refs rA] x by blast
    have "insert p (A - ?C) \<subseteq> A" "p \<notin> A - ?C" "finite (A - ?C)" using p A by auto
    then have "waits ad (A - ?C) x + int (count_list (children (heap ad ! p)) x) \<le> waits ad A x"
      unfolding waits_def using A(2) sum_mono2 [of A "insert p (A - ?C)" "\<lambda>p. int (count_list (children (heap ad ! p)) x)"] by simp
    moreover have "0 < count_list (children (heap ad ! p)) x" using p(3) by (metis count_list_0_iff gr0I)
    ultimately show ?thesis using counts_invD(3) [OF inv True] by (simp add: stuck_def)
  next
    case False
    then show ?thesis using active_parent(1) [OF inv refs rA, of x] x(1) le [of x] by (auto simp: stuck_def)
  qed
  have old: "stuck ad (A - ?C) [] [] x" if "stuck ad A [] [] x" for x using that le [of x] by (simp add: stuck_def)
  have C: "counts_inv ad (A - ?C) [] []"
    unfolding counts_inv_def
  proof (intro conjI ballI allI impI)
    fix x assume x: "x < length (heap ad)" "x \<notin> A - ?C"
    show "(waits ad (A - ?C) x + int (count_list [] x) = 0 \<and> misses ad x + int (count_list [] x) = 0) \<or> stuck ad (A - ?C) [] [] x"
      using x gone [of x] keep [of x] counts_invD(6) [OF inv x(1)] old [of x] Z le [of r] waits_nonneg [of ad "A - ?C" r]
      by (cases "x = r"; cases "x \<in> ?C") auto
  next
    fix x c assume x: "x < length (heap ad)" "x \<notin> A - ?C" "stuck ad (A - ?C) [] [] x" "c \<in> set (children (heap ad ! x))"
    have xc: "(x, c) \<in> edges ad" using x by (simp add: edges_def)
    show "c \<notin> A - ?C" "stuck ad (A - ?C) [] [] c"
    proof -
      have "c \<notin> A - ?C \<and> stuck ad (A - ?C) [] [] c"
      proof (cases "x \<in> ?C")
        case True
        then have cC: "c \<in> ?C" using xc by (auto intro: rtrancl_into_rtrancl)
        show ?thesis
        proof (cases "c = r")
          case True
          have "(r, x) \<in> (edges ad)\<^sup>*" using \<open>x \<in> ?C\<close> by simp
          have "x \<notin> A"
          proof
            assume "x \<in> A"
            then have "int (count_list (children (heap ad ! x)) r) \<le> 0" using waits_ge [OF A(2), of x ad r] Z by simp
            then show False using x(4) True by (simp add: count_list_0_iff)
          qed
          then have "r \<notin> A" using active_parent(1) [OF inv refs rA \<open>(r, x) \<in> (edges ad)\<^sup>*\<close>] counts_invD(7) [OF inv x(1) _ _ x(4)] True by blast
          then show ?thesis using rA by simp
        next
          case False
          then show ?thesis using gone cC by blast
        qed
      next
        case False
        then have "x \<notin> A" "stuck ad A [] [] x" using x(2,3) keep [OF False] by (auto simp: stuck_def)
        then show ?thesis using counts_invD(7) [OF inv x(1) _ _ x(4)] old by blast
      qed
      then show "c \<notin> A - ?C" "stuck ad (A - ?C) [] [] c" by auto
    qed
  qed (use counts_invD(1,3-5) [OF inv] keep in auto)
  have "refs_ok ?ad" using refs unfolding refs_ok_def Let_def by (auto simp: drop_all_def ran_def split: if_splits)
  moreover have "counts_inv ?ad (A - ?C) [] []" using C refs by (intro counts_inv_cong [OF C]) (auto simp: needed_def drop_all_def)
  moreover have "queue_inv ad (A - ?C) {}"
  proof (rule queue_shrink)
    show "queue_inv ad A {r}" using T by (simp add: taken_def)
  next
    fix x assume x: "x \<in> A - (A - ?C)" "x \<noteq> r"
    then have "stuck ad (A - ?C) [] [] x" using gone by blast
    then show "\<not> is_ready ad x" using waits_nonneg [of ad "A - ?C" x] by (auto simp: stuck_def is_ready_def)
  qed auto
  then have "queue_inv ?ad (A - ?C) {}" by (rule queue_cong) (simp_all add: drop_all_def is_ready_def wp_creator_def)
  ultimately show ?thesis using maps_drop T by (auto simp: buffer_inv_def taken_def)
qed

lemma buffer_remove:
  assumes T: "taken ad A r" and s: "remove f ad r = Some ad'"
  shows "\<exists>A'. buffer_inv ad' A'"
proof (cases "failed (heap ad ! r)")
  case True
  then have "removeFailed f ad r = Some ad'" using s by (simp add: remove_def)
  then have "ad' = drop_all ad ((edges ad)\<^sup>* `` {r})" using removeFailed_eq taken_zero(3) [OF T] T unfolding taken_def by blast
  then show ?thesis using taken_fails [OF T] by blast
next
  case False
  then have g: "go_fold notify_child (drop_waiting ad r) (children (heap ad ! r)) = Some ad'" using s by (simp add: remove_def)
  have "set (children (heap ad ! r)) \<subseteq> {..<length (heap (drop_waiting ad r))}"
    using T refs_okD(1) [of ad r] taken_zero(3) [OF T] by (auto simp: taken_def drop_waiting_def)
  then have "leaving ad' (A - {r}) []" using leaving_notify_all [OF taken_succeeds [OF T] _ g] by simp
  then show ?thesis by (auto simp: leaving_def buffer_inv_def)
qed

lemma taken_body:
  assumes T: "taken ad A r" and s: "handle_ready_body mq shake resolve ad r = Some ad'"
  shows "taken ad' A r"
proof -
  have refs: "refs_ok ad" and inv: "counts_inv ad A [] []" using T by (auto simp: taken_def)
  note A = counts_invD(1) [OF inv]
  have "heap ad' = heap ad \<or> heap ad' = heap (set_failed ad r)" and
    same: "needed ad' = needed ad" "ad_ready ad' = ad_ready ad" "waiting ad' = waiting ad" "waitingByID ad' = waitingByID ad" "finished ad' = finished ad" "ad_missing ad' = ad_missing ad"
    using s by (cases rule: handle_ready_body_cases; simp add: set_failed_def needed_def fun_eq_iff)+
  then have h: "children (heap ad' ! x) = children (heap ad ! x) \<and> waitingParents (heap ad' ! x) = waitingParents (heap ad ! x)
      \<and> missingParents (heap ad' ! x) = missingParents (heap ad ! x) \<and> wp_pu (heap ad' ! x) = wp_pu (heap ad ! x) \<and> wp_id (heap ad' ! x) = wp_id (heap ad ! x)"
    and len: "length (heap ad') = length (heap ad)" for x
    by (auto simp: set_failed_def heap_upd_wp)
  have "refs_ok ad'"
    using refs h len same unfolding refs_ok_def Let_def by (simp add: all_set_conv_all_nth)
  moreover have "counts_inv ad' A [] []" using counts_inv_cong [OF inv same(1) len _ refs] h by blast
  moreover have "queue_inv ad A {r}" using T by (simp add: taken_def)
  then have "queue_inv ad' A {r}" by (rule queue_cong) (simp_all add: same h is_ready_def wp_creator_def)
  moreover have "maps_inv ad' A" using T h same by (simp add: taken_def maps_inv_def)
  ultimately show ?thesis using T h by (simp add: taken_def is_ready_def)
qed

lemma buffer_worker:
  assumes inv: "buffer_inv ad A" and s: "worker f mq shake resolve ad pid = Some ad'"
  shows "\<exists>A'. buffer_inv ad' A'"
proof (cases "\<exists>r q. nth_opt (ad_ready ad) pid = Some (Some (r # q))")
  case True
  then obtain r q where q: "nth_opt (ad_ready ad) pid = Some (Some (r # q))" by blast
  let ?ad = "ad\<lparr>ad_ready := (ad_ready ad)[pid := Some q]\<rparr>"
  have refs: "refs_ok ad" and C: "counts_inv ad A [] []" and Q: "queue_inv ad A {}" and M: "maps_inv ad A" using inv by (auto simp: buffer_inv_def)
  have qd: "queued ?ad i x \<longleftrightarrow> (if i = pid then x \<in> set q else queued ad i x)" for i x by (rule queued_update [OF q])
  have head: "queued ad pid r" and tl: "x \<in> set q \<Longrightarrow> queued ad pid x" for x using q by (auto simp: queued_def)
  have "distinct (r # q)" using q Q unfolding queue_inv_def by blast
  then have d: "r \<notin> set q" "distinct q" by auto
  have rd: "r \<in> A" "wp_creator ad r = pid" "is_ready ad r" using Q head by (auto simp: queue_inv_def)
  have same: "is_ready ?ad = is_ready ad" "wp_creator ?ad = wp_creator ad" "finished ?ad = finished ad" by (auto simp: is_ready_def wp_creator_def)
  have queues: "queued ad i x \<Longrightarrow> x \<in> A \<and> wp_creator ad x = i \<and> is_ready ad x" for i x using Q by (simp add: queue_inv_def)
  have "distinct p" if "nth_opt (ad_ready ?ad) i = Some (Some p)" for i p
    using that q Q d(2) unfolding queue_inv_def by (cases "i = pid") (auto simp: nth_opt_def split: if_splits)
  moreover have "x \<in> A - {r} \<and> wp_creator ad x = i \<and> is_ready ad x" if "queued ?ad i x" for i x
    using that queues [of i x] tl [of x] d(1) rd(2) unfolding qd by (auto split: if_splits)
  moreover have "finished ad \<or> queued ?ad (wp_creator ad x) x" if "x \<in> A - {r}" "is_ready ad x" for x
  proof -
    have "finished ad \<or> queued ad (wp_creator ad x) x" using Q that by (simp add: queue_inv_def)
    moreover have "x \<in> set q" if "queued ad pid x" using that q \<open>x \<in> A - {r}\<close> by (auto simp: queued_def)
    ultimately show ?thesis unfolding qd by auto
  qed
  ultimately have Q': "queue_inv ?ad A {r}" unfolding queue_inv_def same by blast
  have "set q \<subseteq> {..<length (heap ad)}" using tl queues counts_invD(1) [OF C] by blast
  then have "set p \<subseteq> {..<length (heap ad)}" if "Some p \<in> set ((ad_ready ad)[pid := Some q])" for p
    using set_update_subset_insert [of "ad_ready ad" pid "Some q"] that refs_okD(3) [OF refs] by (cases "p = q") auto
  then have "refs_ok ?ad" using refs by (simp add: refs_ok_def Let_def)
  moreover have "counts_inv ?ad A [] []" by (rule counts_inv_cong [OF C _ _ _ refs]) (simp_all add: needed_def fun_eq_iff)
  ultimately have T: "taken ?ad A r" using Q' M rd by (simp add: taken_def maps_inv_def same)
  obtain ad1 where "handle_ready_body mq shake resolve ?ad r = Some ad1" "remove f ad1 r = Some ad'"
    using s q by (auto simp: worker_def handleReady_def bind_eq_Some_conv)
  then show ?thesis using buffer_remove taken_body [OF T] by blast
next
  case False
  then have "ad' = ad" using s by (auto simp: worker_def split: option.splits list.splits)
  then show ?thesis using inv by blast
qed

lemma buffer_second_pass:
  "second_pass now src ad ps = Some (errs, ad') \<Longrightarrow> buffer_inv ad A \<Longrightarrow> \<forall>(pu, e) \<in> set ps. no_self_parent pu \<Longrightarrow> \<exists>A'. buffer_inv ad' A'"
proof (induction ps arbitrary: ad errs A)
  case (Cons p ps)
  obtain pu e where p: "p = (pu, e)" by (cases p)
  obtain e' ad1 errs' where s: "(case e of Some err \<Rightarrow> Some (Some err, ad) | None \<Rightarrow> addToWaiting now ad pu src) = Some (e', ad1)"
      "second_pass now src ad1 ps = Some (errs', ad')"
    using Cons.prems(1) unfolding p by (auto simp: bind_eq_Some_conv)
  have "\<exists>A'. buffer_inv ad1 A'"
    using s(1) Cons.prems(2,3) p buffer_addToWaiting [of ad A now pu src e' ad1] by (cases e) auto
  then show ?case using Cons.IH [OF s(2)] Cons.prems(3) by auto
qed auto

lemma buffer_reach:
  assumes "adder_reach verify mq shake rc n no_self_parent ad"
  shows "\<exists>A. buffer_inv ad A"
  using assms
proof (induction rule: adder_reach.induct)
  case (start d len epoch extra s cnf)
  have "buffer_inv (New_adder d s cnf) {}"
    by (auto simp: buffer_inv_def New_adder_def refs_ok_def counts_inv_def queue_inv_def maps_inv_def queued_def nth_opt_def split: if_splits)
  then show ?case by blast
next
  case (add ad pus now source errs ad')
  obtain es where "length es = length pus" "second_pass now source ad (zip pus es) = Some (errs, ad')" using AddPreunits_passes [OF add(3)] by metis
  moreover have "\<forall>(pu, e) \<in> set (zip pus es). no_self_parent pu" using add(2) by (auto dest: set_zip_leftD)
  ultimately show ?case using buffer_second_pass add(4) by blast
next
  case (work ad f pid ad')
  then show ?case using buffer_worker by blast
qed

text \<open>
  C21: the buffer drains. Take an adder after any sequence of preunits whose crowns do not name themselves, of worker
  rounds and failures. If the channels to the workers are empty, no preunit that is needed is missing and the
  relation of children has no cycle, then no preunit is left waiting.
\<close>

theorem adder_drains:
  assumes "adder_reach verify mq shake rc n no_self_parent ad" "\<not> finished ad"
    and channels: "\<forall>q. Some q \<in> set (ad_ready ad) \<longrightarrow> q = []"
    and missing: "\<forall>uid mp. ad_missing ad uid = Some mp \<longrightarrow> neededBy mp = []"
    and cycles: "acyclic (edges ad)"
  shows "waiting ad = Map.empty"
proof -
  obtain A where inv: "buffer_inv ad A" using buffer_reach [OF assms(1)] by blast
  have C: "counts_inv ad A [] []" and Q: "queue_inv ad A {}" and M: "maps_inv ad A" using inv by (auto simp: buffer_inv_def)
  note A = counts_invD(1,2) [OF C]
  have m: "misses ad x = 0" for x using missing by (auto simp: misses_def needed_def split: option.split)
  have nq: "\<not> queued ad i x" for i x
    using channels unfolding queued_def by (metis empty_iff list.set(1) nth_mem nth_opt_Some)
  have up: "\<exists>p \<in> A. (p, x) \<in> edges ad" if "x \<in> A" for x
  proof -
    have "\<not> is_ready ad x" using Q that assms(2) nq by (auto simp: queue_inv_def)
    then have "waits ad A x \<noteq> 0" using counts_invD(3,4) [OF C that] m [of x] by (auto simp: is_ready_def)
    then obtain p where "p \<in> A" "count_list (children (heap ad ! p)) x \<noteq> 0" 
      unfolding waits_def by (auto elim: sum.not_neutral_contains_not_neutral)
    then show ?thesis using A by (auto simp: edges_def count_list_0_iff)
  qed
  have "A = {}"
  proof (rule ccontr)
    assume ne: "A \<noteq> {}"
    let ?E = "edges ad \<inter> A \<times> A"
    have "wf ?E" using A(2) acyclic_subset [OF cycles] by (intro finite_acyclic_wf) (auto intro: finite_subset [of _ "A \<times> A"])
    then obtain x where x: "x \<in> A" "\<And>y. (y, x) \<in> ?E \<Longrightarrow> y \<notin> A" using ne by (metis wfE_min ex_in_conv)
    then show False using up [OF x(1)] by blast
  qed
  then show ?thesis using M unfolding maps_inv_def by (metis empty_iff not_None_eq fun_upd_idem_iff ext)
qed

section \<open>Examples\<close>

text \<open>
  Process 2 of three runs the adder. A unit of process 0 arrives before the two dealing units it is above.
\<close>

definition demo_conf3 :: "unit conf" where
  "demo_conf3 = requiredByLinear\<lparr>NProc := 3, Pid := 2, EpochLength := 5, GossipAbove := 50, FetchInterval := 1, PublicKeys := replicate 3 (Some ())\<rparr>"

definition demo_sum :: "bytes \<Rightarrow> hash" where
  "demo_sum bs = replicate 31 0 @ [sum_list bs]"

definition demo_w :: "u16 \<Rightarrow> int list \<Rightarrow> u8 \<Rightarrow> hash option list \<Rightarrow> preunit" where
  "demo_w c hs h parents = demo_pu c hs h\<lparr>pu_crown := \<lparr>Heights = hs, ControlHash = CombineHashes demo_sum parents\<rparr>\<rparr>"

definition demo_adder :: "(unit, unit) adder" where
  "demo_adder = New_adder (New_dag 3 5 consensusChecks 0) () demo_conf3"

definition demo_waiting :: "(unit, unit) adder go" where
  "demo_waiting =
     do { ad1 \<leftarrow> map_option snd (AddPreunits (\<lambda>_ _. True) 0 demo_adder 0 [demo_w 0 [0, 0, -1] 3 [Some (replicate 32 1), Some (replicate 32 2), None]]);
          ad2 \<leftarrow> map_option snd (AddPreunits (\<lambda>_ _. True) 0 ad1 1 [demo_w 0 [-1, -1, -1] 1 [None, None, None], demo_w 1 [-1, -1, -1] 2 [None, None, None]]);
          ad3 \<leftarrow> worker 9 demo_mq demo_sum (ResolveMissingCommitment (\<lambda>_ _. None)) ad2 0;
          ad4 \<leftarrow> worker 9 demo_mq demo_sum (ResolveMissingCommitment (\<lambda>_ _. None)) ad3 1;
          worker 9 demo_mq demo_sum (ResolveMissingCommitment (\<lambda>_ _. None)) ad4 0 }"

lemma demo_waiting_eval:
  "map_option (\<lambda>ad. (ad_ready ad, map children (heap ad), finished ad, map (\<lambda>wp. (waitingParents wp, missingParents wp)) (heap ad))) demo_waiting
     = Some ([Some [], Some [], None], [[], [0], [0]], False, [(0, 0), (0, 0), (0, 0)])"
  by code_simp

lemma demo_waiting_good:
  "\<forall>pu \<in> set [demo_w 0 [0, 0, -1] 3 ps, demo_w 0 [-1, -1, -1] 1 qs, demo_w 1 [-1, -1, -1] 2 qs]. built pu \<and> no_self_parent pu"
  by (simp add: demo_w_def demo_pu_def built_def no_self_parent_def UnitID_def ID_def enumerate_eq_zip)

lemma demo_waiting_reach:
  assumes "demo_waiting = Some ad"
  shows "adder_reach (\<lambda>_ _. True) demo_mq demo_sum (\<lambda>_ _. None) 3 no_self_parent ad"
proof -
  let ?R = "adder_reach (\<lambda>_ _. True) demo_mq demo_sum (\<lambda>_ _. None) 3 no_self_parent :: (unit, unit) adder \<Rightarrow> bool"
  have 0: "?R demo_adder"
    unfolding demo_adder_def by (rule adder_reach.start [of _ _ 5 0 "[]"]) (simp_all add: New_dag_def)
  obtain e1 ad1 e2 ad2 ad3 ad4 where s:
      "AddPreunits (\<lambda>_ _. True) 0 demo_adder 0 [demo_w 0 [0, 0, -1] 3 [Some (replicate 32 1), Some (replicate 32 2), None]] = Some (e1, ad1)"
      "AddPreunits (\<lambda>_ _. True) 0 ad1 1 [demo_w 0 [-1, -1, -1] 1 [None, None, None], demo_w 1 [-1, -1, -1] 2 [None, None, None]] = Some (e2, ad2)"
      "worker 9 demo_mq demo_sum (ResolveMissingCommitment (\<lambda>_ _. None)) ad2 0 = Some ad3"
      "worker 9 demo_mq demo_sum (ResolveMissingCommitment (\<lambda>_ _. None)) ad3 1 = Some ad4"
      "worker 9 demo_mq demo_sum (ResolveMissingCommitment (\<lambda>_ _. None)) ad4 0 = Some ad"
    using assms unfolding demo_waiting_def bind_eq_Some_conv by (elim exE conjE) (auto simp only: map_option_eq_Some snd_conv)
  note G = demo_waiting_good [of "[Some (replicate 32 1), Some (replicate 32 2), None]" "[None, None, None]"]
  have "?R ad1" by (rule adder_reach.add [OF 0 _ s(1)]) (use G in simp)
  then have "?R ad2" by (rule adder_reach.add [OF _ _ s(2)]) (use G in simp)
  then show ?thesis using adder_reach.work s(3-5) by metis
qed

text \<open>When no preunit ever misses a parent, none is needed.\<close>

lemma nothing_needed:
  assumes inv: "buffer_inv ad A" and ready: "\<forall>x < length (heap ad). is_ready ad x" and m: "ad_missing ad uid = Some mp"
  shows "neededBy mp = []"
proof (rule ccontr)
  assume "neededBy mp \<noteq> []"
  then obtain x where x: "x \<in> set (needed ad uid)" using m by (cases "neededBy mp") (auto simp: needed_def)
  have C: "counts_inv ad A [] []" and R: "refs_ok ad" using inv by (auto simp: buffer_inv_def)
  have xl: "x < length (heap ad)" using refs_okD(2) [OF R m] x m by (simp add: needed_def)
  have "misses ad x = 0"
    using counts_invD(4) [OF C, of x] counts_invD(6) [OF C xl] ready xl waits_nonneg [of ad A x] by (cases "x \<in> A") (auto simp: is_ready_def stuck_def)
  moreover have "int (count_list (needed ad uid) x) \<le> misses ad x" unfolding misses_def by (rule member_le_sum) auto
  ultimately show False using x by (simp add: count_list_0_iff)
qed

theorem adder_drains_witness: "\<exists>ad. demo_waiting = Some ad \<and> length (heap ad) = 3 \<and> waiting ad = Map.empty"
proof -
  obtain ad where ad: "demo_waiting = Some ad" "ad_ready ad = [Some [], Some [], None]" "map children (heap ad) = [[], [0], [0]]" "\<not> finished ad"
      "map (\<lambda>wp. (waitingParents wp, missingParents wp)) (heap ad) = [(0, 0), (0, 0), (0, 0)]"
    using demo_waiting_eval by auto
  have len: "length (heap ad) = 3" using arg_cong [OF ad(3), of length] by simp
  have reach: "adder_reach (\<lambda>_ _. True) demo_mq demo_sum (\<lambda>_ _. None) 3 no_self_parent ad" by (rule demo_waiting_reach [OF ad(1)])
  obtain A where inv: "buffer_inv ad A" using buffer_reach [OF reach] by blast
  have z: "(waitingParents (heap ad ! x), missingParents (heap ad ! x)) = [(0, 0), (0, 0), (0, 0)] ! x" if "x < 3" for x
    using ad(5) that len nth_map [of x "heap ad" "\<lambda>wp. (waitingParents wp, missingParents wp)"] by simp
  have "is_ready ad x" if "x < length (heap ad)" for x
    using z [of x] that len by (auto simp: is_ready_def numeral_3_eq_3 less_Suc_eq)
  then have m: "\<forall>uid mp. ad_missing ad uid = Some mp \<longrightarrow> neededBy mp = []" using nothing_needed [OF inv] by blast
  have c: "children (heap ad ! x) = [[], [0], [0]] ! x" if "x < 3" for x using ad(3) that len nth_map [of x "heap ad" children] by simp
  have "y < x" if "(x, y) \<in> edges ad" for x y
  proof -
    have x: "x < 3" "y \<in> set ([[], [0], [0]] ! x)" using that len c [of x] by (simp_all add: edges_def)
    then consider "x = 0" | "x = 1" | "x = 2" by linarith
    then show ?thesis using x(2) by cases simp_all
  qed
  then have "edges ad \<subseteq> less_than\<inverse>" by auto
  then have "acyclic (edges ad)" using acyclic_subset wf_acyclic [OF wf_less_than] acyclic_converse by metis
  then show ?thesis using adder_drains [OF reach ad(4) _ m] ad(1,2) len by auto
qed

theorem adder_dag_reachable_witness:
  "\<exists>ad es. demo_waiting = Some ad \<and> dag_reach demo_mq 3 (core (ad_dag ad)) es"
proof -
  obtain ad where ad: "demo_waiting = Some ad" using demo_waiting_eval by auto
  have "0 < demo_mq 3" by code_simp
  then show ?thesis using adder_dag_reachable [OF demo_waiting_reach [OF ad]] ad by blast
qed

text \<open>
  Two processes that name a unit of each other as a parent. The dealing unit \<open>demo_w 0 [-1, -1, -1] 1 [Some [1]]\<close> of process 0
  has a wrong control hash; when its worker removes it together with its descendants, the recursion
  does not end.
\<close>

definition demo_cycle :: "(unit, unit) adder go" where
  "demo_cycle =
     map_option snd (AddPreunits (\<lambda>_ _. True) 0 demo_adder 0
       [demo_w 0 [-1, -1, -1] 1 [Some [1]], demo_w 0 [0, 1, -1] 3 [], demo_w 1 [1, 0, -1] 4 []])"

lemma demo_cycle_eval:
  "do { ad \<leftarrow> demo_cycle;
        Some (nth_opt (ad_ready ad) 0,
          map_option (\<lambda>a. (map children (heap a), failed (heap a ! 0)))
            (handle_ready_body demo_mq demo_sum (ResolveMissingCommitment (\<lambda>_ _. None)) (ad\<lparr>ad_ready := (ad_ready ad)[0 := Some []]\<rparr>) 0)) }
     = Some (Some (Some [0]), Some ([[1], [2], [1]], True))"
  by code_simp

theorem removeFailed_terminates_iff_witness:
  "\<exists>ad. demo_cycle = Some ad \<and> (\<forall>f. worker f demo_mq demo_sum (ResolveMissingCommitment (\<lambda>_ _. None)) ad 0 = None)"
proof -
  let ?body = "handle_ready_body demo_mq demo_sum (ResolveMissingCommitment (\<lambda>_ _. None))"
  obtain ad where ad0: "demo_cycle = Some ad" using demo_cycle_eval by (cases demo_cycle) (simp_all only: bind.simps(1) option.distinct)
  have "nth_opt (ad_ready ad) 0 = Some (Some [0]) \<and>
      map_option (\<lambda>a. (map children (heap a), failed (heap a ! 0))) (?body (ad\<lparr>ad_ready := (ad_ready ad)[0 := Some []]\<rparr>) 0) = Some ([[1], [2], [1]], True)"
    using demo_cycle_eval unfolding ad0 bind.simps(2) option.inject prod.inject .
  note ad = ad0 this [THEN conjunct1] this [THEN conjunct2]
  from ad(3) obtain a where a: "?body (ad\<lparr>ad_ready := (ad_ready ad)[0 := Some []]\<rparr>) 0 = Some a" "map children (heap a) = [[1], [2], [1]]" "failed (heap a ! 0)"
    by auto
  have len: "length (heap a) = 3" using arg_cong [OF a(2), of length] by simp
  have c: "children (heap a ! x) = [[1], [2], [1]] ! x" if "x < 3" for x using a(2) that len nth_map [of x "heap a" children] by simp
  have reach: "adder_reach (\<lambda>_ _. True) demo_mq demo_sum (\<lambda>_ _. None) 3 (\<lambda>_. True) ad"
  proof -
    have 0: "adder_reach (\<lambda>_ _. True) demo_mq demo_sum (\<lambda>_ _. None) 3 (\<lambda>_. True) demo_adder"
      unfolding demo_adder_def by (rule adder_reach.start [of _ _ 5 0 "[]"]) (simp_all add: New_dag_def)
    obtain e where "AddPreunits (\<lambda>_ _. True) 0 demo_adder 0
       [demo_w 0 [-1, -1, -1] 1 [Some [1]], demo_w 0 [0, 1, -1] 3 [], demo_w 1 [1, 0, -1] 4 []] = Some (e, ad)"
      using ad(1) unfolding demo_cycle_def by auto
    from adder_reach.add [OF 0 _ this] show ?thesis by (simp add: demo_w_def demo_pu_def built_def)
  qed
  have "0 < demo_mq 3" by code_simp
  note T = adder_ok_take [OF adder_reach_ok [OF reach this] ad(2)]
  have refs: "refs_ok a" using handle_ready_body_ok [OF a(1) T(1)] T(2) by (simp add: adder_ok_def)
  have e: "(0, 1) \<in> edges a" "(1, 2) \<in> edges a" "(2, 1) \<in> edges a" using c [of 0] c [of 1] c [of 2] len by (auto simp: edges_def numeral_2_eq_2)
  then have "(1, 1) \<in> (edges a)\<^sup>+" by (metis trancl.simps)
  then have "\<not> (\<exists>f ad'. removeFailed f a 0 = Some ad')"
    using removeFailed_terminates_iff [OF refs, of 0] e(1) len by auto
  then have "removeFailed f a 0 = None" for f by (metis option.exhaust)
  then have "worker f demo_mq demo_sum (ResolveMissingCommitment (\<lambda>_ _. None)) ad 0 = None" for f
    using ad(2) a by (simp add: worker_def handleReady_def remove_def)
  then show ?thesis using ad(1) by blast
qed

section \<open>Crowns that are too long\<close>

lemma go_fold_None: "x \<in> set xs \<Longrightarrow> (\<And>s. f s x = None) \<Longrightarrow> go_fold f s xs = None"
proof (induction xs arbitrary: s)
  case (Cons y ys)
  then show ?case by (cases "f s y") auto
qed simp

text \<open>
  \<open>checkCorrectness\<close> does not look at the crown. A preunit that passes it and is not known yet makes \<open>AddPreunits\<close>
  panic, by an index out of range in \<open>checkParents\<close>, when its crown names more processes than the committee has.
\<close>

theorem AddPreunits_long_crown:
  assumes "checkCorrectness verify ad pu = Some None" "GetUnit (core (ad_dag ad)) (pu_hash pu) = None" "waiting ad (pu_hash pu) = None"
    "length (di_Heights (MaxView (core (ad_dag ad)))) < length (Heights (pu_crown pu))"
  shows "AddPreunits verify now ad source [pu] = None"
proof -
  let ?mh = "di_Heights (MaxView (core (ad_dag ad)))"
  let ?hs = "Heights (pu_crown pu)"
  have mem: "(length ?mh, ?hs ! length ?mh) \<in> set (enumerate 0 ?hs)"
    using assms(4) by (auto simp: in_set_conv_nth nth_enumerate_eq intro!: exI [of _ "length ?mh"])
  have "go_fold (check_parent e ?mh r) s (enumerate 0 ?hs) = None" for e r and s :: "('b, 'a) adder"
    by (rule go_fold_None [OF mem]) (simp add: check_parent_def nth_opt_def)
  then have cp: "checkParents (enter ad pu source fk) (length (heap ad)) = None" for fk
    by (simp add: checkParents_def Let_def enter_def fresh_wp_def)
  have "addToWaiting now ad pu source = None"
  proof (rule ccontr)
    assume "addToWaiting now ad pu source \<noteq> None"
    then obtain e ad' where a: "addToWaiting now ad pu source = Some (e, ad')" by auto
    then show False
    proof (cases rule: addToWaiting_cases)
    qed (use cp assms(2,3) in simp_all)
  qed
  moreover have "GetUnits (core (ad_dag ad)) [Some (pu_hash pu)] = [None]"
    using assms(2) by (simp add: GetUnits_def getMany_def GetUnit_def getOne_def)
  ultimately show ?thesis using assms(1) by (simp add: AddPreunits_def first_pass_def)
qed

theorem AddPreunits_long_crown_witness:
  "AddPreunits (\<lambda>_ _. True) 0 demo_adder 0 [demo_pu 0 [-1, -1, -1, -1] 1] = None"
proof -
  have "checkCorrectness (\<lambda>_ _. True) demo_adder (demo_pu 0 [-1, -1, -1, -1] 1) = Some None"
    "GetUnit (core (ad_dag demo_adder)) (pu_hash (demo_pu 0 [-1, -1, -1, -1] 1)) = None"
    "waiting demo_adder (pu_hash (demo_pu 0 [-1, -1, -1, -1] 1)) = None"
    "length (di_Heights (MaxView (core (ad_dag demo_adder)))) < length (Heights (pu_crown (demo_pu 0 [-1, -1, -1, -1] 1)))"
    by code_simp+
  then show ?thesis by (rule AddPreunits_long_crown)
qed

end
