(* ===== verification/Orderer.thy ===== *)
theory Orderer
  imports Buffer Proofs
begin

text \<open>
  The orderer (\<open>pkg/orderer\<close>): the current and the previous epoch, each with its dag and adder, and the loop that
  turns ordered rounds into preblocks. An epoch's dag is the one of its adder, to which both the
  epoch and the adder point; \<open>slot\<close> says which of the two epochs a function returns a pointer to. The channels to other
  goroutines are recorded as lists: the units an epoch puts on the belt, the preblocks, the last timing units and
  the gossip requests. Random sources are a parameter (\<open>nrs\<close>), what they register with the dag.
\<close>

section \<open>Epochs\<close>

record 'r ep_hooks =
  hk_trigger :: bool
  hk_belt :: "Unit list"
  hk_rs :: 'r

record ('r, 'k) epoch =
  ep_id :: EpochID
  ep_adder :: "('r ep_hooks, 'k) adder"
  ep_more_closed :: bool

abbreviation ep_dag :: "('r, 'k) epoch \<Rightarrow> dagcore" where
  "ep_dag ep \<equiv> core (ad_dag (ep_adder ep))"

text \<open>\<open>ExtenderService.Notify\<close>: a send on a channel with one slot that does not block.\<close>

definition Notify_hook :: "'r ep_hooks InsertHook" where
  "Notify_hook u d s = s\<lparr>hk_trigger := True\<rparr>"

definition belt_hook :: "u16 \<Rightarrow> 'r ep_hooks InsertHook" where
  "belt_hook pid u d s = (if Creator u \<noteq> pid then s\<lparr>hk_belt := hk_belt s @ [u]\<rparr> else s)"

definition newEpoch_ep ::
  "('r ep_hooks dag \<Rightarrow> 'r ep_hooks dag \<times> 'r) \<Rightarrow> EpochID \<Rightarrow> 'k conf \<Rightarrow> ('r, 'k) epoch" where
  "newEpoch_ep nrs eid cnf =
     (let dg = New_dag (NProc cnf) (EpochLength cnf) (map snd (conf_Checks cnf)) eid;
          (dg1, rs) = nrs dg;
          dg2 = AfterInsert dg1 Notify_hook;
          dg3 = AfterInsert dg2 (belt_hook (Pid cnf))
      in \<lparr>ep_id = eid, ep_adder = New_adder dg3 \<lparr>hk_trigger = False, hk_belt = [], hk_rs = rs\<rparr> cnf, ep_more_closed = False\<rparr>)"

definition Close_ep :: "('r, 'k) epoch \<Rightarrow> ('r, 'k) epoch go" where
  "Close_ep ep = do { ad \<leftarrow> Close (ep_adder ep); Some (ep\<lparr>ep_adder := ad\<rparr>) }"

definition unitsAbove_ep :: "('r, 'k) epoch \<Rightarrow> int list \<Rightarrow> Unit list go" where
  "unitsAbove_ep ep heights = UnitsAbove (ep_dag ep) (Some heights)"

definition allUnits :: "('r, 'k) epoch \<Rightarrow> Unit list go" where
  "allUnits ep = UnitsAbove (ep_dag ep) None"

text \<open>A receive from a channel that is never sent to succeeds exactly when it is closed.\<close>

definition WantsMoreUnits :: "('r, 'k) epoch \<Rightarrow> bool" where
  "WantsMoreUnits ep = ep_more_closed ep"

definition NoMoreUnits :: "('r, 'k) epoch \<Rightarrow> ('r, 'k) epoch go" where
  "NoMoreUnits ep = (if ep_more_closed ep then None else Some (ep\<lparr>ep_more_closed := True\<rparr>))"

section \<open>The orderer\<close>

datatype slot = Current | Previous

record ('r, 'k) orderer =
  ord_conf :: "'k conf"
  ord_current :: "('r, 'k) epoch option"
  ord_previous :: "('r, 'k) epoch option"
  ord_gossip :: "u16 list"
  ord_preblocks :: "Unit list list"
  ord_lastTiming :: "Unit list"
  ord_multicast :: "Unit list"
  ord_ticking :: bool
  ord_round_epoch :: EpochID

definition New_orderer :: "'k conf \<Rightarrow> ('r, 'k) orderer" where
  "New_orderer cnf =
     \<lparr>ord_conf = cnf, ord_current = None, ord_previous = None, ord_gossip = [], ord_preblocks = [], ord_lastTiming = [],
      ord_multicast = [], ord_ticking = False, ord_round_epoch = 0\<rparr>"

definition deref :: "('r, 'k) orderer \<Rightarrow> slot \<Rightarrow> ('r, 'k) epoch go" where
  "deref ord s = (case s of Current \<Rightarrow> ord_current ord | Previous \<Rightarrow> ord_previous ord)"

definition assign :: "('r, 'k) orderer \<Rightarrow> slot \<Rightarrow> ('r, 'k) epoch \<Rightarrow> ('r, 'k) orderer" where
  "assign ord s ep = (case s of Current \<Rightarrow> ord\<lparr>ord_current := Some ep\<rparr> | Previous \<Rightarrow> ord\<lparr>ord_previous := Some ep\<rparr>)"

definition getEpoch :: "('r, 'k) orderer \<Rightarrow> EpochID \<Rightarrow> (slot option \<times> bool) go" where
  "getEpoch ord e =
     (case ord_current ord of
        None \<Rightarrow> Some (None, True)
      | Some c \<Rightarrow>
          if e > ep_id c then Some (None, True)
          else if e = ep_id c then Some (Some Current, False)
          else do { p \<leftarrow> ord_previous ord;
                    if e = ep_id p then Some (Some Previous, False) else Some (None, False) })"

definition newEpoch_ord ::
  "('r ep_hooks dag \<Rightarrow> 'r ep_hooks dag \<times> 'r) \<Rightarrow> ('r, 'k) orderer \<Rightarrow> EpochID \<Rightarrow> (slot option \<times> ('r, 'k) orderer) go" where
  "newEpoch_ord nrs ord e =
     (if (case ord_current ord of None \<Rightarrow> True | Some c \<Rightarrow> e > ep_id c) then
        do { _ \<leftarrow> (case ord_previous ord of None \<Rightarrow> Some () | Some p \<Rightarrow> map_option (\<lambda>_. ()) (Close_ep p));
             Some (Some Current, ord\<lparr>ord_previous := ord_current ord, ord_current := Some (newEpoch_ep nrs e (ord_conf ord))\<rparr>) }
      else do { c \<leftarrow> ord_current ord;
                if e = ep_id c then Some (Some Current, ord)
                else do { p \<leftarrow> ord_previous ord;
                          if e = ep_id p then Some (Some Previous, ord) else Some (None, ord) } })"

definition retrieveEpoch ::
  "('sh, 'sg) tss \<Rightarrow> ('sh, 'sg) wtk option \<Rightarrow> ('r ep_hooks dag \<Rightarrow> 'r ep_hooks dag \<times> 'r) \<Rightarrow> ('r, 'k) orderer \<Rightarrow> preunit \<Rightarrow> u16 \<Rightarrow> (slot option \<times> ('r, 'k) orderer) go" where
  "retrieveEpoch t wtk nrs ord pu source =
     do { (epoch, fromFuture) \<leftarrow> getEpoch ord (pu_epochID pu);
          if fromFuture then
            do { ok \<leftarrow> EpochProof t pu wtk;
                 if ok then newEpoch_ord nrs ord (pu_epochID pu)
                 else Some (epoch, ord\<lparr>ord_gossip := ord_gossip ord @ [source]\<rparr>) }
          else Some (epoch, ord) }"

text \<open>\<open>AddPreunits\<close>; the errors of preunits of unknown epochs stay nil.\<close>

function ord_AddPreunits ::
  "('sh, 'sg) tss \<Rightarrow> ('sh, 'sg) wtk option \<Rightarrow> ('r ep_hooks dag \<Rightarrow> 'r ep_hooks dag \<times> 'r) \<Rightarrow> ('k \<Rightarrow> preunit \<Rightarrow> bool) \<Rightarrow> int \<Rightarrow> u16
   \<Rightarrow> ('r, 'k) orderer \<Rightarrow> preunit list \<Rightarrow> (gerror option list \<times> ('r, 'k) orderer) go" where
  "ord_AddPreunits t wtk nrs verify now source ord [] = Some ([], ord)"
| "ord_AddPreunits t wtk nrs verify now source ord (pu # pus) =
     (let group = pu # takeWhile (\<lambda>v. pu_epochID v = pu_epochID pu) pus;
          rest = dropWhile (\<lambda>v. pu_epochID v = pu_epochID pu) pus
      in do { (epoch, ord1) \<leftarrow> retrieveEpoch t wtk nrs ord pu source;
              (errs, ord2) \<leftarrow> (case epoch of
                 None \<Rightarrow> Some (replicate (length group) None, ord1)
               | Some s \<Rightarrow> do { ep \<leftarrow> deref ord1 s;
                                (errs, ad) \<leftarrow> AddPreunits verify now (ep_adder ep) source group;
                                Some (errs, assign ord1 s (ep\<lparr>ep_adder := ad\<rparr>)) });
              (errs', ord3) \<leftarrow> ord_AddPreunits t wtk nrs verify now source ord2 rest;
              Some (errs @ errs', ord3) })"
  by pat_completeness auto
termination
  by (relation "measure (\<lambda>(t, wtk, nrs, verify, now, source, ord, pus). length pus)") (auto simp: le_imp_less_Suc length_dropWhile_le)

fun UnitsByID :: "('r, 'k) orderer \<Rightarrow> u64 list \<Rightarrow> Unit list go" where
  "UnitsByID ord [] = Some []"
| "UnitsByID ord (uid # ids) =
     (case DecodeID uid of (_, _, epoch) \<Rightarrow>
        do { (s, _) \<leftarrow> getEpoch ord epoch;
             us \<leftarrow> (case s of None \<Rightarrow> Some [] | Some s \<Rightarrow> do { ep \<leftarrow> deref ord s; Some (GetByID (ep_dag ep) uid) });
             rest \<leftarrow> UnitsByID ord ids;
             Some (us @ rest) })"

definition UnitsByHash :: "('r, 'k) orderer \<Rightarrow> hash list \<Rightarrow> Unit option list" where
  "UnitsByHash ord hashes =
     (let result = (case ord_current ord of
                      Some c \<Rightarrow> GetUnits (ep_dag c) (map Some hashes)
                    | None \<Rightarrow> replicate (length hashes) None)
      in case ord_previous ord of
           None \<Rightarrow> result
         | Some p \<Rightarrow> map (\<lambda>(u, h). case u of None \<Rightarrow> GetUnit (ep_dag p) h | Some v \<Rightarrow> Some v) (zip result hashes))"

definition MaxUnits :: "('r, 'k) orderer \<Rightarrow> EpochID \<Rightarrow> slottedUnits option go" where
  "MaxUnits ord e =
     do { (s, _) \<leftarrow> getEpoch ord e;
          case s of
            None \<Rightarrow> Some None
          | Some s \<Rightarrow> do { ep \<leftarrow> deref ord s; Some (Some (MaximalUnitsPerProcess (ep_dag ep))) } }"

definition GetInfo :: "('r, 'k) orderer \<Rightarrow> DagInfo option \<times> DagInfo option" where
  "GetInfo ord =
     ((case ord_previous ord of None \<Rightarrow> None | Some p \<Rightarrow> if \<not> WantsMoreUnits p then Some (MaxView (ep_dag p)) else None),
      (case ord_current ord of None \<Rightarrow> None | Some c \<Rightarrow> if \<not> WantsMoreUnits c then Some (MaxView (ep_dag c)) else None))"

definition above_in :: "('r, 'k) epoch option \<Rightarrow> DagInfo \<Rightarrow> Unit list go" where
  "above_in ep dagInfo =
     (case ep of None \<Rightarrow> Some [] | Some e \<Rightarrow> if di_Epoch dagInfo = ep_id e then unitsAbove_ep e (di_Heights dagInfo) else Some [])"

definition deltaResolver :: "('r, 'k) orderer \<Rightarrow> DagInfo option \<Rightarrow> Unit list go" where
  "deltaResolver ord info =
     (case info of
        None \<Rightarrow> Some []
      | Some dagInfo \<Rightarrow> do { p \<leftarrow> above_in (ord_previous ord) dagInfo; c \<leftarrow> above_in (ord_current ord) dagInfo; Some (p @ c) })"

definition Delta :: "('r, 'k) orderer \<Rightarrow> DagInfo option \<times> DagInfo option \<Rightarrow> Unit list go" where
  "Delta ord info =
     do { r0 \<leftarrow> deltaResolver ord (fst info);
          r1 \<leftarrow> deltaResolver ord (snd info);
          newer \<leftarrow> (case ord_current ord of
             None \<Rightarrow> Some []
           | Some c \<Rightarrow> (case info of
                (Some i0, Some i1) \<Rightarrow> if di_Epoch i0 < ep_id c \<and> di_Epoch i1 < ep_id c then allUnits c else Some []
              | _ \<Rightarrow> Some []));
          Some (r0 @ r1 @ newer) }"

definition finishEpoch :: "('r, 'k) orderer \<Rightarrow> EpochID \<Rightarrow> ('r, 'k) orderer go" where
  "finishEpoch ord e =
     do { (s, _) \<leftarrow> getEpoch ord e;
          case s of
            None \<Rightarrow> Some ord
          | Some s \<Rightarrow> do { ep \<leftarrow> deref ord s; ep' \<leftarrow> NoMoreUnits ep; Some (assign ord s ep') } }"

definition insert_own :: "('r ep_hooks dag \<Rightarrow> 'r ep_hooks dag \<times> 'r) \<Rightarrow> ('r, 'k) orderer \<Rightarrow> Unit \<Rightarrow> ('r, 'k) orderer go" where
  "insert_own nrs ord u =
     (if Creator u \<noteq> Pid (ord_conf ord) then Some ord
      else do { (s, newer) \<leftarrow> getEpoch ord (Epoch u);
                (s', ord1) \<leftarrow> (if newer then newEpoch_ord nrs ord (Epoch u) else Some (s, ord));
                case s' of
                  None \<Rightarrow> Some ord1
                | Some s \<Rightarrow> do { ep \<leftarrow> deref ord1 s;
                                 let ad = ep_adder ep;
                                 (d, h) \<leftarrow> Insert (ad_dag ad) u (ad_hooks ad);
                                 Some (assign ord1 s (ep\<lparr>ep_adder := ad\<lparr>ad_dag := d, ad_hooks := h\<rparr>\<rparr>)) } })"

definition send_own :: "('r ep_hooks dag \<Rightarrow> 'r ep_hooks dag \<times> 'r) \<Rightarrow> ('r, 'k) orderer \<Rightarrow> Unit \<Rightarrow> ('r, 'k) orderer go" where
  "send_own nrs ord u = do { ord1 \<leftarrow> insert_own nrs ord u; Some (ord1\<lparr>ord_multicast := ord_multicast ord1 @ [u]\<rparr>) }"

text \<open>\<open>dealing\<close> and \<open>include\<close> are \<open>DealingData\<close> and \<open>DataToInclude\<close> of the random source.\<close>

definition rsData_ord ::
  "(EpochID \<Rightarrow> gerror + bytes) \<Rightarrow> ('r \<Rightarrow> Unit option list \<Rightarrow> int \<Rightarrow> gerror + bytes) \<Rightarrow> ('r, 'k) orderer \<Rightarrow> int \<Rightarrow> Unit option list \<Rightarrow> EpochID \<Rightarrow> bytes go" where
  "rsData_ord dealing incl ord level parents e =
     do { r \<leftarrow> (if level = 0 then Some (dealing e)
               else do { (s, _) \<leftarrow> getEpoch ord e;
                         case s of
                           None \<Rightarrow> Some (Inl (DataError ''unknown epoch''))
                         | Some s \<Rightarrow> do { ep \<leftarrow> deref ord s; Some (incl (hk_rs (ad_hooks (ep_adder ep))) parents level) } });
          Some (case r of Inl _ \<Rightarrow> [] | Inr bs \<Rightarrow> bs) }"

text \<open>The body of the loop of \<open>handleTimingRounds\<close>; its variable \<open>current\<close> is \<open>ord_round_epoch\<close>.\<close>

definition handle_round :: "('r, 'k) orderer \<Rightarrow> Unit list \<Rightarrow> ('r, 'k) orderer go" where
  "handle_round ord round =
     (if round = [] then None
      else let timingUnit = List.last round; epoch = Epoch timingUnit in
           do { ord1 \<leftarrow> (if Level timingUnit = LastLevel (ord_conf ord) then
                           do { o1 \<leftarrow> finishEpoch (ord\<lparr>ord_lastTiming := ord_lastTiming ord @ [timingUnit]\<rparr>) epoch;
                                Some (if int (unat epoch) = NumberOfEpochs (ord_conf ord) - 1 then o1\<lparr>ord_ticking := False\<rparr> else o1) }
                         else Some ord);
                let ord2 = (if epoch \<ge> ord_round_epoch ord1 \<and> Level timingUnit \<le> LastLevel (ord_conf ord1)
                            then ord1\<lparr>ord_preblocks := ord_preblocks ord1 @ [round]\<rparr> else ord1);
                Some (ord2\<lparr>ord_round_epoch := epoch\<rparr>) })"

definition handleTimingRounds :: "('r, 'k) orderer \<Rightarrow> Unit list list \<Rightarrow> ('r, 'k) orderer go" where
  "handleTimingRounds ord rounds = go_fold handle_round ord rounds"

text \<open>What \<open>Start\<close> does to the state before it starts the services.\<close>

definition Start :: "('r ep_hooks dag \<Rightarrow> 'r ep_hooks dag \<times> 'r) \<Rightarrow> ('r, 'k) orderer \<Rightarrow> ('r, 'k) orderer go" where
  "Start nrs ord = do { (_, ord1) \<leftarrow> newEpoch_ord nrs ord 0; Some (ord1\<lparr>ord_ticking := True\<rparr>) }"

definition gossip_target :: "u16 \<Rightarrow> u16 \<Rightarrow> u16" where
  "gossip_target pid r = (if r \<ge> pid then r + 1 else r)"

text \<open>\<open>Stop\<close>; the alerter of an orderer that was never started, and so has no epoch, is nil, and its call panics.\<close>

definition Stop :: "('r, 'k) orderer \<Rightarrow> ('r, 'k) orderer go" where
  "Stop ord =
     do { p \<leftarrow> (case ord_previous ord of None \<Rightarrow> Some None | Some p \<Rightarrow> map_option Some (Close_ep p));
          c0 \<leftarrow> ord_current ord;
          c \<leftarrow> Close_ep c0;
          Some (ord\<lparr>ord_previous := p, ord_current := Some c, ord_ticking := False\<rparr>) }"

section \<open>The two epochs\<close>

text \<open>What an epoch keeps: its dag is of that epoch, and its adder runs.\<close>

definition kept :: "('s, 'k) adder \<Rightarrow> ('s, 'k) adder \<Rightarrow> bool" where
  "kept ad ad' \<longleftrightarrow> epochID (core (ad_dag ad')) = epochID (core (ad_dag ad)) \<and> finished ad' = finished ad"

lemma frame_kept: "frame ad ad' \<Longrightarrow> kept ad ad'"
  by (simp add: frame_def kept_def)

lemma kept_trans: "kept ad ad1 \<Longrightarrow> kept ad1 ad2 \<Longrightarrow> kept ad ad2"
  by (simp add: kept_def)

lemma insert_core_epochID: "insert_core d u = Some d' \<Longrightarrow> epochID d' = epochID d"
  by (auto simp: insert_core_def updateUnitsOnHeight_def updateUnitsOnLevel_def updateMaximal_def Let_def bind_eq_Some_conv)

lemma Insert_epochID: "Insert d u s = Some (d', s') \<Longrightarrow> epochID (core d') = epochID (core d)"
  by (auto simp: Insert_def Let_def bind_eq_Some_conv dest: insert_core_epochID)

lemma addToWaiting_kept:
  assumes "addToWaiting now ad pu src = Some (e, ad')"
  shows "kept ad ad'"
  using assms
proof (cases rule: addToWaiting_cases)
  case (entered fk mh ad3)
  let ?ad4 = "checkIfMissing ad3 (length (heap ad))"
  have "frame ?ad4 ad'" using entered(3) frame_fetchMissing frame_sendIfReady by (auto split: if_splits)
  then have "frame (enter ad pu src fk) ad'" using frame_trans [OF frame_trans [OF frame_checkParents [OF entered(2)] frame_checkIfMissing]] by blast
  then show ?thesis by (simp add: frame_def kept_def enter_def)
qed (simp add: kept_def)

lemma second_pass_kept: "second_pass now src ad ps = Some (errs, ad') \<Longrightarrow> kept ad ad'"
proof (induction ps arbitrary: ad errs)
  case (Cons p ps)
  obtain pu e where p: "p = (pu, e)" by (cases p)
  obtain e' ad1 errs' where s: "(case e of Some err \<Rightarrow> Some (Some err, ad) | None \<Rightarrow> addToWaiting now ad pu src) = Some (e', ad1)"
      "second_pass now src ad1 ps = Some (errs', ad')"
    using Cons.prems unfolding p by (auto simp: bind_eq_Some_conv)
  have "kept ad ad1" using s(1) addToWaiting_kept [of now ad pu src e' ad1] by (cases e) (auto simp: kept_def)
  then show ?case using Cons.IH [OF s(2)] kept_trans by blast
qed (simp add: kept_def)

lemma AddPreunits_kept: "AddPreunits verify now ad src pus = Some (errs, ad') \<Longrightarrow> kept ad ad'"
  by (erule AddPreunits_passes) (rule second_pass_kept)

lemma worker_kept:
  assumes "worker f mq shake resolve ad pid = Some ad'"
  shows "kept ad ad'"
proof (cases "\<exists>r q. nth_opt (ad_ready ad) pid = Some (Some (r # q))")
  case True
  then obtain r q where q: "nth_opt (ad_ready ad) pid = Some (Some (r # q))" by blast
  let ?ad = "ad\<lparr>ad_ready := (ad_ready ad)[pid := Some q]\<rparr>"
  obtain ad1 where a: "handle_ready_body mq shake resolve ?ad r = Some ad1" "remove f ad1 r = Some ad'"
    using assms q by (auto simp: worker_def handleReady_def bind_eq_Some_conv)
  have "kept ad ad1"
    using a(1) by (cases rule: handle_ready_body_cases) (auto simp: kept_def set_failed_def upd_wp_def dest: Insert_epochID)
  then show ?thesis using frame_kept [OF frame_remove [OF a(2)]] kept_trans by blast
next
  case False
  then have "ad' = ad" using assms by (auto simp: worker_def split: option.splits list.splits)
  then show ?thesis by (simp add: kept_def)
qed

definition epoch_ok :: "('r, 'k) epoch \<Rightarrow> bool" where
  "epoch_ok ep \<longleftrightarrow> epochID (ep_dag ep) = ep_id ep \<and> \<not> finished (ep_adder ep)"

definition ord_ok :: "('r, 'k) orderer \<Rightarrow> bool" where
  "ord_ok ord \<longleftrightarrow> (\<exists>c. ord_current ord = Some c \<and> epoch_ok c
     \<and> (case ord_previous ord of None \<Rightarrow> ep_id c = 0 | Some p \<Rightarrow> epoch_ok p \<and> ep_id p < ep_id c))"

text \<open>A random source registers checks and hooks with a dag and does not insert units.\<close>

definition only_registers :: "('s dag \<Rightarrow> 's dag \<times> 'r) \<Rightarrow> bool" where
  "only_registers nrs \<longleftrightarrow> (\<forall>d. core (fst (nrs d)) = core d)"

lemma newEpoch_ep_ok: "only_registers nrs \<Longrightarrow> epoch_ok (newEpoch_ep nrs e cnf) \<and> ep_id (newEpoch_ep nrs e cnf) = e"
proof -
  assume r: "only_registers nrs"
  obtain d1 rs where n: "nrs (New_dag (NProc cnf) (EpochLength cnf) (map snd (conf_Checks cnf)) e) = (d1, rs)" by fastforce
  then have "core d1 = New_core (NProc cnf) (EpochLength cnf) e" using r unfolding only_registers_def by (metis New_dag_def dag.select_convs(1) fst_conv)
  then show ?thesis using n by (simp add: newEpoch_ep_def epoch_ok_def AfterInsert_def New_adder_def New_core_def)
qed

lemma getEpoch_ok:
  assumes "ord_ok ord" "ord_current ord = Some c"
  shows "\<exists>s b. getEpoch ord e = Some (s, b) \<and> (b \<longleftrightarrow> ep_id c < e) \<and> (\<forall>x. s = Some x \<longrightarrow> (\<exists>ep. deref ord x = Some ep \<and> ep_id ep = e \<and> epoch_ok ep))"
proof -
  have "ord_previous ord = None \<Longrightarrow> ep_id c = 0" using assms by (auto simp: ord_ok_def)
  then have "ord_previous ord = None \<Longrightarrow> \<not> e < ep_id c" by simp
  then show ?thesis
    using assms by (cases "ord_previous ord") (auto simp: getEpoch_def deref_def ord_ok_def not_less_iff_gr_or_eq)
qed

lemma ord_ok_assign:
  assumes "ord_ok ord" "deref ord s = Some ep" "epoch_ok ep'" "ep_id ep' = ep_id ep"
  shows "ord_ok (assign ord s ep')"
  using assms by (cases s) (auto simp: ord_ok_def deref_def assign_def split: option.splits)

lemma newEpoch_ord_ok:
  assumes nrs: "only_registers nrs" and ok: "ord_ok ord" and n: "newEpoch_ord nrs ord e = Some (s, ord')"
  shows "ord_ok ord' \<and> (\<forall>x. s = Some x \<longrightarrow> (\<exists>ep. deref ord' x = Some ep \<and> ep_id ep = e \<and> epoch_ok ep))"
proof -
  obtain c where c: "ord_current ord = Some c" "epoch_ok c" using ok by (auto simp: ord_ok_def)
  note ep = newEpoch_ep_ok [OF nrs, of e "ord_conf ord"]
  show ?thesis
  proof (cases "ep_id c < e")
    case True
    then have "s = Some Current" "ord' = ord\<lparr>ord_previous := Some c, ord_current := Some (newEpoch_ep nrs e (ord_conf ord))\<rparr>"
      using n c by (auto simp: newEpoch_ord_def bind_eq_Some_conv)
    then show ?thesis using ep c True by (auto simp: ord_ok_def deref_def)
  next
    case False
    then have "ord' = ord" "\<forall>x. s = Some x \<longrightarrow> (\<exists>ep. deref ord x = Some ep \<and> ep_id ep = e \<and> epoch_ok ep)"
      using n c ok by (auto simp: newEpoch_ord_def deref_def ord_ok_def bind_eq_Some_conv split: if_splits)
    then show ?thesis using ok by simp
  qed
qed

lemma retrieveEpoch_ok:
  assumes nrs: "only_registers nrs" and ok: "ord_ok ord" and r: "retrieveEpoch t wtk nrs ord pu src = Some (s, ord')"
  shows "ord_ok ord' \<and> (\<forall>x. s = Some x \<longrightarrow> (\<exists>ep. deref ord' x = Some ep \<and> ep_id ep = pu_epochID pu \<and> epoch_ok ep))"
proof -
  obtain c where c: "ord_current ord = Some c" using ok by (auto simp: ord_ok_def)
  obtain s0 b where g: "getEpoch ord (pu_epochID pu) = Some (s0, b)" "\<forall>x. s0 = Some x \<longrightarrow> (\<exists>ep. deref ord x = Some ep \<and> ep_id ep = pu_epochID pu \<and> epoch_ok ep)"
    using getEpoch_ok [OF ok c] by blast
  have same: "ord_ok (ord\<lparr>ord_gossip := q\<rparr>) = ord_ok ord" "deref (ord\<lparr>ord_gossip := q\<rparr>) x = deref ord x" for q x
    by (auto simp: ord_ok_def deref_def split: slot.splits)
  have "newEpoch_ord nrs ord (pu_epochID pu) = Some (s, ord') \<or> (s = s0 \<and> (\<exists>q. ord' = ord\<lparr>ord_gossip := q\<rparr>)) \<or> (s = s0 \<and> ord' = ord)"
    using r g(1) by (auto simp: retrieveEpoch_def bind_eq_Some_conv split: if_splits)
  then show ?thesis using newEpoch_ord_ok [OF nrs ok] g(2) ok same by auto
qed

lemma kept_epoch_ok: "epoch_ok ep \<Longrightarrow> kept (ep_adder ep) ad \<Longrightarrow> epoch_ok (ep\<lparr>ep_adder := ad\<rparr>)"
  by (simp add: epoch_ok_def kept_def)

lemma ord_AddPreunits_ok:
  "ord_AddPreunits t wtk nrs verify now src ord pus = Some (errs, ord') \<Longrightarrow> only_registers nrs \<Longrightarrow> ord_ok ord \<Longrightarrow> ord_ok ord'"
proof (induction t wtk nrs verify now src ord pus arbitrary: errs rule: ord_AddPreunits.induct)
  case (2 t wtk nrs verify now src ord pu pus)
  let ?grp = "pu # takeWhile (\<lambda>v. pu_epochID v = pu_epochID pu) pus" and ?rest = "dropWhile (\<lambda>v. pu_epochID v = pu_epochID pu) pus"
  obtain s ord1 errs1 ord2 errs2 where st: "retrieveEpoch t wtk nrs ord pu src = Some (s, ord1)"
      "(case s of None \<Rightarrow> Some (replicate (length ?grp) None, ord1)
        | Some s \<Rightarrow> do { ep \<leftarrow> deref ord1 s; (errs, ad) \<leftarrow> AddPreunits verify now (ep_adder ep) src ?grp;
                         Some (errs, assign ord1 s (ep\<lparr>ep_adder := ad\<rparr>)) }) = Some (errs1, ord2)"
      "ord_AddPreunits t wtk nrs verify now src ord2 ?rest = Some (errs2, ord')"
    using 2(2) by (auto simp: Let_def bind_eq_Some_conv split: prod.splits)
  note r = retrieveEpoch_ok [OF 2(3,4) st(1)]
  have ok2: "ord_ok ord2"
  proof (cases s)
    case None
    then show ?thesis using st(2) r by simp
  next
    case (Some x)
    then obtain ep ad where ep: "deref ord1 x = Some ep" "AddPreunits verify now (ep_adder ep) src ?grp = Some (errs1, ad)" "ord2 = assign ord1 x (ep\<lparr>ep_adder := ad\<rparr>)"
      using st(2) by (auto simp: bind_eq_Some_conv)
    then show ?thesis
      using r Some ord_ok_assign [OF _ ep(1), of "ep\<lparr>ep_adder := ad\<rparr>"] kept_epoch_ok AddPreunits_kept [OF ep(2)] by auto
  qed
  show ?case by (rule 2(1) [OF HOL.refl HOL.refl st(1) _ st(2) _ st(3) 2(3) ok2]) simp_all
qed simp

inductive ord_reach ::
  "('sh, 'sg) tss \<Rightarrow> ('sh, 'sg) wtk option \<Rightarrow> ('r ep_hooks dag \<Rightarrow> 'r ep_hooks dag \<times> 'r) \<Rightarrow> ('k \<Rightarrow> preunit \<Rightarrow> bool) \<Rightarrow> (u16 \<Rightarrow> u16) \<Rightarrow> (bytes \<Rightarrow> hash)
   \<Rightarrow> (gerror option \<Rightarrow> preunit \<Rightarrow> u16 \<Rightarrow> gerror option) \<Rightarrow> ('r, 'k) orderer \<Rightarrow> bool"
  for t wtk nrs verify mq shake resolve where
  start: "Start nrs (New_orderer cnf) = Some ord \<Longrightarrow> ord_reach t wtk nrs verify mq shake resolve ord"
| add: "ord_reach t wtk nrs verify mq shake resolve ord \<Longrightarrow> ord_AddPreunits t wtk nrs verify now src ord pus = Some (errs, ord') \<Longrightarrow>
    ord_reach t wtk nrs verify mq shake resolve ord'"
| work: "ord_reach t wtk nrs verify mq shake resolve ord \<Longrightarrow> deref ord s = Some ep \<Longrightarrow> worker f mq shake resolve (ep_adder ep) pid = Some ad \<Longrightarrow>
    ord_reach t wtk nrs verify mq shake resolve (assign ord s (ep\<lparr>ep_adder := ad\<rparr>))"
| own: "ord_reach t wtk nrs verify mq shake resolve ord \<Longrightarrow> send_own nrs ord u = Some ord' \<Longrightarrow> ord_reach t wtk nrs verify mq shake resolve ord'"
| round: "ord_reach t wtk nrs verify mq shake resolve ord \<Longrightarrow> handle_round ord r = Some ord' \<Longrightarrow> ord_reach t wtk nrs verify mq shake resolve ord'"

lemma insert_own_ok:
  assumes nrs: "only_registers nrs" and ok: "ord_ok ord" and i: "insert_own nrs ord u = Some ord'"
  shows "ord_ok ord'"
proof (cases "Creator u = Pid (ord_conf ord)")
  case True
  obtain c where c: "ord_current ord = Some c" using ok by (auto simp: ord_ok_def)
  obtain s0 b where g: "getEpoch ord (Epoch u) = Some (s0, b)" "\<forall>x. s0 = Some x \<longrightarrow> (\<exists>ep. deref ord x = Some ep \<and> ep_id ep = Epoch u \<and> epoch_ok ep)"
    using getEpoch_ok [OF ok c] by blast
  obtain s ord1 where n: "(if b then newEpoch_ord nrs ord (Epoch u) else Some (s0, ord)) = Some (s, ord1)"
      "(case s of None \<Rightarrow> Some ord1 | Some s \<Rightarrow> do { ep \<leftarrow> deref ord1 s; let ad = ep_adder ep; (d, h) \<leftarrow> Insert (ad_dag ad) u (ad_hooks ad);
          Some (assign ord1 s (ep\<lparr>ep_adder := ad\<lparr>ad_dag := d, ad_hooks := h\<rparr>\<rparr>)) }) = Some ord'"
    using i True g(1) unfolding insert_own_def by (auto simp: bind_eq_Some_conv)
  have ok1: "ord_ok ord1" and s: "\<forall>x. s = Some x \<longrightarrow> (\<exists>ep. deref ord1 x = Some ep \<and> ep_id ep = Epoch u \<and> epoch_ok ep)"
    using n(1) newEpoch_ord_ok [OF nrs ok, of "Epoch u" s ord1] g(2) ok by (auto split: if_splits)
  show ?thesis
  proof (cases s)
    case None
    then show ?thesis using n(2) ok1 by simp
  next
    case (Some x)
    then obtain ep d h where ep: "deref ord1 x = Some ep" "Insert (ad_dag (ep_adder ep)) u (ad_hooks (ep_adder ep)) = Some (d, h)"
        "ord' = assign ord1 x (ep\<lparr>ep_adder := (ep_adder ep)\<lparr>ad_dag := d, ad_hooks := h\<rparr>\<rparr>)"
      using n(2) by (auto simp: Let_def bind_eq_Some_conv)
    have "kept (ep_adder ep) ((ep_adder ep)\<lparr>ad_dag := d, ad_hooks := h\<rparr>)" using Insert_epochID [OF ep(2)] by (simp add: kept_def)
    then have "epoch_ok (ep\<lparr>ep_adder := (ep_adder ep)\<lparr>ad_dag := d, ad_hooks := h\<rparr>\<rparr>)" using kept_epoch_ok s Some ep(1) by fastforce
    then show ?thesis unfolding ep(3) by (intro ord_ok_assign [OF ok1 ep(1)]) simp_all
  qed
qed (use ok i in \<open>simp add: insert_own_def\<close>)

lemma finishEpoch_ok:
  assumes "ord_ok ord" "finishEpoch ord e = Some ord'"
  shows "ord_ok ord'"
proof -
  obtain c where c: "ord_current ord = Some c" using assms(1) by (auto simp: ord_ok_def)
  obtain s b where g: "getEpoch ord e = Some (s, b)" "\<forall>x. s = Some x \<longrightarrow> (\<exists>ep. deref ord x = Some ep \<and> ep_id ep = e \<and> epoch_ok ep)"
    using getEpoch_ok [OF assms(1) c] by blast
  show ?thesis
  proof (cases s)
    case (Some x)
    then obtain ep ep' where "deref ord x = Some ep" "NoMoreUnits ep = Some ep'" "ord' = assign ord x ep'" "epoch_ok ep"
      using assms(2) g by (auto simp: finishEpoch_def bind_eq_Some_conv)
    then show ?thesis using ord_ok_assign [OF assms(1), of x ep ep'] by (auto simp: NoMoreUnits_def epoch_ok_def split: if_splits)
  qed (use assms g in \<open>auto simp: finishEpoch_def\<close>)
qed

lemma ord_ok_fields [simp]:
  "ord_ok (ord\<lparr>ord_preblocks := x\<rparr>) = ord_ok ord" "ord_ok (ord\<lparr>ord_round_epoch := e\<rparr>) = ord_ok ord" "ord_ok (ord\<lparr>ord_ticking := b\<rparr>) = ord_ok ord"
  "ord_ok (ord\<lparr>ord_lastTiming := l\<rparr>) = ord_ok ord" "ord_ok (ord\<lparr>ord_multicast := l\<rparr>) = ord_ok ord"
  by (simp_all add: ord_ok_def)

lemma handle_round_ok:
  assumes "ord_ok ord" "handle_round ord r = Some ord'"
  shows "ord_ok ord'"
proof -
  let ?o = "ord\<lparr>ord_lastTiming := ord_lastTiming ord @ [List.last r]\<rparr>" and ?e = "Epoch (List.last r)"
  have f: "ord_ok o1" if "finishEpoch ?o ?e = Some o1" for o1 using finishEpoch_ok [OF _ that] assms(1) by simp
  show ?thesis
  proof (cases "Level (List.last r) = LastLevel (ord_conf ord)")
    case True
    then obtain o1 where "finishEpoch ?o ?e = Some o1" using assms(2) by (auto simp: handle_round_def Let_def bind_eq_Some_conv split: if_splits)
    then show ?thesis using assms(2) f [of o1] True by (auto simp: handle_round_def Let_def split: if_splits)
  qed (use assms in \<open>auto simp: handle_round_def Let_def split: if_splits\<close>)
qed

lemma ord_reach_ok: "ord_reach t wtk nrs verify mq shake resolve ord \<Longrightarrow> only_registers nrs \<Longrightarrow> ord_ok ord"
proof (induction rule: ord_reach.induct)
  case (start cnf ord)
  then show ?case
    using newEpoch_ep_ok [of nrs 0 cnf] by (auto simp: Start_def New_orderer_def newEpoch_ord_def ord_ok_def)
next
  case (add ord now src pus errs ord')
  then show ?case using ord_AddPreunits_ok by blast
next
  case (work ord s ep f pid ad)
  have "epoch_ok ep" using work by (cases s) (auto simp: ord_ok_def deref_def)
  then have "epoch_ok (ep\<lparr>ep_adder := ad\<rparr>)" by (rule kept_epoch_ok) (rule worker_kept [OF work(3)])
  then show ?case by (intro ord_ok_assign [OF _ work(2)]) (use work in simp_all)
next
  case (own ord u ord')
  then show ?case using insert_own_ok by (auto simp: send_own_def bind_eq_Some_conv)
next
  case (round ord r ord')
  then show ?case using handle_round_ok by blast
qed

text \<open>
  C32: a started orderer always has a current epoch, and its previous epoch, when there is one, is older; the dags are of
  these epochs. \<open>getEpoch\<close> never dereferences a missing previous epoch, answers with the epoch that was asked for, and
  reports an epoch as coming from the future exactly when it is newer than the current one. This holds after any
  sequence of received preunits, worker rounds, own units and ordered rounds.
\<close>

theorem orderer_epochs:
  assumes "ord_reach t wtk nrs verify mq shake resolve ord" "only_registers nrs"
  shows "\<exists>c. ord_current ord = Some c \<and> epochID (ep_dag c) = ep_id c
    \<and> (\<forall>p. ord_previous ord = Some p \<longrightarrow> epochID (ep_dag p) = ep_id p \<and> ep_id p < ep_id c)
    \<and> (\<exists>s b. getEpoch ord e = Some (s, b) \<and> (b \<longleftrightarrow> ep_id c < e) \<and> (\<forall>x. s = Some x \<longrightarrow> (\<exists>ep. deref ord x = Some ep \<and> ep_id ep = e)))"
proof -
  have ok: "ord_ok ord" by (rule ord_reach_ok [OF assms])
  then obtain c where c: "ord_current ord = Some c" by (auto simp: ord_ok_def)
  have "epochID (ep_dag c) = ep_id c" "\<forall>p. ord_previous ord = Some p \<longrightarrow> epochID (ep_dag p) = ep_id p \<and> ep_id p < ep_id c"
    using ok c by (auto simp: ord_ok_def epoch_ok_def)
  then show ?thesis using c getEpoch_ok [OF ok c, of e] by blast
qed

end
