(* ===== verification/Preblocks.thy ===== *)
theory Preblocks
  imports Orderer
begin

text \<open>
  From ordered rounds to preblocks: the loop \<open>handleTimingRounds\<close> of the orderer and \<open>ToPreblock\<close>
  (\<open>pkg/gomel/data.go\<close>). \<open>siglen\<close> is \<open>bn256.SignatureLength\<close> and \<open>newPreblock\<close> is \<open>core.NewPreblock\<close>.
\<close>

section \<open>Definitions\<close>

definition ToPreblock :: "nat \<Rightarrow> (bytes list \<Rightarrow> bytes \<Rightarrow> 'b) \<Rightarrow> Unit list \<Rightarrow> 'b go" where
  "ToPreblock siglen newPreblock round =
     (let data = map (\<lambda>u. pu_data (preunit_of u)) (filter (\<lambda>u. \<not> Dealing (preunit_of u)) round)
      in if round = [] then None
         else let rsData = (case pu_rsData (preunit_of (List.last round)) of None \<Rightarrow> [] | Some bs \<Rightarrow> bs)
              in if siglen \<le> length rsData then Some (newPreblock data (take siglen rsData)) else None)"

text \<open>The epoch and the level of a round, those of its timing unit.\<close>

abbreviation round_epoch :: "Unit list \<Rightarrow> EpochID" where
  "round_epoch r \<equiv> Epoch (List.last r)"

definition final_round :: "'k conf \<Rightarrow> Unit list \<Rightarrow> bool" where
  "final_round cnf r \<longleftrightarrow> Level (List.last r) = LastLevel cnf"

section \<open>Rounds in the order of epochs\<close>

text \<open>The epochs that final rounds are still to come for accept units.\<close>

definition open_for :: "('r, 'k) orderer \<Rightarrow> Unit list list \<Rightarrow> bool" where
  "open_for ord rounds \<longleftrightarrow> (\<forall>s ep. deref ord s = Some ep \<longrightarrow>
     ep_id ep \<in> round_epoch ` set (filter (final_round (ord_conf ord)) rounds) \<longrightarrow> \<not> ep_more_closed ep)"

lemma deref_fields [simp]:
  "deref (ord\<lparr>ord_preblocks := x\<rparr>) s = deref ord s" "deref (ord\<lparr>ord_round_epoch := e\<rparr>) s = deref ord s"
  "deref (ord\<lparr>ord_ticking := b\<rparr>) s = deref ord s" "deref (ord\<lparr>ord_lastTiming := l\<rparr>) s = deref ord s"
  by (cases s; simp add: deref_def)+

lemma deref_assign: "deref (assign ord s ep) s' = (if s' = s then Some ep else deref ord s')"
  by (cases s; cases s'; simp add: deref_def assign_def)

lemma assign_fields [simp]:
  "ord_conf (assign ord s ep) = ord_conf ord" "ord_preblocks (assign ord s ep) = ord_preblocks ord"
  "ord_round_epoch (assign ord s ep) = ord_round_epoch ord" "ord_lastTiming (assign ord s ep) = ord_lastTiming ord"
  by (cases s; simp add: assign_def)+

lemma finishEpoch_open:
  assumes ok: "ord_ok ord" and o: "\<forall>s ep. deref ord s = Some ep \<longrightarrow> ep_id ep = e \<longrightarrow> \<not> ep_more_closed ep"
  shows "\<exists>ord'. finishEpoch ord e = Some ord' \<and> ord_conf ord' = ord_conf ord \<and> ord_preblocks ord' = ord_preblocks ord
    \<and> ord_round_epoch ord' = ord_round_epoch ord \<and> ord_lastTiming ord' = ord_lastTiming ord
    \<and> (\<forall>s ep. deref ord' s = Some ep \<longrightarrow> ep_id ep \<noteq> e \<longrightarrow> deref ord s = Some ep)"
proof -
  obtain c where c: "ord_current ord = Some c" using ok by (auto simp: ord_ok_def)
  obtain s b where g: "getEpoch ord e = Some (s, b)" "\<forall>x. s = Some x \<longrightarrow> (\<exists>ep. deref ord x = Some ep \<and> ep_id ep = e)"
    using getEpoch_ok [OF ok c] by blast
  show ?thesis
  proof (cases s)
    case (Some x)
    then obtain ep where ep: "deref ord x = Some ep" "ep_id ep = e" "\<not> ep_more_closed ep" using g o by blast
    then have "finishEpoch ord e = Some (assign ord x (ep\<lparr>ep_more_closed := True\<rparr>))"
      using g Some by (simp add: finishEpoch_def NoMoreUnits_def)
    then show ?thesis using ep by (auto simp: deref_assign split: if_splits)
  qed (use g in \<open>simp add: finishEpoch_def\<close>)
qed

lemma handle_round_step:
  assumes ok: "ord_ok ord" and ne: "r \<noteq> []" and o: "open_for ord (r # rs)" and e: "ord_round_epoch ord \<le> round_epoch r"
    and fresh: "final_round (ord_conf ord) r \<Longrightarrow> round_epoch r \<notin> round_epoch ` set (filter (final_round (ord_conf ord)) rs)"
  shows "\<exists>ord'. handle_round ord r = Some ord' \<and> ord_conf ord' = ord_conf ord \<and> ord_round_epoch ord' = round_epoch r
    \<and> ord_preblocks ord' = ord_preblocks ord @ filter (\<lambda>r. Level (List.last r) \<le> LastLevel (ord_conf ord)) [r]
    \<and> ord_lastTiming ord' = ord_lastTiming ord @ map List.last (filter (final_round (ord_conf ord)) [r]) \<and> open_for ord' rs"
proof (cases "final_round (ord_conf ord) r")
  case True
  let ?o = "ord\<lparr>ord_lastTiming := ord_lastTiming ord @ [List.last r]\<rparr>"
  have ok': "ord_ok ?o" using ok by simp
  have op: "\<forall>s ep. deref ?o s = Some ep \<longrightarrow> ep_id ep = round_epoch r \<longrightarrow> \<not> ep_more_closed ep"
    using o True by (auto simp: open_for_def)
  from finishEpoch_open [OF ok' op] obtain o1 where o1: "finishEpoch ?o (round_epoch r) = Some o1" "ord_conf o1 = ord_conf ord"
      "ord_preblocks o1 = ord_preblocks ord" "ord_round_epoch o1 = ord_round_epoch ord" "ord_lastTiming o1 = ord_lastTiming ord @ [List.last r]"
      and d: "\<And>s ep. deref o1 s = Some ep \<Longrightarrow> ep_id ep \<noteq> round_epoch r \<Longrightarrow> deref ord s = Some ep" by auto
  have "open_for o1 rs"
    unfolding open_for_def o1(2)
  proof (intro allI impI)
    fix s ep assume a: "deref o1 s = Some ep" "ep_id ep \<in> round_epoch ` set (filter (final_round (ord_conf ord)) rs)"
    then have "deref ord s = Some ep" using d fresh [OF True] by metis
    then show "\<not> ep_more_closed ep" using o a(2) by (auto simp: open_for_def)
  qed
  then show ?thesis using True ne o1 e by (auto simp: handle_round_def Let_def final_round_def open_for_def)
next
  case False
  then show ?thesis using ne o e by (auto simp: handle_round_def Let_def final_round_def open_for_def)
qed

lemma rounds_in_order:
  assumes "ord_ok ord" "[] \<notin> set rounds"
    and "sorted (ord_round_epoch ord # map round_epoch rounds)" "distinct (map round_epoch (filter (final_round (ord_conf ord)) rounds))"
    and "open_for ord rounds"
  shows "\<exists>ord'. handleTimingRounds ord rounds = Some ord'
    \<and> ord_preblocks ord' = ord_preblocks ord @ filter (\<lambda>r. Level (List.last r) \<le> LastLevel (ord_conf ord)) rounds
    \<and> ord_lastTiming ord' = ord_lastTiming ord @ map List.last (filter (final_round (ord_conf ord)) rounds)"
  using assms
proof (induction rounds arbitrary: ord)
  case (Cons r rs)
  let ?F = "final_round (ord_conf ord)"
  have fresh: "round_epoch r \<notin> round_epoch ` set (filter ?F rs)" if "?F r" using Cons.prems(4) that by auto
  obtain o1 where o1: "handle_round ord r = Some o1" "ord_conf o1 = ord_conf ord" "ord_round_epoch o1 = round_epoch r" "open_for o1 rs"
      "ord_preblocks o1 = ord_preblocks ord @ filter (\<lambda>r. Level (List.last r) \<le> LastLevel (ord_conf ord)) [r]"
      "ord_lastTiming o1 = ord_lastTiming ord @ map List.last (filter ?F [r])"
    using handle_round_step [OF Cons.prems(1) _ Cons.prems(5) _ fresh] Cons.prems(2,3) by auto
  have "ord_ok o1" using handle_round_ok [OF Cons.prems(1) o1(1)] .
  then have "\<exists>ord'. handleTimingRounds o1 rs = Some ord'
      \<and> ord_preblocks ord' = ord_preblocks o1 @ filter (\<lambda>r. Level (List.last r) \<le> LastLevel (ord_conf o1)) rs
      \<and> ord_lastTiming ord' = ord_lastTiming o1 @ map List.last (filter (final_round (ord_conf o1)) rs)"
    using o1(2-4) Cons.prems(2-4) by (intro Cons.IH) (auto split: if_splits)
  then show ?case using o1 by (auto simp: handleTimingRounds_def)
qed (simp add: handleTimingRounds_def)

text \<open>
  When the rounds arrive in the order of their epochs and each epoch has at most one final round, the loop of
  \<open>handleTimingRounds\<close> does not panic, makes a preblock of every round up to the last level, in the order of arrival, and hands
  the timing unit of each final round to the creator.
\<close>

theorem preblocks_in_order:
  assumes "ord_reach t wtk nrs verify mq shake resolve ord" "only_registers nrs" "[] \<notin> set rounds"
    and "sorted (ord_round_epoch ord # map round_epoch rounds)" "distinct (map round_epoch (filter (final_round (ord_conf ord)) rounds))"
    and "open_for ord rounds"
  shows "\<exists>ord'. handleTimingRounds ord rounds = Some ord'
    \<and> ord_preblocks ord' = ord_preblocks ord @ filter (\<lambda>r. Level (List.last r) \<le> LastLevel (ord_conf ord)) rounds
    \<and> ord_lastTiming ord' = ord_lastTiming ord @ map List.last (filter (final_round (ord_conf ord)) rounds)"
  by (rule rounds_in_order [OF ord_reach_ok [OF assms(1,2)] assms(3-6)])

section \<open>Examples\<close>

text \<open>An orderer of process 2 after its own dealing unit of epoch 1, with units of both epochs that make rounds.\<close>

definition demo_unit :: "EpochID \<Rightarrow> u8 \<Rightarrow> int \<Rightarrow> Unit" where
  "demo_unit e h l = freeUnit ((demo_pu 2 [-1, -1, -1] h)\<lparr>pu_epochID := e\<rparr>) [None, None, None] l []"

definition demo_nrs :: "unit ep_hooks dag \<Rightarrow> unit ep_hooks dag \<times> unit" where
  "demo_nrs d = (d, ())"

lemma demo_registers: "only_registers demo_nrs"
  by (simp add: only_registers_def demo_nrs_def)

definition demo_levels :: "unit conf" where
  "demo_levels = demo_conf3\<lparr>LastLevel := 4, NumberOfEpochs := 3\<rparr>"

definition demo_order :: "(unit, unit) orderer go" where
  "demo_order = do { o0 \<leftarrow> Start demo_nrs (New_orderer demo_levels); send_own demo_nrs o0 (demo_unit 1 1 0) }"

lemma demo_order_reach:
  obtains ord where "demo_order = Some ord" "ord_reach t wtk demo_nrs verify mq shake resolve ord"
proof -
  have "demo_order \<noteq> None" by code_simp
  then obtain o0 o1 where o: "Start demo_nrs (New_orderer demo_levels) = Some o0" "send_own demo_nrs o0 (demo_unit 1 1 0) = Some o1"
    by (auto simp: demo_order_def bind_eq_Some_conv)
  have "ord_reach t wtk demo_nrs verify mq shake resolve o1"
    by (rule ord_reach.own [OF ord_reach.start [OF o(1)] o(2)])
  then show thesis using o that by (simp add: demo_order_def)
qed


theorem preblocks_in_order_witness:
  "\<exists>ord ord'. demo_order = Some ord \<and> handleTimingRounds ord [[demo_unit 0 2 0], [demo_unit 0 3 4], [demo_unit 1 1 0]] = Some ord'
     \<and> ord_preblocks ord' = [[demo_unit 0 2 0], [demo_unit 0 3 4], [demo_unit 1 1 0]]
     \<and> ord_lastTiming ord' = [demo_unit 0 3 4]"
proof -
  let ?rs = "[[demo_unit 0 2 0], [demo_unit 0 3 4], [demo_unit 1 1 0]]"
  obtain ord where o: "demo_order = Some ord"
      "ord_reach undefined None demo_nrs (\<lambda>_ _. True) demo_mq demo_sum (ResolveMissingCommitment (\<lambda>_ _. None)) ord" by (rule demo_order_reach)
  have "map_option (\<lambda>ord. (LastLevel (ord_conf ord), ord_round_epoch ord, map_option ep_more_closed (ord_current ord), map_option ep_more_closed (ord_previous ord),
      ord_preblocks ord, ord_lastTiming ord)) demo_order = Some (4, 0, Some False, Some False, [], [])" by code_simp
  then have s: "LastLevel (ord_conf ord) = 4" "ord_round_epoch ord = 0" "ord_preblocks ord = []" "ord_lastTiming ord = []"
      "\<And>s ep. deref ord s = Some ep \<Longrightarrow> \<not> ep_more_closed ep"
    unfolding o(1) by (auto simp: deref_def split: slot.splits)
  have f: "final_round (ord_conf ord) = final_round demo_levels" using s(1) by (simp add: final_round_def fun_eq_iff demo_levels_def)
  have "sorted (0 # map round_epoch ?rs)" "distinct (map round_epoch (filter (final_round demo_levels) ?rs))"
    "filter (\<lambda>r. Level (List.last r) \<le> 4) ?rs = ?rs" "filter (final_round demo_levels) ?rs = [[demo_unit 0 3 4]]"
    by code_simp+
  then show ?thesis
    using preblocks_in_order [OF o(2) demo_registers, of ?rs] o(1) s f by (auto simp: open_for_def)
qed

theorem orderer_epochs_witness:
  "\<exists>ord c s. demo_order = Some ord \<and> ord_current ord = Some c \<and> getEpoch ord 2 = Some (s, True) \<and> ep_id c = 1"
proof -
  obtain ord where o: "demo_order = Some ord"
      "ord_reach undefined None demo_nrs (\<lambda>_ _. True) demo_mq demo_sum (ResolveMissingCommitment (\<lambda>_ _. None)) ord" by (rule demo_order_reach)
  have "map_option (\<lambda>ord. map_option ep_id (ord_current ord)) demo_order = Some (Some 1)" by code_simp
  then show ?thesis using orderer_epochs [OF o(2) demo_registers, of 2] unfolding o(1) by auto
qed

end
