(* ===== verification/Gossip.thy ===== *)
theory Gossip
  imports Preblocks
begin

text \<open>
  What two orderers exchange when they gossip: \<open>GetInfo\<close> of one and \<open>Delta\<close> of the other. The heights of the maximal units
  (\<open>MaxView\<close>) stand for all units of a dag, since every unit has all its predecessors below it.
\<close>

section \<open>The heights of a dag\<close>

lemma max_height_ge: "u \<in> set us \<Longrightarrow> Height u \<le> max_height us"
  and max_height_cases: "max_height us = -1 \<or> (\<exists>u \<in> set us. Height u = max_height us)"
proof -
  let ?f = "\<lambda>h u. if Height u > h then Height u else h"
  have "h \<le> foldl ?f h us \<and> (\<forall>u \<in> set us. Height u \<le> foldl ?f h us) \<and> (foldl ?f h us = h \<or> (\<exists>u \<in> set us. Height u = foldl ?f h us))" for h
  proof (induction us arbitrary: h)
    case (Cons v us)
    show ?case using Cons.IH [of "?f h v"] by (auto split: if_splits)
  qed simp
  from this [of "-1"] show "u \<in> set us \<Longrightarrow> Height u \<le> max_height us" "max_height us = -1 \<or> (\<exists>u \<in> set us. Height u = max_height us)"
    by (auto simp: max_height_def)
qed

lemma MaxView_heights:
  assumes D: "dag_inv d es"
  shows "length (di_Heights (MaxView d)) = unat (nProc d)"
    and "unat c < unat (nProc d) \<Longrightarrow> di_Heights (MaxView d) ! unat c = max_height (filter (\<lambda>u. Creator u = c \<and> maximal_in es u) es)"
proof -
  note d = dag_invD(5,6) [OF D]
  have "di_Heights (MaxView d) = map (\<lambda>pid. max_height (Get (maxUnits d) (of_nat pid))) [0..<length (contents (maxUnits d))]"
    by (simp add: MaxView_def Iterate_def iterate_max_heights MaximalUnitsPerProcess_def comp_def)
  then show "length (di_Heights (MaxView d)) = unat (nProc d)"
    "unat c < unat (nProc d) \<Longrightarrow> di_Heights (MaxView d) ! unat c = max_height (filter (\<lambda>u. Creator u = c \<and> maximal_in es u) es)"
    using d by (simp_all add: su_wf_def)
qed

text \<open>Every unit lies below a maximal unit of its creator.\<close>

lemma below_maximal:
  assumes U: "units_inv n es" and u: "u \<in> set es"
  shows "\<exists>m \<in> set es. maximal_in es m \<and> chain m u \<and> Creator m = Creator u"
proof -
  note W = units_invD(1) [OF U]
  let ?S = "{m \<in> set es. chain m u}"
  have S: "finite (Height ` ?S)" "Height ` ?S \<noteq> {}" using u by (auto intro: chain.refl)
  obtain m where m: "m \<in> ?S" "Height m = Max (Height ` ?S)" using Max_in [OF S] by fastforce
  have "maximal_in es m"
    unfolding maximal_in_def
  proof safe
    fix w assume w: "w \<in> set es" "w \<noteq> m" "chain w m"
    then have "chain w u" using m(1) chain_trans by blast
    then have "Height w \<le> Height m" using Max_ge [OF S(1), of "Height w"] m(2) w by simp
    then show False using chain_Height [OF w(3) W w(1)] w(2) by (metis order_antisym)
  qed
  then show ?thesis using m(1) chain_Creator [OF _ W] by fastforce
qed

lemma view_covers:
  assumes D: "dag_inv d es" and c: "unat c < unat (nProc d)" and h: "0 \<le> h"
  shows "h \<le> di_Heights (MaxView d) ! unat c \<longleftrightarrow> (\<exists>u \<in> set es. Creator u = c \<and> Height u = h)"
proof -
  note U = dag_invD(1) [OF D] and W = units_invD(1) [OF dag_invD(1) [OF D]]
  let ?ms = "filter (\<lambda>u. Creator u = c \<and> maximal_in es u) es"
  show ?thesis
    unfolding MaxView_heights(2) [OF D c]
  proof
    assume le: "h \<le> max_height ?ms"
    then obtain m where m: "m \<in> set ?ms" "h \<le> Height m" using max_height_cases [of ?ms] h by auto
    then obtain w where w: "chain m w" "Height w = h" using descendTo_chain [OF W _ h, of m] by auto
    then show "\<exists>u \<in> set es. Creator u = c \<and> Height u = h"
      using chain_closed [OF w(1) W] chain_Creator [OF w(1) W] m by auto
  next
    assume "\<exists>u \<in> set es. Creator u = c \<and> Height u = h"
    then obtain u where u: "u \<in> set es" "Creator u = c" "Height u = h" by blast
    obtain m where m: "m \<in> set es" "maximal_in es m" "chain m u" "Creator m = c" using below_maximal [OF U u(1)] u(2) by blast
    then show "h \<le> max_height ?ms" using max_height_ge [of m ?ms] chain_Height [OF m(3) W m(1)] u(3) by simp
  qed
qed

section \<open>Gossip\<close>

text \<open>
  \<open>in_step\<close>: no creator has two units of the same height in the two dags together, and equal hashes are of the same unit.
\<close>

definition in_step :: "Unit list \<Rightarrow> Unit list \<Rightarrow> bool" where
  "in_step es es' \<longleftrightarrow> (\<forall>u \<in> set es. \<forall>v \<in> set es'. Hash u = Hash v \<longleftrightarrow> Creator u = Creator v \<and> Height u = Height v)"

definition unknown_to :: "Unit list \<Rightarrow> Unit list \<Rightarrow> Unit list" where
  "unknown_to es es' = filter (\<lambda>v. Hash v \<notin> Hash ` set es) es'"

lemma UnitsAbove_view:
  assumes D: "dag_reach mq n d es" "dag_reach mq n d' es'" "0 < mq n" "n \<noteq> 0" and s: "in_step es es'"
  shows "\<exists>us. UnitsAbove d' (Some (di_Heights (MaxView d))) = Some us \<and> mset us = mset (unknown_to es es')"
proof -
  have I: "dag_inv d es" "nProc d = n" "dag_inv d' es'" "nProc d' = n" using dag_reach_inv [OF D(1,3)] dag_reach_inv [OF D(2,3)] by auto
  let ?hs = "di_Heights (MaxView d)"
  obtain us where us: "UnitsAbove d' (Some ?hs) = Some us" "mset us = mset (filter (\<lambda>u. ?hs ! unat (Creator u) < Height u) es')"
    using UnitsAbove_inv [OF I(3), of ?hs] MaxView_heights(1) [OF I(1)] MaxView_ge I(2,4) assms(4) by auto
  have "(?hs ! unat (Creator v) < Height v) \<longleftrightarrow> Hash v \<notin> Hash ` set es" if "v \<in> set es'" for v
  proof -
    have W: "wf_set n (set es')" using units_invD(1) dag_invD(1) I(3,4) by blast
    have "unat (Creator v) < unat (nProc d)" "0 \<le> Height v"
      using wf_Height_nonneg [OF W that] wf_setD(1) [OF W that] I(2) by (auto simp: wf_node_def word_less_nat_alt)
    from view_covers [OF I(1) this] have "(?hs ! unat (Creator v) < Height v) \<longleftrightarrow> \<not> (\<exists>u \<in> set es. Creator u = Creator v \<and> Height u = Height v)"
      by linarith
    moreover have "Hash v = Hash u \<longleftrightarrow> Creator u = Creator v \<and> Height u = Height v" if "u \<in> set es" for u
      using s that \<open>v \<in> set es'\<close> unfolding in_step_def by metis
    ultimately show ?thesis by (auto simp: image_iff)
  qed
  then have "filter (\<lambda>u. ?hs ! unat (Creator u) < Height u) es' = unknown_to es es'"
    unfolding unknown_to_def by (intro filter_cong) auto
  then show ?thesis using us by auto
qed

lemma Delta_answers:
  assumes ok: "ord_ok A" "ord_ok B"
    and "ord_previous A = Some p" "ord_current A = Some c" "\<not> WantsMoreUnits p" "\<not> WantsMoreUnits c"
    and "ord_previous B = Some p'" "ord_current B = Some c'" "ep_id p' = ep_id p" "ep_id c' = ep_id c"
    and "dag_reach mq n (ep_dag p) es" "dag_reach mq n (ep_dag p') es'" "in_step es es'"
    and "dag_reach mq n (ep_dag c) fs" "dag_reach mq n (ep_dag c') fs'" "in_step fs fs'" "0 < mq n" "n \<noteq> 0"
  shows "\<exists>us. Delta B (GetInfo A) = Some us \<and> mset us = mset (unknown_to es es') + mset (unknown_to fs fs')"
proof -
  have ids: "epochID (ep_dag p) = ep_id p" "epochID (ep_dag c) = ep_id c" "ep_id p < ep_id c"
    using ok assms(3,4) by (auto simp: ord_ok_def epoch_ok_def)
  have info: "GetInfo A = (Some (MaxView (ep_dag p)), Some (MaxView (ep_dag c)))" using assms(3-6) by (simp add: GetInfo_def)
  obtain us vs where us: "UnitsAbove (ep_dag p') (Some (di_Heights (MaxView (ep_dag p)))) = Some us" "mset us = mset (unknown_to es es')"
      "UnitsAbove (ep_dag c') (Some (di_Heights (MaxView (ep_dag c)))) = Some vs" "mset vs = mset (unknown_to fs fs')"
    using UnitsAbove_view [OF assms(11,12,17,18,13)] UnitsAbove_view [OF assms(14,15,17,18,16)] by blast
  have view: "di_Epoch (MaxView d) = epochID d" for d by (simp add: MaxView_def)
  have "Delta B (GetInfo A) = Some (us @ vs)"
    using ids assms(7-10) us(1,3) by (auto simp: Delta_def info deltaResolver_def above_in_def unitsAbove_ep_def view)
  then show ?thesis using us(2,4) by simp
qed

text \<open>
  One round of gossip is complete. When process A sends \<open>GetInfo\<close> and process B, in the same two epochs, answers with \<open>Delta\<close>,
  then B returns exactly the units of its two dags that A does not have, each once. This is for dags without forks, while
  neither epoch of A is finished.
\<close>

theorem gossip_complete:
  assumes "ord_reach t wtk nrs verify mq shake resolve A" "ord_reach t' wtk' nrs' verify' mq shake' resolve' B" "only_registers nrs" "only_registers nrs'"
    and "ord_previous A = Some p" "ord_current A = Some c" "\<not> WantsMoreUnits p" "\<not> WantsMoreUnits c"
    and "ord_previous B = Some p'" "ord_current B = Some c'" "ep_id p' = ep_id p" "ep_id c' = ep_id c"
    and "dag_reach mq n (ep_dag p) es" "dag_reach mq n (ep_dag p') es'" "in_step es es'"
    and "dag_reach mq n (ep_dag c) fs" "dag_reach mq n (ep_dag c') fs'" "in_step fs fs'" "0 < mq n" "n \<noteq> 0"
  shows "\<exists>us. Delta B (GetInfo A) = Some us \<and> mset us = mset (unknown_to es es') + mset (unknown_to fs fs')"
  by (rule Delta_answers [OF _ _ assms(5-20)]) (use ord_reach_ok assms(1-4) in blast)+

text \<open>
  \<open>Delta\<close> does not always return all units of newer epochs. An orderer that was just started has only epoch 0 and describes
  it; an orderer that is already in epoch 1, with a unit there, answers with nothing.
\<close>

theorem Delta_misses_newer_epoch:
  "\<exists>A B c. Start demo_nrs (New_orderer demo_levels) = Some A \<and> ord_reach t wtk demo_nrs (verify :: unit \<Rightarrow> preunit \<Rightarrow> bool) mq shake resolve B
     \<and> ord_current B = Some c \<and> ep_id c = 1 \<and> map_option (map Hash) (allUnits c) = Some [Hash (demo_unit 1 1 0)] \<and> Delta B (GetInfo A) = Some []"
proof -
  obtain B where B: "demo_order = Some B" "ord_reach t wtk demo_nrs verify mq shake resolve B" by (rule demo_order_reach)
  have "Start demo_nrs (New_orderer demo_levels) \<noteq> None" by code_simp
  then obtain A where A: "Start demo_nrs (New_orderer demo_levels) = Some A" by blast
  have "do { A \<leftarrow> Start demo_nrs (New_orderer demo_levels); B \<leftarrow> demo_order; Delta B (GetInfo A) } = Some []" by code_simp
  then have "Delta B (GetInfo A) = Some []" unfolding A B(1) by simp
  moreover have "map_option (\<lambda>B. map_option (\<lambda>c. (ep_id c, map_option (map Hash) (allUnits c))) (ord_current B)) demo_order
      = Some (Some (1, Some [Hash (demo_unit 1 1 0)]))" by code_simp
  ultimately show ?thesis using A B(2) unfolding B(1) by auto
qed

section \<open>An example\<close>

text \<open>Processes 2 and 1 are both in epoch 1, each with its own dealing unit there.\<close>

definition demo_peer :: "u16 \<Rightarrow> Unit \<Rightarrow> (unit, unit) orderer go" where
  "demo_peer pid u = do { o0 \<leftarrow> Start demo_nrs (New_orderer (demo_levels\<lparr>Pid := pid\<rparr>)); send_own demo_nrs o0 u }"

definition demo_dealing :: "u16 \<Rightarrow> u8 \<Rightarrow> preunit" where
  "demo_dealing pid h = (demo_pu pid [-1, -1, -1] h)\<lparr>pu_epochID := 1\<rparr>"

abbreviation demo_sent :: "u16 \<Rightarrow> u8 \<Rightarrow> Unit" where
  "demo_sent pid h \<equiv> freeUnit (demo_dealing pid h) [None, None, None] 0 []"

lemma demo_peer_epochs:
  assumes "demo_peer pid u = Some ord" "Creator u = pid" "Epoch u = 1"
  obtains p c where "ord_reach t wtk demo_nrs verify mq shake resolve ord" "ord_previous ord = Some p" "ord_current ord = Some c"
    "\<not> WantsMoreUnits p" "\<not> WantsMoreUnits c" "ep_id p = 0" "ep_id c = 1" "ep_dag p = New_core 3 5 0"
    "insert_core (New_core 3 5 1) (Embed u (New_core 3 5 1)) = Some (ep_dag c)"
proof -
  let ?cnf = "demo_levels\<lparr>Pid := pid\<rparr>"
  obtain o0 where o: "Start demo_nrs (New_orderer ?cnf) = Some o0" "send_own demo_nrs o0 u = Some ord"
    using assms(1) by (auto simp: demo_peer_def bind_eq_Some_conv)
  let ?p = "newEpoch_ep demo_nrs 0 ?cnf" and ?n = "newEpoch_ep demo_nrs 1 ?cnf"
  have id: "ep_id (newEpoch_ep demo_nrs e ?cnf) = e" for e by (simp add: newEpoch_ep_def Let_def split: prod.splits)
  have new: "ep_dag (newEpoch_ep demo_nrs e ?cnf) = New_core 3 5 e" "\<not> WantsMoreUnits (newEpoch_ep demo_nrs e ?cnf)" for e
    by (simp_all add: newEpoch_ep_def demo_nrs_def New_adder_def New_dag_def AfterInsert_def WantsMoreUnits_def demo_levels_def demo_conf3_def)
  have o0: "o0 = (New_orderer ?cnf)\<lparr>ord_current := Some ?p, ord_ticking := True\<rparr>"
    using o(1) by (simp add: Start_def newEpoch_ord_def New_orderer_def)
  obtain d h where d: "Insert (ad_dag (ep_adder ?n)) u (ad_hooks (ep_adder ?n)) = Some (d, h)"
      "ord_previous ord = Some ?p" "ord_current ord = Some (?n\<lparr>ep_adder := (ep_adder ?n)\<lparr>ad_dag := d, ad_hooks := h\<rparr>\<rparr>)"
    using o(2) assms(2,3) id unfolding o0
    by (auto simp: send_own_def insert_own_def getEpoch_def newEpoch_ord_def New_orderer_def deref_def assign_def Let_def bind_eq_Some_conv)
  have "insert_core (New_core 3 5 1) (Embed u (New_core 3 5 1)) = Some (core d)"
    using d(1) new(1) [of 1] by (auto simp: Insert_def Let_def bind_eq_Some_conv)
  then show thesis
    using that [OF ord_reach.own [OF ord_reach.start [OF o(1)] o(2)] d(2,3)] new id by (simp add: WantsMoreUnits_def)
qed

lemma demo_dealing_dag:
  assumes "insert_core (New_core 3 5 1) (Embed (demo_sent pid h) (New_core 3 5 1)) = Some d"
    and "preunit_ok 3 (demo_dealing pid h)" "DecodeParents (New_core 3 5 1) (demo_dealing pid h) = Some (Inr [None, None, None])"
    and "run_checks consensusChecks (demo_sent pid h) (New_core 3 5 1) = None"
    and "BuildUnit demo_mq (demo_dealing pid h) [None, None, None] = demo_sent pid h"
  shows "dag_reach demo_mq 3 d [Embed (demo_sent pid h) (New_core 3 5 1)]"
  using dag_reach.grow [OF dag_reach.start [of 5 demo_mq 3 1] assms(2,3)] assms(1,4,5) by simp

theorem gossip_complete_witness:
  "\<exists>A B us. demo_peer 2 (demo_sent 2 1) = Some A \<and> demo_peer 1 (demo_sent 1 5) = Some B \<and> Delta B (GetInfo A) = Some us
     \<and> mset us = {#Embed (demo_sent 1 5) (New_core 3 5 1)#}"
proof -
  let ?a = "Embed (demo_sent 2 1) (New_core 3 5 1)" and ?b = "Embed (demo_sent 1 5) (New_core 3 5 1)"
  have "demo_peer 2 (demo_sent 2 1) \<noteq> None" "demo_peer 1 (demo_sent 1 5) \<noteq> None" by code_simp+
  then obtain A B where AB: "demo_peer 2 (demo_sent 2 1) = Some A" "demo_peer 1 (demo_sent 1 5) = Some B" by blast
  have e: "Creator (demo_sent 2 1) = 2" "Epoch (demo_sent 2 1) = 1" "Creator (demo_sent 1 5) = 1" "Epoch (demo_sent 1 5) = 1" by code_simp+
  obtain p c where A: "ord_reach undefined None demo_nrs (\<lambda>_ _. True) demo_mq demo_sum (ResolveMissingCommitment (\<lambda>_ _. None)) A"
      "ord_previous A = Some p" "ord_current A = Some c" "\<not> WantsMoreUnits p" "\<not> WantsMoreUnits c" "ep_id p = 0" "ep_id c = 1"
      "ep_dag p = New_core 3 5 0" "insert_core (New_core 3 5 1) ?a = Some (ep_dag c)"
    by (rule demo_peer_epochs [OF AB(1) e(1,2)])
  obtain p' c' where B: "ord_reach undefined None demo_nrs (\<lambda>_ _. True) demo_mq demo_sum (ResolveMissingCommitment (\<lambda>_ _. None)) B"
      "ord_previous B = Some p'" "ord_current B = Some c'" "\<not> WantsMoreUnits p'" "\<not> WantsMoreUnits c'" "ep_id p' = 0" "ep_id c' = 1"
      "ep_dag p' = New_core 3 5 0" "insert_core (New_core 3 5 1) ?b = Some (ep_dag c')"
    by (rule demo_peer_epochs [OF AB(2) e(3,4)])
  have 1: "dag_reach demo_mq 3 (ep_dag c) [?a]" by (rule demo_dealing_dag [OF A(9)]) code_simp+
  have 2: "dag_reach demo_mq 3 (ep_dag c') [?b]" by (rule demo_dealing_dag [OF B(9)]) code_simp+
  have 3: "dag_reach demo_mq 3 (ep_dag p) []" "dag_reach demo_mq 3 (ep_dag p') []" unfolding A(8) B(8) by (rule dag_reach.start; simp)+
  have 4: "in_step [] []" "in_step [?a] [?b]" "unknown_to [] [] = []" "unknown_to [?a] [?b] = [?b]" "0 < demo_mq 3" "(3 :: u16) \<noteq> 0"
    by (simp add: in_step_def, (code_simp; fail)+)
  have ids: "ep_id p' = ep_id p" "ep_id c' = ep_id c" using A(6,7) B(6,7) by simp_all
  from gossip_complete [OF A(1) B(1) demo_registers demo_registers A(2-5) B(2,3) ids 3 4(1) 1 2 4(2,5,6)] show ?thesis
    using AB 4(3,4) by auto
qed

end
