(* ===== verification/Chunks.thy ===== *)
theory Chunks
  imports Encoding
begin

text \<open>
  Correctness of \<open>sortChunk\<close> (\<open>pkg/encoding/public.go\<close>) and of the encoding of chunks: the memo
  of \<open>computeLayer\<close> computes the layers, the sorted chunk is a permutation of the units in
  ascending epochs with parents before children, and a chunk decodes to the sorted preunits.
\<close>

section \<open>Layers\<close>

text \<open>The layer of a unit without the memo: units outside the chunk are at layer 0.\<close>

function layer_of :: "Unit set \<Rightarrow> Unit option \<Rightarrow> int" where
  "layer_of S v =
     (case v of
        None \<Rightarrow> 0
      | Some u \<Rightarrow>
          if u \<in> S then foldl (\<lambda>m p. if layer_of S p > m then layer_of S p else m) 0 (Parents u) + 1 else 0)"
  by pat_completeness auto
termination
  by (relation "measure (\<lambda>(S, v). case v of None \<Rightarrow> 0 | Some u \<Rightarrow> Suc (size u))")
    (auto split: option.splits dest: parent_size)

declare layer_of.simps [simp del]

lemma foldl_max_ge:
  fixes f :: "'a \<Rightarrow> int"
  shows "m \<le> foldl (\<lambda>m p. if f p > m then f p else m) m ps"
    and "p \<in> set ps \<Longrightarrow> f p \<le> foldl (\<lambda>m p. if f p > m then f p else m) m ps"
proof -
  have ge: "m \<le> foldl (\<lambda>m p. if f p > m then f p else m) m ps" for m ps
  proof (induction ps arbitrary: m)
    case (Cons a ps)
    show ?case using Cons.IH [of "if f a > m then f a else m"] by (simp split: if_splits)
  qed simp
  then show "m \<le> foldl (\<lambda>m p. if f p > m then f p else m) m ps" .
  show "p \<in> set ps \<Longrightarrow> f p \<le> foldl (\<lambda>m p. if f p > m then f p else m) m ps"
  proof (induction ps arbitrary: m)
    case (Cons a ps)
    then show ?case using ge [of "if f a > m then f a else m" ps] by (auto split: if_splits)
  qed simp
qed

lemma layer_of_nonneg: "0 \<le> layer_of S v"
  using foldl_max_ge(1) [of 0 "layer_of S"] by (subst layer_of.simps) (auto split: option.splits intro: add_nonneg_nonneg)

lemma layer_of_parent:
  assumes "u \<in> S" "Some p \<in> set (Parents u)"
  shows "layer_of S (Some p) < layer_of S (Some u)"
proof -
  have "layer_of S (Some u) = foldl (\<lambda>m p. if layer_of S p > m then layer_of S p else m) 0 (Parents u) + 1"
    using assms(1) by (subst layer_of.simps) simp
  then show ?thesis using foldl_max_ge(2) [OF assms(2), of "layer_of S" 0] by simp
qed

text \<open>The memo holds final layers, or \<open>-1\<close> for units of the chunk not computed yet.\<close>

definition memo_ok :: "Unit set \<Rightarrow> layers \<Rightarrow> bool" where
  "memo_ok S L \<longleftrightarrow> (\<forall>v. L v = layer_of S v \<or> (L v = -1 \<and> v \<in> Some ` S))"

definition memo_le :: "layers \<Rightarrow> layers \<Rightarrow> bool" where
  "memo_le L L' \<longleftrightarrow> (\<forall>v. L v \<noteq> -1 \<longrightarrow> L' v \<noteq> -1)"

lemma memo_le_trans: "memo_le L L' \<Longrightarrow> memo_le L' L'' \<Longrightarrow> memo_le L L''"
  by (simp add: memo_le_def)

lemma computeLayer_fold:
  assumes "\<And>p L. p \<in> set ps \<Longrightarrow> memo_ok S L \<Longrightarrow>
      \<exists>L'. computeLayer p L = (layer_of S p, L') \<and> memo_ok S L' \<and> memo_le L L'"
  shows "memo_ok S L \<Longrightarrow> \<exists>L'.
    foldl (\<lambda>st p. case st of (maxParentLayer, layers) \<Rightarrow>
        (case computeLayer p layers of (cl, layers') \<Rightarrow>
           (if cl > maxParentLayer then cl else maxParentLayer, layers'))) (m, L) ps
      = (foldl (\<lambda>m p. if layer_of S p > m then layer_of S p else m) m ps, L') \<and> memo_ok S L' \<and> memo_le L L'"
  using assms
proof (induction ps arbitrary: m L)
  case (Cons p ps)
  obtain L1 where 1: "computeLayer p L = (layer_of S p, L1)" "memo_ok S L1" "memo_le L L1"
    using Cons.prems by (metis list.set_intros(1))
  have "\<exists>L'. foldl (\<lambda>st p. case st of (maxParentLayer, layers) \<Rightarrow>
        (case computeLayer p layers of (cl, layers') \<Rightarrow>
           (if cl > maxParentLayer then cl else maxParentLayer, layers')))
        (if layer_of S p > m then layer_of S p else m, L1) ps
      = (foldl (\<lambda>m p. if layer_of S p > m then layer_of S p else m) (if layer_of S p > m then layer_of S p else m) ps, L')
        \<and> memo_ok S L' \<and> memo_le L1 L'"
    using Cons.prems(2) by (intro Cons.IH [OF 1(2)]) simp
  then show ?case using 1 memo_le_trans by fastforce
qed (simp add: memo_le_def)

lemma computeLayer_correct:
  "memo_ok S L \<Longrightarrow> \<exists>L'. computeLayer v L = (layer_of S v, L') \<and> memo_ok S L' \<and> memo_le L L'"
proof (induction "case v of None \<Rightarrow> 0 | Some u \<Rightarrow> Suc (size u)" arbitrary: v L rule: less_induct)
  case less
  show ?case
  proof (cases "L v = -1")
    case False
    then have "L v = layer_of S v" using less.prems by (auto simp: memo_ok_def)
    then show ?thesis using False less.prems by (subst computeLayer.simps) (simp add: memo_le_def)
  next
    case True
    then have "L v \<noteq> layer_of S v" using layer_of_nonneg [of S v] by simp
    then have "v \<in> Some ` S" using less.prems unfolding memo_ok_def by blast
    then obtain u where u: "v = Some u" "u \<in> S" by blast
    have IH: "\<exists>L'. computeLayer p L = (layer_of S p, L') \<and> memo_ok S L' \<and> memo_le L L'"
      if "p \<in> set (Parents u)" "memo_ok S L" for p L
      using that u by (intro less.hyps) (auto split: option.splits dest: parent_size)
    obtain L' where f: "foldl (\<lambda>st p. case st of (maxParentLayer, layers) \<Rightarrow>
        (case computeLayer p layers of (cl, layers') \<Rightarrow>
           (if cl > maxParentLayer then cl else maxParentLayer, layers'))) (0, L) (Parents u)
      = (foldl (\<lambda>m p. if layer_of S p > m then layer_of S p else m) 0 (Parents u), L')" "memo_ok S L'" "memo_le L L'"
      using computeLayer_fold [OF IH less.prems, of "Parents u" 0] by blast
    have l: "layer_of S v = foldl (\<lambda>m p. if layer_of S p > m then layer_of S p else m) 0 (Parents u) + 1"
      using u by (subst layer_of.simps) simp
    have "computeLayer v L = (layer_of S v, L'(v := layer_of S v))"
      using True u(1) f(1) l by (subst computeLayer.simps) simp
    moreover have "memo_ok S (L'(v := layer_of S v))" using f(2) by (auto simp: memo_ok_def)
    moreover have "memo_le L (L'(v := layer_of S v))"
      using f(3) layer_of_nonneg [of S v] by (auto simp: memo_le_def)
    ultimately show ?thesis by blast
  qed
qed

lemma memo_fold:
  assumes "\<And>L u. memo_ok S L \<Longrightarrow> memo_ok S (step L u) \<and> memo_le L (step L u) \<and> step L u (Some u) \<noteq> -1"
  shows "memo_ok S L \<Longrightarrow> memo_ok S (foldl step L xs) \<and> memo_le L (foldl step L xs)
    \<and> (\<forall>u \<in> set xs. foldl step L xs (Some u) \<noteq> -1)"
proof (induction xs arbitrary: L)
  case (Cons x xs)
  show ?case using Cons.IH [of "step L x"] assms [OF Cons.prems, of x] by (auto simp: memo_le_def)
qed (simp add: memo_le_def)

lemma all_layers_correct:
  assumes "u \<in> set us"
  shows "all_layers us (Some u) = layer_of (set us) (Some u)"
proof -
  let ?S = "set us"
  let ?step = "\<lambda>L u. case computeLayer (Some u) L of (l, L') \<Rightarrow> L'(Some u := l)"
  have init: "foldl (\<lambda>L u. L(Some u := -1)) L0 xs v = (if v \<in> Some ` set xs then -1 else L0 v)" for xs v and L0 :: layers
    by (induction xs arbitrary: L0) auto
  have out: "layer_of ?S v = 0" if "v \<notin> Some ` ?S" for v
    using that by (subst layer_of.simps) (auto split: option.splits)
  have start: "memo_ok ?S (foldl (\<lambda>L u. L(Some u := -1)) (\<lambda>_. 0) us)"
    using out by (auto simp: memo_ok_def init)
  have step: "memo_ok ?S (?step L u) \<and> memo_le L (?step L u) \<and> ?step L u (Some u) \<noteq> -1" if ok: "memo_ok ?S L" for L u
  proof -
    obtain L' where c: "computeLayer (Some u) L = (layer_of ?S (Some u), L')" "memo_ok ?S L'" "memo_le L L'"
      using computeLayer_correct [OF ok] by blast
    have "layer_of ?S (Some u) \<noteq> -1" using layer_of_nonneg [of ?S "Some u"] by simp
    then show ?thesis using c by (auto simp: memo_ok_def memo_le_def)
  qed
  from memo_fold [of ?S ?step, OF step start, of us] have "memo_ok ?S (all_layers us)" "all_layers us (Some u) \<noteq> -1"
    using assms by (auto simp: all_layers_def)
  then show ?thesis by (auto simp: memo_ok_def)
qed


section \<open>The loops of \<open>sortChunk\<close>\<close>

definition epochs :: "u32 \<Rightarrow> u32 \<Rightarrow> u32 list" where
  "epochs a b = map of_nat [unat a..<Suc (unat b)]"

lemma unat_plus_one: "(a :: 'a::len word) \<noteq> - 1 \<Longrightarrow> unat (a + 1) = Suc (unat a)"
proof -
  assume "a \<noteq> - 1"
  then have "1 + a \<noteq> 0" by (metis add.commute add_eq_0_iff add.inverse_inverse)
  then show ?thesis using unatSuc [of a] by (simp add: add.commute)
qed

lemma epochs_Cons: "a \<le> b \<Longrightarrow> b \<noteq> - 1 \<Longrightarrow> epochs a b = a # epochs (a + 1) b"
proof -
  assume a: "a \<le> b" "b \<noteq> - 1"
  have "a \<noteq> - 1" using a by (metis word_order.extremum_unique)
  then have "unat (a + 1) = Suc (unat a)" by (rule unat_plus_one)
  then show ?thesis using a by (simp add: epochs_def upt_conv_Cons word_le_nat_alt del: upt_Suc)
qed

lemma epoch_loop_returns:
  assumes "maxE \<noteq> - 1"
  shows "epoch_loop body e maxE acc = Some (acc @ concat (map body (epochs e maxE)))"
proof (induction "Suc (unat maxE) - unat e" arbitrary: e acc)
  case 0
  then have "\<not> e \<le> maxE" by (simp add: word_le_nat_alt)
  then show ?case using 0 by (subst epoch_loop.simps) (simp add: epochs_def)
next
  case (Suc k)
  then have le: "e \<le> maxE" by (simp add: word_le_nat_alt)
  have "e \<noteq> - 1" using le assms by (metis word_order.extremum_unique)
  then have "unat (e + 1) = Suc (unat e)" by (rule unat_plus_one)
  then have "epoch_loop body (e + 1) maxE (acc @ body e)
      = Some ((acc @ body e) @ concat (map body (epochs (e + 1) maxE)))"
    using Suc by (intro Suc.hyps) simp
  then show ?case using le epochs_Cons [OF le assms] by (subst epoch_loop.simps) simp
qed

lemma epoch_loop_diverges: "epoch_loop body e (- 1) acc = None"
proof -
  have "m \<noteq> - 1" if "epoch_loop body e m acc = Some r" for body :: "u32 \<Rightarrow> 'a list" and e m acc r
    by (rule epoch_loop.raw_induct [OF _ that, of "\<lambda>_ _ m _ _. m \<noteq> - 1"]) (auto split: if_splits)
  then show ?thesis by (metis not_None_eq)
qed

lemma set_epochs: "x \<in> set (epochs a b) \<longleftrightarrow> a \<le> x \<and> x \<le> b"
proof
  assume "x \<in> set (epochs a b)"
  then obtain i where i: "unat a \<le> i" "i < Suc (unat b)" "x = of_nat i" by (auto simp: epochs_def)
  then have "unat x = i" using unat_of_nat_le [of i b] by simp
  then show "a \<le> x \<and> x \<le> b" using i by (simp add: word_le_nat_alt)
next
  assume "a \<le> x \<and> x \<le> b"
  then have "unat a \<le> unat x" "unat x < Suc (unat b)" "x = of_nat (unat x)" by (simp_all add: word_le_nat_alt)
  then show "x \<in> set (epochs a b)" unfolding epochs_def set_map
    by (intro image_eqI [of _ _ "unat x"]) (simp_all del: upt_Suc)
qed

lemma sorted_epochs: "sorted_wrt (<) (epochs a b)"
proof -
  have "of_nat i < (of_nat j :: u32)" if "i < j" "j \<le> unat b" for i j
    using that unat_of_nat_le [of i b] unat_of_nat_le [of j b] by (simp add: word_less_nat_alt)
  then have "sorted_wrt (\<lambda>i j. of_nat i < (of_nat j :: u32)) [unat a..<Suc (unat b)]"
    by (intro sorted_wrt_mono_rel [OF _ sorted_wrt_upt]) (simp del: upt_Suc)
  then show ?thesis by (simp add: epochs_def sorted_wrt_map del: upt_Suc)
qed

text \<open>The greatest and smallest epoch of a chunk.\<close>

lemma foldl_max_epoch:
  fixes m :: u32
  shows "m \<le> foldl (\<lambda>e u. if Epoch u > e then Epoch u else e) m us"
    and "u \<in> set us \<Longrightarrow> Epoch u \<le> foldl (\<lambda>e u. if Epoch u > e then Epoch u else e) m us"
    and "foldl (\<lambda>e u. if Epoch u > e then Epoch u else e) m us \<in> insert m (Epoch ` set us)"
proof -
  show ge: "m \<le> foldl (\<lambda>e u. if Epoch u > e then Epoch u else e) m us" for m us
  proof (induction us arbitrary: m)
    case (Cons a us)
    show ?case using Cons.IH [of "if Epoch a > m then Epoch a else m"] by (auto split: if_splits)
  qed simp
  show "u \<in> set us \<Longrightarrow> Epoch u \<le> foldl (\<lambda>e u. if Epoch u > e then Epoch u else e) m us"
  proof (induction us arbitrary: m)
    case (Cons a us)
    then show ?case using ge [of "if Epoch a > m then Epoch a else m" us] by (auto split: if_splits)
  qed simp
  show "foldl (\<lambda>e u. if Epoch u > e then Epoch u else e) m us \<in> insert m (Epoch ` set us)"
    by (induction us arbitrary: m) auto
qed

lemma foldl_min_epoch:
  fixes m :: u32
  shows "u \<in> set us \<Longrightarrow> foldl (\<lambda>e u. if Epoch u < e then Epoch u else e) m us \<le> Epoch u"
proof -
  have ge: "foldl (\<lambda>e u. if Epoch u < e then Epoch u else e) m us \<le> m" for m us
  proof (induction us arbitrary: m)
    case (Cons a us)
    show ?case using Cons.IH [of "if Epoch a < m then Epoch a else m"] by (auto split: if_splits)
  qed simp
  show "u \<in> set us \<Longrightarrow> foldl (\<lambda>e u. if Epoch u < e then Epoch u else e) m us \<le> Epoch u"
  proof (induction us arbitrary: m)
    case (Cons a us)
    then show ?case using ge [of "if Epoch a < m then Epoch a else m" us] by (auto split: if_splits)
  qed simp
qed


section \<open>Sorted chunks\<close>

text \<open>The keys \<open>(epoch, layer)\<close> in the order in which the loops visit them.\<close>

definition chunk_keys :: "u32 \<Rightarrow> u32 \<Rightarrow> int \<Rightarrow> (u32 \<times> int) list" where
  "chunk_keys a b maxLayer = concat (map (\<lambda>e. map (Pair e) [0..maxLayer]) (epochs a b))"

lemma sorted_chunk_keys:
  "sorted_wrt (\<lambda>(e, l) (e', l'). e < e' \<or> e = e' \<and> l < l') (chunk_keys a b m)"
proof -
  have "sorted_wrt (<) es \<Longrightarrow>
      sorted_wrt (\<lambda>(e, l) (e', l'). e < e' \<or> e = e' \<and> l < l') (concat (map (\<lambda>e. map (Pair e) [0..m]) es))" for es :: "u32 list"
  proof (induction es)
    case (Cons e es)
    have "sorted_wrt (\<lambda>(e, l) (e', l'). e < e' \<or> e = e' \<and> l < l') (map (Pair e) [0..m])"
      using sorted_wrt_upto [of 0 m] by (simp add: sorted_wrt_map)
    then show ?case using Cons by (auto simp: sorted_wrt_append)
  qed simp
  then show ?thesis using sorted_epochs by (simp add: chunk_keys_def)
qed

lemma sortChunk_eq:
  assumes "us \<noteq> []" "\<forall>u \<in> set us. Epoch u \<noteq> - 1"
  shows "\<exists>ks. sortChunk us = Some (concat (map (\<lambda>k. filter (\<lambda>u. (Epoch u, layer_of (set us) (Some u)) = k) us) ks))
    \<and> sorted_wrt (\<lambda>(e, l) (e', l'). e < e' \<or> e = e' \<and> l < l') ks
    \<and> (\<forall>u \<in> set us. (Epoch u, layer_of (set us) (Some u)) \<in> set ks)"
proof -
  obtain u0 us' where us: "us = u0 # us'" using assms(1) by (cases us) auto
  let ?L = "all_layers us"
  define m where "m = foldl (\<lambda>m u. if ?L (Some u) > m then ?L (Some u) else m) (-1) us"
  define b where "b = foldl (\<lambda>e u. if Epoch u > e then Epoch u else e) (Epoch u0) us"
  define a where "a = foldl (\<lambda>e u. if Epoch u < e then Epoch u else e) (Epoch u0) us"
  let ?ks = "chunk_keys a b m"
  have "b \<in> insert (Epoch u0) (Epoch ` set us)" unfolding b_def by (rule foldl_max_epoch(3))
  then have b: "b \<noteq> - 1" using assms(2) us by auto
  have filt: "filter (\<lambda>u. Epoch u = e \<and> ?L (Some u) = l) us
      = filter (\<lambda>u. (Epoch u, layer_of (set us) (Some u)) = (e, l)) us" for e l
    using all_layers_correct by (intro filter_cong) auto
  have "sortChunk us = epoch_loop (\<lambda>e. concat (map (\<lambda>l. filter (\<lambda>u. Epoch u = e \<and> ?L (Some u) = l) us) [0..m])) a b []"
    by (simp only: sortChunk_def Let_def a_def b_def m_def split: list.split) (use us in simp)
  then have "sortChunk us = Some (concat (map (\<lambda>e. concat (map (\<lambda>l. filter (\<lambda>u. Epoch u = e \<and> ?L (Some u) = l) us) [0..m])) (epochs a b)))"
    by (simp add: epoch_loop_returns [OF b])
  also have "\<dots> = Some (concat (map (\<lambda>k. filter (\<lambda>u. (Epoch u, layer_of (set us) (Some u)) = k) us) ?ks))"
    unfolding filt chunk_keys_def concat_map_concat by (simp add: comp_def)
  finally have 1: "sortChunk us = Some (concat (map (\<lambda>k. filter (\<lambda>u. (Epoch u, layer_of (set us) (Some u)) = k) us) ?ks))" .
  have "(Epoch u, layer_of (set us) (Some u)) \<in> set ?ks" if u: "u \<in> set us" for u
  proof -
    have "a \<le> Epoch u" "Epoch u \<le> b" using u foldl_min_epoch foldl_max_epoch(2) by (auto simp: a_def b_def)
    moreover have "?L (Some u) \<le> m" unfolding m_def using foldl_max_ge(2) [OF u, of "\<lambda>u. ?L (Some u)"] .
    ultimately show ?thesis using all_layers_correct [OF u] layer_of_nonneg [of "set us" "Some u"]
      by (auto simp: chunk_keys_def set_epochs intro!: bexI [of _ "Epoch u"])
  qed
  then show ?thesis using 1 sorted_chunk_keys by blast
qed

lemma sortChunk_sorted:
  assumes "\<forall>u \<in> set us. Epoch u \<noteq> - 1"
  shows "\<exists>vs. sortChunk us = Some vs \<and> mset vs = mset us
    \<and> sorted_wrt (\<lambda>u v. Epoch u \<le> Epoch v \<and> (Epoch u = Epoch v \<longrightarrow> Some v \<notin> set (Parents u))) vs"
proof (cases "us = []")
  case True
  then show ?thesis by (simp add: sortChunk_def)
next
  case False
  let ?key = "\<lambda>u. (Epoch u, layer_of (set us) (Some u))"
  obtain ks where ks: "sortChunk us = Some (concat (map (\<lambda>k. filter (\<lambda>u. ?key u = k) us) ks))"
      "sorted_wrt (\<lambda>(e, l) (e', l'). e < e' \<or> e = e' \<and> l < l') ks" "\<forall>u \<in> set us. ?key u \<in> set ks"
    using sortChunk_eq [OF False assms] by blast
  have "distinct ks"
    using ks(2) by (rule sorted_wrt_distinct) (simp split: prod.splits)
  then have "mset (concat (map (\<lambda>k. filter (\<lambda>u. ?key u = k) us) ks)) = mset (filter (\<lambda>u. ?key u \<in> set ks) us)"
    by (rule mset_concat_by_key)
  moreover have "filter (\<lambda>u. ?key u \<in> set ks) us = us" using ks(3) by (simp add: filter_id_conv)
  moreover have "sorted_wrt (\<lambda>u v. Epoch u \<le> Epoch v \<and> (Epoch u = Epoch v \<longrightarrow> Some v \<notin> set (Parents u)))
      (concat (map (\<lambda>k. filter (\<lambda>u. ?key u = k) us) ks))"
    using ks(2) by (rule sorted_wrt_concat_by_key) (auto dest: layer_of_parent)
  ultimately show ?thesis using ks(1) by auto
qed

text \<open>
  \<open>sortChunk\<close> returns a permutation of its units, in ascending epochs, in which no unit of
  the chunk comes before one of its parents of the same epoch.
\<close>

theorem sortChunk_correct:
  assumes "\<forall>u \<in> set us. Epoch u \<noteq> - 1"
  shows "\<exists>vs. sortChunk us = Some vs \<and> mset vs = mset us
    \<and> sorted_wrt (\<lambda>u v. Epoch u \<le> Epoch v \<and> (Epoch u = Epoch v \<longrightarrow> Some v \<notin> set (Parents u))) vs"
  using assms by (rule sortChunk_sorted)


text \<open>A chunk of one process: a dealing unit of epoch 1 and, listed before them, two of epoch 2.\<close>

definition demo_unit :: "u32 \<Rightarrow> int \<Rightarrow> u8 \<Rightarrow> Unit option \<Rightarrow> Unit" where
  "demo_unit e ht h p = freeUnit \<lparr>pu_creator = 0, pu_epochID = e, pu_height = ht, pu_signature = replicate 64 0,
     pu_hash = replicate 32 h, pu_crown = \<lparr>Heights = [ht - 1], ControlHash = replicate 32 0\<rparr>, pu_data = [7], pu_rsData = Some []\<rparr>
     [p] ht []"

definition demo_chunk :: "Unit list" where
  "demo_chunk = (let a = demo_unit 2 0 1 None in [demo_unit 2 1 2 (Some a), a, demo_unit 1 0 3 None])"

theorem sortChunk_correct_witness:
  "\<exists>vs. sortChunk demo_chunk = Some vs \<and> mset vs = mset demo_chunk"
proof -
  have "\<forall>u \<in> set demo_chunk. Epoch u \<noteq> - 1" by code_simp
  then show ?thesis using sortChunk_correct by blast
qed

text \<open>
  With a unit of the last epoch \<open>2^32 - 1\<close> in the chunk, the loop over epochs wraps around and
  \<open>sortChunk\<close> does not return.
\<close>

theorem sortChunk_last_epoch_diverges:
  assumes "u \<in> set us" "Epoch u = - 1"
  shows "sortChunk us = None"
proof -
  obtain u0 us' where us: "us = u0 # us'" using assms(1) by (cases us) auto
  have "Epoch u \<le> foldl (\<lambda>e u. if Epoch u > e then Epoch u else e) (Epoch u0) us"
    using foldl_max_epoch(2) [OF assms(1)] .
  then have m: "foldl (\<lambda>e u. if Epoch u > e then Epoch u else e) (Epoch u0) us = - 1"
    using assms(2) by (simp add: word_order.extremum_unique)
  show ?thesis
    by (simp only: sortChunk_def Let_def split: list.split)
      (use us m epoch_loop_diverges in \<open>auto simp del: foldl_Cons\<close>)
qed

theorem sortChunk_last_epoch_diverges_witness:
  "sortChunk [demo_unit (- 1) 0 1 None] = None"
proof -
  have "Epoch (demo_unit (- 1) 0 1 None) = - 1" by (simp add: demo_unit_def)
  then show ?thesis using sortChunk_last_epoch_diverges [of "demo_unit (- 1) 0 1 None"] by simp
qed

section \<open>The public encodings round-trip\<close>

lemma encode_units_enc_all: "encode_units us = unit_codec.enc_all (map Some us)"
  by (induction us) simp_all

text \<open>
  C33: \<open>DecodePreunit\<close> inverts \<open>EncodeUnit\<close> on every preunit the format can carry, except that a
  nil slice of random source data comes back as an empty one.
\<close>

theorem EncodeUnit_roundtrip:
  assumes "valid_preunit shake u"
  shows "\<exists>bs. EncodeUnit (Some u) = Some bs
    \<and> DecodePreunit shake bs = Some (Inr (Some (u\<lparr>pu_rsData := Some (bytes_of (pu_rsData u))\<rparr>)))"
proof -
  obtain crown where "encodeCrown (pu_crown u) = Some crown"
    using crown_codec.enc_total [of "pu_crown u"] assms by (auto simp: valid_preunit_def)
  then obtain bs where e: "encodeUnit (Some u) = Some bs" using encodeUnit_Some [OF assms] by blast
  then show ?thesis
    using decodePreunit_encode [OF assms e, of "[]"] by (simp add: EncodeUnit_def DecodePreunit_def)
qed

definition demo_shake :: "bytes \<Rightarrow> hash" where
  "demo_shake bs = replicate 31 0 @ [of_nat (length bs)]"

definition demo_preunit :: preunit where
  "demo_preunit = \<lparr>pu_creator = 1, pu_epochID = 3, pu_height = 5, pu_signature = replicate 64 9,
     pu_hash = replicate 31 0 @ [52], pu_crown = \<lparr>Heights = [-1, 4], ControlHash = replicate 32 7\<rparr>,
     pu_data = [1, 2], pu_rsData = Some [3, 4]\<rparr>"

lemma demo_preunit_valid: "valid_preunit demo_shake demo_preunit"
proof -
  have "NewPreunit demo_shake (UnitID demo_preunit) (pu_crown demo_preunit) (pu_data demo_preunit)
      (pu_rsData demo_preunit) (pu_signature demo_preunit) = Some demo_preunit" "UnitID demo_preunit \<noteq> - 1"
    by code_simp+
  then show ?thesis
    by (simp add: valid_preunit_def valid_crown_def valid_height_def demo_preunit_def HashLength_def
        MaxDataBytesPerUnit_def MaxRandomSourceDataBytesPerUnit_def)
qed

theorem EncodeUnit_roundtrip_witness:
  "\<exists>bs. EncodeUnit (Some demo_preunit) = Some bs
    \<and> DecodePreunit demo_shake bs = Some (Inr (Some demo_preunit))"
proof -
  have "demo_preunit\<lparr>pu_rsData := Some (bytes_of (pu_rsData demo_preunit))\<rparr> = demo_preunit"
    by (simp add: demo_preunit_def)
  then show ?thesis using EncodeUnit_roundtrip [OF demo_preunit_valid] by simp
qed

text \<open>
  \<open>ReadChunk\<close> of what \<open>WriteChunk\<close> wrote returns the preunits of the chunk in the order of
  \<open>sortChunk\<close> and leaves the rest of the stream; a chunk of more than a million units is refused.
\<close>

theorem WriteChunk_roundtrip:
  assumes "\<forall>u \<in> set us. Epoch u \<noteq> - 1 \<and> valid_preunit shake (preunit_of u) \<and> pu_rsData (preunit_of u) \<noteq> None"
  shows "if length us > MaxUnitsInChunk
    then WriteChunk us = Some (Inl (WireError ''chunk contains too many units''))
    else \<exists>bs vs. WriteChunk us = Some (Inr bs) \<and> sortChunk us = Some vs
      \<and> ReadChunk shake (bs @ rest) = Some (Inr (map (Some \<circ> preunit_of) vs, rest))"
proof (cases "length us > MaxUnitsInChunk")
  case True
  then show ?thesis by (simp add: WriteChunk_def encodeChunk_def)
next
  case False
  obtain vs where vs: "sortChunk us = Some vs" "mset vs = mset us" using sortChunk_sorted assms by blast
  have l: "length vs = length us" and s: "set vs = set us" using vs(2) by (metis size_mset, metis set_mset_mset)
  have v: "\<forall>x \<in> set (map Some (map preunit_of vs)). valid_unit shake x" using assms s by (auto simp: valid_unit_def)
  obtain body where b: "encode_units (map preunit_of vs) = Some body"
    using unit_codec.enc_all_total [OF v] by (auto simp: encode_units_enc_all)
  have "unat (of_nat (length us) :: u32) = length us"
    using False unat_length32 [of us] by (simp add: MaxUnitsInChunk_def)
  moreover have "read_n (length vs) (decodePreunit shake) (body @ rest) = Some (Inr (map (Some \<circ> preunit_of) vs, rest))"
    using unit_codec.read_n_enc_all [OF v] b by (simp add: encode_units_enc_all)
  ultimately show ?thesis
    using False vs(1) b l
    by (simp add: WriteChunk_def encodeChunk_def ReadChunk_def decodeChunk_def decodeUint32_def encodeUint32_def
        rbind_Inr wire_simps)
qed

theorem WriteChunk_roundtrip_witness:
  "\<exists>bs vs. WriteChunk [freeUnit demo_preunit [] 0 []] = Some (Inr bs)
    \<and> ReadChunk demo_shake (bs @ [1]) = Some (Inr (map (Some \<circ> preunit_of) vs, [1]))"
proof -
  have "\<forall>u \<in> set [freeUnit demo_preunit [] 0 []]. Epoch u \<noteq> - 1 \<and> valid_preunit demo_shake (preunit_of u)
      \<and> pu_rsData (preunit_of u) \<noteq> None"
    using demo_preunit_valid by (simp add: demo_preunit_def)
  from WriteChunk_roundtrip [OF this, of "[1]"] show ?thesis by (auto simp: MaxUnitsInChunk_def)
qed

text \<open>\<open>ReadDagInfos\<close> inverts \<open>WriteDagInfos\<close>, nil infos included.\<close>

theorem WriteDagInfos_roundtrip:
  assumes "valid_daginfo i0" "valid_daginfo i1"
  shows "\<exists>bs. WriteDagInfos i0 i1 = Some bs \<and> ReadDagInfos (bs @ rest) = Some (Inr ((i0, i1), rest))"
proof -
  obtain b0 b1 where b: "encodeDagInfo i0 = Some b0" "encodeDagInfo i1 = Some b1"
    using daginfo_codec.enc_total assms by blast
  then have "decodeDagInfo (b0 @ b1 @ rest) = Some (Inr (i0, b1 @ rest))" "decodeDagInfo (b1 @ rest) = Some (Inr (i1, rest))"
    using daginfo_codec.dec_enc assms by auto
  then show ?thesis using b by (simp add: WriteDagInfos_def ReadDagInfos_def rbind_Inr rreturn_def)
qed

theorem WriteDagInfos_roundtrip_witness:
  "\<exists>bs. WriteDagInfos (Some \<lparr>di_Epoch = 4, di_Heights = [-1, 12]\<rparr>) None = Some bs
    \<and> ReadDagInfos (bs @ []) = Some (Inr ((Some \<lparr>di_Epoch = 4, di_Heights = [-1, 12]\<rparr>, None), []))"
  by (rule WriteDagInfos_roundtrip) (simp_all add: valid_daginfo_def valid_height_def)

text \<open>
  The size of the buffer in \<open>encodeCrown\<close> is computed in 16 bits, so with 16376 parents or more
  the encoder panics instead of writing the crown.
\<close>

theorem encodeCrown_panics_iff:
  assumes "length (ControlHash crown) = HashLength"
  shows "encodeCrown crown = None \<longleftrightarrow> 16376 \<le> length (Heights crown)"
  by (auto simp: encodeCrown_eq [OF assms])

theorem encodeCrown_panics_iff_witness:
  "encodeCrown \<lparr>Heights = replicate 16376 0, ControlHash = ZeroHash\<rparr> = None"
  using encodeCrown_panics_iff [of "\<lparr>Heights = replicate 16376 0, ControlHash = ZeroHash\<rparr>"]
  by (simp add: ZeroHash_def)

text \<open>
  \<open>decodePreunit\<close> trusts the sender: bytes with an id whose height contradicts the crown
  make it panic rather than return an error.
\<close>

theorem decodePreunit_panics_on_bad_height:
  assumes "DecodeID uid = (h, c, e)" "uid \<noteq> - 1" "length sig = 64" "valid_crown crown"
    "encodeCrown crown = Some cb" "\<not> (unat c < length (Heights crown) \<and> h = Heights crown ! unat c + 1)"
  shows "decodePreunit shake (PutUint64 uid @ sig @ cb @ PutUint32 0 @ PutUint32 0 @ rest) = None"
proof -
  have "NewPreunit shake uid crown [] (Some []) sig = None"
    using assms(1,6) by (auto simp: NewPreunit_def nth_opt_def)
  then show ?thesis
    using assms(2,3) decodeCrown_encode [OF assms(4,5)]
    by (simp add: decodePreunit_def rbind_Inr wire_simps rpanic_def ReadFull_def)
qed

theorem decodePreunit_panics_on_bad_height_witness:
  "\<exists>cb. decodePreunit demo_shake (PutUint64 5 @ replicate 64 0 @ cb @ PutUint32 0 @ PutUint32 0 @ []) = None"
proof -
  let ?crown = "\<lparr>Heights = [-1], ControlHash = ZeroHash\<rparr>"
  have v: "valid_crown ?crown" by (simp add: valid_crown_def valid_height_def ZeroHash_def)
  then obtain cb where "encodeCrown ?crown = Some cb" using crown_codec.enc_total by blast
  moreover have "DecodeID 5 = (5, 0, 0)" by code_simp
  ultimately show ?thesis
    using decodePreunit_panics_on_bad_height [of 5 5 0 0 "replicate 64 0" ?crown cb demo_shake "[]"] v
    by (intro exI [of _ cb]) simp
qed

end
