(* ===== verification/Coin.thy ===== *)
theory Coin
  imports Gossip Ordering Chunks
begin

text \<open>
  The coin (\<open>pkg/random/coin/coin.go\<close>), the random source of the main protocol, and the containers of \<open>pkg/random/sync.go\<close>. Units carry
  shares of a threshold signature, and the random bytes of a level are the signature under the \<open>nonce\<close> of that level. The scheme itself
  (\<open>core-go/pkg/crypto/tss\<close>) is a parameter, as in theory \<open>Proofs\<close>. The dag to which a coin is bound is an argument.
\<close>

section \<open>Definitions\<close>

text \<open>The length of marshalled signatures, and what a failed \<open>Unmarshal\<close> leaves in a new share.\<close>

record ('sh, 'sg) coin_tss = "('sh, 'sg) tss" +
  SignatureLength :: nat
  badShare :: "bytes \<Rightarrow> 'sh"

record ('sh, 'sg) coinFactory =
  cf_pid :: u16
  cf_wtkey :: "('sh, 'sg) wtk"
  cf_ShareProviders :: "u16 \<Rightarrow> bool"

record ('sh, 'sg) coin =
  coin_pid :: u16
  coin_epoch :: EpochID
  coin_wtk :: "('sh, 'sg) wtk"
  coinShares :: "hash \<rightharpoonup> 'sh"
  shareProviders :: "u16 \<Rightarrow> bool"
  coin_randomBytes :: "bytes list"

definition nonce_coin :: "int \<Rightarrow> EpochID \<Rightarrow> bytes" where
  "nonce_coin level epoch = PutUint64 (push_bit 16 (ucast epoch) + word_of_int level)"

definition newCoin :: "u16 \<Rightarrow> EpochID \<Rightarrow> ('sh, 'sg) wtk \<Rightarrow> (u16 \<Rightarrow> bool) \<Rightarrow> ('sh, 'sg) coin" where
  "newCoin pid epoch w providers =
     \<lparr>coin_pid = pid, coin_epoch = epoch, coin_wtk = w, coinShares = Map.empty, shareProviders = providers, coin_randomBytes = []\<rparr>"

text \<open>\<open>NewRandomSource\<close> binds a dag, of which the coin itself only asks the epoch.\<close>

definition NewRandomSource_coin :: "('sh, 'sg) coinFactory \<Rightarrow> dagcore \<Rightarrow> ('sh, 'sg) coin" where
  "NewRandomSource_coin cf d = newCoin (cf_pid cf) (epochID d) (cf_wtkey cf) (cf_ShareProviders cf)"

text \<open>A nil share makes \<open>Marshal\<close> panic.\<close>

definition DealingData_coin :: "('sh, 'sg) coin_tss \<Rightarrow> ('sh, 'sg) coinFactory \<Rightarrow> EpochID \<Rightarrow> bytes option go" where
  "DealingData_coin t cf epoch =
     (if cf_ShareProviders cf (cf_pid cf) then do { sh \<leftarrow> CreateShare (cf_wtkey cf) (nonce_coin 0 epoch); Some (Some (MarshalShare t sh)) }
      else Some None)"

definition AppendOrIgnore :: "bytes list \<Rightarrow> int \<Rightarrow> bytes \<Rightarrow> bytes list" where
  "AppendOrIgnore bss len data = (if int (length bss) = len then bss @ [data] else bss)"

text \<open>\<open>Get\<close> of a \<open>SyncBytesSlice\<close>: a negative index panics, one that is too large gives nil.\<close>

definition Get_bytes :: "bytes list \<Rightarrow> int \<Rightarrow> bytes option go" where
  "Get_bytes bss pos =
     (if pos < int (length bss) then if pos < 0 then None else Some (Some (bss ! nat pos)) else Some None)"

definition RandomBytes_coin :: "('sh, 'sg) coin \<Rightarrow> u16 \<Rightarrow> int \<Rightarrow> bytes option go" where
  "RandomBytes_coin c pid level = Get_bytes (coin_randomBytes c) level"

text \<open>\<open>data[from:]\<close> and \<open>data[:to]\<close>; the capacity of the slices is taken to be their length.\<close>

definition slice_from :: "bytes \<Rightarrow> nat \<Rightarrow> bytes go" where
  "slice_from data k = (if k \<le> length data then Some (drop k data) else None)"

definition slice_to :: "bytes \<Rightarrow> nat \<Rightarrow> bytes go" where
  "slice_to data k = (if k \<le> length data then Some (take k data) else None)"

abbreviation RandomSourceData :: "Unit \<Rightarrow> bytes" where
  "RandomSourceData u \<equiv> bytes_of (pu_rsData (preunit_of u))"

definition update_coin :: "('sh, 'sg) coin_tss \<Rightarrow> ('sh, 'sg) coin \<Rightarrow> Unit \<Rightarrow> ('sh, 'sg) coin go" where
  "update_coin t c u =
     do { c1 \<leftarrow> (if shareProviders c (Creator u)
                 then do { data \<leftarrow> slice_from (RandomSourceData u) (if Dealing (preunit_of u) then 0 else SignatureLength t);
                           let cs = (case UnmarshalShare t data of Some sh \<Rightarrow> sh | None \<Rightarrow> badShare t data);
                           Some (c\<lparr>coinShares := (coinShares c)(Hash u \<mapsto> cs)\<rparr>) }
                 else Some c);
          if Dealing (preunit_of u) then Some c1
          else do { rb \<leftarrow> slice_to (RandomSourceData u) (SignatureLength t);
                    Some (c1\<lparr>coin_randomBytes := AppendOrIgnore (coin_randomBytes c1) (Level u - 1) rb\<rparr>) } }"

text \<open>The texts of errors of the library are not modelled.\<close>

definition checkCompliance_coin :: "('sh, 'sg) coin_tss \<Rightarrow> ('sh, 'sg) coin \<Rightarrow> Unit \<Rightarrow> gerror option go" where
  "checkCompliance_coin t c u =
     (let share_error = (\<lambda>data. case UnmarshalShare t data of Some _ \<Rightarrow> None | None \<Rightarrow> Some (OtherError ''share'')) in
      if Dealing (preunit_of u) \<and> shareProviders c (Creator u) then Some (share_error (RandomSourceData u))
      else if \<not> Dealing (preunit_of u) then
        if length (RandomSourceData u) < SignatureLength t then Some (Some (OtherError ''random source data too short''))
        else
          let uRandomBytes = take (SignatureLength t) (RandomSourceData u) in
          do { rb \<leftarrow> Get_bytes (coin_randomBytes c) (Level u - 1);
               let err = (case rb of
                            Some bs \<Rightarrow> if bs \<noteq> uRandomBytes then Some (OtherError ''incorrect random bytes'') else None
                          | None \<Rightarrow>
                              (case UnmarshalSignature t uRandomBytes of
                                 None \<Rightarrow> Some (OtherError ''signature'')
                               | Some sg \<Rightarrow> if \<not> VerifySignature (coin_wtk c) sg (nonce_coin (Level u - 1) (Epoch u))
                                            then Some (OtherError ''incorrect random bytes'') else None));
               Some (case err of
                       Some e \<Rightarrow> Some e
                     | None \<Rightarrow> if shareProviders c (Creator u) then share_error (drop (SignatureLength t) (RandomSourceData u)) else None) }
      else Some (if pu_rsData (preunit_of u) \<noteq> None then Some (OtherError ''random source data should be empty'') else None))"

text \<open>The closure given to \<open>Iterate\<close> in \<open>combineShares\<close>: at most one share of each process, and not more than needed.\<close>

fun collect_slot :: "('sh, 'sg) coin \<Rightarrow> Unit list \<Rightarrow> 'sh list \<times> u16 list \<Rightarrow> bool \<times> 'sh list \<times> u16 list" where
  "collect_slot c [] s = (True, s)"
| "collect_slot c (v # vs) (shares, shareCollected) =
     (if \<not> shareProviders c (Creator v) \<or> Creator v \<in> set shareCollected then collect_slot c vs (shares, shareCollected)
      else (case coinShares c (Hash v) of
              Some cs \<Rightarrow> (length (shares @ [cs]) \<noteq> unat (Threshold (coin_wtk c)), shares @ [cs], shareCollected @ [Creator v])
            | None \<Rightarrow> collect_slot c vs (shares, shareCollected)))"

definition collected :: "('sh, 'sg) coin \<Rightarrow> dagcore \<Rightarrow> int \<Rightarrow> 'sh list" where
  "collected c d level = fst (Iterate (UnitsOnLevel d level) (collect_slot c) ([], []))"

text \<open>\<open>UnitsOnLevel\<close> is never nil.\<close>

definition combineShares_coin :: "('sh, 'sg) coin_tss \<Rightarrow> ('sh, 'sg) coin \<Rightarrow> dagcore \<Rightarrow> int \<Rightarrow> gerror + bytes" where
  "combineShares_coin t c d level =
     (case CombineShares (coin_wtk c) (collected c d level) of
        None \<Rightarrow> Inl (OtherError ''combining shares failed'')
      | Some sg \<Rightarrow> if \<not> VerifySignature (coin_wtk c) sg (nonce_coin level (coin_epoch c)) then Inl (OtherError ''verification of coin failed'')
                   else Inr (MarshalSignature t sg))"

definition DataToInclude_coin :: "('sh, 'sg) coin_tss \<Rightarrow> ('sh, 'sg) coin \<Rightarrow> dagcore \<Rightarrow> Unit option list \<Rightarrow> int \<Rightarrow> ((gerror + bytes) \<times> ('sh, 'sg) coin) go" where
  "DataToInclude_coin t c d parents level =
     (if level = 0 then None
      else do { rbl \<leftarrow> Get_bytes (coin_randomBytes c) (level - 1);
                let r = (case rbl of
                           Some bs \<Rightarrow> (Inr (take (SignatureLength t) (bs @ replicate (SignatureLength t) 0)), c)
                         | None \<Rightarrow>
                             (case combineShares_coin t c d (level - 1) of
                                Inl e \<Rightarrow> (Inl e, c)
                              | Inr rb \<Rightarrow> (Inr rb, c\<lparr>coin_randomBytes := AppendOrIgnore (coin_randomBytes c) (level - 1) rb\<rparr>)));
                (case r of
                   (Inl e, c1) \<Rightarrow> Some (Inl e, c1)
                 | (Inr rb, c1) \<Rightarrow>
                     if shareProviders c1 (coin_pid c1)
                     then do { sh \<leftarrow> CreateShare (coin_wtk c1) (nonce_coin level (coin_epoch c1)); Some (Inr (rb @ MarshalShare t sh), c1) }
                     else Some (Inr rb, c1)) })"

section \<open>Random bytes are unique\<close>

text \<open>
  What is relied on of the threshold signatures: a message has one signature, whoever combined it, and marshalling is faithful and of fixed length.
\<close>

definition unique_signatures :: "('sh, 'sg) coin_tss \<Rightarrow> ('sh, 'sg) wtk \<Rightarrow> bool" where
  "unique_signatures t w \<longleftrightarrow>
     (\<forall>sg sg' msg. VerifySignature w sg msg \<longrightarrow> VerifySignature w sg' msg \<longrightarrow> sg = sg')
     \<and> (\<forall>sg. length (MarshalSignature t sg) = SignatureLength t \<and> UnmarshalSignature t (MarshalSignature t sg) = Some sg)
     \<and> (\<forall>bs sg. UnmarshalSignature t bs = Some sg \<longrightarrow> MarshalSignature t sg = bs)"

lemma unique_signaturesD:
  assumes "unique_signatures t w"
  shows "VerifySignature w sg msg \<Longrightarrow> VerifySignature w sg' msg \<Longrightarrow> sg = sg'" "length (MarshalSignature t sg) = SignatureLength t"
    "UnmarshalSignature t (MarshalSignature t sg) = Some sg" "UnmarshalSignature t bs = Some sg \<Longrightarrow> MarshalSignature t sg = bs"
  using assms by (auto simp: unique_signatures_def)

text \<open>
  The life of a coin, with the data it gave to the creator. Units of others are checked before \<open>update\<close> sees them; own units are not, and
  carry what \<open>DataToInclude\<close> returned for their level, or are dealing units.
\<close>

inductive coin_run :: "('sh, 'sg) coin_tss \<Rightarrow> ('sh, 'sg) wtk \<Rightarrow> (u16 \<Rightarrow> bool) \<Rightarrow> EpochID \<Rightarrow> ('sh, 'sg) coin \<Rightarrow> (int \<times> bytes) list \<Rightarrow> bool"
  for t w providers e where
  start: "coin_run t w providers e (newCoin pid e w providers) []"
| checked: "coin_run t w providers e c out \<Longrightarrow> Epoch u = e \<Longrightarrow> checkCompliance_coin t c u = Some None \<Longrightarrow> update_coin t c u = Some c'
    \<Longrightarrow> coin_run t w providers e c' out"
| own: "coin_run t w providers e c out \<Longrightarrow> Dealing (preunit_of u) \<or> (Level u, RandomSourceData u) \<in> set out \<Longrightarrow> update_coin t c u = Some c'
    \<Longrightarrow> coin_run t w providers e c' out"
| incl: "coin_run t w providers e c out \<Longrightarrow> DataToInclude_coin t c d parents level = Some (r, c')
    \<Longrightarrow> coin_run t w providers e c' (out @ (case r of Inl _ \<Rightarrow> [] | Inr bs \<Rightarrow> [(level, bs)]))"

definition valid_at :: "('sh, 'sg) coin_tss \<Rightarrow> ('sh, 'sg) wtk \<Rightarrow> EpochID \<Rightarrow> int \<Rightarrow> bytes \<Rightarrow> bool" where
  "valid_at t w e level rb \<longleftrightarrow> (\<exists>sg. VerifySignature w sg (nonce_coin level e) \<and> MarshalSignature t sg = rb)"

lemma valid_at_unique: "unique_signatures t w \<Longrightarrow> valid_at t w e l b \<Longrightarrow> valid_at t w e l b' \<Longrightarrow> b = b'"
  by (auto simp: valid_at_def dest: unique_signaturesD(1))

lemma valid_at_length: "unique_signatures t w \<Longrightarrow> valid_at t w e l b \<Longrightarrow> length b = SignatureLength t"
  by (auto simp: valid_at_def dest: unique_signaturesD(2))

text \<open>All bytes a coin stores and gives away are those of the level.\<close>

definition coin_inv :: "('sh, 'sg) coin_tss \<Rightarrow> ('sh, 'sg) wtk \<Rightarrow> (u16 \<Rightarrow> bool) \<Rightarrow> EpochID \<Rightarrow> ('sh, 'sg) coin \<Rightarrow> (int \<times> bytes) list \<Rightarrow> bool" where
  "coin_inv t w providers e c out \<longleftrightarrow> coin_wtk c = w \<and> coin_epoch c = e \<and> shareProviders c = providers
     \<and> (\<forall>i < length (coin_randomBytes c). valid_at t w e (int i) (coin_randomBytes c ! i))
     \<and> (\<forall>(l, bs) \<in> set out. valid_at t w e (l - 1) (take (SignatureLength t) bs))"

lemma AppendOrIgnore_valid:
  assumes "\<forall>i < length bss. valid_at t w e (int i) (bss ! i)" "int (length bss) = l \<Longrightarrow> valid_at t w e l rb"
  shows "\<forall>i < length (AppendOrIgnore bss l rb). valid_at t w e (int i) (AppendOrIgnore bss l rb ! i)"
  using assms by (auto simp: AppendOrIgnore_def nth_append less_Suc_eq)

lemma Get_bytes_simps:
  "Get_bytes bss pos = Some (Some b) \<longleftrightarrow> 0 \<le> pos \<and> pos < int (length bss) \<and> b = bss ! nat pos"
  "Get_bytes bss pos = Some None \<longleftrightarrow> int (length bss) \<le> pos"
  by (auto simp: Get_bytes_def)

lemma update_coin_inv:
  assumes "coin_inv t w providers e c out" "update_coin t c u = Some c'"
    and "\<not> Dealing (preunit_of u) \<Longrightarrow> int (length (coin_randomBytes c)) = Level u - 1 \<Longrightarrow> SignatureLength t \<le> length (RandomSourceData u)
      \<Longrightarrow> valid_at t w e (Level u - 1) (take (SignatureLength t) (RandomSourceData u))"
  shows "coin_inv t w providers e c' out"
proof -
  obtain c1 where c1: "c1 = c \<or> (\<exists>m. c1 = c\<lparr>coinShares := m\<rparr>)"
      "c' = c1 \<and> Dealing (preunit_of u) \<or> (\<not> Dealing (preunit_of u) \<and> SignatureLength t \<le> length (RandomSourceData u)
        \<and> c' = c1\<lparr>coin_randomBytes := AppendOrIgnore (coin_randomBytes c1) (Level u - 1) (take (SignatureLength t) (RandomSourceData u))\<rparr>)"
    using assms(2) by (auto simp: update_coin_def slice_to_def Let_def split: bind_split_asm if_split_asm)
  have "coin_inv t w providers e c1 out" using c1(1) assms(1) by (auto simp: coin_inv_def)
  moreover have "coin_randomBytes c1 = coin_randomBytes c" using c1(1) by auto
  ultimately show ?thesis using c1(2) assms(3) AppendOrIgnore_valid [of "coin_randomBytes c" t w e "Level u - 1"]
    by (auto simp: coin_inv_def)
qed

lemma DataToInclude_coin_cases:
  assumes "coin_inv t w providers e c out" "unique_signatures t w" "DataToInclude_coin t c d parents level = Some (r, c')"
  shows "level \<noteq> 0 \<and> (\<exists>e. r = Inl e \<and> c' = c) \<or> level \<noteq> 0 \<and> (\<exists>rb sh. valid_at t w e (level - 1) rb
      \<and> (c' = c \<or> c' = c\<lparr>coin_randomBytes := AppendOrIgnore (coin_randomBytes c) (level - 1) rb\<rparr>)
      \<and> r = Inr (if providers (coin_pid c) then rb @ MarshalShare t sh else rb))"
proof -
  have stored: "valid_at t w e (level - 1) (take (SignatureLength t) (bs @ replicate (SignatureLength t) 0))"
    if "Get_bytes (coin_randomBytes c) (level - 1) = Some (Some bs)" for bs
  proof -
    have b: "0 \<le> level - 1" "nat (level - 1) < length (coin_randomBytes c)" "bs = coin_randomBytes c ! nat (level - 1)"
      using that unfolding Get_bytes_simps by auto
    have v: "valid_at t w e (int (nat (level - 1))) bs" using assms(1) b(2,3) unfolding coin_inv_def by blast
    show ?thesis using v b(1) valid_at_length [OF assms(2) v] by simp
  qed
  have new: "valid_at t w e (level - 1) rb" if "combineShares_coin t c d (level - 1) = Inr rb" for rb
    using that assms(1) by (auto simp: combineShares_coin_def valid_at_def coin_inv_def split: option.splits if_splits)
  obtain rbl where rbl: "level \<noteq> 0" "Get_bytes (coin_randomBytes c) (level - 1) = Some rbl"
    using assms(3) by (auto simp: DataToInclude_coin_def split: bind_split_asm if_split_asm)
  have p: "shareProviders c = providers" using assms(1) by (simp add: coin_inv_def)
  have fin: "r = Inr (if providers (coin_pid c) then rb @ MarshalShare t sh else rb) \<and> c' = c1"
    if "(if shareProviders c1 (coin_pid c1) then CreateShare (coin_wtk c1) (nonce_coin level (coin_epoch c1)) \<bind> (\<lambda>sh. Some (Inr (rb @ MarshalShare t sh), c1))
      else Some (Inr rb, c1)) = Some (r, c')" "shareProviders c1 = providers" "coin_pid c1 = coin_pid c"
      "sh = the (CreateShare (coin_wtk c1) (nonce_coin level (coin_epoch c1)))" for rb c1 sh
    using that by (auto split: bind_split_asm if_split_asm)
  consider bs where "rbl = Some bs" | err where "rbl = None" "combineShares_coin t c d (level - 1) = Inl err"
    | rb where "rbl = None" "combineShares_coin t c d (level - 1) = Inr rb"
    by (cases rbl; cases "combineShares_coin t c d (level - 1)") auto
  then show ?thesis
  proof cases
    case (1 bs)
    then show ?thesis using assms(3) rbl p stored fin [where ?c1.0 = c] by (fastforce simp: DataToInclude_coin_def)
  next
    case (2 err)
    then have "r = Inl err" "c' = c" using assms(3) rbl by (simp_all add: DataToInclude_coin_def)
    then show ?thesis using rbl(1) by blast
  next
    case (3 rb)
    let ?c = "c\<lparr>coin_randomBytes := AppendOrIgnore (coin_randomBytes c) (level - 1) rb\<rparr>"
    have "r = Inr (if providers (coin_pid c) then rb @ MarshalShare t (the (CreateShare (coin_wtk ?c) (nonce_coin level (coin_epoch ?c)))) else rb) \<and> c' = ?c"
      by (rule fin) (use assms(3) rbl p 3 in \<open>simp_all add: DataToInclude_coin_def\<close>)
    then show ?thesis using new [OF 3(2)] rbl(1) by blast
  qed
qed

lemma coin_run_inv:
  assumes "unique_signatures t w" "coin_run t w providers e c out"
  shows "coin_inv t w providers e c out"
  using assms(2)
proof induction
  case (start pid)
  then show ?case by (simp add: coin_inv_def newCoin_def)
next
  case (checked c out u c')
  have "valid_at t w e (Level u - 1) (take (SignatureLength t) (RandomSourceData u))"
    if l: "\<not> Dealing (preunit_of u)" "int (length (coin_randomBytes c)) = Level u - 1" "SignatureLength t \<le> length (RandomSourceData u)"
  proof -
    have "Get_bytes (coin_randomBytes c) (Level u - 1) = Some None" using l by (simp add: Get_bytes_simps)
    then show ?thesis using l checked.hyps(2,3) checked.IH unique_signaturesD(4) [OF assms(1)]
      by (auto simp: checkCompliance_coin_def Let_def valid_at_def coin_inv_def split: if_splits option.splits)
  qed
  then show ?case by (rule update_coin_inv [OF checked.IH checked.hyps(4)])
next
  case (own c out u c')
  then show ?case using update_coin_inv [OF own.IH own.hyps(3)] by (force simp: coin_inv_def)
next
  case (incl c out d parents level r c')
  from DataToInclude_coin_cases [OF incl.IH assms(1) incl.hyps(2)] show ?case
  proof
    assume "level \<noteq> 0 \<and> (\<exists>e. r = Inl e \<and> c' = c)"
    then show ?thesis using incl.IH by auto
  next
    assume "level \<noteq> 0 \<and> (\<exists>rb sh. valid_at t w e (level - 1) rb
      \<and> (c' = c \<or> c' = c\<lparr>coin_randomBytes := AppendOrIgnore (coin_randomBytes c) (level - 1) rb\<rparr>)
      \<and> r = Inr (if providers (coin_pid c) then rb @ MarshalShare t sh else rb))"
    then obtain rb sh where rb: "valid_at t w e (level - 1) rb" "c' = c \<or> c' = c\<lparr>coin_randomBytes := AppendOrIgnore (coin_randomBytes c) (level - 1) rb\<rparr>"
        "r = Inr (if providers (coin_pid c) then rb @ MarshalShare t sh else rb)" by blast
    have "take (SignatureLength t) (if providers (coin_pid c) then rb @ MarshalShare t sh else rb) = rb" using valid_at_length [OF assms(1) rb(1)] by simp
    then show ?thesis using incl.IH rb AppendOrIgnore_valid [of "coin_randomBytes c" t w e "level - 1" rb]
      by (auto simp: coin_inv_def)
  qed
qed

section \<open>Agreement with a coin\<close>

definition coin_rb :: "('sh, 'sg) coin \<Rightarrow> randomBytes" where
  "coin_rb c p l = (case RandomBytes_coin c p l of Some (Some b) \<Rightarrow> Some b | _ \<Rightarrow> None)"

text \<open>The random bytes that coins give are parts of one function: what the linear order assumes of its random source.\<close>

lemma coins_reveal:
  assumes "unique_signatures t w"
  obtains R where "\<forall>c out. coin_run t w providers e c out \<longrightarrow> reveals (coin_rb c) R"
proof (rule that, intro allI impI)
  let ?R = "\<lambda>p l. if \<exists>b. valid_at t w e l b then Some (SOME b. valid_at t w e l b) else None"
  fix c out assume run: "coin_run t w providers e c out"
  show "reveals (coin_rb c) ?R"
    unfolding reveals_def
  proof (intro allI impI)
    fix p l b assume "coin_rb c p l = Some b"
    then have b: "0 \<le> l" "nat l < length (coin_randomBytes c)" "b = coin_randomBytes c ! nat l"
      by (auto simp: coin_rb_def RandomBytes_coin_def Get_bytes_simps split: option.splits)
    have "valid_at t w e (int (nat l)) b" using coin_run_inv [OF assms run] b(2,3) unfolding coin_inv_def by blast
    then have v: "valid_at t w e l b" using b(1) by simp
    then have "(SOME b. valid_at t w e l b) = b" using valid_at_unique [OF assms _ v] by blast
    then show "?R p l = Some b" using v by auto
  qed
qed

text \<open>
  A process with a coin and an extender: the coin sees units and gives data to the creator, and now and then the extender is asked for the
  next round on the dag of the moment, with the random bytes that the coin knows by then.
\<close>

inductive coin_ext ::
  "('sh, 'sg) coin_tss \<Rightarrow> ('sh, 'sg) wtk \<Rightarrow> (u16 \<Rightarrow> bool) \<Rightarrow> EpochID \<Rightarrow> (bytes \<Rightarrow> bytes) \<Rightarrow> (u16 \<Rightarrow> u16) \<Rightarrow> u16 \<Rightarrow> Unit set \<Rightarrow> 'k conf \<Rightarrow> Extender \<Rightarrow> TimingRound list \<Rightarrow> bool"
  for t w providers e shake mq n T cnf where
  start: "coin_ext t w providers e shake mq n T cnf (NewExtender cnf) []"
| round: "coin_ext t w providers e shake mq n T cnf ext trs \<Longrightarrow> coin_run t w providers e c out \<Longrightarrow> dag_reach mq n d es \<Longrightarrow> set es \<subseteq> T \<Longrightarrow>
    NextRound shake (coin_rb c) mq d ext = Some (tr, ext') \<Longrightarrow>
    coin_ext t w providers e shake mq n T cnf ext' (trs @ (case tr of None \<Rightarrow> [] | Some r \<Rightarrow> [r]))"

lemma coin_ext_run:
  assumes "\<forall>c out. coin_run t w providers e c out \<longrightarrow> reveals (coin_rb c) R" "coin_ext t w providers e shake mq n T cnf ext trs"
  shows "ext_run shake R mq n T cnf ext trs"
  using assms(2)
proof induction
  case start
  show ?case by (rule ext_run.start)
next
  case (round ext trs c out d es tr ext')
  show ?case by (rule ext_run.call [OF round.IH round.hyps(3,4) assms(1) [rule_format, OF round.hyps(2)] round.hyps(5)])
qed


section \<open>Data of honest processes\<close>

text \<open>
  C24: what a coin gives to the creator for a unit is accepted by the check of every other coin of the same key and epoch, whatever
  that one has seen so far.
\<close>

theorem DataToInclude_accepted:
  assumes "unique_signatures t w" "\<forall>sh. UnmarshalShare t (MarshalShare t sh) = Some sh"
    and "coin_run t w providers e c out" "DataToInclude_coin t c d parents level = Some (Inr bs, c')" "coin_run t w providers e c2 out2"
    and "Creator u = coin_pid c" "Level u = level" "0 < level" "\<not> Dealing (preunit_of u)" "Epoch u = e" "pu_rsData (preunit_of u) = Some bs"
  shows "checkCompliance_coin t c2 u = Some None"
proof -
  have I2: "coin_inv t w providers e c2 out2" by (rule coin_run_inv [OF assms(1,5)])
  obtain rb sh where rb: "valid_at t w e (level - 1) rb" "bs = (if providers (coin_pid c) then rb @ MarshalShare t sh else rb)"
    using DataToInclude_coin_cases [OF coin_run_inv [OF assms(1,3)] assms(1,4)] by auto
  have len: "length rb = SignatureLength t" by (rule valid_at_length [OF assms(1) rb(1)])
  have t: "take (SignatureLength t) bs = rb" "SignatureLength t \<le> length bs" "providers (Creator u) \<Longrightarrow> drop (SignatureLength t) bs = MarshalShare t sh"
    using rb(2) len assms(6) by auto
  obtain sg where sg: "VerifySignature w sg (nonce_coin (level - 1) e)" "MarshalSignature t sg = rb" using rb(1) by (auto simp: valid_at_def)
  have u: "UnmarshalSignature t rb = Some sg" using unique_signaturesD(3) [OF assms(1)] sg(2) by blast
  have "Get_bytes (coin_randomBytes c2) (level - 1) \<noteq> None" using assms(8) by (simp add: Get_bytes_def)
  then obtain stored where g: "Get_bytes (coin_randomBytes c2) (level - 1) = Some stored" by blast
  have "stored = None \<or> stored = Some rb"
  proof (cases stored)
    case (Some b)
    have b: "nat (level - 1) < length (coin_randomBytes c2)" "b = coin_randomBytes c2 ! nat (level - 1)" using Get_bytes_simps(1) [of _ "level - 1" b] g Some by auto
    have "valid_at t w e (int (nat (level - 1))) b" using I2 b unfolding coin_inv_def by blast
    then show ?thesis using valid_at_unique [OF assms(1) _ rb(1)] assms(8) Some by auto
  qed simp
  then show ?thesis using g t u sg(1) assms(2,7,9-11) I2
    by (auto simp: checkCompliance_coin_def coin_inv_def Let_def bytes_of_def)
qed

section \<open>Combining shares\<close>

abbreviation usable :: "('sh, 'sg) coin \<Rightarrow> Unit \<Rightarrow> bool" where
  "usable c v \<equiv> shareProviders c (Creator v) \<and> coinShares c (Hash v) \<noteq> None"

lemma collect_slot_find:
  "collect_slot c us (shares, col) =
     (case find (\<lambda>v. usable c v \<and> Creator v \<notin> set col) us of
        None \<Rightarrow> (True, shares, col)
      | Some v \<Rightarrow> (length (shares @ [the (coinShares c (Hash v))]) \<noteq> unat (Threshold (coin_wtk c)), shares @ [the (coinShares c (Hash v))], col @ [Creator v]))"
  by (induction us) (auto split: option.splits)

text \<open>The units of different slots have different creators, none of which is in \<open>C\<close>.\<close>

fun separate :: "Unit list list \<Rightarrow> u16 set \<Rightarrow> bool" where
  "separate [] C \<longleftrightarrow> True"
| "separate (us # uss) C \<longleftrightarrow> (\<forall>v \<in> set us. Creator v \<notin> C) \<and> separate uss (C \<union> Creator ` set us)"

lemma iterate_collect:
  assumes "separate uss C" "set col \<subseteq> C" "length shares < unat (Threshold (coin_wtk c))"
  shows "fst (iterate_slots (collect_slot c) uss (shares, col)) =
     shares @ take (unat (Threshold (coin_wtk c)) - length shares) (map (\<lambda>v. the (coinShares c (Hash v))) (List.map_filter (find (usable c)) uss))"
  using assms
proof (induction uss arbitrary: C col shares)
  case (Cons us uss)
  have "find (\<lambda>v. usable c v \<and> Creator v \<notin> set col) us = find (usable c) us"
    using Cons.prems(1,2) by (intro find_cong) auto
  then have f: "collect_slot c us (shares, col) = (case find (usable c) us of
        None \<Rightarrow> (True, shares, col)
      | Some v \<Rightarrow> (length (shares @ [the (coinShares c (Hash v))]) \<noteq> unat (Threshold (coin_wtk c)), shares @ [the (coinShares c (Hash v))], col @ [Creator v]))"
    by (simp add: collect_slot_find)
  show ?case
  proof (cases "find (usable c) us")
    case None
    then show ?thesis using Cons.IH [of "C \<union> Creator ` set us" col shares] Cons.prems f by (auto simp: map_filter_simps)
  next
    case (Some v)
    have v: "v \<in> set us" using Some by (auto simp: find_Some_iff)
    let ?sh = "shares @ [the (coinShares c (Hash v))]" and ?th = "unat (Threshold (coin_wtk c))"
    have m: "List.map_filter (find (usable c)) (us # uss) = v # List.map_filter (find (usable c)) uss" using Some by (simp add: map_filter_simps)
    show ?thesis
    proof (cases "length ?sh = ?th")
      case True
      then have "?th - length shares = 1" by simp
      then show ?thesis using f Some True m by simp
    next
      case False
      then have "fst (iterate_slots (collect_slot c) uss (?sh, col @ [Creator v])) =
          ?sh @ take (?th - length ?sh) (map (\<lambda>v. the (coinShares c (Hash v))) (List.map_filter (find (usable c)) uss))"
        using Cons.prems v by (intro Cons.IH [of "C \<union> Creator ` set us"]) auto
      moreover have "?th - length shares = Suc (?th - length ?sh)" using Cons.prems(3) False by simp
      ultimately show ?thesis using f Some False m by simp
    qed
  qed
qed (simp add: map_filter_simps)

lemma separate_slots:
  assumes "distinct ps" "\<forall>p \<in> set ps. p \<notin> C"
  shows "separate (map (\<lambda>p. filter (\<lambda>v. Q v \<and> Creator v = p) es) ps) C"
  using assms
proof (induction ps arbitrary: C)
  case (Cons p ps)
  have "separate (map (\<lambda>p. filter (\<lambda>v. Q v \<and> Creator v = p) es) ps) (C \<union> Creator ` set (filter (\<lambda>v. Q v \<and> Creator v = p) es))"
    by (rule Cons.IH) (use Cons.prems in auto)
  then show ?case using Cons.prems by simp
qed simp

lemma collected_eq:
  assumes "dag_reach mq n d es" "0 < mq n" "0 < unat (Threshold (coin_wtk c))"
  shows "collected c d l = take (unat (Threshold (coin_wtk c))) (map (\<lambda>v. the (coinShares c (Hash v)))
     (List.map_filter (\<lambda>p. find (usable c) (filter (\<lambda>v. Level v = l \<and> Creator v = p) es)) (pids n)))"
proof -
  have D: "dag_inv d es" "nProc d = n" using dag_reach_inv [OF assms(1,2)] by auto
  have w: "su_wf n (UnitsOnLevel d l)"
    using dag_invD(3) [OF D(1)] D(2)
    by (auto simp: UnitsOnLevel_def getFiber_def on_level.represents_def fm_wf_def su.new_wf split: option.splits)
  let ?slots = "map (\<lambda>p. filter (\<lambda>v. Level v = l \<and> Creator v = p) es) (pids n)"
  have "collected c d l = fst (iterate_slots (collect_slot c) ?slots ([], []))"
    unfolding collected_def Iterate_def Get_contents [OF w] by (simp add: UnitsOnLevel_inv [OF D(1)] cong: map_cong)
  also have "\<dots> = take (unat (Threshold (coin_wtk c))) (map (\<lambda>v. the (coinShares c (Hash v))) (List.map_filter (find (usable c)) ?slots))"
    using iterate_collect [OF separate_slots [OF distinct_pids, of n "{}"], of "[]" "[]" c] assms(3) by simp
  finally show ?thesis by (simp add: List.map_filter_def comp_def filter_map)
qed

text \<open>What is relied on for progress: enough valid shares combine to a signature.\<close>

definition combines_shares :: "('sh, 'sg) wtk \<Rightarrow> bool" where
  "combines_shares w \<longleftrightarrow> (\<forall>ss msg. (\<forall>s \<in> set ss. VerifyShare w s msg) \<longrightarrow> unat (Threshold w) \<le> length ss \<longrightarrow>
     (\<exists>sg. CombineShares w ss = Some sg \<and> VerifySignature w sg msg))"

lemma map_filter_find:
  "set (List.map_filter (\<lambda>p. find P (filter (\<lambda>v. Level v = l \<and> Creator v = p) es)) ps) \<subseteq> {v \<in> set es. P v \<and> Level v = l}"
  "distinct ps \<Longrightarrow> (\<forall>v \<in> set es. Creator v \<in> set ps) \<Longrightarrow>
     card (Creator ` {v \<in> set es. P v \<and> Level v = l}) \<le> length (List.map_filter (\<lambda>p. find P (filter (\<lambda>v. Level v = l \<and> Creator v = p) es)) ps)"
proof -
  let ?f = "\<lambda>p. find P (filter (\<lambda>v. Level v = l \<and> Creator v = p) es)"
  show "set (List.map_filter ?f ps) \<subseteq> {v \<in> set es. P v \<and> Level v = l}"
  proof
    fix v assume "v \<in> set (List.map_filter ?f ps)"
    then obtain p where "?f p = Some v" by (auto simp: List.map_filter_def)
    then have "P v" "v \<in> set (filter (\<lambda>v. Level v = l \<and> Creator v = p) es)" by (auto simp: find_Some_iff simp del: set_filter)
    then show "v \<in> {v \<in> set es. P v \<and> Level v = l}" by simp
  qed
  assume ps: "distinct ps" "\<forall>v \<in> set es. Creator v \<in> set ps"
  have "Creator ` {v \<in> set es. P v \<and> Level v = l} \<subseteq> set (filter (\<lambda>p. ?f p \<noteq> None) ps)" using ps(2) by (auto simp: find_None_iff)
  then have "card (Creator ` {v \<in> set es. P v \<and> Level v = l}) \<le> card (set (filter (\<lambda>p. ?f p \<noteq> None) ps))" by (intro card_mono) auto
  also have "\<dots> = length (List.map_filter ?f ps)" using distinct_card [OF distinct_filter [OF ps(1)]] by (simp add: List.map_filter_def)
  finally show "card (Creator ` {v \<in> set es. P v \<and> Level v = l}) \<le> length (List.map_filter ?f ps)" .
qed

text \<open>
  The coin does not get stuck among honest processes: when at least a threshold of share providers have a unit on the level below, and all their shares
  are valid, \<open>DataToInclude\<close> returns the random bytes of that level, followed by an own share if the process is a share provider.
\<close>

theorem coin_makes_progress:
  assumes "dag_reach mq n d es" "0 < mq n" "combines_shares (coin_wtk c)" "0 < Threshold (coin_wtk c)" "0 < level"
    and "\<forall>v \<in> set es. Level v = level - 1 \<longrightarrow> usable c v \<longrightarrow> VerifyShare (coin_wtk c) (the (coinShares c (Hash v))) (nonce_coin (level - 1) (coin_epoch c))"
    and "unat (Threshold (coin_wtk c)) \<le> card (Creator ` {v \<in> set es. usable c v \<and> Level v = level - 1})"
    and "shareProviders c (coin_pid c) \<longrightarrow> CreateShare (coin_wtk c) (nonce_coin level (coin_epoch c)) \<noteq> None"
  shows "\<exists>bs c'. DataToInclude_coin t c d parents level = Some (Inr bs, c')"
proof -
  have th: "0 < unat (Threshold (coin_wtk c))" using assms(4) by (simp add: word_less_nat_alt)
  let ?vs = "List.map_filter (\<lambda>p. find (usable c) (filter (\<lambda>v. Level v = level - 1 \<and> Creator v = p) es)) (pids n)"
  have W: "wf_set n (set es)" using units_invD(1) dag_invD(1) dag_reach_inv [OF assms(1,2)] by blast
  have "\<forall>v \<in> set es. Creator v \<in> set (pids n)" using wf_setD(1) [OF W] by (auto simp: set_pids wf_node_def)
  then have len: "unat (Threshold (coin_wtk c)) \<le> length ?vs" using map_filter_find(2) [OF distinct_pids, of es n "usable c" "level - 1"] assms(7) by simp
  have col: "collected c d (level - 1) = take (unat (Threshold (coin_wtk c))) (map (\<lambda>v. the (coinShares c (Hash v))) ?vs)"
    by (rule collected_eq [OF assms(1,2) th])
  have "\<forall>s \<in> set (collected c d (level - 1)). VerifyShare (coin_wtk c) s (nonce_coin (level - 1) (coin_epoch c))"
  proof
    fix s assume "s \<in> set (collected c d (level - 1))"
    then obtain v where "v \<in> set ?vs" "s = the (coinShares c (Hash v))" unfolding col by (auto dest!: in_set_takeD)
    then show "VerifyShare (coin_wtk c) s (nonce_coin (level - 1) (coin_epoch c))"
      using map_filter_find(1) [of "usable c" "level - 1" es "pids n"] assms(6) by blast
  qed
  moreover have "unat (Threshold (coin_wtk c)) \<le> length (collected c d (level - 1))" using len unfolding col by simp
  ultimately obtain sg where sg: "CombineShares (coin_wtk c) (collected c d (level - 1)) = Some sg"
      "VerifySignature (coin_wtk c) sg (nonce_coin (level - 1) (coin_epoch c))" using assms(3) unfolding combines_shares_def by blast
  then have cb: "combineShares_coin t c d (level - 1) = Inr (MarshalSignature t sg)" by (simp add: combineShares_coin_def)
  have "Get_bytes (coin_randomBytes c) (level - 1) \<noteq> None" using assms(5) by (simp add: Get_bytes_def)
  then obtain rbl where "Get_bytes (coin_randomBytes c) (level - 1) = Some rbl" by blast
  then show ?thesis using cb assms(5,8) by (cases rbl) (auto simp: DataToInclude_coin_def)
qed

section \<open>Wrong shares and missing data\<close>


text \<open>
  The dealing unit of a process that is not a share provider is rejected by everyone who receives it: the check wants its random source data to be
  nil, and the decoder never produces nil.
\<close>

theorem dealing_without_share_rejected:
  assumes "decodePreunit shake bs = Some (Inr (Some pu, rest))" "preunit_of u = pu" "Dealing pu" "\<not> shareProviders c (Creator u)"
  shows "checkCompliance_coin t c u = Some (Some (OtherError ''random source data should be empty''))"
proof -
  have "pu_rsData pu \<noteq> None"
    using assms(1) by (auto simp: decodePreunit_def rbind_def rreturn_def rfail_def rpanic_def NewPreunit_def Let_def split: option.split_asm sum.split_asm prod.split_asm if_split_asm bind_split_asm)
  then show ?thesis using assms(2-4) by (simp add: checkCompliance_coin_def)
qed

lemma PutUint64_inj: "PutUint64 x = PutUint64 y \<longleftrightarrow> x = y"
  by (metis Uint_Put(3))

lemma word_of_int_inj64: "0 \<le> i \<Longrightarrow> i < 2 ^ 64 \<Longrightarrow> 0 \<le> j \<Longrightarrow> j < 2 ^ 64 \<Longrightarrow> (word_of_int i :: u64) = word_of_int j \<longleftrightarrow> i = j"
  by (auto simp: word_of_int_eq_iff take_bit_int_eq_self)

lemma nonce_coin_eq: "nonce_coin l e = PutUint64 (word_of_int (uint e * 2 ^ 16 + l))"
proof -
  have "(push_bit 16 (ucast e) :: u64) = word_of_int (uint e * 2 ^ 16)"
    unfolding push_bit_eq_mult ucast_eq of_int_mult by simp
  then show ?thesis unfolding nonce_coin_def by simp
qed

text \<open>
  C39: levels below $2^{16}$ of different epochs have different nonces; beyond, a level gets the nonce of a level of the next epoch.
\<close>

theorem nonce_separates_epochs:
  assumes "0 \<le> l" "l < 2 ^ 16" "0 \<le> l'" "l' < 2 ^ 16"
  shows "(nonce_coin l e = nonce_coin l' e' \<longleftrightarrow> l = l' \<and> e = e') \<and> (e \<noteq> - 1 \<longrightarrow> nonce_coin (l + 2 ^ 16) e = nonce_coin l (e + 1))"
proof
  have b: "0 \<le> uint e * 2 ^ 16 + l" "uint e * 2 ^ 16 + l < 2 ^ 64" if "0 \<le> l" "l < 2 ^ 16" for e :: EpochID and l
    using that uint_lt2p [of e] by (auto intro: order_less_le_trans [of _ "uint e * 2 ^ 16 + 2 ^ 16"])
  have "nonce_coin l e = nonce_coin l' e' \<longleftrightarrow> uint e * 2 ^ 16 + l = uint e' * 2 ^ 16 + l'"
    using PutUint64_inj word_of_int_inj64 [OF b [OF assms(1,2), of e] b [OF assms(3,4), of e']] unfolding nonce_coin_eq by simp
  also have "\<dots> \<longleftrightarrow> l = l' \<and> uint e = uint e'"
  proof -
    have "(a * 2 ^ 16 + l) mod 2 ^ 16 = l" "(a * 2 ^ 16 + l') mod 2 ^ 16 = l'" for a using assms by simp_all
    then show ?thesis by (metis add_right_cancel mult_right_cancel zero_neq_numeral power_not_zero)
  qed
  finally show "nonce_coin l e = nonce_coin l' e' \<longleftrightarrow> l = l' \<and> e = e'" by (simp add: word_uint_eq_iff)
  show "e \<noteq> - 1 \<longrightarrow> nonce_coin (l + 2 ^ 16) e = nonce_coin l (e + 1)"
  proof
    assume "e \<noteq> - 1"
    then have "int (unat (e + 1)) = int (unat e) + 1" using unat_plus_one [of e] by simp
    then have "uint (e + 1) = uint e + 1" by simp
    then show "nonce_coin (l + 2 ^ 16) e = nonce_coin l (e + 1)" unfolding nonce_coin_eq by (simp add: algebra_simps)
  qed
qed

section \<open>Examples\<close>

text \<open>A scheme in which the signature of a message is its number, and shares are signatures.\<close>

definition demo_number :: "bytes \<Rightarrow> u64 option" where
  "demo_number bs = (if PutUint64 (Uint64 bs) = bs then Some (Uint64 bs) else None)"

definition demo_ctss :: "(u64, u64) coin_tss" where
  "demo_ctss = \<lparr>Owner = (\<lambda>_. 0), MarshalShare = PutUint64, UnmarshalShare = demo_number, MarshalSignature = PutUint64, UnmarshalSignature = demo_number,
     SignatureLength = 8, badShare = (\<lambda>_. 0)\<rparr>"

definition demo_cwtk :: "(u64, u64) wtk" where
  "demo_cwtk = \<lparr>Threshold = 1, CreateShare = (\<lambda>msg. Some (Uint64 msg)), VerifyShare = (\<lambda>s msg. PutUint64 s = msg),
     CombineShares = (\<lambda>ss. case ss of [] \<Rightarrow> None | s # _ \<Rightarrow> Some s), VerifySignature = (\<lambda>s msg. PutUint64 s = msg)\<rparr>"

lemma demo_unique: "unique_signatures demo_ctss demo_cwtk"
  by (auto simp: unique_signatures_def demo_ctss_def demo_cwtk_def demo_number_def PutUint64_inj)

definition demo_cunit :: "int \<Rightarrow> Unit" where
  "demo_cunit l = freeUnit (demo_pu 0 [0] 7\<lparr>pu_rsData := Some (nonce_coin (l - 1) 0)\<rparr>) [None] l []"

definition demo_coin_step :: "(u64, u64) coin \<Rightarrow> int \<Rightarrow> (u64, u64) coin go" where
  "demo_coin_step c l = (if checkCompliance_coin demo_ctss c (demo_cunit l) = Some None then update_coin demo_ctss c (demo_cunit l) else None)"

definition demo_coin :: "(u64, u64) coin go" where
  "demo_coin = go_fold demo_coin_step (newCoin 0 0 demo_cwtk (\<lambda>_. False)) [1, 2, 3, 4, 5, 6]"

lemma demo_coin_run:
  obtains c where "demo_coin = Some c" "coin_run demo_ctss demo_cwtk (\<lambda>_. False) 0 c []"
proof -
  have "demo_coin \<noteq> None" by code_simp
  then obtain c where c: "demo_coin = Some c" by blast
  have "coin_run demo_ctss demo_cwtk (\<lambda>_. False) 0 c' []"
    if "go_fold demo_coin_step c0 ls = Some c'" "coin_run demo_ctss demo_cwtk (\<lambda>_. False) 0 c0 []" for c0 ls c'
    using that
  proof (induction ls arbitrary: c0)
    case (Cons l ls)
    have e: "Epoch (demo_cunit l) = 0" by (simp add: demo_cunit_def Epoch_def demo_pu_def)
    obtain c1 where c1: "demo_coin_step c0 l = Some c1" "go_fold demo_coin_step c1 ls = Some c'" using Cons.prems(1) by (auto split: bind_split_asm)
    then have "checkCompliance_coin demo_ctss c0 (demo_cunit l) = Some None" "update_coin demo_ctss c0 (demo_cunit l) = Some c1"
      by (auto simp: demo_coin_step_def split: if_split_asm)
    then show ?case using c1(2) Cons.IH coin_run.checked [OF Cons.prems(2) e] by blast
  qed simp
  then show thesis using that c coin_run.start unfolding demo_coin_def by blast
qed

definition demo_known :: "bytes list" where
  "demo_known = map (\<lambda>b. b # replicate 7 0) [0, 1, 2, 3, 4, 5]"

lemma demo_coin_known: "map_option coin_randomBytes demo_coin = Some demo_known"
  by code_simp

lemma demo_coin_round:
  "(case demo_four of Some (d, _) \<Rightarrow>
      map_option fst (NextRound demo_prio (\<lambda>p l. case Get_bytes demo_known l of Some (Some b) \<Rightarrow> Some b | _ \<Rightarrow> None) demo_mq d (NewExtender (requiredByLinear :: unit conf))) | _ \<Rightarrow> None)
     = Some (Some (newTimingRound (demo_f 0) [None, None, None]))"
  by code_simp


theorem DataToInclude_accepted_witness:
  "\<exists>c c'. demo_coin = Some c \<and> DataToInclude_coin demo_ctss c (New_core 1 5 0) [] 2 = Some (Inr (nonce_coin 1 0), c')
     \<and> checkCompliance_coin demo_ctss (newCoin 3 0 demo_cwtk (\<lambda>_. False)) (demo_cunit 2) = Some None"
proof -
  obtain c where c: "demo_coin = Some c" "coin_run demo_ctss demo_cwtk (\<lambda>_. False) 0 c []" by (rule demo_coin_run)
  have "map_option (\<lambda>c. (map_option fst (DataToInclude_coin demo_ctss c (New_core 1 5 0) [] 2), coin_pid c)) demo_coin = Some (Some (Inr (nonce_coin 1 0)), 0)" by code_simp
  then obtain c' where d: "DataToInclude_coin demo_ctss c (New_core 1 5 0) [] 2 = Some (Inr (nonce_coin 1 0), c')" "coin_pid c = 0" unfolding c(1) by auto
  have m: "\<forall>sh. UnmarshalShare demo_ctss (MarshalShare demo_ctss sh) = Some sh" by (simp add: demo_ctss_def demo_number_def)
  have u: "Creator (demo_cunit 2) = 0" "Level (demo_cunit 2) = 2" "\<not> Dealing (preunit_of (demo_cunit 2))" "Epoch (demo_cunit 2) = 0"
    "pu_rsData (preunit_of (demo_cunit 2)) = Some (nonce_coin 1 0)" by code_simp+
  show ?thesis using DataToInclude_accepted [OF demo_unique m c(2) d(1) coin_run.start, of "demo_cunit 2" 3] u c(1) d by auto
qed

text \<open>Coins that stored a share \<open>s\<close> from the dealing unit of process 0, the only share provider.\<close>

definition demo_scoin :: "u64 \<Rightarrow> (u64, u64) coin" where
  "demo_scoin s = (newCoin 1 0 demo_cwtk (\<lambda>p. p = 0))\<lparr>coinShares := [Hash demo_a0 \<mapsto> s]\<rparr>"

theorem coin_makes_progress_witness:
  "\<exists>d bs c'. map_option fst demo = Some d \<and> DataToInclude_coin demo_ctss (demo_scoin 0) d [Some demo_a0, Some demo_b0] 1 = Some (Inr bs, c')"
proof -
  obtain d where d: "demo = Some (d, [demo_a0, demo_b0, demo_a1])" "dag_reach demo_mq 2 d [demo_a0, demo_b0, demo_a1]" by (rule demo_reach)
  have u: "0 < demo_mq 2" "Creator demo_a0 = 0" "Level demo_a0 = 0" "Creator demo_b0 \<noteq> 0" "Level demo_a1 \<noteq> 0" "nonce_coin 0 0 = PutUint64 0" by code_simp+
  have c: "coin_wtk (demo_scoin 0) = demo_cwtk" "Threshold demo_cwtk = 1" "coin_epoch (demo_scoin 0) = 0" "coin_pid (demo_scoin 0) = 1"
    "shareProviders (demo_scoin 0) = (\<lambda>p. p = 0)" "coinShares (demo_scoin 0) = [Hash demo_a0 \<mapsto> 0]"
    by (simp_all add: demo_scoin_def newCoin_def demo_cwtk_def)
  have cs: "combines_shares demo_cwtk" by (auto simp: combines_shares_def demo_cwtk_def split: list.splits)
  have us: "{v \<in> set [demo_a0, demo_b0, demo_a1]. usable (demo_scoin 0) v \<and> Level v = 1 - 1} = {demo_a0}"
    using u c(5,6) by auto
  show ?thesis
    using coin_makes_progress [OF d(2) u(1), of "demo_scoin 0" 1 demo_ctss "[Some demo_a0, Some demo_b0]"] d(1) c cs us u(2,6)
    by (auto simp: demo_cwtk_def)
qed


definition demo_dealt :: preunit where
  "demo_dealt = \<lparr>pu_creator = 1, pu_epochID = 3, pu_height = 0, pu_signature = replicate 64 9,
     pu_hash = replicate 31 0 @ [50], pu_crown = \<lparr>Heights = [-1, -1], ControlHash = replicate 32 7\<rparr>, pu_data = [1, 2], pu_rsData = Some []\<rparr>"

theorem dealing_without_share_rejected_witness:
  "\<exists>bs. decodePreunit demo_shake bs = Some (Inr (Some demo_dealt, []))
     \<and> checkCompliance_coin demo_ctss (newCoin 0 3 demo_cwtk (\<lambda>p. p = 0)) (freeUnit demo_dealt [None, None] 0 []) = Some (Some (OtherError ''random source data should be empty''))"
proof -
  have "NewPreunit demo_shake (UnitID demo_dealt) (pu_crown demo_dealt) (pu_data demo_dealt) (pu_rsData demo_dealt) (pu_signature demo_dealt) = Some demo_dealt"
    "UnitID demo_dealt \<noteq> - 1" and x: "Dealing demo_dealt" "pu_creator demo_dealt = 1" by code_simp+
  then have v: "valid_unit demo_shake (Some demo_dealt)"
    by (simp add: valid_unit_def valid_preunit_def valid_crown_def valid_height_def demo_dealt_def HashLength_def MaxDataBytesPerUnit_def MaxRandomSourceDataBytesPerUnit_def)
  obtain bs where "encodeUnit (Some demo_dealt) = Some bs" using unit_codec.enc_total [OF v] by blast
  then have b: "decodePreunit demo_shake bs = Some (Inr (Some demo_dealt, []))" using unit_codec.dec_enc [OF v, of bs "[]"] by simp
  have "checkCompliance_coin demo_ctss (newCoin 0 3 demo_cwtk (\<lambda>p. p = 0)) (freeUnit demo_dealt [None, None] 0 []) = Some (Some (OtherError ''random source data should be empty''))"
    by (rule dealing_without_share_rejected [OF b]) (use x in \<open>simp_all add: Creator_def newCoin_def\<close>)
  then show ?thesis using b by blast
qed

theorem nonce_separates_epochs_witness:
  "nonce_coin 3 7 \<noteq> nonce_coin 4 7 \<and> nonce_coin (3 + 2 ^ 16) 7 = nonce_coin 3 8"
  using nonce_separates_epochs [of 3 4 7 7] by simp

end
