(* ===== verification/Keys.thy ===== *)
theory Keys
  imports Preunits
begin

text \<open>
  Signing keys (\<open>pkg/crypto/signing/nacl.go\<close>): keys are written as base64 strings (\<open>encoding/base64\<close> of Go's library, \<open>StdEncoding\<close>) and sign the hashes of preunits. The signature
  scheme of the NaCl library is a parameter: \<open>sig_sign\<close> gives a signed message, \<open>sig_open\<close> opens one.
\<close>

section \<open>Base64\<close>

definition alphabet :: string where
  "alphabet = ''ABCDEFGHIJKLMNOPQRSTUVWXYZabcdefghijklmnopqrstuvwxyz0123456789+/''"

definition char64 :: "u8 \<Rightarrow> char" where
  "char64 w = alphabet ! unat w"

fun index_of :: "'a \<Rightarrow> 'a list \<Rightarrow> nat option" where
  "index_of x [] = None"
| "index_of x (y # ys) = (if x = y then Some 0 else map_option Suc (index_of x ys))"

definition value64 :: "char \<Rightarrow> u8 option" where
  "value64 c = map_option of_nat (index_of c alphabet)"

text \<open>\<open>EncodeToString\<close>: three bytes give four characters, the rest is padded.\<close>

fun EncodeToString :: "bytes \<Rightarrow> string" where
  "EncodeToString (x # y # z # bs) =
     char64 (drop_bit 2 x) # char64 ((push_bit 4 x AND 63) OR drop_bit 4 y) # char64 ((push_bit 2 y AND 63) OR drop_bit 6 z) # char64 (z AND 63) # EncodeToString bs"
| "EncodeToString [x, y] = [char64 (drop_bit 2 x), char64 ((push_bit 4 x AND 63) OR drop_bit 4 y), char64 (push_bit 2 y AND 63), CHR ''='']"
| "EncodeToString [x] = [char64 (drop_bit 2 x), char64 (push_bit 4 x AND 63), CHR ''='', CHR ''='']"
| "EncodeToString [] = []"

text \<open>\<open>DecodeString\<close> skips line breaks; padding may only end the string, and the bits it leaves over are not looked at.\<close>

fun decode64 :: "string \<Rightarrow> bytes option" where
  "decode64 [] = Some []"
| "decode64 (a # b # c # d # cs) =
     do { x \<leftarrow> value64 a; y \<leftarrow> value64 b;
          if c = CHR ''='' then (if d = CHR ''='' \<and> cs = [] then Some [push_bit 2 x OR drop_bit 4 y] else None)
          else do { z \<leftarrow> value64 c;
                    if d = CHR ''='' then (if cs = [] then Some [push_bit 2 x OR drop_bit 4 y, push_bit 4 y OR drop_bit 2 z] else None)
                    else do { w \<leftarrow> value64 d; bs \<leftarrow> decode64 cs;
                              Some ((push_bit 2 x OR drop_bit 4 y) # (push_bit 4 y OR drop_bit 2 z) # (push_bit 6 z OR w) # bs) } } }"
| "decode64 _ = None"

definition DecodeString :: "string \<Rightarrow> bytes option" where
  "DecodeString s = decode64 (filter (\<lambda>c. c \<noteq> CHR 10 \<and> c \<noteq> CHR 13) s)"

lemma alphabet_facts: "distinct alphabet" "length alphabet = 64" "CHR ''='' \<notin> set alphabet" "CHR 10 \<notin> set alphabet" "CHR 13 \<notin> set alphabet"
  by (code_simp, simp add: alphabet_def, code_simp+)

lemma index_of_nth: "distinct xs \<Longrightarrow> i < length xs \<Longrightarrow> index_of (xs ! i) xs = Some i"
  by (induction xs arbitrary: i) (auto simp: nth_Cons split: nat.split)

lemma value_char64: "unat w < 64 \<Longrightarrow> value64 (char64 w) = Some w"
  using index_of_nth [of alphabet "unat w"] alphabet_facts by (simp add: value64_def char64_def)

lemma char64_in: "unat w < 64 \<Longrightarrow> char64 w \<in> set alphabet"
  by (simp add: char64_def alphabet_facts(2))

lemma mask6: "(63 :: u8) = mask 6" "(15 :: u8) = mask 4" "(3 :: u8) = mask 2"
  by (simp_all add: mask_eq_exp_minus_1)

lemma bits8: "(n :: nat) < 8 \<Longrightarrow> n = 0 \<or> n = 1 \<or> n = 2 \<or> n = 3 \<or> n = 4 \<or> n = 5 \<or> n = 6 \<or> n = 7"
  by linarith

lemma no_bit8: "8 \<le> n \<Longrightarrow> \<not> bit (w :: u8) n"
  using bit_imp_le_length [of w n] by auto

lemma word8_eqI: "(\<And>n. n \<in> {0, 1, 2, 3, 4, 5, 6, 7} \<Longrightarrow> bit (v :: u8) n = bit w n) \<Longrightarrow> v = w"
proof (rule bit_word_eqI)
  fix n assume a: "\<And>n. n \<in> {0, 1, 2, 3, 4, 5, 6, 7} \<Longrightarrow> bit v n = bit w n" and "n < LENGTH(8)"
  then have "n \<in> {0, 1, 2, 3, 4, 5, 6, 7}" using bits8 [of n] by auto
  then show "bit v n = bit w n" by (rule a)
qed

text \<open>The six-bit groups.\<close>

lemma sixbits:
  "unat (drop_bit 2 x :: u8) < 64" "unat ((push_bit 4 x AND 63) OR drop_bit 4 y :: u8) < 64" "unat ((push_bit 2 y AND 63) OR drop_bit 6 z :: u8) < 64"
  "unat (z AND 63 :: u8) < 64" "unat (push_bit 2 y AND 63 :: u8) < 64" "unat (push_bit 4 x AND 63 :: u8) < 64"
proof -
  have lt: "unat w < 64" if "take_bit 6 w = w" for w :: u8
  proof -
    have "unat (take_bit 6 w) = take_bit 6 (unat w)" by (rule unsigned_take_bit_eq)
    then have "unat w = take_bit 6 (unat w)" using that by simp
    then show ?thesis using take_bit_nat_less_exp [of 6 "unat w"] by simp
  qed
  show "unat (drop_bit 2 x :: u8) < 64" "unat ((push_bit 4 x AND 63) OR drop_bit 4 y :: u8) < 64" "unat ((push_bit 2 y AND 63) OR drop_bit 6 z :: u8) < 64"
    "unat (z AND 63 :: u8) < 64" "unat (push_bit 2 y AND 63 :: u8) < 64" "unat (push_bit 4 x AND 63 :: u8) < 64"
    by (rule lt; rule word8_eqI; auto simp: mask6 bit_simps no_bit8)+
qed

lemma joins:
  "push_bit 2 (drop_bit 2 x) OR drop_bit 4 (push_bit 4 x) AND 3 = (x :: u8)" "push_bit 4 (drop_bit 4 y) OR drop_bit 2 (push_bit 2 y) AND 15 = (y :: u8)"
  "push_bit 6 (drop_bit 6 z) OR z AND 63 = (z :: u8)"
  by (rule word8_eqI; auto simp: mask6 bit_simps numeral_2_eq_2 [symmetric])+

lemma char64_no_pad: "unat w < 64 \<Longrightarrow> char64 w \<noteq> CHR ''=''"
  using char64_in alphabet_facts(3) by metis

lemma decode_encode64: "decode64 (EncodeToString bs) = Some bs"
  by (induction bs rule: EncodeToString.induct) (simp_all add: value_char64 sixbits char64_no_pad joins)

lemma set_EncodeToString: "set (EncodeToString bs) \<subseteq> insert (CHR ''='') (set alphabet)"
  by (induction bs rule: EncodeToString.induct) (auto simp: char64_in sixbits)

lemma DecodeString_Encode: "DecodeString (EncodeToString bs) = Some bs"
proof -
  have "\<forall>c \<in> set (EncodeToString bs). c \<noteq> CHR 10 \<and> c \<noteq> CHR 13"
    using set_EncodeToString [of bs] alphabet_facts(4,5) by fastforce
  then have "filter (\<lambda>c. c \<noteq> CHR 10 \<and> c \<noteq> CHR 13) (EncodeToString bs) = EncodeToString bs" by (simp add: filter_id_conv)
  then show ?thesis by (simp add: DecodeString_def decode_encode64)
qed

section \<open>Keys and signatures\<close>

text \<open>A key is the slice of its bytes.\<close>

type_synonym publicKey = bytes
type_synonym privateKey = bytes

definition Encode_public :: "publicKey \<Rightarrow> string" where "Encode_public pub = EncodeToString pub"
definition Encode_private :: "privateKey \<Rightarrow> string" where "Encode_private priv = EncodeToString priv"

text \<open>\<open>GenerateKeys\<close>, from what \<open>sign.GenerateKey\<close> of the library gives.\<close>

definition GenerateKeys :: "string + publicKey \<times> privateKey \<Rightarrow> publicKey option \<times> privateKey option \<times> string option" where
  "GenerateKeys r = (case r of Inl err \<Rightarrow> (None, None, Some err) | Inr (pubData, privData) \<Rightarrow> (Some pubData, Some privData, None))"

definition DecodePublicKey :: "string \<Rightarrow> string + publicKey" where
  "DecodePublicKey enc =
     (case DecodeString enc of
        None \<Rightarrow> Inl ''illegal base64 data''
      | Some data \<Rightarrow> if length data \<noteq> 32 then Inl ''bad encoded public key'' else Inr data)"

definition DecodePrivateKey :: "string \<Rightarrow> string + privateKey" where
  "DecodePrivateKey enc =
     (case DecodeString enc of
        None \<Rightarrow> Inl ''illegal base64 data''
      | Some data \<Rightarrow> if length data \<noteq> 64 then Inl ''bad encoded private key'' else Inr data)"

definition Overhead :: nat where "Overhead = 64"

definition Verify_key :: "(bytes \<Rightarrow> publicKey \<Rightarrow> bytes option) \<Rightarrow> publicKey \<Rightarrow> preunit \<Rightarrow> bool" where
  "Verify_key sig_open pub pu \<longleftrightarrow> sig_open (pu_signature pu @ pu_hash pu) pub \<noteq> None"

definition Sign :: "(bytes \<Rightarrow> privateKey \<Rightarrow> bytes) \<Rightarrow> privateKey \<Rightarrow> hash \<Rightarrow> Signature" where
  "Sign sig_sign priv h = take Overhead (sig_sign h priv)"

text \<open>
  Keys survive being written, in strings without spaces, bars and line breaks; and a preunit signed with a private key is verified with the public key of the pair, if a signed
  message of the library is the signature, of fixed length, followed by the message.
\<close>

theorem keys_roundtrip:
  "(length pub = 32 \<longrightarrow> DecodePublicKey (Encode_public pub) = Inr pub) \<and> (length priv = 64 \<longrightarrow> DecodePrivateKey (Encode_private priv) = Inr priv)
   \<and> set (Encode_public pub) \<inter> {CHR 9, CHR 10, CHR 11, CHR 12, CHR 13, CHR '' '', CHR ''|''} = {}"
proof -
  have "insert (CHR ''='') (set alphabet) \<inter> {CHR 9, CHR 10, CHR 11, CHR 12, CHR 13, CHR '' '', CHR ''|''} = {}" by code_simp
  then show ?thesis using set_EncodeToString [of pub]
    by (auto simp: DecodePublicKey_def DecodePrivateKey_def Encode_public_def Encode_private_def DecodeString_Encode)
qed

theorem signed_preunit_verifies:
  assumes "\<forall>m. \<exists>sg. length sg = Overhead \<and> sig_sign m priv = sg @ m" "\<forall>m. sig_open (sig_sign m priv) pub = Some m" "pu_signature pu = Sign sig_sign priv (pu_hash pu)"
  shows "Verify_key sig_open pub pu"
proof -
  obtain sg where "length sg = Overhead" "sig_sign (pu_hash pu) priv = sg @ pu_hash pu" using assms(1) by blast
  then have "pu_signature pu @ pu_hash pu = sig_sign (pu_hash pu) priv" using assms(3) by (simp add: Sign_def)
  then show ?thesis using assms(2) by (simp add: Verify_key_def)
qed

end
