(* ===== verification/Files.thy ===== *)
theory Files
  imports Config Keys
begin

text \<open>
  The files of a process (\<open>pkg/config/committee.go\<close>): its private data, a \<open>Member\<close>, and the public data of all processes, a \<open>Committee\<close>, with the scanners of \<open>bufio\<close>, \<open>strings.Split\<close>
  and \<open>strconv\<close> of Go's library. Files are strings of bytes, and writing to them never fails. The signing keys are written by theory \<open>Keys\<close>; the keys of \<open>bn256\<close> and \<open>p2p\<close> are byte strings whose encodings, of another module, are parameters: the record \<open>key_codec\<close>.
\<close>

section \<open>Strings\<close>

text \<open>\<open>strings.Split\<close> with a separator of one byte.\<close>

fun Split :: "char \<Rightarrow> string \<Rightarrow> string list" where
  "Split sep [] = [[]]"
| "Split sep (c # cs) = (if c = sep then [] # Split sep cs else (case Split sep cs of [] \<Rightarrow> [[c]] | w # ws \<Rightarrow> (c # w) # ws))"

abbreviation newline :: char where "newline \<equiv> CHR 10"
abbreviation return :: char where "return \<equiv> CHR 13"

definition isSpace :: "char \<Rightarrow> bool" where
  "isSpace c \<longleftrightarrow> c \<in> {CHR 9, CHR 10, CHR 11, CHR 12, CHR 13, CHR '' ''}"

text \<open>
  \<open>bufio.ScanWords\<close>, for files without spaces outside ASCII. The buffer of a scanner holds 65536 bytes, and a token that does not fit makes \<open>Scan\<close> return false.
\<close>

definition maxToken :: nat where "maxToken = 65536"

fun words :: "string \<Rightarrow> string \<Rightarrow> string list" where
  "words w [] = (if w = [] then [] else [rev w])"
| "words w (c # cs) = (if isSpace c then (if w = [] then words [] cs else rev w # words [] cs) else words (c # w) cs)"

definition scan_words :: "string \<Rightarrow> string list" where
  "scan_words s = takeWhile (\<lambda>w. length w < maxToken) (words [] s)"

text \<open>\<open>bufio.ScanLines\<close> drops a carriage return before the line break; a last line without one counts unless it is empty. The flag is \<open>scanner.Err() != nil\<close>.\<close>

definition dropCR :: "string \<Rightarrow> string" where
  "dropCR l = (if l \<noteq> [] \<and> last l = return then butlast l else l)"

definition scan_lines :: "string \<Rightarrow> string list \<times> bool" where
  "scan_lines s =
     (let ls = Split newline s; ls' = (if last ls = [] then butlast ls else ls)
      in (map dropCR (takeWhile (\<lambda>l. length l < maxToken) ls'), list_ex (\<lambda>l. length l \<ge> maxToken) ls'))"

text \<open>\<open>strconv.Atoi\<close> accepts a sign and refuses what does not fit into 64 bits.\<close>

definition is_digit :: "char \<Rightarrow> bool" where "is_digit c \<longleftrightarrow> (of_char c :: nat) \<in> {48..<58}"

definition digits_value :: "string \<Rightarrow> nat" where
  "digits_value s = foldl (\<lambda>v c. 10 * v + (of_char c - 48)) 0 s"

definition Atoi :: "string \<Rightarrow> string + int" where
  "Atoi s =
     (let (neg, ds) = (case s of [] \<Rightarrow> (False, []) | c # cs \<Rightarrow> if c = CHR ''-'' then (True, cs) else if c = CHR ''+'' then (False, cs) else (False, s));
          v = (if neg then - int (digits_value ds) else int (digits_value ds))
      in if ds = [] \<or> \<not> list_all is_digit ds then Inl ''invalid syntax''
         else if v < - (2 ^ 63) \<or> v \<ge> 2 ^ 63 then Inl ''value out of range'' else Inr v)"

section \<open>Members\<close>

record key_codec =
  EncRMC :: "bytes \<Rightarrow> string"
  DecRMC :: "string \<Rightarrow> string + bytes"
  EncP2P :: "bytes \<Rightarrow> string"
  DecP2P :: "string \<Rightarrow> string + bytes"
  EncP2PPub :: "bytes \<Rightarrow> string"
  DecP2PPub :: "string \<Rightarrow> string + bytes"
  EncVK :: "bytes \<Rightarrow> string"
  DecVK :: "string \<Rightarrow> string + bytes"

definition malformedData :: string where "malformedData = ''malformed committee data''"

definition ebind :: "string + 'a \<Rightarrow> ('a \<Rightarrow> string + 'b) \<Rightarrow> string + 'b" where
  "ebind r f = (case r of Inl e \<Rightarrow> Inl e | Inr x \<Rightarrow> f x)"

definition Scan :: "string list \<Rightarrow> string + string \<times> string list" where
  "Scan ws = (case ws of [] \<Rightarrow> Inl malformedData | w # ws' \<Rightarrow> Inr (w, ws'))"

definition LoadMember :: "key_codec \<Rightarrow> string \<Rightarrow> string + bytes Member" where
  "LoadMember K r =
     ebind (Scan (scan_words r)) (\<lambda>(w1, ws1). ebind (DecodePrivateKey w1) (\<lambda>privateKey.
     ebind (Scan ws1) (\<lambda>(w2, ws2). ebind (DecRMC K w2) (\<lambda>secretKey.
     ebind (Scan ws2) (\<lambda>(w3, ws3). ebind (DecP2P K w3) (\<lambda>sKey.
     ebind (Scan ws3) (\<lambda>(w4, ws4). ebind (Atoi w4) (\<lambda>pid.
     Inr \<lparr>m_Pid = word_of_int pid, m_PrivateKey = Some privateKey, m_RMCSecretKey = Some secretKey, m_P2PSecretKey = Some sKey\<rparr>))))))))"

text \<open>\<open>Encode\<close> of a nil key panics.\<close>

definition StoreMember :: "key_codec \<Rightarrow> bytes Member \<Rightarrow> string go" where
  "StoreMember K m =
     do { a \<leftarrow> m_PrivateKey m; b \<leftarrow> m_RMCSecretKey m; c \<leftarrow> m_P2PSecretKey m;
          Some (Encode_private a @ '' '' @ EncRMC K b @ '' '' @ EncP2P K c @ '' '' @ Itoa (int (unat (m_Pid m))) @ [newline]) }"

section \<open>Committees\<close>

definition parse_addr :: "(string \<rightharpoonup> string) \<Rightarrow> string \<Rightarrow> (string \<rightharpoonup> string)" where
  "parse_addr addrs addr =
     (case addr of
        [] \<Rightarrow> addrs
      | c # cs \<Rightarrow>
          if c = CHR ''r'' then addrs(''rmc'' \<mapsto> cs)
          else if c = CHR ''f'' then addrs(''fetch'' \<mapsto> cs)
          else if c = CHR ''g'' then addrs(''gossip'' \<mapsto> cs)
          else if c = CHR ''m'' then addrs(''mcast'' \<mapsto> cs)
          else addrs)"

definition parseAddrs :: "string \<Rightarrow> (string \<rightharpoonup> string)" where
  "parseAddrs addrsList = foldl parse_addr Map.empty (Split (CHR '' '') addrsList)"

definition parseCommitteeLine :: "string \<Rightarrow> string + string \<times> string \<times> string \<times> (string \<rightharpoonup> string) \<times> (string \<rightharpoonup> string)" where
  "parseCommitteeLine line =
     (case Split (CHR ''|'') line of
        pk # p2pPK # vk # setupAddrsList # addrsList # _ \<Rightarrow>
          if pk = [] then Inl malformedData
          else
            let errs = (if p2pPK = [] then [''p2p public key should be non-empty''] else []) @ (if vk = [] then [''verification key should be non-empty''] else [])
            in if errs = [] then Inr (pk, p2pPK, vk, parseAddrs setupAddrsList, parseAddrs addrsList)
               else Inl (concat (hd errs # map (\<lambda>e. newline # e) (tl errs)))
      | _ \<Rightarrow> Inl (''commitee line should be of the form:'' @ [newline] @ ''publicKey|verifiactionKey|p2pPublicKey|setupAddresses|addresses''))"

definition addAddr :: "addresses \<Rightarrow> (string \<rightharpoonup> string) \<Rightarrow> addresses" where
  "addAddr commAddrMap addrMap =
     (\<lambda>syncType. case addrMap syncType of
        None \<Rightarrow> commAddrMap syncType
      | Some addr \<Rightarrow> Some ((case commAddrMap syncType of None \<Rightarrow> [] | Some l \<Rightarrow> l) @ [addr]))"

definition load_line :: "key_codec \<Rightarrow> bytes Committee \<Rightarrow> string \<Rightarrow> string + bytes Committee" where
  "load_line K c line =
     ebind (parseCommitteeLine line) (\<lambda>(pk, p2pPK, vk, setupAddrs, addrs).
     ebind (DecodePublicKey pk) (\<lambda>publicKey. ebind (DecP2PPub K p2pPK) (\<lambda>p2pPublicKey. ebind (DecVK K vk) (\<lambda>verificationKey.
     Inr (c\<lparr>c_PublicKeys := c_PublicKeys c @ [Some publicKey], c_P2PPublicKeys := c_P2PPublicKeys c @ [Some p2pPublicKey],
            c_RMCVerificationKeys := c_RMCVerificationKeys c @ [Some verificationKey], SetupAddresses := addAddr (SetupAddresses c) setupAddrs,
            Addresses := addAddr (Addresses c) addrs\<rparr>)))))"

fun load_lines :: "key_codec \<Rightarrow> bytes Committee \<Rightarrow> string list \<Rightarrow> string + bytes Committee" where
  "load_lines K c [] = Inr c"
| "load_lines K c (l # ls) = ebind (load_line K c l) (\<lambda>c'. load_lines K c' ls)"

definition emptyCommittee :: "bytes Committee" where
  "emptyCommittee = \<lparr>c_PublicKeys = [], c_P2PPublicKeys = [], c_RMCVerificationKeys = [], SetupAddresses = Map.empty, Addresses = Map.empty\<rparr>"

definition LoadCommittee :: "key_codec \<Rightarrow> string \<Rightarrow> string + bytes Committee" where
  "LoadCommittee K r =
     (case scan_lines r of (ls, tooLong) \<Rightarrow>
        ebind (load_lines K emptyCommittee ls) (\<lambda>c.
        if tooLong then Inl ''bufio.Scanner: token too long''
        else if length (c_PublicKeys c) < 4 then Inl malformedData
        else Inr c))"

fun storeAddresses :: "nat \<Rightarrow> addresses \<Rightarrow> nat \<Rightarrow> string list \<Rightarrow> string go" where
  "storeAddresses pid addrs j [] = Some []"
| "storeAddresses pid addrs j (syncType # types) =
     (case addrs syncType of
        None \<Rightarrow> storeAddresses pid addrs (Suc j) types
      | Some l \<Rightarrow>
          do { a \<leftarrow> nth_opt l pid;
               rest \<leftarrow> storeAddresses pid addrs (Suc j) types;
               Some ((if j \<noteq> 0 then '' '' else []) @ take 1 syncType @ a @ rest) })"

definition setupTypes :: "string list" where "setupTypes = [''rmc'', ''fetch'', ''gossip'']"
definition addressTypes :: "string list" where "addressTypes = [''rmc'', ''mcast'', ''fetch'', ''gossip'']"

definition store_line :: "key_codec \<Rightarrow> bytes Committee \<Rightarrow> nat \<Rightarrow> string go" where
  "store_line K c i =
     do { k1 \<leftarrow> nth_opt (c_PublicKeys c) i; a \<leftarrow> k1; k2 \<leftarrow> nth_opt (c_P2PPublicKeys c) i; b \<leftarrow> k2; k3 \<leftarrow> nth_opt (c_RMCVerificationKeys c) i; v \<leftarrow> k3;
          sa \<leftarrow> storeAddresses i (SetupAddresses c) 0 setupTypes;
          ad \<leftarrow> storeAddresses i (Addresses c) 0 addressTypes;
          Some (Encode_public a @ ''|'' @ EncP2PPub K b @ ''|'' @ EncVK K v @ ''|'' @ sa @ ''|'' @ ad @ [newline]) }"

definition StoreCommittee :: "key_codec \<Rightarrow> bytes Committee \<Rightarrow> string go" where
  "StoreCommittee K c = map_option concat (those (map (store_line K c) [0..<length (c_PublicKeys c)]))"

section \<open>Scanning what was written\<close>

lemma Split_single: "sep \<notin> set w \<Longrightarrow> Split sep w = [w]"
  by (induction w) auto

lemma Split_append: "sep \<notin> set w \<Longrightarrow> Split sep (w @ sep # rest) = w # Split sep rest"
  by (induction w) auto

lemma words_append: "list_all (\<lambda>c. \<not> isSpace c) w \<Longrightarrow> words acc (w @ rest) = words (rev w @ acc) rest"
  by (induction w arbitrary: acc) auto

lemma words_step: "list_all (\<lambda>c. \<not> isSpace c) w \<Longrightarrow> w \<noteq> [] \<Longrightarrow> isSpace c \<Longrightarrow> words [] (w @ c # rest) = w # words [] rest"
  by (simp add: words_append)

lemma Split_lines: "list_all (\<lambda>l. newline \<notin> set l) ls \<Longrightarrow> Split newline (concat (map (\<lambda>l. l @ [newline]) ls)) = ls @ [[]]"
  by (induction ls) (auto simp: Split_append)

lemma scan_lines_written:
  assumes "list_all (\<lambda>l. newline \<notin> set l \<and> return \<notin> set l \<and> length l < maxToken) ls"
  shows "scan_lines (concat (map (\<lambda>l. l @ [newline]) ls)) = (ls, False)"
proof -
  have "map dropCR ls = ls" using assms by (auto simp: list_all_iff dropCR_def intro!: map_idI dest!: last_in_set)
  moreover have "takeWhile (\<lambda>l. length l < maxToken) ls = ls" using assms by (auto simp: list_all_iff takeWhile_eq_all_conv)
  moreover have "\<not> list_ex (\<lambda>l. length l \<ge> maxToken) ls" using assms by (auto simp: list_all_iff list_ex_iff)
  moreover have "Split newline (concat (map (\<lambda>l. l @ [newline]) ls)) = ls @ [[]]" using assms by (intro Split_lines) (auto simp: list_all_iff)
  ultimately show ?thesis by (simp add: scan_lines_def Let_def del: takeWhile_eq_all_conv)
qed

text \<open>Numbers.\<close>

lemma digit_facts: "(d :: nat) < 10 \<Longrightarrow> of_char (char_of (48 + d) :: char) = 48 + d" "(d :: nat) < 10 \<Longrightarrow> is_digit (char_of (48 + d))"
proof -
  assume "d < 10"
  then show "of_char (char_of (48 + d) :: char) = 48 + d" by (simp add: of_char_mod_256)
  then show "is_digit (char_of (48 + d))" using \<open>d < 10\<close> by (simp add: is_digit_def)
qed

lemma nat_digits_value: "list_all is_digit (nat_digits n) \<and> nat_digits n \<noteq> [] \<and> digits_value (nat_digits n) = n"
proof (induction n rule: nat_digits.induct)
  case (1 n)
  show ?case
  proof (cases "n < 10")
    case True
    then show ?thesis by (simp add: nat_digits.simps [of n] digit_facts digits_value_def)
  next
    case False
    then show ?thesis using 1 by (simp add: nat_digits.simps [of n] digit_facts digits_value_def)
  qed
qed

lemma nat_digits_length: "n < 10 ^ Suc k \<Longrightarrow> length (nat_digits n) \<le> Suc k"
proof (induction k arbitrary: n)
  case 0
  then show ?case by (simp add: nat_digits.simps [of n])
next
  case (Suc k)
  then have "n div 10 < 10 ^ Suc k" by (simp add: div_less_iff_less_mult)
  then show ?case using Suc.IH [of "n div 10"] by (simp add: nat_digits.simps [of n])
qed

lemma is_digit_char: "is_digit c \<Longrightarrow> c \<noteq> CHR ''-'' \<and> c \<noteq> CHR ''+'' \<and> \<not> isSpace c"
  by (auto simp: is_digit_def isSpace_def)

lemma Atoi_nat_digits:
  assumes "n < 2 ^ 63" shows "Atoi (nat_digits n) = Inr (int n)"
proof -
  obtain c cs where i: "nat_digits n = c # cs" using nat_digits_value [of n] by (cases "nat_digits n") auto
  then have "is_digit c" using nat_digits_value [of n] by simp
  then have "c \<noteq> CHR ''-''" "c \<noteq> CHR ''+''" using is_digit_char by blast+
  then show ?thesis using nat_digits_value [of n] assms by (simp add: Atoi_def i)
qed

text \<open>An encoding is fit for the files when it decodes and gives words of the file.\<close>

definition coded :: "(bytes \<Rightarrow> string) \<Rightarrow> (string \<Rightarrow> string + bytes) \<Rightarrow> bytes \<Rightarrow> bool" where
  "coded enc dec k \<longleftrightarrow> dec (enc k) = Inr k \<and> enc k \<noteq> [] \<and> list_all (\<lambda>c. \<not> isSpace c \<and> c \<noteq> CHR ''|'') (enc k) \<and> length (enc k) < maxToken"

lemma length_EncodeToString: "length (EncodeToString bs) = 4 * ((length bs + 2) div 3)"
proof (induction bs rule: EncodeToString.induct)
  case (1 x y z bs)
  have "(length bs + 5) div 3 = (length bs + 2) div 3 + 1" by simp
  then show ?case using 1 by (simp add: add.commute)
qed simp_all

lemma base64_plain: "list_all (\<lambda>c. \<not> isSpace c \<and> c \<noteq> CHR ''|'') (EncodeToString bs)"
proof -
  have "insert (CHR ''='') (set alphabet) \<inter> {CHR 9, CHR 10, CHR 11, CHR 12, CHR 13, CHR '' '', CHR ''|''} = {}" by code_simp
  then show ?thesis using set_EncodeToString [of bs] by (auto simp: list_all_iff isSpace_def)
qed

lemma signing_coded:
  "length k = 64 \<Longrightarrow> coded Encode_private DecodePrivateKey k" "length k = 32 \<Longrightarrow> coded Encode_public DecodePublicKey k"
  using length_EncodeToString [of k] base64_plain [of k]
  by (auto simp: coded_def maxToken_def DecodePublicKey_def DecodePrivateKey_def Encode_public_def Encode_private_def DecodeString_Encode)

section \<open>Members survive their file\<close>

theorem member_roundtrip:
  assumes k: "m_PrivateKey m = Some a" "m_RMCSecretKey m = Some b" "m_P2PSecretKey m = Some c"
    and len: "length a = 64" and enc: "coded (EncRMC K) (DecRMC K) b" "coded (EncP2P K) (DecP2P K) c"
  shows "\<exists>r. StoreMember K m = Some r \<and> LoadMember K r = Inr m"
proof -
  let ?d = "nat_digits (unat (m_Pid m))"
  have lt: "unat (m_Pid m) < 65536" using unsigned_less [of "m_Pid m"] by simp
  have ea: "coded Encode_private DecodePrivateKey a" using len by (rule signing_coded)
  have d: "?d \<noteq> []" "list_all (\<lambda>c. \<not> isSpace c) ?d" "length ?d < maxToken" "Atoi ?d = Inr (int (unat (m_Pid m)))"
    using nat_digits_value [of "unat (m_Pid m)"] nat_digits_length [of "unat (m_Pid m)" 4] lt is_digit_char Atoi_nat_digits [of "unat (m_Pid m)"]
    by (auto simp: list_all_iff maxToken_def)
  have sp: "isSpace (CHR '' '')" "isSpace newline" by (simp_all add: isSpace_def)
  let ?r = "Encode_private a @ CHR '' '' # EncRMC K b @ CHR '' '' # EncP2P K c @ CHR '' '' # ?d @ [newline]"
  have plain: "list_all (\<lambda>c. \<not> isSpace c) (Encode_private a)" "list_all (\<lambda>c. \<not> isSpace c) (EncRMC K b)" "list_all (\<lambda>c. \<not> isSpace c) (EncP2P K c)"
    using ea enc by (auto simp: coded_def list_all_iff)
  have "words [] ?r = [Encode_private a, EncRMC K b, EncP2P K c, ?d]"
    using plain d ea enc by (simp add: words_step sp coded_def)
  then have w: "scan_words ?r = [Encode_private a, EncRMC K b, EncP2P K c, ?d]"
    using ea enc d by (simp add: scan_words_def coded_def)
  have "StoreMember K m = Some ?r" using k by (simp add: StoreMember_def Itoa_def)
  moreover have "LoadMember K ?r = Inr m"
    using w ea enc d k by (simp add: LoadMember_def ebind_def Scan_def coded_def)
  ultimately show ?thesis by blast
qed

section \<open>Committees survive their file\<close>

text \<open>The addresses of process \<open>i\<close>, and their entries in its line.\<close>

definition addr_of :: "addresses \<Rightarrow> nat \<Rightarrow> (string \<rightharpoonup> string)" where
  "addr_of A i = (\<lambda>t. map_option (\<lambda>l. l ! i) (A t))"

definition entries :: "addresses \<Rightarrow> nat \<Rightarrow> string list \<Rightarrow> string list" where
  "entries A i types = map (\<lambda>t. take 1 t @ the (addr_of A i t)) (filter (\<lambda>t. A t \<noteq> None) types)"

abbreviation plain :: "string \<Rightarrow> bool" where "plain \<equiv> list_all (\<lambda>c. \<not> isSpace c \<and> c \<noteq> CHR ''|'')"

definition addrs_ok :: "string list \<Rightarrow> nat \<Rightarrow> addresses \<Rightarrow> bool" where
  "addrs_ok types n A \<longleftrightarrow>
     dom A \<subseteq> set types \<and> list_all (\<lambda>t. case A t of None \<Rightarrow> True | Some l \<Rightarrow> length l = n \<and> list_all plain l) types"

lemma addrs_okD:
  assumes "addrs_ok types n A" "A t = Some l" "i < n"
  shows "t \<in> set types" "length l = n" "plain (l ! i)"
proof -
  show t: "t \<in> set types" using assms by (auto simp: addrs_ok_def)
  then show n: "length l = n" using assms by (auto simp: addrs_ok_def list_all_iff)
  have "list_all plain l" using assms t by (auto simp: addrs_ok_def list_all_iff split: option.splits)
  then show "plain (l ! i)" using n assms(3) by (simp add: list_all_length)
qed

lemma plain_not_in: "plain w \<Longrightarrow> CHR '' '' \<notin> set w" "plain w \<Longrightarrow> CHR ''|'' \<notin> set w" "plain w \<Longrightarrow> newline \<notin> set w" "plain w \<Longrightarrow> return \<notin> set w"
  by (auto simp: list_all_iff isSpace_def)

lemma plain_take: "plain w \<Longrightarrow> plain (take k w)"
  by (auto simp: list_all_iff dest: in_set_takeD)

lemma storeAddresses_later:
  assumes A: "addrs_ok all n A" "i < n" and "list_all plain types"
  shows "\<exists>r. storeAddresses i A (Suc j) types = Some r \<and> set r \<inter> {newline, return, CHR ''|''} = {}
              \<and> (\<forall>w. CHR '' '' \<notin> set w \<longrightarrow> Split (CHR '' '') (w @ r) = w # entries A i types)"
  using assms(3)
proof (induction types arbitrary: j)
  case (Cons t ts)
  obtain r where r: "storeAddresses i A (Suc (Suc j)) ts = Some r" "set r \<inter> {newline, return, CHR ''|''} = {}"
      "\<And>w. CHR '' '' \<notin> set w \<Longrightarrow> Split (CHR '' '') (w @ r) = w # entries A i ts"
    using Cons.IH [of "Suc j"] Cons.prems by auto
  show ?case
  proof (cases "A t")
    case (Some l)
    note l = addrs_okD [OF A(1) Some A(2)]
    let ?e = "take 1 t @ l ! i"
    have e: "plain ?e" using l(3) plain_take Cons.prems by auto
    have "storeAddresses i A (Suc j) (t # ts) = Some (CHR '' '' # ?e @ r)" using Some r(1) l(2) A(2) by (simp add: nth_opt_def)
    moreover have "Split (CHR '' '') (w @ CHR '' '' # ?e @ r) = w # ?e # entries A i ts" if "CHR '' '' \<notin> set w" for w
      using that r(3) [OF plain_not_in(1) [OF e]] by (simp add: Split_append)
    moreover have "set (CHR '' '' # ?e @ r) \<inter> {newline, return, CHR ''|''} = {}"
      using r(2) plain_not_in(2-4) [OF e] by auto
    ultimately show ?thesis using Some by (auto simp: entries_def addr_of_def)
  qed (use r in \<open>auto simp: entries_def\<close>)
qed (simp add: entries_def Split_single)

lemma storeAddresses_parses:
  assumes A: "addrs_ok all n A" "i < n" and types: "list_all plain types"
  shows "\<exists>r. storeAddresses i A 0 types = Some r \<and> set r \<inter> {newline, return, CHR ''|''} = {}
              \<and> parseAddrs r = foldl parse_addr Map.empty (entries A i types)"
proof (cases types)
  case Nil
  then show ?thesis by (simp add: parseAddrs_def entries_def parse_addr_def)
next
  case (Cons t ts)
  obtain r where r: "storeAddresses i A (Suc 0) ts = Some r" "set r \<inter> {newline, return, CHR ''|''} = {}"
      "\<And>w. CHR '' '' \<notin> set w \<Longrightarrow> Split (CHR '' '') (w @ r) = w # entries A i ts"
    using storeAddresses_later [OF A, of ts 0] types Cons by auto
  show ?thesis
  proof (cases "A t")
    case None
    then have "parseAddrs r = foldl parse_addr Map.empty (entries A i types)"
      using r(3) [of "[]"] by (simp add: parseAddrs_def Cons entries_def parse_addr_def)
    then show ?thesis using r None Cons by auto
  next
    case (Some l)
    note l = addrs_okD [OF A(1) Some A(2)]
    let ?e = "take 1 t @ l ! i"
    have e: "plain ?e" using l(3) plain_take types Cons by auto
    have "storeAddresses i A 0 types = Some (?e @ r)" using Some r(1) l(2) A(2) by (simp add: nth_opt_def Cons)
    moreover have "parseAddrs (?e @ r) = foldl parse_addr Map.empty (entries A i types)"
      using r(3) [OF plain_not_in(1) [OF e]] Some by (simp add: parseAddrs_def Cons entries_def addr_of_def)
    moreover have "set (?e @ r) \<inter> {newline, return, CHR ''|''} = {}" using r(2) plain_not_in(2-4) [OF e] by auto
    ultimately show ?thesis by blast
  qed
qed

lemma parse_entries:
  assumes "dom A \<subseteq> set types" "types = setupTypes \<or> types = addressTypes"
  shows "foldl parse_addr Map.empty (entries A i types) = addr_of A i"
proof (rule ext)
  fix t
  have "A t = None" if "t \<notin> set types" using that assms(1) by auto
  then show "foldl parse_addr Map.empty (entries A i types) t = addr_of A i t"
    using assms(2) by (auto simp: setupTypes_def addressTypes_def entries_def addr_of_def parse_addr_def)
qed

lemma types_plain: "list_all plain setupTypes" "list_all plain addressTypes"
  by code_simp+

text \<open>
  A committee that its file can hold: as many keys of each kind as processes, none of them nil and each with an encoding fit for the file; addresses of the known kinds, for every
  process, without spaces and bars; and lines that fit into the buffer of a scanner.
\<close>

definition committee_ok :: "key_codec \<Rightarrow> bytes Committee \<Rightarrow> bool" where
  "committee_ok K c \<longleftrightarrow>
     (let n = length (c_PublicKeys c)
      in 4 \<le> n \<and> length (c_P2PPublicKeys c) = n \<and> length (c_RMCVerificationKeys c) = n
         \<and> list_all (\<lambda>k. case k of None \<Rightarrow> False | Some k \<Rightarrow> length k = 32) (c_PublicKeys c)
         \<and> list_all (\<lambda>k. case k of None \<Rightarrow> False | Some k \<Rightarrow> coded (EncP2PPub K) (DecP2PPub K) k) (c_P2PPublicKeys c)
         \<and> list_all (\<lambda>k. case k of None \<Rightarrow> False | Some k \<Rightarrow> coded (EncVK K) (DecVK K) k) (c_RMCVerificationKeys c)
         \<and> addrs_ok setupTypes n (SetupAddresses c) \<and> addrs_ok addressTypes n (Addresses c)
         \<and> list_all (\<lambda>i. case store_line K c i of None \<Rightarrow> True | Some l \<Rightarrow> length l \<le> maxToken) [0..<n])"

text \<open>What has been read of the committee after \<open>i\<close> lines.\<close>

definition addrs_upto :: "nat \<Rightarrow> addresses \<Rightarrow> addresses" where
  "addrs_upto i A = (if i = 0 then Map.empty else (\<lambda>t. map_option (take i) (A t)))"

definition upto_line :: "nat \<Rightarrow> bytes Committee \<Rightarrow> bytes Committee" where
  "upto_line i c =
     \<lparr>c_PublicKeys = take i (c_PublicKeys c), c_P2PPublicKeys = take i (c_P2PPublicKeys c), c_RMCVerificationKeys = take i (c_RMCVerificationKeys c),
      SetupAddresses = addrs_upto i (SetupAddresses c), Addresses = addrs_upto i (Addresses c)\<rparr>"

lemma addrs_upto_step:
  assumes "addrs_ok types n A" "i < n"
  shows "addAddr (addrs_upto i A) (addr_of A i) = addrs_upto (Suc i) A"
proof (rule ext)
  fix t
  show "addAddr (addrs_upto i A) (addr_of A i) t = addrs_upto (Suc i) A t"
    using addrs_okD(2) [OF assms(1) _ assms(2), of t] assms(2)
    by (cases "A t") (auto simp: addAddr_def addrs_upto_def addr_of_def take_Suc_conv_app_nth)
qed

lemma addrs_upto_all:
  assumes "addrs_ok types n A" "0 < n" shows "addrs_upto n A = A"
proof (rule ext)
  fix t
  show "addrs_upto n A t = A t" using addrs_okD(2) [OF assms(1) _ assms(2), of t] assms(2) by (cases "A t") (auto simp: addrs_upto_def)
qed

lemma key_at:
  assumes "list_all (\<lambda>k. case k of None \<Rightarrow> False | Some k \<Rightarrow> P k) ks" "i < length ks"
  obtains k where "ks ! i = Some k" "P k"
  using assms by (cases "ks ! i") (auto simp: list_all_length split: option.splits)

lemma committee_okD:
  assumes "committee_ok K c" and n: "n = length (c_PublicKeys c)"
  shows "4 \<le> n" "length (c_P2PPublicKeys c) = n" "length (c_RMCVerificationKeys c) = n"
    "addrs_ok setupTypes n (SetupAddresses c)" "addrs_ok addressTypes n (Addresses c)"
    "i < n \<Longrightarrow> store_line K c i = Some l \<Longrightarrow> length l \<le> maxToken"
  using assms by (auto simp: committee_ok_def Let_def list_all_iff split: option.splits)

lemma committee_line:
  assumes ok: "committee_ok K c" and i: "i < length (c_PublicKeys c)"
  shows "\<exists>l. store_line K c i = Some (l @ [newline]) \<and> newline \<notin> set l \<and> return \<notin> set l \<and> length l < maxToken
             \<and> load_line K (upto_line i c) l = Inr (upto_line (Suc i) c)"
proof -
  let ?n = "length (c_PublicKeys c)"
  note D = committee_okD [OF ok HOL.refl]
  obtain a where a: "c_PublicKeys c ! i = Some a" "length a = 32" using ok i by (auto simp: committee_ok_def Let_def elim: key_at)
  obtain b where b: "c_P2PPublicKeys c ! i = Some b" "coded (EncP2PPub K) (DecP2PPub K) b"
    using ok i D(2) by (auto simp: committee_ok_def Let_def elim: key_at)
  obtain v where v: "c_RMCVerificationKeys c ! i = Some v" "coded (EncVK K) (DecVK K) v"
    using ok i D(3) by (auto simp: committee_ok_def Let_def elim: key_at)
  have pa: "coded Encode_public DecodePublicKey a" using a(2) by (rule signing_coded)
  obtain sa where sa: "storeAddresses i (SetupAddresses c) 0 setupTypes = Some sa" "set sa \<inter> {newline, return, CHR ''|''} = {}"
      "parseAddrs sa = addr_of (SetupAddresses c) i"
    using storeAddresses_parses [OF D(4) i types_plain(1)] parse_entries [of "SetupAddresses c" setupTypes i] D(4) by (auto simp: addrs_ok_def)
  obtain ad where ad: "storeAddresses i (Addresses c) 0 addressTypes = Some ad" "set ad \<inter> {newline, return, CHR ''|''} = {}"
      "parseAddrs ad = addr_of (Addresses c) i"
    using storeAddresses_parses [OF D(5) i types_plain(2)] parse_entries [of "Addresses c" addressTypes i] D(5) by (auto simp: addrs_ok_def)
  let ?l = "Encode_public a @ CHR ''|'' # EncP2PPub K b @ CHR ''|'' # EncVK K v @ CHR ''|'' # sa @ CHR ''|'' # ad"
  have pl: "plain (Encode_public a)" "plain (EncP2PPub K b)" "plain (EncVK K v)" using pa b(2) v(2) by (auto simp: coded_def)
  have st: "store_line K c i = Some (?l @ [newline])" using i D(2,3) a(1) b(1) v(1) sa(1) ad(1) by (simp add: store_line_def nth_opt_def)
  have nl: "newline \<notin> set ?l" "return \<notin> set ?l" using sa(2) ad(2) plain_not_in(3,4) [OF pl(1)] plain_not_in(3,4) [OF pl(2)] plain_not_in(3,4) [OF pl(3)] by auto
  have "Split (CHR ''|'') ?l = [Encode_public a, EncP2PPub K b, EncVK K v, sa, ad]"
    using sa(2) ad(2) plain_not_in(2) [OF pl(1)] plain_not_in(2) [OF pl(2)] plain_not_in(2) [OF pl(3)] by (simp add: Split_append Split_single)
  then have "parseCommitteeLine ?l = Inr (Encode_public a, EncP2PPub K b, EncVK K v, parseAddrs sa, parseAddrs ad)"
    using pa b(2) v(2) by (simp add: parseCommitteeLine_def coded_def)
  then have "load_line K (upto_line i c) ?l = Inr (upto_line (Suc i) c)"
    using pa b v a(1) sa(3) ad(3) i D(2,3) addrs_upto_step [OF D(4) i] addrs_upto_step [OF D(5) i]
    by (simp add: load_line_def ebind_def coded_def upto_line_def take_Suc_conv_app_nth)
  then show ?thesis using st nl D(6) [OF i st] by (intro exI [of _ ?l]) simp
qed

lemma load_stored_lines:
  assumes ok: "committee_ok K c" and n: "n = length (c_PublicKeys c)"
    and l: "\<And>i. i < n \<Longrightarrow> load_line K (upto_line i c) (l i) = Inr (upto_line (Suc i) c)"
  shows "i \<le> n \<Longrightarrow> load_lines K (upto_line i c) (map l [i..<n]) = Inr (upto_line n c)"
proof (induction "n - i" arbitrary: i)
  case (Suc d)
  then have "i < n" by simp
  then have "[i..<n] = i # [Suc i..<n]" by (simp add: upt_conv_Cons)
  then show ?case using Suc.hyps(1) [of "Suc i"] Suc.hyps(2) l [OF \<open>i < n\<close>] by (simp add: ebind_def)
qed simp

lemma stored_committee_loads:
  assumes "committee_ok K c"
  shows "\<exists>r. StoreCommittee K c = Some r \<and> LoadCommittee K r = Inr c"
proof -
  let ?n = "length (c_PublicKeys c)"
  note D = committee_okD [OF assms HOL.refl]
  have pos: "0 < ?n" using D(1) by linarith
  from committee_line [OF assms] obtain l where l: "\<And>i. i < ?n \<Longrightarrow> store_line K c i = Some (l i @ [newline])"
      "\<And>i. i < ?n \<Longrightarrow> newline \<notin> set (l i) \<and> return \<notin> set (l i) \<and> length (l i) < maxToken"
      "\<And>i. i < ?n \<Longrightarrow> load_line K (upto_line i c) (l i) = Inr (upto_line (Suc i) c)"
    by metis
  have "those (map (store_line K c) [0..<?n]) = Some (map (\<lambda>i. l i @ [newline]) [0..<?n])" using l(1) by (intro those_map_Some) simp
  then have s: "StoreCommittee K c = Some (concat (map (\<lambda>l. l @ [newline]) (map l [0..<?n])))" by (simp add: StoreCommittee_def o_def)
  have "list_all (\<lambda>l. newline \<notin> set l \<and> return \<notin> set l \<and> length l < maxToken) (map l [0..<?n])" using l(2) by (auto simp: list_all_iff)
  note sc = scan_lines_written [OF this]
  have "upto_line 0 c = emptyCommittee" by (simp add: upto_line_def emptyCommittee_def addrs_upto_def)
  moreover have "upto_line ?n c = c" using D(2,3) addrs_upto_all [OF D(4) pos] addrs_upto_all [OF D(5) pos] by (simp add: upto_line_def)
  ultimately have "load_lines K emptyCommittee (map l [0..<?n]) = Inr c" using load_stored_lines [OF assms HOL.refl l(3), of 0] by simp
  then have "LoadCommittee K (concat (map (\<lambda>l. l @ [newline]) (map l [0..<?n]))) = Inr c"
    using D(1) sc by (simp add: LoadCommittee_def ebind_def)
  then show ?thesis using s by blast
qed

text \<open>
  A committee survives its file: \<open>StoreCommittee\<close> writes it without panicking and \<open>LoadCommittee\<close> reads exactly this committee back, for at least four processes with a key of each
  kind, whose encodings decode and have no spaces and bars, with addresses for every process under the known kinds of synchronization, and lines within the buffer of a scanner.
\<close>

theorem committee_roundtrip:
  assumes "committee_ok K c"
  shows "\<exists>r. StoreCommittee K c = Some r \<and> LoadCommittee K r = Inr c"
  by (rule stored_committee_loads [OF assms])

text \<open>A committee of four whose keys are all written in base64.\<close>

definition base64_codec :: key_codec where
  "base64_codec =
     (let dec = (\<lambda>s. case DecodeString s of None \<Rightarrow> Inl ''illegal base64 data'' | Some b \<Rightarrow> Inr b)
      in \<lparr>EncRMC = EncodeToString, DecRMC = dec, EncP2P = EncodeToString, DecP2P = dec, EncP2PPub = EncodeToString, DecP2PPub = dec, EncVK = EncodeToString, DecVK = dec\<rparr>)"

definition demo_committee_file :: "bytes Committee" where
  "demo_committee_file =
     \<lparr>c_PublicKeys = map (\<lambda>i. Some (i # replicate 31 0)) [1, 2, 3, 4], c_P2PPublicKeys = map (\<lambda>i. Some [i, 7]) [1, 2, 3, 4],
      c_RMCVerificationKeys = map (\<lambda>i. Some [i]) [1, 2, 3, 4], SetupAddresses = [''rmc'' \<mapsto> [''h1:90'', ''h2:90'', ''h3:90'', ''h4:90'']],
      Addresses = [''mcast'' \<mapsto> [''h1:91'', ''h2:91'', ''h3:91'', ''h4:91''], ''gossip'' \<mapsto> [''h1:92'', ''h2:92'', ''h3:92'', ''h4:92'']]\<rparr>"

lemma base64_coded:
  assumes "0 < length k" "length k < 40000"
  shows "coded (EncP2PPub base64_codec) (DecP2PPub base64_codec) k" "coded (EncVK base64_codec) (DecVK base64_codec) k"
proof -
  have "0 < (length k + 2) div 3" using assms(1) by (cases k) (simp_all add: div_greater_zero_iff)
  then have "EncodeToString k \<noteq> []" "length (EncodeToString k) < maxToken"
    using assms(2) length_EncodeToString [of k] by (auto simp: maxToken_def)
  then show "coded (EncP2PPub base64_codec) (DecP2PPub base64_codec) k" "coded (EncVK base64_codec) (DecVK base64_codec) k"
    using base64_plain [of k] by (simp_all add: coded_def base64_codec_def Let_def DecodeString_Encode)
qed

lemma demo_committee_file_ok: "committee_ok base64_codec demo_committee_file"
proof -
  have a: "addrs_ok setupTypes 4 (SetupAddresses demo_committee_file)" "addrs_ok addressTypes 4 (Addresses demo_committee_file)"
    by (simp_all add: demo_committee_file_def addrs_ok_def setupTypes_def addressTypes_def isSpace_def)
  have l: "list_all (\<lambda>i. case store_line base64_codec demo_committee_file i of None \<Rightarrow> True | Some l \<Rightarrow> length l \<le> maxToken) [0..<4]"
    by (simp add: store_line_def nth_opt_def demo_committee_file_def setupTypes_def addressTypes_def base64_codec_def Let_def upt_rec Encode_public_def length_EncodeToString maxToken_def)
  have n: "length (c_PublicKeys demo_committee_file) = 4" "length (c_P2PPublicKeys demo_committee_file) = 4" "length (c_RMCVerificationKeys demo_committee_file) = 4"
    by (simp_all add: demo_committee_file_def)
  have k: "list_all (\<lambda>k. case k of None \<Rightarrow> False | Some k \<Rightarrow> length k = 32) (c_PublicKeys demo_committee_file)"
      "list_all (\<lambda>k. case k of None \<Rightarrow> False | Some k \<Rightarrow> coded (EncP2PPub base64_codec) (DecP2PPub base64_codec) k) (c_P2PPublicKeys demo_committee_file)"
      "list_all (\<lambda>k. case k of None \<Rightarrow> False | Some k \<Rightarrow> coded (EncVK base64_codec) (DecVK base64_codec) k) (c_RMCVerificationKeys demo_committee_file)"
    by (simp_all add: demo_committee_file_def base64_coded)
  show ?thesis using a l k by (simp add: committee_ok_def Let_def n)
qed

theorem committee_roundtrip_witness:
  "committee_ok base64_codec demo_committee_file \<and> (\<exists>r. StoreCommittee base64_codec demo_committee_file = Some r \<and> LoadCommittee base64_codec r = Inr demo_committee_file)"
  using demo_committee_file_ok committee_roundtrip [OF demo_committee_file_ok] by blast

end
