(* ===== verification/Genesis.thy ===== *)
theory Genesis
  imports Files
begin

text \<open>
  How a committee comes into being: the program \<open>gomel-keys\<close> (\<open>cmd/gomel-keys/main.go\<close>) generates the keys and writes the files of a committee, and \<open>gomel\<close> (\<open>cmd/gomel/main.go\<close>)
  reads them into its configurations. The file system is a map from names to contents; creating and writing a file never fails. The generators of keys, of other modules, are
  parameters. The profilers and the mock data of \<open>gomel\<close> are left out.
\<close>

section \<open>gomel-keys\<close>

record memberKeys =
  publicKey :: "bytes option"
  privateKey :: "bytes option"
  sekKey :: "bytes option"
  verKey :: "bytes option"
  p2pPubKey :: "bytes option"
  p2pSecKey :: "bytes option"
  mk_addresses :: addresses

text \<open>What the generators give for one process; an error of one is ignored, and its keys are nil.\<close>

record generated =
  g_sign :: "string + bytes \<times> bytes"
  g_bn256 :: "bytes option \<times> bytes option"
  g_p2p :: "bytes option \<times> bytes option"

definition makeMemberKeys :: "generated \<Rightarrow> addresses \<Rightarrow> memberKeys" where
  "makeMemberKeys g addresses =
     (case GenerateKeys (g_sign g) of (pubKey, privKey, _) \<Rightarrow>
        \<lparr>publicKey = pubKey, privateKey = privKey, sekKey = snd (g_bn256 g), verKey = fst (g_bn256 g),
         p2pPubKey = fst (g_p2p g), p2pSecKey = snd (g_p2p g), mk_addresses = addresses\<rparr>)"

definition append_addr :: "string \<Rightarrow> string \<Rightarrow> addresses \<Rightarrow> addresses" where
  "append_addr syncType addr addresses = addresses(syncType \<mapsto> addrs_at addresses syncType @ [addr])"

definition makeAddrMap :: "string \<Rightarrow> addresses \<Rightarrow> addresses" where
  "makeAddrMap addrs addresses =
     foldl (\<lambda>addresses addr. case addr of
              [] \<Rightarrow> addresses
            | c # cs \<Rightarrow>
                if c = CHR ''r'' then append_addr ''rmc'' cs addresses
                else if c = CHR ''m'' then append_addr ''mcast'' cs addresses
                else if c = CHR ''f'' then append_addr ''fetch'' cs addresses
                else if c = CHR ''g'' then append_addr ''gossip'' cs addresses
                else addresses)
       addresses (Split (CHR '' '') addrs)"

text \<open>The addresses of a local committee, setup addresses first.\<close>

definition localhost :: "nat \<Rightarrow> string" where
  "localhost port = ''127.0.0.1:'' @ Itoa (int port)"

definition local_addrs :: "nat \<Rightarrow> addresses \<times> addresses" where
  "local_addrs n =
     foldl (\<lambda>(setupAddresses, addresses) i.
              (append_addr ''gossip'' (localhost (15000 + i)) (append_addr ''fetch'' (localhost (14000 + i)) (append_addr ''rmc'' (localhost (13000 + i)) setupAddresses)),
               append_addr ''gossip'' (localhost (12000 + i)) (append_addr ''fetch'' (localhost (11000 + i))
                 (append_addr ''mcast'' (localhost (10000 + i)) (append_addr ''rmc'' (localhost (9000 + i)) addresses)))))
       (Map.empty, Map.empty) [0..<n]"

text \<open>The addresses of a file, of which at most \<open>nProc\<close> lines are read.\<close>

fun read_addrs :: "string list \<Rightarrow> addresses \<times> addresses \<Rightarrow> string + addresses \<times> addresses" where
  "read_addrs [] SA = Inr SA"
| "read_addrs (line # ls) (setupAddresses, addresses) =
     (case Split (CHR ''|'') line of
        saddrs # addrs # _ \<Rightarrow> read_addrs ls (makeAddrMap saddrs setupAddresses, makeAddrMap addrs addresses)
      | _ \<Rightarrow> Inl ''missing addresses'')"

type_synonym files = "string \<rightharpoonup> string"

definition committee_of :: "addresses \<times> addresses \<Rightarrow> memberKeys list \<Rightarrow> bytes Committee" where
  "committee_of SA ks =
     \<lparr>c_PublicKeys = map publicKey ks, c_P2PPublicKeys = map p2pPubKey ks, c_RMCVerificationKeys = map verKey ks,
      SetupAddresses = fst SA, Addresses = snd SA\<rparr>"

definition member_of :: "nat \<Rightarrow> memberKeys \<Rightarrow> bytes Member" where
  "member_of pid ks = \<lparr>m_Pid = of_nat pid, m_PrivateKey = privateKey ks, m_RMCSecretKey = sekKey ks, m_P2PSecretKey = p2pSecKey ks\<rparr>"

text \<open>The names and contents of the files that are written, or the message of a failure.\<close>

definition write_files :: "key_codec \<Rightarrow> addresses \<times> addresses \<Rightarrow> memberKeys list \<Rightarrow> (string \<times> string) list go" where
  "write_files K SA ks =
     do { ms \<leftarrow> those (map (\<lambda>pid. map_option (\<lambda>r. (Itoa (int pid) @ ''.pk'', r)) (StoreMember K (member_of pid (ks ! pid)))) [0..<length ks]);
          c \<leftarrow> StoreCommittee K (committee_of SA ks);
          Some (ms @ [(''committee.ka'', c)]) }"

definition usageMsg :: string where "usageMsg = ''Usage: gomel-keys <number> [<addresses_file>].''"

definition gomel_keys :: "key_codec \<Rightarrow> (nat \<Rightarrow> generated) \<Rightarrow> files \<Rightarrow> string list \<Rightarrow> (string + (string \<times> string) list) go" where
  "gomel_keys K gen fs args =
     (if length args \<noteq> 2 \<and> length args \<noteq> 3 then Some (Inl usageMsg)
      else case Atoi (args ! 1) of
        Inl _ \<Rightarrow> Some (Inl usageMsg)
      | Inr n \<Rightarrow>
          if n < 4 then Some (Inl ''Cannot have less than 4 keys.'')
          else
            let r = (if length args = 2 then Inr (local_addrs (nat n))
                      else case fs (args ! 2) of
                        None \<Rightarrow> Inl (''Cannot open file '' @ args ! 2)
                      | Some f \<Rightarrow> read_addrs (take (nat n) (fst (scan_lines f))) (Map.empty, Map.empty))
            in case r of
                 Inl e \<Rightarrow> Some (Inl e)
               | Inr SA \<Rightarrow> map_option Inr (write_files K SA (map (\<lambda>pid. makeMemberKeys (gen pid) (snd SA)) [0..<nat n])))"

section \<open>gomel\<close>

record cliOptions =
  privFilename :: string
  keysAddrsFilename :: string
  opt_epochs :: int
  opt_units :: int
  opt_setup :: bool

definition getMember :: "key_codec \<Rightarrow> files \<Rightarrow> string \<Rightarrow> string + bytes Member" where
  "getMember K fs filename =
     (if filename = [] then Inl ''please provide a file with private keys and pid''
      else case fs filename of None \<Rightarrow> Inl ''no such file'' | Some r \<Rightarrow> LoadMember K r)"

definition getCommittee :: "key_codec \<Rightarrow> files \<Rightarrow> string \<Rightarrow> string + bytes Committee" where
  "getCommittee K fs filename =
     (if filename = [] then Inl ''please provide a file with keys and addresses of the committee''
      else case fs filename of None \<Rightarrow> Inl ''no such file'' | Some r \<Rightarrow> LoadCommittee K r)"

definition override :: "cliOptions \<Rightarrow> bytes conf \<Rightarrow> bytes conf" where
  "override options cnf =
     (let cnf = (if opt_epochs options \<noteq> 0 then cnf\<lparr>NumberOfEpochs := opt_epochs options\<rparr> else cnf)
      in if opt_units options \<noteq> 0 then cnf\<lparr>EpochLength := opt_units options, LastLevel := opt_units options + OrderStartLevel cnf - 1\<rparr> else cnf)"

text \<open>The configurations of the consensus and of the setup, or the reason why the program ends.\<close>

definition gomel_conf :: "key_codec \<Rightarrow> files \<Rightarrow> cliOptions \<Rightarrow> string + bytes conf \<times> bytes conf option" where
  "gomel_conf K fs options =
     ebind (getMember K fs (privFilename options)) (\<lambda>member.
     ebind (getCommittee K fs (keysAddrsFilename options)) (\<lambda>committee.
     case Valid (New_conf member committee) of
       Some e \<Rightarrow> Inl e
     | None \<Rightarrow>
         let consensusConfig = override options (New_conf member committee)
         in if opt_setup options
            then (case ValidSetup (NewSetup member committee) of Some e \<Rightarrow> Inl e | None \<Rightarrow> Inr (consensusConfig, Some (NewSetup member committee)))
            else Inr (consensusConfig, None)))"

section \<open>The addresses of a local committee\<close>

definition table :: "nat \<Rightarrow> (string \<times> nat) list \<Rightarrow> addresses" where
  "table n ports = (\<lambda>t. if n = 0 then None else map_option (\<lambda>b. map (\<lambda>i. localhost (b + i)) [0..<n]) (map_of ports t))"

definition setupPorts :: "(string \<times> nat) list" where "setupPorts = [(''rmc'', 13000), (''fetch'', 14000), (''gossip'', 15000)]"
definition consensusPorts :: "(string \<times> nat) list" where "consensusPorts = [(''rmc'', 9000), (''mcast'', 10000), (''fetch'', 11000), (''gossip'', 12000)]"

lemma local_addrs_table: "local_addrs n = (table n setupPorts, table n consensusPorts)"
proof (induction n)
  case 0
  show ?case by (simp add: local_addrs_def table_def fun_eq_iff)
next
  case (Suc n)
  have "local_addrs (Suc n) =
     (append_addr ''gossip'' (localhost (15000 + n)) (append_addr ''fetch'' (localhost (14000 + n)) (append_addr ''rmc'' (localhost (13000 + n)) (table n setupPorts))),
      append_addr ''gossip'' (localhost (12000 + n)) (append_addr ''fetch'' (localhost (11000 + n))
        (append_addr ''mcast'' (localhost (10000 + n)) (append_addr ''rmc'' (localhost (9000 + n)) (table n consensusPorts)))))"
    using Suc by (simp add: local_addrs_def)
  also have "\<dots> = (table (Suc n) setupPorts, table (Suc n) consensusPorts)"
    by (auto simp: append_addr_def addrs_at_def table_def setupPorts_def consensusPorts_def fun_eq_iff)
  finally show ?case .
qed

lemma localhost_plain: "plain (localhost p)"
proof -
  have "list_all is_digit (nat_digits p)" using nat_digits_value by blast
  moreover have "\<not> is_digit (CHR ''|'')" by (simp add: is_digit_def)
  ultimately have "plain (nat_digits p)" using is_digit_char by (auto simp: list_all_iff)
  then show ?thesis by (simp add: localhost_def Itoa_def isSpace_def)
qed

lemma localhost_length: "p < 100000 \<Longrightarrow> length (localhost p) \<le> 15"
  using nat_digits_length [of p 4] by (simp add: localhost_def Itoa_def)

lemma localhost_inj: "localhost p = localhost q \<longleftrightarrow> p = q"
proof
  assume "localhost p = localhost q"
  then have "nat_digits p = nat_digits q" by (simp add: localhost_def Itoa_def)
  then show "p = q" using nat_digits_value by metis
qed simp

lemma table_ok: "0 < n \<Longrightarrow> fst ` set ports \<subseteq> set types \<Longrightarrow> addrs_ok types n (table n ports)"
proof -
  assume a: "0 < n" "fst ` set ports \<subseteq> set types"
  have "c \<in> set (localhost p) \<Longrightarrow> \<not> isSpace c \<and> c \<noteq> CHR ''|''" for c p using localhost_plain [of p] by (simp add: list_all_iff)
  then show ?thesis using a by (auto simp: addrs_ok_def table_def list_all_iff dest!: map_of_SomeD split: option.splits)
qed

text \<open>Up to a thousand processes no two servers share an address; the next one would collide.\<close>

lemma local_addresses_distinct:
  assumes "n \<le> 1000" "addrs_at (snd (local_addrs n)) s ! i = addrs_at (snd (local_addrs n)) t ! j"
    "s \<in> set addressTypes" "t \<in> set addressTypes" "i < n" "j < n"
  shows "s = t \<and> i = j"
  using assms by (auto simp: local_addrs_table table_def consensusPorts_def addressTypes_def addrs_at_def localhost_inj)

lemma local_addresses_collide: "addrs_at (snd (local_addrs 1001)) ''rmc'' ! 1000 = addrs_at (snd (local_addrs 1001)) ''mcast'' ! 0"
proof -
  have "map (\<lambda>i. localhost (9000 + i)) [0..<1001] ! 1000 = localhost (9000 + 1000)" "map (\<lambda>i. localhost (10000 + i)) [0..<1001] ! 0 = localhost (10000 + 0)"
    by (subst nth_map; simp)+
  then show ?thesis by (simp add: local_addrs_table table_def consensusPorts_def addrs_at_def)
qed

text \<open>
  With an address file of fewer lines than processes \<open>gomel-keys\<close> panics: \<open>StoreCommittee\<close> needs an address for every process in every list that is not missing altogether.
\<close>

lemma storeAddresses_short: "t \<in> set types \<Longrightarrow> A t = Some l \<Longrightarrow> length l \<le> i \<Longrightarrow> storeAddresses i A j types = None"
  by (induction types arbitrary: j) (auto simp: nth_opt_def split: option.splits)

lemma those_None: "None \<in> set xs \<Longrightarrow> those xs = None"
  by (induction xs) (auto split: option.splits)

lemma short_addresses_panic:
  assumes "t \<in> set addressTypes" "snd SA t = Some l" "length l < length ks"
  shows "write_files K SA ks = None"
proof -
  let ?c = "committee_of SA ks"
  have "storeAddresses (length l) (Addresses ?c) 0 addressTypes = None" using assms storeAddresses_short by (simp add: committee_of_def)
  then have "store_line K ?c (length l) = None" by (auto simp: store_line_def split: bind_splits)
  moreover have "length l \<in> set [0..<length (c_PublicKeys ?c)]" using assms(3) by (simp add: committee_of_def)
  ultimately have "None \<in> set (map (store_line K ?c) [0..<length (c_PublicKeys ?c)])" by (metis image_eqI list.set_map)
  then have "StoreCommittee K ?c = None" by (simp add: StoreCommittee_def those_None del: set_map)
  then show ?thesis by (auto simp: write_files_def split: bind_splits)
qed

section \<open>From generated keys to valid configurations\<close>

text \<open>The generators give proper keys, whose encodings fit into a line.\<close>

definition good_keys :: "key_codec \<Rightarrow> generated \<Rightarrow> bool" where
  "good_keys K g \<longleftrightarrow>
     (case g_sign g of Inl _ \<Rightarrow> False | Inr (pub, priv) \<Rightarrow> length pub = 32 \<and> length priv = 64)
     \<and> (case g_bn256 g of (Some vk, Some sk) \<Rightarrow> coded (EncVK K) (DecVK K) vk \<and> coded (EncRMC K) (DecRMC K) sk \<and> length (EncVK K vk) \<le> 30000 | _ \<Rightarrow> False)
     \<and> (case g_p2p g of (Some pk, Some sk) \<Rightarrow> coded (EncP2PPub K) (DecP2PPub K) pk \<and> coded (EncP2P K) (DecP2P K) sk \<and> length (EncP2PPub K pk) \<le> 30000 | _ \<Rightarrow> False)"

lemma good_keysE:
  assumes "good_keys K g"
  obtains pub priv vk sk pk p2p where "g_sign g = Inr (pub, priv)" "length pub = 32" "length priv = 64"
    "g_bn256 g = (Some vk, Some sk)" "coded (EncVK K) (DecVK K) vk" "coded (EncRMC K) (DecRMC K) sk" "length (EncVK K vk) \<le> 30000"
    "g_p2p g = (Some pk, Some p2p)" "coded (EncP2PPub K) (DecP2PPub K) pk" "coded (EncP2P K) (DecP2P K) p2p" "length (EncP2PPub K pk) \<le> 30000"
  using assms by (auto simp: good_keys_def split: sum.splits prod.splits option.splits)

lemma storeAddresses_length:
  "storeAddresses i A j types = Some r \<Longrightarrow> (\<And>t l. A t = Some l \<Longrightarrow> i < length l \<Longrightarrow> length (l ! i) \<le> b) \<Longrightarrow> length r \<le> length types * (b + 2)"
proof (induction types arbitrary: j r)
  case (Cons t ts)
  show ?case
  proof (cases "A t")
    case None
    then have "length r \<le> length ts * (b + 2)" using Cons.IH [of "Suc j" r] Cons.prems by simp
    then show ?thesis by simp
  next
    case (Some l)
    then obtain r' where r': "storeAddresses i A (Suc j) ts = Some r'" "i < length l" "r = (if j \<noteq> 0 then '' '' else []) @ take 1 t @ l ! i @ r'"
      using Cons.prems(1) by (auto simp: nth_opt_def split: if_splits bind_splits)
    have "length r' \<le> length ts * (b + 2)" using Cons.IH [OF r'(1)] Cons.prems(2) by blast
    moreover have "length (l ! i) \<le> b" using Cons.prems(2) [OF Some r'(2)] .
    moreover have "length r \<le> 2 + length (l ! i) + length r'" using r'(3) by (simp add: min_def)
    ultimately show ?thesis by (simp add: algebra_simps)
  qed
qed simp

lemma made_keys:
  assumes "good_keys K g"
  shows "case publicKey (makeMemberKeys g A) of None \<Rightarrow> False | Some k \<Rightarrow> length k = 32"
    "case p2pPubKey (makeMemberKeys g A) of None \<Rightarrow> False | Some k \<Rightarrow> coded (EncP2PPub K) (DecP2PPub K) k"
    "case verKey (makeMemberKeys g A) of None \<Rightarrow> False | Some k \<Rightarrow> coded (EncVK K) (DecVK K) k"
  using assms by (auto simp: makeMemberKeys_def GenerateKeys_def elim!: good_keysE)

definition local_keys :: "(nat \<Rightarrow> generated) \<Rightarrow> nat \<Rightarrow> memberKeys list" where
  "local_keys gen n = map (\<lambda>pid. makeMemberKeys (gen pid) (snd (local_addrs n))) [0..<n]"

lemma table_length: "n \<le> 65536 \<Longrightarrow> snd ` set ports \<subseteq> {..20000} \<Longrightarrow> table n ports t = Some l \<Longrightarrow> i < length l \<Longrightarrow> length (l ! i) \<le> 15"
proof -
  assume a: "n \<le> 65536" "snd ` set ports \<subseteq> {..20000}" "table n ports t = Some l" "i < length l"
  then obtain b where b: "map_of ports t = Some b" "l = map (\<lambda>i. localhost (b + i)) [0..<n]" by (auto simp: table_def split: if_splits)
  then have "b \<le> 20000" using a(2) by (force dest: map_of_SomeD)
  then show ?thesis using b(2) a(1,4) localhost_length [of "b + i"] by simp
qed

lemma local_committee_ok:
  assumes g: "\<forall>i < n. good_keys K (gen i)" and n: "4 \<le> n" "n \<le> 65536"
  shows "committee_ok K (committee_of (local_addrs n) (local_keys gen n))"
proof -
  let ?c = "committee_of (local_addrs n) (local_keys gen n)"
  have len: "length (c_PublicKeys ?c) = n" "length (c_P2PPublicKeys ?c) = n" "length (c_RMCVerificationKeys ?c) = n"
    by (simp_all add: committee_of_def local_keys_def)
  have k: "list_all (\<lambda>k. case k of None \<Rightarrow> False | Some k \<Rightarrow> length k = 32) (c_PublicKeys ?c)"
      "list_all (\<lambda>k. case k of None \<Rightarrow> False | Some k \<Rightarrow> coded (EncP2PPub K) (DecP2PPub K) k) (c_P2PPublicKeys ?c)"
      "list_all (\<lambda>k. case k of None \<Rightarrow> False | Some k \<Rightarrow> coded (EncVK K) (DecVK K) k) (c_RMCVerificationKeys ?c)"
    using made_keys g by (auto simp: list_all_length committee_of_def local_keys_def)
  have a: "addrs_ok setupTypes n (SetupAddresses ?c)" "addrs_ok addressTypes n (Addresses ?c)"
    using n(1) by (auto simp: committee_of_def local_addrs_table setupPorts_def consensusPorts_def setupTypes_def addressTypes_def intro!: table_ok)
  have l: "length l \<le> maxToken" if i: "i < n" "store_line K ?c i = Some l" for i l
  proof -
    obtain pub priv vk sk pk p2p where e: "g_sign (gen i) = Inr (pub, priv)" "length pub = 32" "g_bn256 (gen i) = (Some vk, Some sk)" "length (EncVK K vk) \<le> 30000"
      "g_p2p (gen i) = (Some pk, Some p2p)" "length (EncP2PPub K pk) \<le> 30000" using good_keysE [OF g [rule_format, OF i(1)]] by metis
    have keys: "c_PublicKeys ?c ! i = Some pub" "c_P2PPublicKeys ?c ! i = Some pk" "c_RMCVerificationKeys ?c ! i = Some vk"
      using i(1) e by (simp_all add: committee_of_def local_keys_def makeMemberKeys_def GenerateKeys_def)
    obtain sa ad where l: "storeAddresses i (SetupAddresses ?c) 0 setupTypes = Some sa" "storeAddresses i (Addresses ?c) 0 addressTypes = Some ad"
        "l = Encode_public pub @ ''|'' @ EncP2PPub K pk @ ''|'' @ EncVK K vk @ ''|'' @ sa @ ''|'' @ ad @ [newline]"
      using i keys by (auto simp: store_line_def nth_opt_def len split: bind_splits)
    have "length sa \<le> length setupTypes * (15 + 2)"
      using table_length [OF n(2), of setupPorts] by (intro storeAddresses_length [OF l(1)]) (auto simp: committee_of_def local_addrs_table setupPorts_def)
    moreover have "length ad \<le> length addressTypes * (15 + 2)"
      using table_length [OF n(2), of consensusPorts] by (intro storeAddresses_length [OF l(2)]) (auto simp: committee_of_def local_addrs_table consensusPorts_def)
    ultimately show ?thesis using e(2,4,6) by (simp add: l(3) Encode_public_def length_EncodeToString maxToken_def setupTypes_def addressTypes_def)
  qed
  show ?thesis unfolding committee_ok_def Let_def len using n(1) k a l by (auto simp: list_all_iff split: option.splits)
qed

lemma local_member_loads:
  assumes "good_keys K (gen i)"
  shows "\<exists>r. StoreMember K (member_of i (makeMemberKeys (gen i) A)) = Some r \<and> LoadMember K r = Inr (member_of i (makeMemberKeys (gen i) A))"
  using assms by (elim good_keysE) (rule member_roundtrip; simp add: member_of_def makeMemberKeys_def GenerateKeys_def)

lemma pk_name_inj: "Itoa (int i) @ ''.pk'' = Itoa (int j) @ ''.pk'' \<longleftrightarrow> i = j"
proof
  assume "Itoa (int i) @ ''.pk'' = Itoa (int j) @ ''.pk''"
  then have "nat_digits i = nat_digits j" by (simp add: Itoa_def)
  then show "i = j" using nat_digits_value by metis
qed simp

lemma map_of_names: "i < n \<Longrightarrow> map_of (map (\<lambda>pid. (Itoa (int pid) @ ''.pk'', f pid)) [0..<n] @ rest) (Itoa (int i) @ ''.pk'') = Some (f i)"
proof -
  assume i: "i < n"
  have "map_of (map (\<lambda>pid. (Itoa (int pid) @ ''.pk'', f pid)) ps) (Itoa (int i) @ ''.pk'') = (if i \<in> set ps then Some (f i) else None)" for ps
    by (induction ps) (auto simp: pk_name_inj simp del: append_same_eq)
  then show ?thesis using i by (simp add: map_add_def)
qed

lemma map_of_committee: "map_of (map (\<lambda>pid. (Itoa (int pid) @ ''.pk'', f pid)) ps @ [(''committee.ka'', c)]) ''committee.ka'' = Some c"
proof -
  have "Itoa (int i) @ ''.pk'' \<noteq> ''committee.ka''" for i
  proof
    assume "Itoa (int i) @ ''.pk'' = ''committee.ka''"
    then have "last (Itoa (int i) @ ''.pk'') = last ''committee.ka''" by (rule arg_cong)
    then show False by simp
  qed
  then have "map_of (map (\<lambda>pid. (Itoa (int pid) @ ''.pk'', f pid)) ps) ''committee.ka'' = None" by (induction ps) (auto simp del: append_eq_Cons_conv)
  then show ?thesis by (simp add: map_add_def)
qed

lemma local_files:
  assumes g: "\<forall>i < n. good_keys K (gen i)" and n: "4 \<le> n" "n \<le> 65536"
  shows "\<exists>fs'. gomel_keys K gen fs [prog, Itoa (int n)] = Some (Inr fs')
    \<and> getCommittee K (map_of fs') ''committee.ka'' = Inr (committee_of (local_addrs n) (local_keys gen n))
    \<and> (\<forall>i < n. getMember K (map_of fs') (Itoa (int i) @ ''.pk'') = Inr (member_of i (local_keys gen n ! i)))"
proof -
  let ?k = "local_keys gen n"
  have k: "?k ! i = makeMemberKeys (gen i) (snd (local_addrs n))" if "i < n" for i using that by (simp add: local_keys_def)
  have "\<forall>i < n. \<exists>r. StoreMember K (member_of i (?k ! i)) = Some r \<and> LoadMember K r = Inr (member_of i (?k ! i))"
    using local_member_loads [of K gen _ "snd (local_addrs n)"] g by (simp add: k)
  then obtain y where y: "\<And>i. i < n \<Longrightarrow> StoreMember K (member_of i (?k ! i)) = Some (y i)" "\<And>i. i < n \<Longrightarrow> LoadMember K (y i) = Inr (member_of i (?k ! i))" by metis
  let ?f = "map (\<lambda>pid. (Itoa (int pid) @ ''.pk'', y pid)) [0..<n]"
  have "those (map (\<lambda>pid. map_option (\<lambda>r. (Itoa (int pid) @ ''.pk'', r)) (StoreMember K (member_of pid (?k ! pid)))) [0..<n]) = Some ?f"
    using y(1) by (intro those_map_Some) simp
  note th = this
  obtain c where c: "StoreCommittee K (committee_of (local_addrs n) ?k) = Some c" "LoadCommittee K c = Inr (committee_of (local_addrs n) ?k)"
    using stored_committee_loads [OF local_committee_ok [OF g n]] by blast
  have "length ?k = n" by (simp add: local_keys_def)
  then have w: "write_files K (local_addrs n) ?k = Some (?f @ [(''committee.ka'', c)])" using th c(1) by (simp add: write_files_def)
  have "Atoi (Itoa (int n)) = Inr (int n)" using Atoi_nat_digits [of n] n(2) by (simp add: Itoa_def)
  then have "gomel_keys K gen fs [prog, Itoa (int n)] = Some (Inr (?f @ [(''committee.ka'', c)]))" using n(1) w by (simp add: gomel_keys_def local_keys_def)
  moreover have "getCommittee K (map_of (?f @ [(''committee.ka'', c)])) ''committee.ka'' = Inr (committee_of (local_addrs n) ?k)"
    unfolding getCommittee_def map_of_committee using c(2) by simp
  moreover have "getMember K (map_of (?f @ [(''committee.ka'', c)])) (Itoa (int i) @ ''.pk'') = Inr (member_of i (?k ! i))" if "i < n" for i
    unfolding getMember_def map_of_names [OF that] using y(2) that by auto
  ultimately show ?thesis by blast
qed

lemma local_conf_valid:
  assumes g: "\<forall>i < n. good_keys K (gen i)" and n: "4 \<le> n" "n < 65536" and i: "i < n"
  defines "c \<equiv> committee_of (local_addrs n) (local_keys gen n)" and "m \<equiv> member_of i (local_keys gen n ! i)"
  shows "Valid (New_conf m c) = None \<and> ValidSetup (NewSetup m c) = None"
proof -
  have len: "length (c_PublicKeys c) = n" by (simp add: c_def committee_of_def local_keys_def)
  have all: "publicKey (makeMemberKeys (gen j) A) \<noteq> None" "p2pPubKey (makeMemberKeys (gen j) A) \<noteq> None" "verKey (makeMemberKeys (gen j) A) \<noteq> None"
      "privateKey (makeMemberKeys (gen j) A) \<noteq> None" "sekKey (makeMemberKeys (gen j) A) \<noteq> None" "p2pSecKey (makeMemberKeys (gen j) A) \<noteq> None" if "j < n" for j A
    by (rule good_keysE [OF g [rule_format, OF that]]; simp add: makeMemberKeys_def GenerateKeys_def)+
  have "keys_complete m c"
    unfolding keys_complete_def using all(4-6) [OF i] n i
    by (auto simp: m_def c_def committee_of_def member_of_def local_keys_def) (use all(1-3) in metis)+
  moreover have "length (addrs_at (Addresses c) k) = n" if "k \<in> {''rmc'', ''gossip'', ''fetch'', ''mcast''}" for k
    using that n by (auto simp: c_def committee_of_def local_addrs_table addrs_at_def table_def consensusPorts_def)
  moreover have "length (addrs_at (SetupAddresses c) k) = n" if "k \<in> {''rmc'', ''gossip'', ''fetch''}" for k
    using that n by (auto simp: c_def committee_of_def local_addrs_table addrs_at_def table_def setupPorts_def)
  ultimately show ?thesis using New_valid [OF len n(2), of m] n(1) by blast
qed

text \<open>
  C11: from \<open>gomel-keys\<close> to \<open>gomel\<close>: for a committee of 4 to 65535 processes and proper generators of keys, \<open>gomel-keys n\<close> writes files from which every process gets valid configurations of the
  consensus and of the setup, with its own id and private key, the size of the committee, and the public keys of all processes in their order.
\<close>

theorem genesis_boots:
  assumes "\<forall>i < n. good_keys K (gen i)" "4 \<le> n" "n < 65536"
  shows "\<exists>fs'. gomel_keys K gen fs [prog, Itoa (int n)] = Some (Inr fs')
    \<and> (\<forall>pid < n. \<exists>cnf scnf.
         gomel_conf K (map_of fs') \<lparr>privFilename = Itoa (int pid) @ ''.pk'', keysAddrsFilename = ''committee.ka'', opt_epochs = 0, opt_units = 0, opt_setup = True\<rparr> = Inr (cnf, Some scnf)
         \<and> Valid cnf = None \<and> ValidSetup scnf = None \<and> Pid cnf = of_nat pid \<and> Pid scnf = of_nat pid \<and> unat (NProc cnf) = n
         \<and> PrivateKey cnf = Some (snd (projr (g_sign (gen pid)))) \<and> PublicKeys cnf = map (\<lambda>i. Some (fst (projr (g_sign (gen i))))) [0..<n])"
proof -
  let ?c = "committee_of (local_addrs n) (local_keys gen n)" and ?m = "\<lambda>i. member_of i (local_keys gen n ! i)"
  have "n \<le> 65536" using assms(3) by simp
  from local_files [OF assms(1,2) this, of fs prog] obtain fs' where f: "gomel_keys K gen fs [prog, Itoa (int n)] = Some (Inr fs')"
      "getCommittee K (map_of fs') ''committee.ka'' = Inr ?c" "\<And>i. i < n \<Longrightarrow> getMember K (map_of fs') (Itoa (int i) @ ''.pk'') = Inr (?m i)" by blast
  have keys: "privateKey (local_keys gen n ! i) = Some (snd (projr (g_sign (gen i))))" "publicKey (local_keys gen n ! i) = Some (fst (projr (g_sign (gen i))))" if "i < n" for i
    by (rule good_keysE [OF assms(1) [rule_format, OF that]]; simp add: that local_keys_def makeMemberKeys_def GenerateKeys_def)+
  have pub: "map publicKey (local_keys gen n) = map (\<lambda>i. Some (fst (projr (g_sign (gen i))))) [0..<n]"
    using keys(2) by (simp add: local_keys_def)
  show ?thesis
  proof (intro exI [of _ fs'] conjI allI impI f(1))
    fix i assume i: "i < n"
    let ?cnf = "New_conf (?m i) ?c" and ?scnf = "NewSetup (?m i) ?c"
    have v: "Valid ?cnf = None" "ValidSetup ?scnf = None" using local_conf_valid [OF assms i] by blast+
    then have "gomel_conf K (map_of fs') \<lparr>privFilename = Itoa (int i) @ ''.pk'', keysAddrsFilename = ''committee.ka'', opt_epochs = 0, opt_units = 0, opt_setup = True\<rparr> = Inr (?cnf, Some ?scnf)"
      using f(2) f(3) [OF i] by (simp add: gomel_conf_def ebind_def override_def)
    moreover have "Pid ?cnf = of_nat i" "Pid ?scnf = of_nat i" "unat (NProc ?cnf) = n" "PrivateKey ?cnf = privateKey (local_keys gen n ! i)" "PublicKeys ?cnf = map publicKey (local_keys gen n)"
      using assms(3) by (simp_all add: New_conf_def NewSetup_def conf_defs member_of_def committee_of_def local_keys_def unat_of_nat_u16)
    ultimately show "\<exists>cnf scnf.
         gomel_conf K (map_of fs') \<lparr>privFilename = Itoa (int i) @ ''.pk'', keysAddrsFilename = ''committee.ka'', opt_epochs = 0, opt_units = 0, opt_setup = True\<rparr> = Inr (cnf, Some scnf)
         \<and> Valid cnf = None \<and> ValidSetup scnf = None \<and> Pid cnf = of_nat i \<and> Pid scnf = of_nat i \<and> unat (NProc cnf) = n
         \<and> PrivateKey cnf = Some (snd (projr (g_sign (gen i)))) \<and> PublicKeys cnf = map (\<lambda>i. Some (fst (projr (g_sign (gen i))))) [0..<n]"
      using v keys(1) [OF i] pub by (intro exI [of _ ?cnf] exI [of _ ?scnf] conjI) simp_all
  qed
qed

text \<open>Four processes with constant keys in base64.\<close>

definition demo_gen :: "nat \<Rightarrow> generated" where
  "demo_gen i = \<lparr>g_sign = Inr (replicate 32 (of_nat i), replicate 64 (of_nat i)), g_bn256 = (Some [1], Some [2]), g_p2p = (Some [3], Some [4])\<rparr>"

lemma demo_gen_good: "good_keys base64_codec (demo_gen i)"
proof -
  have "coded (EncVK base64_codec) (DecVK base64_codec) [k]" "coded (EncP2PPub base64_codec) (DecP2PPub base64_codec) [k]" for k by (rule base64_coded; simp)+
  moreover have "EncRMC base64_codec = EncVK base64_codec" "DecRMC base64_codec = DecVK base64_codec" "EncP2P base64_codec = EncVK base64_codec" "DecP2P base64_codec = DecVK base64_codec"
    by (simp_all add: base64_codec_def Let_def)
  moreover have "length (EncVK base64_codec [k]) \<le> 30000" "length (EncP2PPub base64_codec [k]) \<le> 30000" for k by (simp_all add: base64_codec_def Let_def length_EncodeToString)
  ultimately show ?thesis by (simp add: good_keys_def demo_gen_def)
qed

theorem genesis_boots_witness:
  "\<exists>fs'. gomel_keys base64_codec demo_gen Map.empty [''gomel-keys'', ''4''] = Some (Inr fs')
    \<and> (\<exists>cnf scnf. gomel_conf base64_codec (map_of fs') \<lparr>privFilename = ''2.pk'', keysAddrsFilename = ''committee.ka'', opt_epochs = 0, opt_units = 0, opt_setup = True\<rparr> = Inr (cnf, Some scnf)
         \<and> Valid cnf = None \<and> ValidSetup scnf = None \<and> Pid cnf = 2)"
proof -
  have i: "Itoa 4 = ''4''" "Itoa 2 = ''2''" by code_simp+
  have "\<forall>i < 4. good_keys base64_codec (demo_gen i)" using demo_gen_good by blast
  note boots = genesis_boots [OF this _ _, of Map.empty "''gomel-keys''"]
  have lt: "4 \<le> (4 :: nat)" "(4 :: nat) < 65536" "(2 :: nat) < 4" by simp_all
  obtain fs' where f: "gomel_keys base64_codec demo_gen Map.empty [''gomel-keys'', Itoa (int 4)] = Some (Inr fs')"
      "\<exists>cnf scnf. gomel_conf base64_codec (map_of fs') \<lparr>privFilename = Itoa (int 2) @ ''.pk'', keysAddrsFilename = ''committee.ka'', opt_epochs = 0, opt_units = 0, opt_setup = True\<rparr> = Inr (cnf, Some scnf)
         \<and> Valid cnf = None \<and> ValidSetup scnf = None \<and> Pid cnf = of_nat 2 \<and> Pid scnf = of_nat 2 \<and> unat (NProc cnf) = 4
         \<and> PrivateKey cnf = Some (snd (projr (g_sign (demo_gen 2)))) \<and> PublicKeys cnf = map (\<lambda>i. Some (fst (projr (g_sign (demo_gen i))))) [0..<4]"
    using boots [OF lt(1,2)] lt(3) by blast
  then show ?thesis by (intro exI [of _ fs']) (auto simp: i)
qed

end
