(* ===== verification/Beacon.thy ===== *)
theory Beacon
  imports Gossip Ordering
begin

text \<open>
  The beacon (\<open>pkg/random/beacon\<close>), the random source of the setup phase. Every dealing unit carries a threshold key; on level 3 units vote on
  the keys they have below; a unit on level 6 merges the keys that all votes below it approve into the key of its creator; from level 8 on units carry shares for all
  keys their creator approved. Keys, shares and shared secrets (\<open>core-go/pkg/crypto\<close>) are parameters, the record \<open>beacon_lib\<close>; the dag is an argument.
\<close>

section \<open>Definitions\<close>

record ('tk, 'sh, 'sg, 'ss, 'k) beacon_lib =
  DecodeTK :: "bytes \<Rightarrow> u16 \<Rightarrow> u16 \<Rightarrow> 'k \<Rightarrow> string + 'tk \<times> bool"
  PolyVerify :: "'tk \<Rightarrow> bool"
  CheckSecretKey :: "'tk \<Rightarrow> u16 \<Rightarrow> 'k \<Rightarrow> bool"
  VerifyShareTK :: "'tk \<Rightarrow> 'sh \<Rightarrow> bytes \<Rightarrow> bool"
  CreateShareTK :: "'tk \<Rightarrow> bytes \<Rightarrow> 'sh option"
  CreateWTK :: "'tk option list \<Rightarrow> u16 list \<Rightarrow> ('sh, 'sg) wtk"
  SumShares :: "'sh option list \<Rightarrow> 'sh go"
  MarshalSh :: "'sh \<Rightarrow> bytes"
  UnmarshalSh :: "bytes \<Rightarrow> string + 'sh"
  MarshalSg :: "'sg \<Rightarrow> bytes"
  MarshalSS :: "'ss \<Rightarrow> bytes"
  UnmarshalSS :: "bytes \<Rightarrow> string + 'ss"
  NewSharedSecret :: "u16 \<Rightarrow> 'ss"
  VerifySharedSecret :: "u16 \<Rightarrow> u16 \<Rightarrow> 'ss \<Rightarrow> bool"
  KeyOf :: "'ss \<Rightarrow> 'k option"

definition dealingLevel :: int where "dealingLevel = 0"
definition votingLevel :: int where "votingLevel = 3"
definition multikeyLevel :: int where "multikeyLevel = 6"
definition sharesLevel :: int where "sharesLevel = 8"

lemmas level_defs = dealingLevel_def votingLevel_def multikeyLevel_def sharesLevel_def

definition nonce_beacon :: "int \<Rightarrow> bytes" where
  "nonce_beacon level = PutUint16 (word_of_int level)"

text \<open>A vote without a proof approves the key.\<close>

datatype 'ss bvote = BVote "'ss option"

fun isCorrect :: "'ss bvote \<Rightarrow> bool" where
  "isCorrect (BVote p) \<longleftrightarrow> p = None"

text \<open>
  The sets \<open>map[uint16]bool\<close> are lists. A key of \<open>wtk\<close> counts as stored when it is not None.
\<close>

record ('tk, 'sh, 'sg, 'ss, 'k) Beacon =
  b_pid :: u16
  b_nProc :: u16
  b_wtk :: "('sh, 'sg) wtk option list"
  b_tks :: "'tk option list"
  b_votes :: "'ss bvote option list list"
  b_shareProviders :: "u16 list list"
  b_subcoins :: "u16 list list"
  b_shares :: "(hash \<rightharpoonup> 'sh) list"
  b_p2pKeys :: "'k list"

definition New_beacon :: "u16 \<Rightarrow> u16 \<Rightarrow> 'k list \<Rightarrow> ('tk, 'sh, 'sg, 'ss, 'k) Beacon" where
  "New_beacon pid np p2pKeys =
     (let n = unat np in
      \<lparr>b_pid = pid, b_nProc = np, b_wtk = replicate n None, b_tks = replicate n None, b_votes = replicate n (replicate n None),
       b_shareProviders = replicate n [], b_subcoins = replicate n [], b_shares = replicate n Map.empty, b_p2pKeys = p2pKeys\<rparr>)"

text \<open>\<open>xs[i] = x\<close>; an index out of range panics.\<close>

definition put :: "'a list \<Rightarrow> nat \<Rightarrow> 'a \<Rightarrow> 'a list go" where
  "put xs i x = (if i < length xs then Some (xs[i := x]) else None)"

section \<open>Encodings\<close>

fun marshallVotes :: "('tk, 'sh, 'sg, 'ss, 'k) beacon_lib \<Rightarrow> 'ss bvote option list \<Rightarrow> bytes" where
  "marshallVotes L [] = []"
| "marshallVotes L (v # vs) =
     (case v of
        None \<Rightarrow> [0]
      | Some (BVote None) \<Rightarrow> [1]
      | Some (BVote (Some proof)) \<Rightarrow> [2] @ PutUint16 (of_nat (length (MarshalSS L proof))) @ MarshalSS L proof) @ marshallVotes L vs"

text \<open>The loop over the processes: the votes still to be read.\<close>

fun unmarshall_votes :: "('tk, 'sh, 'sg, 'ss, 'k) beacon_lib \<Rightarrow> nat \<Rightarrow> bytes \<Rightarrow> string + 'ss bvote option list" where
  "unmarshall_votes L 0 data = Inr []"
| "unmarshall_votes L (Suc k) data =
     (case data of
        [] \<Rightarrow> Inl ''votes wrongly encoded''
      | b # data \<Rightarrow>
          if b = 0 then map_sum id (Cons None) (unmarshall_votes L k data)
          else if b = 1 then map_sum id (Cons (Some (BVote None))) (unmarshall_votes L k data)
          else if length data < 2 then Inl ''votes wrongly encoded''
          else
            let proofLen = unat (Uint16 (take 2 data)); data = drop 2 data in
            if length data < proofLen then Inl ''votes wrongly encoded''
            else
              (case UnmarshalSS L (take proofLen data) of
                 Inl err \<Rightarrow> Inl err
               | Inr proof \<Rightarrow> map_sum id (Cons (Some (BVote (Some proof)))) (unmarshall_votes L k (drop proofLen data))))"

definition unmarshallVotes :: "('tk, 'sh, 'sg, 'ss, 'k) beacon_lib \<Rightarrow> bytes \<Rightarrow> u16 \<Rightarrow> string + 'ss bvote option list" where
  "unmarshallVotes L data n = unmarshall_votes L (unat n) data"

fun marshallShares :: "('tk, 'sh, 'sg, 'ss, 'k) beacon_lib \<Rightarrow> 'sh option list \<Rightarrow> bytes" where
  "marshallShares L [] = []"
| "marshallShares L (s # ss) =
     (case s of
        None \<Rightarrow> [0]
      | Some sh \<Rightarrow> [1] @ PutUint16 (of_nat (length (MarshalSh L sh))) @ MarshalSh L sh) @ marshallShares L ss"

text \<open>A first byte other than 0 and 1 is not an error, and is not consumed.\<close>

fun unmarshall_shares :: "('tk, 'sh, 'sg, 'ss, 'k) beacon_lib \<Rightarrow> nat \<Rightarrow> bytes \<Rightarrow> string + 'sh option list" where
  "unmarshall_shares L 0 data = Inr []"
| "unmarshall_shares L (Suc k) data =
     (case data of
        [] \<Rightarrow> Inl ''shares wrongly encoded''
      | b # data1 \<Rightarrow>
          if b = 0 then map_sum id (Cons None) (unmarshall_shares L k data1)
          else if b = 1 then
            if length data1 < 2 then Inl ''shares wrongly encoded''
            else
              let shsLen = unat (Uint16 (take 2 data1)); data2 = drop 2 data1 in
              if length data2 < shsLen then Inl ''shares wrongly encoded''
              else
                (case UnmarshalSh L (take shsLen data2) of
                   Inl err \<Rightarrow> Inl err
                 | Inr sh \<Rightarrow> map_sum id (Cons (Some sh)) (unmarshall_shares L k (drop shsLen data2)))
          else map_sum id (Cons None) (unmarshall_shares L k data))"

definition unmarshallShares :: "('tk, 'sh, 'sg, 'ss, 'k) beacon_lib \<Rightarrow> bytes \<Rightarrow> u16 \<Rightarrow> string + 'sh option list" where
  "unmarshallShares L data n = unmarshall_shares L (unat n) data"

section \<open>Operations\<close>

definition unitsOnLevel :: "dagcore \<Rightarrow> int \<Rightarrow> Unit list" where
  "unitsOnLevel d level = Iterate (UnitsOnLevel d level) (\<lambda>us result. (True, if us \<noteq> [] then result @ [hd us] else result)) []"

abbreviation beaconData :: "Unit \<Rightarrow> bytes" where
  "beaconData u \<equiv> bytes_of (pu_rsData (preunit_of u))"

definition approves :: "('tk, 'sh, 'sg, 'ss, 'k) Beacon \<Rightarrow> u16 \<Rightarrow> u16 \<Rightarrow> bool go" where
  "approves b voter pid = do { row \<leftarrow> nth_opt (b_votes b) (unat voter); v \<leftarrow> nth_opt row (unat pid);
                               Some (case v of None \<Rightarrow> False | Some bv \<Rightarrow> isCorrect bv) }"

definition verifyWrongSecretKeyProof :: "('tk, 'sh, 'sg, 'ss, 'k) beacon_lib \<Rightarrow> ('tk, 'sh, 'sg, 'ss, 'k) Beacon \<Rightarrow> u16 \<Rightarrow> u16 \<Rightarrow> 'ss \<Rightarrow> bool go" where
  "verifyWrongSecretKeyProof L b prover suspect proof =
     (if \<not> VerifySharedSecret L prover suspect proof then Some False
      else (case KeyOf L proof of
              None \<Rightarrow> Some False
            | Some key \<Rightarrow> do { tk \<leftarrow> nth_opt (b_tks b) (unat suspect); k \<leftarrow> tk; Some (\<not> CheckSecretKey L k prover key) }))"

text \<open>The first loop of \<open>validateVotes\<close>, over the dealing units.\<close>

fun validate_votes :: "('tk, 'sh, 'sg, 'ss, 'k) beacon_lib \<Rightarrow> ('tk, 'sh, 'sg, 'ss, 'k) Beacon \<Rightarrow> Unit \<Rightarrow> 'ss bvote option list \<Rightarrow> Unit list \<Rightarrow> gerror option go" where
  "validate_votes L b u votes [] = Some None"
| "validate_votes L b u votes (v # vs) =
     do { w \<leftarrow> nth_opt votes (unat (Creator v));
          let shouldVote = Above (Some u) (Some v);
          if shouldVote \<and> w = None then Some (Some (OtherError ''missing vote''))
          else if \<not> shouldVote \<and> w \<noteq> None then Some (Some (OtherError ''vote on dealing unit not below the unit''))
          else do { ok \<leftarrow> (case w of
                            Some (BVote (Some proof)) \<Rightarrow> if shouldVote then verifyWrongSecretKeyProof L b (Creator u) (Creator v) proof else Some True
                          | _ \<Rightarrow> Some True);
                    if \<not> ok then Some (Some (OtherError ''the provided proof is incorrect''))
                    else validate_votes L b u votes vs } }"

definition validateVotes :: "('tk, 'sh, 'sg, 'ss, 'k) beacon_lib \<Rightarrow> ('tk, 'sh, 'sg, 'ss, 'k) Beacon \<Rightarrow> dagcore \<Rightarrow> Unit \<Rightarrow> 'ss bvote option list \<Rightarrow> gerror option go" where
  "validateVotes L b d u votes =
     (let dealingUnits = unitsOnLevel d dealingLevel in
      do { r \<leftarrow> validate_votes L b u votes dealingUnits;
           case r of
             Some e \<Rightarrow> Some (Some e)
           | None \<Rightarrow>
               Some (if \<exists>pid \<in> set (pids (b_nProc b)). (unat pid < length votes \<and> votes ! unat pid \<noteq> None) \<and> pid \<notin> Creator ` set dealingUnits
                     then Some (OtherError ''vote on non-existing dealing unit'') else None) })"

fun check_shares :: "('tk, 'sh, 'sg, 'ss, 'k) beacon_lib \<Rightarrow> ('tk, 'sh, 'sg, 'ss, 'k) Beacon \<Rightarrow> Unit \<Rightarrow> 'sh option list \<Rightarrow> u16 list \<Rightarrow> gerror option go" where
  "check_shares L b u shares [] = Some None"
| "check_shares L b u shares (pid # ps) =
     do { correct \<leftarrow> approves b (Creator u) pid;
          if correct then
            do { s \<leftarrow> nth_opt shares (unat pid);
                 case s of
                   None \<Rightarrow> Some (Some (OtherError ''missing share''))
                 | Some sh \<Rightarrow>
                     do { tk \<leftarrow> nth_opt (b_tks b) (unat pid); k \<leftarrow> tk;
                          if \<not> VerifyShareTK L k sh (nonce_beacon (Level u)) then Some (Some (OtherError ''invalid share''))
                          else check_shares L b u shares ps } }
          else check_shares L b u shares ps }"

definition checkCompliance_beacon :: "('tk, 'sh, 'sg, 'ss, 'k) beacon_lib \<Rightarrow> ('tk, 'sh, 'sg, 'ss, 'k) Beacon \<Rightarrow> dagcore \<Rightarrow> Unit \<Rightarrow> gerror option go" where
  "checkCompliance_beacon L b d u =
     (if Level u = dealingLevel then
        do { key \<leftarrow> nth_opt (b_p2pKeys b) (unat (Creator u));
             Some (case DecodeTK L (beaconData u) (Creator u) (b_pid b) key of
                     Inl err \<Rightarrow> Some (OtherError err)
                   | Inr (tc, _) \<Rightarrow> if \<not> PolyVerify L tc then Some (OtherError ''Tcoin does not come from a polynomial sequence'') else None) }
      else if Level u = votingLevel then
        (case unmarshallVotes L (beaconData u) (b_nProc b) of
           Inl err \<Rightarrow> Some (Some (OtherError err))
         | Inr votes \<Rightarrow> validateVotes L b d u votes)
      else if Level u \<ge> sharesLevel then
        (case unmarshallShares L (beaconData u) (b_nProc b) of
           Inl err \<Rightarrow> Some (Some (OtherError err))
         | Inr shares \<Rightarrow> check_shares L b u shares (pids (b_nProc b)))
      else Some None)"

definition update_dealing :: "('tk, 'sh, 'sg, 'ss, 'k) beacon_lib \<Rightarrow> ('tk, 'sh, 'sg, 'ss, 'k) Beacon \<Rightarrow> Unit \<Rightarrow> ('tk, 'sh, 'sg, 'ss, 'k) Beacon go" where
  "update_dealing L b u =
     do { key \<leftarrow> nth_opt (b_p2pKeys b) (unat (Creator u));
          let (tc, okSecretKey) = (case DecodeTK L (beaconData u) (Creator u) (b_pid b) key of Inl _ \<Rightarrow> (None, False) | Inr (tc, ok) \<Rightarrow> (Some tc, ok));
          row \<leftarrow> nth_opt (b_votes b) (unat (b_pid b));
          row' \<leftarrow> put row (unat (Creator u)) (Some (BVote (if okSecretKey then None else Some (NewSharedSecret L (Creator u)))));
          tks \<leftarrow> put (b_tks b) (unat (Creator u)) tc;
          Some (b\<lparr>b_votes := (b_votes b)[unat (b_pid b) := row'], b_tks := tks\<rparr>) }"

text \<open>An error of \<open>unmarshallVotes\<close> leaves a nil slice, so that nothing is copied.\<close>

fun copy_votes :: "'a list \<Rightarrow> nat \<Rightarrow> 'a list \<Rightarrow> 'a list go" where
  "copy_votes row i [] = Some row"
| "copy_votes row i (v # vs) = do { row' \<leftarrow> put row i v; copy_votes row' (Suc i) vs }"

definition update_voting :: "('tk, 'sh, 'sg, 'ss, 'k) beacon_lib \<Rightarrow> ('tk, 'sh, 'sg, 'ss, 'k) Beacon \<Rightarrow> Unit \<Rightarrow> ('tk, 'sh, 'sg, 'ss, 'k) Beacon go" where
  "update_voting L b u =
     do { row \<leftarrow> nth_opt (b_votes b) (unat (Creator u));
          row' \<leftarrow> copy_votes row 0 (case unmarshallVotes L (beaconData u) (b_nProc b) of Inl _ \<Rightarrow> [] | Inr votes \<Rightarrow> votes);
          Some (b\<lparr>b_votes := (b_votes b)[unat (Creator u) := row']\<rparr>) }"

text \<open>\<open>coinsApprovedBy[pid] == nBelowUOnVotingLevel\<close>: both counters are of 16 bits.\<close>

fun count_approvals :: "('tk, 'sh, 'sg, 'ss, 'k) Beacon \<Rightarrow> u16 \<Rightarrow> Unit list \<Rightarrow> u16 go" where
  "count_approvals b pid [] = Some 0"
| "count_approvals b pid (v # vs) = do { a \<leftarrow> approves b (Creator v) pid; k \<leftarrow> count_approvals b pid vs; Some (if a then k + 1 else k) }"

fun merged_coins :: "('tk, 'sh, 'sg, 'ss, 'k) Beacon \<Rightarrow> Unit list \<Rightarrow> u16 list \<Rightarrow> u16 list go" where
  "merged_coins b vs [] = Some []"
| "merged_coins b vs (pid # ps) = do { k \<leftarrow> count_approvals b pid vs; rest \<leftarrow> merged_coins b vs ps; Some (if k = of_nat (length vs) then pid # rest else rest) }"

definition update_multikey :: "('tk, 'sh, 'sg, 'ss, 'k) beacon_lib \<Rightarrow> ('tk, 'sh, 'sg, 'ss, 'k) Beacon \<Rightarrow> dagcore \<Rightarrow> Unit \<Rightarrow> ('tk, 'sh, 'sg, 'ss, 'k) Beacon go" where
  "update_multikey L b d u =
     (let below = filter (\<lambda>v. Above (Some u) (Some v)) (unitsOnLevel d votingLevel);
          providers = remdups (map Creator below)
      in do { coins \<leftarrow> merged_coins b below (pids (b_nProc b));
              coinsToMerge \<leftarrow> those (map (\<lambda>pid. nth_opt (b_tks b) (unat pid)) coins);
              sub \<leftarrow> nth_opt (b_subcoins b) (unat (Creator u));
              subcoins \<leftarrow> put (b_subcoins b) (unat (Creator u)) (remdups (sub @ coins));
              wtk \<leftarrow> put (b_wtk b) (unat (Creator u)) (Some (CreateWTK L coinsToMerge providers));
              shareProviders \<leftarrow> put (b_shareProviders b) (unat (Creator u)) providers;
              Some (b\<lparr>b_subcoins := subcoins, b_wtk := wtk, b_shareProviders := shareProviders\<rparr>) })"

fun add_shares :: "(hash \<rightharpoonup> 'sh) list \<Rightarrow> nat \<Rightarrow> hash \<Rightarrow> 'sh option list \<Rightarrow> (hash \<rightharpoonup> 'sh) list go" where
  "add_shares ms i h [] = Some ms"
| "add_shares ms i h (s # ss) =
     (case s of
        None \<Rightarrow> add_shares ms (Suc i) h ss
      | Some sh \<Rightarrow> do { m \<leftarrow> nth_opt ms i; add_shares (ms[i := m(h \<mapsto> sh)]) (Suc i) h ss })"

definition update_shares :: "('tk, 'sh, 'sg, 'ss, 'k) beacon_lib \<Rightarrow> ('tk, 'sh, 'sg, 'ss, 'k) Beacon \<Rightarrow> Unit \<Rightarrow> ('tk, 'sh, 'sg, 'ss, 'k) Beacon go" where
  "update_shares L b u =
     do { ms \<leftarrow> add_shares (b_shares b) 0 (Hash u) (case unmarshallShares L (beaconData u) (b_nProc b) of Inl _ \<Rightarrow> [] | Inr shares \<Rightarrow> shares);
          Some (b\<lparr>b_shares := ms\<rparr>) }"

definition update_beacon :: "('tk, 'sh, 'sg, 'ss, 'k) beacon_lib \<Rightarrow> ('tk, 'sh, 'sg, 'ss, 'k) Beacon \<Rightarrow> dagcore \<Rightarrow> Unit \<Rightarrow> ('tk, 'sh, 'sg, 'ss, 'k) Beacon go" where
  "update_beacon L b d u =
     do { b1 \<leftarrow> (if Level u = dealingLevel then update_dealing L b u else Some b);
          b2 \<leftarrow> (if Level u = votingLevel then update_voting L b1 u else Some b1);
          b3 \<leftarrow> (if Level u = multikeyLevel then update_multikey L b2 d u else Some b2);
          if Level u \<ge> sharesLevel then update_shares L b3 u else Some b3 }"

text \<open>\<open>encoded\<close> is the encrypted key that \<open>NewRandom\<close>, \<open>Encrypt\<close> and \<open>Encode\<close> give, or their error.\<close>

definition DealingData_beacon :: "EpochID \<Rightarrow> string + bytes \<Rightarrow> string + bytes" where
  "DealingData_beacon epoch encoded =
     (if epoch \<noteq> 0 then Inl ''Beacon was asked for dealing data with non-zero epoch'' else encoded)"

fun create_shares :: "('tk, 'sh, 'sg, 'ss, 'k) beacon_lib \<Rightarrow> ('tk, 'sh, 'sg, 'ss, 'k) Beacon \<Rightarrow> int \<Rightarrow> u16 list \<Rightarrow> 'sh option list go" where
  "create_shares L b level [] = Some []"
| "create_shares L b level (pid # ps) =
     do { correct \<leftarrow> approves b (b_pid b) pid;
          s \<leftarrow> (if correct then do { tk \<leftarrow> nth_opt (b_tks b) (unat pid); k \<leftarrow> tk; Some (CreateShareTK L k (nonce_beacon level)) } else Some None);
          rest \<leftarrow> create_shares L b level ps;
          Some (s # rest) }"

definition DataToInclude_beacon :: "('tk, 'sh, 'sg, 'ss, 'k) beacon_lib \<Rightarrow> ('tk, 'sh, 'sg, 'ss, 'k) Beacon \<Rightarrow> Unit option list \<Rightarrow> int \<Rightarrow> bytes go" where
  "DataToInclude_beacon L b parents level =
     (if level = votingLevel then do { row \<leftarrow> nth_opt (b_votes b) (unat (b_pid b)); Some (marshallVotes L row) }
      else if level \<ge> sharesLevel then do { shs \<leftarrow> create_shares L b level (pids (b_nProc b)); Some (marshallShares L shs) }
      else Some [])"

text \<open>Maps are iterated in no fixed order; here in that of the list.\<close>

fun sum_unit_shares :: "('tk, 'sh, 'sg, 'ss, 'k) beacon_lib \<Rightarrow> ('tk, 'sh, 'sg, 'ss, 'k) Beacon \<Rightarrow> u16 list \<Rightarrow> Unit list \<Rightarrow> 'sh list go" where
  "sum_unit_shares L b subcoins [] = Some []"
| "sum_unit_shares L b subcoins (u # us) =
     do { uShares \<leftarrow> those (map (\<lambda>sc. do { m \<leftarrow> nth_opt (b_shares b) (unat sc); Some (m (Hash u)) }) subcoins);
          s \<leftarrow> SumShares L uShares;
          rest \<leftarrow> sum_unit_shares L b subcoins us;
          Some (s # rest) }"

definition RandomBytes_beacon :: "('tk, 'sh, 'sg, 'ss, 'k) beacon_lib \<Rightarrow> ('tk, 'sh, 'sg, 'ss, 'k) Beacon \<Rightarrow> dagcore \<Rightarrow> u16 \<Rightarrow> int \<Rightarrow> bytes option go" where
  "RandomBytes_beacon L b d pid level =
     (if level < sharesLevel then Some None
      else do { k \<leftarrow> nth_opt (b_wtk b) (unat pid);
                case k of
                  None \<Rightarrow> Some None
                | Some wtk \<Rightarrow>
                    do { providers \<leftarrow> nth_opt (b_shareProviders b) (unat pid);
                         subcoins \<leftarrow> nth_opt (b_subcoins b) (unat pid);
                         shares \<leftarrow> sum_unit_shares L b subcoins (filter (\<lambda>u. Creator u \<in> set providers) (unitsOnLevel d level));
                         Some (map_option (MarshalSg L) (CombineShares wtk shares)) } })"

definition GetWTK :: "('tk, 'sh, 'sg, 'ss, 'k) Beacon \<Rightarrow> u16 \<Rightarrow> ('sh, 'sg) wtk option go" where
  "GetWTK b head = nth_opt (b_wtk b) (unat head)"

section \<open>Votes and shares survive the wire\<close>

lemma sized_field:
  assumes "length xs < 2 ^ 16"
  shows "unat (Uint16 (take 2 (PutUint16 (of_nat (length xs)) @ xs @ rest))) = length xs"
  using assms by (simp add: unat_of_nat take_bit_nat_eq_self)

lemma unmarshall_marshall_votes:
  assumes "\<forall>p. Some (BVote (Some p)) \<in> set votes \<longrightarrow> length (MarshalSS L p) < 2 ^ 16 \<and> UnmarshalSS L (MarshalSS L p) = Inr p"
  shows "unmarshall_votes L (length votes) (marshallVotes L votes @ rest) = Inr votes"
  using assms
proof (induction votes)
  case (Cons v votes)
  have IH: "unmarshall_votes L (length votes) (marshallVotes L votes @ rest) = Inr votes" using Cons by simp
  show ?case
  proof (cases "\<exists>p. v = Some (BVote (Some p))")
    case True
    then obtain p where p: "v = Some (BVote (Some p))" by blast
    then have "length (MarshalSS L p) < 2 ^ 16" "UnmarshalSS L (MarshalSS L p) = Inr p" using Cons.prems by auto
    then show ?thesis using p IH sized_field [of "MarshalSS L p"] by simp
  next
    case False
    then have "v = None \<or> v = Some (BVote None)" by (metis bvote.exhaust option.exhaust)
    then show ?thesis using IH by auto
  qed
qed simp

lemma unmarshall_marshall_shares:
  assumes "\<forall>sh. Some sh \<in> set shares \<longrightarrow> length (MarshalSh L sh) < 2 ^ 16 \<and> UnmarshalSh L (MarshalSh L sh) = Inr sh"
  shows "unmarshall_shares L (length shares) (marshallShares L shares @ rest) = Inr shares"
  using assms
proof (induction shares)
  case (Cons s shares)
  have IH: "unmarshall_shares L (length shares) (marshallShares L shares @ rest) = Inr shares" using Cons by simp
  show ?case
  proof (cases s)
    case (Some sh)
    then have "length (MarshalSh L sh) < 2 ^ 16" "UnmarshalSh L (MarshalSh L sh) = Inr sh" using Cons.prems by auto
    then show ?thesis using Some IH sized_field [of "MarshalSh L sh"] by simp
  qed (use IH in simp)
qed simp

text \<open>
  The votes and the shares in random source data are read back as they were written, if their proofs and shares are marshalled faithfully in less than $2^{16}$ bytes.
\<close>

theorem beacon_data_roundtrip:
  assumes "length votes = unat n" "length shares = unat n"
    and "\<forall>p. Some (BVote (Some p)) \<in> set votes \<longrightarrow> length (MarshalSS L p) < 2 ^ 16 \<and> UnmarshalSS L (MarshalSS L p) = Inr p"
    and "\<forall>sh. Some sh \<in> set shares \<longrightarrow> length (MarshalSh L sh) < 2 ^ 16 \<and> UnmarshalSh L (MarshalSh L sh) = Inr sh"
  shows "unmarshallVotes L (marshallVotes L votes) n = Inr votes \<and> unmarshallShares L (marshallShares L shares) n = Inr shares"
  using unmarshall_marshall_votes [OF assms(3), of "[]"] unmarshall_marshall_shares [OF assms(4), of "[]"] assms(1,2)
  by (simp add: unmarshallVotes_def unmarshallShares_def)

text \<open>
  Data that begin with a byte other than 0 and 1 are read as no shares at all, whatever follows.
\<close>

lemma unmarshallShares_unknown_byte:
  assumes "x \<noteq> 0" "x \<noteq> 1"
  shows "unmarshallShares L (x # data) n = Inr (replicate (unat n) None)"
proof -
  have "unmarshall_shares L k (x # data) = Inr (replicate k None)" for k using assms by (induction k) simp_all
  then show ?thesis by (simp add: unmarshallShares_def)
qed

section \<open>Agreement on the merged keys\<close>

lemma unitsOnLevel_eq:
  assumes "dag_reach mq n d es" "0 < mq n"
  shows "unitsOnLevel d l = map hd (filter (\<lambda>us. us \<noteq> []) (map (\<lambda>p. filter (\<lambda>v. Level v = l \<and> Creator v = p) es) (pids n)))"
proof -
  have D: "dag_inv d es" "nProc d = n" using dag_reach_inv [OF assms] by auto
  have w: "su_wf n (UnitsOnLevel d l)"
    using dag_invD(3) [OF D(1)] D(2)
    by (auto simp: UnitsOnLevel_def getFiber_def on_level.represents_def fm_wf_def su.new_wf split: option.splits)
  have "foldl (\<lambda>result us. if us \<noteq> [] then result @ [hd us] else result) acc uss = acc @ map hd (filter (\<lambda>us. us \<noteq> []) uss)" for acc and uss :: "Unit list list"
    by (induction uss arbitrary: acc) auto
  then show ?thesis unfolding unitsOnLevel_def Iterate_def Get_contents [OF w]
    by (subst Iterate_all) (simp_all add: UnitsOnLevel_inv [OF D(1)] cong: map_cong)
qed

lemma dag_reach_wf: "dag_reach mq n d es \<Longrightarrow> 0 < mq n \<Longrightarrow> wf_set n (set es)"
  using units_invD(1) dag_invD(1) dag_reach_inv by blast

definition slot_heads :: "(Unit \<Rightarrow> bool) \<Rightarrow> Unit list list \<Rightarrow> Unit list" where
  "slot_heads P uss = filter P (map hd (filter (\<lambda>us. us \<noteq> []) uss))"

lemma slot_heads_Cons: "slot_heads P (us # uss) = slot_heads P [us] @ slot_heads P uss" "length (slot_heads P [us]) \<le> 1"
  by (simp_all add: slot_heads_def)

lemma slot_heads_slot:
  assumes "no_forks T" "set es \<subseteq> T" "\<forall>v \<in> T. Level v = l \<longrightarrow> P v \<longrightarrow> v \<in> set es"
  shows "set (slot_heads P [filter (\<lambda>v. Level v = l \<and> Creator v = p) es]) = {v \<in> T. Level v = l \<and> Creator v = p \<and> P v}"
proof -
  define s where "s = filter (\<lambda>v. Level v = l \<and> Creator v = p) es"
  have s: "x \<in> set s \<longleftrightarrow> x \<in> set es \<and> Level x = l \<and> Creator x = p" for x by (auto simp: s_def)
  have 1: "s \<noteq> [] \<and> hd s = v" if "v \<in> T" "Level v = l" "Creator v = p" "P v" for v
  proof -
    have "v \<in> set s" using that assms(3) s by blast
    then have ne: "s \<noteq> []" by auto
    then have h: "hd s \<in> T" "Level (hd s) = l" "Creator (hd s) = p" using s [of "hd s"] assms(2) by auto
    show ?thesis using ne assms(1) [unfolded no_forks_def, rule_format, OF h(1) that(1)] h that by simp
  qed
  have 2: "hd s \<in> T \<and> Level (hd s) = l \<and> Creator (hd s) = p" if "s \<noteq> []"
    using that s [of "hd s"] assms(2) by auto
  have 3: "set (slot_heads P [s]) = {v. s \<noteq> [] \<and> P (hd s) \<and> v = hd s}" by (cases "s = []") (auto simp: slot_heads_def)
  show ?thesis unfolding s_def [symmetric] 3
  proof (intro equalityI subsetI)
    fix v assume "v \<in> {v. s \<noteq> [] \<and> P (hd s) \<and> v = hd s}"
    then show "v \<in> {v \<in> T. Level v = l \<and> Creator v = p \<and> P v}" using 2 by auto
  next
    fix v assume "v \<in> {v \<in> T. Level v = l \<and> Creator v = p \<and> P v}"
    then show "v \<in> {v. s \<noteq> [] \<and> P (hd s) \<and> v = hd s}" using 1 [of v] by auto
  qed
qed

lemma slot_heads_eq:
  assumes "no_forks T" "set es1 \<subseteq> T" "set es2 \<subseteq> T" "\<forall>v \<in> T. Level v = l \<longrightarrow> P v \<longrightarrow> v \<in> set es1 \<and> v \<in> set es2"
  shows "slot_heads P (map (\<lambda>p. filter (\<lambda>v. Level v = l \<and> Creator v = p) es1) ps) = slot_heads P (map (\<lambda>p. filter (\<lambda>v. Level v = l \<and> Creator v = p) es2) ps)"
proof (induction ps)
  case (Cons p ps)
  let ?c = "\<lambda>es. slot_heads P [filter (\<lambda>v. Level v = l \<and> Creator v = p) es]"
  have e: "\<forall>v \<in> T. Level v = l \<longrightarrow> P v \<longrightarrow> v \<in> set es1" "\<forall>v \<in> T. Level v = l \<longrightarrow> P v \<longrightarrow> v \<in> set es2" using assms(4) by auto
  have m: "set (?c es1) = set (?c es2)" by (simp only: slot_heads_slot [OF assms(1,2) e(1)] slot_heads_slot [OF assms(1,3) e(2)])
  have "xs = ys" if "set xs = set ys" "length xs \<le> 1" "length ys \<le> 1" for xs ys :: "Unit list"
    using that by (cases xs; cases ys) auto
  from this [OF m slot_heads_Cons(2) slot_heads_Cons(2)] show ?case using Cons.IH by (simp add: slot_heads_Cons(1) [of P _ "map _ ps"])
qed (simp add: slot_heads_def)

text \<open>The units on a level below a unit are the same in all dags that have the parents of the unit.\<close>

lemma voting_units_below:
  assumes C: "comparable_set n T" "inj_on Hash T" "no_forks T" and u: "u \<in> T" "Level u \<noteq> l"
    and d: "dag_reach mq n d1 es1" "dag_reach mq n d2 es2" "0 < mq n" "set es1 \<subseteq> T" "set es2 \<subseteq> T"
    and p: "\<forall>p. Some p \<in> set (Parents u) \<longrightarrow> p \<in> set es1 \<and> p \<in> set es2"
  shows "filter (\<lambda>v. Above (Some u) (Some v)) (unitsOnLevel d1 l) = filter (\<lambda>v. Above (Some u) (Some v)) (unitsOnLevel d2 l)"
proof -
  note W = dag_reach_wf [OF d(1,3)] dag_reach_wf [OF d(2,3)]
  have below: "v \<in> set es1 \<and> v \<in> set es2" if "v \<in> T" "Level v = l" "Above (Some u) (Some v)" for v
  proof -
    have "reaches u v" using that above_reaches_set [OF C(1,2) u(1)] by (simp add: Above_def)
    moreover have "u \<noteq> v" using that(2) u(2) by auto
    ultimately obtain q where "Some q \<in> set (Parents u)" "reaches q v" by (auto elim: reachesE)
    then show ?thesis using p reaches_closed [OF _ W(1)] reaches_closed [OF _ W(2)] by blast
  qed
  then show ?thesis unfolding unitsOnLevel_eq [OF d(1,3)] unitsOnLevel_eq [OF d(2,3)] slot_heads_def [symmetric]
    by (intro slot_heads_eq [OF C(3) d(4,5)]) blast
qed

lemma count_approvals_all:
  assumes "count_approvals b q vs = Some k"
  shows "\<exists>m \<le> length vs. k = of_nat m \<and> (m = length vs \<longleftrightarrow> (\<forall>v \<in> set vs. approves b (Creator v) q = Some True))"
  using assms
proof (induction vs arbitrary: k)
  case (Cons v vs)
  obtain a k' where a: "approves b (Creator v) q = Some a" "count_approvals b q vs = Some k'" "k = (if a then k' + 1 else k')"
    using Cons.prems by (auto split: bind_splits)
  obtain m where m: "m \<le> length vs" "k' = of_nat m" "m = length vs \<longleftrightarrow> (\<forall>v \<in> set vs. approves b (Creator v) q = Some True)" using Cons.IH [OF a(2)] by blast
  show ?case using a m by (intro exI [of _ "if a then Suc m else m"]) auto
qed simp

lemma count_approvals_total:
  assumes "\<forall>v \<in> set vs. approves b (Creator v) q \<noteq> None" "length vs < 2 ^ 16"
  shows "\<exists>k. count_approvals b q vs = Some k \<and> (k = of_nat (length vs) \<longleftrightarrow> (\<forall>v \<in> set vs. approves b (Creator v) q = Some True))"
proof -
  obtain k where k: "count_approvals b q vs = Some k" using assms(1) by (induction vs) auto
  obtain m where m: "m \<le> length vs" "k = of_nat m" "m = length vs \<longleftrightarrow> (\<forall>v \<in> set vs. approves b (Creator v) q = Some True)"
    using count_approvals_all [OF k] by blast
  have "(of_nat m :: u16) = of_nat (length vs) \<longleftrightarrow> m = length vs"
    using m(1) assms(2) by (auto simp: unat_of_nat take_bit_nat_eq_self dest!: arg_cong [where f = unat])
  then show ?thesis using k m by blast
qed

lemma merged_coins_all:
  assumes "merged_coins b vs ps = Some coins" "q \<in> set coins" "length vs < 2 ^ 16"
  shows "\<forall>v \<in> set vs. approves b (Creator v) q = Some True"
  using assms(1,2)
proof (induction ps arbitrary: coins)
  case (Cons p ps)
  obtain k rest where k: "count_approvals b p vs = Some k" "merged_coins b vs ps = Some rest" "coins = (if k = of_nat (length vs) then p # rest else rest)"
    using Cons.prems(1) by (auto split: bind_splits)
  obtain m where m: "m \<le> length vs" "k = of_nat m" "m = length vs \<longleftrightarrow> (\<forall>v \<in> set vs. approves b (Creator v) p = Some True)"
    using count_approvals_all [OF k(1)] by blast
  have "(of_nat m :: u16) = of_nat (length vs) \<longleftrightarrow> m = length vs"
    using m(1) assms(3) by (auto simp: unat_of_nat take_bit_nat_eq_self dest!: arg_cong [where f = unat])
  then show ?case using Cons k m by (auto split: if_splits)
qed simp

lemma merged_coins_cong:
  assumes "\<forall>v \<in> set vs. nth_opt (b_votes b1) (unat (Creator v)) = nth_opt (b_votes b2) (unat (Creator v))"
  shows "merged_coins b1 vs ps = merged_coins b2 vs ps"
proof -
  have "count_approvals b1 q vs = count_approvals b2 q vs" for q using assms by (induction vs) (auto simp: approves_def)
  then show ?thesis by (induction ps) auto
qed

lemma update_multikey_result:
  assumes "update_multikey L b d u = Some b'"
  obtains coins tks where "merged_coins b (filter (\<lambda>v. Above (Some u) (Some v)) (unitsOnLevel d votingLevel)) (pids (b_nProc b)) = Some coins"
    "those (map (\<lambda>pid. nth_opt (b_tks b) (unat pid)) coins) = Some tks"
    "nth_opt (b_wtk b') (unat (Creator u)) = Some (Some (CreateWTK L tks (remdups (map Creator (filter (\<lambda>v. Above (Some u) (Some v)) (unitsOnLevel d votingLevel))))))"
    "nth_opt (b_shareProviders b') (unat (Creator u)) = Some (remdups (map Creator (filter (\<lambda>v. Above (Some u) (Some v)) (unitsOnLevel d votingLevel))))"
    "unat (Creator u) < length (b_subcoins b)" "set (b_subcoins b' ! unat (Creator u)) = set (b_subcoins b ! unat (Creator u)) \<union> set coins"
  using assms by (auto simp: update_multikey_def put_def nth_opt_def Let_def split: bind_split_asm if_split_asm)


section \<open>A late dealing unit\<close>

lemma update_dealing_votes:
  assumes "update_dealing L b w = Some b'" "nth_opt (b_p2pKeys b) (unat (Creator w)) = Some key" "DecodeTK L (beaconData w) (Creator w) (b_pid b) key = Inr (tc, True)"
  shows "approves b' (b_pid b) (Creator w) = Some True" "p \<noteq> b_pid b \<Longrightarrow> approves b' p q = approves b p q"
    "b_nProc b' = b_nProc b" "b_subcoins b' = b_subcoins b" "b_pid b' = b_pid b"
  using assms by (auto simp: update_dealing_def approves_def nth_opt_def put_def nth_list_update unat_eq_iff split: bind_split_asm if_split_asm)

text \<open>
  A dealing unit that arrives after the own voting unit splits the keys. Let the voting unit of process \<open>b_pid b\<close> carry no vote on \<open>q\<close>, and
  let all other voting units below \<open>u\<close> approve \<open>q\<close>. When the dealing unit \<open>w\<close> of \<open>q\<close> arrives late at this process, it records an
  own vote on it, and then merges the key of \<open>q\<close> at \<open>u\<close>; a process \<open>r\<close> with the same votes of the voting units does not.
\<close>

theorem late_dealing_splits_keys:
  assumes "update_dealing L b w = Some b1" "nth_opt (b_p2pKeys b) (unat (Creator w)) = Some key" "DecodeTK L (beaconData w) (Creator w) (b_pid b) key = Inr (tc, True)"
    and "below = filter (\<lambda>v. Above (Some u) (Some v)) (unitsOnLevel d votingLevel)" "v0 \<in> set below" "Creator v0 = b_pid b" "length below < 2 ^ 16"
    and "approves r (b_pid b) (Creator w) = Some False"
    and "\<forall>v \<in> set below. Creator v \<noteq> b_pid b \<longrightarrow> approves b (Creator v) (Creator w) = Some True \<and> approves r (Creator v) (Creator w) = Some True"
    and "Creator w < b_nProc b" "Creator w \<notin> set (b_subcoins r ! unat (Creator u))"
    and "update_multikey L b1 d u = Some b2" "update_multikey L r d u = Some r2"
  shows "Creator w \<in> set (b_subcoins b2 ! unat (Creator u)) \<and> Creator w \<notin> set (b_subcoins r2 ! unat (Creator u))"
proof
  note v = update_dealing_votes [OF assms(1-3)]
  obtain coins where c: "merged_coins b1 below (pids (b_nProc b1)) = Some coins" "set (b_subcoins b2 ! unat (Creator u)) = set (b_subcoins b1 ! unat (Creator u)) \<union> set coins"
    using update_multikey_result [OF assms(12)] assms(4) by metis
  have all: "\<forall>v \<in> set below. approves b1 (Creator v) (Creator w) = Some True" using v(1,2) assms(9) by metis
  obtain k where k: "count_approvals b1 (Creator w) below = Some k" "k = of_nat (length below)"
    using count_approvals_total [of below b1 "Creator w"] all assms(7) by auto
  have "q \<in> set coins" if "merged_coins b1 below ps = Some coins" "q \<in> set ps" "count_approvals b1 q below = Some (of_nat (length below))" for ps coins q
    using that by (induction ps arbitrary: coins) (auto split: bind_splits if_splits)
  from this [OF c(1) _ k(1) [unfolded k(2)]] show "Creator w \<in> set (b_subcoins b2 ! unat (Creator u))"
    using c(2) assms(10) v(3) by (simp add: set_pids)
next
  obtain coins where c: "merged_coins r below (pids (b_nProc r)) = Some coins" "set (b_subcoins r2 ! unat (Creator u)) = set (b_subcoins r ! unat (Creator u)) \<union> set coins"
    using update_multikey_result [OF assms(13)] assms(4) by metis
  have "Creator w \<notin> set coins" using merged_coins_all [OF c(1) _ assms(7)] assms(5,6,8) by force
  then show "Creator w \<notin> set (b_subcoins r2 ! unat (Creator u))" using c(2) assms(11) by simp
qed

section \<open>Shares of honest processes\<close>

lemma create_shares_length: "create_shares L b level ps = Some shs \<Longrightarrow> length shs = length ps"
  by (induction ps arbitrary: shs) (auto split: bind_split_asm)

lemma create_shares_nth:
  assumes "create_shares L b level ps = Some shs" "i < length ps"
  shows "\<exists>a. approves b (b_pid b) (ps ! i) = Some a \<and> (if a then \<exists>k. nth_opt (b_tks b) (unat (ps ! i)) = Some (Some k) \<and> shs ! i = CreateShareTK L k (nonce_beacon level) else shs ! i = None)"
  using assms by (induction ps arbitrary: shs i) (fastforce split: bind_split_asm if_split_asm simp: nth_Cons split: nat.split)+

lemma check_shares_ok:
  assumes "\<forall>q \<in> set ps. \<exists>a. approves b (Creator u) q = Some a \<and> (a \<longrightarrow> (\<exists>sh k. nth_opt shares (unat q) = Some (Some sh) \<and> nth_opt (b_tks b) (unat q) = Some (Some k)
      \<and> VerifyShareTK L k sh (nonce_beacon (Level u))))"
  shows "check_shares L b u shares ps = Some None"
  using assms by (induction ps) fastforce+

text \<open>
  The shares that a beacon gives to the creator are accepted by another one: the receiver knows the same keys and approvals of the sender, and shares made
  with the key of a dealing unit verify.
\<close>

theorem beacon_shares_accepted:
  assumes "DataToInclude_beacon L b parents level = Some bs" "sharesLevel \<le> level" "b_nProc b = b_nProc b2"
    and "Level u = level" "Creator u = b_pid b" "pu_rsData (preunit_of u) = Some bs"
    and "\<forall>sh. length (MarshalSh L sh) < 2 ^ 16 \<and> UnmarshalSh L (MarshalSh L sh) = Inr sh"
    and "\<forall>q. q < b_nProc b2 \<longrightarrow> (\<exists>a. approves b2 (b_pid b) q = Some a \<and> (a \<longrightarrow> approves b (b_pid b) q = Some True))"
    and "\<forall>q. approves b2 (b_pid b) q = Some True \<longrightarrow> (\<exists>k k2 sh. nth_opt (b_tks b) (unat q) = Some (Some k) \<and> nth_opt (b_tks b2) (unat q) = Some (Some k2)
      \<and> CreateShareTK L k (nonce_beacon level) = Some sh \<and> VerifyShareTK L k2 sh (nonce_beacon level))"
  shows "checkCompliance_beacon L b2 d u = Some None"
proof -
  let ?ps = "pids (b_nProc b2)"
  obtain shs where shs: "create_shares L b level ?ps = Some shs" "bs = marshallShares L shs"
    using assms(1-3) by (auto simp: DataToInclude_beacon_def level_defs split: bind_splits if_splits)
  have l: "length shs = unat (b_nProc b2)" using create_shares_length [OF shs(1)] by (simp add: length_pids)
  have "unmarshallShares L bs (b_nProc b2) = Inr shs"
    using unmarshall_marshall_shares [of shs L "[]"] assms(7) shs(2) l by (simp add: unmarshallShares_def)
  moreover have "check_shares L b2 u shs ?ps = Some None"
  proof (rule check_shares_ok, intro ballI)
    fix q assume q: "q \<in> set ?ps"
    then have lt: "unat q < unat (b_nProc b2)" by (simp add: set_pids word_less_nat_alt)
    have nth: "?ps ! unat q = q" using nth_pids [OF lt] by simp
    obtain a where a: "approves b2 (b_pid b) q = Some a" "a \<longrightarrow> approves b (b_pid b) q = Some True" using assms(8) q by (auto simp: set_pids)
    have c: "shs ! unat q = CreateShareTK L k (nonce_beacon level)" if "a" "nth_opt (b_tks b) (unat q) = Some (Some k)" for k
      using create_shares_nth [OF shs(1), of "unat q"] nth lt a that by (auto simp: length_pids)
    have "\<exists>sh k. nth_opt shs (unat q) = Some (Some sh) \<and> nth_opt (b_tks b2) (unat q) = Some (Some k) \<and> VerifyShareTK L k sh (nonce_beacon (Level u))" if a
    proof -
      have "approves b2 (b_pid b) q = Some True" using a(1) \<open>a\<close> by simp
      then obtain k k2 sh where k: "nth_opt (b_tks b) (unat q) = Some (Some k)" "nth_opt (b_tks b2) (unat q) = Some (Some k2)"
          "CreateShareTK L k (nonce_beacon level) = Some sh" "VerifyShareTK L k2 sh (nonce_beacon level)" using assms(9) by blast
      have "nth_opt shs (unat q) = Some (Some sh)" using c [OF \<open>a\<close> k(1)] k(3) l lt by (simp add: nth_opt_def)
      then show ?thesis using k(2,4) assms(4) by blast
    qed
    then show "\<exists>a. approves b2 (Creator u) q = Some a \<and> (a \<longrightarrow> (\<exists>sh k. nth_opt shs (unat q) = Some (Some sh) \<and> nth_opt (b_tks b2) (unat q) = Some (Some k)
      \<and> VerifyShareTK L k sh (nonce_beacon (Level u))))" using a(1) assms(5) by simp
  qed
  ultimately show ?thesis using assms(2,4,6) by (simp add: checkCompliance_beacon_def level_defs)
qed

section \<open>An example\<close>

text \<open>
  Three processes, with a quorum of one to keep the dag small. Process 2 makes a dealing unit only; the voting unit of process 1 is above it, that of
  process 0 is not. The last unit is on the multikey level.
\<close>

definition beacon_pu :: "u16 \<times> int list \<times> u8 \<Rightarrow> preunit" where
  "beacon_pu x = (case x of (c, hs, h) \<Rightarrow> \<lparr>pu_creator = c, pu_epochID = 0, pu_height = hs ! unat c + 1, pu_signature = [],
     pu_hash = [h], pu_crown = \<lparr>Heights = hs, ControlHash = []\<rparr>, pu_data = [], pu_rsData = Some [h]\<rparr>)"

definition beacon_add :: "dagcore \<times> Unit list \<Rightarrow> u16 \<times> int list \<times> u8 \<Rightarrow> (dagcore \<times> Unit list) go" where
  "beacon_add s x =
     (case s of (d, es) \<Rightarrow>
        do { r \<leftarrow> DecodeParents d (beacon_pu x);
             case r of
               Inl _ \<Rightarrow> None
             | Inr ps \<Rightarrow>
                 let u = BuildUnit (\<lambda>_. 1) (beacon_pu x) ps in
                 if preunit_ok (nProc d) (beacon_pu x) \<and> run_checks consensusChecks u d = None
                 then do { d' \<leftarrow> insert_core d (Embed u d); Some (d', es @ [Embed u d]) } else None })"

definition beacon_dag :: "(dagcore \<times> Unit list) go" where
  "beacon_dag = go_fold beacon_add (New_core 3 10 0, [])
     [(0, [-1, -1, -1], 1), (0, [0, -1, -1], 2), (0, [1, -1, -1], 3), (0, [2, -1, -1], 4),
      (1, [-1, -1, -1], 5), (1, [-1, 0, -1], 6), (1, [-1, 1, -1], 7), (2, [-1, -1, -1], 8), (1, [-1, 2, 0], 9),
      (0, [3, 3, 0], 10), (0, [4, 3, 0], 11)]"

definition beacon_top :: "(dagcore \<times> Unit list) go" where
  "beacon_top = do { s \<leftarrow> beacon_dag; beacon_add s (0, [5, 3, 0], 12) }"

lemma beacon_levels: "map_option (map (\<lambda>u. (Creator u, Level u)) \<circ> snd) beacon_top =
    Some [(0, 0), (0, 1), (0, 2), (0, 3), (1, 0), (1, 1), (1, 2), (2, 0), (1, 3), (0, 4), (0, 5), (0, 6)]"
  by code_simp

lemma beacon_add_reach:
  assumes "beacon_add (d, es) x = Some (d', es')" "dag_reach (\<lambda>_. 1) n d es"
  shows "dag_reach (\<lambda>_. 1) n d' es'"
proof -
  have "nProc d = n" using dag_reach_inv [OF assms(2)] by simp
  then show ?thesis using assms(1) dag_reach.grow [OF assms(2)] by (auto simp: beacon_add_def Let_def split: bind_splits sum.splits if_splits)
qed

lemma beacon_fold_reach:
  "go_fold beacon_add (d, es) xs = Some (d', es') \<Longrightarrow> dag_reach (\<lambda>_. 1) n d es \<Longrightarrow> dag_reach (\<lambda>_. 1) n d' es'"
  by (induction xs arbitrary: d es) (auto split: bind_split_asm intro: beacon_add_reach)

lemma beacon_hashes: "map_option (map (\<lambda>u. (Hash u, map (map_option Hash) (Parents u))) \<circ> snd) beacon_top =
    Some [([1], [None, None, None]), ([2], [Some [1], None, None]), ([3], [Some [2], None, None]), ([4], [Some [3], None, None]),
      ([5], [None, None, None]), ([6], [None, Some [5], None]), ([7], [None, Some [6], None]), ([8], [None, None, None]), ([9], [None, Some [7], Some [8]]),
      ([10], [Some [4], Some [9], Some [8]]), ([11], [Some [10], Some [9], Some [8]]), ([12], [Some [11], Some [9], Some [8]])]"
  by code_simp

lemma hash_reaches:
  assumes "wf_set n T" "inj_on Hash T" "u \<in> T" "v \<in> T" "Some (Hash v) \<in> set (map (map_option Hash) (Parents u))"
  shows "reaches u v"
proof -
  have "Some (Hash v) \<in> map_option Hash ` set (Parents u)" using assms(5) by (metis list.set_map)
  then obtain x where "x \<in> set (Parents u)" "map_option Hash x = Some (Hash v)" by (metis imageE)
  then obtain p where p: "Some p \<in> set (Parents u)" "Hash p = Hash v" by (cases x) auto
  then have "p = v" using inj_onD [OF assms(2), of p v] wf_setD(2) [OF assms(1,3) p(1)] assms(4) by simp
  then show ?thesis using p(1) by (auto intro: reaches.step)
qed

lemma u16_pos: "(0 :: u16) < 1" by simp

lemma beacon_setting:
  obtains d es u v0 v1 where "beacon_dag = Some (d, es)" "dag_reach (\<lambda>_. 1) 3 d es" "comparable_set 3 (set (es @ [u]))" "inj_on Hash (set (es @ [u]))" "no_forks (set (es @ [u]))"
    "\<forall>p. Some p \<in> set (Parents u) \<longrightarrow> p \<in> set es" "Level u = 6" "Creator u = 0"
    "filter (\<lambda>v. Above (Some u) (Some v)) (unitsOnLevel d votingLevel) = [v0, v1]" "Creator v0 = 0" "Creator v1 = 1"
proof -
  obtain d' es' where t: "beacon_top = Some (d', es')" using beacon_levels by (cases beacon_top) auto
  then obtain d es u where d: "beacon_dag = Some (d, es)" "beacon_add (d, es) (0, [5, 3, 0], 12) = Some (d', es')" "es' = es @ [u]"
    by (auto simp: beacon_top_def beacon_add_def Let_def split: bind_split_asm sum.split_asm if_split_asm)
  have r: "dag_reach (\<lambda>_. 1) 3 d es"
    by (rule beacon_fold_reach [OF d(1) [unfolded beacon_dag_def] dag_reach.start]) simp
  have r': "dag_reach (\<lambda>_. 1) 3 d' (es @ [u])" using beacon_add_reach [OF d(2) r] d(3) by simp
  have U: "units_inv 3 (es @ [u])" using dag_invD(1) dag_reach_inv [OF r'] by fastforce
  note C = units_inv_comparable [OF U] and W = units_invD(1) [OF U]
  have 1: "inj_on Hash (set (es @ [u]))" by (rule inj_onI) (rule units_invD(5) [OF U])
  have lv: "map (\<lambda>u. (Creator u, Level u)) (es @ [u]) = [(0, 0), (0, 1), (0, 2), (0, 3), (1, 0), (1, 1), (1, 2), (2, 0), (1, 3), (0, 4), (0, 5), (0, 6)]"
    using beacon_levels unfolding t d(3) by simp
  then have l: "Level u = 6" "Creator u = 0" using arg_cong [OF lv, of List.last] by simp_all
  have "distinct (map (\<lambda>u. (Creator u, Level u)) (es @ [u]))" unfolding lv by simp
  then have "inj_on (\<lambda>u. (Creator u, Level u)) (set (es @ [u]))" unfolding distinct_map by (rule conjunct2)
  then have 3: "no_forks (set (es @ [u]))" unfolding no_forks_def inj_on_def by blast
  have 5: "\<forall>p. Some p \<in> set (Parents u) \<longrightarrow> p \<in> set es"
  proof (intro allI impI)
    fix p assume p: "Some p \<in> set (Parents u)"
    then have "p \<in> set (es @ [u])" using wf_setD(2) [OF W, of u] by simp
    moreover have "p \<noteq> u" using parent_size [OF p] by auto
    ultimately show "p \<in> set es" by simp
  qed
  have "length es = 11" using arg_cong [OF lv, of length] by simp
  then obtain a0 a1 a2 v0 b0 b1 b2 c0 v1 a4 a5 where es: "es = [a0, a1, a2, v0, b0, b1, b2, c0, v1, a4, a5]" by (auto simp: length_Suc_conv numeral_eq_Suc)
  have h: "map (\<lambda>u. (Hash u, map (map_option Hash) (Parents u))) (es @ [u]) =
    [([1], [None, None, None]), ([2], [Some [1], None, None]), ([3], [Some [2], None, None]), ([4], [Some [3], None, None]),
      ([5], [None, None, None]), ([6], [None, Some [5], None]), ([7], [None, Some [6], None]), ([8], [None, None, None]), ([9], [None, Some [7], Some [8]]),
      ([10], [Some [4], Some [9], Some [8]]), ([11], [Some [10], Some [9], Some [8]]), ([12], [Some [11], Some [9], Some [8]])]"
    using beacon_hashes unfolding t d(3) by simp
  have "reaches u a5" "reaches a5 a4" "reaches a4 v0" "reaches u v1" by (rule hash_reaches [OF W 1]; use h es in \<open>simp del: set_map list.set_map\<close>)+
  then have "reaches u v0" "reaches u v1" using reaches_trans by blast+
  then have ab: "Above (Some u) (Some v0)" "Above (Some u) (Some v1)"
    using above_reaches_set [OF C 1, of u v0] above_reaches_set [OF C 1, of u v1] es by (simp_all add: Above_def)
  have p: "pids 3 = [0, 1, 2]" by code_simp
  have "unitsOnLevel d votingLevel = [v0, v1]" unfolding unitsOnLevel_eq [OF r u16_pos] es p using lv es by (simp add: level_defs)
  then have "filter (\<lambda>v. Above (Some u) (Some v)) (unitsOnLevel d votingLevel) = [v0, v1]" using ab by simp
  moreover have "Creator v0 = 0" "Creator v1 = 1" using lv es by simp_all
  ultimately show thesis by (rule that [OF d(1) r C 1 3 5 l])
qed

text \<open>A library in which keys, shares and secrets are bytes, and every key is shared correctly.\<close>

definition demo_byte :: "bytes \<Rightarrow> string + u8" where
  "demo_byte bs = (case bs of [x] \<Rightarrow> Inr x | _ \<Rightarrow> Inl ''length'')"

definition demo_lib :: "(u8, u8, u8, u8, u8) beacon_lib" where
  "demo_lib = \<lparr>DecodeTK = (\<lambda>data _ _ _. map_sum id (\<lambda>x. (x, True)) (demo_byte data)), PolyVerify = (\<lambda>_. True), CheckSecretKey = (\<lambda>_ _ _. True),
     VerifyShareTK = (\<lambda>k s _. s = k), CreateShareTK = (\<lambda>k _. Some k),
     CreateWTK = (\<lambda>tks ps. \<lparr>Threshold = 1, CreateShare = (\<lambda>_. Some (of_nat (length tks))), VerifyShare = (\<lambda>_ _. True), CombineShares = (\<lambda>ss. Some 0), VerifySignature = (\<lambda>_ _. True)\<rparr>),
     SumShares = (\<lambda>ss. map_option sum_list (those ss)), MarshalSh = (\<lambda>x. [x]), UnmarshalSh = demo_byte, MarshalSg = (\<lambda>x. [x]), MarshalSS = (\<lambda>x. [x]), UnmarshalSS = demo_byte,
     NewSharedSecret = (\<lambda>_. 0), VerifySharedSecret = (\<lambda>_ _ _. True), KeyOf = Some\<rparr>"

definition demo_beacon :: "u16 \<Rightarrow> (u8, u8, u8, u8, u8) Beacon" where
  "demo_beacon pid = New_beacon pid 3 [0, 0, 0]
     \<lparr>b_votes := [[Some (BVote None), None, None], [None, Some (BVote None), Some (BVote None)], [None, None, None]], b_tks := [Some 1, Some 5, Some 8]\<rparr>"

lemma demo_beacon_simps:
  "b_pid (demo_beacon pid) = pid" "b_nProc (demo_beacon pid) = 3" "b_p2pKeys (demo_beacon pid) = [0, 0, 0]" "b_tks (demo_beacon pid) = [Some 1, Some 5, Some 8]"
  "b_votes (demo_beacon pid) = [[Some (BVote None), None, None], [None, Some (BVote None), Some (BVote None)], [None, None, None]]"
  "length (b_subcoins (demo_beacon pid)) = 3" "length (b_wtk (demo_beacon pid)) = 3" "length (b_shareProviders (demo_beacon pid)) = 3"
  by (simp_all add: demo_beacon_def New_beacon_def)

theorem beacon_data_roundtrip_witness:
  "unmarshallVotes demo_lib (marshallVotes demo_lib [None, Some (BVote None), Some (BVote (Some 7))]) 3 = Inr [None, Some (BVote None), Some (BVote (Some 7))]
     \<and> unmarshallShares demo_lib (marshallShares demo_lib [Some 3, None, Some 4]) 3 = Inr [Some 3, None, Some 4]"
  by (rule beacon_data_roundtrip) (auto simp: demo_lib_def demo_byte_def)

lemma demo_update_multikey:
  assumes v: "filter (\<lambda>v. Above (Some u) (Some v)) (unitsOnLevel d votingLevel) = [v0, v1]" "Creator v0 = 0" "Creator v1 = 1" and "Creator u = 0" "b_nProc b = 3"
    and "b_votes b = [r0, r1, r2]" "length r0 = 3" "length r1 = 3" "length (b_tks b) = 3" "length (b_subcoins b) = 3" "length (b_wtk b) = 3" "length (b_shareProviders b) = 3"
  shows "\<exists>b'. update_multikey demo_lib b d u = Some b'"
proof -
  have p: "pids 3 = [0, 1, 2]" by code_simp
  have "r0 \<noteq> []" "r1 \<noteq> []" using assms(7,8) by auto
  then show ?thesis using assms(4-) by (simp add: update_multikey_def v p approves_def nth_opt_def put_def Let_def)
qed

lemma demo_multikey_runs:
  assumes "filter (\<lambda>v. Above (Some u) (Some v)) (unitsOnLevel d votingLevel) = [v0, v1]" "Creator v0 = 0" "Creator v1 = 1" "Creator u = 0"
  shows "\<exists>b'. update_multikey demo_lib (demo_beacon pid) d u = Some b'"
  by (rule demo_update_multikey [OF assms _ demo_beacon_simps(5)]) (simp_all add: demo_beacon_simps)


definition late_dealing :: Unit where
  "late_dealing = freeUnit (beacon_pu (2, [-1, -1, -1], 8)) [None, None, None] 0 []"

lemma unat_two: "unat (2 :: u16) = Suc (Suc 0)" by simp

lemma demo_approves:
  "approves (demo_beacon pid) 0 2 = Some False" "approves (demo_beacon pid) 1 2 = Some True"
  "approves (demo_beacon pid) 0 q = (if unat q < 3 then Some (q = 0) else None)"
  by (auto simp: approves_def demo_beacon_simps nth_opt_def less_Suc_eq numeral_3_eq_3 unat_two word_unat_eq_iff simp del: unsigned_numeral)

lemma late_dealing_simps: "Creator late_dealing = 2" "beaconData late_dealing = [8]"
  by (simp_all add: late_dealing_def beacon_pu_def bytes_of_def)

lemma demo_dealing_runs:
  "\<exists>b'. update_dealing demo_lib (demo_beacon 0) late_dealing = Some b' \<and> b_nProc b' = 3 \<and> length (b_tks b') = 3 \<and> b_subcoins b' = b_subcoins (demo_beacon 0)
     \<and> b_wtk b' = b_wtk (demo_beacon 0) \<and> b_shareProviders b' = b_shareProviders (demo_beacon 0)
     \<and> b_votes b' = [[Some (BVote None), None, Some (BVote None)], [None, Some (BVote None), Some (BVote None)], [None, None, None]]"
  by (simp add: update_dealing_def late_dealing_simps demo_beacon_simps nth_opt_def put_def demo_lib_def demo_byte_def unat_two del: unsigned_numeral)

theorem late_dealing_splits_keys_witness:
  "\<exists>d es u b1 b2 r2. beacon_dag = Some (d, es) \<and> update_dealing demo_lib (demo_beacon 0) late_dealing = Some b1 \<and> update_multikey demo_lib b1 d u = Some b2
     \<and> update_multikey demo_lib (demo_beacon 1) d u = Some r2 \<and> 2 \<in> set (b_subcoins b2 ! unat (Creator u)) \<and> 2 \<notin> set (b_subcoins r2 ! unat (Creator u))"
proof -
  obtain d es u v0 v1 where x: "beacon_dag = Some (d, es)" "dag_reach (\<lambda>_. 1) 3 d es" "comparable_set 3 (set (es @ [u]))" "inj_on Hash (set (es @ [u]))" "no_forks (set (es @ [u]))"
    "\<forall>p. Some p \<in> set (Parents u) \<longrightarrow> p \<in> set es" "Level u = 6" "Creator u = 0"
    "filter (\<lambda>v. Above (Some u) (Some v)) (unitsOnLevel d votingLevel) = [v0, v1]" "Creator v0 = 0" "Creator v1 = 1" by (rule beacon_setting)
  obtain r2 where r: "update_multikey demo_lib (demo_beacon 1) d u = Some r2" using demo_multikey_runs [OF x(9-11,8)] by blast
  obtain b1 where b1: "update_dealing demo_lib (demo_beacon 0) late_dealing = Some b1" "b_nProc b1 = 3" "length (b_tks b1) = 3" "b_subcoins b1 = b_subcoins (demo_beacon 0)"
    "b_wtk b1 = b_wtk (demo_beacon 0)" "b_shareProviders b1 = b_shareProviders (demo_beacon 0)"
    "b_votes b1 = [[Some (BVote None), None, Some (BVote None)], [None, Some (BVote None), Some (BVote None)], [None, None, None]]" using demo_dealing_runs by blast
  obtain b2 where b2: "update_multikey demo_lib b1 d u = Some b2"
    using demo_update_multikey [OF x(9-11,8) b1(2,7) _ _ b1(3)] unfolding b1(4-6) demo_beacon_simps by auto
  have "Creator late_dealing \<in> set (b_subcoins b2 ! unat (Creator u)) \<and> Creator late_dealing \<notin> set (b_subcoins r2 ! unat (Creator u))"
    by (rule late_dealing_splits_keys [OF b1(1) _ _ x(9) [symmetric] _ _ _ _ _ _ _ b2 r, of 0 8 v0])
      (simp_all add: late_dealing_simps demo_beacon_simps demo_approves x(8,10,11), simp_all add: nth_opt_def demo_lib_def demo_byte_def demo_beacon_def New_beacon_def Let_def)
  then show ?thesis using x(1) b1(1) b2 r unfolding late_dealing_simps by blast
qed

theorem beacon_shares_accepted_witness:
  "checkCompliance_beacon demo_lib (demo_beacon 1) (New_core 3 10 0)
     (freeUnit (beacon_pu (0, [7, 7, 7], 20)\<lparr>pu_rsData := Some (marshallShares demo_lib [Some 1, None, None])\<rparr>) [None, None, None] 8 []) = Some None"
proof (rule beacon_shares_accepted [where b = "demo_beacon 0" and level = 8 and parents = "[]"])
  have p: "pids 3 = [0, 1, 2]" by code_simp
  have n: "unat (1 :: u16) < 3" "unat (2 :: u16) < 3" by simp_all
  show "DataToInclude_beacon demo_lib (demo_beacon 0) [] 8 = Some (marshallShares demo_lib [Some 1, None, None])"
    by (simp add: DataToInclude_beacon_def level_defs demo_beacon_simps p demo_approves nth_opt_def, simp add: demo_lib_def)
  show "\<forall>q. q < b_nProc (demo_beacon 1) \<longrightarrow> (\<exists>a. approves (demo_beacon 1) (b_pid (demo_beacon 0)) q = Some a \<and> (a \<longrightarrow> approves (demo_beacon 0) (b_pid (demo_beacon 0)) q = Some True))"
    by (auto simp: demo_approves demo_beacon_simps word_less_nat_alt)
  show "\<forall>q. approves (demo_beacon 1) (b_pid (demo_beacon 0)) q = Some True \<longrightarrow> (\<exists>k k2 sh. nth_opt (b_tks (demo_beacon 0)) (unat q) = Some (Some k)
      \<and> nth_opt (b_tks (demo_beacon 1)) (unat q) = Some (Some k2) \<and> CreateShareTK demo_lib k (nonce_beacon 8) = Some sh \<and> VerifyShareTK demo_lib k2 sh (nonce_beacon 8))"
    by (auto simp: demo_approves demo_beacon_simps nth_opt_def demo_lib_def)
qed (simp_all add: level_defs demo_beacon_simps beacon_pu_def demo_lib_def demo_byte_def)

end
