(* ===== verification/Service.thy ===== *)
theory Service
  imports Ordering
begin

text \<open>
  The extender service (\<open>pkg/linear/extender_service.go\<close>): two goroutines around an extender. \<open>timingUnitDecider\<close> waits on the channel \<open>trigger\<close>, which \<open>Notify\<close> fills after
  units were inserted into the dag, and sends the timing rounds it finds to \<open>roundSorter\<close>, which sends the ordered units to the output. The goroutines are step relations on a record;
  channels are lists, and a step that has to wait is not enabled. The shared dag and random source grow at any time between the steps.
\<close>

section \<open>The service\<close>

text \<open>Where the two goroutines are: \<open>Sending\<close> holds a round that waits for room in the channel, \<open>Sorted\<close> units that wait for the reader of the output.\<close>

datatype decider = Idle | Deciding | Sending TimingRound | Stopped

datatype sorter = Receiving | Sorted "Unit list" | Returned

record ExtenderService =
  sv_ordering :: Extender
  sv_room :: nat
  sv_trigger :: bool
  sv_finished :: bool
  sv_timingRounds :: "TimingRound list"
  sv_roundsClosed :: bool
  sv_decider :: decider
  sv_sorter :: sorter
  sv_output :: "Unit list list"

definition NewExtenderService :: "'k conf \<Rightarrow> ExtenderService" where
  "NewExtenderService cnf =
     \<lparr>sv_ordering = NewExtender cnf, sv_room = nat (EpochLength cnf), sv_trigger = False, sv_finished = False, sv_timingRounds = [], sv_roundsClosed = False,
      sv_decider = Idle, sv_sorter = Receiving, sv_output = []\<rparr>"

definition Notify :: "ExtenderService \<Rightarrow> ExtenderService" where
  "Notify s = s\<lparr>sv_trigger := True\<rparr>"

text \<open>\<open>close\<close> of a closed channel panics.\<close>

definition Close_service :: "ExtenderService \<Rightarrow> ExtenderService go" where
  "Close_service s = (if sv_finished s then None else Some (s\<lparr>sv_finished := True\<rparr>))"

text \<open>The steps of \<open>timingUnitDecider\<close> on the dag \<open>d\<close> with the random bytes \<open>rb\<close>; when both channels of the select are ready either may be chosen.\<close>

inductive decider_step ::
  "(bytes \<Rightarrow> bytes) \<Rightarrow> randomBytes \<Rightarrow> (u16 \<Rightarrow> u16) \<Rightarrow> dagcore \<Rightarrow> ExtenderService \<Rightarrow> ExtenderService \<Rightarrow> bool" for shake rb mq d where
  wake: "sv_decider s = Idle \<Longrightarrow> sv_trigger s \<Longrightarrow> decider_step shake rb mq d s (s\<lparr>sv_trigger := False, sv_decider := Deciding\<rparr>)"
| round: "sv_decider s = Deciding \<Longrightarrow> NextRound shake rb mq d (sv_ordering s) = Some (tr, ext') \<Longrightarrow>
    decider_step shake rb mq d s (s\<lparr>sv_ordering := ext', sv_decider := (case tr of None \<Rightarrow> Idle | Some r \<Rightarrow> Sending r)\<rparr>)"
| send: "sv_decider s = Sending r \<Longrightarrow> length (sv_timingRounds s) < sv_room s \<Longrightarrow>
    decider_step shake rb mq d s (s\<lparr>sv_timingRounds := sv_timingRounds s @ [r], sv_decider := Deciding\<rparr>)"
| stop: "sv_decider s = Idle \<Longrightarrow> sv_finished s \<Longrightarrow> decider_step shake rb mq d s (s\<lparr>sv_roundsClosed := True, sv_decider := Stopped\<rparr>)"

text \<open>The steps of \<open>roundSorter\<close>; the range loop ends when the channel is closed and empty.\<close>

inductive sorter_step :: "ExtenderService \<Rightarrow> ExtenderService \<Rightarrow> bool" where
  receive: "sv_sorter s = Receiving \<Longrightarrow> sv_timingRounds s = r # rs \<Longrightarrow> sorter_step s (s\<lparr>sv_timingRounds := rs, sv_sorter := Sorted (OrderedUnits r)\<rparr>)"
| hand_over: "sv_sorter s = Sorted us \<Longrightarrow> sorter_step s (s\<lparr>sv_output := sv_output s @ [us], sv_sorter := Receiving\<rparr>)"
| return: "sv_sorter s = Receiving \<Longrightarrow> sv_timingRounds s = [] \<Longrightarrow> sv_roundsClosed s \<Longrightarrow> sorter_step s (s\<lparr>sv_sorter := Returned\<rparr>)"

text \<open>
  A service together with its dag and random bytes. An insertion makes them grow; the hook that calls \<open>Notify\<close> runs after it, and \<open>k\<close> hooks of earlier
  insertions have not run yet.
\<close>

inductive service_reach ::
  "(bytes \<Rightarrow> bytes) \<Rightarrow> randomBytes \<Rightarrow> (u16 \<Rightarrow> u16) \<Rightarrow> u16 \<Rightarrow> Unit set \<Rightarrow> 'k conf \<Rightarrow> dagcore \<Rightarrow> Unit list \<Rightarrow> randomBytes \<Rightarrow> nat \<Rightarrow> ExtenderService \<Rightarrow> bool"
  for shake R mq n T cnf where
  new: "dag_reach mq n d [] \<Longrightarrow> reveals rb R \<Longrightarrow> service_reach shake R mq n T cnf d [] rb 0 (NewExtenderService cnf)"
| insert: "service_reach shake R mq n T cnf d es rb k s \<Longrightarrow> dag_reach mq n d' (es @ [u]) \<Longrightarrow> u \<in> T \<Longrightarrow> reveals rb rb' \<Longrightarrow> reveals rb' R \<Longrightarrow>
    service_reach shake R mq n T cnf d' (es @ [u]) rb' (Suc k) s"
| notify: "service_reach shake R mq n T cnf d es rb (Suc k) s \<Longrightarrow> service_reach shake R mq n T cnf d es rb k (Notify s)"
| decide: "service_reach shake R mq n T cnf d es rb k s \<Longrightarrow> decider_step shake rb mq d s s' \<Longrightarrow> service_reach shake R mq n T cnf d es rb k s'"
| sort: "service_reach shake R mq n T cnf d es rb k s \<Longrightarrow> sorter_step s s' \<Longrightarrow> service_reach shake R mq n T cnf d es rb k s'"
| close: "service_reach shake R mq n T cnf d es rb k s \<Longrightarrow> Close_service s = Some s' \<Longrightarrow> service_reach shake R mq n T cnf d es rb k s'"

section \<open>The output refines the run of the extender\<close>

text \<open>The rounds that are on the way from the extender to the output, the oldest first.\<close>

definition in_flight :: "ExtenderService \<Rightarrow> Unit list list" where
  "in_flight s = (case sv_sorter s of Sorted us \<Rightarrow> [us] | _ \<Rightarrow> []) @ map OrderedUnits (sv_timingRounds s)
     @ (case sv_decider s of Sending r \<Rightarrow> [OrderedUnits r] | _ \<Rightarrow> [])"

lemma service_dag: "service_reach shake R mq n T cnf d es rb k s \<Longrightarrow> dag_reach mq n d es \<and> set es \<subseteq> T \<and> reveals rb R"
  by (induction rule: service_reach.induct) auto

lemma service_run:
  "service_reach shake R mq n T cnf d es rb k s \<Longrightarrow> \<exists>trs. ext_run shake R mq n T cnf (sv_ordering s) trs \<and> sv_output s @ in_flight s = map OrderedUnits trs"
proof (induction rule: service_reach.induct)
  case (new d rb)
  then show ?case using ext_run.start by (auto simp: NewExtenderService_def in_flight_def)
next
  case (notify d es rb k s)
  then show ?case by (simp add: Notify_def in_flight_def)
next
  case (decide d es rb k s s')
  then obtain trs where trs: "ext_run shake R mq n T cnf (sv_ordering s) trs" "sv_output s @ in_flight s = map OrderedUnits trs" by blast
  from decide(2) show ?case
  proof cases
    case (round tr ext')
    have "ext_run shake R mq n T cnf ext' (trs @ (case tr of None \<Rightarrow> [] | Some t \<Rightarrow> [t]))"
      using ext_run.call [OF trs(1) _ _ _ round(3)] service_dag [OF decide(1)] by blast
    moreover have "sv_output s' @ in_flight s' = map OrderedUnits (trs @ (case tr of None \<Rightarrow> [] | Some t \<Rightarrow> [t]))"
      using trs(2) round(1,2) by (simp add: in_flight_def split: option.split)
    ultimately show ?thesis using round(1) by auto
  qed (use trs in \<open>auto simp: in_flight_def\<close>)
next
  case (sort d es rb k s s')
  then show ?case by (auto simp: in_flight_def elim!: sorter_step.cases)
next
  case (close d es rb k s s')
  then show ?case by (auto simp: Close_service_def in_flight_def split: if_splits)
qed


section \<open>No notification is lost\<close>

text \<open>The last call of \<open>NextRound\<close> found nothing more to order in this dag with these random bytes.\<close>

definition settled :: "(bytes \<Rightarrow> bytes) \<Rightarrow> randomBytes \<Rightarrow> (u16 \<Rightarrow> u16) \<Rightarrow> dagcore \<Rightarrow> ExtenderService \<Rightarrow> bool" where
  "settled shake rb mq d s \<longleftrightarrow> (\<exists>ext. NextRound shake rb mq d ext = Some (None, sv_ordering s))"

lemma service_settled:
  "service_reach shake R mq n T cnf d es rb k s \<Longrightarrow> sv_decider s = Idle \<Longrightarrow> \<not> sv_trigger s \<Longrightarrow> k = 0 \<Longrightarrow> es \<noteq> [] \<Longrightarrow> settled shake rb mq d s"
proof (induction rule: service_reach.induct)
  case (notify d es rb k s)
  then show ?case by (simp add: Notify_def)
next
  case (decide d es rb k s s')
  from decide(2) show ?case
  proof cases
    case (round tr ext')
    then show ?thesis using decide(4) by (auto simp: settled_def split: option.splits)
  qed (use decide in auto)
next
  case (sort d es rb k s s')
  then show ?case by (auto simp: settled_def elim!: sorter_step.cases)
next
  case (close d es rb k s s')
  then show ?case by (auto simp: Close_service_def settled_def split: if_splits)
qed simp_all

lemma service_channel:
  "service_reach shake R mq n T cnf d es rb k s \<Longrightarrow> length (sv_timingRounds s) \<le> sv_room s \<and> (sv_roundsClosed s \<longleftrightarrow> sv_decider s = Stopped)
     \<and> (sv_sorter s = Returned \<longrightarrow> sv_timingRounds s = [] \<and> sv_roundsClosed s) \<and> sv_room s = nat (EpochLength cnf)"
proof (induction rule: service_reach.induct)
  case (decide d es rb k s s')
  from decide(2) show ?case by cases (use decide(3) in \<open>auto split: option.split\<close>)
next
  case (sort d es rb k s s')
  from sort(2) show ?case by cases (use sort(3) in auto)
qed (auto simp: NewExtenderService_def Notify_def Close_service_def split: if_splits)

text \<open>
  C5: no notification is lost. A service that has come to rest, with no notification outstanding, has sent every round of its run, and its last call of \<open>NextRound\<close>
  was on the dag and the random bytes as they are now and found no further round. And it does not come to rest earlier: as long as a goroutine has something to do it can take a step,
  if \<open>NextRound\<close> returns and the channel has room for a round at all. When both goroutines have returned after \<open>Close\<close>, no round is left behind either.
\<close>

theorem no_lost_notification:
  assumes "service_reach shake R mq n T cnf d es rb k s" "0 < EpochLength cnf" "NextRound shake rb mq d (sv_ordering s) \<noteq> None"
  shows "((\<nexists>s'. decider_step shake rb mq d s s') \<and> (\<nexists>s'. sorter_step s s') \<longrightarrow>
      (\<exists>trs. ext_run shake R mq n T cnf (sv_ordering s) trs \<and> sv_output s = map OrderedUnits trs)
      \<and> (sv_decider s = Stopped \<or> sv_decider s = Idle \<and> \<not> sv_trigger s \<and> (k = 0 \<and> es \<noteq> [] \<longrightarrow> settled shake rb mq d s)))
    \<and> (sv_sorter s = Returned \<longrightarrow> in_flight s = [])"
proof -
  note ch = service_channel [OF assms(1)]
  have flight: "in_flight s = []" if "\<nexists>s'. decider_step shake rb mq d s s'" "\<nexists>s'. sorter_step s s'"
  proof -
    have nosort: "sv_sorter s \<noteq> Sorted us" for us using that(2) sorter_step.hand_over by blast
    have empty: "sv_timingRounds s = []"
    proof (rule ccontr)
      assume ne: "sv_timingRounds s \<noteq> []"
      then obtain r rs where "sv_timingRounds s = r # rs" by (meson list.exhaust)
      moreover have "sv_sorter s = Receiving" using nosort ch ne by (cases "sv_sorter s") auto
      ultimately show False using that(2) sorter_step.receive by blast
    qed
    have "sv_decider s \<noteq> Sending r" for r
      using that(1) decider_step.send [of s r] ch assms(2) empty by (metis list.size(3) zero_less_nat_eq)
    then show ?thesis using nosort empty by (auto simp: in_flight_def split: sorter.split decider.split)
  qed
  have "sv_decider s = Stopped \<or> sv_decider s = Idle \<and> \<not> sv_trigger s \<and> (k = 0 \<and> es \<noteq> [] \<longrightarrow> settled shake rb mq d s)"
    if rest: "\<nexists>s'. decider_step shake rb mq d s s'" and fl: "in_flight s = []"
  proof (cases "sv_decider s")
    case Idle
    then have "\<not> sv_trigger s" using rest decider_step.wake by blast
    then show ?thesis using Idle service_settled [OF assms(1) Idle] by blast
  next
    case Deciding
    then show ?thesis using rest decider_step.round [of s shake rb mq d] assms(3) by fastforce
  qed (use fl in \<open>simp_all add: in_flight_def\<close>)
  moreover have "in_flight s = []" if "sv_sorter s = Returned" using that ch by (auto simp: in_flight_def split: decider.split)
  ultimately show ?thesis using flight service_run [OF assms(1)] by auto
qed

section \<open>An example\<close>

text \<open>A service on the dag of one process with four units, which are inserted before it takes a step.\<close>

definition serv_conf :: "unit conf" where
  "serv_conf = requiredByLinear\<lparr>EpochLength := 5\<rparr>"

lemma service_grows:
  "dag_reach mq n d es \<Longrightarrow> set es \<subseteq> T \<Longrightarrow> reveals rb R \<Longrightarrow> service_reach shake R mq n T cnf d es rb (length es) (NewExtenderService cnf)"
proof (induction rule: dag_reach.induct)
  case (start len epoch)
  then show ?case using service_reach.new [OF dag_reach.start [OF start(1)]] by simp
next
  case (grow d es pu ps d')
  show ?case using service_reach.insert [OF grow.IH dag_reach.grow [OF grow.hyps]] grow.prems reveals_refl by simp
qed

lemma service_notified:
  "service_reach shake R mq n T cnf d es rb k s \<Longrightarrow> 0 < k \<Longrightarrow> service_reach shake R mq n T cnf d es rb 0 (s\<lparr>sv_trigger := True\<rparr>)"
proof (induction k arbitrary: s)
  case (Suc k)
  then have "service_reach shake R mq n T cnf d es rb k (s\<lparr>sv_trigger := True\<rparr>)" using service_reach.notify by (fastforce simp: Notify_def)
  then show ?case using Suc.IH by (cases k) fastforce+
qed simp

lemma demo_NextRounds:
  "(case demo_four of None \<Rightarrow> None | Some (d, _) \<Rightarrow>
      do { (r, ext) \<leftarrow> NextRound demo_prio demo_rb demo_mq d (NewExtender serv_conf); (r', ext') \<leftarrow> NextRound demo_prio demo_rb demo_mq d ext;
           (r'', ext'') \<leftarrow> NextRound demo_prio demo_rb demo_mq d ext'; Some (r, r', r'') })
     = Some (Some (newTimingRound (demo_f 0) [None, None, None]), None, None)"
  by code_simp

lemma demo_served:
  obtains d s where "service_reach demo_prio demo_rb demo_mq 1 (set demo_T) serv_conf d demo_T demo_rb 0 s" "sv_output s = [OrderedUnits (newTimingRound (demo_f 0) [None, None, None])]"
    "sv_decider s = Idle" "\<not> sv_trigger s" "\<not> sv_finished s" "sv_sorter s = Receiving" "sv_timingRounds s = []" "\<not> sv_roundsClosed s" "NextRound demo_prio demo_rb demo_mq d (sv_ordering s) \<noteq> None"
proof -
  let ?r = "newTimingRound (demo_f 0) [None, None, None]"
  let ?reach = "\<lambda>d. service_reach demo_prio demo_rb demo_mq 1 (set demo_T) serv_conf d demo_T demo_rb 0"
  obtain d where d: "demo_four = Some (d, demo_T)" "dag_reach demo_mq 1 d demo_T" by (rule demo_four_reach)
  obtain ext ext' where n: "NextRound demo_prio demo_rb demo_mq d (NewExtender serv_conf) = Some (Some ?r, ext)" "NextRound demo_prio demo_rb demo_mq d ext = Some (None, ext')"
      "NextRound demo_prio demo_rb demo_mq d ext' \<noteq> None"
    using demo_NextRounds unfolding d(1) by (auto split: bind_split_asm)
  let ?new = "NewExtenderService serv_conf"
  have "?reach d (?new\<lparr>sv_trigger := True\<rparr>)" by (rule service_notified [OF service_grows [OF d(2) subset_refl reveals_refl]]) simp
  from service_reach.decide [OF this decider_step.wake]
  have "?reach d (?new\<lparr>sv_trigger := False, sv_decider := Deciding\<rparr>)" by (simp add: NewExtenderService_def)
  from service_reach.decide [OF this decider_step.round] n(1)
  have "?reach d (?new\<lparr>sv_ordering := ext, sv_decider := Sending ?r\<rparr>)" by (fastforce simp: NewExtenderService_def)
  from service_reach.decide [OF this decider_step.send]
  have "?reach d (?new\<lparr>sv_ordering := ext, sv_decider := Deciding, sv_timingRounds := [?r]\<rparr>)" by (fastforce simp: NewExtenderService_def serv_conf_def)
  from service_reach.decide [OF this decider_step.round] n(2)
  have "?reach d (?new\<lparr>sv_ordering := ext', sv_decider := Idle, sv_timingRounds := [?r]\<rparr>)" by (fastforce simp: NewExtenderService_def)
  from service_reach.sort [OF this sorter_step.receive]
  have "?reach d (?new\<lparr>sv_ordering := ext', sv_sorter := Sorted (OrderedUnits ?r)\<rparr>)" by (fastforce simp: NewExtenderService_def)
  from service_reach.sort [OF this sorter_step.hand_over]
  have "?reach d (?new\<lparr>sv_ordering := ext', sv_output := [OrderedUnits ?r]\<rparr>)" by (fastforce simp: NewExtenderService_def)
  from that [OF this] n(3) show thesis by (simp add: NewExtenderService_def)
qed

lemma serv_conf_ok: "conf_ok (ext_conf (NewExtender serv_conf))"
  by code_simp


theorem no_lost_notification_witness:
  "\<exists>d s. service_reach demo_prio demo_rb demo_mq 1 (set demo_T) serv_conf d demo_T demo_rb 0 s \<and> (\<exists>trs. ext_run demo_prio demo_rb demo_mq 1 (set demo_T) serv_conf (sv_ordering s) trs
     \<and> sv_output s = map OrderedUnits trs) \<and> settled demo_prio demo_rb demo_mq d s"
proof -
  obtain d s where s: "service_reach demo_prio demo_rb demo_mq 1 (set demo_T) serv_conf d demo_T demo_rb 0 s"
    "sv_decider s = Idle" "\<not> sv_trigger s" "\<not> sv_finished s" "sv_sorter s = Receiving" "sv_timingRounds s = []" "\<not> sv_roundsClosed s" "NextRound demo_prio demo_rb demo_mq d (sv_ordering s) \<noteq> None"
    by (rule demo_served)
  have "\<nexists>s'. decider_step demo_prio demo_rb demo_mq d s s'" "\<nexists>s'. sorter_step s s'" using s(2-7) by (auto elim: decider_step.cases sorter_step.cases)
  moreover have "0 < EpochLength serv_conf" by (simp add: serv_conf_def)
  ultimately have "(\<exists>trs. ext_run demo_prio demo_rb demo_mq 1 (set demo_T) serv_conf (sv_ordering s) trs \<and> sv_output s = map OrderedUnits trs) \<and> settled demo_prio demo_rb demo_mq d s"
    using no_lost_notification [OF s(1) _ s(8)] s(2) by simp
  then show ?thesis using s(1) by blast
qed

end
