(* ===== verification/Process.thy ===== *)
theory Process
  imports Beacon Service
begin

text \<open>
  The whole process (\<open>pkg/run/process.go\<close>): two orderers, one for the set-up and one for the consensus, joined by the channel of the weak threshold key, and the sink of the
  preblocks. Errors of the loggers and network servers are parameters. The keys of a configuration are values of one type; \<open>key_of\<close> says which one stands for a weak threshold key.
\<close>

section \<open>Preblocks\<close>

record 'b sink =
  sk_sent :: "'b list"
  sk_closed :: bool

text \<open>\<open>makePreblock\<close> of \<open>consensus\<close>: a send on a closed channel, and closing it again, panic.\<close>

definition makePreblock :: "nat \<Rightarrow> (bytes list \<Rightarrow> bytes \<Rightarrow> 'b) \<Rightarrow> 'k conf \<Rightarrow> 'b sink \<Rightarrow> Unit list \<Rightarrow> 'b sink go" where
  "makePreblock siglen newPreblock cnf ps us =
     do { pb \<leftarrow> ToPreblock siglen newPreblock us;
          if sk_closed ps then None
          else let ps' = ps\<lparr>sk_sent := sk_sent ps @ [pb]\<rparr>; timingUnit = List.last us
               in Some (if Level timingUnit = LastLevel cnf \<and> Epoch timingUnit = word_of_int (NumberOfEpochs cnf - 1)
                        then ps'\<lparr>sk_closed := True\<rparr> else ps') }"

section \<open>Set-up and consensus\<close>

text \<open>The goroutine of \<open>start\<close>: it waits for the key and then to be noticed on \<open>started\<close>.\<close>

datatype boot = NotStarted | Waiting | Signalling | Noticed

record ('sh, 'sg, 's, 'r, 'k) system =
  sy_wtkchan :: "('sh, 'sg) wtk option list"
  sy_wtkClosed :: bool
  sy_setup :: "('s, 'k) orderer"
  sy_consensus :: "('r, 'k) orderer"
  sy_boot :: boot

text \<open>\<open>extractHead\<close> of \<open>setup\<close>, with the beacon at that time. The channel has room for one key; a send on the full channel blocks.\<close>

definition extractHead :: "('tk, 'sh, 'sg, 'ss, 'q) Beacon \<Rightarrow> 'k conf \<Rightarrow> ('sh, 'sg) wtk option list \<Rightarrow> Unit list \<Rightarrow> ('sh, 'sg) wtk option list go" where
  "extractHead rsf cnf wtkchan us =
     (if us = [] then None
      else let head = List.last us
           in if Level head = OrderStartLevel cnf
              then do { wtkey \<leftarrow> GetWTK rsf (Creator head); if wtkchan = [] then Some [wtkey] else None }
              else None)"

text \<open>\<open>setup\<close> and \<open>consensus\<close> make the orderers; \<open>Process\<close> returns the errors.\<close>

definition Process :: "string option \<Rightarrow> string option \<Rightarrow> 'k conf \<Rightarrow> 'k conf \<Rightarrow> string + ('sh, 'sg, 's, 'r, 'k) system" where
  "Process setupErr consensusErr setupConf cnf =
     (case setupErr of
        Some e \<Rightarrow> Inl (''an error occurred while initializing setup: '' @ e)
      | None \<Rightarrow>
          (case consensusErr of
             Some e \<Rightarrow> Inl (''an error occurred while initializing consensus: '' @ e)
           | None \<Rightarrow> Inr \<lparr>sy_wtkchan = [], sy_wtkClosed = False, sy_setup = New_orderer setupConf, sy_consensus = New_orderer cnf, sy_boot = NotStarted\<rparr>))"

text \<open>\<open>NoBeacon\<close> puts a seeded key into the channel and runs the consensus alone.\<close>

definition NoBeacon :: "(u16 \<Rightarrow> u16 \<Rightarrow> int \<Rightarrow> ('sh, 'sg) wtk) \<Rightarrow> string option \<Rightarrow> 'k conf \<Rightarrow> string + ('sh, 'sg, 's, 'r, 'k) system" where
  "NoBeacon seededWTK err cnf =
     (case err of
        Some e \<Rightarrow> Inl e
      | None \<Rightarrow> Inr \<lparr>sy_wtkchan = [Some (seededWTK (NProc cnf) (Pid cnf) 2137)], sy_wtkClosed = False, sy_setup = New_orderer cnf, sy_consensus = New_orderer cnf, sy_boot = NotStarted\<rparr>)"

definition startSetup :: "('s ep_hooks dag \<Rightarrow> 's ep_hooks dag \<times> 's) \<Rightarrow> ('sh, 'sg, 's, 'r, 'k) system \<Rightarrow> ('sh, 'sg, 's, 'r, 'k) system go" where
  "startSetup nrs sy = do { ord \<leftarrow> Start nrs (sy_setup sy); Some (sy\<lparr>sy_setup := ord\<rparr>) }"

definition stopSetup :: "('sh, 'sg, 's, 'r, 'k) system \<Rightarrow> ('sh, 'sg, 's, 'r, 'k) system go" where
  "stopSetup sy =
     do { ord \<leftarrow> Stop (sy_setup sy);
          if sy_wtkClosed sy then None else Some (sy\<lparr>sy_setup := ord, sy_wtkClosed := True\<rparr>) }"

text \<open>\<open>start\<close> of \<open>consensus\<close> is called once.\<close>

definition startConsensus :: "('sh, 'sg, 's, 'r, 'k) system \<Rightarrow> ('sh, 'sg, 's, 'r, 'k) system" where
  "startConsensus sy = sy\<lparr>sy_boot := Waiting\<rparr>"

text \<open>
  The goroutine gets the key, or finds the channel closed, and then waits to be noticed; it has no step as long as the channel is open and empty. \<open>logWTK\<close> panics on a nil key. The
  random source of the consensus, a coin, is made from the key: \<open>nrs\<close>.
\<close>

definition boot_step ::
  "(('sh, 'sg) wtk \<Rightarrow> 'k) \<Rightarrow> (('sh, 'sg) wtk \<Rightarrow> 'r ep_hooks dag \<Rightarrow> 'r ep_hooks dag \<times> 'r) \<Rightarrow> ('sh, 'sg, 's, 'r, 'k) system \<Rightarrow> ('sh, 'sg, 's, 'r, 'k) system go" where
  "boot_step key_of nrs sy =
     (if sy_boot sy \<noteq> Waiting then None
      else case sy_wtkchan sy of
        [] \<Rightarrow> if sy_wtkClosed sy then Some (sy\<lparr>sy_boot := Signalling\<rparr>) else None
      | k # ks \<Rightarrow>
          do { wtkey \<leftarrow> k;
               ord \<leftarrow> Start (nrs wtkey) ((sy_consensus sy)\<lparr>ord_conf := (ord_conf (sy_consensus sy))\<lparr>WTKey := Some (key_of wtkey)\<rparr>\<rparr>);
               Some (sy\<lparr>sy_wtkchan := ks, sy_consensus := ord, sy_boot := Signalling\<rparr>) })"

text \<open>\<open>stop\<close> of \<open>consensus\<close> first waits for the goroutine.\<close>

definition stopConsensus :: "('sh, 'sg, 's, 'r, 'k) system \<Rightarrow> ('sh, 'sg, 's, 'r, 'k) system go" where
  "stopConsensus sy =
     (if sy_boot sy = Signalling
      then do { ord \<leftarrow> Stop (sy_consensus sy); Some (sy\<lparr>sy_consensus := ord, sy_boot := Noticed\<rparr>) }
      else None)"

section \<open>Stopping\<close>

lemma Start_New: "\<exists>ord c. Start nrs (New_orderer cnf) = Some ord \<and> ord_current ord = Some c \<and> \<not> finished (ep_adder c) \<and> ord_previous ord = None \<and> ord_conf ord = cnf
    \<and> ord_preblocks ord = [] \<and> ord_round_epoch ord = 0 \<and> \<not> ep_more_closed c"
  by (simp add: Start_def newEpoch_ord_def New_orderer_def newEpoch_ep_def New_adder_def Let_def split: prod.split)

lemma Stop_ok: "ord_ok ord \<Longrightarrow> \<exists>ord'. Stop ord = Some ord'"
  by (auto simp: ord_ok_def epoch_ok_def Stop_def Close_ep_def Close_def split: option.splits)

lemma Stop_unstarted: "Stop (New_orderer cnf) = None"
  by (simp add: Stop_def New_orderer_def)

text \<open>A process whose orderers run and whose key has arrived stops without a panic.\<close>

lemma stop_running:
  assumes "ord_reach t wtk nrs verify mq shake resolve (sy_setup sy)" "only_registers nrs" "ord_reach t' wtk' nrs' verify' mq' shake' resolve' (sy_consensus sy)" "only_registers nrs'"
    and "sy_boot sy = Signalling" "\<not> sy_wtkClosed sy"
  shows "\<exists>sy' sy''. stopSetup sy = Some sy' \<and> stopConsensus sy' = Some sy''"
proof -
  obtain o1 where "Stop (sy_setup sy) = Some o1" using Stop_ok [OF ord_reach_ok [OF assms(1,2)]] by blast
  moreover obtain o2 where "Stop (sy_consensus sy) = Some o2" using Stop_ok [OF ord_reach_ok [OF assms(3,4)]] by blast
  ultimately show ?thesis using assms(5,6) by (simp add: stopSetup_def stopConsensus_def)
qed


section \<open>From the rounds of extenders to the sink\<close>

text \<open>The rounds that the extender of an epoch puts out: their timing units are on consecutive levels, each the last of its round.\<close>

definition epoch_rounds :: "'k conf \<Rightarrow> EpochID \<Rightarrow> Unit list list \<Rightarrow> bool" where
  "epoch_rounds cnf e rs \<longleftrightarrow> (\<forall>j < length rs. rs ! j \<noteq> [] \<and> Level (List.last (rs ! j)) = OrderStartLevel cnf + int j \<and> Epoch (List.last (rs ! j)) = e)"

lemma sorted_last: "sorted_wrt (\<lambda>u v. \<not> P u v) xs \<Longrightarrow> x \<in> set xs \<Longrightarrow> \<forall>y \<in> set xs. P x y \<Longrightarrow> List.last xs = x"
  by (induction xs rule: rev_induct) (auto simp: sorted_wrt_append)

lemma ext_run_epoch_rounds:
  assumes L: "linear_setting shake mq n T" and c: "conf_ok (ext_conf (NewExtender cnf))" and r: "ext_run shake R mq n T cnf ext trs" and e: "\<forall>u \<in> T. Epoch u = e"
  shows "epoch_rounds cnf e (map OrderedUnits trs)" "\<And>j. j < length trs \<Longrightarrow> List.last (OrderedUnits (trs ! j)) = tu_at trs j \<and> tu_at trs j \<in> T"
proof -
  have z: "0 < ZeroVoteRoundForCommonVote cnf" using c by (simp add: ext_conf_New conf_ok_def)
  have tus: "tus_ok cnf T trs" using run_tus_ok [OF L c] ext_run_inv [OF L c r] by blast
  have "OrderedUnits (trs ! j) \<noteq> [] \<and> List.last (OrderedUnits (trs ! j)) = tu_at trs j \<and> Level (tu_at trs j) = OrderStartLevel cnf + int j \<and> Epoch (tu_at trs j) = e"
    if j: "j < length trs" for j
  proof -
    note ru = round_units [OF L z tus j]
    have cl: "parents_closed T" using L voting_setD(1) comparable_setD(1) unfolding linear_setting_def wf_set_def by blast
    have lv: "\<And>u p. u \<in> T \<Longrightarrow> Some p \<in> set (Parents u) \<Longrightarrow> Level p \<le> Level u" using L by (auto simp: linear_setting_def)
    have lev: "tu_at trs i \<in> T \<and> Level (tu_at trs i) = OrderStartLevel cnf + int i" if "i < length trs" for i using tus that by (simp add: tus_ok_def)
    have new: "\<not> reaches (tu_at trs i) (tu_at trs j)" if "i < j" for i
      using reaches_Level [OF lv cl] lev [of i] lev [OF j] that j by fastforce
    then have mem: "tu_at trs j \<in> set (OrderedUnits (trs ! j))" unfolding ru(1) by simp
    moreover have "\<forall>y \<in> set (OrderedUnits (trs ! j)). reaches (tu_at trs j) y" unfolding ru(1) by blast
    ultimately have "List.last (OrderedUnits (trs ! j)) = tu_at trs j" by (rule sorted_last [OF ru(3)])
    then show ?thesis using mem lev [OF j] e by auto
  qed
  note at = this
  show "epoch_rounds cnf e (map OrderedUnits trs)" using at by (simp add: epoch_rounds_def)
  show "j < length trs \<Longrightarrow> List.last (OrderedUnits (trs ! j)) = tu_at trs j \<and> tu_at trs j \<in> T" for j using at tus by (simp add: tus_ok_def)
qed

lemma filter_prefix: "(\<And>j. j < length xs \<Longrightarrow> P (xs ! j) \<longleftrightarrow> j < k) \<Longrightarrow> filter P xs = take k xs"
proof (induction xs arbitrary: k)
  case (Cons x xs)
  have x: "P x \<longleftrightarrow> 0 < k" using Cons.prems [of 0] by simp
  have t: "P (xs ! j) \<longleftrightarrow> j < k - 1" if "j < length xs" for j using Cons.prems [of "Suc j"] that by auto
  show ?case using Cons.IH [of "k - 1", OF t] x by (cases k) auto
qed simp

lemma filter_one: "(\<And>j. j < length xs \<Longrightarrow> P (xs ! j) \<longleftrightarrow> j = k) \<Longrightarrow> k < length xs \<Longrightarrow> filter P xs = [xs ! k]"
proof (induction xs arbitrary: k)
  case (Cons x xs)
  show ?case
  proof (cases k)
    case 0
    then have "P x" "\<forall>y \<in> set xs. \<not> P y" using Cons.prems(1) [of 0] Cons.prems(1) [of "Suc _"] by (auto simp: in_set_conv_nth)
    then show ?thesis using 0 by simp
  next
    case (Suc k')
    have "P (xs ! j) \<longleftrightarrow> j = k'" if "j < length xs" for j using Cons.prems(1) [of "Suc j"] that Suc by simp
    moreover have "\<not> P x" using Cons.prems(1) [of 0] Suc by simp
    ultimately show ?thesis using Cons.IH [of k'] Cons.prems(2) Suc by simp
  qed
qed simp

lemma epoch_rounds_filter:
  assumes "epoch_rounds cnf e rs" "LastLevel cnf = int len + OrderStartLevel cnf - 1" "1 \<le> len" "len \<le> length rs"
  shows "filter (\<lambda>r. Level (List.last r) \<le> LastLevel cnf) rs = take len rs" "filter (final_round cnf) rs = [rs ! (len - 1)]"
    "[] \<notin> set rs" "map round_epoch rs = replicate (length rs) e"
proof -
  have l: "Level (List.last (rs ! j)) = OrderStartLevel cnf + int j" "rs ! j \<noteq> []" "Epoch (List.last (rs ! j)) = e" if "j < length rs" for j
    using assms(1) that by (simp_all add: epoch_rounds_def)
  show "filter (\<lambda>r. Level (List.last r) \<le> LastLevel cnf) rs = take len rs" using l(1) assms(2) by (intro filter_prefix) auto
  show "filter (final_round cnf) rs = [rs ! (len - 1)]" using l(1) assms(2-4) by (intro filter_one) (auto simp: final_round_def)
  show "[] \<notin> set rs" using l(2) by (auto simp: in_set_conv_nth)
  show "map round_epoch rs = replicate (length rs) e" using l(3) by (intro nth_equalityI) simp_all
qed

text \<open>The rounds of the epochs one after the other.\<close>

definition all_rounds :: "nat \<Rightarrow> (nat \<Rightarrow> Unit list list) \<Rightarrow> Unit list list" where
  "all_rounds N rs = concat (map rs [0..<N])"

lemma all_rounds_Suc: "all_rounds (Suc N) rs = all_rounds N rs @ rs N"
  by (simp add: all_rounds_def)

lemma all_rounds_order:
  assumes rs: "\<And>e. e < N \<Longrightarrow> epoch_rounds cnf (of_nat e) (rs e) \<and> len \<le> length (rs e)"
    and lev: "LastLevel cnf = int len + OrderStartLevel cnf - 1" "1 \<le> len" and N: "N \<le> 2 ^ 32"
  shows "[] \<notin> set (all_rounds N rs)" "sorted (map round_epoch (all_rounds N rs))" "map round_epoch (filter (final_round cnf) (all_rounds N rs)) = map of_nat [0..<N]"
    "filter (\<lambda>r. Level (List.last r) \<le> LastLevel cnf) (all_rounds N rs) = concat (map (\<lambda>e. take len (rs e)) [0..<N])"
proof -
  have "[] \<notin> set (all_rounds M rs) \<and> sorted (map round_epoch (all_rounds M rs)) \<and> map round_epoch (filter (final_round cnf) (all_rounds M rs)) = map of_nat [0..<M]
      \<and> filter (\<lambda>r. Level (List.last r) \<le> LastLevel cnf) (all_rounds M rs) = concat (map (\<lambda>e. take len (rs e)) [0..<M])
      \<and> (\<forall>r \<in> set (all_rounds M rs). \<exists>e < M. round_epoch r = of_nat e)" if "M \<le> N" for M
    using that
  proof (induction M)
    case (Suc M)
    then have M: "epoch_rounds cnf (of_nat M) (rs M)" "len \<le> length (rs M)" using rs by auto
    note F = epoch_rounds_filter [OF M(1) lev M(2)]
    have ep: "round_epoch r = of_nat M" if "r \<in> set (rs M)" for r using F(4) that by (metis (no_types, lifting) in_set_replicate list.set_map image_eqI)
    have le: "(of_nat e :: EpochID) \<le> of_nat M" if "e < M" for e
      using that Suc.prems N by (simp add: word_le_nat_alt unat_of_nat take_bit_nat_def)
    have "sorted (map round_epoch (all_rounds M rs @ rs M))" using Suc.IH Suc.prems le ep F(4) by (fastforce simp: sorted_append)
    moreover have "round_epoch (rs M ! (len - 1)) = of_nat M" using ep M(2) lev(2) by simp
    moreover have "\<forall>r \<in> set (all_rounds (Suc M) rs). \<exists>e < Suc M. round_epoch r = of_nat e" using Suc.IH Suc.prems ep by (fastforce simp: all_rounds_Suc less_Suc_eq)
    ultimately show ?case using Suc.IH Suc.prems F(1-3) by (simp add: all_rounds_Suc)
  qed (simp add: all_rounds_def)
  then show "[] \<notin> set (all_rounds N rs)" "sorted (map round_epoch (all_rounds N rs))" "map round_epoch (filter (final_round cnf) (all_rounds N rs)) = map of_nat [0..<N]"
    "filter (\<lambda>r. Level (List.last r) \<le> LastLevel cnf) (all_rounds N rs) = concat (map (\<lambda>e. take len (rs e)) [0..<N])" by blast+
qed

definition closing :: "'k conf \<Rightarrow> Unit list \<Rightarrow> bool" where
  "closing cnf r \<longleftrightarrow> Level (List.last r) = LastLevel cnf \<and> Epoch (List.last r) = word_of_int (NumberOfEpochs cnf - 1)"

lemma go_fold_append: "go_fold f s (xs @ ys) = do { s' \<leftarrow> go_fold f s xs; go_fold f s' ys }"
  by (induction xs arbitrary: s) (auto split: bind_splits)

lemma sink_open:
  "\<not> sk_closed ps \<Longrightarrow> \<forall>r \<in> set rs. ToPreblock siglen newPreblock r \<noteq> None \<and> \<not> closing cnf r \<Longrightarrow>
   \<exists>ps'. go_fold (makePreblock siglen newPreblock cnf) ps rs = Some ps' \<and> \<not> sk_closed ps' \<and> map Some (sk_sent ps') = map Some (sk_sent ps) @ map (ToPreblock siglen newPreblock) rs"
proof (induction rs arbitrary: ps)
  case (Cons r rs)
  then obtain pb where pb: "ToPreblock siglen newPreblock r = Some pb" "\<not> closing cnf r" by auto
  then have m: "makePreblock siglen newPreblock cnf ps r = Some (ps\<lparr>sk_sent := sk_sent ps @ [pb]\<rparr>)" using Cons.prems(1) by (simp add: makePreblock_def closing_def Let_def)
  have "\<exists>ps'. go_fold (makePreblock siglen newPreblock cnf) (ps\<lparr>sk_sent := sk_sent ps @ [pb]\<rparr>) rs = Some ps' \<and> \<not> sk_closed ps'
      \<and> map Some (sk_sent ps') = map Some (sk_sent (ps\<lparr>sk_sent := sk_sent ps @ [pb]\<rparr>)) @ map (ToPreblock siglen newPreblock) rs"
    using Cons.prems by (intro Cons.IH) auto
  then show ?case using m pb(1) by simp
qed simp

lemma closing_at_end:
  assumes rs: "\<And>e. e < N \<Longrightarrow> epoch_rounds cnf (of_nat e) (rs e) \<and> len \<le> length (rs e)"
    and lev: "LastLevel cnf = int len + OrderStartLevel cnf - 1" "1 \<le> len" and N: "1 \<le> N" "N \<le> 2 ^ 32" "NumberOfEpochs cnf = int N"
  obtains pre r where "concat (map (\<lambda>e. take len (rs e)) [0..<N]) = pre @ [r]" "closing cnf r" "\<forall>x \<in> set pre. \<not> closing cnf x" "length pre = N * len - 1"
proof -
  obtain M where M: "N = Suc M" using N(1) by (cases N) auto
  obtain k where k: "len = Suc k" using lev(2) by (cases len) auto
  let ?pre = "concat (map (\<lambda>e. take len (rs e)) [0..<M]) @ take k (rs M)" and ?r = "rs M ! k"
  have at: "Level (List.last (rs e ! j)) = OrderStartLevel cnf + int j" "Epoch (List.last (rs e ! j)) = of_nat e" if "e < N" "j < length (rs e)" for e j
    using rs that by (auto simp: epoch_rounds_def)
  have ln: "len \<le> length (rs e)" if "e < N" for e using rs that by blast
  have lenM: "k < length (rs M)" using ln [of M] M k by simp
  have w: "word_of_int (NumberOfEpochs cnf - 1) = (of_nat M :: EpochID)" using N(3) M by simp
  have inj: "(of_nat e :: EpochID) \<noteq> of_nat M" if "e < M" for e
    using that N(2) M by (simp add: word_of_nat_eq_iff take_bit_nat_def)
  have "concat (map (\<lambda>e. take len (rs e)) [0..<N]) = ?pre @ [?r]" using lenM by (simp add: M k take_Suc_conv_app_nth)
  moreover have "closing cnf ?r" using at [of M k] lenM lev(1) k M w by (simp add: closing_def)
  moreover have "\<not> closing cnf x" if x: "x \<in> set ?pre" for x
  proof -
    consider e where "e < M" "x \<in> set (rs e)" | "x \<in> set (take k (rs M))" using x by (auto dest: in_set_takeD)
    then show ?thesis
    proof cases
      case 1
      then show ?thesis using at(2) [of e] inj [of e] M w by (auto simp: closing_def in_set_conv_nth)
    next
      case 2
      then obtain j where "j < k" "j < length (rs M)" "x = rs M ! j" by (auto simp: in_set_conv_nth)
      then show ?thesis using at(1) [of M j] lev(1) k M by (simp add: closing_def)
    qed
  qed
  moreover have "length ?pre = N * len - 1"
  proof -
    have "length (concat (map (\<lambda>e. take len (rs e)) [0..<j])) = j * len" if "j \<le> M" for j
      using that ln M by (induction j) auto
    then have "length (concat (map (\<lambda>e. take len (rs e)) [0..<M])) = M * len" by blast
    then show ?thesis using lenM by (simp add: M k)
  qed
  ultimately show thesis using that by blast
qed


section \<open>The key of the set-up\<close>

lemma setup_key:
  assumes ord: "ord_reach t wtk nrs verify mq shake resolve ord" "only_registers nrs" "ord_conf ord = cnf" "ord_preblocks ord = []" "ord_round_epoch ord = 0"
    and run: "linear_setting hsh mq' n T" "ext_run hsh R mq' n T cnf ext trs" "\<forall>u \<in> T. Epoch u = 0" "trs \<noteq> []"
    and conf: "conf_ok (ext_conf (NewExtender cnf))" "LastLevel cnf = OrderStartLevel cnf"
    and op: "open_for ord (map OrderedUnits trs)" and key: "GetWTK b (Creator (tr_currentTU (hd trs))) = Some k"
  shows "\<exists>ord'. handleTimingRounds ord (map OrderedUnits trs) = Some ord' \<and> go_fold (extractHead b cnf) [] (ord_preblocks ord') = Some [k]"
proof -
  let ?rs = "map OrderedUnits trs"
  have rs: "epoch_rounds cnf 0 ?rs" by (rule ext_run_epoch_rounds(1) [OF run(1) conf(1) run(2,3)])
  have "1 \<le> length ?rs" using run(4) by (cases trs) auto
  note F = epoch_rounds_filter [OF rs _ order_refl this]
  have lev: "LastLevel cnf = int 1 + OrderStartLevel cnf - 1" using conf(2) by simp
  have "sorted (ord_round_epoch ord # map round_epoch ?rs)" unfolding F(4) [OF lev] using ord(5) by simp
  moreover have "distinct (map round_epoch (filter (final_round (ord_conf ord)) ?rs))" unfolding ord(3) F(2) [OF lev] by simp
  ultimately obtain ord' where h: "handleTimingRounds ord ?rs = Some ord'" "ord_preblocks ord' = take 1 ?rs"
    using rounds_in_order [OF ord_reach_ok [OF ord(1,2)] F(3) [OF lev] _ _ op] F(1) [OF lev] ord(3,4) by auto
  obtain tr trs' where t: "trs = tr # trs'" using run(4) by (cases trs) auto
  have "OrderedUnits tr \<noteq> []" "Level (List.last (OrderedUnits tr)) = OrderStartLevel cnf" using rs t by (auto simp: epoch_rounds_def)
  moreover have "List.last (OrderedUnits tr) = tr_currentTU tr" using ext_run_epoch_rounds(2) [OF run(1) conf(1) run(2,3), of 0] t by (simp add: tu_at_def)
  ultimately have "extractHead b cnf [] (OrderedUnits tr) = Some [k]" using key t by (simp add: extractHead_def Let_def)
  then show ?thesis using h t by simp
qed

lemma ext_run_conf: "NewExtender cnf1 = NewExtender cnf2 \<Longrightarrow> ext_run hsh R mq n T cnf2 ext trs \<Longrightarrow> ext_run hsh R mq n T cnf1 ext trs"
  by (rotate_tac 1, induction rule: ext_run.induct) (auto intro: ext_run.intros simp: ext_run.start dest: sym)


section \<open>Examples\<close>

text \<open>One process and one epoch of one level, on the dag of four units.\<close>

definition run_conf :: "unit conf" where
  "run_conf = requiredByLinear\<lparr>EpochLength := 1, NumberOfEpochs := 1\<rparr>"

abbreviation run_round :: TimingRound where "run_round \<equiv> newTimingRound (demo_f 0) [None, None, None]"

lemma run_conf_facts: "conf_ok (ext_conf (NewExtender run_conf))" "LastLevel run_conf = 0" "OrderStartLevel run_conf = 0" "EpochLength run_conf = 1" "NumberOfEpochs run_conf = 1"
  by code_simp+

lemma run_ext: "\<exists>ext. ext_run demo_prio demo_rb demo_mq 1 (set demo_T) run_conf ext [run_round]"
proof -
  have "NewExtender run_conf = NewExtender (requiredByLinear :: unit conf)" by (simp add: NewExtender_def run_conf_def)
  then show ?thesis using demo_ext_run ext_run_conf by metis
qed

lemma run_T_epoch: "\<forall>u \<in> set demo_T. Epoch u = 0"
  by code_simp

lemma run_order:
  obtains ord where "ord_reach (undefined :: (unit, unit) tss) None demo_nrs (\<lambda>_ _. True) demo_mq demo_sum (ResolveMissingCommitment (\<lambda>_ _. None)) ord" "ord_conf ord = run_conf" "ord_preblocks ord = []" "ord_round_epoch ord = 0"
    "\<forall>rounds. open_for ord rounds"
proof -
  obtain ord c where o: "Start demo_nrs (New_orderer run_conf) = Some ord" "ord_current ord = Some c" "ord_previous ord = None" "ord_conf ord = run_conf" "ord_preblocks ord = []" "ord_round_epoch ord = 0" "\<not> ep_more_closed c"
    using Start_New [of demo_nrs run_conf] by blast
  have "open_for ord rounds" for rounds unfolding open_for_def using o(2,3,7) by (auto simp: deref_def split: slot.splits)
  then show thesis using that [OF ord_reach.start [OF o(1)] o(4,5,6)] by blast
qed



end
