(* ===== verification/Sessions.thy ===== *)
theory Sessions
  imports Gossip SyncWire Chunks
begin

text \<open>
  The sync protocols (\<open>pkg/sync/gossip\<close>, \<open>pkg/sync/fetch\<close>, \<open>pkg/sync/multicast\<close>). A session of one process with another is cut into stages at the points where
  it waits for the other side: each stage reads bytes that have arrived and gives the bytes it sends. Every call of the orderer is on an orderer of its
  own, since other goroutines change it in the meantime. An error of a read or write ends the session, as in the code; network and timeouts are not modelled.
\<close>

section \<open>The gossip server\<close>

text \<open>A channel is the list of what is in it; the channel \<open>tokens[pid]\<close> has room for one token, and holds it or not.\<close>

record gossip_server =
  gs_nProc :: u16
  gs_pid :: u16
  gs_requests :: "u16 list"
  gs_syncIds :: "u32 list"
  gs_tokens :: "bool list"

definition NewServer_gossip :: "'k conf \<Rightarrow> gossip_server" where
  "NewServer_gossip cnf =
     \<lparr>gs_nProc = NProc cnf, gs_pid = Pid cnf, gs_requests = [], gs_syncIds = replicate (unat (NProc cnf)) 0, gs_tokens = replicate (unat (NProc cnf)) True\<rparr>"

text \<open>A request is dropped when the channel is full.\<close>

definition request_gossip :: "gossip_server \<Rightarrow> u16 \<Rightarrow> gossip_server" where
  "request_gossip s pid = (if length (gs_requests s) < unat (gs_nProc s) then s\<lparr>gs_requests := gs_requests s @ [pid]\<rparr> else s)"

definition take_token :: "gossip_server \<Rightarrow> u16 \<Rightarrow> (bool \<times> gossip_server) go" where
  "take_token s pid =
     do { tok \<leftarrow> nth_opt (gs_tokens s) (unat pid);
          Some (if tok then (True, s\<lparr>gs_tokens := (gs_tokens s)[unat pid := False]\<rparr>) else (False, s)) }"

text \<open>The deferred send of the token would block forever on a full channel.\<close>

definition release_token :: "gossip_server \<Rightarrow> u16 \<Rightarrow> gossip_server go" where
  "release_token s pid =
     do { tok \<leftarrow> nth_opt (gs_tokens s) (unat pid);
          if tok then None else Some (s\<lparr>gs_tokens := (gs_tokens s)[unat pid := True]\<rparr>) }"

section \<open>The gossip protocol\<close>

text \<open>\<open>In\<close>: the greeting; the session ends for strangers, and when one with the same process is under way.\<close>

definition gossip_in_start :: "gossip_server \<Rightarrow> bytes \<Rightarrow> ((u16 \<times> bytes) option \<times> gossip_server) go" where
  "gossip_in_start s bs =
     do { r \<leftarrow> AcceptGreeting bs;
          case r of
            Inl _ \<Rightarrow> Some (None, s)
          | Inr ((pid, sid), rest) \<Rightarrow>
              if pid \<ge> gs_nProc s then Some (None, s)
              else do { (ok, s') \<leftarrow> take_token s pid; Some (if ok then Some (pid, rest) else None, s') } }"

text \<open>\<open>In\<close>, steps 1 to 4: the info of the orderer \<open>ord\<close> and the units of \<open>ord'\<close> that the other side lacks.\<close>

definition gossip_in_reply :: "('r, 'k) orderer \<Rightarrow> ('r, 'k) orderer \<Rightarrow> bytes \<Rightarrow> (wire_error + bytes \<times> bytes) go" where
  "gossip_in_reply ord ord' bs =
     do { r \<leftarrow> ReadDagInfos bs;
          case r of
            Inl e \<Rightarrow> Some (Inl e)
          | Inr (theirDagInfo, rest) \<Rightarrow>
              do { dagInfo \<leftarrow> WriteDagInfos (fst (GetInfo ord)) (snd (GetInfo ord));
                   us \<leftarrow> Delta ord' theirDagInfo;
                   c \<leftarrow> WriteChunk us;
                   case c of
                     Inl e \<Rightarrow> Some (Inl e)
                   | Inr chunk \<Rightarrow> Some (Inr (dagInfo @ chunk, rest)) } }"

text \<open>\<open>p.orderer.AddPreunits(pid, theirPreunitsReceived...)\<close>; a nil preunit makes it panic.\<close>

definition add_received ::
  "('sh, 'sg) tss \<Rightarrow> ('sh, 'sg) wtk option \<Rightarrow> ('r ep_hooks dag \<Rightarrow> 'r ep_hooks dag \<times> 'r) \<Rightarrow> ('k \<Rightarrow> preunit \<Rightarrow> bool) \<Rightarrow> int \<Rightarrow> u16
   \<Rightarrow> ('r, 'k) orderer \<Rightarrow> preunit option list \<Rightarrow> ('r, 'k) orderer go" where
  "add_received t wtk nrs verify now pid ord pus =
     do { us \<leftarrow> those pus; (errs, ord') \<leftarrow> ord_AddPreunits t wtk nrs verify now pid ord us; Some ord' }"

text \<open>\<open>In\<close>, steps 5 and 6.\<close>

definition gossip_in_finish ::
  "('sh, 'sg) tss \<Rightarrow> ('sh, 'sg) wtk option \<Rightarrow> ('r ep_hooks dag \<Rightarrow> 'r ep_hooks dag \<times> 'r) \<Rightarrow> ('k \<Rightarrow> preunit \<Rightarrow> bool) \<Rightarrow> int \<Rightarrow> (bytes \<Rightarrow> hash) \<Rightarrow> u16
   \<Rightarrow> ('r, 'k) orderer \<Rightarrow> bytes \<Rightarrow> ('r, 'k) orderer go" where
  "gossip_in_finish t wtk nrs verify now shake pid ord bs =
     do { r \<leftarrow> ReadChunk shake bs;
          case r of Inl _ \<Rightarrow> Some ord | Inr (pus, _) \<Rightarrow> add_received t wtk nrs verify now pid ord pus }"

text \<open>\<open>Out\<close>: a request and the token of its process; \<open>dialled\<close> tells whether \<open>Dial\<close> succeeded.\<close>

definition gossip_out_start :: "gossip_server \<Rightarrow> bool \<Rightarrow> ((u16 \<times> u32) option \<times> gossip_server) go" where
  "gossip_out_start s dialled =
     (case gs_requests s of
        [] \<Rightarrow> Some (None, s)
      | remotePid # rs \<Rightarrow>
          do { (ok, s1) \<leftarrow> take_token (s\<lparr>gs_requests := rs\<rparr>) remotePid;
               if \<not> ok then Some (None, s1)
               else if \<not> dialled then do { s2 \<leftarrow> release_token s1 remotePid; Some (None, s2) }
               else do { sid \<leftarrow> nth_opt (gs_syncIds s1) (unat remotePid);
                         Some (Some (remotePid, sid), s1\<lparr>gs_syncIds := (gs_syncIds s1)[unat remotePid := sid + 1]\<rparr>) } })"

text \<open>\<open>Out\<close>, step 2.\<close>

definition gossip_out_hello :: "gossip_server \<Rightarrow> u32 \<Rightarrow> ('r, 'k) orderer \<Rightarrow> bytes go" where
  "gossip_out_hello s sid ord = do { dagInfo \<leftarrow> WriteDagInfos (fst (GetInfo ord)) (snd (GetInfo ord)); Some (Greet (gs_pid s) sid @ dagInfo) }"

text \<open>\<open>Out\<close>, steps 3 to 5: what was received and what is sent; the former goes to \<open>add_received\<close>.\<close>

definition gossip_out_reply :: "(bytes \<Rightarrow> hash) \<Rightarrow> ('r, 'k) orderer \<Rightarrow> bytes \<Rightarrow> (wire_error + preunit option list \<times> bytes) go" where
  "gossip_out_reply shake ord bs =
     do { r \<leftarrow> ReadDagInfos bs;
          case r of
            Inl e \<Rightarrow> Some (Inl e)
          | Inr (theirDagInfo, rest) \<Rightarrow>
              do { q \<leftarrow> ReadChunk shake rest;
                   case q of
                     Inl e \<Rightarrow> Some (Inl e)
                   | Inr (theirPreunitsReceived, _) \<Rightarrow>
                       do { us \<leftarrow> Delta ord theirDagInfo;
                            c \<leftarrow> WriteChunk us;
                            case c of
                              Inl e \<Rightarrow> Some (Inl e)
                            | Inr chunk \<Rightarrow> Some (Inr (theirPreunitsReceived, chunk)) } } }"

section \<open>The fetch protocol\<close>

record fetch_server =
  fs_pid :: u16
  fs_room :: nat
  fs_requests :: "(u16 \<times> u64 list) list"
  fs_syncIds :: "u32 list"

definition NewServer_fetch :: "'k conf \<Rightarrow> fetch_server" where
  "NewServer_fetch cnf = \<lparr>fs_pid = Pid cnf, fs_room = unat (NProc cnf), fs_requests = [], fs_syncIds = replicate (unat (NProc cnf)) 0\<rparr>"

definition trigger :: "fetch_server \<Rightarrow> u16 \<Rightarrow> u64 list \<Rightarrow> fetch_server" where
  "trigger s pid ids = (if length (fs_requests s) < fs_room s then s\<lparr>fs_requests := fs_requests s @ [(pid, ids)]\<rparr> else s)"

text \<open>\<open>In\<close>: nothing is sent to strangers or after an error.\<close>

definition fetch_in :: "fetch_server \<Rightarrow> ('r, 'k) orderer \<Rightarrow> bytes \<Rightarrow> bytes go" where
  "fetch_in s ord bs =
     do { r \<leftarrow> AcceptGreeting bs;
          case r of
            Inl _ \<Rightarrow> Some []
          | Inr ((pid, sid), rest) \<Rightarrow>
              if pid \<ge> of_nat (length (fs_syncIds s)) then Some []
              else do { q \<leftarrow> receiveRequests rest;
                        case q of
                          Inl _ \<Rightarrow> Some []
                        | Inr (unitIDs, _) \<Rightarrow>
                            do { us \<leftarrow> UnitsByID ord unitIDs;
                                 c \<leftarrow> WriteChunk us;
                                 Some (case c of Inl _ \<Rightarrow> [] | Inr chunk \<Rightarrow> chunk) } } }"

definition fetch_out_start :: "fetch_server \<Rightarrow> bool \<Rightarrow> ((u16 \<times> bytes) option \<times> fetch_server) go" where
  "fetch_out_start s dialled =
     (case fs_requests s of
        [] \<Rightarrow> Some (None, s)
      | (remotePid, unitIDs) # rs \<Rightarrow>
          if \<not> dialled then Some (None, s\<lparr>fs_requests := rs\<rparr>)
          else do { sid \<leftarrow> nth_opt (fs_syncIds s) (unat remotePid);
                    Some (Some (remotePid, Greet (fs_pid s) sid @ sendRequests unitIDs),
                          s\<lparr>fs_requests := rs, fs_syncIds := (fs_syncIds s)[unat remotePid := sid + 1]\<rparr>) })"

definition fetch_out_finish ::
  "('sh, 'sg) tss \<Rightarrow> ('sh, 'sg) wtk option \<Rightarrow> ('r ep_hooks dag \<Rightarrow> 'r ep_hooks dag \<times> 'r) \<Rightarrow> ('k \<Rightarrow> preunit \<Rightarrow> bool) \<Rightarrow> int \<Rightarrow> (bytes \<Rightarrow> hash) \<Rightarrow> u16
   \<Rightarrow> ('r, 'k) orderer \<Rightarrow> bytes \<Rightarrow> ('r, 'k) orderer go" where
  "fetch_out_finish t wtk nrs verify now shake pid ord bs =
     do { r \<leftarrow> ReadChunk shake bs;
          case r of Inl _ \<Rightarrow> Some ord | Inr (pus, _) \<Rightarrow> add_received t wtk nrs verify now pid ord pus }"

section \<open>The multicast protocol\<close>

record mcast_server =
  ms_pid :: u16
  ms_nProc :: u16
  ms_room :: nat
  ms_requests :: "(bytes \<times> int) list list"

definition NewServer_mcast :: "'k conf \<Rightarrow> mcast_server" where
  "NewServer_mcast cnf = \<lparr>ms_pid = Pid cnf, ms_nProc = NProc cnf, ms_room = nat (EpochLength cnf), ms_requests = replicate (unat (NProc cnf)) []\<rparr>"

text \<open>The loop of \<open>send\<close>; on a full channel it waits until a worker takes a request, which is the result None here.\<close>

fun put_requests :: "mcast_server \<Rightarrow> bytes \<times> int \<Rightarrow> nat list \<Rightarrow> mcast_server go" where
  "put_requests s r [] = Some s"
| "put_requests s r (i # perm) =
     (if i = unat (ms_pid s) then put_requests s r perm
      else do { ch \<leftarrow> nth_opt (ms_requests s) i;
                if length ch < ms_room s then put_requests (s\<lparr>ms_requests := (ms_requests s)[i := ch @ [r]]\<rparr>) r perm else None })"

text \<open>\<open>perm\<close> is the value of \<open>rand.Perm(int(s.nProc))\<close>.\<close>

definition send_mcast :: "mcast_server \<Rightarrow> nat list \<Rightarrow> Unit \<Rightarrow> mcast_server go" where
  "send_mcast s perm u =
     (if Creator u \<noteq> ms_pid s then None
      else do { encUnit \<leftarrow> EncodeUnit (Some (preunit_of u)); put_requests s (encUnit, Height u) perm })"

definition mcast_out :: "mcast_server \<Rightarrow> u16 \<Rightarrow> bool \<Rightarrow> (bytes option \<times> mcast_server) go" where
  "mcast_out s pid dialled =
     do { ch \<leftarrow> nth_opt (ms_requests s) (unat pid);
          case ch of
            [] \<Rightarrow> Some (None, s)
          | (encUnit, height) # rs \<Rightarrow> Some (if dialled then Some encUnit else None, s\<lparr>ms_requests := (ms_requests s)[unat pid := rs]\<rparr>) }"

text \<open>\<open>In\<close>: the method \<open>Creator\<close> of a nil preunit panics.\<close>

definition mcast_in ::
  "('sh, 'sg) tss \<Rightarrow> ('sh, 'sg) wtk option \<Rightarrow> ('r ep_hooks dag \<Rightarrow> 'r ep_hooks dag \<times> 'r) \<Rightarrow> ('k \<Rightarrow> preunit \<Rightarrow> bool) \<Rightarrow> int \<Rightarrow> (bytes \<Rightarrow> hash)
   \<Rightarrow> ('r, 'k) orderer \<Rightarrow> bytes \<Rightarrow> ('r, 'k) orderer go" where
  "mcast_in t wtk nrs verify now shake ord bs =
     do { r \<leftarrow> decodePreunit shake bs;
          case r of
            Inl _ \<Rightarrow> Some ord
          | Inr (p, _) \<Rightarrow> do { pu \<leftarrow> p; (errs, ord') \<leftarrow> ord_AddPreunits t wtk nrs verify now (pu_creator pu) ord [pu]; Some ord' } }"

section \<open>One session with each process\<close>

text \<open>The workers of a gossip server: the sessions under way are the list of their processes.\<close>

inductive gossip_reach :: "'k conf \<Rightarrow> gossip_server \<Rightarrow> u16 list \<Rightarrow> bool" for cnf where
  new: "gossip_reach cnf (NewServer_gossip cnf) []"
| request: "gossip_reach cnf s act \<Longrightarrow> gossip_reach cnf (request_gossip s pid) act"
| called: "gossip_reach cnf s act \<Longrightarrow> gossip_in_start s bs = Some (r, s') \<Longrightarrow>
    gossip_reach cnf s' (case r of None \<Rightarrow> act | Some (pid, rest) \<Rightarrow> pid # act)"
| call: "gossip_reach cnf s act \<Longrightarrow> gossip_out_start s dialled = Some (r, s') \<Longrightarrow>
    gossip_reach cnf s' (case r of None \<Rightarrow> act | Some (pid, sid) \<Rightarrow> pid # act)"
| finish: "gossip_reach cnf s act \<Longrightarrow> pid \<in> set act \<Longrightarrow> release_token s pid = Some s' \<Longrightarrow> gossip_reach cnf s' (remove1 pid act)"

definition tokens_ok :: "'k conf \<Rightarrow> gossip_server \<Rightarrow> u16 list \<Rightarrow> bool" where
  "tokens_ok cnf s act \<longleftrightarrow> distinct act \<and> (\<forall>pid \<in> set act. pid < NProc cnf) \<and> gs_nProc s = NProc cnf
     \<and> length (gs_tokens s) = unat (NProc cnf) \<and> length (gs_syncIds s) = unat (NProc cnf)
     \<and> (\<forall>pid < NProc cnf. gs_tokens s ! unat pid \<longleftrightarrow> pid \<notin> set act)"

lemma take_token_ok:
  assumes "take_token s pid = Some (ok, s')" "tokens_ok cnf s act"
  shows "tokens_ok cnf s' (if ok then pid # act else act)" "ok \<longleftrightarrow> pid \<notin> set act" "pid < NProc cnf" "gs_requests s' = gs_requests s" "gs_syncIds s' = gs_syncIds s"
proof -
  have n: "pid < NProc cnf" using assms by (auto simp: take_token_def tokens_ok_def nth_opt_def word_less_nat_alt split: bind_splits if_splits)
  then show "tokens_ok cnf s' (if ok then pid # act else act)" "ok \<longleftrightarrow> pid \<notin> set act" "pid < NProc cnf" "gs_requests s' = gs_requests s" "gs_syncIds s' = gs_syncIds s"
    using assms by (auto simp: take_token_def tokens_ok_def nth_opt_def word_less_nat_alt nth_list_update word_unat_eq_iff split: bind_splits if_splits)
qed

lemma release_token_ok:
  assumes "tokens_ok cnf s act" "pid \<in> set act"
  obtains s' where "release_token s pid = Some s'" "tokens_ok cnf s' (remove1 pid act)"
  using assms that by (fastforce simp: release_token_def tokens_ok_def nth_opt_def word_less_nat_alt nth_list_update word_unat_eq_iff set_remove1_eq)

lemma tokens_ok_requests: "tokens_ok cnf (s\<lparr>gs_requests := rs\<rparr>) act \<longleftrightarrow> tokens_ok cnf s act"
  by (simp add: tokens_ok_def)

lemma gossip_reach_tokens: "gossip_reach cnf s act \<Longrightarrow> tokens_ok cnf s act"
proof (induction rule: gossip_reach.induct)
  case new
  then show ?case by (simp add: tokens_ok_def NewServer_gossip_def word_less_nat_alt)
next
  case (request s act pid)
  then show ?case by (simp add: request_gossip_def tokens_ok_requests)
next
  case (called s act bs r s')
  then show ?case by (auto simp: gossip_in_start_def split: bind_split_asm sum.split_asm if_split_asm dest!: take_token_ok(1))
next
  case (call s act dialled r s')
  show ?case
  proof (cases "gs_requests s")
    case Nil
    then show ?thesis using call by (simp add: gossip_out_start_def)
  next
    case (Cons pid rs)
    have ok: "tokens_ok cnf (s\<lparr>gs_requests := rs\<rparr>) act" using call by (simp add: tokens_ok_requests)
    obtain b s1 where t: "take_token (s\<lparr>gs_requests := rs\<rparr>) pid = Some (b, s1)" using call(2) Cons by (auto simp: gossip_out_start_def split: bind_split_asm)
    note t1 = take_token_ok [OF t ok]
    obtain s2 where "b \<longrightarrow> release_token s1 pid = Some s2 \<and> tokens_ok cnf s2 (remove1 pid (pid # act))"
      using release_token_ok [of cnf s1 "pid # act" pid] t1(1) by (metis list.set_intros(1))
    moreover have "tokens_ok cnf (s1\<lparr>gs_syncIds := (gs_syncIds s1)[i := x]\<rparr>) a \<longleftrightarrow> tokens_ok cnf s1 a" for i x a by (auto simp: tokens_ok_def)
    ultimately show ?thesis using call(2) Cons t t1(1) by (auto simp: gossip_out_start_def split: bind_split_asm if_split_asm)
  qed
next
  case (finish s act pid s')
  then show ?case using release_token_ok [of cnf s act pid] by (metis option.inject)
qed

text \<open>
  C22: a gossip server never has two sessions with one process at the same time, whoever called; and each session can return its token: neither end of it blocks or panics.
\<close>

theorem gossip_sessions_exclusive:
  assumes "gossip_reach cnf s act"
  shows "distinct act \<and> (\<forall>pid \<in> set act. pid < NProc cnf \<and> (\<exists>s'. release_token s pid = Some s')) \<and> (\<forall>bs. gossip_in_start s bs \<noteq> None)"
proof -
  note ok = gossip_reach_tokens [OF assms]
  have "\<exists>s'. release_token s pid = Some s'" if "pid \<in> set act" for pid using release_token_ok [OF ok that] by blast
  moreover have "take_token s pid \<noteq> None" if "pid < gs_nProc s" for pid
    using ok that by (simp add: take_token_def tokens_ok_def nth_opt_def word_less_nat_alt)
  then have "gossip_in_start s bs \<noteq> None" for bs
    by (fastforce simp: gossip_in_start_def AcceptGreeting_def rbind_def ReadFull_def rreturn_def not_le split: bind_splits)
  ultimately show ?thesis using ok by (simp add: tokens_ok_def)
qed

theorem gossip_sessions_exclusive_witness:
  "\<exists>s s'. gossip_in_start (NewServer_gossip demo_conf3) (Greet 1 0) = Some (Some (1, []), s) \<and> gossip_in_start s (Greet 1 5) = Some (None, s') \<and> release_token s' 1 \<noteq> None"
proof -
  let ?new = "NewServer_gossip demo_conf3" and ?s = "(NewServer_gossip demo_conf3)\<lparr>gs_tokens := [True, False, True]\<rparr>"
  have 1: "gossip_in_start ?new (Greet 1 0) = Some (Some (1, []), ?s)" "gossip_in_start ?s (Greet 1 5) = Some (None, ?s)"
    by code_simp+
  have "gossip_reach demo_conf3 ?s [1]" using gossip_reach.called [OF gossip_reach.new 1(1)] by simp
  then have "gossip_reach demo_conf3 ?s [1]" using gossip_reach.called [OF _ 1(2)] by fastforce
  from gossip_sessions_exclusive [OF this] show ?thesis using 1 by auto
qed

section \<open>A gossip session between two processes\<close>

text \<open>An orderer in the epochs \<open>e\<close> and \<open>f\<close>, with the units \<open>es\<close> and \<open>fs\<close> in their dags.\<close>

definition peer :: "(u16 \<Rightarrow> u16) \<Rightarrow> u16 \<Rightarrow> ('r, 'k) orderer \<Rightarrow> EpochID \<Rightarrow> Unit list \<Rightarrow> EpochID \<Rightarrow> Unit list \<Rightarrow> bool" where
  "peer mq n ord e es f fs \<longleftrightarrow> ord_ok ord \<and> (\<exists>p c. ord_previous ord = Some p \<and> ord_current ord = Some c \<and> ep_id p = e \<and> ep_id c = f
     \<and> dag_reach mq n (ep_dag p) es \<and> dag_reach mq n (ep_dag c) fs)"

definition still_open :: "('r, 'k) orderer \<Rightarrow> bool" where
  "still_open ord \<longleftrightarrow> (\<forall>p. ord_previous ord = Some p \<longrightarrow> \<not> WantsMoreUnits p) \<and> (\<forall>c. ord_current ord = Some c \<longrightarrow> \<not> WantsMoreUnits c)"

definition sendable :: "(bytes \<Rightarrow> hash) \<Rightarrow> Unit list \<Rightarrow> bool" where
  "sendable shake us \<longleftrightarrow> length us \<le> MaxUnitsInChunk \<and> (\<forall>u \<in> set us. Epoch u \<noteq> - 1 \<and> valid_preunit shake (preunit_of u) \<and> pu_rsData (preunit_of u) \<noteq> None)"

text \<open>The stages in the order in which the two sides of a session perform them; the outgoing side has the orderers \<open>A0\<close> and \<open>A3\<close>, the incoming side \<open>B1\<close> and \<open>B2\<close>.\<close>

definition gossip_session ::
  "(bytes \<Rightarrow> hash) \<Rightarrow> gossip_server \<Rightarrow> u32 \<Rightarrow> gossip_server \<Rightarrow> ('r, 'k) orderer \<Rightarrow> ('r, 'k) orderer \<Rightarrow> ('r, 'k) orderer \<Rightarrow> ('r, 'k) orderer
   \<Rightarrow> (preunit option list \<times> preunit option list) go" where
  "gossip_session shake s sid srv A0 B1 B2 A3 =
     do { hello \<leftarrow> gossip_out_hello s sid A0;
          (accepted, srv') \<leftarrow> gossip_in_start srv hello;
          (pid, rest) \<leftarrow> accepted;
          reply \<leftarrow> gossip_in_reply B1 B2 rest;
          (case reply of
             Inl _ \<Rightarrow> None
           | Inr (answer, _) \<Rightarrow>
               do { back \<leftarrow> gossip_out_reply shake A3 answer;
                    case back of
                      Inl _ \<Rightarrow> None
                    | Inr (received, chunk) \<Rightarrow>
                        do { r \<leftarrow> ReadChunk shake chunk;
                             case r of Inl _ \<Rightarrow> None | Inr (pus, _) \<Rightarrow> Some (received, pus) } }) }"

lemma Delta_peers:
  assumes "peer mq n A e es f fs" "still_open A" "peer mq n B e es' f fs'" "in_step es es'" "in_step fs fs'" "0 < mq n" "n \<noteq> 0"
  obtains us where "Delta B (GetInfo A) = Some us" "mset us = mset (unknown_to es es' @ unknown_to fs fs')"
proof -
  obtain p c where A: "ord_ok A" "ord_previous A = Some p" "ord_current A = Some c" "ep_id p = e" "ep_id c = f" "dag_reach mq n (ep_dag p) es" "dag_reach mq n (ep_dag c) fs"
    using assms(1) by (auto simp: peer_def)
  obtain p' c' where B: "ord_ok B" "ord_previous B = Some p'" "ord_current B = Some c'" "ep_id p' = e" "ep_id c' = f" "dag_reach mq n (ep_dag p') es'" "dag_reach mq n (ep_dag c') fs'"
    using assms(3) by (auto simp: peer_def)
  have o: "\<not> WantsMoreUnits p" "\<not> WantsMoreUnits c" using assms(2) A(2,3) by (auto simp: still_open_def)
  have ids: "ep_id p' = ep_id p" "ep_id c' = ep_id c" using A(4,5) B(4,5) by simp_all
  show thesis
    using Delta_answers [OF A(1) B(1) A(2,3) o B(2,3) ids A(6) B(6) assms(4) A(7) B(7) assms(5-7)] that by auto
qed

lemma chunk_sent:
  assumes "sendable shake vs" "mset us = mset vs'" "set vs' \<subseteq> set vs" "length vs' \<le> length vs"
  obtains bs ws where "WriteChunk us = Some (Inr bs)" "\<forall>rest. ReadChunk shake (bs @ rest) = Some (Inr (map (Some \<circ> preunit_of) ws, rest))" "mset ws = mset vs'"
    "sorted_wrt (\<lambda>u v. Epoch u \<le> Epoch v \<and> (Epoch u = Epoch v \<longrightarrow> Some v \<notin> set (Parents u))) ws"
proof -
  have s: "set us = set vs'" "length us = length vs'" using assms(2) by (metis set_mset_mset, metis size_mset)
  have ok: "\<forall>u \<in> set us. Epoch u \<noteq> - 1 \<and> valid_preunit shake (preunit_of u) \<and> pu_rsData (preunit_of u) \<noteq> None"
    using assms(1,3) s(1) by (auto simp: sendable_def)
  obtain ws where ws: "sortChunk us = Some ws" "mset ws = mset us"
      "sorted_wrt (\<lambda>u v. Epoch u \<le> Epoch v \<and> (Epoch u = Epoch v \<longrightarrow> Some v \<notin> set (Parents u))) ws" using sortChunk_sorted [of us] ok by auto
  have l: "\<not> MaxUnitsInChunk < length us" using assms(1,4) s(2) by (simp add: sendable_def)
  have r: "\<exists>bs. WriteChunk us = Some (Inr bs) \<and> ReadChunk shake (bs @ rest) = Some (Inr (map (Some \<circ> preunit_of) ws, rest))" for rest
    using WriteChunk_roundtrip [OF ok, of rest] l ws(1) by auto
  then obtain bs where bs: "WriteChunk us = Some (Inr bs)" by blast
  then have "\<forall>rest. ReadChunk shake (bs @ rest) = Some (Inr (map (Some \<circ> preunit_of) ws, rest))" using r by fastforce
  then show thesis using that [OF bs _ _ ws(3)] ws(2) assms(2) by simp
qed

lemma infos_sent:
  assumes "valid_daginfo (fst i)" "valid_daginfo (snd i)"
  obtains bs where "WriteDagInfos (fst i) (snd i) = Some bs" "\<forall>rest. ReadDagInfos (bs @ rest) = Some (Inr (i, rest))"
  using WriteDagInfos_roundtrip [OF assms] that by (metis option.inject prod.collapse)

lemma unknown_to_sub: "set (unknown_to es es') \<subseteq> set es'" "length (unknown_to es es') \<le> length es'"
  by (auto simp: unknown_to_def)


section \<open>Fetching units\<close>

text \<open>The units of an id in the dags of the epochs \<open>e\<close> and \<open>f\<close>.\<close>

definition of_id :: "EpochID \<Rightarrow> Unit list \<Rightarrow> EpochID \<Rightarrow> Unit list \<Rightarrow> u64 \<Rightarrow> Unit list" where
  "of_id e es f fs uid =
     (case DecodeID uid of (h, c, epoch) \<Rightarrow> filter (\<lambda>u. Height u = h \<and> Creator u = c) (if epoch = f then fs else if epoch = e then es else []))"

lemma bind_snd: "do { (x, y) \<leftarrow> m; Some y } = map_option snd m"
  by (cases m) auto

lemma UnitsByID_eq:
  assumes "peer mq n ord e es f fs" "0 < mq n"
  shows "UnitsByID ord ids = Some (concat (map (of_id e es f fs) ids))"
proof -
  obtain p c where ord: "ord_ok ord" "ord_previous ord = Some p" "ord_current ord = Some c" "ep_id p = e" "ep_id c = f"
      "dag_reach mq n (ep_dag p) es" "dag_reach mq n (ep_dag c) fs" using assms(1) by (auto simp: peer_def)
  have D: "dag_inv (ep_dag p) es" "dag_inv (ep_dag c) fs" using dag_reach_inv [OF ord(6) assms(2)] dag_reach_inv [OF ord(7) assms(2)] by blast+
  have E: "epochID (ep_dag p) = e" "epochID (ep_dag c) = f" "e < f" using ord(1-5) by (auto simp: ord_ok_def epoch_ok_def)
  have g: "GetByID (ep_dag p) uid = (if ep = e then filter (\<lambda>u. Height u = h \<and> Creator u = c') es else [])"
    "GetByID (ep_dag c) uid = (if ep = f then filter (\<lambda>u. Height u = h \<and> Creator u = c') fs else [])" if "DecodeID uid = (h, c', ep)" for uid h c' ep
    using GetByID_inv [OF D(1) that] GetByID_inv [OF D(2) that] E by simp_all
  show ?thesis
    by (induction ids)
      (use ord(2-5) E(3) in \<open>auto simp: getEpoch_def deref_def of_id_def g split: prod.splits\<close>)
qed

text \<open>
  A process that fetches units by their ids gets exactly the units of these ids that the other process has in its two dags, forks included, with
  parents before children, and hands them to its orderer.
\<close>

theorem fetch_complete:
  assumes "fs_requests s = (pid, ids) # rs" "unat pid < length (fs_syncIds s)" "length ids \<le> MaxUnitsInChunk"
    and "peer mq n B e es f fs" "0 < mq n" "sendable shake (concat (map (of_id e es f fs) ids))" "fs_pid s < of_nat (length (fs_syncIds srv))"
  shows "\<exists>hello s' answer us. fetch_out_start s True = Some (Some (pid, hello), s') \<and> fetch_in srv B hello = Some answer
    \<and> mset us = mset (concat (map (of_id e es f fs) ids))
    \<and> sorted_wrt (\<lambda>u v. Epoch u \<le> Epoch v \<and> (Epoch u = Epoch v \<longrightarrow> Some v \<notin> set (Parents u))) us
    \<and> fetch_out_finish t wtk nrs verify now shake pid A answer = map_option snd (ord_AddPreunits t wtk nrs verify now pid A (map preunit_of us))"
proof -
  let ?sid = "fs_syncIds s ! unat pid" and ?us = "concat (map (of_id e es f fs) ids)"
  let ?hello = "Greet (fs_pid s) ?sid @ sendRequests ids"
  obtain cb us where us: "WriteChunk ?us = Some (Inr cb)" "\<forall>rest. ReadChunk shake (cb @ rest) = Some (Inr (map (Some \<circ> preunit_of) us, rest))" "mset us = mset ?us"
      "sorted_wrt (\<lambda>u v. Epoch u \<le> Epoch v \<and> (Epoch u = Epoch v \<longrightarrow> Some v \<notin> set (Parents u))) us"
    by (rule chunk_sent [OF assms(6) HOL.refl subset_refl order_refl])
  have g: "AcceptGreeting ?hello = Some (Inr ((fs_pid s, ?sid), sendRequests ids))" using greeting_codec.dec_enc [of "(fs_pid s, ?sid)"] by simp
  have q: "receiveRequests (sendRequests ids) = Some (Inr (ids, []))" using receive_sent [of ids "[]"] assms(3) by simp
  have "fetch_in srv B ?hello = Some cb" using g q assms(7) us(1) by (simp add: fetch_in_def UnitsByID_eq [OF assms(4,5)] not_le [symmetric])
  moreover have "those (map (Some \<circ> preunit_of) us) = Some (map preunit_of us)" by (induction us) auto
  then have "fetch_out_finish t wtk nrs verify now shake pid A cb = map_option snd (ord_AddPreunits t wtk nrs verify now pid A (map preunit_of us))"
    using us(2) [rule_format, of "[]"] by (simp add: fetch_out_finish_def add_received_def bind_snd)
  moreover have "\<exists>s'. fetch_out_start s True = Some (Some (pid, ?hello), s')" using assms(1,2) by (simp add: fetch_out_start_def nth_opt_def)
  ultimately show ?thesis using us(3,4) by blast
qed

section \<open>Multicasting units\<close>

lemma put_requests_all:
  assumes "put_requests s r perm = Some s'" "distinct perm"
  shows "length (ms_requests s') = length (ms_requests s)"
    "\<forall>i < length (ms_requests s). ms_requests s' ! i = ms_requests s ! i @ (if i \<in> set perm \<and> i \<noteq> unat (ms_pid s) then [r] else [])"
  using assms by (induction s r perm rule: put_requests.induct) (auto simp: nth_opt_def nth_list_update split: bind_split_asm if_split_asm)

lemma put_requests_room:
  assumes "\<forall>i \<in> set perm. i < length (ms_requests s) \<and> length (ms_requests s ! i) < ms_room s" "distinct perm"
  shows "\<exists>s'. put_requests s r perm = Some s'"
  using assms by (induction s r perm rule: put_requests.induct) (auto simp: nth_opt_def nth_list_update)

text \<open>
  While its channels have room, a process that multicasts a unit of its own queues it once for every other process and not for itself, and a process to which
  a worker sends it hands exactly this preunit to its orderer, with its creator as the source.
\<close>

theorem multicast_delivers:
  assumes "Creator u = ms_pid s" "valid_preunit shake (preunit_of u)" "pu_rsData (preunit_of u) \<noteq> None"
    and "length (ms_requests s) = unat (ms_nProc s)" "\<forall>ch \<in> set (ms_requests s). length ch < ms_room s" "distinct perm" "set perm = {..<unat (ms_nProc s)}"
  shows "\<exists>s' bs. send_mcast s perm u = Some s' \<and> EncodeUnit (Some (preunit_of u)) = Some bs
    \<and> (\<forall>i < unat (ms_nProc s). ms_requests s' ! i = ms_requests s ! i @ (if i = unat (ms_pid s) then [] else [(bs, Height u)]))
    \<and> mcast_in t wtk nrs verify now shake ord bs = map_option snd (ord_AddPreunits t wtk nrs verify now (Creator u) ord [preunit_of u])"
proof -
  have v: "valid_unit shake (Some (preunit_of u))" using assms(2,3) by (simp add: valid_unit_def)
  obtain bs where bs: "encodeUnit (Some (preunit_of u)) = Some bs" using unit_codec.enc_total [OF v] by blast
  obtain s' where s': "put_requests s (bs, Height u) perm = Some s'" using put_requests_room [of perm s] assms(4-7) by (metis lessThan_iff nth_mem)
  have "decodePreunit shake bs = Some (Inr (Some (preunit_of u), []))" using unit_codec.dec_enc [OF v bs, of "[]"] by simp
  then have "mcast_in t wtk nrs verify now shake ord bs = map_option snd (ord_AddPreunits t wtk nrs verify now (Creator u) ord [preunit_of u])"
    by (simp add: mcast_in_def bind_snd Creator_def del: ord_AddPreunits.simps)
  moreover have "send_mcast s perm u = Some s'" using assms(1) bs s' by (simp add: send_mcast_def EncodeUnit_def)
  ultimately show ?thesis using put_requests_all [OF s' assms(6)] assms(4,7) bs by (auto simp: EncodeUnit_def)
qed

section \<open>Messages that crash a process\<close>

lemma Delta_wrong_heights:
  assumes "ord_current ord = Some c" "dag_reach mq n (ep_dag c) fs" "0 < mq n" "di_Epoch i = ep_id c" "length (di_Heights i) \<noteq> unat n"
  shows "Delta ord (Some i, j) = None"
proof -
  have D: "dag_inv (ep_dag c) fs" "nProc (ep_dag c) = n" using dag_reach_inv [OF assms(2,3)] by auto
  have "fm_width (heightUnits (ep_dag c)) = n" using dag_invD(2) [OF D(1)] D(2) by (simp add: on_height.represents_def fm_wf_def)
  then have "unitsAbove_ep c (di_Heights i) = None" using assms(5) by (simp add: unitsAbove_ep_def UnitsAbove_def fiber_above_def)
  then have "deltaResolver ord (Some i) = None" using assms(1,4) by (simp add: deltaResolver_def above_in_def split: bind_splits)
  then show ?thesis by (simp add: Delta_def)
qed

text \<open>
  C40: three messages that make the process that receives them panic, each from anyone who can connect: a description of the dag of the current
  epoch with a wrong number of heights, in gossip; a chunk with a nil unit, in gossip or fetch; a nil unit, in multicast.
\<close>

theorem sync_messages_crash:
  assumes "ord_current ord' = Some c" "dag_reach mq n (ep_dag c) fs" "0 < mq n" "di_Epoch i = ep_id c" "length (di_Heights i) \<noteq> unat n" "valid_daginfo (Some i)"
  shows "(\<exists>bs. WriteDagInfos (Some i) None = Some bs \<and> gossip_in_reply ord ord' bs = None)
    \<and> gossip_in_finish t wtk nrs verify now shake pid ord (PutUint32 1 @ PutUint64 (- 1)) = None
    \<and> fetch_out_finish t wtk nrs verify now shake pid ord (PutUint32 1 @ PutUint64 (- 1)) = None
    \<and> mcast_in t wtk nrs verify now shake ord (PutUint64 (- 1)) = None"
proof -
  obtain bs where bs: "WriteDagInfos (Some i) None = Some bs" "\<forall>rest. ReadDagInfos (bs @ rest) = Some (Inr ((Some i, None), rest))"
    using infos_sent [of "(Some i, None)"] assms(6) by (auto simp: valid_daginfo_def)
  then have "gossip_in_reply ord ord' bs = None"
    using bs(2) [rule_format, of "[]"] by (simp add: gossip_in_reply_def Delta_wrong_heights [OF assms(1-5)])
  note g = this
  have d: "decodePreunit shake (PutUint64 (- 1)) = Some (Inr (None, []))" using read_uints(3) [of "- 1" "[]"] by (simp add: decodePreunit_def rbind_Inr rreturn_def)
  then have c: "ReadChunk shake (PutUint32 1 @ PutUint64 (- 1)) = Some (Inr ([None], []))"
    by (simp add: ReadChunk_def decodeChunk_def decodeUint32_def rbind_Inr wire_simps MaxUnitsInChunk_def rreturn_def)
  show ?thesis using bs(1) g by (simp add: gossip_in_finish_def fetch_out_finish_def mcast_in_def c d add_received_def)
qed

section \<open>Two processes with a dealing unit each\<close>

definition wire_pu :: "u16 \<Rightarrow> preunit" where
  "wire_pu pid =
     (let crown = \<lparr>Heights = [-1, -1, -1], ControlHash = replicate 32 0\<rparr>
      in \<lparr>pu_creator = pid, pu_epochID = 1, pu_height = 0, pu_signature = replicate 64 0, pu_hash = computeHash demo_sum (ID 0 pid 1) crown [] (Some []),
          pu_crown = crown, pu_data = [], pu_rsData = Some []\<rparr>)"

definition wire_unit :: "u16 \<Rightarrow> Unit" where
  "wire_unit pid = freeUnit (wire_pu pid) [None, None, None] 0 []"

abbreviation wire_embedded :: "u16 \<Rightarrow> Unit" where
  "wire_embedded pid \<equiv> Embed (wire_unit pid) (New_core 3 5 1)"

lemma wire_dag:
  assumes "insert_core (New_core 3 5 1) (wire_embedded pid) = Some d"
    and "preunit_ok 3 (wire_pu pid)" "DecodeParents (New_core 3 5 1) (wire_pu pid) = Some (Inr [None, None, None])"
    and "run_checks consensusChecks (wire_unit pid) (New_core 3 5 1) = None" "BuildUnit demo_mq (wire_pu pid) [None, None, None] = wire_unit pid"
  shows "dag_reach demo_mq 3 d [wire_embedded pid]"
  using dag_reach.grow [OF dag_reach.start [of 5 demo_mq 3 1] assms(2,3)] assms(1,4,5) by simp

lemma wire_peer:
  assumes "demo_peer pid (wire_unit pid) = Some ord" "Creator (wire_unit pid) = pid" "Epoch (wire_unit pid) = 1"
    and "preunit_ok 3 (wire_pu pid)" "DecodeParents (New_core 3 5 1) (wire_pu pid) = Some (Inr [None, None, None])"
    and "run_checks consensusChecks (wire_unit pid) (New_core 3 5 1) = None" "BuildUnit demo_mq (wire_pu pid) [None, None, None] = wire_unit pid"
  shows "peer demo_mq 3 ord 0 [] 1 [wire_embedded pid]" "still_open ord"
proof -
  obtain p c where r: "ord_reach undefined None demo_nrs (\<lambda>_ _. True) demo_mq demo_sum (ResolveMissingCommitment (\<lambda>_ _. None)) ord" "ord_previous ord = Some p" "ord_current ord = Some c"
    "\<not> WantsMoreUnits p" "\<not> WantsMoreUnits c" "ep_id p = 0" "ep_id c = 1" "ep_dag p = New_core 3 5 0" "insert_core (New_core 3 5 1) (wire_embedded pid) = Some (ep_dag c)"
    by (rule demo_peer_epochs [OF assms(1-3)])
  have "dag_reach demo_mq 3 (ep_dag p) []" unfolding r(8) by (rule dag_reach.start) simp
  then show "peer demo_mq 3 ord 0 [] 1 [wire_embedded pid]" using r(2,3,6,7) wire_dag [OF r(9) assms(4-7)] ord_reach_ok [OF r(1) demo_registers] by (simp add: peer_def)
  show "still_open ord" using r(2-5) by (simp add: still_open_def)
qed

lemma wire_unit_1: "Creator (wire_unit 1) = 1" "Epoch (wire_unit 1) = 1" "preunit_ok 3 (wire_pu 1)" "DecodeParents (New_core 3 5 1) (wire_pu 1) = Some (Inr [None, None, None])"
    "run_checks consensusChecks (wire_unit 1) (New_core 3 5 1) = None" "BuildUnit demo_mq (wire_pu 1) [None, None, None] = wire_unit 1"
  by code_simp+

lemma wire_unit_2: "Creator (wire_unit 2) = 2" "Epoch (wire_unit 2) = 1" "preunit_ok 3 (wire_pu 2)" "DecodeParents (New_core 3 5 1) (wire_pu 2) = Some (Inr [None, None, None])"
    "run_checks consensusChecks (wire_unit 2) (New_core 3 5 1) = None" "BuildUnit demo_mq (wire_pu 2) [None, None, None] = wire_unit 2"
  by code_simp+

lemma wire_sendable:
  assumes "unat pid < 3" "DecodeID (ID 0 pid 1) = (0, pid, 1)" "ID 0 pid 1 \<noteq> - 1"
  shows "sendable demo_sum [wire_embedded pid]"
proof -
  have "preunit_of (wire_embedded pid) = wire_pu pid" "Epoch (wire_embedded pid) = 1" by (simp_all add: Embed_def wire_unit_def wire_pu_def Epoch_def Let_def)
  moreover have "[-1, -1, -1 :: int] ! unat pid = -1" using assms(1) by (auto simp: less_Suc_eq numeral_3_eq_3)
  ultimately show ?thesis using assms
    by (simp add: sendable_def MaxUnitsInChunk_def valid_preunit_def valid_crown_def valid_height_def HashLength_def bytes_of_def wire_pu_def UnitID_def NewPreunit_def nth_opt_def Let_def)
qed

lemma wire_sendables: "sendable demo_sum [wire_embedded 1]" "sendable demo_sum [wire_embedded 2]"
  by (rule wire_sendable; (simp; fail | code_simp))+


theorem fetch_complete_witness:
  "\<exists>B hello s' answer. demo_peer 1 (wire_unit 1) = Some B
     \<and> fetch_out_start (trigger (NewServer_fetch demo_conf3) 1 [ID 0 1 1]) True = Some (Some (1, hello), s') \<and> fetch_in (NewServer_fetch demo_conf3) B hello = Some answer
     \<and> fetch_out_finish (undefined :: (unit, unit) tss) None demo_nrs (\<lambda>_ _. True) 0 demo_sum 1 (New_orderer demo_levels) answer
         = map_option snd (ord_AddPreunits (undefined :: (unit, unit) tss) None demo_nrs (\<lambda>_ _. True) 0 1 (New_orderer demo_levels) [preunit_of (wire_embedded 1)])"
proof -
  have "demo_peer 1 (wire_unit 1) \<noteq> None" by code_simp
  then obtain B where B: "demo_peer 1 (wire_unit 1) = Some B" by blast
  note b = wire_peer [OF B wire_unit_1]
  let ?s = "trigger (NewServer_fetch demo_conf3) 1 [ID 0 1 1]"
  have 1: "DecodeID (ID 0 1 1) = (0, 1, 1)" by code_simp
  have "Height (wire_embedded 1) = 0 \<and> Creator (wire_embedded 1) = 1" by (simp add: Embed_def wire_unit_def wire_pu_def Let_def Height_def Creator_def)
  then have o: "concat (map (of_id 0 [] 1 [wire_embedded 1]) [ID 0 1 1]) = [wire_embedded 1]" by (simp add: of_id_def 1)
  have "\<exists>hello s' answer us. fetch_out_start ?s True = Some (Some (1, hello), s') \<and> fetch_in (NewServer_fetch demo_conf3) B hello = Some answer
    \<and> mset us = mset (concat (map (of_id 0 [] 1 [wire_embedded 1]) [ID 0 1 1]))
    \<and> sorted_wrt (\<lambda>u v. Epoch u \<le> Epoch v \<and> (Epoch u = Epoch v \<longrightarrow> Some v \<notin> set (Parents u))) us
    \<and> fetch_out_finish (undefined :: (unit, unit) tss) None demo_nrs (\<lambda>_ _. True) 0 demo_sum 1 (New_orderer demo_levels) answer
      = map_option snd (ord_AddPreunits (undefined :: (unit, unit) tss) None demo_nrs (\<lambda>_ _. True) 0 1 (New_orderer demo_levels) (map preunit_of us))"
    by (rule fetch_complete [where rs = "[]", OF _ _ _ b(1)])
      (use wire_sendables(1) o in \<open>simp_all add: trigger_def NewServer_fetch_def demo_conf3_def MaxUnitsInChunk_def demo_mq_def\<close>)
  then show ?thesis using B unfolding o by auto
qed

theorem multicast_delivers_witness:
  "\<exists>s' bs. send_mcast (NewServer_mcast (demo_conf3\<lparr>Pid := 1\<rparr>)) [2, 0, 1] (wire_unit 1) = Some s' \<and> ms_requests s' ! 0 = [(bs, 0)] \<and> ms_requests s' ! 1 = [] \<and> ms_requests s' ! 2 = [(bs, 0)]"
proof -
  let ?s = "NewServer_mcast (demo_conf3\<lparr>Pid := 1\<rparr>)"
  have w: "Creator (wire_unit 1) = 1" "Height (wire_unit 1) = 0" "preunit_of (wire_embedded 1) = preunit_of (wire_unit 1)"
    by (simp_all add: Embed_def wire_unit_def wire_pu_def Let_def Height_def Creator_def)
  have v: "valid_preunit demo_sum (preunit_of (wire_unit 1))" "pu_rsData (preunit_of (wire_unit 1)) \<noteq> None"
    using wire_sendables(1) w(3) by (simp_all add: sendable_def)
  have "\<exists>s' bs. send_mcast ?s [2, 0, 1] (wire_unit 1) = Some s' \<and> EncodeUnit (Some (preunit_of (wire_unit 1))) = Some bs
    \<and> (\<forall>i < unat (ms_nProc ?s). ms_requests s' ! i = ms_requests ?s ! i @ (if i = unat (ms_pid ?s) then [] else [(bs, Height (wire_unit 1))]))
    \<and> mcast_in (undefined :: (unit, unit) tss) None demo_nrs (\<lambda>_ _. True) 0 demo_sum (New_orderer demo_levels) bs
      = map_option snd (ord_AddPreunits (undefined :: (unit, unit) tss) None demo_nrs (\<lambda>_ _. True) 0 (Creator (wire_unit 1)) (New_orderer demo_levels) [preunit_of (wire_unit 1)])"
    by (rule multicast_delivers [OF _ v]) (auto simp: NewServer_mcast_def demo_conf3_def w)
  then obtain s' bs where s: "send_mcast ?s [2, 0, 1] (wire_unit 1) = Some s'"
      "\<forall>i < 3. ms_requests s' ! i = ms_requests ?s ! i @ (if i = 1 then [] else [(bs, 0)])" unfolding w by (auto simp: NewServer_mcast_def demo_conf3_def)
  have "ms_requests ?s ! 0 = []" "ms_requests ?s ! 1 = []" "ms_requests ?s ! 2 = []" by (simp_all add: NewServer_mcast_def demo_conf3_def)
  then show ?thesis using s by auto
qed

theorem sync_messages_crash_witness:
  "\<exists>B bs. demo_peer 1 (wire_unit 1) = Some B \<and> WriteDagInfos (Some \<lparr>di_Epoch = 1, di_Heights = [0, 0]\<rparr>) None = Some bs \<and> gossip_in_reply B B bs = None
     \<and> mcast_in (undefined :: (unit, unit) tss) None demo_nrs (\<lambda>_ _. True) 0 demo_sum B (PutUint64 (- 1)) = None"
proof -
  have "demo_peer 1 (wire_unit 1) \<noteq> None" by code_simp
  then obtain B where B: "demo_peer 1 (wire_unit 1) = Some B" by blast
  obtain c where c: "ord_current B = Some c" "ep_id c = 1" "dag_reach demo_mq 3 (ep_dag c) [wire_embedded 1]"
    using wire_peer(1) [OF B wire_unit_1] by (auto simp: peer_def)
  from sync_messages_crash [OF c(1,3), of "\<lparr>di_Epoch = 1, di_Heights = [0, 0]\<rparr>" B "undefined :: (unit, unit) tss" None demo_nrs "\<lambda>_ _. True" 0 demo_sum 1]
  show ?thesis using B c(2) by (auto simp: demo_mq_def valid_daginfo_def valid_height_def)
qed

end
