(* ===== verification/Rmc.thy ===== *)
theory Rmc
  imports Sessions
begin

text \<open>
  Reliable multicast of units in the setup phase (\<open>pkg/sync/rmc\<close>). A process signs one unit per unit id; a unit that a quorum signed is finished, and the check \<open>finishedRMC\<close> admits to
  the dag only finished units. The box that collects signatures (\<open>core-go/pkg/rmcbox\<close>) is a parameter: its states are of type \<open>'st\<close> and its operations a record. As in theory
  \<open>Sessions\<close>, an operation reads bytes that have arrived and gives the bytes it sends; \<open>dial\<close> gives what a process answers, or None when the connection fails.
\<close>

section \<open>Definitions\<close>

record 'st rmcbox =
  Finished :: "'st \<Rightarrow> u64 \<Rightarrow> bool"
  DataOf :: "'st \<Rightarrow> u64 \<Rightarrow> bytes"
  AcceptData :: "'st \<Rightarrow> u64 \<Rightarrow> u16 \<Rightarrow> bytes \<Rightarrow> (string + bytes) \<times> 'st"
  AcceptProof :: "'st \<Rightarrow> u64 \<Rightarrow> bytes \<Rightarrow> string option \<times> 'st"
  AcceptFinished :: "'st \<Rightarrow> u64 \<Rightarrow> u16 \<Rightarrow> bytes \<Rightarrow> (string + bytes) \<times> 'st"
  AcceptSignature :: "'st \<Rightarrow> u64 \<Rightarrow> u16 \<Rightarrow> bytes \<Rightarrow> string option \<times> 'st"
  SendSignature :: "'st \<Rightarrow> u64 \<Rightarrow> (string + bytes) \<times> 'st"
  SendFinished :: "'st \<Rightarrow> u64 \<Rightarrow> string + bytes"
  SendProof :: "'st \<Rightarrow> u64 \<Rightarrow> string + bytes"
  SendData :: "'st \<Rightarrow> u64 \<Rightarrow> bytes \<Rightarrow> (string + bytes) \<times> 'st"
  Greeting :: "u16 \<Rightarrow> u64 \<Rightarrow> u8 \<Rightarrow> bytes"
  ReadGreeting :: "bytes \<Rightarrow> string + (u16 \<times> u64 \<times> u8) \<times> bytes"

record 'st rmc_server =
  rmc_pid :: u16
  rmc_nProc :: u16
  rmc_state :: 'st
  rmc_quit :: bool

definition NewServer_rmc :: "'k conf \<Rightarrow> 'st \<Rightarrow> 'st rmc_server" where
  "NewServer_rmc cnf st = \<lparr>rmc_pid = Pid cnf, rmc_nProc = NProc cnf, rmc_state = st, rmc_quit = False\<rparr>"

definition msgSendData :: u8 where "msgSendData = 0"
definition msgSendProof :: u8 where "msgSendProof = 1"
definition msgRequestFinished :: u8 where "msgRequestFinished = 2"

lemmas msg_defs = msgSendData_def msgSendProof_def msgRequestFinished_def

text \<open>\<open>acceptData\<close>: the bytes sent back, none after an error. \<open>UnitID\<close> of a nil preunit panics.\<close>

definition acceptData :: "'st rmcbox \<Rightarrow> (bytes \<Rightarrow> hash) \<Rightarrow> 'st rmc_server \<Rightarrow> u64 \<Rightarrow> u16 \<Rightarrow> bytes \<Rightarrow> (bytes \<times> 'st rmc_server) go" where
  "acceptData B shake s uid sender bs =
     (case DecodeID uid of (_, creator, _) \<Rightarrow>
        if creator \<noteq> sender then Some ([], s)
        else (case AcceptData B (rmc_state s) uid sender bs of
                (Inl _, st) \<Rightarrow> Some ([], s\<lparr>rmc_state := st\<rparr>)
              | (Inr data, st) \<Rightarrow>
                  do { r \<leftarrow> DecodePreunit shake data;
                       case r of
                         Inl _ \<Rightarrow> Some ([], s\<lparr>rmc_state := st\<rparr>)
                       | Inr p \<Rightarrow>
                           do { pu \<leftarrow> p;
                                if uid \<noteq> UnitID pu then Some ([], s\<lparr>rmc_state := st\<rparr>)
                                else (case SendSignature B st uid of
                                        (Inl _, st') \<Rightarrow> Some ([], s\<lparr>rmc_state := st'\<rparr>)
                                      | (Inr sg, st') \<Rightarrow> Some (sg, s\<lparr>rmc_state := st'\<rparr>)) } }))"

definition acceptProof :: "'st rmcbox \<Rightarrow> 'st rmc_server \<Rightarrow> u64 \<Rightarrow> bytes \<Rightarrow> bool \<times> 'st rmc_server" where
  "acceptProof B s uid bs = (case AcceptProof B (rmc_state s) uid bs of (err, st) \<Rightarrow> (err = None, s\<lparr>rmc_state := st\<rparr>))"

definition sendFinished_rmc :: "'st rmcbox \<Rightarrow> 'st rmc_server \<Rightarrow> u64 \<Rightarrow> bytes" where
  "sendFinished_rmc B s uid =
     (if \<not> Finished B (rmc_state s) uid then []
      else (case SendFinished B (rmc_state s) uid of Inl _ \<Rightarrow> [] | Inr bs \<Rightarrow> bs))"

text \<open>\<open>in\<close>: the bytes sent back, and the preunit that goes to \<open>s.orderer.AddPreunits(pu.Creator(), pu)\<close>; nil panics.\<close>

definition rmc_in :: "'st rmcbox \<Rightarrow> (bytes \<Rightarrow> hash) \<Rightarrow> 'st rmc_server \<Rightarrow> bytes \<Rightarrow> (bytes \<times> preunit option \<times> 'st rmc_server) go" where
  "rmc_in B shake s bs =
     (case ReadGreeting B bs of
        Inl _ \<Rightarrow> Some ([], None, s)
      | Inr ((pid, uid, msgType), rest) \<Rightarrow>
          if msgType = msgSendData then do { (out, s') \<leftarrow> acceptData B shake s uid pid rest; Some (out, None, s') }
          else if msgType = msgSendProof then
            (case acceptProof B s uid rest of
               (False, s') \<Rightarrow> Some ([], None, s')
             | (True, s') \<Rightarrow>
                 do { r \<leftarrow> DecodePreunit shake (DataOf B (rmc_state s') uid);
                      case r of Inl _ \<Rightarrow> Some ([], None, s') | Inr p \<Rightarrow> do { pu \<leftarrow> p; Some ([], Some pu, s') } })
          else if msgType = msgRequestFinished then Some (sendFinished_rmc B s uid, None, s)
          else Some ([], None, s))"

section \<open>Gathering signatures\<close>

definition attemptGather :: "'st rmcbox \<Rightarrow> 'st rmc_server \<Rightarrow> bytes \<Rightarrow> u64 \<Rightarrow> u16 \<Rightarrow> bytes \<Rightarrow> string option \<times> bytes \<times> 'st rmc_server" where
  "attemptGather B s data uid recipient answer =
     (case SendData B (rmc_state s) uid data of
        (Inl e, st) \<Rightarrow> (Some e, Greeting B (rmc_pid s) uid msgSendData, s\<lparr>rmc_state := st\<rparr>)
      | (Inr bs, st) \<Rightarrow>
          (case AcceptSignature B st uid recipient answer of
             (err, st') \<Rightarrow> (err, Greeting B (rmc_pid s) uid msgSendData @ bs, s\<lparr>rmc_state := st'\<rparr>)))"

text \<open>The loop of \<open>getMemberSignature\<close> over the connections it gets; None when these do not suffice.\<close>

fun getMemberSignature :: "'st rmcbox \<Rightarrow> 'st rmc_server \<Rightarrow> bytes \<Rightarrow> u64 \<Rightarrow> u16 \<Rightarrow> bytes option list \<Rightarrow> (bool \<times> 'st rmc_server) go" where
  "getMemberSignature B s data uid recipient dials =
     (if Finished B (rmc_state s) uid then Some (False, s)
      else (case dials of
              [] \<Rightarrow> None
            | None # rest \<Rightarrow> getMemberSignature B s data uid recipient rest
            | Some answer # rest \<Rightarrow>
                (case attemptGather B s data uid recipient answer of
                   (Some _, _, s') \<Rightarrow> getMemberSignature B s' data uid recipient rest
                 | (None, _, s') \<Rightarrow> Some (True, s'))))"

declare getMemberSignature.simps [simp del]

definition sendProof :: "'st rmcbox \<Rightarrow> 'st rmc_server \<Rightarrow> u64 \<Rightarrow> string + bytes" where
  "sendProof B s uid = (case SendProof B (rmc_state s) uid of Inl e \<Rightarrow> Inl e | Inr bs \<Rightarrow> Inr (Greeting B (rmc_pid s) uid msgSendProof @ bs))"

text \<open>
  The goroutines of \<open>getCommitteeSignatures\<close>, interleaved: an entry of the schedule is the next turn of the loop of one goroutine, with the connection it gets. \<open>res\<close> holds the
  results of the goroutines that have returned.
\<close>

fun gather_turns :: "'st rmcbox \<Rightarrow> bytes \<Rightarrow> u64 \<Rightarrow> (u16 \<times> bytes option) list \<Rightarrow> 'st rmc_server \<Rightarrow> (u16 \<rightharpoonup> bool) \<Rightarrow> 'st rmc_server \<times> (u16 \<rightharpoonup> bool)" where
  "gather_turns B data uid [] s res = (s, res)"
| "gather_turns B data uid ((pid, d) # turns) s res =
     (if pid = rmc_pid s \<or> res pid \<noteq> None then gather_turns B data uid turns s res
      else if Finished B (rmc_state s) uid then gather_turns B data uid turns s (res(pid \<mapsto> False))
      else (case d of
              None \<Rightarrow> gather_turns B data uid turns s res
            | Some answer \<Rightarrow>
                (case attemptGather B s data uid pid answer of
                   (Some _, _, s') \<Rightarrow> gather_turns B data uid turns s' res
                 | (None, _, s') \<Rightarrow> gather_turns B data uid turns s' (res(pid \<mapsto> True)))))"

text \<open>None: after these turns some goroutine still tries.\<close>

definition getCommitteeSignatures :: "'st rmcbox \<Rightarrow> (u16 \<times> bytes option) list \<Rightarrow> 'st rmc_server \<Rightarrow> bytes \<Rightarrow> u64 \<Rightarrow> (bool list \<times> 'st rmc_server) go" where
  "getCommitteeSignatures B turns s data uid =
     (case gather_turns B data uid turns s Map.empty of (s', res) \<Rightarrow>
        if list_all (\<lambda>pid. pid = rmc_pid s \<or> res pid \<noteq> None) (pids (rmc_nProc s)) then Some (map (\<lambda>pid. res pid = Some True) (pids (rmc_nProc s)), s') else None)"

text \<open>\<open>multicast\<close>: the proofs it sends to the other processes once the signatures are gathered.\<close>

definition multicast :: "'st rmcbox \<Rightarrow> (u16 \<times> bytes option) list \<Rightarrow> 'st rmc_server \<Rightarrow> Unit \<Rightarrow> ((u16 \<times> (string + bytes)) list \<times> 'st rmc_server) go" where
  "multicast B turns s u =
     (let uid = UnitID (preunit_of u) in
      do { data \<leftarrow> EncodeUnit (Some (preunit_of u));
           (signedBy, s') \<leftarrow> getCommitteeSignatures B turns s data uid;
           Some (map (\<lambda>pid. (pid, sendProof B s' uid)) (filter (\<lambda>pid. pid \<noteq> rmc_pid s) (pids (rmc_nProc s))), s') })"

text \<open>\<open>send\<close>: whether the unit is multicast, in a goroutine of its own.\<close>

definition send_rmc :: "'st rmc_server \<Rightarrow> Unit \<Rightarrow> bool" where
  "send_rmc s u \<longleftrightarrow> \<not> rmc_quit s \<and> Creator u = rmc_pid s"

section \<open>The check of units\<close>

definition hashToInt64 :: "hash \<Rightarrow> int" where
  "hashToInt64 h = (\<Sum>(p, v) \<leftarrow> enumerate 0 h. uint v * 2 ^ p)"

definition fetchFinished :: "'st rmcbox \<Rightarrow> (bytes \<Rightarrow> hash) \<Rightarrow> (u16 \<Rightarrow> bytes option) \<Rightarrow> 'st rmc_server \<Rightarrow> Unit \<Rightarrow> u16 \<Rightarrow> ((string + preunit option) \<times> 'st rmc_server) go" where
  "fetchFinished B shake dial s u pid =
     (case dial pid of
        None \<Rightarrow> Some (Inl ''rmc.fetchFinishedFromAll.Dial'', s)
      | Some bs \<Rightarrow>
          (case AcceptFinished B (rmc_state s) (UnitID (preunit_of u)) (Creator u) bs of
             (Inl e, st) \<Rightarrow> Some (Inl e, s\<lparr>rmc_state := st\<rparr>)
           | (Inr data, st) \<Rightarrow>
               do { r \<leftarrow> DecodePreunit shake data;
                    Some (case r of Inl _ \<Rightarrow> Inl ''rmc.fetchFinished.DecodePreunit'' | Inr p \<Rightarrow> Inr p, s\<lparr>rmc_state := st\<rparr>) }))"

text \<open>The loop over the other processes, in the order \<open>pids\<close>; it ends as soon as a preunit was fetched.\<close>

fun fetch_from_others :: "'st rmcbox \<Rightarrow> (bytes \<Rightarrow> hash) \<Rightarrow> (u16 \<Rightarrow> bytes option) \<Rightarrow> Unit \<Rightarrow> preunit option \<Rightarrow> nat list \<Rightarrow> 'st rmc_server \<Rightarrow> (preunit option \<times> 'st rmc_server) go" where
  "fetch_from_others B shake dial u pu [] s = Some (pu, s)"
| "fetch_from_others B shake dial u pu (i # is') s =
     (if pu \<noteq> None then Some (pu, s)
      else if of_nat i = rmc_pid s \<or> of_nat i = Creator u then fetch_from_others B shake dial u pu is' s
      else do { (r, s') \<leftarrow> fetchFinished B shake dial s u (of_nat i);
                fetch_from_others B shake dial u (case r of Inl _ \<Rightarrow> None | Inr p \<Rightarrow> p) is' s' })"

text \<open>\<open>perm\<close> stands for \<open>rand.New(rand.NewSource(seed)).Perm\<close>.\<close>

definition fetchFinishedFromAll ::
  "'st rmcbox \<Rightarrow> (bytes \<Rightarrow> hash) \<Rightarrow> (u16 \<Rightarrow> bytes option) \<Rightarrow> (int \<Rightarrow> nat \<Rightarrow> nat list) \<Rightarrow> 'st rmc_server \<Rightarrow> Unit \<Rightarrow> ((string + preunit) \<times> 'st rmc_server) go" where
  "fetchFinishedFromAll B shake dial perm s u =
     do { (r, s1) \<leftarrow> fetchFinished B shake dial s u (Creator u);
          (pu, s2) \<leftarrow> fetch_from_others B shake dial u (case r of Inl _ \<Rightarrow> None | Inr p \<Rightarrow> p) (perm (hashToInt64 (Hash u)) (unat (rmc_nProc s))) s1;
          Some (case pu of None \<Rightarrow> Inl ''rmc.fetchFinishedFromAll: unable to fetch a finished unit'' | Some x \<Rightarrow> Inr x, s2) }"

text \<open>\<open>finishedRMC\<close>; \<open>Equal\<close> of a nil preunit panics.\<close>

definition finishedRMC ::
  "'st rmcbox \<Rightarrow> (bytes \<Rightarrow> hash) \<Rightarrow> (u16 \<Rightarrow> bytes option) \<Rightarrow> (int \<Rightarrow> nat \<Rightarrow> nat list) \<Rightarrow> 'st rmc_server \<Rightarrow> Unit \<Rightarrow> (gerror option \<times> 'st rmc_server) go" where
  "finishedRMC B shake dial perm s u =
     (if Creator u = rmc_pid s then Some (None, s)
      else
        let rmcID = UnitID (preunit_of u) in
        do { (r, s') \<leftarrow> (if \<not> Finished B (rmc_state s) rmcID
                          then do { (r, s') \<leftarrow> fetchFinishedFromAll B shake dial perm s u; Some (map_sum id Some r, s') }
                          else do { r \<leftarrow> DecodePreunit shake (DataOf B (rmc_state s) rmcID); Some (map_sum (\<lambda>_. ''decode'') id r, s) });
             case r of
               Inl e \<Rightarrow> Some (Some (OtherError e), s')
             | Inr p \<Rightarrow> do { pu \<leftarrow> p; Some (if \<not> Equal pu (preunit_of u) then Some (ComplianceError ''unit differs from successfully RMCd unit'') else None, s') } })"

section \<open>Finished units have no forks\<close>

text \<open>
  What is relied on of the box: in the states \<open>ok\<close>, which its operations keep, there is at most one finished value for each id in the whole committee, since two quorums of signatures have a correct
  process in common, which signs one value per id.
\<close>

definition reliable :: "'st rmcbox \<Rightarrow> ('st \<Rightarrow> bool) \<Rightarrow> (u64 \<Rightarrow> bytes) \<Rightarrow> bool" where
  "reliable B ok final \<longleftrightarrow>
     (\<forall>st uid. ok st \<longrightarrow> Finished B st uid \<longrightarrow> DataOf B st uid = final uid)
   \<and> (\<forall>st uid pid bs data. ok st \<longrightarrow> fst (AcceptFinished B st uid pid bs) = Inr data \<longrightarrow> data = final uid)
   \<and> (\<forall>st uid pid bs. ok st \<longrightarrow> ok (snd (AcceptData B st uid pid bs)) \<and> ok (snd (AcceptProof B st uid bs)) \<and> ok (snd (AcceptFinished B st uid pid bs))
        \<and> ok (snd (AcceptSignature B st uid pid bs)) \<and> ok (snd (SendSignature B st uid)) \<and> ok (snd (SendData B st uid bs)))"

lemma reliableD:
  assumes "reliable B ok final" "ok st"
  shows "Finished B st uid \<Longrightarrow> DataOf B st uid = final uid" "AcceptFinished B st uid pid bs = (Inr data, st') \<Longrightarrow> data = final uid"
    "AcceptData B st uid pid bs = (x, st') \<Longrightarrow> ok st'" "AcceptProof B st uid bs = (y, st') \<Longrightarrow> ok st'" "AcceptFinished B st uid pid bs = (z, st') \<Longrightarrow> ok st'"
    "AcceptSignature B st uid pid bs = (y, st') \<Longrightarrow> ok st'" "SendSignature B st uid = (x, st') \<Longrightarrow> ok st'" "SendData B st uid bs = (x, st') \<Longrightarrow> ok st'"
  using assms by (auto simp: reliable_def dest: spec) (metis fst_conv snd_conv)+

text \<open>The life of a server, with the units of other processes that its check has admitted.\<close>

inductive rmc_reach :: "'st rmcbox \<Rightarrow> (bytes \<Rightarrow> hash) \<Rightarrow> ('st \<Rightarrow> bool) \<Rightarrow> 'k conf \<Rightarrow> 'st rmc_server \<Rightarrow> Unit list \<Rightarrow> bool" for B shake ok cnf where
  new: "ok st \<Longrightarrow> rmc_reach B shake ok cnf (NewServer_rmc cnf st) []"
| called: "rmc_reach B shake ok cnf s acc \<Longrightarrow> rmc_in B shake s bs = Some (out, pu, s') \<Longrightarrow> rmc_reach B shake ok cnf s' acc"
| check: "rmc_reach B shake ok cnf s acc \<Longrightarrow> finishedRMC B shake dial perm s u = Some (err, s') \<Longrightarrow>
    rmc_reach B shake ok cnf s' (if err = None \<and> Creator u \<noteq> rmc_pid s then u # acc else acc)"
| gather: "rmc_reach B shake ok cnf s acc \<Longrightarrow> attemptGather B s data uid recipient answer = (e, out, s') \<Longrightarrow> rmc_reach B shake ok cnf s' acc"

lemma acceptData_ok:
  assumes "reliable B ok final" "ok (rmc_state s)" "acceptData B shake s uid sender bs = Some (out, s')"
  shows "ok (rmc_state s')"
proof -
  obtain x st y st' where st: "AcceptData B (rmc_state s) uid sender bs = (x, st)" "SendSignature B st uid = (y, st')" by (metis surj_pair)
  then have "ok st" "ok st'" using reliableD(3) [OF assms(1,2)] reliableD(7) [OF assms(1)] by blast+
  then show ?thesis using assms(2,3) st by (auto simp: acceptData_def split: prod.split_asm if_split_asm sum.split_asm bind_split_asm)
qed

lemma rmc_in_ok:
  assumes "reliable B ok final" "ok (rmc_state s)" "rmc_in B shake s bs = Some (out, pu, s')"
  shows "ok (rmc_state s')"
proof (cases "ReadGreeting B bs")
  case (Inr x)
  obtain pid uid m rest where x: "x = ((pid, uid, m), rest)" by (metis surj_pair)
  obtain e st where st: "AcceptProof B (rmc_state s) uid rest = (e, st)" by (metis surj_pair)
  then have "ok st" using reliableD(4) [OF assms(1,2)] by blast
  then show ?thesis
    using assms(2,3) Inr x st by (auto simp: rmc_in_def acceptProof_def split: if_split_asm sum.split_asm bind_split_asm bool.split_asm dest: acceptData_ok [OF assms(1,2)])
qed (use assms in \<open>simp add: rmc_in_def\<close>)

lemma attemptGather_ok:
  assumes "reliable B ok final" "ok (rmc_state s)" "attemptGather B s data uid recipient answer = (e, out, s')"
  shows "ok (rmc_state s')"
proof -
  obtain x st y st' where st: "SendData B (rmc_state s) uid data = (x, st)" "AcceptSignature B st uid recipient answer = (y, st')" by (metis surj_pair)
  then have "ok st" "ok st'" using reliableD(8) [OF assms(1,2)] reliableD(6) [OF assms(1)] by blast+
  then show ?thesis using assms(3) st by (auto simp: attemptGather_def split: sum.split_asm)
qed

lemma fetchFinished_final:
  assumes "reliable B ok final" "ok (rmc_state s)" "fetchFinished B shake dial s u pid = Some (r, s')"
  shows "ok (rmc_state s')" "r = Inr (Some pu) \<Longrightarrow> DecodePreunit shake (final (UnitID (preunit_of u))) = Some (Inr (Some pu))"
proof -
  have "ok (rmc_state s') \<and> (r = Inr (Some pu) \<longrightarrow> DecodePreunit shake (final (UnitID (preunit_of u))) = Some (Inr (Some pu)))"
  proof (cases "dial pid")
    case (Some bs)
    obtain x st where st: "AcceptFinished B (rmc_state s) (UnitID (preunit_of u)) (Creator u) bs = (x, st)" by (metis surj_pair)
    then have "ok st" "\<And>data. x = Inr data \<Longrightarrow> data = final (UnitID (preunit_of u))" using reliableD(2,5) [OF assms(1,2)] by blast+
    then show ?thesis using assms(3) Some st by (cases x) (auto simp: fetchFinished_def split: bind_split_asm sum.split_asm)
  qed (use assms in \<open>auto simp: fetchFinished_def\<close>)
  then show "ok (rmc_state s')" "r = Inr (Some pu) \<Longrightarrow> DecodePreunit shake (final (UnitID (preunit_of u))) = Some (Inr (Some pu))" by blast+
qed

lemma fetch_from_others_final:
  assumes "reliable B ok final"
  shows "fetch_from_others B shake dial u pu is' s = Some (pu', s') \<Longrightarrow> ok (rmc_state s) \<Longrightarrow> (\<forall>x. pu = Some x \<longrightarrow> DecodePreunit shake (final (UnitID (preunit_of u))) = Some (Inr (Some x))) \<Longrightarrow>
    ok (rmc_state s') \<and> (\<forall>x. pu' = Some x \<longrightarrow> DecodePreunit shake (final (UnitID (preunit_of u))) = Some (Inr (Some x)))"
proof (induction is' arbitrary: pu s)
  case (Cons i is')
  consider (got) "pu \<noteq> None" | (skip) "pu = None" "of_nat i = rmc_pid s \<or> of_nat i = Creator u" | (ask) "pu = None" "\<not> (of_nat i = rmc_pid s \<or> of_nat i = Creator u)" by blast
  then show ?case
  proof cases
    case got
    then show ?thesis using Cons.prems by simp
  next
    case skip
    then have "fetch_from_others B shake dial u pu is' s = Some (pu', s')" using Cons.prems(1) by simp
    then show ?thesis by (rule Cons.IH [OF _ Cons.prems(2,3)])
  next
    case ask
    then obtain r s1 where r: "fetchFinished B shake dial s u (of_nat i) = Some (r, s1)" "fetch_from_others B shake dial u (case r of Inl _ \<Rightarrow> None | Inr p \<Rightarrow> p) is' s1 = Some (pu', s')"
      using Cons.prems(1) by (auto split: bind_split_asm)
    have "\<forall>x. (case r of Inl _ \<Rightarrow> None | Inr p \<Rightarrow> p) = Some x \<longrightarrow> DecodePreunit shake (final (UnitID (preunit_of u))) = Some (Inr (Some x))"
      using fetchFinished_final(2) [OF assms Cons.prems(2) r(1)] by (auto split: sum.split_asm)
    then show ?thesis by (rule Cons.IH [OF r(2) fetchFinished_final(1) [OF assms Cons.prems(2) r(1)]])
  qed
qed simp

lemma map_sum_Inr_iff: "map_sum f g x = Inr y \<longleftrightarrow> (\<exists>z. x = Inr z \<and> g z = y)"
  by (cases x) auto

lemma finishedRMC_final:
  assumes "reliable B ok final" "ok (rmc_state s)" "finishedRMC B shake dial perm s u = Some (err, s')"
  shows "ok (rmc_state s')"
    "err = None \<Longrightarrow> Creator u \<noteq> rmc_pid s \<Longrightarrow> \<exists>pu. DecodePreunit shake (final (UnitID (preunit_of u))) = Some (Inr (Some pu)) \<and> Equal pu (preunit_of u)"
proof -
  let ?uid = "UnitID (preunit_of u)"
  have "ok (rmc_state s') \<and> (err = None \<longrightarrow> Creator u \<noteq> rmc_pid s \<longrightarrow> (\<exists>pu. DecodePreunit shake (final ?uid) = Some (Inr (Some pu)) \<and> Equal pu (preunit_of u)))"
  proof (cases "Creator u = rmc_pid s")
    case False
    show ?thesis
    proof (cases "Finished B (rmc_state s) ?uid")
      case True
      then have "DataOf B (rmc_state s) ?uid = final ?uid" using reliableD(1) [OF assms(1,2)] by blast
      then show ?thesis using assms(2,3) False True
        by (auto simp: finishedRMC_def Let_def map_sum_Inr_iff split: bind_split_asm sum.split_asm if_split_asm)
    next
      case nf: False
      obtain q s2 where q: "fetchFinishedFromAll B shake dial perm s u = Some (q, s2)" "s' = s2" "err = None \<Longrightarrow> \<exists>x. q = Inr x \<and> Equal x (preunit_of u)"
        using assms(3) False nf by (auto simp: finishedRMC_def Let_def map_sum_Inr_iff split: bind_split_asm sum.split_asm if_split_asm)
      obtain r s1 where f1: "fetchFinished B shake dial s u (Creator u) = Some (r, s1)"
        using q(1) by (cases "fetchFinished B shake dial s u (Creator u)") (simp_all add: fetchFinishedFromAll_def, metis surj_pair)
      define pu0 where "pu0 = (case r of Inl _ \<Rightarrow> None | Inr p \<Rightarrow> p)"
      have "do { (pu, s2) \<leftarrow> fetch_from_others B shake dial u pu0 (perm (hashToInt64 (Hash u)) (unat (rmc_nProc s))) s1;
          Some (case pu of None \<Rightarrow> Inl ''rmc.fetchFinishedFromAll: unable to fetch a finished unit'' | Some x \<Rightarrow> Inr x, s2) } = Some (q, s2)"
        using q(1) f1 by (simp add: fetchFinishedFromAll_def pu0_def)
      then obtain pu where f2: "fetch_from_others B shake dial u pu0 (perm (hashToInt64 (Hash u)) (unat (rmc_nProc s))) s1 = Some (pu, s2)"
          "(case pu of None \<Rightarrow> Inl ''rmc.fetchFinishedFromAll: unable to fetch a finished unit'' | Some x \<Rightarrow> Inr x) = q"
        by (cases "fetch_from_others B shake dial u pu0 (perm (hashToInt64 (Hash u)) (unat (rmc_nProc s))) s1") auto
      have f3: "\<forall>x. q = Inr x \<longrightarrow> pu = Some x" using f2(2) by (cases pu) auto
      have "\<forall>x. pu0 = Some x \<longrightarrow> DecodePreunit shake (final ?uid) = Some (Inr (Some x))"
        using fetchFinished_final(2) [OF assms(1,2) f1] by (auto simp: pu0_def split: sum.split_asm)
      then have "ok (rmc_state s2) \<and> (\<forall>x. pu = Some x \<longrightarrow> DecodePreunit shake (final ?uid) = Some (Inr (Some x)))"
        by (rule fetch_from_others_final [OF assms(1) f2(1) fetchFinished_final(1) [OF assms(1,2) f1]])
      then show ?thesis unfolding q(2) using f3 q(3) by blast
    qed
  qed (use assms in \<open>simp add: finishedRMC_def\<close>)
  then show "ok (rmc_state s')"
    "err = None \<Longrightarrow> Creator u \<noteq> rmc_pid s \<Longrightarrow> \<exists>pu. DecodePreunit shake (final ?uid) = Some (Inr (Some pu)) \<and> Equal pu (preunit_of u)" by blast+
qed

lemma rmc_reach_final:
  assumes "reliable B ok final"
  shows "rmc_reach B shake ok cnf s acc \<Longrightarrow> ok (rmc_state s) \<and> (\<forall>u \<in> set acc. \<exists>pu. DecodePreunit shake (final (UnitID (preunit_of u))) = Some (Inr (Some pu)) \<and> Equal pu (preunit_of u))"
proof (induction rule: rmc_reach.induct)
  case (called s acc bs out pu s')
  then show ?case using rmc_in_ok [OF assms] by blast
next
  case (check s acc dial perm u err s')
  then show ?case using finishedRMC_final [OF assms _ check(2)] by (auto split: if_split)
next
  case (gather s acc data uid recipient answer e out s')
  then show ?case using attemptGather_ok [OF assms] by blast
qed (simp add: NewServer_rmc_def)


section \<open>What a process signs, and what it delivers\<close>

lemma decoded_id:
  assumes "DecodePreunit shake data = Some (Inr (Some pu))"
  shows "DecodeID (UnitID pu) = (pu_height pu, pu_creator pu, pu_epochID pu)"
proof -
  obtain uid crown udata rs sg where "NewPreunit shake uid crown udata rs sg = Some pu"
    using assms by (auto simp: DecodePreunit_def decodePreunit_def rbind_def rreturn_def rfail_def rpanic_def ReadFull_def read_u64_def read_u32_def map_sum_Inr_iff
        split: option.split_asm sum.split_asm if_split_asm prod.split_asm)
  then have "DecodeID uid = (pu_height pu, pu_creator pu, pu_epochID pu)" by (auto simp: NewPreunit_def split: prod.split_asm bind_split_asm if_split_asm)
  then show ?thesis using ID_DecodeID_lemma by (simp add: UnitID_def)
qed

text \<open>
  A process signs only what it can check: when it answers data at all, the data is a well-formed unit, made by the process that sent it, and the id it is signed under is the id of that unit.
\<close>

theorem signs_only_units_of_sender:
  assumes "acceptData B shake s uid sender bs = Some (out, s')" "out \<noteq> []"
  shows "\<exists>data pu. fst (AcceptData B (rmc_state s) uid sender bs) = Inr data \<and> DecodePreunit shake data = Some (Inr (Some pu)) \<and> UnitID pu = uid \<and> pu_creator pu = sender"
proof -
  obtain h c e where d: "DecodeID uid = (h, c, e)" by (metis surj_pair)
  obtain data st pu where a: "AcceptData B (rmc_state s) uid sender bs = (Inr data, st)" "DecodePreunit shake data = Some (Inr (Some pu))" "uid = UnitID pu" "c = sender"
    using assms d by (auto simp: acceptData_def split: if_split_asm sum.split_asm prod.split_asm bind_split_asm)
  then show ?thesis using decoded_id [OF a(2)] d by auto
qed

text \<open>
  A unit that was multicast is delivered: a process that accepts the proof for the data of a unit hands exactly this unit to its orderer, and its check then admits it.
\<close>

theorem rmc_delivers:
  assumes "valid_preunit shake (preunit_of u)" "pu_rsData (preunit_of u) \<noteq> None" "EncodeUnit (Some (preunit_of u)) = Some data"
    and "ReadGreeting B bs = Inr ((pid, UnitID (preunit_of u), msgSendProof), rest)" "AcceptProof B (rmc_state s) (UnitID (preunit_of u)) rest = (None, st)"
    and "DataOf B st (UnitID (preunit_of u)) = data" "Finished B st (UnitID (preunit_of u))"
  shows "\<exists>s'. rmc_in B shake s bs = Some ([], Some (preunit_of u), s') \<and> finishedRMC B shake dial perm s' u = Some (None, s')"
proof -
  have v: "valid_unit shake (Some (preunit_of u))" using assms(1,2) by (simp add: valid_unit_def)
  have "decodePreunit shake data = Some (Inr (Some (preunit_of u), []))" using unit_codec.dec_enc [OF v, of data "[]"] assms(3) by (simp add: EncodeUnit_def)
  then have "DecodePreunit shake data = Some (Inr (Some (preunit_of u)))" by (simp add: DecodePreunit_def)
  then show ?thesis using assms(4-7) by (auto simp: rmc_in_def acceptProof_def finishedRMC_def msg_defs Equal_def Let_def)
qed

text \<open>The turns of one goroutine are those of \<open>getMemberSignature\<close>; once the box is finished, one more turn of every goroutine ends the gathering.\<close>

lemma attemptGather_pid: "attemptGather B s data uid recipient answer = (e, out, s') \<Longrightarrow> rmc_pid s' = rmc_pid s"
  by (auto simp: attemptGather_def split: prod.split_asm sum.split_asm)

lemma gather_turns_single:
  assumes "recipient \<noteq> rmc_pid s" "res recipient = None" "getMemberSignature B s data uid recipient dials = Some (b, s')"
  shows "\<exists>dials'. gather_turns B data uid (map (Pair recipient) dials') s res = (s', res(recipient \<mapsto> b))"
  using assms(1-3)
proof (induction dials arbitrary: s)
  case Nil
  then show ?case by (intro exI [of _ "[None]"]) (auto simp: getMemberSignature.simps split: if_split_asm)
next
  case (Cons d dials)
  show ?case
  proof (cases "Finished B (rmc_state s) uid")
    case True
    then show ?thesis using Cons.prems by (intro exI [of _ "[None]"]) (auto simp: getMemberSignature.simps)
  next
    case nf: False
    show ?thesis
    proof (cases d)
      case None
      then have "getMemberSignature B s data uid recipient dials = Some (b, s')" using Cons.prems(3) nf by (simp add: getMemberSignature.simps [of B s data uid recipient "None # dials"])
      then show ?thesis by (rule Cons.IH [OF Cons.prems(1,2)])
    next
      case (Some answer)
      obtain e out s1 where a: "attemptGather B s data uid recipient answer = (e, out, s1)" by (metis surj_pair)
      have p: "rmc_pid s1 = rmc_pid s" by (rule attemptGather_pid [OF a])
      show ?thesis
      proof (cases e)
        case None
        then show ?thesis using Cons.prems nf Some a by (intro exI [of _ "[Some answer]"]) (auto simp: getMemberSignature.simps [of B s])
      next
        case (Some err)
        then have "getMemberSignature B s1 data uid recipient dials = Some (b, s')" using Cons.prems(3) nf \<open>d = Some answer\<close> a by (simp add: getMemberSignature.simps [of B s])
        then obtain ds where "gather_turns B data uid (map (Pair recipient) ds) s1 res = (s', res(recipient \<mapsto> b))" using Cons.IH [of s1] Cons.prems(1,2) p by metis
        then show ?thesis using Cons.prems nf a Some by (intro exI [of _ "Some answer # ds"]) (simp add: fun_upd_def)
      qed
    qed
  qed
qed

text \<open>Data that encodes a nil unit makes \<open>acceptData\<close> panic.\<close>

lemma rmc_nil_unit_crashes:
  assumes "ReadGreeting B bs = Inr ((pid, uid, msgSendData), rest)" "DecodeID uid = (h, pid, e)" "AcceptData B (rmc_state s) uid pid rest = (Inr (PutUint64 (- 1)), st)"
  shows "rmc_in B shake s bs = None"
proof -
  have "decodePreunit shake (PutUint64 (- 1)) = Some (Inr (None, []))" using read_uints(3) [of "- 1" "[]"] by (simp add: decodePreunit_def rbind_Inr rreturn_def)
  then have "DecodePreunit shake (PutUint64 (- 1)) = Some (Inr None)" by (simp add: DecodePreunit_def)
  then show ?thesis using assms by (simp add: rmc_in_def acceptData_def msg_defs)
qed

text \<open>The seed computed from a hash of 32 bytes stays far below \<open>2^63\<close>, so that it never wraps.\<close>

lemma hashToInt64_bound:
  assumes "length h = HashLength"
  shows "0 \<le> hashToInt64 h \<and> hashToInt64 h < 2 ^ 40"
proof -
  have "0 \<le> (\<Sum>(p, v) \<leftarrow> enumerate n h. uint v * 2 ^ p) \<and> (\<Sum>(p, v) \<leftarrow> enumerate n h. uint v * 2 ^ p) \<le> 255 * (2 ^ (n + length h) - 2 ^ n)" for n and h :: hash
  proof (induction h arbitrary: n)
    case (Cons v h)
    have "uint v \<le> 255" using uint_lt2p [of v] by simp
    then have "uint v * 2 ^ n \<le> 255 * (2 ^ n :: int)" by (rule mult_right_mono) simp
    moreover have "0 \<le> uint v * (2 ^ n :: int)" by simp
    moreover have "255 * (2 ^ (Suc n + length h) - 2 ^ Suc n) + 255 * 2 ^ n = (255 * (2 ^ (n + length (v # h)) - 2 ^ n) :: int)" by (simp add: algebra_simps)
    ultimately show ?case using Cons [of "Suc n"] unfolding enumerate_simps list.map sum_list.Cons prod.case by linarith
  qed simp
  from this [of 0 h] show ?thesis using assms by (simp add: hashToInt64_def HashLength_def)
qed

section \<open>An example\<close>

text \<open>A box in which the dealing unit of process 1 is finished.\<close>

definition demo_final :: bytes where
  "demo_final = the (EncodeUnit (Some (wire_pu 1)))"

definition demo_box :: "unit rmcbox" where
  "demo_box = \<lparr>Finished = (\<lambda>_ _. True), DataOf = (\<lambda>_ _. demo_final), AcceptData = (\<lambda>st _ _ bs. (Inr bs, st)), AcceptProof = (\<lambda>st _ _. (None, st)),
     AcceptFinished = (\<lambda>st _ _ _. (Inr demo_final, st)), AcceptSignature = (\<lambda>st _ _ _. (None, st)), SendSignature = (\<lambda>st _. (Inr [1], st)), SendFinished = (\<lambda>_ _. Inr demo_final),
     SendProof = (\<lambda>_ _. Inr [2]), SendData = (\<lambda>st _ bs. (Inr bs, st)), Greeting = (\<lambda>pid uid m. m # PutUint64 uid @ PutUint16 pid),
     ReadGreeting = (\<lambda>bs. Inr ((Uint16 (take 2 (drop 9 bs)), Uint64 (take 8 (drop 1 bs)), hd bs), drop 11 bs))\<rparr>"

lemma demo_reliable: "reliable demo_box (\<lambda>_. True) (\<lambda>_. demo_final)"
  by (simp add: reliable_def demo_box_def)

lemma wire_valid: "valid_preunit demo_sum (wire_pu 1)" "pu_rsData (wire_pu 1) \<noteq> None" "preunit_of (wire_unit 1) = wire_pu 1"
  using wire_sendables(1) by (simp_all add: sendable_def Embed_def wire_unit_def)

lemma demo_encoded: "EncodeUnit (Some (wire_pu 1)) = Some demo_final"
proof -
  have "valid_unit demo_sum (Some (wire_pu 1))" using wire_valid by (simp add: valid_unit_def)
  then obtain bs where "EncodeUnit (Some (wire_pu 1)) = Some bs" using unit_codec.enc_total by (metis EncodeUnit_def)
  then show ?thesis by (simp add: demo_final_def)
qed

theorem rmc_delivers_witness:
  "\<exists>s'. rmc_in demo_box demo_sum (NewServer_rmc demo_conf3 ()) (Greeting demo_box 1 (UnitID (wire_pu 1)) msgSendProof) = Some ([], Some (wire_pu 1), s')
     \<and> finishedRMC demo_box demo_sum (\<lambda>_. None) (\<lambda>_ _. []) s' (wire_unit 1) = Some (None, s')"
proof -
  have "\<exists>s'. rmc_in demo_box demo_sum (NewServer_rmc demo_conf3 ()) (Greeting demo_box 1 (UnitID (wire_pu 1)) msgSendProof) = Some ([], Some (preunit_of (wire_unit 1)), s')
     \<and> finishedRMC demo_box demo_sum (\<lambda>_. None) (\<lambda>_ _. []) s' (wire_unit 1) = Some (None, s')"
    by (rule rmc_delivers [where data = demo_final and pid = 1 and rest = "[]" and st = "()"])
      (simp_all add: wire_valid(3) wire_valid(1,2) demo_encoded, simp_all add: demo_box_def)
  then show ?thesis by (simp only: wire_valid(3))
qed

lemma demo_decoded: "DecodePreunit demo_sum demo_final = Some (Inr (Some (wire_pu 1)))"
proof -
  have "valid_unit demo_sum (Some (wire_pu 1))" using wire_valid by (simp add: valid_unit_def)
  from unit_codec.dec_enc [OF this, of demo_final "[]"] show ?thesis using demo_encoded by (simp add: EncodeUnit_def DecodePreunit_def)
qed

lemma demo_admits:
  assumes "preunit_of u = wire_pu 1" "pid \<noteq> 1"
  shows "rmc_reach demo_box demo_sum (\<lambda>_. True) (demo_conf3\<lparr>Pid := pid\<rparr>) (NewServer_rmc (demo_conf3\<lparr>Pid := pid\<rparr>) ()) [u]"
proof -
  let ?s = "NewServer_rmc (demo_conf3\<lparr>Pid := pid\<rparr>) ()"
  have c: "Creator u \<noteq> rmc_pid ?s" using assms by (auto simp: Creator_def wire_pu_def NewServer_rmc_def Let_def)
  have "finishedRMC demo_box demo_sum (\<lambda>_. None) (\<lambda>_ _. []) ?s u = Some (None, ?s)"
    using c assms(1) by (simp add: finishedRMC_def Let_def demo_box_def demo_decoded Equal_def)
  from rmc_reach.check [OF rmc_reach.new this] show ?thesis using c by simp
qed


theorem signs_only_units_of_sender_witness:
  "\<exists>s'. acceptData demo_box demo_sum (NewServer_rmc demo_conf3 ()) (UnitID (wire_pu 1)) 1 demo_final = Some ([1], s')
     \<and> (\<exists>pu. DecodePreunit demo_sum demo_final = Some (Inr (Some pu)) \<and> UnitID pu = UnitID (wire_pu 1) \<and> pu_creator pu = 1)"
proof -
  have i: "DecodeID (UnitID (wire_pu 1)) = (0, 1, 1)" using decoded_id [OF demo_decoded] by (simp add: wire_pu_def Let_def)
  have a: "acceptData demo_box demo_sum (NewServer_rmc demo_conf3 ()) (UnitID (wire_pu 1)) 1 demo_final = Some ([1], NewServer_rmc demo_conf3 ())"
    by (simp add: acceptData_def i demo_box_def demo_decoded NewServer_rmc_def)
  show ?thesis using a signs_only_units_of_sender [OF a] by (auto simp: demo_box_def)
qed

end
