(* ===== verification/Syncer.thy ===== *)
theory Syncer
  imports Rmc
begin

text \<open>
  Worker pools (\<open>pkg/sync/workers.go\<close>) and the syncer that joins the servers (\<open>pkg/sync/syncer/syncer.go\<close>). A pool is the list of its workers, each at one of three places of its
  loop. The constructors of network servers, of another module, are a parameter.
\<close>

section \<open>Worker pools\<close>

datatype worker_state = Checking | Working | Ended

record 'j pool =
  po_jobs :: "'j list"
  po_quit :: bool
  po_workers :: "('j \<times> worker_state) list"

text \<open>\<open>NewPool\<close> has workers without an argument, \<open>NewPerPidPool\<close> has \<open>multiple\<close> workers for each process.\<close>

definition NewPool :: "int \<Rightarrow> unit pool" where
  "NewPool sz = \<lparr>po_jobs = replicate (nat sz) (), po_quit = False, po_workers = []\<rparr>"

definition NewPerPidPool :: "u16 \<Rightarrow> int \<Rightarrow> u16 pool" where
  "NewPerPidPool np multiple = \<lparr>po_jobs = concat (map (\<lambda>i. replicate (nat multiple) i) (pids np)), po_quit = False, po_workers = []\<rparr>"

definition Start_pool :: "'j pool \<Rightarrow> 'j pool" where
  "Start_pool p = p\<lparr>po_workers := po_workers p @ map (\<lambda>j. (j, Checking)) (po_jobs p)\<rparr>"

text \<open>\<open>Stop\<close> sets the flag and then waits until all workers have ended.\<close>

definition Stop_pool :: "'j pool \<Rightarrow> 'j pool" where
  "Stop_pool p = p\<lparr>po_quit := True\<rparr>"

definition stopped :: "'j pool \<Rightarrow> bool" where
  "stopped p \<longleftrightarrow> list_all (\<lambda>(_, st). st = Ended) (po_workers p)"

text \<open>A worker looks at the flag, works or ends, and looks again when the work returns.\<close>

inductive pool_step :: "'j pool \<Rightarrow> 'j pool \<Rightarrow> bool" where
  enter: "i < length (po_workers p) \<Longrightarrow> po_workers p ! i = (j, Checking) \<Longrightarrow> \<not> po_quit p \<Longrightarrow> pool_step p (p\<lparr>po_workers := (po_workers p)[i := (j, Working)]\<rparr>)"
| leave: "i < length (po_workers p) \<Longrightarrow> po_workers p ! i = (j, Checking) \<Longrightarrow> po_quit p \<Longrightarrow> pool_step p (p\<lparr>po_workers := (po_workers p)[i := (j, Ended)]\<rparr>)"
| again: "i < length (po_workers p) \<Longrightarrow> po_workers p ! i = (j, Working) \<Longrightarrow> pool_step p (p\<lparr>po_workers := (po_workers p)[i := (j, Checking)]\<rparr>)"

inductive pool_run :: "nat \<Rightarrow> 'j pool \<Rightarrow> 'j pool \<Rightarrow> bool" where
  none: "pool_run 0 p p"
| more: "pool_step p q \<Longrightarrow> pool_run k q r \<Longrightarrow> pool_run (Suc k) p r"

text \<open>The pools of a server, and its channel \<open>stopOut\<close>, whose closing releases the workers that wait for a request; closing it twice panics.\<close>

record 'j pools =
  sp_out :: "'j pool"
  sp_in :: "unit pool"
  sp_stopOut :: bool

definition gossip_pools :: "'k conf \<Rightarrow> unit pools" where
  "gossip_pools cnf = \<lparr>sp_out = NewPool (snd (GossipWorkers cnf)), sp_in = NewPool (fst (GossipWorkers cnf)), sp_stopOut = False\<rparr>"

definition fetch_pools :: "'k conf \<Rightarrow> unit pools" where
  "fetch_pools cnf = \<lparr>sp_out = NewPool (snd (FetchWorkers cnf)), sp_in = NewPool (fst (FetchWorkers cnf)), sp_stopOut = False\<rparr>"

definition mcast_pools :: "'k conf \<Rightarrow> u16 pools" where
  "mcast_pools cnf = \<lparr>sp_out = NewPerPidPool (NProc cnf) 4, sp_in = NewPool (4 * int (unat (NProc cnf))), sp_stopOut = False\<rparr>"

definition Start_server :: "'j pools \<Rightarrow> 'j pools" where
  "Start_server s = s\<lparr>sp_out := Start_pool (sp_out s), sp_in := Start_pool (sp_in s)\<rparr>"

definition Stop_server :: "'j pools \<Rightarrow> 'j pools go" where
  "Stop_server s = (if sp_stopOut s then None else Some (s\<lparr>sp_stopOut := True, sp_out := Stop_pool (sp_out s), sp_in := Stop_pool (sp_in s)\<rparr>))"

section \<open>The syncer\<close>

datatype service = NetworkService string | PersistentService

text \<open>\<open>mk kind addr addresses\<close> stands for the constructors of the network servers; an index out of range panics.\<close>

definition getNetServ :: "(string \<Rightarrow> string \<Rightarrow> string list \<Rightarrow> string + 'n) \<Rightarrow> string \<Rightarrow> u16 \<Rightarrow> string list \<Rightarrow> service list \<Rightarrow> ((string + 'n) \<times> service list) go" where
  "getNetServ mk net pid addresses services =
     do { addr \<leftarrow> nth_opt addresses (unat pid);
          Some (if net = ''udp'' then
                  (case mk ''udp'' addr addresses of Inl e \<Rightarrow> (Inl e, services) | Inr n \<Rightarrow> (Inr n, services @ [NetworkService ''udp'']))
                else if net = ''pers'' then
                  (case mk ''tcp'' addr addresses of
                     Inl e \<Rightarrow> (Inl e, services)
                   | Inr _ \<Rightarrow> (case mk ''pers'' addr addresses of
                                Inl e \<Rightarrow> (Inl e, services @ [NetworkService ''tcp''])
                              | Inr n \<Rightarrow> (Inr n, services @ [NetworkService ''tcp'', PersistentService])))
                else (case mk ''tcp'' addr addresses of Inl e \<Rightarrow> (Inl e, services) | Inr n \<Rightarrow> (Inr n, services @ [NetworkService ''tcp'']))) }"

text \<open>The multicast of a syncer: the reliable multicast with the units whose goroutines were started, or plain multicast.\<close>

datatype 'st mcaster = Reliable "'st rmc_server" "Unit list" | Plain mcast_server

record ('n, 'st) syncer =
  sn_fetch :: fetch_server
  sn_gossip :: gossip_server
  sn_mcast :: "'st mcaster"
  sn_nets :: "'n list"
  sn_subservices :: "service list"

definition New_syncer :: "(string \<Rightarrow> string \<Rightarrow> string list \<Rightarrow> string + 'n) \<Rightarrow> 'st \<Rightarrow> 'k conf \<Rightarrow> bool \<Rightarrow> (string + ('n, 'st) syncer) go" where
  "New_syncer mk rmcNew cnf stp =
     do { (r1, sub1) \<leftarrow> getNetServ mk (FetchNetType cnf) (Pid cnf) (FetchAddresses cnf) [];
          case r1 of
            Inl e \<Rightarrow> Some (Inl e)
          | Inr n1 \<Rightarrow>
              do { (r2, sub2) \<leftarrow> getNetServ mk (GossipNetType cnf) (Pid cnf) (GossipAddresses cnf) sub1;
                   case r2 of
                     Inl e \<Rightarrow> Some (Inl e)
                   | Inr n2 \<Rightarrow>
                       do { (r3, sub3) \<leftarrow> (if stp then getNetServ mk (RMCNetType cnf) (Pid cnf) (RMCAddresses cnf) sub2
                                           else getNetServ mk (MCastNetType cnf) (Pid cnf) (MCastAddresses cnf) sub2);
                            case r3 of
                              Inl e \<Rightarrow> Some (Inl e)
                            | Inr n3 \<Rightarrow>
                                Some (Inr \<lparr>sn_fetch = NewServer_fetch cnf, sn_gossip = NewServer_gossip cnf,
                                           sn_mcast = (if stp then Reliable (NewServer_rmc cnf rmcNew) [] else Plain (NewServer_mcast cnf)),
                                           sn_nets = [n1, n2, n3], sn_subservices = sub3\<rparr>) } } }"

definition Multicast :: "nat list \<Rightarrow> ('n, 'st) syncer \<Rightarrow> Unit \<Rightarrow> ('n, 'st) syncer go" where
  "Multicast perm s u =
     (case sn_mcast s of
        Reliable r us \<Rightarrow> Some (s\<lparr>sn_mcast := Reliable r (if send_rmc r u then us @ [u] else us)\<rparr>)
      | Plain m \<Rightarrow> do { m' \<leftarrow> send_mcast m perm u; Some (s\<lparr>sn_mcast := Plain m'\<rparr>) })"

definition RequestFetch :: "('n, 'st) syncer \<Rightarrow> u16 \<Rightarrow> u64 list \<Rightarrow> ('n, 'st) syncer" where
  "RequestFetch s pid ids = s\<lparr>sn_fetch := trigger (sn_fetch s) pid ids\<rparr>"

definition RequestGossip :: "('n, 'st) syncer \<Rightarrow> u16 \<Rightarrow> ('n, 'st) syncer" where
  "RequestGossip s pid = s\<lparr>sn_gossip := request_gossip (sn_gossip s) pid\<rparr>"

section \<open>Pools stop\<close>

text \<open>What a worker still has to do once the flag is set.\<close>

fun left_steps :: "worker_state \<Rightarrow> nat" where
  "left_steps Checking = 1" | "left_steps Working = 2" | "left_steps Ended = 0"

definition left_work :: "'j pool \<Rightarrow> nat" where
  "left_work p = (\<Sum>(_, st) \<leftarrow> po_workers p. left_steps st)"

definition busy :: "'j pool \<Rightarrow> nat set" where
  "busy p = {i. i < length (po_workers p) \<and> snd (po_workers p ! i) = Working}"

lemma left_work_update: "i < length ws \<Longrightarrow> ws ! i = (j, a) \<Longrightarrow> (\<Sum>(_, st) \<leftarrow> ws[i := (j, b)]. left_steps st) + left_steps a = (\<Sum>(_, st) \<leftarrow> ws. left_steps st) + left_steps b"
  by (induction ws arbitrary: i) (auto split: nat.splits)

lemma quit_step:
  assumes "pool_step p q" "po_quit p"
  shows "po_quit q \<and> Suc (left_work q) = left_work p \<and> busy q \<subseteq> busy p \<and> map fst (po_workers q) = map fst (po_workers p)"
  using assms
proof cases
  case (leave i j)
  then show ?thesis using left_work_update [OF leave(2,3), of Ended] assms(2) by (auto simp: left_work_def busy_def nth_list_update map_update list_update_same_conv split: if_splits)
next
  case (again i j)
  then show ?thesis using left_work_update [OF again(2,3), of Checking] assms(2) by (auto simp: left_work_def busy_def nth_list_update map_update list_update_same_conv split: if_splits)
qed simp

lemma stuck_stopped:
  assumes "po_quit p" shows "(\<nexists>q. pool_step p q) \<longleftrightarrow> stopped p"
proof
  assume s: "\<nexists>q. pool_step p q"
  have "snd (po_workers p ! i) = Ended" if "i < length (po_workers p)" for i
  proof -
    obtain j st where e: "po_workers p ! i = (j, st)" by fastforce
    have "st = Ended" using s pool_step.leave [OF that, of j] pool_step.again [OF that, of j] assms e by (cases st) blast+
    then show ?thesis using e by simp
  qed
  then show "stopped p" by (auto simp: stopped_def list_all_length split_def)
next
  assume "stopped p"
  then have "snd (po_workers p ! i) = Ended" if "i < length (po_workers p)" for i using that by (auto simp: stopped_def list_all_length split_def)
  then show "\<nexists>q. pool_step p q" by (force elim!: pool_step.cases)
qed

lemma pool_run_snoc: "pool_run k p q \<Longrightarrow> pool_step q r \<Longrightarrow> pool_run (Suc k) p r"
  by (induction rule: pool_run.induct) (auto intro: pool_run.intros)

lemma quit_run: "pool_run k p q \<Longrightarrow> po_quit p \<Longrightarrow> po_quit q \<and> k + left_work q = left_work p \<and> busy q \<subseteq> busy p"
proof (induction rule: pool_run.induct)
  case (more p q k r)
  then show ?case using quit_step [OF more(1) more(4)] by auto
qed simp

lemma quit_finishes: "po_quit p \<Longrightarrow> \<exists>m r. pool_run m p r \<and> stopped r"
proof (induction "left_work p" arbitrary: p rule: less_induct)
  case less
  show ?case
  proof (cases "stopped p")
    case True
    then show ?thesis using pool_run.none by blast
  next
    case False
    then obtain q where q: "pool_step p q" using stuck_stopped [OF less.prems] by blast
    then have "left_work q < left_work p" "po_quit q" using quit_step [OF q less.prems] by auto
    then show ?thesis using less.hyps pool_run.more [OF q] by blast
  qed
qed

lemma left_work_bound: "left_work p \<le> 2 * length (po_workers p)"
proof -
  have "(\<Sum>(_, st) \<leftarrow> ws. left_steps st) \<le> 2 * length ws" for ws :: "('a \<times> worker_state) list"
  proof (induction ws)
    case (Cons w ws)
    have "left_steps st \<le> 2" for st by (cases st) simp_all
    then show ?case using Cons by (auto split: prod.split) (metis (no_types, lifting) add_mono numeral_2_eq_2 add_2_eq_Suc)
  qed simp
  then show ?thesis by (simp add: left_work_def)
qed

text \<open>
  Pools stop: from the moment \<open>Stop\<close> has set the flag no worker begins new work, the workers make at most two steps each, and they can only stand still when all have ended, which is what
  \<open>Stop\<close> waits for; so it returns as soon as the work that was under way does.
\<close>

theorem pool_stops:
  assumes "pool_run k (Stop_pool p) q"
  shows "k \<le> 2 * length (po_workers p) \<and> busy q \<subseteq> busy p \<and> ((\<nexists>r. pool_step q r) \<longleftrightarrow> stopped q) \<and> (\<exists>m r. pool_run m q r \<and> stopped r)"
proof -
  have p: "po_quit (Stop_pool p)" "po_workers (Stop_pool p) = po_workers p" "busy (Stop_pool p) = busy p" by (simp_all add: Stop_pool_def busy_def)
  note q = quit_run [OF assms p(1)]
  then have "k \<le> 2 * length (po_workers p)" using left_work_bound [of "Stop_pool p"] p(2) by simp
  then show ?thesis using q p(3) stuck_stopped [of q] quit_finishes [of q] by simp
qed

theorem pool_stops_witness:
  "pool_run 1 (Stop_pool (Start_pool (NewPool 2))) (Stop_pool (Start_pool (NewPool 2))\<lparr>po_workers := [((), Ended), ((), Checking)]\<rparr>)
   \<and> (\<exists>m r. pool_run m (Stop_pool (Start_pool (NewPool 2))\<lparr>po_workers := [((), Ended), ((), Checking)]\<rparr>) r \<and> stopped r)"
proof -
  let ?p = "Stop_pool (Start_pool (NewPool 2))"
  have p: "po_workers ?p = [((), Checking), ((), Checking)]" "po_quit ?p" by (simp_all add: Stop_pool_def Start_pool_def NewPool_def numeral_2_eq_2)
  have "pool_step ?p (?p\<lparr>po_workers := [((), Ended), ((), Checking)]\<rparr>)" using pool_step.leave [of 0 ?p "()"] p by simp
  then have "pool_run 1 ?p (?p\<lparr>po_workers := [((), Ended), ((), Checking)]\<rparr>)" using pool_run.more [OF _ pool_run.none] by simp
  then show ?thesis using pool_stops by blast
qed

text \<open>Every process has its workers.\<close>

lemma count_list_replicate: "count_list (replicate m x) y = (if x = y then m else 0)"
  by (induction m) auto

lemma distinct_count: "distinct xs \<Longrightarrow> count_list xs x = (if x \<in> set xs then 1 else 0)"
  by (induction xs) auto

lemma per_pid_workers: "i < np \<Longrightarrow> count_list (po_jobs (NewPerPidPool np multiple)) i = nat multiple"
proof -
  assume "i < np"
  have "count_list (concat (map (\<lambda>i. replicate m i) xs)) i = m * count_list xs i" for m xs by (induction xs) (auto simp: count_list_replicate)
  moreover have "count_list (pids np) i = 1" using \<open>i < np\<close> distinct_pids [of np] by (simp add: distinct_count set_pids)
  ultimately show ?thesis by (simp add: NewPerPidPool_def)
qed

section \<open>What the syncer is built from\<close>

text \<open>
  With an address for every process and network servers that can be made, the syncer has a fetch, a gossip and a multicast server with a network server each: the reliable multicast
  during set-up, the plain one otherwise.
\<close>

lemma getNetServ_ok:
  assumes "unat pid < length addresses" "\<forall>kind addr. \<exists>n. mk kind addr addresses = Inr n"
  shows "\<exists>n sub. getNetServ mk net pid addresses services = Some (Inr n, services @ sub) \<and> sub \<noteq> []"
proof -
  obtain f where f: "\<And>kind addr. mk kind addr addresses = Inr (f kind addr)" using assms(2) by metis
  show ?thesis using assms(1) by (simp add: getNetServ_def nth_opt_def f)
qed

lemma New_syncer_ok:
  assumes "\<forall>kind addr as. \<exists>n. mk kind addr as = Inr n" "unat (Pid cnf) < length (FetchAddresses cnf)" "unat (Pid cnf) < length (GossipAddresses cnf)"
    "unat (Pid cnf) < length (if stp then RMCAddresses cnf else MCastAddresses cnf)"
  shows "\<exists>s. New_syncer mk rmcNew cnf stp = Some (Inr s) \<and> length (sn_nets s) = 3 \<and> (case sn_mcast s of Reliable _ _ \<Rightarrow> stp | Plain _ \<Rightarrow> \<not> stp)"
proof -
  note ok = getNetServ_ok [of "Pid cnf" _ mk]
  have mk: "\<forall>kind addr. \<exists>n. mk kind addr as = Inr n" for as using assms(1) by blast
  obtain n1 s1 where 1: "getNetServ mk (FetchNetType cnf) (Pid cnf) (FetchAddresses cnf) [] = Some (Inr n1, s1)" using ok [OF assms(2) mk] by blast
  obtain n2 s2 where 2: "getNetServ mk (GossipNetType cnf) (Pid cnf) (GossipAddresses cnf) s1 = Some (Inr n2, s2)" using ok [OF assms(3) mk] by blast
  obtain n3 s3 where 3: "getNetServ mk (if stp then RMCNetType cnf else MCastNetType cnf) (Pid cnf) (if stp then RMCAddresses cnf else MCastAddresses cnf) s2 = Some (Inr n3, s3)"
    using ok [OF assms(4) mk] by blast
  show ?thesis using 1 2 3 by (cases stp) (simp_all add: New_syncer_def)
qed

end
