(* ===== verification/Commitments.thy ===== *)
theory Commitments
  imports Chunks
begin

text \<open>
  Forking proofs (\<open>pkg/forking/forkers.go\<close>) and commitments to units of forkers (\<open>pkg/forking/commitment.go\<close>). A commitment is
  immutable but for its parent hashes, so the objects live in a heap (\<open>cb_heap\<close>), a nat is a pointer, and an object is the
  immutable part with the parent hashes; a child commitment is only asked for its id and its proof, which do not change.
\<close>

section \<open>Forking proofs\<close>

record forkingProof =
  fp_pu :: "preunit option"
  fp_pv :: "preunit option"
  fp_pcommit :: "preunit option"
  fp_encoded :: bytes

text \<open>\<open>pu, _ := encoding.DecodePreunit(data)\<close>: an error leaves the preunit nil.\<close>

definition decode_or_nil :: "(bytes \<Rightarrow> hash) \<Rightarrow> bytes \<Rightarrow> preunit option go" where
  "decode_or_nil shake data = do { r \<leftarrow> DecodePreunit shake data; Some (case r of Inl _ \<Rightarrow> None | Inr pu \<Rightarrow> pu) }"

definition newForkingProof :: "(bytes \<Rightarrow> hash) \<Rightarrow> preunit \<Rightarrow> preunit \<Rightarrow> preunit option \<Rightarrow> forkingProof option go" where
  "newForkingProof shake u v mx =
     (if pu_hash u = pu_hash v then Some None
      else do { ue \<leftarrow> EncodeUnit (Some u); ve \<leftarrow> EncodeUnit (Some v); comme \<leftarrow> EncodeUnit mx;
                pu \<leftarrow> decode_or_nil shake ue; pv \<leftarrow> decode_or_nil shake ve; pcommit \<leftarrow> decode_or_nil shake comme;
                Some (Some \<lparr>fp_pu = pu, fp_pv = pv, fp_pcommit = pcommit, fp_encoded = ue @ ve @ comme\<rparr>) })"

definition unmarshal :: "(bytes \<Rightarrow> hash) \<Rightarrow> bytes \<Rightarrow> (wire_error + forkingProof) go" where
  "unmarshal shake data =
     map_option (map_sum id fst)
       (rbind (decodePreunit shake) (\<lambda>pu. rbind (decodePreunit shake) (\<lambda>pv. rbind (decodePreunit shake) (\<lambda>pcommit.
          rreturn \<lparr>fp_pu = pu, fp_pv = pv, fp_pcommit = pcommit, fp_encoded = data\<rparr>))) data)"

definition forkerID :: "forkingProof \<Rightarrow> u16 go" where
  "forkerID fp = map_option pu_creator (fp_pu fp)"

definition proof_epochID :: "forkingProof \<Rightarrow> EpochID go" where
  "proof_epochID fp = map_option pu_epochID (fp_pu fp)"

text \<open>
  \<open>splitEncoding\<close> reads two preunits and splits where the reader stands. It is called on proofs that were parsed, or built
  from units that decode, so the reads succeed; there is no value for the position after a failed read.
\<close>

definition splitEncoding :: "(bytes \<Rightarrow> hash) \<Rightarrow> forkingProof \<Rightarrow> (bytes \<times> bytes) go" where
  "splitEncoding shake fp =
     (case rbind (decodePreunit shake) (\<lambda>_. rbind (decodePreunit shake) (\<lambda>_. rreturn ())) (fp_encoded fp) of
        Some (Inr (_, rest)) \<Rightarrow> Some (take (length (fp_encoded fp) - length rest) (fp_encoded fp), drop (length (fp_encoded fp) - length rest) (fp_encoded fp))
      | _ \<Rightarrow> None)"

definition replaceCommit :: "(bytes \<Rightarrow> hash) \<Rightarrow> forkingProof \<Rightarrow> preunit option \<Rightarrow> forkingProof go" where
  "replaceCommit shake fp commit =
     do { (proofOnly, _) \<leftarrow> splitEncoding shake fp;
          comme \<leftarrow> EncodeUnit commit;
          pcommit \<leftarrow> decode_or_nil shake comme;
          Some (fp\<lparr>fp_encoded := proofOnly @ comme, fp_pcommit := pcommit\<rparr>) }"

text \<open>A call of \<open>Verify\<close> on a nil key panics.\<close>

definition checkCorrectness_fp :: "('k \<Rightarrow> preunit \<Rightarrow> bool) \<Rightarrow> forkingProof \<Rightarrow> u16 \<Rightarrow> 'k option \<Rightarrow> string option go" where
  "checkCorrectness_fp verify fp expectedPid key =
     (case (fp_pu fp, fp_pv fp) of
        (Some pu, Some pv) \<Rightarrow>
          if pu_creator pu \<noteq> expectedPid \<or> pu_creator pv \<noteq> expectedPid \<or> (case fp_pcommit fp of None \<Rightarrow> False | Some pc \<Rightarrow> pu_creator pc \<noteq> expectedPid)
          then Some (Some ''creator differs from expected'')
          else do { k \<leftarrow> key;
                    if \<not> verify k pu \<or> \<not> verify k pv \<or> (case fp_pcommit fp of None \<Rightarrow> False | Some pc \<Rightarrow> \<not> verify k pc) then Some (Some ''improper signature'')
                    else if pu_height pu \<noteq> pu_height pv then Some (Some ''two units on different heights do not prove a fork'')
                    else if pu_hash pu = pu_hash pv then Some (Some ''two copies of a unit are not a fork'')
                    else Some None }
      | _ \<Rightarrow> Some (Some ''nil units do not prove forking''))"

section \<open>Commitments\<close>

datatype commitment =
    baseCommitment u64 "preunit option" bytes
  | inferredCommitment commitment "preunit option" bytes

definition newBaseCommitment :: "preunit option \<Rightarrow> bytes \<Rightarrow> u64 \<Rightarrow> commitment" where
  "newBaseCommitment pu puEncoded rmcID = baseCommitment rmcID pu (PutUint64 rmcID @ puEncoded)"

fun marshal_comm :: "commitment \<Rightarrow> bytes" where
  "marshal_comm (baseCommitment _ _ encoded) = encoded"
| "marshal_comm (inferredCommitment _ _ encoded) = encoded"

fun rmcID :: "commitment \<Rightarrow> u64" where
  "rmcID (baseCommitment uid _ _) = uid"
| "rmcID (inferredCommitment childCommitment _ _) = rmcID childCommitment"

fun getUnit :: "commitment \<Rightarrow> preunit option" where
  "getUnit (baseCommitment _ pu _) = pu"
| "getUnit (inferredCommitment _ pu _) = pu"

text \<open>A nil proof and a proof with a nil commit unit make \<open>checkProof\<close> panic.\<close>

fun checkProof :: "commitment \<Rightarrow> forkingProof option \<Rightarrow> string option go" where
  "checkProof (baseCommitment _ pu _) fp =
     (case pu of
        None \<Rightarrow> Some (Some ''unitless commitment'')
      | Some cu \<Rightarrow> do { p \<leftarrow> fp; pc \<leftarrow> fp_pcommit p;
                        Some (if pu_hash cu \<noteq> pu_hash pc then Some ''wrong proof for commit'' else None) })"
| "checkProof (inferredCommitment childCommitment _ _) fp = checkProof childCommitment fp"

definition extractCommitment :: "(bytes \<Rightarrow> hash) \<Rightarrow> forkingProof \<Rightarrow> u64 \<Rightarrow> commitment go" where
  "extractCommitment shake fp uid = do { (_, commitOnly) \<leftarrow> splitEncoding shake fp; Some (newBaseCommitment (fp_pcommit fp) commitOnly uid) }"

definition getParentHash :: "bytes \<Rightarrow> u16 \<Rightarrow> hash option" where
  "getParentHash parentHashes pid =
     (let i = unat pid * HashLength in
      if i \<ge> length parentHashes then None
      else Some (take HashLength (drop i parentHashes @ replicate HashLength 0)))"

definition encode_hashes :: "hash option list \<Rightarrow> bytes" where
  "encode_hashes hashes = concat (map (\<lambda>h. case h of Some k \<Rightarrow> k | None \<Rightarrow> ZeroHash) hashes)"

text \<open>
  Both constructors of inferred commitments return the new commitment and the parent hashes that
  they set in the commitment they start from.
\<close>

definition commitmentForPreparent :: "(bytes \<Rightarrow> hash) \<Rightarrow> commitment \<Rightarrow> preunit \<Rightarrow> hash option list \<Rightarrow> bytes \<Rightarrow> (string + commitment \<times> bytes) go" where
  "commitmentForPreparent shake comm pu hashes encoded =
     (case getUnit comm of
        None \<Rightarrow> Some (Inl ''empty commitment cannot justify parents'')
      | Some cu \<Rightarrow>
          let pid = pu_creator cu in
          if pid \<noteq> pu_creator pu then Some (Inl ''cannot justify unit created by a different process'')
          else do { h \<leftarrow> (if unat pid < length hashes then hashes ! unat pid else None);
                    if h \<noteq> pu_hash pu then Some (Inl ''cannot justify unit with a mismatched hash'')
                    else if ControlHash (pu_crown cu) \<noteq> CombineHashes shake hashes then Some (Inl ''control hash does not match hashes of parents'')
                    else Some (Inr (inferredCommitment comm (Some pu) encoded, encode_hashes hashes)) })"

definition commitmentForParent :: "(bytes \<Rightarrow> hash) \<Rightarrow> commitment \<Rightarrow> Unit option \<Rightarrow> (string + commitment \<times> bytes) go" where
  "commitmentForParent shake comm u =
     (case getUnit comm of
        None \<Rightarrow> Some (Inl ''empty commitment cannot justify parents'')
      | Some cu \<Rightarrow>
          (case u of
             None \<Rightarrow> Some (Inl ''incorrect commitment unit supplied'')
           | Some v \<Rightarrow>
               if pu_hash cu \<noteq> Hash v then Some (Inl ''incorrect commitment unit supplied'')
               else do { predEncoded \<leftarrow> EncodeUnit (map_option preunit_of (Predecessor v));
                         let parEncoded = encode_hashes (map (map_option Hash) (Parents v));
                         pu \<leftarrow> decode_or_nil shake predEncoded;
                         Some (Inr (inferredCommitment comm pu (marshal_comm comm @ predEncoded @ parEncoded), parEncoded)) }))"

section \<open>The base of commitments\<close>

record commitObj =
  co_comm :: commitment
  co_parentHashes :: bytes

record commitBase =
  cb_heap :: "commitObj list"
  toUnit :: "hash \<rightharpoonup> nat"
  byMember :: "u16 \<rightharpoonup> (u16 \<rightharpoonup> nat)"

definition newCommitBase :: commitBase where
  "newCommitBase = \<lparr>cb_heap = [], toUnit = Map.empty, byMember = Map.empty\<rparr>"

abbreviation comm_at :: "commitBase \<Rightarrow> nat \<Rightarrow> commitment" where
  "comm_at cb p \<equiv> co_comm (cb_heap cb ! p)"

definition new_comm :: "commitBase \<Rightarrow> commitment \<Rightarrow> bytes \<Rightarrow> nat \<times> commitBase" where
  "new_comm cb c ph = (length (cb_heap cb), cb\<lparr>cb_heap := cb_heap cb @ [\<lparr>co_comm = c, co_parentHashes = ph\<rparr>]\<rparr>)"

definition setParentHashes :: "commitBase \<Rightarrow> nat \<Rightarrow> bytes \<Rightarrow> commitBase" where
  "setParentHashes cb p ph = cb\<lparr>cb_heap := (cb_heap cb)[p := (cb_heap cb ! p)\<lparr>co_parentHashes := ph\<rparr>]\<rparr>"

definition cb_add :: "commitBase \<Rightarrow> nat \<Rightarrow> u16 \<Rightarrow> u16 \<Rightarrow> commitBase" where
  "cb_add cb c commiter forker =
     (let cb1 = (case getUnit (comm_at cb c) of
                   None \<Rightarrow> cb
                 | Some cu \<Rightarrow>
                     (case toUnit cb (pu_hash cu) of
                        None \<Rightarrow> cb\<lparr>toUnit := (toUnit cb)(pu_hash cu \<mapsto> c)\<rparr>
                      | Some q \<Rightarrow> if getParentHash (co_parentHashes (cb_heap cb ! q)) 0 = None
                                  then cb\<lparr>toUnit := (toUnit cb)(pu_hash cu \<mapsto> c)\<rparr> else cb));
          members = (case byMember cb1 forker of None \<Rightarrow> Map.empty | Some ms \<Rightarrow> ms)
      in cb1\<lparr>byMember := (byMember cb1)(forker \<mapsto> (case members commiter of None \<Rightarrow> members(commiter \<mapsto> c) | Some _ \<Rightarrow> members))\<rparr>)"

definition getByHash :: "commitBase \<Rightarrow> hash \<Rightarrow> nat option" where
  "getByHash cb h = toUnit cb h"

definition getByParties :: "commitBase \<Rightarrow> u16 \<Rightarrow> u16 \<Rightarrow> nat option" where
  "getByParties cb commiter forker = (case byMember cb forker of None \<Rightarrow> None | Some ms \<Rightarrow> ms commiter)"

definition isForker :: "commitBase \<Rightarrow> u16 \<Rightarrow> bool" where
  "isForker cb forker \<longleftrightarrow> byMember cb forker \<noteq> None"

text \<open>\<open>comms\<close> are new objects with their parent hashes; \<open>comms[0]\<close> of an empty slice panics.\<close>

definition addBatch :: "commitBase \<Rightarrow> (commitment \<times> bytes) list \<Rightarrow> forkingProof option \<Rightarrow> u16 \<Rightarrow> (string + commitBase) go" where
  "addBatch cb comms fp commiter =
     (case comms of
        [] \<Rightarrow> None
      | (c0, _) # _ \<Rightarrow>
          do { e \<leftarrow> checkProof c0 fp;
               case e of
                 Some err \<Rightarrow> Some (Inl err)
               | None \<Rightarrow>
                   do { p \<leftarrow> fp; pc \<leftarrow> fp_pcommit p;
                        Some (Inr (foldl (\<lambda>cb (c, ph). case new_comm cb c ph of (q, cb') \<Rightarrow> cb_add cb' q commiter (pu_creator pc)) cb comms)) } })"

section \<open>Reading commitments\<close>

text \<open>
  The loop of \<open>acquireCommitments\<close>; \<open>input\<close> is the whole stream, of which the memorizing reader keeps what was read.
  Each round reads a preunit, so the rest of the stream gets shorter.
\<close>

definition read_hash :: "hash option reader" where
  "read_hash = rbind (ReadFull HashLength) (\<lambda>h. rreturn (Some h))"

definition memory :: "bytes \<Rightarrow> bytes \<Rightarrow> bytes" where
  "memory input rest = take (length input - length rest) input"

text \<open>Readers do not lengthen the stream, and \<open>decodePreunit\<close> reads at least an id.\<close>

definition shrinks :: "'a reader \<Rightarrow> bool" where
  "shrinks m \<longleftrightarrow> (\<forall>s x s'. m s = Some (Inr (x, s')) \<longrightarrow> length s' \<le> length s)"

named_theorems shrink_intros

lemma shrinks_basic [shrink_intros]: "shrinks (rreturn x)" "shrinks (rfail e)" "shrinks rpanic" "shrinks (ReadFull n)"
  by (auto simp: shrinks_def rreturn_def rfail_def rpanic_def ReadFull_def split: if_splits)

lemma shrinks_rbind [shrink_intros]: "shrinks m \<Longrightarrow> (\<And>x. shrinks (f x)) \<Longrightarrow> shrinks (rbind m f)"
  unfolding shrinks_def rbind_def by (fastforce split: option.splits sum.splits intro: order_trans)

lemma shrinks_if [shrink_intros]: "shrinks m \<Longrightarrow> shrinks m' \<Longrightarrow> shrinks (if b then m else m')"
  by simp

lemma shrinks_case [shrink_intros]: "shrinks m \<Longrightarrow> (\<And>y. shrinks (f y)) \<Longrightarrow> shrinks (case x of None \<Rightarrow> m | Some y \<Rightarrow> f y)"
  by (cases x) auto

lemma shrinks_read_n [shrink_intros]: "shrinks m \<Longrightarrow> shrinks (read_n n m)"
  by (induction n) (simp_all add: shrink_intros)

lemma shrinks_read_hash [shrink_intros]: "shrinks read_hash"
  unfolding read_hash_def by (intro shrink_intros)

lemma decodePreunit_shrinks:
  assumes "decodePreunit shake s = Some (Inr (x, s'))"
  shows "length s' < length s"
proof -
  define k where "k uid = (if uid = - 1 then rreturn None else
       rbind (ReadFull 64) (\<lambda>signature. rbind decodeCrown (\<lambda>crown. rbind read_u32 (\<lambda>unitDataLen.
       if unat unitDataLen > MaxDataBytesPerUnit then rfail (WireError ''maximal allowed data size in a preunit exceeded'')
       else rbind (ReadFull (unat unitDataLen)) (\<lambda>unitData. rbind read_u32 (\<lambda>rsDataLen.
         if unat rsDataLen > MaxRandomSourceDataBytesPerUnit then rfail (WireError ''maximal allowed random source data size in a preunit exceeded'')
         else rbind (ReadFull (unat rsDataLen)) (\<lambda>rsData. case NewPreunit shake uid crown unitData (Some rsData) signature of None \<Rightarrow> rpanic | Some pu \<Rightarrow> rreturn (Some pu))))))))" for uid
  have k: "shrinks (k uid)" for uid
    unfolding k_def decodeCrown_def read_height_def read_u32_def read_u16_def by (intro shrink_intros)
  have "rbind read_u64 k s = Some (Inr (x, s'))" using assms unfolding decodePreunit_def k_def by simp
  then obtain uid s1 where s: "read_u64 s = Some (Inr (uid, s1))" "k uid s1 = Some (Inr (x, s'))"
    by (auto simp: rbind_def split: option.splits sum.splits)
  have "length s1 < length s"
    using s(1) by (auto simp: read_u64_def rbind_def ReadFull_def rreturn_def split: if_splits)
  moreover have "length s' \<le> length s1" using k s(2) unfolding shrinks_def by blast
  ultimately show ?thesis by simp
qed

lemma read_hashes_shrinks: "read_n k read_hash s = Some (Inr (x, s')) \<Longrightarrow> length s' \<le> length s"
  using shrinks_read_n [OF shrinks_read_hash, of k] unfolding shrinks_def by blast

function acquire_loop :: "(bytes \<Rightarrow> hash) \<Rightarrow> bytes \<Rightarrow> (commitment \<times> bytes) list \<Rightarrow> commitment \<Rightarrow> (commitment \<times> bytes) list reader" where
  "acquire_loop shake input acc comm s =
     (case decodePreunit shake s of
        None \<Rightarrow> None
      | Some (Inl e) \<Rightarrow> Some (Inl e)
      | Some (Inr (None, s1)) \<Rightarrow> Some (Inr (acc @ [(comm, [])], s1))
      | Some (Inr (Some pu, s1)) \<Rightarrow>
          (case read_n (length (Heights (pu_crown pu))) read_hash s1 of
             None \<Rightarrow> None
           | Some (Inl e) \<Rightarrow> Some (Inl e)
           | Some (Inr (hashes, s2)) \<Rightarrow>
               (case commitmentForPreparent shake comm pu hashes (memory input s2) of
                  None \<Rightarrow> None
                | Some (Inl err) \<Rightarrow> Some (Inl (WireError err))
                | Some (Inr (c, ph)) \<Rightarrow> acquire_loop shake input (acc @ [(comm, ph)]) c s2)))"
  by pat_completeness auto
termination
  by (relation "measure (\<lambda>(_, _, _, _, s). length s)") (auto dest!: decodePreunit_shrinks read_hashes_shrinks)

declare acquire_loop.simps [simp del]

definition acquireCommitments :: "(bytes \<Rightarrow> hash) \<Rightarrow> (commitment \<times> bytes) list reader" where
  "acquireCommitments shake input =
     rbind read_u64 (\<lambda>uid. rbind (decodePreunit shake) (\<lambda>pu s.
       acquire_loop shake input [] (baseCommitment uid pu (memory input s)) s)) input"

text \<open>The commitments read start with a base commitment.\<close>

lemma acquire_loop_prefix:
  "acquire_loop shake input acc comm s = Some (Inr (l, rest)) \<Longrightarrow> \<exists>ph l'. l = acc @ (comm, ph) # l'"
proof (induction shake input acc comm s arbitrary: l rule: acquire_loop.induct)
  case (1 shake input acc comm s)
  from 1(2) consider s1 where "decodePreunit shake s = Some (Inr (None, s1))" "l = acc @ [(comm, [])]"
    | pu s1 hashes s2 c ph where "decodePreunit shake s = Some (Inr (Some pu, s1))" "read_n (length (Heights (pu_crown pu))) read_hash s1 = Some (Inr (hashes, s2))"
        "commitmentForPreparent shake comm pu hashes (memory input s2) = Some (Inr (c, ph))" "acquire_loop shake input (acc @ [(comm, ph)]) c s2 = Some (Inr (l, rest))"
    by (subst (asm) acquire_loop.simps) (auto split: option.splits sum.splits)
  then show ?case
  proof cases
    case 2
    then obtain ph' l' where "l = (acc @ [(comm, ph)]) @ (c, ph') # l'" using 1(1) by blast
    then show ?thesis by simp
  qed simp
qed

lemma acquireCommitments_base:
  "acquireCommitments shake input = Some (Inr (l, rest)) \<Longrightarrow> \<exists>uid pu enc ph l'. l = (baseCommitment uid pu enc, ph) # l'"
  by (auto simp: acquireCommitments_def rbind_def split: option.splits sum.splits dest!: acquire_loop_prefix)

section \<open>Forking proofs round-trip\<close>

lemma EncodeUnit_total: "valid_unit shake u \<Longrightarrow> \<exists>bs. EncodeUnit u = Some bs"
  unfolding EncodeUnit_def by (rule unit_codec.enc_total)

lemma decodePreunit_EncodeUnit: "valid_unit shake u \<Longrightarrow> EncodeUnit u = Some bs \<Longrightarrow> decodePreunit shake (bs @ rest) = Some (Inr (u, rest))"
  unfolding EncodeUnit_def by (rule unit_codec.dec_enc)

lemma decode_or_nil_EncodeUnit: "valid_unit shake u \<Longrightarrow> EncodeUnit u = Some bs \<Longrightarrow> decode_or_nil shake bs = Some u"
  using decodePreunit_EncodeUnit [of shake u bs "[]"] by (simp add: decode_or_nil_def DecodePreunit_def)

text \<open>A proof whose encoding is that of its units.\<close>

definition proof_ok :: "(bytes \<Rightarrow> hash) \<Rightarrow> forkingProof \<Rightarrow> bool" where
  "proof_ok shake fp \<longleftrightarrow> (\<exists>u v ue ve ce. fp_pu fp = Some u \<and> fp_pv fp = Some v \<and> valid_unit shake (Some u) \<and> valid_unit shake (Some v) \<and> valid_unit shake (fp_pcommit fp)
     \<and> EncodeUnit (Some u) = Some ue \<and> EncodeUnit (Some v) = Some ve \<and> EncodeUnit (fp_pcommit fp) = Some ce \<and> fp_encoded fp = ue @ ve @ ce)"

lemma proof_ok_splitEncoding:
  assumes "proof_ok shake fp"
  obtains pe ce where "splitEncoding shake fp = Some (pe, ce)" "fp_encoded fp = pe @ ce" "EncodeUnit (fp_pcommit fp) = Some ce"
    "\<And>c bs. valid_unit shake c \<Longrightarrow> EncodeUnit c = Some bs \<Longrightarrow> proof_ok shake (fp\<lparr>fp_encoded := pe @ bs, fp_pcommit := c\<rparr>)"
proof -
  obtain u v ue ve ce where p: "fp_pu fp = Some u" "fp_pv fp = Some v" "valid_unit shake (Some u)" "valid_unit shake (Some v)" "valid_unit shake (fp_pcommit fp)"
      "EncodeUnit (Some u) = Some ue" "EncodeUnit (Some v) = Some ve" "EncodeUnit (fp_pcommit fp) = Some ce" "fp_encoded fp = ue @ ve @ ce"
    using assms by (auto simp: proof_ok_def)
  have "splitEncoding shake fp = Some (ue @ ve, ce)"
    using decodePreunit_EncodeUnit [OF p(3,6)] decodePreunit_EncodeUnit [OF p(4,7)] by (simp add: splitEncoding_def p(9) rbind_Inr rreturn_def)
  moreover have "proof_ok shake (fp\<lparr>fp_encoded := (ue @ ve) @ bs, fp_pcommit := c\<rparr>)" if "valid_unit shake c" "EncodeUnit c = Some bs" for c bs
    using p that by (simp add: proof_ok_def)
  ultimately show thesis using that p(8,9) by simp
qed

lemma proof_ok_unmarshal: "proof_ok shake fp \<Longrightarrow> unmarshal shake (fp_encoded fp) = Some (Inr fp)"
  by (auto simp: proof_ok_def unmarshal_def rbind_Inr rreturn_def decodePreunit_EncodeUnit decodePreunit_EncodeUnit [where rest = "[]", simplified])

lemma newForkingProof_ok:
  assumes "valid_unit shake (Some u)" "valid_unit shake (Some v)" "valid_unit shake mx" "pu_hash u \<noteq> pu_hash v"
  shows "\<exists>fp. newForkingProof shake u v mx = Some (Some fp) \<and> proof_ok shake fp \<and> fp_pu fp = Some u \<and> fp_pv fp = Some v \<and> fp_pcommit fp = mx"
proof -
  obtain ue ve ce where e: "EncodeUnit (Some u) = Some ue" "EncodeUnit (Some v) = Some ve" "EncodeUnit mx = Some ce"
    using EncodeUnit_total assms(1-3) by metis
  then show ?thesis using assms decode_or_nil_EncodeUnit by (auto simp: newForkingProof_def proof_ok_def)
qed

lemma replaceCommit_ok:
  assumes "proof_ok shake fp" "valid_unit shake c"
  shows "\<exists>fp'. replaceCommit shake fp c = Some fp' \<and> proof_ok shake fp' \<and> fp_pu fp' = fp_pu fp \<and> fp_pv fp' = fp_pv fp \<and> fp_pcommit fp' = c"
proof -
  obtain bs where bs: "EncodeUnit c = Some bs" using EncodeUnit_total [OF assms(2)] by blast
  obtain pe ce where s: "splitEncoding shake fp = Some (pe, ce)" "proof_ok shake (fp\<lparr>fp_encoded := pe @ bs, fp_pcommit := c\<rparr>)"
    using proof_ok_splitEncoding [OF assms(1)] assms(2) bs by metis
  then show ?thesis using bs decode_or_nil_EncodeUnit [OF assms(2) bs] by (simp add: replaceCommit_def)
qed

lemma extractCommitment_ok:
  assumes "proof_ok shake fp"
  shows "\<exists>ce. EncodeUnit (fp_pcommit fp) = Some ce \<and> extractCommitment shake fp uid = Some (newBaseCommitment (fp_pcommit fp) ce uid)"
proof -
  obtain pe ce where "splitEncoding shake fp = Some (pe, ce)" "EncodeUnit (fp_pcommit fp) = Some ce" by (rule proof_ok_splitEncoding [OF assms])
  then show ?thesis by (simp add: extractCommitment_def)
qed

text \<open>
  A forking proof built from two units and a commit survives marshalling, also after its commit was replaced; the receiver
  accepts it exactly when the units and the commit are of the expected creator and signed by it and the two units are on the same height.
\<close>

theorem forking_proof_roundtrip:
  assumes "valid_unit shake (Some u)" "valid_unit shake (Some v)" "valid_unit shake mx" "valid_unit shake commit" "pu_hash u \<noteq> pu_hash v"
  shows "\<exists>fp fp'. newForkingProof shake u v mx = Some (Some fp) \<and> unmarshal shake (fp_encoded fp) = Some (Inr fp) \<and> fp_pcommit fp = mx
    \<and> replaceCommit shake fp commit = Some fp' \<and> unmarshal shake (fp_encoded fp') = Some (Inr fp') \<and> fp_pcommit fp' = commit
    \<and> (checkCorrectness_fp verify fp' pid (Some k) = Some None \<longleftrightarrow>
         pu_creator u = pid \<and> pu_creator v = pid \<and> verify k u \<and> verify k v \<and> pu_height u = pu_height v
         \<and> (\<forall>c. commit = Some c \<longrightarrow> pu_creator c = pid \<and> verify k c))"
proof -
  obtain fp where fp: "newForkingProof shake u v mx = Some (Some fp)" "proof_ok shake fp" "fp_pu fp = Some u" "fp_pv fp = Some v" "fp_pcommit fp = mx"
    using newForkingProof_ok [OF assms(1-3,5)] by blast
  obtain fp' where fp': "replaceCommit shake fp commit = Some fp'" "proof_ok shake fp'" "fp_pu fp' = Some u" "fp_pv fp' = Some v" "fp_pcommit fp' = commit"
    using replaceCommit_ok [OF fp(2) assms(4)] fp(3,4) by auto
  have "checkCorrectness_fp verify fp' pid (Some k) = Some None \<longleftrightarrow>
         pu_creator u = pid \<and> pu_creator v = pid \<and> verify k u \<and> verify k v \<and> pu_height u = pu_height v
         \<and> (\<forall>c. commit = Some c \<longrightarrow> pu_creator c = pid \<and> verify k c)"
    using fp'(3-5) assms(5) by (cases commit) (auto simp: checkCorrectness_fp_def)
  then show ?thesis using fp fp' proof_ok_unmarshal by blast
qed

section \<open>Commitments round-trip\<close>

text \<open>
  \<open>justify\<close> is the loop by which the owner of a commitment to a unit infers commitments to its predecessors: the list of all
  commitments with the parent hashes they get.
\<close>

fun justify :: "(bytes \<Rightarrow> hash) \<Rightarrow> commitment \<Rightarrow> Unit \<Rightarrow> nat \<Rightarrow> (commitment \<times> bytes) list go" where
  "justify shake c u 0 = Some [(c, [])]"
| "justify shake c u (Suc k) =
     do { r \<leftarrow> commitmentForParent shake c (Some u);
          case r of
            Inl _ \<Rightarrow> None
          | Inr (c', ph) \<Rightarrow> do { p \<leftarrow> Predecessor u; l \<leftarrow> justify shake c' p k; Some ((c, ph) # l) } }"

text \<open>What a unit needs so that commitments to it can be sent: it fits the wire format and its control hash is that of its parents.\<close>

definition committable :: "(bytes \<Rightarrow> hash) \<Rightarrow> Unit \<Rightarrow> bool" where
  "committable shake u \<longleftrightarrow> valid_unit shake (Some (preunit_of u)) \<and> length (Heights (pu_crown (preunit_of u))) = length (Parents u)
     \<and> ControlHash (pu_crown (preunit_of u)) = CombineHashes shake (map (map_option Hash) (Parents u))
     \<and> (\<forall>p. Some p \<in> set (Parents u) \<longrightarrow> length (Hash p) = HashLength)"

definition hash_or_zero :: "hash option \<Rightarrow> hash" where
  "hash_or_zero h = (case h of Some k \<Rightarrow> k | None \<Rightarrow> ZeroHash)"

lemma read_hashes_encode:
  assumes "\<forall>h \<in> set hs. \<forall>k. h = Some k \<longrightarrow> length k = HashLength"
  shows "read_n (length hs) read_hash (encode_hashes hs @ rest) = Some (Inr (map (Some \<circ> hash_or_zero) hs, rest))"
  using assms
proof (induction hs)
  case (Cons h hs)
  have "length (hash_or_zero h) = HashLength" using Cons.prems by (cases h) (auto simp: hash_or_zero_def ZeroHash_def)
  then have "read_hash (hash_or_zero h @ s) = Some (Inr (Some (hash_or_zero h), s))" for s
    by (simp add: read_hash_def rbind_Inr ReadFull_append rreturn_def)
  moreover have "encode_hashes (h # hs) = hash_or_zero h @ encode_hashes hs" by (simp add: encode_hashes_def hash_or_zero_def)
  ultimately show ?case using Cons by (simp add: rbind_Inr rreturn_def)
qed (simp add: encode_hashes_def rreturn_def)

lemma hash_or_zero_read [simp]:
  "encode_hashes (map (Some \<circ> hash_or_zero) hs) = encode_hashes hs" "CombineHashes shake (map (Some \<circ> hash_or_zero) hs) = CombineHashes shake hs"
  by (simp_all add: encode_hashes_def CombineHashes_def hash_or_zero_def comp_def)

lemma getParentHash_encode:
  assumes "\<forall>h \<in> set hs. \<forall>k. h = Some k \<longrightarrow> length k = HashLength" "unat pid < length hs"
  shows "getParentHash (encode_hashes hs) pid = Some (hash_or_zero (hs ! unat pid))"
proof -
  have l: "length (hash_or_zero h) = HashLength" if "h \<in> set hs" for h using assms(1) that by (cases h) (auto simp: hash_or_zero_def ZeroHash_def)
  have e: "encode_hashes xs = concat (map hash_or_zero xs)" for xs by (simp add: encode_hashes_def hash_or_zero_def [abs_def])
  have len: "length (encode_hashes xs) = length xs * HashLength" if "set xs \<subseteq> set hs" for xs
    using that l by (induction xs) (auto simp: e)
  have split: "encode_hashes hs = encode_hashes (take (unat pid) hs) @ hash_or_zero (hs ! unat pid) @ encode_hashes (drop (Suc (unat pid)) hs)"
    using assms(2) by (subst id_take_nth_drop [OF assms(2)]) (simp add: e)
  have "length (encode_hashes (take (unat pid) hs)) = unat pid * HashLength" using len [OF set_take_subset, of "unat pid"] assms(2) by simp
  then show ?thesis using split l [of "hs ! unat pid"] assms(2) by (simp add: getParentHash_def Let_def HashLength_def)
qed

lemma commitment_step:
  assumes u: "committable shake u" "Predecessor u = Some p" "getUnit c = Some (preunit_of u)"
    and p: "committable shake p" "Creator p = Creator u" "length (Parents p) = length (Parents u)"
  obtains pe he where "EncodeUnit (Some (preunit_of p)) = Some pe" "he = encode_hashes (map (map_option Hash) (Parents u))"
    "commitmentForParent shake c (Some u) = Some (Inr (inferredCommitment c (Some (preunit_of p)) (marshal_comm c @ pe @ he), he))"
    "getParentHash he (Creator u) = Some (Hash p)"
    "\<And>input acc s. memory input s = marshal_comm c @ pe @ he \<Longrightarrow>
       acquire_loop shake input acc c (pe @ he @ s) = acquire_loop shake input (acc @ [(c, he)]) (inferredCommitment c (Some (preunit_of p)) (marshal_comm c @ pe @ he)) s"
proof -
  have v: "valid_unit shake (Some (preunit_of p))" using p(1) by (simp add: committable_def)
  obtain pe where pe: "EncodeUnit (Some (preunit_of p)) = Some pe" using EncodeUnit_total [OF v] by blast
  define hs where "hs = map (map_option Hash) (Parents u)"
  let ?c = "inferredCommitment c (Some (preunit_of p)) (marshal_comm c @ pe @ encode_hashes hs)"
  have hs: "\<forall>h \<in> set hs. \<forall>k. h = Some k \<longrightarrow> length k = HashLength" "ControlHash (pu_crown (preunit_of u)) = CombineHashes shake hs"
    using u(1) by (auto simp: committable_def hs_def)
  have cr: "unat (Creator u) < length hs" "hs ! unat (Creator u) = Some (Hash p)"
    using u(2) by (auto simp: Predecessor_def parent_at_def hs_def split: if_splits)
  have cfp: "commitmentForPreparent shake c (preunit_of p) (map (Some \<circ> hash_or_zero) hs) enc = Some (Inr (inferredCommitment c (Some (preunit_of p)) enc, encode_hashes hs))" for enc
    using u(3) p(2) cr hs(2) by (simp add: commitmentForPreparent_def Let_def Creator_def [symmetric] Hash_def [symmetric] hash_or_zero_def)
  have "commitmentForParent shake c (Some u) = Some (Inr (?c, encode_hashes hs))"
    using u pe decode_or_nil_EncodeUnit [OF v pe] by (simp add: commitmentForParent_def Hash_def Let_def hs_def)
  moreover have "getParentHash (encode_hashes hs) (Creator u) = Some (Hash p)"
    using getParentHash_encode [OF hs(1) cr(1)] cr(2) by (simp add: hash_or_zero_def)
  moreover have "acquire_loop shake input acc c (pe @ encode_hashes hs @ s) = acquire_loop shake input (acc @ [(c, encode_hashes hs)]) ?c s"
    if "memory input s = marshal_comm c @ pe @ encode_hashes hs" for input acc s
  proof -
    have "length (Heights (pu_crown (preunit_of p))) = length hs" using p by (simp add: committable_def hs_def)
    then show ?thesis
      using that decodePreunit_EncodeUnit [OF v pe, of "encode_hashes hs @ s"] read_hashes_encode [OF hs(1), of s] cfp [of "memory input s"]
      by (subst acquire_loop.simps) simp
  qed
  ultimately show thesis using that [OF pe arg_cong [where f = encode_hashes, OF hs_def]] by blast
qed

text \<open>The \<open>i\<close>-th commitment of a list is to the \<open>i\<close>-th predecessor and, but for the last, has the hashes of its parents.\<close>

definition describes :: "Unit \<Rightarrow> nat \<Rightarrow> (commitment \<times> bytes) list \<Rightarrow> bool" where
  "describes u k l \<longleftrightarrow> length l = Suc k \<and> (\<forall>i \<le> k. \<exists>w. chain u w \<and> Height w = Height u - int i \<and> getUnit (fst (l ! i)) = Some (preunit_of w)
     \<and> (i < k \<longrightarrow> getParentHash (snd (l ! i)) (Creator u) = map_option Hash (Predecessor w)))"

lemma describes_Cons:
  assumes "describes p k l" "chain u p" "Height p = Height u - 1" "Creator p = Creator u" "getUnit c = Some (preunit_of u)"
    and "getParentHash he (Creator u) = map_option Hash (Predecessor u)"
  shows "describes u (Suc k) ((c, he) # l)"
  unfolding describes_def
proof (intro conjI allI impI)
  fix i assume i: "i \<le> Suc k"
  show "\<exists>w. chain u w \<and> Height w = Height u - int i \<and> getUnit (fst (((c, he) # l) ! i)) = Some (preunit_of w)
     \<and> (i < Suc k \<longrightarrow> getParentHash (snd (((c, he) # l) ! i)) (Creator u) = map_option Hash (Predecessor w))"
  proof (cases i)
    case 0
    then show ?thesis using assms(5,6) by (auto intro: chain.refl)
  next
    case (Suc j)
    then have "j \<le> k" using i by simp
    then obtain w where "chain p w" "Height w = Height p - int j" "getUnit (fst (l ! j)) = Some (preunit_of w)"
        "j < k \<longrightarrow> getParentHash (snd (l ! j)) (Creator p) = map_option Hash (Predecessor w)"
      using assms(1) unfolding describes_def by blast
    then show ?thesis using Suc assms(2-4) chain_trans by (intro exI [of _ w]) auto
  qed
qed (use assms(1) in \<open>simp add: describes_def\<close>)

lemma acquire_justify:
  assumes "wf_set n S" "u \<in> S" "\<forall>w. chain u w \<longrightarrow> committable shake w" "int k \<le> Height u" "getUnit c = Some (preunit_of u)"
  shows "\<exists>l tail. justify shake c u k = Some l \<and> describes u k l \<and> fst (hd l) = c \<and> marshal_comm (fst (List.last l)) = marshal_comm c @ tail
    \<and> (\<forall>acc rest. acquire_loop shake (marshal_comm c @ tail @ PutUint64 (- 1) @ rest) acc c (tail @ PutUint64 (- 1) @ rest) = Some (Inr (acc @ l, rest)))"
  using assms
proof (induction k arbitrary: u c)
  case 0
  have "decodePreunit shake (PutUint64 (- 1) @ rest) = Some (Inr (None, rest))" for rest
    using decodePreunit_EncodeUnit [of shake None] by (simp add: valid_unit_def EncodeUnit_def encodeUnit_def)
  then show ?case using 0(5)
    by (intro exI [of _ "[(c, [])]"] exI [of _ "[]"]) (auto simp: describes_def acquire_loop.simps intro: chain.refl)
next
  case (Suc k)
  note W = Suc.prems(1) and u = Suc.prems(2)
  obtain p where p: "Predecessor u = Some p" using Suc.prems(4) wf_setD(1) [OF W u] by (cases "Predecessor u") (auto simp: wf_node_def)
  have pS: "p \<in> S" using wf_setD(3) [OF W u p] .
  have ch: "chain u p" using p by (auto intro: chain.step chain.refl)
  have P: "Creator p = Creator u" "Height p = Height u - 1" "length (Parents p) = length (Parents u)"
    using wf_node_Predecessor [OF wf_setD(1) [OF W u] p] wf_setD(1) [OF W u] wf_setD(1) [OF W pS] by (auto simp: wf_node_def)
  have cm: "committable shake u" "committable shake p" using Suc.prems(3) ch by (auto intro: chain.refl)
  obtain pe he where st: "EncodeUnit (Some (preunit_of p)) = Some pe"
      "commitmentForParent shake c (Some u) = Some (Inr (inferredCommitment c (Some (preunit_of p)) (marshal_comm c @ pe @ he), he))"
      "getParentHash he (Creator u) = Some (Hash p)"
      "\<And>input acc s. memory input s = marshal_comm c @ pe @ he \<Longrightarrow>
         acquire_loop shake input acc c (pe @ he @ s) = acquire_loop shake input (acc @ [(c, he)]) (inferredCommitment c (Some (preunit_of p)) (marshal_comm c @ pe @ he)) s"
    by (rule commitment_step [OF cm(1) p Suc.prems(5) cm(2) P(1,3)]) blast
  let ?c = "inferredCommitment c (Some (preunit_of p)) (marshal_comm c @ pe @ he)"
  have "\<forall>w. chain p w \<longrightarrow> committable shake w" using Suc.prems(3) ch chain_trans by blast
  then obtain l tail where l: "justify shake ?c p k = Some l" "describes p k l" "marshal_comm (fst (List.last l)) = marshal_comm ?c @ tail"
      "\<And>acc rest. acquire_loop shake (marshal_comm ?c @ tail @ PutUint64 (- 1) @ rest) acc ?c (tail @ PutUint64 (- 1) @ rest) = Some (Inr (acc @ l, rest))"
    using Suc.IH [OF W pS, of ?c] Suc.prems(4) P(2) by auto
  have "l \<noteq> []" using l(2) by (auto simp: describes_def)
  moreover have "acquire_loop shake (marshal_comm c @ (pe @ he @ tail) @ PutUint64 (- 1) @ rest) acc c ((pe @ he @ tail) @ PutUint64 (- 1) @ rest) = Some (Inr (acc @ (c, he) # l, rest))" for acc rest
    using st(4) [of "marshal_comm c @ (pe @ he @ tail) @ PutUint64 (- 1) @ rest" "tail @ PutUint64 (- 1) @ rest" acc] l(4) [of rest "acc @ [(c, he)]"]
    by (simp add: memory_def)
  ultimately show ?case
    using st(2) p l(1,3) describes_Cons [OF l(2) ch P(2,1) Suc.prems(5)] st(3)
    by (intro exI [of _ "(c, he) # l"] exI [of _ "pe @ he @ tail"]) simp
qed

lemma acquire_committed:
  assumes "wf_set n S" "u \<in> S" "\<forall>w. chain u w \<longrightarrow> committable shake w" "int k \<le> Height u" "EncodeUnit (Some (preunit_of u)) = Some ue"
  shows "\<exists>l. justify shake (newBaseCommitment (Some (preunit_of u)) ue uid) u k = Some l \<and> describes u k l
    \<and> acquireCommitments shake (marshal_comm (fst (List.last l)) @ PutUint64 (- 1) @ rest) = Some (Inr (l, rest))
    \<and> (\<forall>fp. fp_pcommit fp = Some (preunit_of u) \<longrightarrow> checkProof (fst (hd l)) (Some fp) = Some None)"
proof -
  let ?c = "newBaseCommitment (Some (preunit_of u)) ue uid"
  have c: "getUnit ?c = Some (preunit_of u)" "marshal_comm ?c = PutUint64 uid @ ue" by (simp_all add: newBaseCommitment_def)
  obtain l tail where l: "justify shake ?c u k = Some l" "describes u k l" "fst (hd l) = ?c" "marshal_comm (fst (List.last l)) = marshal_comm ?c @ tail"
      "\<And>acc rest. acquire_loop shake (marshal_comm ?c @ tail @ PutUint64 (- 1) @ rest) acc ?c (tail @ PutUint64 (- 1) @ rest) = Some (Inr (acc @ l, rest))"
    using acquire_justify [OF assms(1-4) c(1)] by blast
  have v: "valid_unit shake (Some (preunit_of u))" using assms(3) chain.refl [of u] by (auto simp: committable_def)
  let ?in = "marshal_comm ?c @ tail @ PutUint64 (- 1) @ rest" and ?s = "tail @ PutUint64 (- 1) @ rest"
  have "acquireCommitments shake ?in = acquire_loop shake ?in [] (baseCommitment uid (Some (preunit_of u)) (memory ?in ?s)) ?s"
    using decodePreunit_EncodeUnit [OF v assms(5), of ?s] by (simp add: acquireCommitments_def c(2) rbind_Inr wire_simps)
  also have "baseCommitment uid (Some (preunit_of u)) (memory ?in ?s) = ?c" by (simp add: memory_def c(2) newBaseCommitment_def)
  finally have "acquireCommitments shake ?in = Some (Inr (l, rest))" using l(5) [of rest "[]"] by simp
  then show ?thesis using l c by (auto simp: newBaseCommitment_def)
qed


end
