(* ===== verification/Alerts.thy ===== *)
theory Alerts
  imports Commitments Gossip
begin

text \<open>
  The alerter (\<open>pkg/forking/alert.go\<close>): alerts about forks, commitments to units of forkers, and how they decide between
  ambiguous parents. The orderer is an argument (\<open>ord\<close>). What the reliable multicast (\<open>core-go/pkg/rmcbox\<close>) and the network give is an
  argument too: the data received with an alert, the answer to a request. An alert counts as sent when \<open>raiseAlert\<close> returns; the
  alerts, the finished alerts sent to a peer and the forks told to observers are recorded in the state.
\<close>

section \<open>State and ids\<close>

record 'k alertHandler =
  al_myPid :: u16
  al_nProc :: u16
  al_keys :: "'k option list"
  al_commitments :: commitBase
  al_alerts :: "(u64 \<times> bytes) list"
  al_finished :: "(u64 \<times> u16) list"
  al_observed :: "(preunit \<times> preunit) list"

definition newAlertHandler :: "'k conf \<Rightarrow> 'k alertHandler" where
  "newAlertHandler cnf =
     \<lparr>al_myPid = Pid cnf, al_nProc = NProc cnf, al_keys = PublicKeys cnf, al_commitments = newCommitBase,
      al_alerts = [], al_finished = [], al_observed = []\<rparr>"

definition alertID :: "u16 \<Rightarrow> u16 \<Rightarrow> EpochID \<Rightarrow> u64" where
  "alertID myPid forker epoch = ucast myPid + push_bit 16 (ucast forker) + push_bit 32 (ucast epoch)"

definition decodeAlertID :: "u64 \<Rightarrow> u16 \<Rightarrow> u16 \<times> u16 \<times> EpochID \<times> string option" where
  "decodeAlertID uid pid =
     (let raiser = ucast (uid AND (push_bit 16 1 - 1)) :: u16;
          uid1 = drop_bit 16 uid;
          forker = ucast (uid1 AND (push_bit 16 1 - 1)) :: u16;
          epoch = ucast (drop_bit 16 uid1) :: EpochID
      in if raiser \<noteq> pid then (forker, raiser, epoch, Some ''decoded pid does not match provided pid'')
         else if raiser = forker then (forker, raiser, epoch, Some ''cannot commit to own fork'')
         else (forker, raiser, epoch, None))"

section \<open>Raising and accepting alerts\<close>

text \<open>\<open>a.commitments.add\<close> of a new commitment.\<close>

definition add_comm :: "'k alertHandler \<Rightarrow> commitment \<Rightarrow> u16 \<Rightarrow> u16 \<Rightarrow> 'k alertHandler" where
  "add_comm al c commiter forker =
     (case new_comm (al_commitments al) c [] of (p, cb) \<Rightarrow> al\<lparr>al_commitments := cb_add cb p commiter forker\<rparr>)"

text \<open>\<open>raiseAlert\<close>; a nil proof panics.\<close>

definition raiseAlert :: "(bytes \<Rightarrow> hash) \<Rightarrow> 'k alertHandler \<Rightarrow> forkingProof option \<Rightarrow> 'k alertHandler go" where
  "raiseAlert shake al fp =
     do { proof \<leftarrow> fp;
          forker \<leftarrow> forkerID proof;
          if getByParties (al_commitments al) (al_myPid al) forker \<noteq> None then Some al
          else do { epoch \<leftarrow> proof_epochID proof;
                    let uid = alertID (al_myPid al) forker epoch;
                    comm \<leftarrow> extractCommitment shake proof uid;
                    Some (add_comm (al\<lparr>al_alerts := al_alerts al @ [(uid, fp_encoded proof)]\<rparr>) comm (al_myPid al) forker) } }"

text \<open>\<open>a.orderer.MaxUnits(epoch).Get(forker)\<close>: a call on the nil result for an unknown epoch panics.\<close>

definition max_units :: "('r, 'k) orderer \<Rightarrow> EpochID \<Rightarrow> u16 \<Rightarrow> Unit list go" where
  "max_units ord e forker = do { su \<leftarrow> MaxUnits ord e; maxes \<leftarrow> su; Some (Get maxes forker) }"

text \<open>
  The end of \<open>acceptFinished\<close> and \<open>acceptAlert\<close>. \<open>Lock\<close> indexes the locks of the \<open>nProc\<close> processes, so it panics for any other forker.
\<close>

definition own_alert :: "(bytes \<Rightarrow> hash) \<Rightarrow> ('r, 'k) orderer \<Rightarrow> 'k alertHandler \<Rightarrow> u16 \<Rightarrow> u16 \<Rightarrow> EpochID \<Rightarrow> forkingProof \<Rightarrow> 'k alertHandler go" where
  "own_alert shake ord al pid forker epoch proof =
     (if al_nProc al \<le> forker then None
      else if getByParties (al_commitments al) (al_myPid al) pid = None then
        do { maxes \<leftarrow> max_units ord epoch forker;
             proof' \<leftarrow> replaceCommit shake proof (case maxes of [] \<Rightarrow> None | m # _ \<Rightarrow> Some (preunit_of m));
             raiseAlert shake al (Some proof') }
      else Some al)"

definition acceptFinished :: "(bytes \<Rightarrow> hash) \<Rightarrow> ('r, 'k) orderer \<Rightarrow> 'k alertHandler \<Rightarrow> u64 \<Rightarrow> u16 \<Rightarrow> string + bytes \<Rightarrow> 'k alertHandler go" where
  "acceptFinished shake ord al uid pid received =
     (case decodeAlertID uid pid of
        (forker, _, epoch, Some _) \<Rightarrow> Some al
      | (forker, _, epoch, None) \<Rightarrow>
          (case received of
             Inl _ \<Rightarrow> Some al
           | Inr data \<Rightarrow>
               do { r \<leftarrow> unmarshal shake data;
                    case r of
                      Inl _ \<Rightarrow> Some al
                    | Inr proof \<Rightarrow>
                        do { comm \<leftarrow> extractCommitment shake proof uid;
                             own_alert shake ord (add_comm al comm pid forker) pid forker epoch proof } }))"

definition acceptAlert ::
  "(bytes \<Rightarrow> hash) \<Rightarrow> ('k \<Rightarrow> preunit \<Rightarrow> bool) \<Rightarrow> ('r, 'k) orderer \<Rightarrow> 'k alertHandler \<Rightarrow> u64 \<Rightarrow> u16 \<Rightarrow> string + bytes \<Rightarrow> 'k alertHandler go" where
  "acceptAlert shake verify ord al uid pid received =
     (case decodeAlertID uid pid of
        (forker, _, epoch, Some _) \<Rightarrow> Some al
      | (forker, _, epoch, None) \<Rightarrow>
          (case received of
             Inl _ \<Rightarrow> Some al
           | Inr data \<Rightarrow>
               do { r \<leftarrow> unmarshal shake data;
                    case r of
                      Inl _ \<Rightarrow> Some al
                    | Inr proof \<Rightarrow>
                        do { key \<leftarrow> nth_opt (al_keys al) (unat forker);
                             err \<leftarrow> checkCorrectness_fp verify proof forker key;
                             case err of
                               Some _ \<Rightarrow> Some al
                             | None \<Rightarrow>
                                 do { comm \<leftarrow> extractCommitment shake proof uid;
                                      own_alert shake ord (add_comm al comm pid forker) pid forker epoch proof } } }))"

definition IsForker :: "'k alertHandler \<Rightarrow> u16 \<Rightarrow> bool" where
  "IsForker al forker = isForker (al_commitments al) forker"

definition hasCommitmentTo :: "'k alertHandler \<Rightarrow> Unit \<Rightarrow> bool" where
  "hasCommitmentTo al u \<longleftrightarrow> getByHash (al_commitments al) (Hash u) \<noteq> None"

definition NewFork :: "(bytes \<Rightarrow> hash) \<Rightarrow> ('r, 'k) orderer \<Rightarrow> 'k alertHandler \<Rightarrow> preunit \<Rightarrow> preunit \<Rightarrow> 'k alertHandler go" where
  "NewFork shake ord al u v =
     (if UnitID u \<noteq> UnitID v then Some al
      else if al_nProc al \<le> pu_creator u then None
      else if IsForker al (pu_creator u) then Some al
      else do { maxes \<leftarrow> max_units ord (pu_epochID u) (pu_creator u);
                proof \<leftarrow> newForkingProof shake u v (case maxes of [] \<Rightarrow> None | m # _ \<Rightarrow> Some (preunit_of m));
                al1 \<leftarrow> raiseAlert shake al proof;
                Some (al1\<lparr>al_observed := al_observed al1 @ [(u, v)]\<rparr>) })"

text \<open>\<open>for v.Height() > u.Height() { v = gomel.Predecessor(v) }\<close> panics past the first unit.\<close>

definition handleForkerUnit :: "(bytes \<Rightarrow> hash) \<Rightarrow> ('r, 'k) orderer \<Rightarrow> 'k alertHandler \<Rightarrow> Unit \<Rightarrow> (bool \<times> 'k alertHandler) go" where
  "handleForkerUnit shake ord al u =
     (if IsForker al (Creator u) then Some (True, al)
      else do { maxes \<leftarrow> max_units ord (Epoch u) (Creator u);
                case maxes of
                  [] \<Rightarrow> Some (False, al)
                | mx # _ \<Rightarrow>
                    if Height mx \<ge> Height u then
                      do { v \<leftarrow> descendTo (Some mx) (Height u);
                           proof \<leftarrow> newForkingProof shake (preunit_of u) (preunit_of v) (Some (preunit_of mx));
                           case proof of
                             None \<Rightarrow> Some (False, al)
                           | Some p \<Rightarrow> do { al1 \<leftarrow> raiseAlert shake al (Some p); Some (True, al1) } }
                    else Some (False, al) })"

definition checkCommitment :: "(bytes \<Rightarrow> hash) \<Rightarrow> ('r, 'k) orderer \<Rightarrow> 'k alertHandler \<Rightarrow> Unit \<Rightarrow> (gerror option \<times> 'k alertHandler) go" where
  "checkCommitment shake ord al u =
     do { (b, al1) \<leftarrow> handleForkerUnit shake ord al u;
          Some (if b \<and> \<not> hasCommitmentTo al1 u then Some (noCommitment ''missing commitment to fork'') else None, al1) }"

section \<open>Ambiguous parents\<close>

definition disambiguateForker :: "'k alertHandler \<Rightarrow> Unit list \<Rightarrow> preunit \<Rightarrow> gerror + Unit option" where
  "disambiguateForker al possibleParents pu =
     (case getByHash (al_commitments al) (pu_hash pu) of
        None \<Rightarrow> Inl (noCommitment ''missing commitment to fork'')
      | Some c \<Rightarrow>
          (case getParentHash (co_parentHashes (cb_heap (al_commitments al) ! c)) (pu_creator pu) of
             None \<Rightarrow> Inl (OtherError ''too shallow commitment'')
           | Some h \<Rightarrow>
               (case find (\<lambda>u. h = Hash u) possibleParents of
                  Some u \<Rightarrow> Inr (Some u)
                | None \<Rightarrow> Inl (UnknownParents 1))))"

definition Disambiguate :: "('r, 'k) orderer \<Rightarrow> 'k alertHandler \<Rightarrow> Unit list \<Rightarrow> preunit \<Rightarrow> (gerror + Unit option) go" where
  "Disambiguate ord al possibleParents pu =
     (case possibleParents of
        [] \<Rightarrow> Some (Inr None)
      | [u] \<Rightarrow> Some (Inr (Some u))
      | u0 # _ \<Rightarrow>
          let pid = pu_creator pu; forker = Creator u0 in
          if pid = forker then Some (disambiguateForker al possibleParents pu)
          else
            let height = Height u0 in
            (case getByParties (al_commitments al) pid forker of
               None \<Rightarrow> Some (Inl (noCommitment ''no commitment by this pid''))
             | Some c \<Rightarrow>
                 (case getUnit (comm_at (al_commitments al) c) of
                    None \<Rightarrow> Some (Inl (ComplianceError ''unit built on noncommitted parent''))
                  | Some cu \<Rightarrow>
                      (case hd (UnitsByHash ord [pu_hash cu]) of
                         None \<Rightarrow> Some (Inl (noCommitment ''no committed unit needed for disambiguation''))
                       | Some u \<Rightarrow>
                           if Height u < height then Some (Inl (ComplianceError ''unit built on noncommitted parent''))
                           else do { w \<leftarrow> descendTo (Some u) height; Some (Inr (Some w)) }))))"

section \<open>Requests for commitments\<close>

text \<open>The loop down to the last predecessor with a commitment, with the next predecessor.\<close>

function last_committed :: "'k alertHandler \<Rightarrow> Unit \<Rightarrow> Unit \<times> Unit option" where
  "last_committed al u =
     (case Predecessor u of
        None \<Rightarrow> (u, None)
      | Some p \<Rightarrow> if hasCommitmentTo al p then last_committed al p else (u, Some p))"
  by pat_completeness auto
termination
  by (relation "measure (\<lambda>(_, u). size u)") (auto dest: Predecessor_size)

declare last_committed.simps [simp del]

text \<open>The loop that infers commitments down to a height; without a predecessor \<open>commUnit.Height()\<close> panics.\<close>

function infer_down :: "(bytes \<Rightarrow> hash) \<Rightarrow> u16 \<Rightarrow> int \<Rightarrow> commitBase \<Rightarrow> nat \<Rightarrow> Unit \<Rightarrow> ((string + nat) \<times> commitBase) go" where
  "infer_down shake myPid h cb comm commUnit =
     (if Height commUnit > h then
        (case commitmentForParent shake (comm_at cb comm) (Some commUnit) of
           None \<Rightarrow> None
         | Some (Inl err) \<Rightarrow> Some (Inl err, cb)
         | Some (Inr (c, ph)) \<Rightarrow>
             (case new_comm (setParentHashes cb comm ph) c [] of
                (q, cb1) \<Rightarrow>
                  (case Predecessor commUnit of
                     None \<Rightarrow> None
                   | Some p \<Rightarrow> infer_down shake myPid h (cb_add cb1 q myPid (Creator commUnit)) q p)))
      else Some (Inr comm, cb))"
  by pat_completeness auto
termination
  by (relation "measure (\<lambda>(_, _, _, _, _, u). size u)") (auto dest: Predecessor_size)

declare infer_down.simps [simp del]

definition produceCommitmentFor :: "(bytes \<Rightarrow> hash) \<Rightarrow> ('r, 'k) orderer \<Rightarrow> 'k alertHandler \<Rightarrow> Unit \<Rightarrow> ((string + nat) \<times> 'k alertHandler) go" where
  "produceCommitmentFor shake ord al unit =
     (let cb = al_commitments al in
      case getByParties cb (al_myPid al) (Creator unit) of
        None \<Rightarrow> Some (Inl ''we are not aware of any forks here'', al)
      | Some c \<Rightarrow>
          (case getUnit (comm_at cb c) of
             None \<Rightarrow> Some (Inl ''we did not commit to anything'', al)
           | Some pu \<Rightarrow>
               (case hd (UnitsByHash ord [pu_hash pu]) of
                  None \<Rightarrow> Some (Inl ''we do not have the unit we committed to'', al)
                | Some commUnit0 \<Rightarrow>
                    (case last_committed al commUnit0 of
                       (commUnit, pred) \<Rightarrow>
                         if pred = None \<or> Height commUnit \<le> Height unit then
                           Some (case getByHash cb (Hash unit) of None \<Rightarrow> Inl ''we are actually not committed to this unit'' | Some c' \<Rightarrow> Inr c', al)
                         else
                           do { c' \<leftarrow> getByHash cb (Hash commUnit);
                                (r, cb1) \<leftarrow> infer_down shake (al_myPid al) (Height unit) cb c' commUnit;
                                let al1 = al\<lparr>al_commitments := cb1\<rparr>;
                                case r of
                                  Inl err \<Rightarrow> Some (Inl err, al1)
                                | Inr q \<Rightarrow>
                                    Some (if map_option pu_hash (getUnit (comm_at cb1 q)) = Some (Hash unit) then Inr q
                                          else Inl ''produced commitment for wrong unit'', al1) }))))"

text \<open>
  The answer to a request: nothing, the byte 1, or the byte 0 with the bytes of a commitment and the nil unit, after which the
  finished multicast of the given id is sent.
\<close>

datatype reply = NoReply | Unaware | Committed bytes u64

definition handleCommitmentRequest :: "(bytes \<Rightarrow> hash) \<Rightarrow> ('r, 'k) orderer \<Rightarrow> 'k alertHandler \<Rightarrow> hash \<Rightarrow> (reply \<times> 'k alertHandler) go" where
  "handleCommitmentRequest shake ord al reqHash =
     (case hd (UnitsByHash ord [reqHash]) of
        None \<Rightarrow> Some (NoReply, al)
      | Some unit0 \<Rightarrow>
          let unit = (case Predecessor unit0 of None \<Rightarrow> unit0 | Some pred \<Rightarrow> pred) in
          do { (r, al1) \<leftarrow>
                 (case getByHash (al_commitments al) reqHash of
                    Some c \<Rightarrow> Some (Inr (Some c), al)
                  | None \<Rightarrow>
                      if \<not> IsForker al (Creator unit) then Some (Inr None, al)
                      else map_option (map_prod (map_sum id Some) id) (produceCommitmentFor shake ord al unit));
               case r of
                 Inl _ \<Rightarrow> Some (NoReply, al1)
               | Inr None \<Rightarrow> Some (Unaware, al1)
               | Inr (Some c) \<Rightarrow>
                   do { nilUnit \<leftarrow> EncodeUnit None;
                        let comm = comm_at (al_commitments al1) c;
                        Some (Committed (marshal_comm comm @ nilUnit) (rmcID comm), al1) } })"

definition sendFinished :: "'k alertHandler \<Rightarrow> u16 \<Rightarrow> u16 \<Rightarrow> 'k alertHandler" where
  "sendFinished al forker pid =
     (case getByParties (al_commitments al) (al_myPid al) forker of
        None \<Rightarrow> al
      | Some c \<Rightarrow> al\<lparr>al_finished := al_finished al @ [(rmcID (comm_at (al_commitments al) c), pid)]\<rparr>)"

text \<open>
  \<open>RequestCommitment\<close>: \<open>conn\<close> is an error of the connection or the stream that the peer answers with, \<open>accept\<close> is \<open>AcceptFinished\<close>
  of the multicast on the rest of the stream. An error of \<open>unmarshal\<close> is dropped and leaves a nil proof.
\<close>

fun wire_text :: "wire_error \<Rightarrow> string" where
  "wire_text EOF = ''EOF''"
| "wire_text ErrUnexpectedEOF = ''unexpected EOF''"
| "wire_text (WireError msg) = msg"

definition RequestCommitment ::
  "(bytes \<Rightarrow> hash) \<Rightarrow> (u64 \<Rightarrow> u16 \<Rightarrow> bytes \<Rightarrow> string + bytes) \<Rightarrow> 'k alertHandler \<Rightarrow> preunit \<Rightarrow> u16 \<Rightarrow> string + bytes \<Rightarrow> (gerror option \<times> 'k alertHandler) go" where
  "RequestCommitment shake accept al pu pid conn =
     (case conn of
        Inl err \<Rightarrow> Some (Some (OtherError err), al)
      | Inr [] \<Rightarrow> Some (Some (OtherError ''EOF''), al)
      | Inr (b # stream) \<Rightarrow>
          if b = 1 then Some (Some (OtherError ''peer was unaware of forker''), sendFinished al (pu_creator pu) pid)
          else do { r \<leftarrow> acquireCommitments shake stream;
                    case r of
                      Inl e \<Rightarrow> Some (Some (OtherError (wire_text e)), al)
                    | Inr (comms, rest) \<Rightarrow>
                        let uid = rmcID (fst (hd comms)); raiser = fst (snd (decodeAlertID uid 0)) in
                        (case accept uid raiser rest of
                           Inl err \<Rightarrow> Some (Some (OtherError err), al)
                         | Inr data \<Rightarrow>
                             do { u \<leftarrow> unmarshal shake data;
                                  res \<leftarrow> addBatch (al_commitments al) comms (case u of Inl _ \<Rightarrow> None | Inr proof \<Rightarrow> Some proof) raiser;
                                  Some (case res of
                                          Inl err \<Rightarrow> (Some (OtherError err), al)
                                        | Inr cb \<Rightarrow> (None, al\<lparr>al_commitments := cb\<rparr>)) }) })"

text \<open>
  \<open>HandleIncoming\<close>: \<open>greeting\<close> is an error or what \<open>AcceptGreeting\<close> of the multicast gives, with the rest of the stream; \<open>acceptData\<close>
  and \<open>accept\<close> are \<open>AcceptData\<close> and \<open>AcceptFinished\<close> of the multicast. A proof of a finished multicast changes only the state of the multicast.
\<close>

definition HandleIncoming ::
  "(bytes \<Rightarrow> hash) \<Rightarrow> ('k \<Rightarrow> preunit \<Rightarrow> bool) \<Rightarrow> (u64 \<Rightarrow> u16 \<Rightarrow> bytes \<Rightarrow> string + bytes) \<Rightarrow> (u64 \<Rightarrow> u16 \<Rightarrow> bytes \<Rightarrow> string + bytes) \<Rightarrow>
   ('r, 'k) orderer \<Rightarrow> 'k alertHandler \<Rightarrow> string + u16 \<times> u64 \<times> u8 \<times> bytes \<Rightarrow> (reply \<times> 'k alertHandler) go" where
  "HandleIncoming shake verify acceptData accept ord al greeting =
     (case greeting of
        Inl _ \<Rightarrow> Some (NoReply, al)
      | Inr (pid, uid, msgType, stream) \<Rightarrow>
          if msgType = 0 then map_option (Pair NoReply) (acceptAlert shake verify ord al uid pid (acceptData uid pid stream))
          else if msgType = 1 then Some (NoReply, al)
          else if msgType = 2 then map_option (Pair NoReply) (acceptFinished shake ord al uid pid (accept uid pid stream))
          else if msgType = 3 then
            (if length stream < HashLength then Some (NoReply, al) else handleCommitmentRequest shake ord al (take HashLength stream))
          else Some (NoReply, al))"

section \<open>Alert ids\<close>

lemma alertID_ID: "alertID p f e = ID (uint p) f e"
  by (simp add: alertID_def ID_def unsigned_ucast_eq word_of_int_uint)

lemma decodeAlertID_DecodeID:
  assumes "DecodeID uid = (uint p, f, e)"
  shows "fst (decodeAlertID uid pid) = f" "fst (snd (decodeAlertID uid pid)) = p" "fst (snd (snd (decodeAlertID uid pid))) = e"
    "snd (snd (snd (decodeAlertID uid pid))) = (if p \<noteq> pid then Some ''decoded pid does not match provided pid'' else if p = f then Some ''cannot commit to own fork'' else None)"
proof -
  have "uint (uid AND (push_bit 16 1 - 1)) = uint p" using assms by (simp add: DecodeID_def Let_def)
  then have "ucast (uid AND (push_bit 16 1 - 1)) = p" by (metis ucast_eq word_of_int_uint)
  then show "fst (decodeAlertID uid pid) = f" "fst (snd (decodeAlertID uid pid)) = p" "fst (snd (snd (decodeAlertID uid pid))) = e"
    "snd (snd (snd (decodeAlertID uid pid))) = (if p \<noteq> pid then Some ''decoded pid does not match provided pid'' else if p = f then Some ''cannot commit to own fork'' else None)"
    using assms by (auto simp: decodeAlertID_def DecodeID_def Let_def)
qed

lemma DecodeID_alertID: "DecodeID (alertID p f e) = (uint p, f, e)"
  unfolding alertID_ID by (rule DecodeID_ID_lemma) (use uint_lt2p [of p] in simp_all)

lemmas decode_alertID [simp] = decodeAlertID_DecodeID [OF DecodeID_alertID]

text \<open>
  An alert id determines the process that raised the alert, the forker and the epoch; it is accepted
  from the process that raised it, unless that is the forker itself.
\<close>

theorem alertID_roundtrip:
  "decodeAlertID (alertID raiser forker epoch) pid = (forker, raiser, epoch,
     if raiser \<noteq> pid then Some ''decoded pid does not match provided pid'' else if raiser = forker then Some ''cannot commit to own fork'' else None)"
  by (simp add: prod_eq_iff)

section \<open>Commitments are kept\<close>

text \<open>The base only grows: objects keep their immutable part, members keep their commitments.\<close>

definition cb_ext :: "commitBase \<Rightarrow> commitBase \<Rightarrow> bool" where
  "cb_ext cb cb' \<longleftrightarrow> length (cb_heap cb) \<le> length (cb_heap cb') \<and> (\<forall>p < length (cb_heap cb). comm_at cb' p = comm_at cb p)
     \<and> (\<forall>x y p. getByParties cb x y = Some p \<longrightarrow> getByParties cb' x y = Some p) \<and> (\<forall>h. getByHash cb h \<noteq> None \<longrightarrow> getByHash cb' h \<noteq> None)
     \<and> (\<forall>f. isForker cb f \<longrightarrow> isForker cb' f)"

lemma cb_ext_refl [simp]: "cb_ext cb cb"
  by (simp add: cb_ext_def)

lemma cb_ext_trans: "cb_ext cb cb1 \<Longrightarrow> cb_ext cb1 cb2 \<Longrightarrow> cb_ext cb cb2"
  unfolding cb_ext_def by (metis order_trans order_less_le_trans)

lemma cb_ext_new: "new_comm cb c ph = (q, cb') \<Longrightarrow> cb_ext cb cb' \<and> q = length (cb_heap cb) \<and> length (cb_heap cb') = Suc q \<and> comm_at cb' q = c
    \<and> toUnit cb' = toUnit cb \<and> byMember cb' = byMember cb"
  by (auto simp: new_comm_def cb_ext_def nth_append getByParties_def getByHash_def isForker_def)

lemma comm_at_set [simp]: "comm_at (setParentHashes cb p ph) i = comm_at cb i"
  by (cases "i = p"; cases "p < length (cb_heap cb)") (simp_all add: setParentHashes_def list_update_beyond)

lemma cb_ext_set: "cb_ext cb (setParentHashes cb p ph)"
  unfolding cb_ext_def by (simp, simp add: setParentHashes_def getByParties_def getByHash_def isForker_def)

lemma cb_add_simps [simp]:
  "cb_heap (cb_add cb q a b) = cb_heap cb" "isForker (cb_add cb q a b) f = (f = b \<or> isForker cb f)"
  "getByParties (cb_add cb q a b) x y = (if y = b \<and> x = a \<and> getByParties cb a b = None then Some q else getByParties cb x y)"
  by (auto simp: cb_add_def Let_def isForker_def getByParties_def split: option.splits)

lemma getByHash_cb_add:
  "getByHash (cb_add cb q a b) h = (case getUnit (comm_at cb q) of
     Some cu \<Rightarrow> if h = pu_hash cu \<and> (\<forall>r. getByHash cb h = Some r \<longrightarrow> getParentHash (co_parentHashes (cb_heap cb ! r)) 0 = None) then Some q else getByHash cb h
   | None \<Rightarrow> getByHash cb h)"
  by (auto simp: cb_add_def Let_def getByHash_def split: option.splits)

lemma cb_ext_add: "cb_ext cb (cb_add cb q a b)"
  unfolding cb_ext_def by (auto simp: getByHash_cb_add split: option.splits)

lemma cb_ext_infer: "infer_down shake me h cb c u = Some (r, cb') \<Longrightarrow> cb_ext cb cb'"
proof (induction shake me h cb c u arbitrary: r rule: infer_down.induct)
  case (1 shake me h cb c u)
  show ?case
  proof (cases "Height u > h")
    case True
    show ?thesis
    proof (cases "\<exists>err. commitmentForParent shake (comm_at cb c) (Some u) = Some (Inl err)")
      case True
      then show ?thesis using 1(2) \<open>Height u > h\<close> by (auto simp: infer_down.simps [of shake me h cb c u])
    next
      case False
      then obtain c' ph q cb1 p where s: "commitmentForParent shake (comm_at cb c) (Some u) = Some (Inr (c', ph))" "new_comm (setParentHashes cb c ph) c' [] = (q, cb1)"
          "Predecessor u = Some p" "infer_down shake me h (cb_add cb1 q me (Creator u)) q p = Some (r, cb')"
        using 1(2) True by (auto simp: infer_down.simps [of shake me h cb c u] split: option.splits sum.splits prod.splits)
      have "cb_ext (cb_add cb1 q me (Creator u)) cb'" using 1(1) True s by fastforce
      then show ?thesis using cb_ext_trans [OF cb_ext_set cb_ext_trans [OF conjunct1 [OF cb_ext_new [OF s(2)]] cb_ext_trans [OF cb_ext_add]]] by blast
    qed
  qed (use 1(2) in \<open>simp add: infer_down.simps\<close>)
qed

lemma cb_ext_batch:
  assumes "addBatch cb comms fp raiser = Some (Inr cb')"
  shows "cb_ext cb cb'"
proof -
  let ?add = "\<lambda>f cb (c, ph). case new_comm cb c ph of (q, cb') \<Rightarrow> cb_add cb' q raiser f"
  have step: "cb_ext cb (?add f cb x)" for cb f x
  proof -
    obtain c ph where x: "x = (c, ph)" by (cases x)
    obtain q cb1 where n: "new_comm cb c ph = (q, cb1)" by fastforce
    show ?thesis using cb_ext_trans [OF conjunct1 [OF cb_ext_new [OF n]] cb_ext_add] by (simp add: x n)
  qed
  have "cb_ext cb (foldl (?add f) cb xs)" for f cb xs
  proof (induction xs arbitrary: cb)
    case (Cons x xs)
    show ?case unfolding foldl_Cons by (rule cb_ext_trans [OF step Cons.IH])
  qed simp
  moreover have "\<exists>f. cb' = foldl (?add f) cb comms"
    using assms by (auto simp: addBatch_def bind_eq_Some_conv split: list.splits option.splits)
  ultimately show ?thesis by blast
qed

section \<open>One commitment per forker\<close>

text \<open>
  Two handlers agree in what they are and \<open>al'\<close> has at least the commitments of \<open>al\<close>; \<open>quiet\<close> says that in addition no alert was raised.
\<close>

definition quiet :: "'k alertHandler \<Rightarrow> 'k alertHandler \<Rightarrow> bool" where
  "quiet al al' \<longleftrightarrow> al_myPid al' = al_myPid al \<and> al_alerts al' = al_alerts al \<and> cb_ext (al_commitments al) (al_commitments al')"

text \<open>\<open>al'\<close> comes from \<open>al\<close> by raising at most one alert, against a process against which there was none.\<close>

definition raised :: "'k alertHandler \<Rightarrow> 'k alertHandler \<Rightarrow> bool" where
  "raised al al' \<longleftrightarrow> al_myPid al' = al_myPid al \<and> cb_ext (al_commitments al) (al_commitments al')
     \<and> (\<exists>forker epoch data q. getByParties (al_commitments al) (al_myPid al) forker = None
         \<and> al_alerts al' = al_alerts al @ [(alertID (al_myPid al) forker epoch, data)]
         \<and> getByParties (al_commitments al') (al_myPid al) forker = Some q \<and> q < length (cb_heap (al_commitments al'))
         \<and> rmcID (comm_at (al_commitments al') q) = alertID (al_myPid al) forker epoch)"

definition al_step :: "'k alertHandler \<Rightarrow> 'k alertHandler \<Rightarrow> bool" where
  "al_step al al' \<longleftrightarrow> quiet al al' \<or> raised al al'"

lemma quiet_refl [simp]: "quiet al al"
  by (simp add: quiet_def)

lemma al_step_refl [simp]: "al_step al al"
  by (simp add: al_step_def)

lemma quiet_step:
  assumes q: "quiet al al1" and s: "al_step al1 al2"
  shows "al_step al al2"
proof -
  have p: "al_myPid al1 = al_myPid al" "al_alerts al1 = al_alerts al" and x: "cb_ext (al_commitments al) (al_commitments al1)" using q by (auto simp: quiet_def)
  have none: "getByParties (al_commitments al1) a b = None \<Longrightarrow> getByParties (al_commitments al) a b = None" for a b
    using x unfolding cb_ext_def by (metis option.exhaust)
  from s consider "quiet al1 al2" | "raised al1 al2" by (auto simp: al_step_def)
  then show ?thesis
  proof cases
    case 1
    then show ?thesis using p cb_ext_trans [OF x] by (simp add: al_step_def quiet_def)
  next
    case 2
    then have "raised al al2" unfolding raised_def p using cb_ext_trans [OF x] none by blast
    then show ?thesis by (simp add: al_step_def)
  qed
qed

lemma add_comm_quiet: "quiet al (add_comm al c commiter forker)"
proof -
  obtain q cb where n: "new_comm (al_commitments al) c [] = (q, cb)" by fastforce
  show ?thesis using cb_ext_trans [OF conjunct1 [OF cb_ext_new [OF n]] cb_ext_add] by (simp add: quiet_def add_comm_def n)
qed

lemma raiseAlert_step:
  assumes "raiseAlert shake al fp = Some al'"
  shows "al_step al al'"
proof -
  obtain pr f where p: "fp = Some pr" "forkerID pr = Some f" using assms by (auto simp: raiseAlert_def bind_eq_Some_conv)
  show ?thesis
  proof (cases "getByParties (al_commitments al) (al_myPid al) f")
    case (Some c)
    then show ?thesis using assms p by (simp add: raiseAlert_def al_step_def)
  next
    case None
    then obtain e comm where e: "proof_epochID pr = Some e" "extractCommitment shake pr (alertID (al_myPid al) f e) = Some comm"
        "al' = add_comm (al\<lparr>al_alerts := al_alerts al @ [(alertID (al_myPid al) f e, fp_encoded pr)]\<rparr>) comm (al_myPid al) f"
      using assms p by (auto simp: raiseAlert_def bind_eq_Some_conv Let_def)
    obtain q cb where n: "new_comm (al_commitments al) comm [] = (q, cb)" by fastforce
    note x = cb_ext_new [OF n]
    have "rmcID comm = alertID (al_myPid al) f e" using e(2) by (auto simp: extractCommitment_def newBaseCommitment_def bind_eq_Some_conv)
    moreover have "getByParties cb (al_myPid al) f = None" using None x by (simp add: getByParties_def)
    moreover have "cb_ext (al_commitments al) (cb_add cb q (al_myPid al) f)" using cb_ext_trans [OF _ cb_ext_add] x by blast
    ultimately have "raised al al'" unfolding raised_def e(3) using None n x
      by (intro conjI exI [of _ f] exI [of _ e] exI [of _ "fp_encoded pr"] exI [of _ q]) (auto simp: add_comm_def)
    then show ?thesis by (simp add: al_step_def)
  qed
qed

lemma own_alert_step: "own_alert shake ord al pid f e pr = Some al' \<Longrightarrow> al_step al al'"
  by (auto simp: own_alert_def bind_eq_Some_conv split: if_splits dest: raiseAlert_step)

lemma acceptFinished_step: "acceptFinished shake ord al uid pid rcv = Some al' \<Longrightarrow> al_step al al'"
  by (auto simp: acceptFinished_def split: bind_split_asm prod.split_asm option.split_asm sum.split_asm
      intro: quiet_step [OF add_comm_quiet] dest!: own_alert_step)

lemma acceptAlert_step: "acceptAlert shake verify ord al uid pid rcv = Some al' \<Longrightarrow> al_step al al'"
  by (auto simp: acceptAlert_def split: bind_split_asm prod.split_asm option.split_asm sum.split_asm
      intro: quiet_step [OF add_comm_quiet] dest!: own_alert_step)

lemma NewFork_step: "NewFork shake ord al u v = Some al' \<Longrightarrow> al_step al al'"
proof -
  assume a: "NewFork shake ord al u v = Some al'"
  have obs: "al_step al (al1\<lparr>al_observed := l\<rparr>) = al_step al al1" for al1 l by (simp add: al_step_def quiet_def raised_def)
  show ?thesis using a by (auto simp: NewFork_def bind_eq_Some_conv obs split: if_splits dest: raiseAlert_step)
qed

lemma handleForkerUnit_step: "handleForkerUnit shake ord al u = Some (b, al') \<Longrightarrow> al_step al al'"
  by (auto simp: handleForkerUnit_def split: bind_split_asm if_split_asm list.split_asm option.split_asm dest: raiseAlert_step)

lemma checkCommitment_step: "checkCommitment shake ord al u = Some (e, al') \<Longrightarrow> al_step al al'"
  by (auto simp: checkCommitment_def bind_eq_Some_conv dest: handleForkerUnit_step)

lemma produceCommitmentFor_quiet: "produceCommitmentFor shake ord al u = Some (r, al') \<Longrightarrow> quiet al al'"
proof -
  assume a: "produceCommitmentFor shake ord al u = Some (r, al')"
  have base: "quiet al (al\<lparr>al_commitments := cb\<rparr>)" if "cb_ext (al_commitments al) cb" for cb using that by (simp add: quiet_def)
  show ?thesis
    using a by (auto simp: produceCommitmentFor_def Let_def split: bind_split_asm option.split_asm prod.split_asm if_split_asm sum.split_asm
        intro!: base dest: cb_ext_infer)
qed

lemma handleCommitmentRequest_quiet:
  assumes "handleCommitmentRequest shake ord al h = Some (r, al')"
  shows "quiet al al'"
proof -
  have "al' = al \<or> (\<exists>u r'. produceCommitmentFor shake ord al u = Some (r', al'))"
    using assms by (auto simp: handleCommitmentRequest_def Let_def split: bind_split_asm option.split_asm if_split_asm sum.split_asm)
  then show ?thesis using produceCommitmentFor_quiet by auto
qed

lemma RequestCommitment_quiet:
  assumes "RequestCommitment shake accept al pu pid conn = Some (e, al')"
  shows "quiet al al'"
proof -
  have fin: "quiet al (sendFinished al f p)" for f p by (simp add: sendFinished_def quiet_def split: option.split)
  have base: "quiet al (al\<lparr>al_commitments := cb\<rparr>)" if "cb_ext (al_commitments al) cb" for cb using that by (simp add: quiet_def)
  show ?thesis using assms unfolding RequestCommitment_def Let_def
    by (auto simp: fin base cb_ext_batch split: bind_split_asm list.split_asm sum.split_asm if_split_asm)
qed

text \<open>The life of a handler; \<open>ords\<close> are the states in which it may find the orderer.\<close>

inductive al_reach :: "(bytes \<Rightarrow> hash) \<Rightarrow> ('k \<Rightarrow> preunit \<Rightarrow> bool) \<Rightarrow> (u64 \<Rightarrow> u16 \<Rightarrow> bytes \<Rightarrow> string + bytes) \<Rightarrow> (u64 \<Rightarrow> u16 \<Rightarrow> bytes \<Rightarrow> string + bytes) \<Rightarrow> ('r, 'k) orderer set \<Rightarrow> 'k alertHandler \<Rightarrow> bool"
  for shake verify acceptData accept ords where
  start: "al_reach shake verify acceptData accept ords (newAlertHandler cnf)"
| incoming: "al_reach shake verify acceptData accept ords al \<Longrightarrow> ord \<in> ords \<Longrightarrow> HandleIncoming shake verify acceptData accept ord al g = Some (r, al')
    \<Longrightarrow> al_reach shake verify acceptData accept ords al'"
| fork: "al_reach shake verify acceptData accept ords al \<Longrightarrow> ord \<in> ords \<Longrightarrow> NewFork shake ord al u v = Some al' \<Longrightarrow> al_reach shake verify acceptData accept ords al'"
| check: "al_reach shake verify acceptData accept ords al \<Longrightarrow> ord \<in> ords \<Longrightarrow> checkCommitment shake ord al w = Some (e, al')
    \<Longrightarrow> al_reach shake verify acceptData accept ords al'"
| ask: "al_reach shake verify acceptData accept ords al \<Longrightarrow> RequestCommitment shake accept al u pid conn = Some (e, al')
    \<Longrightarrow> al_reach shake verify acceptData accept ords al'"

lemma HandleIncoming_step:
  assumes "HandleIncoming shake verify acceptData accept ord al g = Some (r, al')"
  shows "al_step al al'"
proof -
  have "handleCommitmentRequest shake ord al h = Some (r, al') \<Longrightarrow> al_step al al'" for h
    using handleCommitmentRequest_quiet unfolding al_step_def by blast
  then show ?thesis using assms acceptAlert_step acceptFinished_step
    by (fastforce simp: HandleIncoming_def split: sum.splits prod.splits if_splits)
qed

lemma al_reach_step:
  assumes "al_reach shake verify acceptData accept ords al" "\<And>cnf. P (newAlertHandler cnf)" "\<And>al al'. P al \<Longrightarrow> al_step al al' \<Longrightarrow> P al'"
  shows "P al"
  using assms(1)
proof induction
  case (incoming al ord g r al')
  then show ?case by (intro assms(3) [of al al'] HandleIncoming_step)
next
  case (ask al u pid conn e al')
  then show ?case using assms(3) RequestCommitment_quiet unfolding al_step_def by blast
next
  case (fork al ord u v al')
  then show ?case by (intro assms(3) [of al al'] NewFork_step)
next
  case (check al ord w e al')
  then show ?case by (intro assms(3) [of al al'] checkCommitment_step)
qed (rule assms(2))

abbreviation alert_forker :: "u64 \<times> bytes \<Rightarrow> u16" where
  "alert_forker a \<equiv> fst (decodeAlertID (fst a) 0)"

definition alerts_inv :: "'k alertHandler \<Rightarrow> bool" where
  "alerts_inv al \<longleftrightarrow> distinct (map alert_forker (al_alerts al))
     \<and> (\<forall>a \<in> set (al_alerts al). fst (snd (decodeAlertID (fst a) 0)) = al_myPid al
         \<and> (\<exists>q. getByParties (al_commitments al) (al_myPid al) (alert_forker a) = Some q \<and> q < length (cb_heap (al_commitments al))
               \<and> rmcID (comm_at (al_commitments al) q) = fst a))"

lemma alerts_inv_step:
  assumes "alerts_inv al" "al_step al al'"
  shows "alerts_inv al'"
proof -
  have x: "cb_ext (al_commitments al) (al_commitments al')" and me: "al_myPid al' = al_myPid al"
    using assms(2) by (auto simp: al_step_def quiet_def raised_def)
  have old: "fst (snd (decodeAlertID (fst a) 0)) = al_myPid al' \<and> (\<exists>q. getByParties (al_commitments al') (al_myPid al') (alert_forker a) = Some q
      \<and> q < length (cb_heap (al_commitments al')) \<and> rmcID (comm_at (al_commitments al') q) = fst a)" if "a \<in> set (al_alerts al)" for a
  proof -
    obtain q where "fst (snd (decodeAlertID (fst a) 0)) = al_myPid al" "getByParties (al_commitments al) (al_myPid al) (alert_forker a) = Some q"
        "q < length (cb_heap (al_commitments al))" "rmcID (comm_at (al_commitments al) q) = fst a"
      using assms(1) \<open>a \<in> set (al_alerts al)\<close> by (auto simp: alerts_inv_def)
    then show ?thesis using x me by (auto simp: cb_ext_def)
  qed
  from assms(2) consider "quiet al al'" | "raised al al'" by (auto simp: al_step_def)
  then show ?thesis
  proof cases
    case 1
    then show ?thesis using old assms(1) by (simp add: alerts_inv_def quiet_def)
  next
    case 2
    then obtain f e data q where r: "getByParties (al_commitments al) (al_myPid al) f = None" "al_alerts al' = al_alerts al @ [(alertID (al_myPid al) f e, data)]"
        "getByParties (al_commitments al') (al_myPid al) f = Some q" "q < length (cb_heap (al_commitments al'))"
        "rmcID (comm_at (al_commitments al') q) = alertID (al_myPid al) f e" by (auto simp: raised_def)
    have "f \<notin> alert_forker ` set (al_alerts al)" using assms(1) r(1) by (fastforce simp: alerts_inv_def)
    then show ?thesis using old assms(1) r me by (simp add: alerts_inv_def ball_Un)
  qed
qed

text \<open>
  C25: a process raises at most one alert per forker, whatever alerts, requests and units arrive and in whatever order; the alert carries its own
  id, and the process remembers the commitment it made with it. So it commits to one variant of a fork at most.
\<close>

theorem commits_once:
  assumes "al_reach shake verify acceptData accept ords al"
  shows "distinct (map alert_forker (al_alerts al))
    \<and> (\<forall>a \<in> set (al_alerts al). fst (snd (decodeAlertID (fst a) 0)) = al_myPid al
        \<and> (\<exists>q. getByParties (al_commitments al) (al_myPid al) (alert_forker a) = Some q \<and> rmcID (comm_at (al_commitments al) q) = fst a))"
proof -
  have "alerts_inv al"
    by (rule al_reach_step [OF assms]) (simp add: alerts_inv_def newAlertHandler_def, rule alerts_inv_step)
  then show ?thesis unfolding alerts_inv_def by blast
qed

section \<open>Decisions between variants of a fork\<close>

text \<open>
  When a unit of an honest process has several possible parents of a forker at some height, and that process committed to a unit
  of the forker that is in the dag, then \<open>Disambiguate\<close> returns the one possible parent that lies below the committed unit; a
  parent above the committed unit is an error.
\<close>

theorem Disambiguate_correct:
  assumes "dag_reach mq n d es" "0 < mq n" "pp = filter (\<lambda>v. Creator v = f \<and> Height v = h) es" "1 < length pp" "pu_creator pu \<noteq> f"
    and "getByParties (al_commitments al) (pu_creator pu) f = Some c" "getUnit (comm_at (al_commitments al) c) = Some cu"
    and "UnitsByHash ord [pu_hash cu] = [Some u]" "u \<in> set es" "Creator u = f"
  shows "if h \<le> Height u then \<exists>w \<in> set pp. Disambiguate ord al pp pu = Some (Inr (Some w)) \<and> chain u w \<and> (\<forall>w' \<in> set pp. chain u w' \<longrightarrow> w' = w)
    else Disambiguate ord al pp pu = Some (Inl (ComplianceError ''unit built on noncommitted parent''))"
proof -
  have W: "wf_set n (set es)" using units_invD(1) dag_invD(1) dag_reach_inv [OF assms(1,2)] by blast
  obtain u0 u1 us where pp: "pp = u0 # u1 # us" using assms(4) by (cases pp; cases "tl pp") auto
  then have "u0 \<in> set pp" by simp
  then have u0: "u0 \<in> set es" "Creator u0 = f" "Height u0 = h" unfolding assms(3) by auto
  have D: "Disambiguate ord al pp pu = (if Height u < h then Some (Inl (ComplianceError ''unit built on noncommitted parent''))
      else map_option (\<lambda>w. Inr (Some w)) (descendTo (Some u) h))"
    using u0 assms(5-8) by (simp add: Disambiguate_def pp map_conv_bind_option comp_def)
  show ?thesis
  proof (cases "h \<le> Height u")
    case True
    obtain w where w: "descendTo (Some u) h = Some w" "chain u w" "Height w = h"
      using descendTo_chain [OF W assms(9) _ True] wf_Height_nonneg [OF W u0(1)] u0(3) by blast
    have "w \<in> set pp" using chain_closed [OF w(2) W assms(9)] chain_Creator [OF w(2) W assms(9)] w(3) assms(3,10) by simp
    moreover have "w' = w" if "w' \<in> set pp" "chain u w'" for w'
      using chain_unique [OF that(2) w(2) _ W assms(9)] that(1) w(3) assms(3) by auto
    moreover have "Disambiguate ord al pp pu = Some (Inr (Some w))" using D True w(1) by simp
    ultimately show ?thesis using w(2) unfolding if_P [OF True] by blast
  qed (use D in simp)
qed

text \<open>The units of a creator without forks lie below one another.\<close>

definition forkless :: "Unit list \<Rightarrow> u16 \<Rightarrow> bool" where
  "forkless es c \<longleftrightarrow> (\<forall>v \<in> set es. \<forall>w \<in> set es. Creator v = c \<longrightarrow> Creator w = c \<longrightarrow> Height v = Height w \<longrightarrow> v = w)"

lemma forkless_maximal:
  assumes U: "units_inv n es" and f: "forkless es c" and m: "m \<in> set es" "Creator m = c" "maximal_in es m" and v: "v \<in> set es" "Creator v = c"
  shows "chain m v"
proof -
  note W = units_invD(1) [OF U]
  have down: "chain x y" if x: "x \<in> set es" "Creator x = c" and y: "y \<in> set es" "Creator y = c" and le: "Height y \<le> Height x" for x y
  proof -
    obtain w where w: "chain x w" "Height w = Height y" using descendTo_chain [OF W x(1) wf_Height_nonneg [OF W y(1)] le] by blast
    have "w = y" using f w chain_closed [OF w(1) W x(1)] chain_Creator [OF w(1) W x(1)] x y unfolding forkless_def by metis
    then show ?thesis using w by simp
  qed
  have "Height v \<le> Height m"
  proof (rule ccontr)
    assume "\<not> Height v \<le> Height m"
    then show False using down [OF v m(1,2)] m(3) v unfolding maximal_in_def by force
  qed
  then show ?thesis by (rule down [OF m(1,2) v])
qed

text \<open>
  A unit that passes \<open>checkCommitment\<close> either has a commitment or does not fork: whatever the dag has of its
  creator at its height is the same unit. This holds as long as the creator had no fork in the dag before.
\<close>

theorem checkCommitment_no_new_fork:
  assumes "dag_reach mq n d es" "0 < mq n" "MaxUnits ord (Epoch u) = Some (Some (MaximalUnitsPerProcess d))" "forkless es (Creator u)" "0 \<le> Height u"
    and "checkCommitment shake ord al u = Some (None, al')"
  shows "hasCommitmentTo al' u \<or> (\<forall>v \<in> set es. Creator v = Creator u \<longrightarrow> Height v = Height u \<longrightarrow> Hash v = Hash u)"
proof (rule ccontr)
  assume "\<not> ?thesis"
  then obtain v where nc: "\<not> hasCommitmentTo al' u" and v: "v \<in> set es" "Creator v = Creator u" "Height v = Height u" "Hash v \<noteq> Hash u" by blast
  have D: "dag_inv d es" using dag_reach_inv [OF assms(1,2)] by blast
  note U = dag_invD(1) [OF D] and W = units_invD(1) [OF dag_invD(1) [OF D]]
  let ?ms = "filter (\<lambda>w. Creator w = Creator u \<and> maximal_in es w) es"
  have mu: "max_units ord (Epoch u) (Creator u) = Some ?ms"
    using assms(3) dag_invD(6) [OF D] by (simp add: max_units_def MaximalUnitsPerProcess_def)
  obtain m' where "m' \<in> set ?ms" using below_maximal [OF U v(1)] v(2) by auto
  then obtain m ms where ms: "?ms = m # ms" by (cases ?ms) auto
  then have "m \<in> set ?ms" by simp
  then have m: "m \<in> set es" "Creator m = Creator u" "maximal_in es m" by auto
  have ch: "chain m v" by (rule forkless_maximal [OF U assms(4) m v(1,2)])
  then have le: "Height u \<le> Height m" using chain_Height [OF ch W m(1)] v(3) by simp
  obtain w where w: "descendTo (Some m) (Height u) = Some w" "chain m w" "Height w = Height u"
    using descendTo_chain [OF W m(1) assms(5) le] by blast
  have "w = v" using chain_unique [OF w(2) ch _ W m(1)] w(3) v(3) by simp
  have no: "handleForkerUnit shake ord al u \<noteq> Some (False, al')"
    using mu ms le w(1) v(4) \<open>w = v\<close>
    by (auto simp: handleForkerUnit_def newForkingProof_def Hash_def bind_eq_Some_conv split: option.splits)
  obtain b where "handleForkerUnit shake ord al u = Some (b, al')" "b \<longrightarrow> hasCommitmentTo al' u"
    using assms(6) by (auto simp: checkCommitment_def bind_eq_Some_conv split: if_splits)
  then show False using no nc by (cases b) auto
qed

section \<open>Messages that crash the handler\<close>

text \<open>
  An alert whose id names a process outside the committee makes \<open>acceptAlert\<close> panic: the key of the forker is looked up before anything
  is verified. Any well-formed proof will do, also one of three nil units.
\<close>

theorem acceptAlert_unknown_forker:
  assumes "unmarshal shake data = Some (Inr fp)" "length (al_keys al) \<le> unat forker" "raiser \<noteq> forker"
  shows "acceptAlert shake verify ord al (alertID raiser forker epoch) raiser (Inr data) = None"
proof -
  have "decodeAlertID (alertID raiser forker epoch) raiser = (forker, raiser, epoch, None)" using assms(3) by (simp add: prod_eq_iff)
  then show ?thesis using assms(1,2) by (simp add: acceptAlert_def nth_opt_def)
qed

text \<open>
  An answer to a request for a commitment makes \<open>RequestCommitment\<close> panic when the finished alert it refers to committed to no unit,
  which correct processes do as well when they know no unit of the forker.
\<close>

theorem RequestCommitment_nil_commit:
  assumes "acquireCommitments shake stream = Some (Inr (comms, rest))" "getUnit (fst (hd comms)) = Some cu" "b \<noteq> 1"
    and "accept (rmcID (fst (hd comms))) (fst (snd (decodeAlertID (rmcID (fst (hd comms))) 0))) rest = Inr data"
    and "unmarshal shake data = Some (Inr fp)" "fp_pcommit fp = None"
  shows "RequestCommitment shake accept al pu pid (Inr (b # stream)) = None"
proof -
  obtain uid pu0 enc ph l where c: "comms = (baseCommitment uid pu0 enc, ph) # l" using acquireCommitments_base [OF assms(1)] by blast
  then have "checkProof (baseCommitment uid pu0 enc) (Some fp) = None" using assms(2,6) by simp
  then show ?thesis using assms by (simp add: RequestCommitment_def Let_def addBatch_def c)
qed

section \<open>Requests are answered\<close>

lemma justify_SucE:
  assumes "justify shake c u (Suc k) = Some l"
  obtains c' ph p l' where "commitmentForParent shake c (Some u) = Some (Inr (c', ph))" "Predecessor u = Some p" "justify shake c' p k = Some l'" "l = (c, ph) # l'"
  using assms by (auto split: bind_split_asm sum.split_asm)

lemma justify_simps: "justify shake c u k = Some l \<Longrightarrow> l \<noteq> [] \<and> (\<forall>x \<in> set l. rmcID (fst x) = rmcID c)"
proof (induction k arbitrary: c u l)
  case (Suc k)
  obtain c' ph p l' where s: "commitmentForParent shake c (Some u) = Some (Inr (c', ph))" "justify shake c' p k = Some l'" "l = (c, ph) # l'"
    using Suc.prems by (rule justify_SucE)
  have "rmcID c' = rmcID c" using s(1) by (auto simp: commitmentForParent_def Let_def bind_eq_Some_conv split: option.splits if_splits)
  then show ?case using Suc.IH [OF s(2)] s(3) by simp
qed simp

lemma infer_down_justify:
  assumes "wf_set n S" "u \<in> S" "justify shake (comm_at cb c) u k = Some l" "Height u = h + int k"
  shows "\<exists>q cb'. infer_down shake me h cb c u = Some (Inr q, cb') \<and> comm_at cb' q = fst (List.last l)"
  using assms
proof (induction k arbitrary: cb c u l)
  case 0
  then show ?case by (auto simp: infer_down.simps)
next
  case (Suc k)
  obtain c' ph p l' where s: "commitmentForParent shake (comm_at cb c) (Some u) = Some (Inr (c', ph))" "Predecessor u = Some p" "justify shake c' p k = Some l'" "l = (comm_at cb c, ph) # l'"
    using Suc.prems(3) by (rule justify_SucE)
  obtain q cb1 where n: "new_comm (setParentHashes cb c ph) c' [] = (q, cb1)" by fastforce
  have at: "comm_at (cb_add cb1 q me (Creator u)) q = c'" using cb_ext_new [OF n] by auto
  have "Height p = Height u - 1" "p \<in> S"
    using wf_node_Predecessor(2) [OF wf_setD(1) [OF Suc.prems(1,2)] s(2)] wf_setD(3) [OF Suc.prems(1,2) s(2)] by auto
  then obtain q' cb' where "infer_down shake me h (cb_add cb1 q me (Creator u)) q p = Some (Inr q', cb')" "comm_at cb' q' = fst (List.last l')"
    using Suc.IH [of p "cb_add cb1 q me (Creator u)" q l'] Suc.prems(1,4) s(3) at by auto
  then show ?case using s n Suc.prems(4) justify_simps [OF s(3)] by (subst infer_down.simps) simp
qed

text \<open>A batch of commitments to different units is stored.\<close>

abbreviation batch_add :: "u16 \<Rightarrow> u16 \<Rightarrow> commitBase \<Rightarrow> commitment \<times> bytes \<Rightarrow> commitBase" where
  "batch_add commiter forker \<equiv> (\<lambda>cb (c, ph). case new_comm cb c ph of (q, cb') \<Rightarrow> cb_add cb' q commiter forker)"

abbreviation unit_hash :: "commitment \<times> bytes \<Rightarrow> hash option" where
  "unit_hash x \<equiv> map_option pu_hash (getUnit (fst x))"

definition stored :: "commitBase \<Rightarrow> hash \<Rightarrow> bytes \<Rightarrow> bool" where
  "stored cb h ph \<longleftrightarrow> (\<exists>q < length (cb_heap cb). getByHash cb h = Some q \<and> co_parentHashes (cb_heap cb ! q) = ph)"

lemma batch_add_getByHash:
  shows "getByHash cb h = None \<Longrightarrow> unit_hash x = Some h \<Longrightarrow> getByHash (batch_add a b cb x) h = Some (length (cb_heap cb))"
    and "unit_hash x \<noteq> Some h \<Longrightarrow> getByHash (batch_add a b cb x) h = getByHash cb h"
proof -
  obtain c ph where x: "x = (c, ph)" by (cases x)
  obtain q cb' where n: "new_comm cb c ph = (q, cb')" by fastforce
  note e = cb_ext_new [OF n]
  then have g: "getByHash cb' h = getByHash cb h" by (simp add: getByHash_def)
  show "getByHash cb h = None \<Longrightarrow> unit_hash x = Some h \<Longrightarrow> getByHash (batch_add a b cb x) h = Some (length (cb_heap cb))"
    using e g by (auto simp: x n getByHash_cb_add)
  show "unit_hash x \<noteq> Some h \<Longrightarrow> getByHash (batch_add a b cb x) h = getByHash cb h"
    using e g by (auto simp: x n getByHash_cb_add split: option.split)
qed

lemma batch_add_heap: "cb_heap (batch_add a b cb x) = cb_heap cb @ [\<lparr>co_comm = fst x, co_parentHashes = snd x\<rparr>]"
  by (cases x) (simp add: new_comm_def)

lemma batch_stored:
  assumes "distinct (map unit_hash xs)" "\<forall>x \<in> set xs. \<forall>h. unit_hash x = Some h \<longrightarrow> getByHash cb h = None" "(c, ph) \<in> set xs" "unit_hash (c, ph) = Some h"
  shows "stored (foldl (batch_add a b) cb xs) h ph"
  using assms
proof (induction xs arbitrary: cb)
  case (Cons x xs)
  let ?cb = "batch_add a b cb x"
  have keep: "stored (foldl (batch_add a b) cb' ys) h ph" if "stored cb' h ph" "\<forall>y \<in> set ys. unit_hash y \<noteq> Some h" for cb' ys
    using that
  proof (induction ys arbitrary: cb')
    case (Cons y ys)
    have "stored (batch_add a b cb' y) h ph"
      using Cons.prems batch_add_getByHash(2) [of y h a b cb'] batch_add_heap [of a b cb' y] by (auto simp: stored_def nth_append less_SucI)
    then show ?case using Cons.IH Cons.prems(2) by (simp only: foldl_Cons) simp
  qed simp
  show ?case
  proof (cases "x = (c, ph)")
    case True
    then have "getByHash cb h = None" using Cons.prems(2,4) by auto
    then have "stored ?cb h ph"
      using batch_add_getByHash(1) [of cb h x a b] batch_add_heap [of a b cb x] True Cons.prems(4) by (auto simp: stored_def)
    moreover have "\<forall>y \<in> set xs. unit_hash y \<noteq> Some h" using Cons.prems(1,4) True by (auto simp: image_iff)
    ultimately show ?thesis using keep [of ?cb xs] by (simp only: foldl_Cons)
  next
    case False
    then have "(c, ph) \<in> set xs" using Cons.prems(3) by simp
    moreover have "\<forall>y \<in> set xs. \<forall>h. unit_hash y = Some h \<longrightarrow> getByHash ?cb h = None"
    proof (intro ballI allI impI)
      fix y h' assume y: "y \<in> set xs" "unit_hash y = Some h'"
      have "unit_hash x \<notin> unit_hash ` set xs" using Cons.prems(1) by simp
      moreover have "Some h' \<in> unit_hash ` set xs" using y by (metis image_eqI)
      ultimately have "unit_hash x \<noteq> Some h'" by metis
      then show "getByHash ?cb h' = None" using batch_add_getByHash(2) Cons.prems(2) y by simp
    qed
    ultimately show ?thesis using Cons.IH [of ?cb] Cons.prems(1,4) by (simp only: foldl_Cons) simp
  qed
qed simp

text \<open>The state of a process that raised an alert with a commitment to \<open>w\<close> and has not used it yet.\<close>

definition committed_to :: "(bytes \<Rightarrow> hash) \<Rightarrow> 'k alertHandler \<Rightarrow> Unit \<Rightarrow> u64 \<Rightarrow> bool" where
  "committed_to shake al w uid \<longleftrightarrow> (\<exists>c we. getByParties (al_commitments al) (al_myPid al) (Creator w) = Some c \<and> getByHash (al_commitments al) (Hash w) = Some c
     \<and> EncodeUnit (Some (preunit_of w)) = Some we \<and> comm_at (al_commitments al) c = newBaseCommitment (Some (preunit_of w)) we uid)
     \<and> (\<forall>y. chain w y \<longrightarrow> y \<noteq> w \<longrightarrow> \<not> hasCommitmentTo al y)"

lemma produceCommitmentFor_justify:
  assumes W: "wf_set n S" "w \<in> S" and cm: "committed_to shake al w uid" and com: "\<forall>y. chain w y \<longrightarrow> committable shake y"
    and u: "UnitsByHash ord [Hash w] = [Some w]" and p: "chain w p" "p \<noteq> w"
  obtains we l q al1 where "EncodeUnit (Some (preunit_of w)) = Some we" "justify shake (newBaseCommitment (Some (preunit_of w)) we uid) w (nat (Height w - Height p)) = Some l"
    "produceCommitmentFor shake ord al p = Some (Inr q, al1)" "comm_at (al_commitments al1) q = fst (List.last l)"
proof -
  obtain c we where c: "getByParties (al_commitments al) (al_myPid al) (Creator w) = Some c" "getByHash (al_commitments al) (Hash w) = Some c"
      "EncodeUnit (Some (preunit_of w)) = Some we" "comm_at (al_commitments al) c = newBaseCommitment (Some (preunit_of w)) we uid"
      and no: "\<And>y. chain w y \<Longrightarrow> y \<noteq> w \<Longrightarrow> \<not> hasCommitmentTo al y"
    using cm by (auto simp: committed_to_def)
  let ?k = "nat (Height w - Height p)" and ?c = "newBaseCommitment (Some (preunit_of w)) we uid"
  have H: "Height p < Height w" "0 \<le> Height p" "Creator p = Creator w"
    using chain_Height [OF p(1) W] p(2) wf_Height_nonneg [OF W(1) chain_closed [OF p(1) W]] chain_Creator [OF p(1) W] by auto
  obtain l where l: "justify shake ?c w ?k = Some l" "describes w ?k l"
    using acquire_committed [OF W com _ c(3), of ?k uid "[]"] H by auto
  obtain q cb where q: "infer_down shake (al_myPid al) (Height p) (al_commitments al) c w = Some (Inr q, cb)" "comm_at cb q = fst (List.last l)"
    using infer_down_justify [OF W, of shake "al_commitments al" c ?k l "Height p" "al_myPid al"] l(1) c(4) H by auto
  obtain p1 where p1: "Predecessor w = Some p1" using p by (auto elim: chain.cases)
  have "chain w p1" "p1 \<noteq> w" using p1 chain.step [OF p1 chain.refl] Predecessor_size by auto
  then have lc: "last_committed al w = (w, Some p1)" using no p1 by (simp add: last_committed.simps)
  have "length l = Suc ?k" "l \<noteq> []" using l(2) by (auto simp: describes_def)
  then have "List.last l = l ! ?k" by (simp add: last_conv_nth)
  moreover obtain x where "chain w x" "Height x = Height w - int ?k" "getUnit (fst (l ! ?k)) = Some (preunit_of x)" using l(2) unfolding describes_def by blast
  moreover from this have "x = p" using chain_unique [OF _ p(1) _ W, of x] H by simp
  ultimately have "map_option pu_hash (getUnit (comm_at cb q)) = Some (Hash p)" using q(2) by (simp add: Hash_def)
  then have "produceCommitmentFor shake ord al p = Some (Inr q, al\<lparr>al_commitments := cb\<rparr>)"
    using c H u lc q(1) by (simp add: produceCommitmentFor_def Let_def newBaseCommitment_def Hash_def [symmetric])
  then show thesis using that [OF c(3) l(1), of q "al\<lparr>al_commitments := cb\<rparr>"] q(2) by simp
qed

lemma describes_in:
  assumes "describes w k l" "z \<in> set l"
  obtains y where "chain w y" "unit_hash z = Some (Hash y)"
proof -
  obtain j where "j \<le> k" "l ! j = z" using assms by (metis describes_def in_set_conv_nth less_Suc_eq_le)
  then show thesis using assms(1) that by (fastforce simp: describes_def Hash_def)
qed

lemma describes_distinct:
  assumes W: "wf_set n S" "w \<in> S" and f: "hash_faithful S" and d: "describes w k l"
  shows "distinct (map unit_hash l)"
  unfolding distinct_conv_nth
proof (intro allI impI notI)
  fix i j assume j: "i < length (map unit_hash l)" "j < length (map unit_hash l)" "i \<noteq> j" "map unit_hash l ! i = map unit_hash l ! j"
  have "i \<le> k" "j \<le> k" using j d by (auto simp: describes_def)
  then obtain a b where ab: "chain w a" "Height a = Height w - int i" "getUnit (fst (l ! i)) = Some (preunit_of a)"
      "chain w b" "Height b = Height w - int j" "getUnit (fst (l ! j)) = Some (preunit_of b)" using d unfolding describes_def by blast
  have "Hash a = Hash b" using j ab by (simp add: Hash_def)
  then have "Height a = Height b" using hash_faithfulD [OF f chain_closed [OF ab(1) W] chain_closed [OF ab(4) W]] by auto
  then show False using ab j(3) by simp
qed

lemma describes_parent:
  assumes W: "wf_set n S" "w \<in> S" and d: "describes w k l" and x: "chain w x" "Height w - Height x < int k"
  obtains c ph where "(c, ph) \<in> set l" "unit_hash (c, ph) = Some (Hash x)" "getParentHash ph (Creator w) = map_option Hash (Predecessor x)"
proof -
  let ?i = "nat (Height w - Height x)"
  have i: "?i < k" "?i < length l" using x(2) d chain_Height [OF x(1) W] by (auto simp: describes_def)
  then obtain y where y: "chain w y" "Height y = Height w - int ?i" "getUnit (fst (l ! ?i)) = Some (preunit_of y)"
      "getParentHash (snd (l ! ?i)) (Creator w) = map_option Hash (Predecessor y)"
    using d unfolding describes_def by (metis order_less_imp_le)
  have "y = x" using chain_unique [OF y(1) x(1) _ W] y(2) chain_Height [OF x(1) W] by simp
  then show thesis using that [of "fst (l ! ?i)" "snd (l ! ?i)"] y(3,4) i(2) by (simp add: Hash_def)
qed

text \<open>What the process that asked stores from the answer.\<close>

lemma RequestCommitment_stores:
  assumes W: "wf_set n S" "w \<in> S" and f: "hash_faithful S" and d: "describes w k l" "\<forall>z \<in> set l. rmcID (fst z) = uid"
    and a: "acquireCommitments shake (bs @ rest) = Some (Inr (l, rest))" and ok: "checkProof (fst (hd l)) (Some fp) = Some None"
    and rm: "accept uid (fst (snd (decodeAlertID uid 0))) rest = Inr data" "unmarshal shake data = Some (Inr fp)" "fp_pcommit fp = Some (preunit_of w)"
    and no: "\<forall>y. chain w y \<longrightarrow> \<not> hasCommitmentTo asking y"
  obtains asking' where "RequestCommitment shake accept asking pu pid (Inr (0 # bs @ rest)) = Some (None, asking')"
    "\<forall>c ph h. (c, ph) \<in> set l \<longrightarrow> unit_hash (c, ph) = Some h \<longrightarrow> stored (al_commitments asking') h ph"
proof -
  let ?cb = "foldl (batch_add (fst (snd (decodeAlertID uid 0))) (Creator w)) (al_commitments asking) l"
  obtain c0 ph0 l' where l0: "l = (c0, ph0) # l'" using d(1) by (cases l) (auto simp: describes_def)
  have "addBatch (al_commitments asking) l (Some fp) (fst (snd (decodeAlertID uid 0))) = Some (Inr ?cb)"
    using ok rm(3) l0 by (simp add: addBatch_def Creator_def)
  then have "RequestCommitment shake accept asking pu pid (Inr (0 # bs @ rest)) = Some (None, asking\<lparr>al_commitments := ?cb\<rparr>)"
    using a d(2) rm(1,2) l0 by (simp add: RequestCommitment_def Let_def)
  moreover have "\<forall>z \<in> set l. \<forall>h. unit_hash z = Some h \<longrightarrow> getByHash (al_commitments asking) h = None"
    using no by (metis describes_in [OF d(1)] hasCommitmentTo_def option.inject)
  ultimately show thesis using that [of "asking\<lparr>al_commitments := ?cb\<rparr>"] batch_stored [OF describes_distinct [OF W f d(1)]] by simp
qed


text \<open>
  A request for the unit to which a process itself committed is answered with that commitment alone, although the comment promises one to its
  parent. The process that asked can store it, but then still does not know the parent.
\<close>

theorem commitment_request_too_shallow:
  assumes "committed_to shake al w uid" "valid_unit shake (Some (preunit_of w))" "UnitsByHash ord [Hash w] = [Some w]"
    and "accept uid (fst (snd (decodeAlertID uid 0))) rest = Inr data" "unmarshal shake data = Some (Inr fp)" "fp_pcommit fp = Some (preunit_of w)"
    and "\<not> hasCommitmentTo asking w"
  shows "\<exists>bs al1 asking'. handleCommitmentRequest shake ord al (Hash w) = Some (Committed bs uid, al1)
    \<and> RequestCommitment shake accept asking (preunit_of w) pid (Inr (0 # bs @ rest)) = Some (None, asking')
    \<and> disambiguateForker asking' pp (preunit_of w) = Inl (OtherError ''too shallow commitment'')"
proof -
  obtain c we where c: "getByHash (al_commitments al) (Hash w) = Some c" "EncodeUnit (Some (preunit_of w)) = Some we"
      "comm_at (al_commitments al) c = newBaseCommitment (Some (preunit_of w)) we uid" using assms(1) by (auto simp: committed_to_def)
  let ?c = "newBaseCommitment (Some (preunit_of w)) we uid" and ?bs = "(PutUint64 uid @ we) @ PutUint64 (- 1)"
  have nil: "EncodeUnit None = Some (PutUint64 (- 1))" by (simp add: EncodeUnit_def encodeUnit_def)
  have "decodePreunit shake (PutUint64 (- 1) @ rest) = Some (Inr (None, rest))"
    using decodePreunit_EncodeUnit [of shake None _ rest] nil by (simp add: valid_unit_def)
  then have "acquireCommitments shake (?bs @ rest) = Some (Inr ([(?c, [])], rest))"
    using decodePreunit_EncodeUnit [OF assms(2) c(2)]
    by (simp add: acquireCommitments_def rbind_Inr wire_simps acquire_loop.simps newBaseCommitment_def memory_def)
  moreover have "handleCommitmentRequest shake ord al (Hash w) = Some (Committed ?bs uid, al)"
    using assms(3) c nil by (simp add: handleCommitmentRequest_def newBaseCommitment_def)
  moreover let ?cb = "batch_add (fst (snd (decodeAlertID uid 0))) (Creator w) (al_commitments asking) (?c, [])"
  have "stored ?cb (Hash w) []"
    using batch_stored [of "[(?c, [])]" "al_commitments asking" ?c "[]" "Hash w"] assms(7) by (simp add: newBaseCommitment_def Hash_def hasCommitmentTo_def)
  then have "disambiguateForker (asking\<lparr>al_commitments := ?cb\<rparr>) pp (preunit_of w) = Inl (OtherError ''too shallow commitment'')"
    by (auto simp: stored_def disambiguateForker_def Hash_def [symmetric] getParentHash_def Let_def)
  ultimately show ?thesis using assms(4-6)
    by (intro exI [of _ ?bs] exI [of _ al] exI [of _ "asking\<lparr>al_commitments := ?cb\<rparr>"])
      (simp add: RequestCommitment_def Let_def addBatch_def newBaseCommitment_def Creator_def)
qed

end
