(* ===== verification/Alert_Examples.thy ===== *)
theory Alert_Examples
  imports Alerts
begin

text \<open>
  A fork on which the theorems about alerts are evaluated: process 0 of two makes two units of height 1, and a third one above the first of
  them; process 1 knows all of them. The preunits are built by \<open>NewPreunit\<close> with a sum of bytes in place of the hash.
\<close>

definition fork_sum :: "bytes \<Rightarrow> hash" where
  "fork_sum bs = sum_list bs # replicate 31 0"

abbreviation fork_hash :: "u8 \<Rightarrow> hash" where
  "fork_hash b \<equiv> b # replicate 31 0"

definition fork_pu :: "u16 \<Rightarrow> int list \<Rightarrow> u8 \<Rightarrow> u8 \<Rightarrow> bytes \<Rightarrow> preunit" where
  "fork_pu c hs ctrl h d =
     \<lparr>pu_creator = c, pu_epochID = 0, pu_height = hs ! unat c + 1, pu_signature = replicate 64 0, pu_hash = fork_hash h,
      pu_crown = \<lparr>Heights = hs, ControlHash = fork_hash ctrl\<rparr>, pu_data = d, pu_rsData = Some []\<rparr>"

lemma fork_pu_valid:
  assumes "length hs = 2" "unat c < 2" "\<forall>h \<in> set hs. -1 \<le> h \<and> h < 9" "length d \<le> 2"
    and "computeHash fork_sum (ID (hs ! unat c + 1) c 0) \<lparr>Heights = hs, ControlHash = fork_hash ctrl\<rparr> d (Some []) = fork_hash h"
  shows "valid_unit fork_sum (Some (fork_pu c hs ctrl h d))"
proof -
  let ?h = "hs ! unat c + 1"
  have h: "0 \<le> ?h" "?h < 2 ^ 16" using assms(1-3) nth_mem [of "unat c" hs] by fastforce+
  have i: "DecodeID (ID ?h c 0) = (?h, c, 0)" by (rule DecodeID_ID_lemma [OF h])
  have "DecodeID (- 1) = (65535, - 1, - 1)" by code_simp
  then have "ID ?h c 0 \<noteq> - 1" using i by auto
  then show ?thesis
    using assms i by (auto simp: valid_unit_def valid_preunit_def fork_pu_def NewPreunit_def UnitID_def valid_crown_def valid_height_def nth_opt_def HashLength_def
        MaxDataBytesPerUnit_def MaxRandomSourceDataBytesPerUnit_def)
qed

definition "fork_d = unitInDag (freeUnit (fork_pu 0 [-1, -1] 0 248 []) [None, None] 0 []) MaxInt32"
definition "fork_e = unitInDag (freeUnit (fork_pu 1 [-1, -1] 0 249 []) [None, None] 0 []) MaxInt32"
definition "fork_a = unitInDag (freeUnit (fork_pu 0 [0, 0] 241 2 [16]) [Some fork_d, Some fork_e] 1 []) MaxInt32"
definition "fork_f = unitInDag (freeUnit (fork_pu 1 [0, 0] 241 243 []) [Some fork_d, Some fork_e] 1 []) MaxInt32"
definition "fork_c = unitInDag (freeUnit (fork_pu 0 [1, 1] 245 57 [64]) [Some fork_a, Some fork_f] 2 []) MaxInt32"
definition "fork_b = unitInDag (freeUnit (fork_pu 0 [0, 0] 241 18 [32]) [Some fork_d, Some fork_e] 1 []) 0"

lemmas fork_unit_defs = fork_d_def fork_e_def fork_a_def fork_f_def fork_c_def fork_b_def

definition fork_units :: "Unit list" where
  "fork_units = [fork_d, fork_e, fork_a, fork_f, fork_c, fork_b]"

definition fork_build :: "Unit list \<Rightarrow> (dagcore \<times> Unit list) go" where
  "fork_build us = go_fold (\<lambda>s u. demo_add (preunit_of u) s) (New_core 2 5 0, []) us"

lemma fork_build_units: "map_option snd (fork_build fork_units) = Some fork_units"
  by code_simp

lemma honest_build_units: "map_option snd (fork_build (butlast fork_units)) = Some (butlast fork_units)"
  by code_simp

lemma fork_build_reach: "fork_build us = Some (d, es) \<Longrightarrow> dag_reach demo_mq 2 d es"
proof -
  have pos: "0 < demo_mq 2" by code_simp
  have "dag_reach demo_mq 2 d es" if "go_fold (\<lambda>s u. demo_add (preunit_of u) s) (d0, es0) us = Some (d, es)" "dag_reach demo_mq 2 d0 es0" for d0 es0
    using that
  proof (induction us arbitrary: d0 es0)
    case (Cons u us)
    obtain d1 es1 where "demo_add (preunit_of u) (d0, es0) = Some (d1, es1)" "go_fold (\<lambda>s u. demo_add (preunit_of u) s) (d1, es1) us = Some (d, es)"
      using Cons.prems(1) by (auto split: bind_split_asm)
    moreover have "nProc d0 = 2" using dag_reach_inv [OF Cons.prems(2) pos] by blast
    ultimately show ?case using Cons.IH Cons.prems(2) demo_add_reach by blast
  qed simp
  then show "fork_build us = Some (d, es) \<Longrightarrow> dag_reach demo_mq 2 d es"
    unfolding fork_build_def using dag_reach.start  by (simp add: dag_reach.start)
qed

text \<open>The orderer of process 1 whose current epoch has the units \<open>us\<close>, and its alert handler after it was told of the fork.\<close>

definition fork_conf :: "unit conf" where
  "fork_conf = demo_levels\<lparr>NProc := 2, Pid := 1, PublicKeys := [Some (), Some ()]\<rparr>"

definition fork_order :: "Unit list \<Rightarrow> (unit, unit) orderer go" where
  "fork_order us =
     do { (d, _) \<leftarrow> fork_build us;
          o0 \<leftarrow> Start demo_nrs (New_orderer fork_conf);
          c \<leftarrow> ord_current o0;
          Some (o0\<lparr>ord_current := Some (c\<lparr>ep_adder := (ep_adder c)\<lparr>ad_dag := (ad_dag (ep_adder c))\<lparr>core := d\<rparr>\<rparr>\<rparr>)\<rparr>) }"

definition fork_alert :: "unit alertHandler go" where
  "fork_alert = do { ord \<leftarrow> fork_order fork_units; NewFork fork_sum ord (newAlertHandler fork_conf) (preunit_of fork_a) (preunit_of fork_b) }"

lemma fork_valid:
  "valid_unit fork_sum (Some (preunit_of fork_d))" "valid_unit fork_sum (Some (preunit_of fork_a))"
  "valid_unit fork_sum (Some (preunit_of fork_c))" "valid_unit fork_sum (Some (preunit_of fork_b))"
  unfolding fork_unit_defs preunit_of.simps by ((rule fork_pu_valid; code_simp)+)

lemma fork_found_c: "map_option (\<lambda>ord. UnitsByHash ord [Hash fork_c]) (fork_order fork_units) = Some [Some fork_c]"
  by code_simp

lemma fork_found_a: "map_option (\<lambda>ord. UnitsByHash ord [Hash fork_a]) (fork_order fork_units) = Some [Some fork_a]"
  by code_simp

lemma fork_maximal: "map_option (\<lambda>ord. max_units ord 0 0) (fork_order fork_units) = Some (Some [fork_c, fork_b])"
  by code_simp

lemma fork_dag:
  obtains d ord where "fork_build fork_units = Some (d, fork_units)" "fork_order fork_units = Some ord" "dag_reach demo_mq 2 d fork_units" "wf_set 2 (set fork_units)"
    "UnitsByHash ord [Hash fork_c] = [Some fork_c]" "UnitsByHash ord [Hash fork_a] = [Some fork_a]" "max_units ord 0 0 = Some [fork_c, fork_b]"
proof -
  obtain d where d: "fork_build fork_units = Some (d, fork_units)" using fork_build_units by fastforce
  have r: "dag_reach demo_mq 2 d fork_units" by (rule fork_build_reach [OF d])
  have pos: "0 < demo_mq 2" by code_simp
  have w: "wf_set 2 (set fork_units)"
    using units_invD(1) [OF dag_invD(1)] dag_reach_inv [OF r pos] by metis
  obtain ord where o: "fork_order fork_units = Some ord" using fork_maximal by blast
  show thesis by (rule that [OF d o r w]) (use fork_found_c fork_found_a fork_maximal in \<open>simp_all add: o\<close>)
qed

text \<open>The commitment that process 1 makes when it is told of the fork: to the first maximal unit, \<open>fork_c\<close>.\<close>

lemma fork_alerted:
  obtains ord al ce where "fork_order fork_units = Some ord" "fork_alert = Some al" "EncodeUnit (Some (preunit_of fork_c)) = Some ce" "al_myPid al = 1"
    "al_commitments al = cb_add (snd (new_comm newCommitBase (newBaseCommitment (Some (preunit_of fork_c)) ce (alertID 1 0 0)) [])) 0 1 0"
    "NewFork fork_sum ord (newAlertHandler fork_conf) (preunit_of fork_a) (preunit_of fork_b) = Some al"
proof -
  obtain ord where o: "fork_order fork_units = Some ord" "max_units ord 0 0 = Some [fork_c, fork_b]" by (rule fork_dag)
  have f: "UnitID (preunit_of fork_a) = UnitID (preunit_of fork_b)" "pu_hash (preunit_of fork_a) \<noteq> pu_hash (preunit_of fork_b)"
    "pu_creator (preunit_of fork_a) = 0" "pu_epochID (preunit_of fork_a) = 0" by code_simp+
  obtain fp where fp: "newForkingProof fork_sum (preunit_of fork_a) (preunit_of fork_b) (Some (preunit_of fork_c)) = Some (Some fp)" "proof_ok fork_sum fp"
      "fp_pu fp = Some (preunit_of fork_a)" "fp_pcommit fp = Some (preunit_of fork_c)"
    using newForkingProof_ok [OF fork_valid(2,4,3) f(2)] by blast
  obtain ce where ce: "EncodeUnit (Some (preunit_of fork_c)) = Some ce"
      "extractCommitment fork_sum fp (alertID 1 0 0) = Some (newBaseCommitment (Some (preunit_of fork_c)) ce (alertID 1 0 0))"
    using extractCommitment_ok [OF fp(2)] fp(4) by force
  have "al_myPid (newAlertHandler fork_conf) = 1" "al_nProc (newAlertHandler fork_conf) = 2" "al_commitments (newAlertHandler fork_conf) = newCommitBase"
    by (simp_all add: newAlertHandler_def fork_conf_def)
  moreover have "getByParties newCommitBase 1 0 = None" "\<not> isForker newCommitBase 0" by (simp_all add: getByParties_def isForker_def newCommitBase_def)
  ultimately obtain al where "NewFork fork_sum ord (newAlertHandler fork_conf) (preunit_of fork_a) (preunit_of fork_b) = Some al" "al_myPid al = 1"
      "al_commitments al = cb_add (snd (new_comm newCommitBase (newBaseCommitment (Some (preunit_of fork_c)) ce (alertID 1 0 0)) [])) 0 1 0"
    using o(2) f fp ce(2)
    by (auto simp: NewFork_def IsForker_def raiseAlert_def forkerID_def proof_epochID_def add_comm_def Let_def new_comm_def newCommitBase_def split: prod.split)
  then show thesis using that [OF o(1) _ ce(1)] o(1) by (simp add: fork_alert_def)
qed

section \<open>Forking proofs and commitments\<close>

theorem forking_proof_roundtrip_witness:
  "\<exists>fp fp'. newForkingProof fork_sum (preunit_of fork_a) (preunit_of fork_b) (Some (preunit_of fork_c)) = Some (Some fp)
     \<and> replaceCommit fork_sum fp (Some (preunit_of fork_b)) = Some fp' \<and> unmarshal fork_sum (fp_encoded fp') = Some (Inr fp')
     \<and> checkCorrectness_fp (\<lambda>_ _. True) fp' 0 (Some ()) = Some None"
proof -
  have "pu_hash (preunit_of fork_a) \<noteq> pu_hash (preunit_of fork_b)" "pu_creator (preunit_of fork_a) = 0" "pu_creator (preunit_of fork_b) = 0"
    "pu_height (preunit_of fork_a) = pu_height (preunit_of fork_b)" by code_simp+
  then show ?thesis using forking_proof_roundtrip [OF fork_valid(2,4,3,4), where verify = "\<lambda>_ _. True" and pid = 0 and k = "()"] by auto
qed

lemma fork_predecessors: "Predecessor fork_c = Some fork_a" "Predecessor fork_a = Some fork_d" "Predecessor fork_d = None"
  by code_simp+

lemma fork_chain: "chain fork_c y \<longleftrightarrow> y \<in> {fork_c, fork_a, fork_d}"
proof -
  have c: "chain u y \<longleftrightarrow> y = u \<or> (\<exists>p. Predecessor u = Some p \<and> chain p y)" for u by (auto elim: chainE intro: chain.step)
  show ?thesis using c [of fork_c] c [of fork_a] c [of fork_d] unfolding fork_predecessors by auto
qed

lemma fork_committable: "\<forall>y. chain fork_c y \<longrightarrow> committable fork_sum y"
proof -
  have "CombineHashes fork_sum (map (map_option Hash) (Parents fork_c)) = fork_hash 245" "CombineHashes fork_sum (map (map_option Hash) (Parents fork_a)) = fork_hash 241"
    "CombineHashes fork_sum (map (map_option Hash) (Parents fork_d)) = fork_hash 0" by code_simp+
  then show ?thesis using fork_valid unfolding fork_chain
    by (auto simp: committable_def) (auto simp: fork_unit_defs fork_pu_def Hash_def HashLength_def)
qed

lemma fork_members: "fork_c \<in> set fork_units" "fork_a \<in> set fork_units" "fork_d \<in> set fork_units"
  by (simp_all add: fork_units_def)


section \<open>Alerts\<close>

theorem commits_once_witness:
  "\<exists>ord al. NewFork fork_sum (ord :: (unit, unit) orderer) (newAlertHandler fork_conf) (preunit_of fork_a) (preunit_of fork_b) = Some al
     \<and> distinct (map alert_forker (al_alerts al))
     \<and> (\<forall>a \<in> set (al_alerts al). \<exists>q. getByParties (al_commitments al) 1 (alert_forker a) = Some q)"
proof -
  obtain ord :: "(unit, unit) orderer" and al where "al_myPid al = 1" and al: "NewFork fork_sum ord (newAlertHandler fork_conf) (preunit_of fork_a) (preunit_of fork_b) = Some al"
    by (rule fork_alerted)
  moreover have "al_reach fork_sum (\<lambda>_ _. True) (\<lambda>_ _ _. Inr []) (\<lambda>_ _ _. Inr []) {ord} al" using al_reach.fork [OF al_reach.start _ al] by blast
  then show ?thesis using commits_once calculation by metis
qed

lemma fork_committed:
  assumes "EncodeUnit (Some (preunit_of fork_c)) = Some ce" "al_myPid al = 1"
    and "al_commitments al = cb_add (snd (new_comm newCommitBase (newBaseCommitment (Some (preunit_of fork_c)) ce (alertID 1 0 0)) [])) 0 1 0"
  shows "committed_to fork_sum al fork_c (alertID 1 0 0)" "getByParties (al_commitments al) 1 0 = Some 0" "comm_at (al_commitments al) 0 = newBaseCommitment (Some (preunit_of fork_c)) ce (alertID 1 0 0)"
proof -
  let ?C = "newBaseCommitment (Some (preunit_of fork_c)) ce (alertID 1 0 0)"
  have d: "Hash fork_a \<noteq> Hash fork_c" "Hash fork_d \<noteq> Hash fork_c" "Creator fork_c = 0" by code_simp+
  have c: "getByHash (al_commitments al) = [Hash fork_c \<mapsto> 0]" "getByParties (al_commitments al) 1 0 = Some 0" "comm_at (al_commitments al) 0 = ?C"
    unfolding assms(3) by (simp_all add: cb_add_def new_comm_def newCommitBase_def newBaseCommitment_def getByHash_def getByParties_def Let_def Hash_def fun_eq_iff)
  show "committed_to fork_sum al fork_c (alertID 1 0 0)"
    unfolding committed_to_def fork_chain using c d assms(1,2) by (auto simp: hasCommitmentTo_def)
  show "getByParties (al_commitments al) 1 0 = Some 0" "comm_at (al_commitments al) 0 = ?C" by (fact c)+
qed

theorem Disambiguate_correct_witness:
  "\<exists>ord al. fork_order fork_units = Some ord \<and> fork_alert = Some al \<and> Disambiguate ord al [fork_a, fork_b] (fork_pu 1 [1, 1] 4 5 []) = Some (Inr (Some fork_a))"
proof -
  obtain d ord0 where o: "dag_reach demo_mq 2 d fork_units" "fork_order fork_units = Some ord0" "UnitsByHash ord0 [Hash fork_c] = [Some fork_c]" by (rule fork_dag)
  obtain ord al ce where al: "fork_order fork_units = Some ord" "fork_alert = Some al" "EncodeUnit (Some (preunit_of fork_c)) = Some ce" "al_myPid al = 1"
      "al_commitments al = cb_add (snd (new_comm newCommitBase (newBaseCommitment (Some (preunit_of fork_c)) ce (alertID 1 0 0)) [])) 0 1 0" by (rule fork_alerted)
  note cm = fork_committed [OF al(3-5)]
  have pos: "0 < demo_mq 2" and pp: "[fork_a, fork_b] = filter (\<lambda>v. Creator v = 0 \<and> Height v = 1) fork_units"
    and c: "pu_creator (fork_pu 1 [1, 1] 4 5 []) = 1" "Creator fork_c = 0" "1 \<le> Height fork_c" "Hash fork_b \<noteq> Hash fork_a" "Hash fork_b \<noteq> Hash fork_c" "Hash fork_b \<noteq> Hash fork_d"
    by code_simp+
  have "getUnit (comm_at (al_commitments al) 0) = Some (preunit_of fork_c)" by (simp add: cm(3) newBaseCommitment_def)
  moreover have "\<not> chain fork_c fork_b" using c(4-6) unfolding fork_chain by auto
  ultimately have "Disambiguate ord al [fork_a, fork_b] (fork_pu 1 [1, 1] 4 5 []) = Some (Inr (Some fork_a))"
    using Disambiguate_correct [OF o(1) pos pp, of "fork_pu 1 [1, 1] 4 5 []" al 0 "preunit_of fork_c" ord fork_c] cm(2) c o al(1) fork_members
    by (auto simp: Hash_def [symmetric])
  then show ?thesis using al by blast
qed

theorem acceptAlert_unknown_forker_witness:
  "acceptAlert fork_sum (\<lambda>_ _. True) (New_orderer fork_conf :: (unit, unit) orderer) (newAlertHandler fork_conf) (alertID 1 7 0) 1 (Inr (replicate 24 255)) = None"
proof -
  have "unmarshal fork_sum (replicate 24 255) = Some (Inr \<lparr>fp_pu = None, fp_pv = None, fp_pcommit = None, fp_encoded = replicate 24 255\<rparr>)" by code_simp
  then show ?thesis by (rule acceptAlert_unknown_forker) (simp_all add: newAlertHandler_def fork_conf_def)
qed

lemma fork_order_MaxUnits:
  assumes "fork_order us = Some ord" "fork_build us = Some (d, es)"
  shows "MaxUnits ord 0 = Some (Some (MaximalUnitsPerProcess d))"
proof -
  have "map_option (\<lambda>ord. map_option ep_id (ord_current ord)) (Start demo_nrs (New_orderer fork_conf)) = Some (Some 0)" by code_simp
  then show ?thesis using assms by (auto simp: fork_order_def MaxUnits_def getEpoch_def deref_def split: bind_split_asm)
qed

lemma honest_check: "Option.bind (fork_order (butlast fork_units)) (\<lambda>ord. map_option fst (checkCommitment fork_sum ord (newAlertHandler fork_conf) fork_c)) = Some None"
  by code_simp

theorem checkCommitment_no_new_fork_witness:
  "\<exists>ord al'. fork_order (butlast fork_units) = Some ord \<and> checkCommitment fork_sum ord (newAlertHandler fork_conf) fork_c = Some (None, al')
     \<and> (hasCommitmentTo al' fork_c \<or> (\<forall>v \<in> set (butlast fork_units). Creator v = 0 \<longrightarrow> Height v = 2 \<longrightarrow> Hash v = Hash fork_c))"
proof -
  obtain ord al' where o: "fork_order (butlast fork_units) = Some ord" "checkCommitment fork_sum ord (newAlertHandler fork_conf) fork_c = Some (None, al')"
    using honest_check by (auto simp: bind_eq_Some_conv)
  obtain d where d: "fork_build (butlast fork_units) = Some (d, butlast fork_units)" using honest_build_units by fastforce
  have pos: "0 < demo_mq 2" and f: "forkless (butlast fork_units) (Creator fork_c)" and c: "Epoch fork_c = 0" "0 \<le> Height fork_c" "Creator fork_c = 0" "Height fork_c = 2"
    by code_simp+
  have m: "MaxUnits ord (Epoch fork_c) = Some (Some (MaximalUnitsPerProcess d))" using fork_order_MaxUnits [OF o(1) d] c(1) by simp
  show ?thesis using checkCommitment_no_new_fork [OF fork_build_reach [OF d] pos m f c(2) o(2)] o c by auto
qed

section \<open>Requests\<close>

definition nil_proof :: bytes where
  "nil_proof = replicate 24 255"

theorem RequestCommitment_nil_commit_witness:
  "\<exists>ue. EncodeUnit (Some (preunit_of fork_c)) = Some ue
     \<and> RequestCommitment fork_sum (\<lambda>_ _ _. Inr nil_proof) (newAlertHandler fork_conf) (preunit_of fork_c) 0 (Inr (0 # PutUint64 7 @ ue @ PutUint64 (- 1))) = None"
proof -
  have W: "wf_set 2 (set fork_units)" by (rule fork_dag)
  have u: "unmarshal fork_sum nil_proof = Some (Inr \<lparr>fp_pu = None, fp_pv = None, fp_pcommit = None, fp_encoded = nil_proof\<rparr>)" by code_simp
  obtain ue where ue: "EncodeUnit (Some (preunit_of fork_c)) = Some ue" using EncodeUnit_total [OF fork_valid(3)] by blast
  have h: "int 0 \<le> Height fork_c" by code_simp
  let ?c = "newBaseCommitment (Some (preunit_of fork_c)) ue 7"
  have a: "acquireCommitments fork_sum (PutUint64 7 @ ue @ PutUint64 (- 1)) = Some (Inr ([(?c, [])], []))"
    using acquire_committed [OF W fork_members(1) fork_committable h ue, of 7 "[]"] by (simp add: newBaseCommitment_def)
  show ?thesis
    using RequestCommitment_nil_commit [OF a _ _ _ u, of "preunit_of fork_c" 0 "\<lambda>_ _ _. Inr nil_proof" "newAlertHandler fork_conf" "preunit_of fork_c" 0] ue
    by (simp add: newBaseCommitment_def)
qed

text \<open>The finished alert that the commitment of process 1 refers to.\<close>

lemma fork_proof:
  obtains fp where "unmarshal fork_sum (fp_encoded fp) = Some (Inr fp)" "fp_pcommit fp = Some (preunit_of fork_c)"
proof -
  have "pu_hash (preunit_of fork_a) \<noteq> pu_hash (preunit_of fork_b)" by code_simp
  then show thesis using newForkingProof_ok [OF fork_valid(2,4,3)] proof_ok_unmarshal that by blast
qed


theorem commitment_request_too_shallow_witness:
  "\<exists>ord al data bs al1 asking'. fork_order fork_units = Some ord \<and> fork_alert = Some al
     \<and> handleCommitmentRequest fork_sum ord al (Hash fork_c) = Some (Committed bs (alertID 1 0 0), al1)
     \<and> RequestCommitment fork_sum (\<lambda>_ _ _. Inr data) (newAlertHandler fork_conf) (preunit_of fork_c) 1 (Inr (0 # bs @ [1, 2])) = Some (None, asking')
     \<and> disambiguateForker asking' [fork_a, fork_b] (preunit_of fork_c) = Inl (OtherError ''too shallow commitment'')"
proof -
  obtain ord0 where o: "fork_order fork_units = Some ord0" "UnitsByHash ord0 [Hash fork_c] = [Some fork_c]" by (rule fork_dag)
  obtain ord al ce where al: "fork_order fork_units = Some ord" "fork_alert = Some al" "EncodeUnit (Some (preunit_of fork_c)) = Some ce" "al_myPid al = 1"
      "al_commitments al = cb_add (snd (new_comm newCommitBase (newBaseCommitment (Some (preunit_of fork_c)) ce (alertID 1 0 0)) [])) 0 1 0" by (rule fork_alerted)
  obtain fp where fp: "unmarshal fork_sum (fp_encoded fp) = Some (Inr fp)" "fp_pcommit fp = Some (preunit_of fork_c)" by (rule fork_proof)
  have n: "\<not> hasCommitmentTo (newAlertHandler fork_conf) fork_c" by (simp add: hasCommitmentTo_def newAlertHandler_def newCommitBase_def getByHash_def)
  have e: "ord0 = ord" using o(1) al(1) by simp
  show ?thesis
    using commitment_request_too_shallow [OF fork_committed(1) [OF al(3-5)] fork_valid(3) o(2) [unfolded e] _ fp n,
        where accept = "\<lambda>_ _ _. Inr (fp_encoded fp)" and rest = "[1, 2]" and pid = 1 and pp = "[fork_a, fork_b]"] al(1,2)
    by blast
qed

end
