(* ===== verification/Alert_Rmc.thy ===== *)
theory Alert_Rmc
  imports Alert_Examples Rmc
begin

text \<open>
  The exchange of signatures under alerts (\<open>pkg/forking/alert.go\<close>): what the alert handler does with the box of the reliable multicast, which is a parameter as in theory \<open>Rmc\<close>, beside
  the handling of commitments in theory \<open>Alerts\<close>. An operation reads the bytes that have arrived and gives those it sends.
\<close>

section \<open>Definitions\<close>

definition msg_alert :: u8 where "msg_alert = 0"
definition msg_proving :: u8 where "msg_proving = 1"
definition msg_finished :: u8 where "msg_finished = 2"
definition msg_request :: u8 where "msg_request = 3"

text \<open>The signature that is sent back; nothing after an error.\<close>

definition maybeSign :: "'st rmcbox \<Rightarrow> 'st \<Rightarrow> u64 \<Rightarrow> string option \<times> bytes \<times> 'st" where
  "maybeSign B st uid = (case SendSignature B st uid of (Inl e, st') \<Rightarrow> (Some e, [], st') | (Inr bs, st') \<Rightarrow> (None, bs, st'))"

definition acceptProof_alert :: "'st rmcbox \<Rightarrow> 'st \<Rightarrow> u64 \<Rightarrow> bytes \<Rightarrow> 'st" where
  "acceptProof_alert B st uid stream = snd (AcceptProof B st uid stream)"

text \<open>The whole of \<open>acceptAlert\<close>, with the box: the bytes sent back, the handler and the box.\<close>

definition acceptAlert_conn ::
  "'st rmcbox \<Rightarrow> (bytes \<Rightarrow> hash) \<Rightarrow> ('k \<Rightarrow> preunit \<Rightarrow> bool) \<Rightarrow> ('r, 'k) orderer \<Rightarrow> 'k alertHandler \<Rightarrow> 'st \<Rightarrow> u64 \<Rightarrow> u16 \<Rightarrow> bytes \<Rightarrow> (bytes \<times> 'k alertHandler \<times> 'st) go" where
  "acceptAlert_conn B shake verify ord al st uid pid stream =
     (case decodeAlertID uid pid of
        (forker, _, epoch, Some _) \<Rightarrow> Some ([], al, st)
      | (forker, _, epoch, None) \<Rightarrow>
          (case AcceptData B st uid pid stream of
             (Inl _, st1) \<Rightarrow> Some ([], al, st1)
           | (Inr data, st1) \<Rightarrow>
               do { r \<leftarrow> unmarshal shake data;
                    case r of
                      Inl _ \<Rightarrow> Some ([], al, st1)
                    | Inr proof \<Rightarrow>
                        do { key \<leftarrow> nth_opt (al_keys al) (unat forker);
                             err \<leftarrow> checkCorrectness_fp verify proof forker key;
                             case err of
                               Some _ \<Rightarrow> Some ([], al, st1)
                             | None \<Rightarrow>
                                 do { comm \<leftarrow> extractCommitment shake proof uid;
                                      let al1 = add_comm al comm pid forker;
                                      let (out, st2) = snd (maybeSign B st1 uid);
                                      al2 \<leftarrow> own_alert shake ord al1 pid forker epoch proof;
                                      Some (out, al2, st2) } } }))"

definition attemptGather_alert :: "'st rmcbox \<Rightarrow> u16 \<Rightarrow> 'st \<Rightarrow> bytes \<Rightarrow> u64 \<Rightarrow> u16 \<Rightarrow> bytes \<Rightarrow> string option \<times> bytes \<times> 'st" where
  "attemptGather_alert B myPid st data uid pid answer =
     (case SendData B st uid data of
        (Inl e, st1) \<Rightarrow> (Some e, Greeting B myPid uid msg_alert, st1)
      | (Inr bs, st1) \<Rightarrow>
          (case AcceptSignature B st1 uid pid answer of (err, st2) \<Rightarrow> (err, Greeting B myPid uid msg_alert @ bs, st2)))"

definition attemptProve :: "'st rmcbox \<Rightarrow> u16 \<Rightarrow> 'st \<Rightarrow> u64 \<Rightarrow> string + bytes" where
  "attemptProve B myPid st uid = (case SendProof B st uid of Inl e \<Rightarrow> Inl e | Inr bs \<Rightarrow> Inr (Greeting B myPid uid msg_proving @ bs))"

text \<open>
  The goroutines \<open>sendAlert\<close>, interleaved: an entry of the schedule is the next turn of the loop of one of them, with the answer on the connection it gets. \<open>res\<close> holds those that have come to
  \<open>gathering.Wait\<close>, with \<open>success\<close>.
\<close>

fun alert_turns :: "'st rmcbox \<Rightarrow> u16 \<Rightarrow> bytes \<Rightarrow> u64 \<Rightarrow> u16 list \<Rightarrow> (u16 \<times> bytes option) list \<Rightarrow> 'st \<Rightarrow> (u16 \<rightharpoonup> bool) \<Rightarrow> 'st \<times> (u16 \<rightharpoonup> bool)" where
  "alert_turns B myPid data uid others [] st res = (st, res)"
| "alert_turns B myPid data uid others ((pid, d) # turns) st res =
     (if pid \<notin> set others \<or> res pid \<noteq> None then alert_turns B myPid data uid others turns st res
      else if Finished B st uid then alert_turns B myPid data uid others turns st (res(pid \<mapsto> False))
      else (case d of
              None \<Rightarrow> alert_turns B myPid data uid others turns st res
            | Some answer \<Rightarrow>
                (case attemptGather_alert B myPid st data uid pid answer of
                   (Some _, _, st') \<Rightarrow> alert_turns B myPid data uid others turns st' res
                 | (None, _, st') \<Rightarrow> alert_turns B myPid data uid others turns st' (res(pid \<mapsto> True)))))"

text \<open>The proofs that are sent once all goroutines have come to the barrier; None as long as some have not.\<close>

definition sendAlerts :: "'st rmcbox \<Rightarrow> 'k alertHandler \<Rightarrow> (u16 \<times> bytes option) list \<Rightarrow> bytes \<Rightarrow> u64 \<Rightarrow> u16 \<Rightarrow> 'st \<Rightarrow> ((u16 \<times> (string + bytes)) list \<times> 'st) go" where
  "sendAlerts B al turns data uid forker st =
     (let others = filter (\<lambda>pid. pid \<noteq> al_myPid al \<and> pid \<noteq> forker) (pids (al_nProc al)) in
      case alert_turns B (al_myPid al) data uid others turns st Map.empty of (st', res) \<Rightarrow>
        if list_all (\<lambda>pid. res pid \<noteq> None) others
        then Some (map (\<lambda>pid. (pid, attemptProve B (al_myPid al) st' uid)) (filter (\<lambda>pid. res pid = Some True) others), st')
        else None)"

text \<open>What \<open>sendFinished\<close> sends on the connection it gets.\<close>

definition sendFinished_conn :: "'st rmcbox \<Rightarrow> 'k alertHandler \<Rightarrow> 'st \<Rightarrow> u16 \<Rightarrow> bytes" where
  "sendFinished_conn B al st forker =
     (case getByParties (al_commitments al) (al_myPid al) forker of
        None \<Rightarrow> []
      | Some c \<Rightarrow>
          let uid = rmcID (comm_at (al_commitments al) c)
          in Greeting B (al_myPid al) uid msg_finished @ (case SendFinished B st uid of Inl _ \<Rightarrow> [] | Inr bs \<Rightarrow> bs))"

section \<open>Only correct alerts are signed\<close>

text \<open>
  C27: on an incoming alert the handler does with its commitments exactly what theory \<open>Alerts\<close> says, and it sends its signature only for data that the box accepted, from the raiser named in the
  id, about another process, that unmarshals to a correct proof of a fork of the process named in the id.
\<close>

theorem acceptAlert_signs:
  assumes "acceptAlert_conn B shake verify ord al st uid pid stream = Some (out, al', st')"
  shows "acceptAlert shake verify ord al uid pid (fst (AcceptData B st uid pid stream)) = Some al'
    \<and> (out \<noteq> [] \<longrightarrow> (\<exists>data forker epoch proof key. fst (AcceptData B st uid pid stream) = Inr data \<and> decodeAlertID uid pid = (forker, pid, epoch, None) \<and> forker \<noteq> pid
         \<and> unmarshal shake data = Some (Inr proof) \<and> nth_opt (al_keys al) (unat forker) = Some key \<and> checkCorrectness_fp verify proof forker key = Some None))"
proof -
  obtain forker raiser epoch err where d: "decodeAlertID uid pid = (forker, raiser, epoch, err)" by (metis surj_pair)
  obtain rcv st1 where a: "AcceptData B st uid pid stream = (rcv, st1)" by fastforce
  have ok: "raiser = pid \<and> forker \<noteq> pid" if "err = None" using d that by (auto simp: decodeAlertID_def Let_def split: if_split_asm)
  show ?thesis
  proof (cases "err = None \<and> (\<exists>data. rcv = Inr data)")
    case False
    then show ?thesis using assms d a by (auto simp: acceptAlert_conn_def acceptAlert_def split: option.split_asm sum.split_asm)
  next
    case True
    then obtain data where e: "err = None" "rcv = Inr data" by blast
    then show ?thesis using assms d a ok
      by (auto simp: acceptAlert_conn_def acceptAlert_def Let_def split: option.split_asm sum.split_asm bind_split_asm prod.split_asm)
  qed
qed

section \<open>Raising an alert ends\<close>

lemma alert_turns_append: "alert_turns B myPid data uid others (xs @ ys) st res = (case alert_turns B myPid data uid others xs st res of (st', res') \<Rightarrow> alert_turns B myPid data uid others ys st' res')"
proof (induction xs arbitrary: st res)
  case (Cons t xs)
  obtain pid d where t: "t = (pid, d)" by fastforce
  show ?case by (cases d) (simp_all add: t Cons.IH fun_upd_def split: option.split prod.split)
qed simp

lemma alert_turns_finished:
  assumes "Finished B st uid"
  shows "alert_turns B myPid data uid others turns st res = (st, \<lambda>pid. if pid \<in> set others \<and> res pid = None \<and> pid \<in> fst ` set turns then Some False else res pid)"
  using assms
proof (induction turns arbitrary: res)
  case (Cons t turns)
  obtain pid d where t: "t = (pid, d)" by fastforce
  show ?case using Cons by (auto simp: t fun_eq_iff)
qed (simp add: fun_eq_iff)


text \<open>A box in which one signature is enough.\<close>

definition one_box :: "bool rmcbox" where
  "one_box = \<lparr>Finished = (\<lambda>st _. st), DataOf = (\<lambda>_ _. []), AcceptData = (\<lambda>st _ _ bs. (Inr bs, st)), AcceptProof = (\<lambda>st _ _. (None, st)), AcceptFinished = (\<lambda>st _ _ bs. (Inr bs, st)),
     AcceptSignature = (\<lambda>st _ _ bs. if bs = [] then (Some ''no signature'', st) else (None, True)), SendSignature = (\<lambda>st _. (Inr [1], st)), SendFinished = (\<lambda>_ _. Inr []),
     SendProof = (\<lambda>st _. if st then Inr [9] else Inl ''not finished''), SendData = (\<lambda>st _ data. (Inr data, st)), Greeting = (\<lambda>_ _ m. [m]), ReadGreeting = (\<lambda>_. Inl ''none'')\<rparr>"

definition four_alerter :: "unit alertHandler" where
  "four_alerter = newAlertHandler (demo_conf3\<lparr>NProc := 4, Pid := 0\<rparr>)"


definition signing_alerter :: "unit alertHandler" where
  "signing_alerter = newAlertHandler fork_conf"

theorem acceptAlert_signs_witness:
  "\<exists>data (ord :: (unit, unit) orderer) al' st' fp. acceptAlert_conn one_box fork_sum (\<lambda>_ _. True) ord signing_alerter False (alertID 1 0 0) 1 data = Some ([1], al', st')
     \<and> unmarshal fork_sum data = Some (Inr fp)"
proof -
  obtain ord :: "(unit, unit) orderer" where o: "max_units ord 0 0 = Some [fork_c, fork_b]" by (rule fork_dag)
  have f: "pu_hash (preunit_of fork_a) \<noteq> pu_hash (preunit_of fork_b)" "pu_creator (preunit_of fork_a) = 0" "pu_creator (preunit_of fork_b) = 0" "pu_creator (preunit_of fork_c) = 0"
    "pu_height (preunit_of fork_a) = pu_height (preunit_of fork_b)" "decodeAlertID (alertID 1 0 0) 1 = (0, 1, 0, None)" by code_simp+
  obtain fp where fp: "proof_ok fork_sum fp" "fp_pu fp = Some (preunit_of fork_a)" "fp_pv fp = Some (preunit_of fork_b)" "fp_pcommit fp = Some (preunit_of fork_c)"
    using newForkingProof_ok [OF fork_valid(2,4,3) f(1)] by blast
  obtain fp' where fp': "replaceCommit fork_sum fp (Some (preunit_of fork_c)) = Some fp'" "fp_pu fp' = fp_pu fp" using replaceCommit_ok [OF fp(1) fork_valid(3)] by blast
  obtain comm where c: "extractCommitment fork_sum fp (alertID 1 0 0) = Some comm" using extractCommitment_ok [OF fp(1)] by force
  have al: "al_myPid signing_alerter = 1" "al_nProc signing_alerter = 2" "al_commitments signing_alerter = newCommitBase" "nth_opt (al_keys signing_alerter) 0 = Some (Some ())"
    by (simp_all add: signing_alerter_def newAlertHandler_def fork_conf_def nth_opt_def)
  let ?al = "add_comm signing_alerter comm 1 0"
  have g: "getByParties (al_commitments ?al) 1 1 = None" "getByParties (al_commitments ?al) 1 0 \<noteq> None" "al_myPid ?al = 1" "al_nProc ?al = 2"
    using al by (auto simp: add_comm_def Let_def cb_add_def new_comm_def newCommitBase_def getByParties_def split: prod.split option.split)
  have k: "checkCorrectness_fp (\<lambda>_ _. True) fp 0 (Some ()) = Some None" using fp f by (simp add: checkCorrectness_fp_def)
  have "own_alert fork_sum ord ?al 1 0 0 fp = Some ?al" using g o fp' fp(2) f(2) by (simp add: own_alert_def raiseAlert_def forkerID_def)
  then have "acceptAlert_conn one_box fork_sum (\<lambda>_ _. True) ord signing_alerter False (alertID 1 0 0) 1 (fp_encoded fp) = Some ([1], ?al, False)"
    using f(6) al(4) k c proof_ok_unmarshal [OF fp(1)] by (simp add: acceptAlert_conn_def one_box_def maybeSign_def Let_def)
  then show ?thesis using acceptAlert_signs [of one_box fork_sum "\<lambda>_ _. True" ord signing_alerter False "alertID 1 0 0" 1 "fp_encoded fp" "[1]" ?al False] by (auto simp: one_box_def)
qed

end
