(* ===== verification/Alert_Service.thy ===== *)
theory Alert_Service
  imports Syncer Alert_Examples
begin

text \<open>
  The alert service (\<open>pkg/forking/service.go\<close>): the goroutine that listens for connections and the goroutines that handle one connection each, with the wait group that \<open>Stop\<close> waits
  for. A connection is what the greeting and the rest of its stream give (\<open>HandleIncoming\<close> of theory \<open>Alerts\<close>); a panic of a handler ends the process, so there is no step for it.
\<close>

section \<open>The service\<close>

type_synonym alert_conn = "string + u16 \<times> u64 \<times> u8 \<times> bytes"

record 'k alert_service =
  as_handler :: "'k alertHandler"
  as_listens :: int
  as_quit :: bool
  as_loops :: "worker_state list"
  as_conns :: "alert_conn list"

definition NewAlerter :: "'k conf \<Rightarrow> 'k alert_service" where
  "NewAlerter cnf = \<lparr>as_handler = newAlertHandler cnf, as_listens = 0, as_quit = False, as_loops = [], as_conns = []\<rparr>"

definition Start_alerter :: "'k alert_service \<Rightarrow> 'k alert_service" where
  "Start_alerter s = s\<lparr>as_listens := as_listens s + 1, as_loops := as_loops s @ [Checking]\<rparr>"

text \<open>\<open>Stop\<close> sets the flag and returns when the wait group is at 0.\<close>

definition Stop_alerter :: "'k alert_service \<Rightarrow> 'k alert_service" where
  "Stop_alerter s = s\<lparr>as_quit := True\<rparr>"

text \<open>
  \<open>handleConns\<close>: the loop looks at the flag, listens, and starts a goroutine for a connection, which is counted before it starts. A goroutine is gone when \<open>HandleIncoming\<close> returns.
\<close>

inductive handleConns ::
  "(bytes \<Rightarrow> hash) \<Rightarrow> ('k \<Rightarrow> preunit \<Rightarrow> bool) \<Rightarrow> (u64 \<Rightarrow> u16 \<Rightarrow> bytes \<Rightarrow> string + bytes) \<Rightarrow> (u64 \<Rightarrow> u16 \<Rightarrow> bytes \<Rightarrow> string + bytes) \<Rightarrow>
   ('r, 'k) orderer set \<Rightarrow> 'k alert_service \<Rightarrow> 'k alert_service \<Rightarrow> bool"
  for shake verify accData accept ords where
  listen: "i < length (as_loops s) \<Longrightarrow> as_loops s ! i = Checking \<Longrightarrow> \<not> as_quit s
    \<Longrightarrow> handleConns shake verify accData accept ords s (s\<lparr>as_loops := (as_loops s)[i := Working]\<rparr>)"
| leave: "i < length (as_loops s) \<Longrightarrow> as_loops s ! i = Checking \<Longrightarrow> as_quit s
    \<Longrightarrow> handleConns shake verify accData accept ords s (s\<lparr>as_loops := (as_loops s)[i := Ended], as_listens := as_listens s - 1\<rparr>)"
| failed: "i < length (as_loops s) \<Longrightarrow> as_loops s ! i = Working
    \<Longrightarrow> handleConns shake verify accData accept ords s (s\<lparr>as_loops := (as_loops s)[i := Checking]\<rparr>)"
| accepted: "i < length (as_loops s) \<Longrightarrow> as_loops s ! i = Working
    \<Longrightarrow> handleConns shake verify accData accept ords s (s\<lparr>as_loops := (as_loops s)[i := Checking], as_listens := as_listens s + 1, as_conns := as_conns s @ [conn]\<rparr>)"
| handled: "as_conns s = xs @ conn # ys \<Longrightarrow> ord \<in> ords \<Longrightarrow> HandleIncoming shake verify accData accept ord (as_handler s) conn = Some (r, al)
    \<Longrightarrow> handleConns shake verify accData accept ords s (s\<lparr>as_handler := al, as_listens := as_listens s - 1, as_conns := xs @ ys\<rparr>)"

text \<open>
  Runs of \<open>k\<close> steps of the service, between which other goroutines use the alert handler: the dag reports forks and checks commitments of units, the adder asks for commitments.
\<close>

inductive alerter_run ::
  "(bytes \<Rightarrow> hash) \<Rightarrow> ('k \<Rightarrow> preunit \<Rightarrow> bool) \<Rightarrow> (u64 \<Rightarrow> u16 \<Rightarrow> bytes \<Rightarrow> string + bytes) \<Rightarrow> (u64 \<Rightarrow> u16 \<Rightarrow> bytes \<Rightarrow> string + bytes) \<Rightarrow>
   ('r, 'k) orderer set \<Rightarrow> nat \<Rightarrow> 'k alert_service \<Rightarrow> 'k alert_service \<Rightarrow> bool"
  for shake verify accData accept ords where
  none: "alerter_run shake verify accData accept ords 0 s s"
| step: "alerter_run shake verify accData accept ords k s t \<Longrightarrow> handleConns shake verify accData accept ords t t' \<Longrightarrow> alerter_run shake verify accData accept ords (Suc k) s t'"
| fork: "alerter_run shake verify accData accept ords k s t \<Longrightarrow> ord \<in> ords \<Longrightarrow> NewFork shake ord (as_handler t) u v = Some al
    \<Longrightarrow> alerter_run shake verify accData accept ords k s (t\<lparr>as_handler := al\<rparr>)"
| check: "alerter_run shake verify accData accept ords k s t \<Longrightarrow> ord \<in> ords \<Longrightarrow> checkCommitment shake ord (as_handler t) w = Some (e, al)
    \<Longrightarrow> alerter_run shake verify accData accept ords k s (t\<lparr>as_handler := al\<rparr>)"
| ask: "alerter_run shake verify accData accept ords k s t \<Longrightarrow> RequestCommitment shake accept (as_handler t) u pid conn = Some (e, al)
    \<Longrightarrow> alerter_run shake verify accData accept ords k s (t\<lparr>as_handler := al\<rparr>)"

section \<open>Stopping\<close>

definition alive :: "worker_state list \<Rightarrow> nat" where
  "alive ws = (\<Sum>st \<leftarrow> ws. if st = Ended then 0 else 1)"

text \<open>A loop that listens may still take one connection and handle it.\<close>

definition left_loops :: "worker_state list \<Rightarrow> nat" where
  "left_loops ws = (\<Sum>st \<leftarrow> ws. case st of Checking \<Rightarrow> 1 | Working \<Rightarrow> 3 | Ended \<Rightarrow> 0)"

lemma sum_update: "i < length ws \<Longrightarrow> sum_list (map f (ws[i := b])) + f (ws ! i) = sum_list (map f ws) + (f b :: nat)"
  by (induction ws arbitrary: i) (auto split: nat.splits)

lemmas loop_updates = sum_update [where f = "\<lambda>st. if st = Ended then 0 else 1", folded alive_def]
  sum_update [where f = "\<lambda>st. case st of Checking \<Rightarrow> 1 | Working \<Rightarrow> 3 | Ended \<Rightarrow> 0", folded left_loops_def]

text \<open>The wait group counts the loops that have not ended and the connections under way.\<close>

definition counted :: "'k alert_service \<Rightarrow> bool" where
  "counted s \<longleftrightarrow> as_listens s = int (alive (as_loops s) + length (as_conns s))"

lemma counted_step: "handleConns shake verify accData accept ords s t \<Longrightarrow> counted s \<Longrightarrow> counted t \<and> length (as_loops t) = length (as_loops s)"
proof (induction rule: handleConns.induct)
  case (listen i s)
  then show ?case using loop_updates(1) [of i "as_loops s" Working] by (simp add: counted_def)
next
  case (leave i s)
  then show ?case using loop_updates(1) [of i "as_loops s" Ended] by (simp add: counted_def)
next
  case (failed i s)
  then show ?case using loop_updates(1) [of i "as_loops s" Checking] by (simp add: counted_def)
next
  case (accepted i s conn)
  then show ?case using loop_updates(1) [of i "as_loops s" Checking] by (simp add: counted_def)
qed (simp add: counted_def)

lemma quit_handleConns: "handleConns shake verify accData accept ords s t \<Longrightarrow> as_quit s
  \<Longrightarrow> as_quit t \<and> left_loops (as_loops t) + length (as_conns t) < left_loops (as_loops s) + length (as_conns s)"
proof (induction rule: handleConns.induct)
  case (leave i s)
  then show ?case using loop_updates(2) [of i "as_loops s" Ended] by simp
next
  case (failed i s)
  then show ?case using loop_updates(2) [of i "as_loops s" Checking] by simp
next
  case (accepted i s conn)
  then show ?case using loop_updates(2) [of i "as_loops s" Checking] by simp
qed simp_all

lemma counted_run: "alerter_run shake verify accData accept ords k s t \<Longrightarrow> counted s \<Longrightarrow> counted t \<and> length (as_loops t) = length (as_loops s)"
proof (induction rule: alerter_run.induct)
  case (step k s t t')
  then show ?case using counted_step by metis
qed (auto simp: counted_def)

lemma quit_alerter_run: "alerter_run shake verify accData accept ords k s t \<Longrightarrow> as_quit s
  \<Longrightarrow> as_quit t \<and> k + left_loops (as_loops t) + length (as_conns t) \<le> left_loops (as_loops s) + length (as_conns s)"
proof (induction rule: alerter_run.induct)
  case (step k s t t')
  then show ?case using quit_handleConns [OF step(2)] by fastforce
qed auto

lemma handler_run: "alerter_run shake verify accData accept ords k s t \<Longrightarrow> al_reach shake verify accData accept ords (as_handler s)
  \<Longrightarrow> al_reach shake verify accData accept ords (as_handler t)"
proof (induction rule: alerter_run.induct)
  case (step k s t t')
  from step(2) step(3) [OF step(4)] show ?case by cases (auto intro: al_reach.incoming)
qed (auto intro: al_reach.intros)

lemma alive_0: "alive ws = 0 \<longleftrightarrow> ws = replicate (length ws) Ended"
  by (induction ws) (auto simp: alive_def)

lemma idle_no_step:
  assumes "alive (as_loops s) = 0" "as_conns s = []"
  shows "\<not> handleConns shake verify accData accept ords s t"
proof
  have e: "as_loops s ! i = Ended" if "i < length (as_loops s)" for i
    using assms(1) that unfolding alive_0 by (metis nth_replicate)
  assume "handleConns shake verify accData accept ords s t"
  then show False using assms(2) e by cases force+
qed

lemma left_loops_one: "length ws = 1 \<Longrightarrow> left_loops ws \<le> 3"
  by (auto simp: left_loops_def length_Suc_conv split: worker_state.splits)

text \<open>
  C29: the alert service stops cleanly. The wait group of a started service is never negative; after \<open>Stop\<close> has set its flag the goroutines of the service make at most three steps more than there
  were connections under way, so at most one more connection is taken; when the wait returns, the loop has ended, every connection was handled to its end and no goroutine of the service can change the alert
  handler any more, whose state is one that the invariants of alerts hold in.
\<close>

theorem alerter_stops:
  assumes "alerter_run shake verify accData accept ords k (Start_alerter (NewAlerter cnf)) s"
    and "alerter_run shake verify accData accept ords m (Stop_alerter s) t"
  shows "0 \<le> as_listens s \<and> 0 \<le> as_listens t \<and> m \<le> length (as_conns s) + 3
    \<and> (as_listens t = 0 \<longleftrightarrow> as_loops t = [Ended] \<and> as_conns t = [])
    \<and> (as_listens t = 0 \<longrightarrow> (\<nexists>t'. handleConns shake verify accData accept ords t t'))
    \<and> al_reach shake verify accData accept ords (as_handler t)"
proof -
  have s: "counted s" "length (as_loops s) = 1"
    using counted_run [OF assms(1)] by (simp_all add: counted_def Start_alerter_def NewAlerter_def alive_def)
  have S: "counted (Stop_alerter s)" "as_quit (Stop_alerter s)" "as_loops (Stop_alerter s) = as_loops s" "as_conns (Stop_alerter s) = as_conns s" "as_handler (Stop_alerter s) = as_handler s"
    using s by (simp_all add: Stop_alerter_def counted_def)
  have t: "counted t" "length (as_loops t) = 1" using counted_run [OF assms(2) S(1)] S(3) s(2) by simp_all
  have m: "m \<le> length (as_conns s) + 3" using quit_alerter_run [OF assms(2) S(2)] left_loops_one [OF s(2)] S(3,4) by simp
  have z: "as_listens t = 0 \<longleftrightarrow> alive (as_loops t) = 0 \<and> as_conns t = []" using t(1) unfolding counted_def by (metis add_is_0 length_0_conv of_nat_eq_0_iff)
  moreover have "alive (as_loops t) = 0 \<longleftrightarrow> as_loops t = [Ended]" using alive_0 [of "as_loops t"] t(2) by simp
  moreover have "al_reach shake verify accData accept ords (as_handler t)"
    using handler_run [OF assms(2)] handler_run [OF assms(1)] S(5) by (simp add: Start_alerter_def NewAlerter_def al_reach.start)
  ultimately show ?thesis using s(1) t(1) m idle_no_step [of t shake verify accData accept ords] by (simp add: counted_def)
qed

text \<open>A service that is stopped while it listens takes a connection with a bad greeting, handles it and ends.\<close>

theorem alerter_stops_witness:
  "\<exists>s t. alerter_run fork_sum (\<lambda>_ _. True) (\<lambda>_ _ _. Inr []) (\<lambda>_ _ _. Inr []) {ord :: (unit, unit) orderer. True} 1 (Start_alerter (NewAlerter fork_conf)) s
     \<and> alerter_run fork_sum (\<lambda>_ _. True) (\<lambda>_ _ _. Inr []) (\<lambda>_ _ _. Inr []) {ord :: (unit, unit) orderer. True} 3 (Stop_alerter s) t \<and> as_listens t = 0
     \<and> (\<nexists>t'. handleConns fork_sum (\<lambda>_ _. True) (\<lambda>_ _ _. Inr []) (\<lambda>_ _ _. Inr []) {ord :: (unit, unit) orderer. True} t t')"
proof -
  let ?step = "handleConns fork_sum (\<lambda>_ _. True) (\<lambda>_ _ _. Inr []) (\<lambda>_ _ _. Inr []) {ord :: (unit, unit) orderer. True}"
  let ?run = "alerter_run fork_sum (\<lambda>_ _. True) (\<lambda>_ _ _. Inr []) (\<lambda>_ _ _. Inr []) {ord :: (unit, unit) orderer. True}"
  define c :: alert_conn where "c = Inl ''bad greeting''"
  define s0 where "s0 = Start_alerter (NewAlerter fork_conf)"
  define s where "s = s0\<lparr>as_loops := [Working]\<rparr>"
  define t1 where "t1 = (Stop_alerter s)\<lparr>as_loops := [Checking], as_listens := 2, as_conns := [c]\<rparr>"
  define t2 where "t2 = t1\<lparr>as_listens := 1, as_conns := []\<rparr>"
  define t3 where "t3 = t2\<lparr>as_loops := [Ended], as_listens := 0\<rparr>"
  note defs = s0_def s_def t1_def t2_def t3_def Start_alerter_def Stop_alerter_def NewAlerter_def
  have "?step s0 s" using handleConns.listen [of 0 s0] by (simp add: defs)
  then have r: "?run 1 s0 s" using alerter_run.step [OF alerter_run.none] by (metis One_nat_def)
  have "?step (Stop_alerter s) t1" using handleConns.accepted [of 0 "Stop_alerter s"] by (simp add: defs)
  moreover have "?step t1 t2" using handleConns.handled [of t1 "[]" c "[]" undefined UNIV _ _ _ _ NoReply "as_handler t1"] by (simp add: defs c_def HandleIncoming_def)
  moreover have "?step t2 t3" using handleConns.leave [of 0 t2] by (simp add: defs)
  ultimately have "?run (Suc (Suc (Suc 0))) (Stop_alerter s) t3" 
    by (intro alerter_run.step [OF alerter_run.step [OF alerter_run.step [OF alerter_run.none]]])
  then have m: "?run 3 (Stop_alerter s) t3" by (simp add: numeral_3_eq_3)
  have "as_listens t3 = 0" by (simp add: t3_def)
  then show ?thesis using alerter_stops [OF r [unfolded s0_def] m] r m unfolding s0_def by blast
qed

end
