(* ===== verification/Analyzer.thy ===== *)
theory Analyzer
  imports Growth Timing "HOL-Library.Multiset"
begin

text \<open>
  The statistics of \<open>cmd/dag_analyzer\<close>. Reading the dag from a file and printing the statistics as JSON are left out. Division of floating point numbers is the parameter \<open>fdiv\<close>.
\<close>

section \<open>Collecting units\<close>

text \<open>The recursive closure of \<open>collectUnits\<close>, with the captured variables \<open>units\<close> and \<open>seenUnits\<close> as its state.\<close>

function collect_dfs :: "Unit \<Rightarrow> Unit list \<times> (hash \<Rightarrow> bool) \<Rightarrow> Unit list \<times> (hash \<Rightarrow> bool)" where
  "collect_dfs u s =
     foldl (\<lambda>s v. case v of
              None \<Rightarrow> s
            | Some p \<Rightarrow> if \<not> snd s (Hash p) then collect_dfs p s else s)
       (fst s @ [u], (snd s)(Hash u := True)) (Parents u)"
  by pat_completeness auto
termination
  by (relation "measure (\<lambda>(u, _). size u)") (auto dest: parent_size)

declare collect_dfs.simps [simp del]

definition collect_maximal :: "Unit list \<Rightarrow> Unit list \<times> (hash \<Rightarrow> bool) \<Rightarrow> Unit list \<times> (hash \<Rightarrow> bool)" where
  "collect_maximal us s = foldl (\<lambda>s u. if \<not> snd s (Hash u) then collect_dfs u s else s) s us"

definition collectUnits :: "dagcore \<Rightarrow> Unit list" where
  "collectUnits d = fst (Iterate (MaximalUnitsPerProcess d) (\<lambda>us s. (True, collect_maximal us s)) ([], \<lambda>_. False))"

section \<open>Statistics\<close>

text \<open>The number of levels after which all units are above \<open>u\<close>, or -1.\<close>

function popular_loop :: "dagcore \<Rightarrow> Unit \<Rightarrow> int \<Rightarrow> int \<Rightarrow> int" where
  "popular_loop d u maxLevel up =
     (if up + Level u \<le> maxLevel then
        (if Iterate (UnitsOnLevel d (Level u + up)) (\<lambda>prs ok. if list_all (\<lambda>v. Above (Some v) (Some u)) prs then (True, ok) else (False, False)) True
         then up else popular_loop d u maxLevel (up + 1))
      else -1)"
  by pat_completeness auto
termination
  by (relation "measure (\<lambda>(d, u, maxLevel, up). nat (maxLevel + 1 - Level u - up))") auto

declare popular_loop.simps [simp del]

definition popularAfter :: "dagcore \<Rightarrow> int \<Rightarrow> Unit \<Rightarrow> int" where
  "popularAfter d maxLevel u = popular_loop d u maxLevel 0"

definition nParentsOnTheSameLevel :: "Unit \<Rightarrow> int" where
  "nParentsOnTheSameLevel u = int (length (filter (\<lambda>v. case v of None \<Rightarrow> False | Some p \<Rightarrow> Level u = Level p) (Parents u)))"

record 'f StatAnalyzed =
  Distribution :: "int \<rightharpoonup> int"
  stat_Min :: int
  stat_Max :: int
  Avg :: 'f

record 'f StatAggregated =
  Overall :: "'f StatAnalyzed"
  PerProc :: "'f StatAnalyzed list"
  PerLevel :: "'f StatAnalyzed list"

definition analyze_step :: "int \<times> int \<times> int \<times> (int \<rightharpoonup> int) \<Rightarrow> int \<Rightarrow> int \<times> int \<times> int \<times> (int \<rightharpoonup> int)" where
  "analyze_step s x = (case s of (sm, mn, mx, dist) \<Rightarrow>
     (sm + x, if x < mn then x else mn, if x > mx then x else mx, dist(x \<mapsto> (case dist x of None \<Rightarrow> 0 | Some k \<Rightarrow> k) + 1)))"

text \<open>The zero value of the result has a nil map, which reads like an empty one.\<close>

definition analyze :: "(int \<Rightarrow> int \<Rightarrow> 'f::zero) \<Rightarrow> int list \<Rightarrow> 'f StatAnalyzed" where
  "analyze fdiv values =
     (case values of
        [] \<Rightarrow> \<lparr>Distribution = Map.empty, stat_Min = 0, stat_Max = 0, Avg = 0\<rparr>
      | x # _ \<Rightarrow> (case foldl analyze_step (0, x, x, Map.empty) values of (sm, mn, mx, dist) \<Rightarrow>
          \<lparr>Distribution = dist, stat_Min = mn, stat_Max = mx, Avg = fdiv sm (int (length values))\<rparr>))"

text \<open>The loop of \<open>aggregate\<close>: a creator or level out of range panics.\<close>

fun aggregate_loop :: "(Unit \<Rightarrow> int) \<Rightarrow> Unit list \<Rightarrow> int list \<times> int list list \<times> int list list \<Rightarrow> (int list \<times> int list list \<times> int list list) go" where
  "aggregate_loop stat [] s = Some s"
| "aggregate_loop stat (u # us) (values, perPid, perLevel) =
     (let v = stat u; c = unat (Creator u); l = nat (Level u) in
      if c < length perPid \<and> 0 \<le> Level u \<and> l < length perLevel
      then aggregate_loop stat us (values @ [v], perPid[c := perPid ! c @ [v]], perLevel[l := perLevel ! l @ [v]])
      else None)"

definition aggregate :: "(int \<Rightarrow> int \<Rightarrow> 'f::zero) \<Rightarrow> (Unit \<Rightarrow> int) \<Rightarrow> dagcore \<Rightarrow> Unit list \<Rightarrow> int \<Rightarrow> 'f StatAggregated go" where
  "aggregate fdiv stat d us maxLevel =
     (if maxLevel + 1 < 0 then None
      else do {
        (values, perPid, perLevel) \<leftarrow> aggregate_loop stat us ([], replicate (unat (nProc d)) [], replicate (nat (maxLevel + 1)) []);
        Some \<lparr>Overall = analyze fdiv values, PerProc = map (analyze fdiv) perPid, PerLevel = map (analyze fdiv) perLevel\<rparr> })"

record 'f dagStats =
  st_NProc :: u16
  st_NUnits :: int
  st_Level :: "'f StatAggregated"
  st_NParents :: "'f StatAggregated"
  st_PopularAfter :: "'f StatAggregated"
  st_NParentsOnTheSameLevel :: "'f StatAggregated"

text \<open>\<open>NParents\<close> keeps its zero value.\<close>

definition computeStats :: "(int \<Rightarrow> int \<Rightarrow> 'f::zero) \<Rightarrow> dagcore \<Rightarrow> Unit list \<Rightarrow> int \<Rightarrow> 'f dagStats go" where
  "computeStats fdiv d us maxLevel = do {
     l \<leftarrow> aggregate fdiv Level d us maxLevel;
     p \<leftarrow> aggregate fdiv (popularAfter d maxLevel) d us maxLevel;
     s \<leftarrow> aggregate fdiv nParentsOnTheSameLevel d us maxLevel;
     Some \<lparr>st_NProc = nProc d, st_NUnits = int (length us), st_Level = l, st_NParents = \<lparr>Overall = analyze fdiv [], PerProc = [], PerLevel = []\<rparr>, st_PopularAfter = p, st_NParentsOnTheSameLevel = s\<rparr> }"

definition highest_level :: "Unit list \<Rightarrow> int" where
  "highest_level us = foldl (\<lambda>m u. if Level u > m then Level u else m) 0 us"

text \<open>What \<open>main\<close> prints for a dag.\<close>

definition dag_stats :: "(int \<Rightarrow> int \<Rightarrow> 'f::zero) \<Rightarrow> dagcore \<Rightarrow> 'f dagStats go" where
  "dag_stats fdiv d = (let us = collectUnits d in computeStats fdiv d us (highest_level us))"

section \<open>All units are collected\<close>

text \<open>
  The state of the search while the units \<open>P\<close> are on the stack: the list has no duplicates, the marks are those of its units, and a unit that is not on the stack is there with all that is below it.
\<close>

definition collecting :: "Unit set \<Rightarrow> Unit set \<Rightarrow> Unit list \<times> (hash \<Rightarrow> bool) \<Rightarrow> bool" where
  "collecting T P s \<longleftrightarrow> distinct (fst s) \<and> set (fst s) \<subseteq> T \<and> (\<forall>w \<in> T. snd s (Hash w) \<longleftrightarrow> w \<in> set (fst s))
     \<and> (\<forall>w \<in> set (fst s) - P. \<forall>v. reaches w v \<longrightarrow> v \<in> set (fst s))"

definition adds :: "Unit set \<Rightarrow> Unit set \<Rightarrow> Unit list \<times> (hash \<Rightarrow> bool) \<Rightarrow> Unit list \<times> (hash \<Rightarrow> bool) \<Rightarrow> bool" where
  "adds T P s s' \<longleftrightarrow> collecting T P s' \<and> set (fst s) \<subseteq> set (fst s')"

lemma collect_loop:
  assumes "\<And>p s. Some p \<in> set ps \<Longrightarrow> collecting T P s \<Longrightarrow> p \<notin> set (fst s) \<Longrightarrow> adds T P s (collect_dfs p s) \<and> p \<in> set (fst (collect_dfs p s))"
    and "\<And>p. Some p \<in> set ps \<Longrightarrow> p \<in> T"
  shows "collecting T P s \<Longrightarrow> adds T P s (foldl (\<lambda>s v. case v of None \<Rightarrow> s | Some p \<Rightarrow> if \<not> snd s (Hash p) then collect_dfs p s else s) s ps)
    \<and> (\<forall>p. Some p \<in> set ps \<longrightarrow> p \<in> set (fst (foldl (\<lambda>s v. case v of None \<Rightarrow> s | Some p \<Rightarrow> if \<not> snd s (Hash p) then collect_dfs p s else s) s ps)))"
  using assms
proof (induction ps arbitrary: s)
  case Nil
  then show ?case by (simp add: adds_def)
next
  case (Cons q ps)
  define s1 where "s1 = (case q of None \<Rightarrow> s | Some p \<Rightarrow> if \<not> snd s (Hash p) then collect_dfs p s else s)"
  have 1: "adds T P s s1" "q = Some p \<Longrightarrow> p \<in> set (fst s1)" for p
    using Cons.prems by (auto simp: s1_def collecting_def adds_def split: option.splits)
  have "adds T P s1 (foldl (\<lambda>s v. case v of None \<Rightarrow> s | Some p \<Rightarrow> if \<not> snd s (Hash p) then collect_dfs p s else s) s1 ps)
    \<and> (\<forall>p. Some p \<in> set ps \<longrightarrow> p \<in> set (fst (foldl (\<lambda>s v. case v of None \<Rightarrow> s | Some p \<Rightarrow> if \<not> snd s (Hash p) then collect_dfs p s else s) s1 ps)))"
    using Cons.prems 1(1) by (intro Cons.IH) (auto simp: adds_def)
  then show ?case using 1 by (auto simp: adds_def simp flip: s1_def)
qed

lemma collect_dfs_adds:
  assumes inj: "inj_on Hash T" and cl: "parents_closed T"
  shows "u \<in> T \<Longrightarrow> collecting T P s \<Longrightarrow> u \<notin> set (fst s) \<Longrightarrow> \<forall>x \<in> P. size u < size x \<Longrightarrow> adds T P s (collect_dfs u s) \<and> u \<in> set (fst (collect_dfs u s))"
proof (induction "size u" arbitrary: u s P rule: less_induct)
  case less
  let ?s0 = "(fst s @ [u], (snd s)(Hash u := True))" and ?P = "insert u P"
  have c0: "collecting T ?P ?s0"
    using less.prems(1-3) inj_onD [OF inj, of _ u] unfolding collecting_def by auto
  have pT: "p \<in> T" if "Some p \<in> set (Parents u)" for p
    using cl less.prems(1) that unfolding parents_closed_def by blast
  have IH: "adds T ?P s' (collect_dfs p s') \<and> p \<in> set (fst (collect_dfs p s'))"
    if "Some p \<in> set (Parents u)" "collecting T ?P s'" "p \<notin> set (fst s')" for p s'
    using less.hyps [OF parent_size [OF that(1)] pT [OF that(1)] that(2,3)] less.prems(4) parent_size [OF that(1)] by fastforce
  let ?r = "collect_dfs u s"
  have r: "adds T ?P ?s0 ?r" "\<And>p. Some p \<in> set (Parents u) \<Longrightarrow> p \<in> set (fst ?r)"
    using collect_loop [OF IH pT c0] by (simp_all add: collect_dfs.simps [of u s])
  have below: "v \<in> set (fst ?r)" if "reaches u v" for v
    using that
  proof (cases rule: reaches.cases)
    case refl
    then show ?thesis using r(1) by (auto simp: adds_def)
  next
    case (step p)
    then have "p \<notin> ?P" using less.prems(4) parent_size [OF step(1)] by fastforce
    then show ?thesis using r(1) r(2) [OF step(1)] step(2) unfolding adds_def collecting_def by blast
  qed
  have "\<forall>w \<in> set (fst ?r) - P. \<forall>v. reaches w v \<longrightarrow> v \<in> set (fst ?r)"
    using r(1) below unfolding adds_def collecting_def by blast
  then have "collecting T P ?r" using r(1) unfolding adds_def collecting_def by blast
  moreover have "set (fst s) \<subseteq> set (fst ?r)" using r(1) unfolding adds_def by auto
  ultimately show ?case using below [OF reaches.refl] unfolding adds_def by blast
qed

lemma collect_maximal_adds:
  assumes "inj_on Hash T" "parents_closed T"
  shows "set us \<subseteq> T \<Longrightarrow> collecting T {} s \<Longrightarrow> adds T {} s (collect_maximal us s) \<and> set us \<subseteq> set (fst (collect_maximal us s))"
proof (induction us arbitrary: s)
  case (Cons u us)
  define s1 where "s1 = (if \<not> snd s (Hash u) then collect_dfs u s else s)"
  have 1: "adds T {} s s1 \<and> u \<in> set (fst s1)"
    using Cons.prems collect_dfs_adds [OF assms, of u "{}" s] by (auto simp: s1_def collecting_def adds_def)
  then have "adds T {} s1 (collect_maximal us s1) \<and> set us \<subseteq> set (fst (collect_maximal us s1))" using Cons.prems by (intro Cons.IH) (auto simp: adds_def)
  moreover have "collect_maximal (u # us) s = collect_maximal us s1" by (simp add: collect_maximal_def s1_def)
  ultimately show ?case using 1 by (auto simp: adds_def)
qed (simp add: collect_maximal_def adds_def)

lemma collect_slots_adds:
  assumes "inj_on Hash T" "parents_closed T"
  shows "\<forall>us \<in> set uss. set us \<subseteq> T \<Longrightarrow> collecting T {} s
    \<Longrightarrow> collecting T {} (foldl (\<lambda>s us. collect_maximal us s) s uss) \<and> set (fst s) \<subseteq> set (fst (foldl (\<lambda>s us. collect_maximal us s) s uss))
      \<and> (\<forall>us \<in> set uss. set us \<subseteq> set (fst (foldl (\<lambda>s us. collect_maximal us s) s uss)))"
proof (induction uss arbitrary: s)
  case (Cons us uss)
  note 1 = collect_maximal_adds [OF assms, of us s]
  then have "collecting T {} (collect_maximal us s)" using Cons.prems by (auto simp: adds_def)
  from Cons.IH [OF _ this] show ?case using 1 Cons.prems by (auto simp: adds_def)
qed simp

lemma maximal_above:
  assumes D: "dag_inv d es" and v: "v \<in> set es"
  obtains m where "m \<in> set es" "maximal_in es m" "chain m v"
proof -
  note U = units_invD [OF dag_invD(1) [OF D]]
  let ?A = "Height ` {w \<in> set es. chain w v}"
  have "finite ?A" "?A \<noteq> {}" using v chain.intros(1) [of v] by auto
  then have "Max ?A \<in> ?A" "\<And>h. h \<in> ?A \<Longrightarrow> h \<le> Max ?A" by auto
  then obtain m where m: "m \<in> set es" "chain m v" "Height m = Max ?A" by auto
  have "maximal_in es m"
    unfolding maximal_in_def
  proof
    assume "\<exists>w \<in> set es. w \<noteq> m \<and> chain w m"
    then obtain w where w: "w \<in> set es" "w \<noteq> m" "chain w m" by blast
    then have "Height m < Height w" using chain_Height [OF w(3) U(1) w(1)] by fastforce
    moreover have "chain w v" using chain_trans [OF w(3) m(2)] .
    ultimately show False using m(3) w(1) \<open>\<And>h. h \<in> ?A \<Longrightarrow> h \<le> Max ?A\<close> by fastforce
  qed
  then show thesis using that m by blast
qed

lemma collectUnits_inv:
  assumes D: "dag_inv d es"
  shows "mset (collectUnits d) = mset es"
proof -
  note U = units_invD [OF dag_invD(1) [OF D]]
  have T: "inj_on Hash (set es)" "parents_closed (set es)" "distinct es" using U(1,2) by (auto simp: wf_set_def distinct_map)
  let ?uss = "map (Get (maxUnits d)) (pids (nProc d))"
  let ?r = "foldl (\<lambda>s us. collect_maximal us s) ([], \<lambda>_. False) ?uss"
  have c: "collectUnits d = fst ?r"
    using dag_invD(5) [OF D] by (simp add: collectUnits_def Iterate_def MaximalUnitsPerProcess_def Get_contents Iterate_all)
  have "\<forall>us \<in> set ?uss. set us \<subseteq> set es" using dag_invD(6) [OF D] by auto
  from collect_slots_adds [OF T(1,2) this, of "([], \<lambda>_. False)"]
  have r: "collecting (set es) {} ?r" "\<forall>us \<in> set ?uss. set us \<subseteq> set (fst ?r)" by (auto simp: collecting_def)
  have "v \<in> set (fst ?r)" if v: "v \<in> set es" for v
  proof -
    obtain m where m: "m \<in> set es" "maximal_in es m" "chain m v" using maximal_above [OF D v] .
    then have "Creator m < nProc d" using wf_setD(1) [OF U(1)] by (simp add: wf_node_def)
    moreover have "m \<in> set (Get (maxUnits d) (Creator m))" using dag_invD(6) [OF D] m by simp
    ultimately have "m \<in> set (fst ?r)" using r(2) by auto
    then show ?thesis using r(1) chain_reaches [OF m(3)] unfolding collecting_def by blast
  qed
  then have "set (fst ?r) = set es" "distinct (fst ?r)" using r(1) by (auto simp: collecting_def)
  then show ?thesis using T(3) c by (simp add: set_eq_iff_mset_eq_distinct)
qed

section \<open>The statistics are those of all units\<close>

definition tally :: "int list \<Rightarrow> int \<rightharpoonup> int" where
  "tally vs x = (if x \<in> set vs then Some (int (count_list vs x)) else None)"

lemma analyze_fold: "foldl analyze_step (sm, mn, mx, tally ws) vs
  = (sm + sum_list vs, foldl min mn vs, foldl max mx vs, tally (ws @ vs))"
proof (induction vs arbitrary: sm mn mx ws)
  case (Cons v vs)
  have "(tally ws)(v \<mapsto> (case tally ws v of None \<Rightarrow> 0 | Some k \<Rightarrow> k) + 1) = tally (ws @ [v])"
    by (auto simp: tally_def fun_eq_iff count_notin)
  then have "analyze_step (sm, mn, mx, tally ws) v = (sm + v, min mn v, max mx v, tally (ws @ [v]))"
    by (simp add: analyze_step_def min_def max_def)
  then show ?case using Cons [of "sm + v" "min mn v" "max mx v" "ws @ [v]"] by simp
qed simp

lemma foldl_min: "foldl min m vs = Min (insert m (set vs))" for m :: int
proof -
  have "(\<lambda>x s. min s x) = (min :: int \<Rightarrow> _)" by (simp add: fun_eq_iff min.commute)
  then show ?thesis using Min.set_eq_fold [of m vs] by (simp add: foldl_conv_fold)
qed

lemma foldl_max: "foldl max m vs = Max (insert m (set vs))" for m :: int
proof -
  have "(\<lambda>x s. max s x) = (max :: int \<Rightarrow> _)" by (simp add: fun_eq_iff max.commute)
  then show ?thesis using Max.set_eq_fold [of m vs] by (simp add: foldl_conv_fold)
qed

lemma tally_empty: "tally [] = Map.empty"
  by (simp add: tally_def fun_eq_iff)

lemma analyze_correct:
  "Distribution (analyze fdiv vs) = tally vs"
  "vs \<noteq> [] \<Longrightarrow> stat_Min (analyze fdiv vs) = Min (set vs) \<and> stat_Max (analyze fdiv vs) = Max (set vs) \<and> Avg (analyze fdiv vs) = fdiv (sum_list vs) (int (length vs))"
  using analyze_fold [of 0 "hd vs" "hd vs" "[]" vs]
  by (cases vs; simp add: analyze_def tally_empty foldl_min foldl_max insert_absorb)+

lemma aggregate_loop_ok:
  assumes "\<forall>u \<in> set us. unat (Creator u) < length pp \<and> 0 \<le> Level u \<and> nat (Level u) < length pl"
  shows "aggregate_loop stat us (vs, pp, pl)
    = Some (vs @ map stat us, map (\<lambda>i. pp ! i @ map stat (filter (\<lambda>u. unat (Creator u) = i) us)) [0..<length pp],
        map (\<lambda>i. pl ! i @ map stat (filter (\<lambda>u. nat (Level u) = i) us)) [0..<length pl])"
  using assms
proof (induction us arbitrary: vs pp pl)
  case Nil
  then show ?case by (simp add: map_nth)
next
  case (Cons u us)
  have "aggregate_loop stat (u # us) (vs, pp, pl)
      = aggregate_loop stat us (vs @ [stat u], pp[unat (Creator u) := pp ! unat (Creator u) @ [stat u]], pl[nat (Level u) := pl ! nat (Level u) @ [stat u]])"
    using Cons.prems by (simp add: Let_def)
  then show ?case using Cons by (auto simp: nth_list_update)
qed

text \<open>The contract of an aggregated statistic of the units \<open>es\<close>.\<close>

definition summarizes :: "(Unit \<Rightarrow> int) \<Rightarrow> u16 \<Rightarrow> int \<Rightarrow> Unit list \<Rightarrow> 'f StatAggregated \<Rightarrow> bool" where
  "summarizes stat n maxLevel es a \<longleftrightarrow>
     Distribution (Overall a) = tally (map stat es)
     \<and> (es \<noteq> [] \<longrightarrow> stat_Min (Overall a) = Min (stat ` set es) \<and> stat_Max (Overall a) = Max (stat ` set es))
     \<and> length (PerProc a) = unat n \<and> (\<forall>c < n. Distribution (PerProc a ! unat c) = tally (map stat (filter (\<lambda>u. Creator u = c) es)))
     \<and> length (PerLevel a) = nat (maxLevel + 1) \<and> (\<forall>l. 0 \<le> l \<and> l \<le> maxLevel \<longrightarrow> Distribution (PerLevel a ! nat l) = tally (map stat (filter (\<lambda>u. Level u = l) es)))"

lemma tally_mset: "mset vs = mset ws \<Longrightarrow> tally vs = tally ws"
  by (auto simp: tally_def fun_eq_iff simp flip: count_mset dest: mset_eq_setD)

lemma tally_perm: "mset us = mset es \<Longrightarrow> tally (map stat (filter P us)) = tally (map stat (filter P es))"
  by (intro tally_mset) (simp add: mset_map mset_filter)

lemma aggregate_ok:
  assumes "mset us = mset es" "\<forall>u \<in> set es. Creator u < nProc d \<and> 0 \<le> Level u \<and> Level u \<le> maxLevel" "0 \<le> maxLevel"
  obtains a where "aggregate fdiv stat d us maxLevel = Some a" "summarizes stat (nProc d) maxLevel es a"
proof -
  have st: "set us = set es" using assms(1) mset_eq_setD by blast
  then have ne: "us = [] \<longleftrightarrow> es = []" by auto
  have b: "\<forall>u \<in> set us. unat (Creator u) < unat (nProc d) \<and> 0 \<le> Level u \<and> nat (Level u) < nat (maxLevel + 1)"
    using assms(2) st by (auto simp: word_less_nat_alt)
  let ?pp = "map (\<lambda>i. map stat (filter (\<lambda>u. unat (Creator u) = i) us)) [0..<unat (nProc d)]"
  let ?pl = "map (\<lambda>i. map stat (filter (\<lambda>u. nat (Level u) = i) us)) [0..<nat (maxLevel + 1)]"
  let ?a = "\<lparr>Overall = analyze fdiv (map stat us), PerProc = map (analyze fdiv) ?pp, PerLevel = map (analyze fdiv) ?pl\<rparr>"
  have "map (\<lambda>i. replicate m [] ! i @ f i) [0..<m] = map f [0..<m]" for m and f :: "nat \<Rightarrow> int list" by simp
  then have "aggregate fdiv stat d us maxLevel = Some ?a"
    using aggregate_loop_ok [of us "replicate (unat (nProc d)) []" "replicate (nat (maxLevel + 1)) []" stat "[]"] b assms(3) by (simp add: aggregate_def)
  moreover have "filter (\<lambda>u. nat (Level u) = nat l) us = filter (\<lambda>u. Level u = l) us" if "0 \<le> l" for l
    using b that by (intro filter_cong) auto
  then have "summarizes stat (nProc d) maxLevel es ?a"
    using tally_perm [OF assms(1), of stat "\<lambda>_. True"] analyze_correct(2) [of "map stat us" fdiv] st ne
    by (auto simp: summarizes_def analyze_correct(1) word_less_nat_alt unat_eq_iff tally_perm [OF assms(1)])
  ultimately show thesis using that by blast
qed

lemma highest_level_Max: "highest_level us = Max (insert 0 (Level ` set us))"
proof -
  have "foldl (\<lambda>m u. if Level u > m then Level u else m) m us = foldl max m (map Level us)" for m
    by (induction us arbitrary: m) (simp_all add: max_def)
  then show ?thesis by (simp add: highest_level_def foldl_max)
qed

lemma level_nonneg:
  assumes D: "dag_inv d es" and u: "u \<in> set es"
  shows "0 \<le> Level u"
proof (rule ccontr)
  assume "\<not> 0 \<le> Level u"
  moreover have "fm_wf (nProc d) (levelUnits d)" using dag_invD(3) [OF D] by (simp add: on_level.represents_def)
  ultimately have "fm_lookup (levelUnits d) (Level u) (Creator u) = []" using fm_wf_None [of "nProc d" "levelUnits d" "Level u"] by (simp add: fm_lookup_content)
  then show False using on_level.represents_lookup [OF dag_invD(3) [OF D], of "Level u" "Creator u"] u by (auto simp: filter_empty_conv)
qed

text \<open>
  C15: the statistics that \<open>dag_analyzer\<close> prints are those of the dag: for every dag grown by insertions of checked units the program returns without an index out of range, it counts
  every unit once, whatever forks there are, and the distributions of each statistic over all units, per process and per level are the numbers of units that have each value.
\<close>

theorem dag_stats_complete:
  assumes "dag_reach mq n d es" "0 < mq n"
  shows "\<exists>st. dag_stats fdiv d = Some st \<and> st_NProc st = n \<and> st_NUnits st = int (length es)
    \<and> summarizes Level n (highest_level es) es (st_Level st)
    \<and> summarizes (popularAfter d (highest_level es)) n (highest_level es) es (st_PopularAfter st)
    \<and> summarizes nParentsOnTheSameLevel n (highest_level es) es (st_NParentsOnTheSameLevel st)"
proof -
  have D: "dag_inv d es" and n: "nProc d = n" using dag_reach_inv [OF assms] by auto
  note c = collectUnits_inv [OF D]
  have h: "highest_level (collectUnits d) = highest_level es" using mset_eq_setD [OF c] by (simp add: highest_level_Max)
  have b: "\<forall>u \<in> set es. Creator u < nProc d \<and> 0 \<le> Level u \<and> Level u \<le> highest_level es" "0 \<le> highest_level es"
    using wf_setD(1) [OF units_invD(1) [OF dag_invD(1) [OF D]]] level_nonneg [OF D] by (auto simp: wf_node_def highest_level_Max)
  obtain l where l: "aggregate fdiv Level d (collectUnits d) (highest_level es) = Some l" "summarizes Level n (highest_level es) es l"
    using aggregate_ok [OF c b] n by metis
  obtain p where p: "aggregate fdiv (popularAfter d (highest_level es)) d (collectUnits d) (highest_level es) = Some p"
    "summarizes (popularAfter d (highest_level es)) n (highest_level es) es p" using aggregate_ok [OF c b] n by metis
  obtain q where q: "aggregate fdiv nParentsOnTheSameLevel d (collectUnits d) (highest_level es) = Some q"
    "summarizes nParentsOnTheSameLevel n (highest_level es) es q" using aggregate_ok [OF c b] n by metis
  show ?thesis using l p q n mset_eq_length [OF c] by (simp add: dag_stats_def Let_def h computeStats_def)
qed

text \<open>What the second statistic means: the first level at which all units are above \<open>u\<close>.\<close>

lemma iterate_all_true:
  "iterate_slots (\<lambda>prs ok. if list_all P prs then (True, ok) else (False, False)) uss True \<longleftrightarrow> (\<forall>us \<in> set uss. list_all P us)"
  by (induction uss) auto

lemma level_iterate:
  assumes D: "dag_inv d es"
  shows "Iterate (UnitsOnLevel d l) (\<lambda>prs ok. if list_all P prs then (True, ok) else (False, False)) True
    \<longleftrightarrow> (\<forall>v \<in> set es. Level v = l \<longrightarrow> P v)"
proof -
  have w: "su_wf (nProc d) (UnitsOnLevel d l)"
    using dag_invD(3) [OF D] by (auto simp: UnitsOnLevel_def getFiber_def on_level.represents_def fm_wf_def su.new_wf split: option.splits sum.splits)
  have "v \<in> set es \<Longrightarrow> Creator v < nProc d" for v
    using wf_setD(1) [OF units_invD(1) [OF dag_invD(1) [OF D]], of v] by (simp add: wf_node_def)
  then show ?thesis
    unfolding Iterate_def Get_contents [OF w] iterate_all_true by (auto simp: list_all_iff UnitsOnLevel_inv [OF D])
qed

lemma popularAfter_first:
  assumes "dag_reach mq n d es" "0 < mq n"
  shows "let k = popularAfter d maxLevel u in
    if k = -1 then \<forall>j. 0 \<le> j \<and> Level u + j \<le> maxLevel \<longrightarrow> (\<exists>v \<in> set es. Level v = Level u + j \<and> \<not> Above (Some v) (Some u))
    else 0 \<le> k \<and> Level u + k \<le> maxLevel \<and> (\<forall>v \<in> set es. Level v = Level u + k \<longrightarrow> Above (Some v) (Some u))
      \<and> (\<forall>j. 0 \<le> j \<and> j < k \<longrightarrow> (\<exists>v \<in> set es. Level v = Level u + j \<and> \<not> Above (Some v) (Some u)))"
proof -
  let ?all = "\<lambda>j. \<forall>v \<in> set es. Level v = Level u + j \<longrightarrow> Above (Some v) (Some u)"
  have D: "dag_inv d es" using dag_reach_inv [OF assms] by blast
  have "0 \<le> up \<Longrightarrow> (popular_loop d u maxLevel up = -1 \<and> (\<forall>j. up \<le> j \<and> Level u + j \<le> maxLevel \<longrightarrow> \<not> ?all j))
    \<or> (up \<le> popular_loop d u maxLevel up \<and> Level u + popular_loop d u maxLevel up \<le> maxLevel \<and> ?all (popular_loop d u maxLevel up)
       \<and> (\<forall>j. up \<le> j \<and> j < popular_loop d u maxLevel up \<longrightarrow> \<not> ?all j))" for up
  proof (induction "nat (maxLevel + 1 - Level u - up)" arbitrary: up rule: less_induct)
    case less
    consider "maxLevel < up + Level u" | "up + Level u \<le> maxLevel" "?all up" | "up + Level u \<le> maxLevel" "\<not> ?all up" by linarith
    then show ?case
    proof cases
      case 3
      have split: "(\<forall>j. up \<le> j \<and> Q j \<longrightarrow> \<not> ?all j) \<longleftrightarrow> (\<forall>j. up + 1 \<le> j \<and> Q j \<longrightarrow> \<not> ?all j)" for Q
        using 3(2) by (intro iff_allI) (metis add1_zle_eq order.order_iff_strict)
      have eq: "popular_loop d u maxLevel up = popular_loop d u maxLevel (up + 1)"
        using 3 unfolding popular_loop.simps [of d u maxLevel up] level_iterate [OF D] by (simp only: if_True if_False)
      have "nat (maxLevel + 1 - Level u - (up + 1)) < nat (maxLevel + 1 - Level u - up)" "0 \<le> up + 1" using 3(1) less.prems by simp_all
      note less.hyps [OF this]
      moreover have "up + 1 \<le> k \<Longrightarrow> up \<le> k" for k by simp
      ultimately show ?thesis unfolding split eq by blast
    next
      case 1
      then have "popular_loop d u maxLevel up = -1" by (simp add: popular_loop.simps [of d u maxLevel up])
      then show ?thesis using 1 by fastforce
    qed (use less.prems in \<open>simp_all add: popular_loop.simps [of d u maxLevel up] level_iterate [OF D] add.commute\<close>)
  qed
  from this [of 0] show ?thesis by (auto simp: popularAfter_def Let_def)
qed

text \<open>In the dag of the examples with three units, two of them of level 0.\<close>

theorem dag_stats_complete_witness:
  "\<exists>d st. map_option fst demo = Some d \<and> dag_stats (div) d = Some st \<and> st_NUnits st = 3 \<and> Distribution (Overall (st_Level st)) 0 = Some 2"
proof -
  have pos: "0 < demo_mq 2" by code_simp
  obtain d where d: "demo = Some (d, [demo_a0, demo_b0, demo_a1])" "dag_reach demo_mq 2 d [demo_a0, demo_b0, demo_a1]" by (rule demo_reach)
  have "tally (map Level [demo_a0, demo_b0, demo_a1]) 0 = Some 2" by code_simp
  moreover obtain st where "dag_stats (div) d = Some st" "st_NUnits st = 3"
      "Distribution (Overall (st_Level st)) = tally (map Level [demo_a0, demo_b0, demo_a1])"
    using dag_stats_complete [OF d(2) pos, of "(div)"] by (auto simp: summarizes_def)
  ultimately show ?thesis using d(1) by (metis fst_conv option.map(2))
qed

end
